(* ===== verification/Prelude.thy ===== *)
theory Prelude
  imports Main "HOL-Library.Word"
begin

text \<open>
  What every component of the development shares: the status values the C
  functions return, the character classes of the C locale (ctype.h, read
  through the apr_is* macros of apr_lib.h), C strings as character lists, and
  generic facts on lists and maps.

  A C string is the list of its characters without the terminating NUL, and a
  pointer into it is the suffix that starts there: the test for the end of the
  string is the test for the empty list. A list that holds no NUL character is
  well formed (cstring).
\<close>

unbundle bit_operations_syntax

named_theorems frame_simps
  \<open>fields that an operation leaves alone\<close>

named_theorems ctype_simps
  \<open>definitions of the character classes\<close>

section \<open>Status values\<close>

text \<open>
  The apr_status_t values the modelled code returns or tests. Errors of the
  operating system are carried as their number.
\<close>

datatype apr_status =
    APR_SUCCESS
  | APR_EGENERAL
  | APR_EOF
  | APR_EINTR
  | APR_EAGAIN
  | APR_ENOMEM
  | APR_EINVAL
  | APR_ENOTFOUND
  | APR_OS int

type_synonym cstr = string

definition cstring :: "cstr \<Rightarrow> bool" where
  "cstring s \<longleftrightarrow> CHR 0x00 \<notin> set s"

lemma cstring_simps [simp]:
  "cstring []"
  "cstring (c # s) \<longleftrightarrow> c \<noteq> CHR 0x00 \<and> cstring s"
  "cstring (s @ t) \<longleftrightarrow> cstring s \<and> cstring t"
  by (auto simp: cstring_def)

lemma cstring_take [intro]: "cstring s \<Longrightarrow> cstring (take n s)"
  by (auto simp: cstring_def dest: in_set_takeD)

lemma cstring_drop [intro]: "cstring s \<Longrightarrow> cstring (drop n s)"
  by (auto simp: cstring_def dest: in_set_dropD)

section \<open>Character classes\<close>

abbreviation chr_code :: "char \<Rightarrow> nat" where
  "chr_code c \<equiv> of_char c"

lemma chr_code_bound [simp]: "chr_code c < 256"
  using nat_of_char_less_256 by simp

definition apr_isspace :: "char \<Rightarrow> bool" where
  [ctype_simps]: "apr_isspace c \<longleftrightarrow>
     c = CHR '' '' \<or> (9 \<le> chr_code c \<and> chr_code c \<le> 13)"

definition apr_isdigit :: "char \<Rightarrow> bool" where
  [ctype_simps]: "apr_isdigit c \<longleftrightarrow> 48 \<le> chr_code c \<and> chr_code c \<le> 57"

definition apr_isupper :: "char \<Rightarrow> bool" where
  [ctype_simps]: "apr_isupper c \<longleftrightarrow> 65 \<le> chr_code c \<and> chr_code c \<le> 90"

definition apr_islower :: "char \<Rightarrow> bool" where
  [ctype_simps]: "apr_islower c \<longleftrightarrow> 97 \<le> chr_code c \<and> chr_code c \<le> 122"

definition apr_isalpha :: "char \<Rightarrow> bool" where
  [ctype_simps]: "apr_isalpha c \<longleftrightarrow> apr_isupper c \<or> apr_islower c"

definition apr_isalnum :: "char \<Rightarrow> bool" where
  [ctype_simps]: "apr_isalnum c \<longleftrightarrow> apr_isalpha c \<or> apr_isdigit c"

definition apr_isxdigit :: "char \<Rightarrow> bool" where
  [ctype_simps]: "apr_isxdigit c \<longleftrightarrow> apr_isdigit c
     \<or> (65 \<le> chr_code c \<and> chr_code c \<le> 70) \<or> (97 \<le> chr_code c \<and> chr_code c \<le> 102)"

definition apr_iscntrl :: "char \<Rightarrow> bool" where
  [ctype_simps]: "apr_iscntrl c \<longleftrightarrow> chr_code c < 32 \<or> chr_code c = 127"

definition apr_tolower :: "char \<Rightarrow> char" where
  [ctype_simps]: "apr_tolower c = (if apr_isupper c then char_of (chr_code c + 32) else c)"

definition apr_toupper :: "char \<Rightarrow> char" where
  [ctype_simps]: "apr_toupper c = (if apr_islower c then char_of (chr_code c - 32) else c)"

lemma apr_tolower_idem [simp]: "apr_tolower (apr_tolower c) = apr_tolower c"
  by (auto simp: ctype_simps)

section \<open>Lists and maps\<close>

lemma set_take_Suc_nth:
  "i < length xs \<Longrightarrow> set (take (Suc i) xs) = insert (xs ! i) (set (take i xs))"
  by (simp add: take_Suc_conv_app_nth)

lemma nth_list_update_cases:
  "i < length xs \<Longrightarrow> xs[i := v] ! j = (if j = i then v else xs ! j)"
  by simp

lemma map_upd_idem: "m k = Some v \<Longrightarrow> m(k \<mapsto> v) = m"
  by (rule ext) simp

lemma length_concat_update:
  "b < length xss \<Longrightarrow>
     length (concat (xss[b := ys])) + length (xss ! b) = length (concat xss) + length ys"
proof (induction xss arbitrary: b)
  case (Cons xs xss)
  then show ?case by (cases b) auto
qed simp

lemma takeWhile_as_take: "takeWhile P xs = take (length (takeWhile P xs)) xs"
  by (metis takeWhile_eq_take)

end
