(* ===== verification/Interfaces.thy ===== *)
theory Interfaces
  imports Prelude "HOL-Library.Multiset"
begin

text \<open>
  The contracts between the components, as locales: what a provider promises
  of its operations and what a client may conclude from it. Each locale is
  interpreted on the model of the code that provides it, in that component's
  theory.
\<close>

section \<open>Priority queues\<close>

text \<open>Taking n elements off a queue, the first one taken first.\<close>

fun pop_times :: "('q \<Rightarrow> 'a option \<times> 'q) \<Rightarrow> nat \<Rightarrow> 'q \<Rightarrow> 'a list \<times> 'q" where
  "pop_times pop 0 q = ([], q)"
| "pop_times pop (Suc n) q =
     (case pop q of
        (None, q') \<Rightarrow> ([], q')
      | (Some x, q') \<Rightarrow> (case pop_times pop n q' of (xs, q'') \<Rightarrow> (x # xs, q'')))"

locale prio_queue =
  fixes inv :: "'q \<Rightarrow> bool"
    and elems :: "'q \<Rightarrow> 'a set"
    and pri :: "'a \<Rightarrow> int"
    and pop :: "'q \<Rightarrow> 'a option \<times> 'q"
  assumes finite_elems: "inv q \<Longrightarrow> finite (elems q)"
    and pop_empty: "inv q \<Longrightarrow> elems q = {} \<Longrightarrow> pop q = (None, q)"
    and pop_max: "inv q \<Longrightarrow> elems q \<noteq> {} \<Longrightarrow>
      \<exists>x q'. pop q = (Some x, q') \<and> x \<in> elems q \<and> (\<forall>y \<in> elems q. pri y \<le> pri x)
        \<and> inv q' \<and> elems q' = elems q - {x}"
begin

lemma pop_times_spec:
  assumes "inv q" and "n \<le> card (elems q)" and "pop_times pop n q = (xs, q')"
  shows "inv q' \<and> length xs = n \<and> distinct xs \<and> set xs \<subseteq> elems q
    \<and> elems q' = elems q - set xs
    \<and> sorted_wrt (\<lambda>x y. pri y \<le> pri x) xs
    \<and> (\<forall>x \<in> set xs. \<forall>y \<in> elems q'. pri y \<le> pri x)"
  using assms
proof (induction n arbitrary: q xs)
  case 0
  then show ?case by simp
next
  case (Suc n)
  have "elems q \<noteq> {}" using Suc.prems(2) by auto
  then obtain x q1 where pop: "pop q = (Some x, q1)" and x: "x \<in> elems q"
      "\<forall>y \<in> elems q. pri y \<le> pri x" and q1: "inv q1" "elems q1 = elems q - {x}"
    using pop_max Suc.prems(1) by blast
  obtain ys where ys: "pop_times pop n q1 = (ys, q')" and xs: "xs = x # ys"
    using Suc.prems(3) pop by (auto split: prod.splits)
  have "n \<le> card (elems q1)"
    using q1(2) x(1) Suc.prems(2) finite_elems [OF Suc.prems(1)] by (simp add: card_Diff_singleton)
  note IH = Suc.IH [OF q1(1) this ys]
  show ?case using IH x q1(2) xs by auto
qed

lemma pop_all:
  assumes "inv q"
  shows "\<exists>xs q'. pop_times pop (card (elems q)) q = (xs, q') \<and> inv q' \<and> elems q' = {}
    \<and> distinct xs \<and> set xs = elems q \<and> sorted_wrt (\<lambda>x y. pri y \<le> pri x) xs"
proof -
  obtain xs q' where r: "pop_times pop (card (elems q)) q = (xs, q')" by fastforce
  note spec = pop_times_spec [OF assms order_refl r]
  have "set xs = elems q"
    using spec finite_elems [OF assms] by (metis card_subset_eq distinct_card)
  then show ?thesis using r spec by auto
qed

end

section \<open>Keyed stores\<close>

text \<open>
  A store with one operation that sets a key to a value, or unsets it when the
  value is missing (the null pointer). Every state the client reaches by such
  updates answers a lookup with the last update of the key.
\<close>

locale keyed_store =
  fixes inv :: "'s \<Rightarrow> bool"
    and look :: "'s \<Rightarrow> 'k \<Rightarrow> 'v option"
    and put :: "'k \<Rightarrow> 'v option \<Rightarrow> 's \<Rightarrow> 's"
  assumes inv_put: "inv s \<Longrightarrow> inv (put k v s)"
    and look_put: "inv s \<Longrightarrow> look (put k v s) = (look s)(k := v)"
begin

lemma inv_puts: "inv s \<Longrightarrow> inv (fold (\<lambda>(k, v). put k v) ops s)"
  by (induction ops arbitrary: s) (auto simp: inv_put)

lemma look_puts:
  "inv s \<Longrightarrow> look (fold (\<lambda>(k, v). put k v) ops s) = fold (\<lambda>(k, v) m. m(k := v)) ops (look s)"
  by (induction ops arbitrary: s) (auto simp: inv_put look_put)

lemma look_put_same: "inv s \<Longrightarrow> look (put k v s) k = v"
  by (simp add: look_put)

lemma look_put_other: "inv s \<Longrightarrow> k \<noteq> k' \<Longrightarrow> look (put k v s) k' = look s k'"
  by (simp add: look_put)

lemma put_swap:
  "inv s \<Longrightarrow> k \<noteq> k' \<Longrightarrow> look (put k v (put k' v' s)) = look (put k' v' (put k v s))"
  by (auto simp: look_put inv_put)

end

section \<open>Normal forms\<close>

text \<open>
  A clean-up function: its result is in normal form, and it leaves a text in
  normal form alone.
\<close>

locale normal_form =
  fixes norm :: "'a \<Rightarrow> 'a" and nf :: "'a \<Rightarrow> bool"
  assumes nf_norm: "nf (norm x)"
    and norm_nf: "nf x \<Longrightarrow> norm x = x"
begin

lemma norm_idem: "norm (norm x) = norm x"
  by (rule norm_nf) (rule nf_norm)

lemma norm_fixpoints: "norm x = x \<longleftrightarrow> nf x"
  using nf_norm norm_nf by metis

lemma norm_range: "range norm = {x. nf x}"
proof
  show "range norm \<subseteq> {x. nf x}" by (auto simp: nf_norm)
  show "{x. nf x} \<subseteq> range norm" by (metis mem_Collect_eq norm_nf rangeI subsetI)
qed

end

section \<open>Bounded buffers\<close>

text \<open>
  A buffer of limited size: an element may be put in while there is room, and
  taken out while there is one. serve runs a list of requests and refuses the
  ones that do not fit; it returns the elements accepted and the ones handed
  out. No buffer loses or makes up an element; a queue hands them out in the
  order they came, a stack the newest first.
\<close>

datatype 'a request = Put 'a | Get

locale bounded_buffer =
  fixes inv :: "'q \<Rightarrow> bool"
    and contents :: "'q \<Rightarrow> 'a list"
    and bound :: "'q \<Rightarrow> nat"
    and put :: "'a \<Rightarrow> 'q \<Rightarrow> 'q"
    and get :: "'q \<Rightarrow> 'a \<times> 'q"
  assumes bounded: "inv q \<Longrightarrow> length (contents q) \<le> bound q"
    and put_inv: "inv q \<Longrightarrow> length (contents q) < bound q \<Longrightarrow>
      inv (put x q) \<and> bound (put x q) = bound q
        \<and> mset (contents (put x q)) = add_mset x (mset (contents q))"
    and get_inv: "inv q \<Longrightarrow> contents q \<noteq> [] \<Longrightarrow>
      inv (snd (get q)) \<and> bound (snd (get q)) = bound q
        \<and> mset (contents q) = add_mset (fst (get q)) (mset (contents (snd (get q))))"
begin

fun serve :: "'q \<Rightarrow> 'a request list \<Rightarrow> 'q \<times> 'a list \<times> 'a list" where
  "serve q [] = (q, [], [])"
| "serve q (Put x # rs) =
     (if length (contents q) < bound q
      then case serve (put x q) rs of (q', ins, outs) \<Rightarrow> (q', x # ins, outs)
      else serve q rs)"
| "serve q (Get # rs) =
     (if contents q \<noteq> []
      then case serve (snd (get q)) rs of (q', ins, outs) \<Rightarrow> (q', ins, fst (get q) # outs)
      else serve q rs)"

lemma serve_inv: "inv q \<Longrightarrow> serve q rs = (q', ins, outs) \<Longrightarrow> inv q' \<and> bound q' = bound q"
proof (induction q rs arbitrary: q' ins outs rule: serve.induct)
  case (2 q x rs)
  show ?case
  proof (cases "length (contents q) < bound q")
    case True
    obtain q1 ins1 outs1 where "serve (put x q) rs = (q1, ins1, outs1)" by (metis prod_cases3)
    then show ?thesis using 2 True put_inv [of q x] by auto
  next
    case False
    then have "serve q rs = (q', ins, outs)" using 2(4) by simp
    then show ?thesis using 2(2) [OF False 2(3)] by blast
  qed
next
  case (3 q rs)
  show ?case
  proof (cases "contents q \<noteq> []")
    case True
    obtain q1 ins1 outs1 where "serve (snd (get q)) rs = (q1, ins1, outs1)" by (metis prod_cases3)
    then show ?thesis using 3 True get_inv [of q] by auto
  next
    case False
    then have "serve q rs = (q', ins, outs)" using 3(4) by simp
    then show ?thesis using 3(2) [OF False 3(3)] by blast
  qed
qed simp

lemma serve_conserves:
  "inv q \<Longrightarrow> serve q rs = (q', ins, outs) \<Longrightarrow>
     mset (contents q) + mset ins = mset outs + mset (contents q')"
proof (induction q rs arbitrary: q' ins outs rule: serve.induct)
  case (2 q x rs)
  show ?case
  proof (cases "length (contents q) < bound q")
    case True
    obtain q1 ins1 outs1 where s: "serve (put x q) rs = (q1, ins1, outs1)" by (metis prod_cases3)
    then show ?thesis using 2 True put_inv [of q x] by auto
  next
    case False
    then have "serve q rs = (q', ins, outs)" using 2(4) by simp
    then show ?thesis using 2(2) [OF False 2(3)] by blast
  qed
next
  case (3 q rs)
  show ?case
  proof (cases "contents q \<noteq> []")
    case True
    obtain q1 ins1 outs1 where s: "serve (snd (get q)) rs = (q1, ins1, outs1)" by (metis prod_cases3)
    then show ?thesis using 3 True get_inv [of q] by auto
  next
    case False
    then have "serve q rs = (q', ins, outs)" using 3(4) by simp
    then show ?thesis using 3(2) [OF False 3(3)] by blast
  qed
qed simp

end

locale fifo_buffer = bounded_buffer +
  assumes put_last: "inv q \<Longrightarrow> length (contents q) < bound q \<Longrightarrow> contents (put x q) = contents q @ [x]"
    and get_first: "inv q \<Longrightarrow> contents q \<noteq> [] \<Longrightarrow> contents q = fst (get q) # contents (snd (get q))"
begin

lemma serve_in_order:
  "inv q \<Longrightarrow> serve q rs = (q', ins, outs) \<Longrightarrow> contents q @ ins = outs @ contents q'"
proof (induction q rs arbitrary: q' ins outs rule: serve.induct)
  case (2 q x rs)
  show ?case
  proof (cases "length (contents q) < bound q")
    case True
    obtain q1 ins1 outs1 where s: "serve (put x q) rs = (q1, ins1, outs1)" by (metis prod_cases3)
    then show ?thesis using 2 True put_inv [of q x] put_last [of q x] by auto
  next
    case False
    then have "serve q rs = (q', ins, outs)" using 2(4) by simp
    then show ?thesis using 2(2) [OF False 2(3)] by blast
  qed
next
  case (3 q rs)
  show ?case
  proof (cases "contents q \<noteq> []")
    case True
    obtain q1 ins1 outs1 where s: "serve (snd (get q)) rs = (q1, ins1, outs1)" by (metis prod_cases3)
    then show ?thesis using 3 True get_inv [of q] get_first [of q] by auto
  next
    case False
    then have "serve q rs = (q', ins, outs)" using 3(4) by simp
    then show ?thesis using 3(2) [OF False 3(3)] by blast
  qed
qed simp

end

locale lifo_buffer = bounded_buffer +
  assumes put_first: "inv q \<Longrightarrow> length (contents q) < bound q \<Longrightarrow> contents (put x q) = x # contents q"
    and get_top: "inv q \<Longrightarrow> contents q \<noteq> [] \<Longrightarrow> contents q = fst (get q) # contents (snd (get q))"
begin

lemma serve_puts:
  "inv q \<Longrightarrow> length (contents q) + length xs \<le> bound q \<Longrightarrow>
     \<exists>q'. serve q (map Put xs @ rs) = (case serve q' rs of (q'', ins, outs) \<Rightarrow> (q'', xs @ ins, outs))
       \<and> inv q' \<and> contents q' = rev xs @ contents q"
proof (induction xs arbitrary: q)
  case (Cons x xs)
  then have room: "length (contents q) < bound q" by simp
  note p = put_inv [OF Cons.prems(1) room, of x] put_first [OF Cons.prems(1) room, of x]
  obtain q' where "serve (put x q) (map Put xs @ rs)
        = (case serve q' rs of (q'', ins, outs) \<Rightarrow> (q'', xs @ ins, outs))"
      "inv q'" "contents q' = rev xs @ contents (put x q)"
    using Cons.IH [of "put x q"] Cons.prems p by auto
  then show ?case using room p by (intro exI [of _ q']) (auto split: prod.splits)
qed auto

lemma serve_gets:
  "inv q \<Longrightarrow> n \<le> length (contents q) \<Longrightarrow>
     \<exists>q'. serve q (replicate n Get) = (q', [], take n (contents q)) \<and> inv q'
       \<and> contents q' = drop n (contents q)"
proof (induction n arbitrary: q)
  case (Suc n)
  then have ne: "contents q \<noteq> []" by auto
  note g = get_inv [OF Suc.prems(1) ne] get_top [OF Suc.prems(1) ne]
  have len: "n \<le> length (contents (snd (get q)))"
    using Suc.prems(2) g(2) by (metis Suc_le_mono length_Cons)
  obtain q' where "serve (snd (get q)) (replicate n Get) = (q', [], take n (contents (snd (get q))))"
      "inv q'" "contents q' = drop n (contents (snd (get q)))"
    using Suc.IH [of "snd (get q)"] g(1) len by blast
  then show ?case using ne g(2) by (intro exI [of _ q']) (metis (no_types, lifting) case_prod_conv
      drop_Suc_Cons replicate_Suc serve.simps(3) take_Suc_Cons)
qed simp

lemma burst_reversed:
  assumes "inv q" "length (contents q) + length xs \<le> bound q"
  shows "\<exists>q'. serve q (map Put xs @ replicate (length xs) Get) = (q', xs, rev xs)
    \<and> contents q' = contents q"
proof -
  obtain q1 where q1: "serve q (map Put xs @ replicate (length xs) Get)
        = (case serve q1 (replicate (length xs) Get) of (q'', ins, outs) \<Rightarrow> (q'', xs @ ins, outs))"
      "inv q1" "contents q1 = rev xs @ contents q"
    using serve_puts [OF assms] by blast
  obtain q2 where "serve q1 (replicate (length xs) Get) = (q2, [], take (length xs) (contents q1))"
      "contents q2 = drop (length xs) (contents q1)"
    using serve_gets [OF q1(2), of "length xs"] q1(3) by auto
  then show ?thesis using q1 by simp
qed

end

section \<open>Allocators\<close>

text \<open>
  An allocator hands out address ranges (0 for a failure); live are the ranges
  handed out, with their usable length. A client asks for blocks and gives back
  blocks it holds, the i-th one of its list.
\<close>

datatype alloc_request = Alloc nat | Free nat

locale allocator =
  fixes inv :: "'s \<Rightarrow> bool"
    and live :: "'s \<Rightarrow> (nat \<times> nat) set"
    and valid :: "nat \<Rightarrow> bool"
    and alloc :: "nat \<Rightarrow> 's \<Rightarrow> nat \<times> 's"
    and release :: "nat \<Rightarrow> 's \<Rightarrow> 's"
  assumes apart: "inv s \<Longrightarrow> (a, k) \<in> live s \<Longrightarrow> (b, l) \<in> live s \<Longrightarrow> a \<noteq> b \<Longrightarrow> a + k \<le> b \<or> b + l \<le> a"
    and alloc_fails: "inv s \<Longrightarrow> valid n \<Longrightarrow> alloc n s = (0, s') \<Longrightarrow> s' = s"
    and alloc_gives: "inv s \<Longrightarrow> valid n \<Longrightarrow> alloc n s = (a, s') \<Longrightarrow> a \<noteq> 0 \<Longrightarrow>
      inv s' \<and> a \<notin> fst ` live s \<and> (\<exists>k \<ge> n. live s' = insert (a, k) (live s))"
    and release_takes: "inv s \<Longrightarrow> (a, k) \<in> live s \<Longrightarrow>
      inv (release a s) \<and> live (release a s) = {b \<in> live s. fst b \<noteq> a}"
begin

fun client :: "'s \<Rightarrow> (nat \<times> nat) list \<Rightarrow> alloc_request list \<Rightarrow> 's \<times> (nat \<times> nat) list" where
  "client s held [] = (s, held)"
| "client s held (Alloc n # rs) =
     (case alloc n s of (a, s') \<Rightarrow> if a = 0 then client s' held rs else client s' ((a, n) # held) rs)"
| "client s held (Free i # rs) =
     (if i < length held
      then client (release (fst (held ! i)) s) (take i held @ drop (Suc i) held) rs
      else client s held rs)"

definition holds :: "'s \<Rightarrow> (nat \<times> nat) list \<Rightarrow> bool" where
  "holds s held \<longleftrightarrow> inv s \<and> distinct (map fst held) \<and> fst ` live s = fst ` set held
     \<and> (\<forall>(a, n) \<in> set held. \<exists>k \<ge> n. (a, k) \<in> live s)"

lemma holds_alloc:
  assumes "holds s held" "valid n" "alloc n s = (a, s')"
  shows "if a = 0 then holds s' held else holds s' ((a, n) # held)"
proof (cases "a = 0")
  case True
  then show ?thesis using alloc_fails [of s n s'] assms by (auto simp: holds_def)
next
  case False
  then obtain k where k: "inv s'" "a \<notin> fst ` live s" "k \<ge> n" "live s' = insert (a, k) (live s)"
    using alloc_gives [of s n a s'] assms by (auto simp: holds_def)
  then show ?thesis using assms(1) False by (fastforce simp: holds_def)
qed

lemma holds_release:
  assumes "holds s held" "i < length held"
  shows "holds (release (fst (held ! i)) s) (take i held @ drop (Suc i) held)"
proof -
  obtain a n where a: "held ! i = (a, n)" by (cases "held ! i")
  have split: "held = take i held @ (a, n) # drop (Suc i) held" using assms(2) a by (metis id_take_nth_drop)
  then have "(a, n) \<in> set held" using assms(2) a by (metis nth_mem)
  then obtain k where k: "(a, k) \<in> live s" using assms(1) by (auto simp: holds_def)
  have r: "inv (release a s)" "live (release a s) = {b \<in> live s. fst b \<noteq> a}"
    using release_takes [OF _ k] assms(1) by (auto simp: holds_def)
  let ?h = "take i held @ drop (Suc i) held"
  have "distinct (map fst (take i held @ (a, n) # drop (Suc i) held))"
    using assms(1) split by (simp add: holds_def)
  then have d: "distinct (map fst ?h)" "a \<notin> fst ` set ?h" by auto
  have mem: "set held = insert (a, n) (set ?h)" by (subst split) auto
  have "fst ` {b \<in> live s. fst b \<noteq> a} = fst ` live s - {a}" by force
  also have "\<dots> = fst ` set ?h" using assms(1) mem d(2) by (auto simp: holds_def)
  finally have "fst ` live (release a s) = fst ` set ?h" using r(2) by simp
  moreover have "\<exists>k \<ge> m. (b, k) \<in> live (release a s)" if "(b, m) \<in> set ?h" for b m
  proof -
    have "b \<noteq> a" using that d(2) by force
    moreover have "(b, m) \<in> set held" unfolding mem using that by (rule insertI2)
    then obtain k where "k \<ge> m" "(b, k) \<in> live s" using assms(1) by (auto simp: holds_def)
    ultimately show ?thesis using r(2) by auto
  qed
  then have "\<forall>(b, m) \<in> set ?h. \<exists>k \<ge> m. (b, k) \<in> live (release a s)" by blast
  ultimately show ?thesis using r(1) d(1) unfolding holds_def a fst_conv by blast
qed

lemma client_holds:
  "holds s held \<Longrightarrow> (\<forall>n. Alloc n \<in> set rs \<longrightarrow> valid n) \<Longrightarrow> client s held rs = (s', held') \<Longrightarrow> holds s' held'"
proof (induction s held rs rule: client.induct)
  case (2 s held n rs)
  obtain a s1 where a: "alloc n s = (a, s1)" by fastforce
  have h: "if a = 0 then holds s1 held else holds s1 ((a, n) # held)" using holds_alloc [OF 2(3) _ a] 2(4) by simp
  show ?case
  proof (cases "a = 0")
    case True
    then show ?thesis using 2(1) [OF a [symmetric] True] h 2(4,5) a by simp
  next
    case False
    then show ?thesis using 2(2) [OF a [symmetric] False] h 2(4,5) a by simp
  qed
next
  case (3 s held i rs)
  show ?case
  proof (cases "i < length held")
    case True
    then show ?thesis using 3(1) [OF True holds_release [OF 3(3) True]] 3(4,5) by simp
  next
    case False
    then show ?thesis using 3(2) [OF False 3(3)] 3(4,5) by simp
  qed
qed simp

lemma held_apart:
  assumes "holds s held" "i < length held" "j < length held" "i \<noteq> j"
  shows "fst (held ! i) + snd (held ! i) \<le> fst (held ! j) \<or> fst (held ! j) + snd (held ! j) \<le> fst (held ! i)"
proof -
  obtain a n b m where ab: "held ! i = (a, n)" "held ! j = (b, m)" by (meson surj_pair)
  then have "(a, n) \<in> set held" "(b, m) \<in> set held" using assms(2,3) by (metis nth_mem)+
  then obtain k l where kl: "(a, k) \<in> live s" "n \<le> k" "(b, l) \<in> live s" "m \<le> l"
    using assms(1) unfolding holds_def by blast
  have "a \<noteq> b" using assms ab nth_eq_iff_index_eq [of "map fst held" i j] by (auto simp: holds_def)
  then show ?thesis using apart [OF _ kl(1,3)] kl(2,4) ab assms(1) by (auto simp: holds_def)
qed

end

section \<open>Data refinement\<close>

text \<open>
  A component whose operations may fail for outside reasons (Inl: the operation was
  not carried out as specified and the client stops) and otherwise do what a
  specification on abstract states says. step_list runs operations one after the
  other; every complete run is a run of the specification.
\<close>

locale data_refinement =
  fixes inv :: "'s \<Rightarrow> bool"
    and abs :: "'s \<Rightarrow> 'a"
    and step :: "'op \<Rightarrow> 's \<Rightarrow> ('s \<times> ('e + 'r)) option"
    and spec :: "'op \<Rightarrow> 'a \<Rightarrow> 'a \<times> 'r"
  assumes returns: "inv s \<Longrightarrow> step x s \<noteq> None"
    and simulates: "inv s \<Longrightarrow> step x s = Some (s', Inr r) \<Longrightarrow> inv s' \<and> spec x (abs s) = (abs s', r)"
begin

fun step_list :: "'op list \<Rightarrow> 's \<Rightarrow> ('s \<times> ('e + 'r list)) option" where
  "step_list [] s = Some (s, Inr [])"
| "step_list (x # xs) s = (case step x s of
     None \<Rightarrow> None
   | Some (s', Inl e) \<Rightarrow> Some (s', Inl e)
   | Some (s', Inr r) \<Rightarrow> (case step_list xs s' of
       None \<Rightarrow> None
     | Some (s'', Inl e) \<Rightarrow> Some (s'', Inl e)
     | Some (s'', Inr rs) \<Rightarrow> Some (s'', Inr (r # rs))))"

fun spec_list :: "'op list \<Rightarrow> 'a \<Rightarrow> 'a \<times> 'r list" where
  "spec_list [] m = (m, [])"
| "spec_list (x # xs) m = (case spec x m of (m', r) \<Rightarrow>
     (case spec_list xs m' of (m'', rs) \<Rightarrow> (m'', r # rs)))"

lemma step_list_returns: "inv s \<Longrightarrow> step_list xs s \<noteq> None"
proof (induction xs arbitrary: s)
  case (Cons x xs)
  obtain s' q where s': "step x s = Some (s', q)" using returns [OF Cons.prems, of x] by auto
  show ?case
  proof (cases q)
    case (Inr r)
    then have "inv s'" using simulates Cons.prems s' by blast
    from Cons.IH [OF this] show ?thesis using s' Inr by (auto split: sum.split)
  qed (simp add: s')
qed simp

lemma step_list_simulates:
  "inv s \<Longrightarrow> step_list xs s = Some (s', Inr rs) \<Longrightarrow> inv s' \<and> spec_list xs (abs s) = (abs s', rs)"
proof (induction xs arbitrary: s rs)
  case (Cons x xs)
  obtain s1 r rs' where r: "step x s = Some (s1, Inr r)" "step_list xs s1 = Some (s', Inr rs')" "rs = r # rs'"
    using Cons.prems(2) by (auto split: option.splits sum.splits)
  note one = simulates [OF Cons.prems(1) r(1)]
  then have "inv s1" by blast
  from Cons.IH [OF this r(2)] show ?case using one r(3) by simp
qed simp

end

end
