(* ===== verification/Cache_Pqueue.thy ===== *)
theory Cache_Pqueue
  imports Interfaces
begin

text \<open>
  modules/cache/cache_pqueue.c: the array heap in which mod_mem_cache keeps its
  objects, the one to evict first at the root. The objects are the pointers
  the code stores (type 'a); their priority is the callback pri, and the
  position that the callbacks get and set read and write inside an object is
  the field pq_pos. The array's element 0 is not used; what malloc leaves in
  fresh slots is the argument junk, and whether an allocation succeeds is a
  boolean argument.
\<close>

section \<open>State and operations\<close>

record 'a cache_pqueue =
  pq_size :: nat
  pq_avail :: nat
  pq_step :: nat
  pq_d :: "'a list"
  pq_pos :: "'a \<Rightarrow> nat"

definition cache_pq_init ::
    "nat \<Rightarrow> 'a \<Rightarrow> ('a \<Rightarrow> nat) \<Rightarrow> bool \<Rightarrow> bool \<Rightarrow> 'a cache_pqueue option" where
  "cache_pq_init n junk posn malloc_q malloc_d =
     (if \<not> malloc_q then None
      else if \<not> malloc_d then None
      else Some \<lparr>pq_size = 1, pq_avail = n + 1, pq_step = n + 1,
                 pq_d = replicate (n + 1) junk, pq_pos = posn\<rparr>)"

definition cache_pq_size :: "'a cache_pqueue \<Rightarrow> nat" where
  "cache_pq_size q = pq_size q - 1"

text \<open>The pair of statements q->d[i] = x; q->set(x, i).\<close>

definition pq_put :: "'a cache_pqueue \<Rightarrow> nat \<Rightarrow> 'a \<Rightarrow> 'a cache_pqueue" where
  "pq_put q i x = q\<lparr>pq_d := (pq_d q)[i := x], pq_pos := (pq_pos q)(x := i)\<rparr>"

fun cache_pq_bubble_loop ::
    "('a \<Rightarrow> int) \<Rightarrow> int \<Rightarrow> 'a cache_pqueue \<Rightarrow> nat \<Rightarrow> 'a cache_pqueue \<times> nat" where
  "cache_pq_bubble_loop pri moving_pri q i =
     (if i > 1 \<and> pri (pq_d q ! (i div 2)) < moving_pri
      then cache_pq_bubble_loop pri moving_pri (pq_put q i (pq_d q ! (i div 2))) (i div 2)
      else (q, i))"

declare cache_pq_bubble_loop.simps [simp del]

definition cache_pq_bubble_up ::
    "('a \<Rightarrow> int) \<Rightarrow> 'a cache_pqueue \<Rightarrow> nat \<Rightarrow> 'a cache_pqueue" where
  "cache_pq_bubble_up pri q i =
     (let moving_node = pq_d q ! i;
          (q', i') = cache_pq_bubble_loop pri (pri moving_node) q i
      in pq_put q' i' moving_node)"

definition maxchild :: "('a \<Rightarrow> int) \<Rightarrow> 'a cache_pqueue \<Rightarrow> nat \<Rightarrow> nat" where
  "maxchild pri q i =
     (let child_node = 2 * i in
      if child_node \<ge> pq_size q then 0
      else if child_node + 1 < pq_size q
              \<and> pri (pq_d q ! (child_node + 1)) > pri (pq_d q ! child_node)
      then child_node + 1
      else child_node)"

lemma maxchild_range:
  "maxchild pri q i \<noteq> 0 \<Longrightarrow> i < maxchild pri q i \<and> maxchild pri q i < pq_size q"
  by (auto simp: maxchild_def Let_def split: if_splits)

lemma pq_put_fields [simp]:
  "pq_size (pq_put q i x) = pq_size q" "pq_avail (pq_put q i x) = pq_avail q"
  "pq_step (pq_put q i x) = pq_step q" "pq_d (pq_put q i x) = (pq_d q)[i := x]"
  "pq_pos (pq_put q i x) = (pq_pos q)(x := i)"
  by (simp_all add: pq_put_def)

function cache_pq_percolate_loop ::
    "('a \<Rightarrow> int) \<Rightarrow> int \<Rightarrow> 'a cache_pqueue \<Rightarrow> nat \<Rightarrow> 'a cache_pqueue \<times> nat" where
  "cache_pq_percolate_loop pri moving_pri q i =
     (let child_node = maxchild pri q i in
      if child_node \<noteq> 0 \<and> moving_pri < pri (pq_d q ! child_node)
      then cache_pq_percolate_loop pri moving_pri (pq_put q i (pq_d q ! child_node)) child_node
      else (q, i))"
  by pat_completeness auto
termination
proof (relation "measure (\<lambda>(pri, mp, q, i). pq_size q - i)", goal_cases)
  case (2 pri mp q i x)
  then show ?case using maxchild_range [of pri q i] by auto
qed simp

declare cache_pq_percolate_loop.simps [simp del]

definition cache_pq_percolate_down ::
    "('a \<Rightarrow> int) \<Rightarrow> 'a cache_pqueue \<Rightarrow> nat \<Rightarrow> 'a cache_pqueue" where
  "cache_pq_percolate_down pri q i =
     (let moving_node = pq_d q ! i;
          (q', i') = cache_pq_percolate_loop pri (pri moving_node) q i
      in pq_put q' i' moving_node)"

text \<open>The queue argument of insert, pop and peek may be the null pointer (None).\<close>

fun cache_pq_insert ::
    "('a \<Rightarrow> int) \<Rightarrow> 'a \<Rightarrow> bool \<Rightarrow> 'a cache_pqueue option \<Rightarrow> 'a
     \<Rightarrow> apr_status \<times> 'a cache_pqueue option" where
  "cache_pq_insert pri junk realloc_ok None x = (APR_EGENERAL, None)"
| "cache_pq_insert pri junk realloc_ok (Some q) x =
     (let newsize = pq_size q + pq_step q in
      if pq_size q \<ge> pq_avail q \<and> \<not> realloc_ok then (APR_EGENERAL, Some q)
      else
        let q1 = (if pq_size q \<ge> pq_avail q
                  then q\<lparr>pq_d := pq_d q @ replicate (newsize - pq_avail q) junk,
                         pq_avail := newsize\<rparr>
                  else q);
            i = pq_size q1;
            q2 = q1\<lparr>pq_size := i + 1, pq_d := (pq_d q1)[i := x]\<rparr>
        in (APR_SUCCESS, Some (cache_pq_bubble_up pri q2 i)))"

definition cache_pq_change_priority ::
    "('a \<Rightarrow> int) \<Rightarrow> 'a cache_pqueue \<Rightarrow> int \<Rightarrow> int \<Rightarrow> 'a \<Rightarrow> 'a cache_pqueue" where
  "cache_pq_change_priority pri q old_priority new_priority x =
     (let posn = pq_pos q x in
      if new_priority > old_priority then cache_pq_bubble_up pri q posn
      else cache_pq_percolate_down pri q posn)"

text \<open>The statement q->d[k] = q->d[--q->size].\<close>

definition pq_unlink :: "'a cache_pqueue \<Rightarrow> nat \<Rightarrow> 'a cache_pqueue" where
  "pq_unlink q k =
     (let n = pq_size q - 1 in q\<lparr>pq_size := n, pq_d := (pq_d q)[k := pq_d q ! n]\<rparr>)"

definition cache_pq_remove ::
    "('a \<Rightarrow> int) \<Rightarrow> 'a cache_pqueue \<Rightarrow> 'a \<Rightarrow> apr_status \<times> 'a cache_pqueue" where
  "cache_pq_remove pri q x =
     (let posn = pq_pos q x;
          q1 = pq_unlink q posn
      in (APR_SUCCESS,
          if pri (pq_d q1 ! posn) > pri x then cache_pq_bubble_up pri q1 posn
          else cache_pq_percolate_down pri q1 posn))"

fun cache_pq_pop ::
    "('a \<Rightarrow> int) \<Rightarrow> 'a cache_pqueue option \<Rightarrow> 'a option \<times> 'a cache_pqueue option" where
  "cache_pq_pop pri None = (None, None)"
| "cache_pq_pop pri (Some q) =
     (if pq_size q = 1 then (None, Some q)
      else (Some (pq_d q ! 1), Some (cache_pq_percolate_down pri (pq_unlink q 1) 1)))"

fun cache_pq_peek :: "'a cache_pqueue option \<Rightarrow> 'a option" where
  "cache_pq_peek None = None"
| "cache_pq_peek (Some q) = (if pq_size q = 1 then None else Some (pq_d q ! 1))"

declare cache_pq_insert.simps(2) [simp del] cache_pq_pop.simps(2) [simp del]

text \<open>
  The self check of the code. It does not return when it is started at
  position 0 of a non-empty queue, whose left child is position 0 again.
\<close>

partial_function (option) cache_pq_subtree_is_valid ::
    "('a \<Rightarrow> int) \<Rightarrow> 'a cache_pqueue \<Rightarrow> nat \<Rightarrow> bool option" where
  "cache_pq_subtree_is_valid pri q i =
     Option.bind
       (if 2 * i < pq_size q then
          if pri (pq_d q ! i) < pri (pq_d q ! (2 * i)) then Some False
          else cache_pq_subtree_is_valid pri q (2 * i)
        else Some True)
       (\<lambda>left_ok. if \<not> left_ok then Some False
          else if 2 * i + 1 < pq_size q then
            if pri (pq_d q ! i) < pri (pq_d q ! (2 * i + 1)) then Some False
            else cache_pq_subtree_is_valid pri q (2 * i + 1)
          else Some True)"

definition cache_pq_is_valid :: "('a \<Rightarrow> int) \<Rightarrow> 'a cache_pqueue \<Rightarrow> bool option" where
  "cache_pq_is_valid pri q = cache_pq_subtree_is_valid pri q 1"

section \<open>Heap order with a hole\<close>

text \<open>
  The sift loops keep the moving element out of the array and its weight in a
  register, so the order is stated on a weight function W of the slots, where
  slot i is the hole. heap_W is the order itself; up_W allows a violation
  between the hole and its parent, down_W between the hole and its children.
\<close>

definition heap_W :: "nat \<Rightarrow> (nat \<Rightarrow> int) \<Rightarrow> bool" where
  "heap_W n W \<longleftrightarrow> (\<forall>j. 2 \<le> j \<and> j < n \<longrightarrow> W j \<le> W (j div 2))"

definition bridge_W :: "nat \<Rightarrow> (nat \<Rightarrow> int) \<Rightarrow> nat \<Rightarrow> bool" where
  "bridge_W n W i \<longleftrightarrow>
     (\<forall>c. 2 \<le> c \<and> c < n \<and> c div 2 = i \<and> 2 \<le> i \<longrightarrow> W c \<le> W (i div 2))"

definition up_W :: "nat \<Rightarrow> (nat \<Rightarrow> int) \<Rightarrow> nat \<Rightarrow> bool" where
  "up_W n W i \<longleftrightarrow> (\<forall>j. 2 \<le> j \<and> j < n \<and> j \<noteq> i \<longrightarrow> W j \<le> W (j div 2)) \<and> bridge_W n W i"

definition down_W :: "nat \<Rightarrow> (nat \<Rightarrow> int) \<Rightarrow> nat \<Rightarrow> bool" where
  "down_W n W i \<longleftrightarrow>
     (\<forall>j. 2 \<le> j \<and> j < n \<and> j div 2 \<noteq> i \<longrightarrow> W j \<le> W (j div 2)) \<and> bridge_W n W i"

lemma heap_W_bridge: "heap_W n W \<Longrightarrow> i < n \<Longrightarrow> bridge_W n W i"
  unfolding heap_W_def bridge_W_def by (meson dual_order.trans)

lemma heap_W_raise:
  assumes "heap_W n W" "i < n" "W i \<le> m"
  shows "up_W n (W(i := m)) i"
proof -
  have ne: "j div 2 \<noteq> j" if "2 \<le> j" for j :: nat using that by auto
  show ?thesis
    using assms heap_W_bridge [OF assms(1,2)] ne
    unfolding up_W_def bridge_W_def heap_W_def
    by (auto intro: order_trans)
qed

lemma heap_W_lower:
  assumes "heap_W n W" "i < n" "m \<le> W i"
  shows "down_W n (W(i := m)) i"
proof -
  have ne: "j div 2 \<noteq> j" if "2 \<le> j" for j :: nat using that by auto
  show ?thesis
    using assms heap_W_bridge [OF assms(1,2)] ne
    unfolding down_W_def bridge_W_def heap_W_def
    by (auto intro: order_trans)
qed

lemma up_W_stop: "up_W n W i \<Longrightarrow> i \<le> 1 \<or> W i \<le> W (i div 2) \<Longrightarrow> heap_W n W"
  unfolding up_W_def heap_W_def by (metis One_nat_def Suc_1 not_less_eq_eq)

lemma up_W_step:
  assumes up: "up_W n W i" and i: "1 < i" "i < n" and less: "W (i div 2) < W i"
  shows "up_W n (W(i := W (i div 2), i div 2 := W i)) (i div 2)"
proof -
  let ?p = "i div 2"
  have ne: "j div 2 \<noteq> j" if "2 \<le> j" for j :: nat using that by auto
  have edge: "W j \<le> W (j div 2)" if "2 \<le> j" "j < n" "j \<noteq> i" for j
    using up that by (auto simp: up_W_def)
  have br: "W c \<le> W ?p" if "2 \<le> c" "c < n" "c div 2 = i" for c
    using up that i by (auto simp: up_W_def bridge_W_def)
  have p: "?p < n" "?p \<noteq> i" using i by auto
  have one: "(W(i := W ?p, ?p := W i)) j \<le> (W(i := W ?p, ?p := W i)) (j div 2)"
    if j: "2 \<le> j" "j < n" "j \<noteq> ?p" for j
    using edge [OF j(1,2)] br [OF j(1,2)] less p ne [OF j(1)] j by (cases "j = i") auto
  have two: "(W(i := W ?p, ?p := W i)) c \<le> (W(i := W ?p, ?p := W i)) (?p div 2)"
    if c: "2 \<le> c" "c < n" "c div 2 = ?p" "2 \<le> ?p" for c
  proof -
    have "W ?p \<le> W (?p div 2)" using edge [OF c(4) p(1)] p(2) by simp
    moreover have "c \<noteq> ?p" "?p div 2 \<noteq> ?p" "?p div 2 \<noteq> i" using c ne [of c] i by auto
    ultimately show ?thesis using edge [OF c(1,2)] c(3) by (cases "c = i") auto
  qed
  show ?thesis using one two by (auto simp: up_W_def bridge_W_def)
qed

lemma down_W_stop:
  assumes "down_W n W i" and "\<And>c. 2 \<le> c \<Longrightarrow> c < n \<Longrightarrow> c div 2 = i \<Longrightarrow> W c \<le> W i"
  shows "heap_W n W"
  using assms unfolding down_W_def heap_W_def by metis

lemma down_W_step:
  assumes dn: "down_W n W i" and i: "1 \<le> i" and c: "c div 2 = i" "2 \<le> c" "c < n"
    and less: "W i < W c"
    and mx: "\<And>e. 2 \<le> e \<Longrightarrow> e < n \<Longrightarrow> e div 2 = i \<Longrightarrow> W e \<le> W c"
  shows "down_W n (W(i := W c, c := W i)) c"
proof -
  have ne: "j div 2 \<noteq> j" if "2 \<le> j" for j :: nat using that by auto
  have edge: "W j \<le> W (j div 2)" if "2 \<le> j" "j < n" "j div 2 \<noteq> i" for j
    using dn that by (auto simp: down_W_def)
  have br: "W e \<le> W (i div 2)" if "2 \<le> e" "e < n" "e div 2 = i" "2 \<le> i" for e
    using dn that by (auto simp: down_W_def bridge_W_def)
  have ci: "c \<noteq> i" using c ne by auto
  have one: "(W(i := W c, c := W i)) j \<le> (W(i := W c, c := W i)) (j div 2)"
    if j: "2 \<le> j" "j < n" "j div 2 \<noteq> c" for j
  proof (cases "j div 2 = i")
    case True
    then show ?thesis using mx [OF j(1,2)] less ci j ne [OF j(1)] by auto
  next
    case False
    have "j \<noteq> c" using False c by auto
    then show ?thesis using False j edge [OF j(1,2)] br [OF c(2,3,1)] by (cases "j = i") auto
  qed
  have two: "(W(i := W c, c := W i)) e \<le> (W(i := W c, c := W i)) (c div 2)"
    if e: "2 \<le> e" "e < n" "e div 2 = c" for e
    using edge [OF e(1,2)] e c ci ne [OF e(1)] i by auto
  show ?thesis using one two by (auto simp: down_W_def bridge_W_def)
qed

text \<open>Only the weights of the slots 1 to n - 1 count.\<close>

lemma edge_cong:
  fixes W W' :: "nat \<Rightarrow> int"
  assumes "\<And>j. 1 \<le> j \<Longrightarrow> j < n \<Longrightarrow> W j = W' j" "2 \<le> j" "j < n" "W j \<le> W (j div 2)"
  shows "W' j \<le> W' (j div 2)"
  using assms(1) [of j] assms(1) [of "j div 2"] assms(2-4) by auto

lemma bridge_W_cong:
  assumes "\<And>j. 1 \<le> j \<Longrightarrow> j < n \<Longrightarrow> W j = W' j" "bridge_W n W i"
  shows "bridge_W n W' i"
  unfolding bridge_W_def
proof (intro allI impI)
  fix c
  assume c: "2 \<le> c \<and> c < n \<and> c div 2 = i \<and> 2 \<le> i"
  then have "W c \<le> W (i div 2)" using assms(2) by (auto simp: bridge_W_def)
  moreover have "1 \<le> i div 2" "i div 2 < n" using c by auto
  ultimately show "W' c \<le> W' (i div 2)" using assms(1) [of c] assms(1) [of "i div 2"] c by auto
qed

lemma up_W_cong:
  assumes "\<And>j. 1 \<le> j \<Longrightarrow> j < n \<Longrightarrow> W j = W' j" "up_W n W i"
  shows "up_W n W' i"
proof -
  have "W' j \<le> W' (j div 2)" if "2 \<le> j" "j < n" "W j \<le> W (j div 2)" for j
    by (rule edge_cong [OF assms(1) that])
  moreover have "bridge_W n W i" using assms(2) by (simp add: up_W_def)
  then have "bridge_W n W' i" by (rule bridge_W_cong [rotated]) (rule assms(1))
  ultimately show ?thesis using assms(2) by (auto simp: up_W_def)
qed

lemma down_W_cong:
  assumes "\<And>j. 1 \<le> j \<Longrightarrow> j < n \<Longrightarrow> W j = W' j" "down_W n W i"
  shows "down_W n W' i"
proof -
  have "W' j \<le> W' (j div 2)" if "2 \<le> j" "j < n" "W j \<le> W (j div 2)" for j
    by (rule edge_cong [OF assms(1) that])
  moreover have "bridge_W n W i" using assms(2) by (simp add: down_W_def)
  then have "bridge_W n W' i" by (rule bridge_W_cong [rotated]) (rule assms(1))
  ultimately show ?thesis using assms(2) by (auto simp: down_W_def)
qed

section \<open>Invariant of the queue\<close>

definition pq_wf :: "'a cache_pqueue \<Rightarrow> bool" where
  "pq_wf q \<longleftrightarrow> 1 \<le> pq_size q \<and> pq_size q \<le> pq_avail q \<and> pq_avail q = length (pq_d q)
     \<and> 1 \<le> pq_step q"

definition pq_elems :: "'a cache_pqueue \<Rightarrow> 'a set" where
  "pq_elems q = (\<lambda>i. pq_d q ! i) ` {1..<pq_size q}"

definition pq_located :: "'a cache_pqueue \<Rightarrow> bool" where
  "pq_located q \<longleftrightarrow> (\<forall>i. 1 \<le> i \<and> i < pq_size q \<longrightarrow> pq_pos q (pq_d q ! i) = i)"

definition pq_heap :: "('a \<Rightarrow> int) \<Rightarrow> 'a cache_pqueue \<Rightarrow> bool" where
  "pq_heap pri q \<longleftrightarrow> heap_W (pq_size q) (\<lambda>i. pri (pq_d q ! i))"

definition cache_pq_inv :: "('a \<Rightarrow> int) \<Rightarrow> 'a cache_pqueue \<Rightarrow> bool" where
  "cache_pq_inv pri q \<longleftrightarrow> pq_wf q \<and> pq_located q \<and> pq_heap pri q"

text \<open>The state of the sift loops: slot i is the hole and v is out of the array.\<close>

definition pq_rest :: "'a cache_pqueue \<Rightarrow> nat \<Rightarrow> 'a set" where
  "pq_rest q i = (\<lambda>j. pq_d q ! j) ` ({1..<pq_size q} - {i})"

definition pq_hole :: "'a cache_pqueue \<Rightarrow> nat \<Rightarrow> 'a \<Rightarrow> bool" where
  "pq_hole q i v \<longleftrightarrow> pq_wf q \<and> 1 \<le> i \<and> i < pq_size q
     \<and> (\<forall>j. 1 \<le> j \<and> j < pq_size q \<and> j \<noteq> i \<longrightarrow> pq_pos q (pq_d q ! j) = j \<and> pq_d q ! j \<noteq> v)"

definition hole_W :: "('a \<Rightarrow> int) \<Rightarrow> 'a cache_pqueue \<Rightarrow> nat \<Rightarrow> int \<Rightarrow> nat \<Rightarrow> int" where
  "hole_W pri q i m = (\<lambda>j. pri (pq_d q ! j))(i := m)"

lemma pq_hole_bounds:
  "pq_hole q i v \<Longrightarrow> 1 \<le> i \<and> i < pq_size q \<and> i < length (pq_d q)"
  by (auto simp: pq_hole_def pq_wf_def)

lemma pq_hole_fill:
  assumes "pq_hole q i v"
  shows "pq_wf (pq_put q i v)" "pq_located (pq_put q i v)"
    "pq_elems (pq_put q i v) = insert v (pq_rest q i)"
  using assms by (auto simp: pq_hole_def pq_wf_def pq_located_def pq_elems_def pq_rest_def nth_list_update)

lemma pq_hole_move:
  assumes "pq_hole q i v" "1 \<le> k" "k < pq_size q" "k \<noteq> i"
  shows "pq_hole (pq_put q i (pq_d q ! k)) k v"
    "pq_rest (pq_put q i (pq_d q ! k)) k = pq_rest q i"
    "hole_W pri (pq_put q i (pq_d q ! k)) k m
       = (hole_W pri q i m)(i := hole_W pri q i m k, k := m)"
proof -
  have len: "i < length (pq_d q)" using assms(1) by (simp add: pq_hole_bounds)
  have inj: "pq_d q ! j \<noteq> pq_d q ! k" if "1 \<le> j" "j < pq_size q" "j \<noteq> i" "j \<noteq> k" for j
    using assms that by (metis pq_hole_def)
  show "pq_hole (pq_put q i (pq_d q ! k)) k v"
    using assms inj len by (auto simp: pq_hole_def pq_wf_def nth_list_update)
  have "(\<lambda>j. (pq_d q)[i := pq_d q ! k] ! j) ` ({1..<pq_size q} - {k})
      = (\<lambda>j. pq_d q ! j) ` ({1..<pq_size q} - {i})" (is "?L = ?R")
  proof
    show "?L \<subseteq> ?R" using assms len by (auto simp: nth_list_update)
    show "?R \<subseteq> ?L"
    proof
      fix y
      assume "y \<in> ?R"
      then obtain j where "j \<in> {1..<pq_size q} - {i}" and y: "y = pq_d q ! j" by blast
      then have j: "1 \<le> j" "j < pq_size q" "j \<noteq> i" "y = pq_d q ! j" by auto
      have "i \<in> {1..<pq_size q} - {k}" using assms by (auto simp: pq_hole_def)
      then show "y \<in> ?L" using j len assms(4) by (cases "j = k") (force simp: nth_list_update)+
    qed
  qed
  then show "pq_rest (pq_put q i (pq_d q ! k)) k = pq_rest q i" by (simp add: pq_rest_def)
  show "hole_W pri (pq_put q i (pq_d q ! k)) k m
       = (hole_W pri q i m)(i := hole_W pri q i m k, k := m)"
    using len assms(4) by (auto simp: hole_W_def fun_eq_iff nth_list_update)
qed

text \<open>What a sift loop promises: the hole it ends in is one where v fits.\<close>

definition sift_done ::
    "('a \<Rightarrow> int) \<Rightarrow> 'a \<Rightarrow> 'a cache_pqueue \<Rightarrow> nat \<Rightarrow> 'a cache_pqueue \<times> nat \<Rightarrow> bool" where
  "sift_done pri v q i r \<longleftrightarrow> (case r of (q', i') \<Rightarrow>
     pq_hole q' i' v \<and> pq_rest q' i' = pq_rest q i \<and> pq_size q' = pq_size q
     \<and> heap_W (pq_size q) (hole_W pri q' i' (pri v)))"

lemma bubble_loop_done:
  assumes "pq_hole q i v" "up_W (pq_size q) (hole_W pri q i (pri v)) i"
  shows "sift_done pri v q i (cache_pq_bubble_loop pri (pri v) q i)"
  using assms
proof (induction pri "pri v" q i rule: cache_pq_bubble_loop.induct)
  case (1 pri q i)
  let ?W = "hole_W pri q i (pri v)"
  let ?q = "pq_put q i (pq_d q ! (i div 2))"
  show ?case
  proof (cases "i > 1 \<and> pri (pq_d q ! (i div 2)) < pri v")
    case True
    have i: "i < pq_size q" "i div 2 \<noteq> i" "1 \<le> i div 2" "i div 2 < pq_size q"
      using True pq_hole_bounds [OF "1.prems"(1)] by auto
    note mv = pq_hole_move [OF "1.prems"(1) i(3,4,2)]
    have "up_W (pq_size q) (hole_W pri ?q (i div 2) (pri v)) (i div 2)"
      using up_W_step [OF "1.prems"(2)] True i by (simp add: mv(3)) (simp add: hole_W_def)
    then have "sift_done pri v ?q (i div 2) (cache_pq_bubble_loop pri (pri v) ?q (i div 2))"
      using "1.hyps" True mv(1) by simp
    then show ?thesis
      using True mv(2) by (simp add: cache_pq_bubble_loop.simps [of pri _ q i] sift_done_def)
  next
    case False
    then have "i \<le> 1 \<or> ?W i \<le> ?W (i div 2)" by (auto simp: hole_W_def)
    then have "heap_W (pq_size q) ?W" using up_W_stop "1.prems"(2) by blast
    moreover have "cache_pq_bubble_loop pri (pri v) q i = (q, i)"
      using False by (subst cache_pq_bubble_loop.simps) auto
    ultimately show ?thesis using "1.prems"(1) by (simp add: sift_done_def)
  qed
qed

lemma maxchild_max:
  assumes "1 \<le> i" "2 \<le> c" "c < pq_size q" "c div 2 = i"
  shows "maxchild pri q i \<noteq> 0 \<and> maxchild pri q i div 2 = i
    \<and> pri (pq_d q ! c) \<le> pri (pq_d q ! maxchild pri q i)"
proof -
  from assms(4) have "c = 2 * i \<or> c = 2 * i + 1" by linarith
  then show ?thesis using assms by (auto simp: maxchild_def Let_def)
qed

lemma percolate_loop_done:
  assumes "pq_hole q i v" "down_W (pq_size q) (hole_W pri q i (pri v)) i"
  shows "sift_done pri v q i (cache_pq_percolate_loop pri (pri v) q i)"
  using assms
proof (induction pri "pri v" q i rule: cache_pq_percolate_loop.induct)
  case (1 pri q i)
  let ?W = "hole_W pri q i (pri v)"
  let ?c = "maxchild pri q i"
  let ?q = "pq_put q i (pq_d q ! ?c)"
  have i: "1 \<le> i" "i < pq_size q" using pq_hole_bounds [OF "1.prems"(1)] by auto
  have wc: "?W c = pri (pq_d q ! c)" if "2 \<le> c" "c div 2 = i" for c
    using that by (auto simp: hole_W_def)
  show ?case
  proof (cases "?c \<noteq> 0 \<and> pri v < pri (pq_d q ! ?c)")
    case True
    then have c: "i < ?c" "?c < pq_size q" using maxchild_range by auto
    have c2: "?c div 2 = i" using True by (auto simp: maxchild_def Let_def split: if_splits)
    have c3: "1 \<le> ?c" "?c \<noteq> i" "2 \<le> ?c" using c i by auto
    note mv = pq_hole_move [OF "1.prems"(1) c3(1) c(2) c3(2)]
    have "down_W (pq_size q) (?W(i := ?W ?c, ?c := ?W i)) ?c"
      using True c3 c maxchild_max [OF i(1)] wc
      by (intro down_W_step [OF "1.prems"(2) i(1) c2]) (auto simp: hole_W_def)
    then have "down_W (pq_size q) (hole_W pri ?q ?c (pri v)) ?c"
      by (simp add: mv(3)) (simp add: hole_W_def)
    then have "sift_done pri v ?q ?c (cache_pq_percolate_loop pri (pri v) ?q ?c)"
      using "1.hyps" [of ?c] True mv(1) by simp
    then show ?thesis
      using True mv(2) by (simp add: cache_pq_percolate_loop.simps [of pri _ q i] sift_done_def Let_def)
  next
    case False
    have "?W c \<le> ?W i" if "2 \<le> c" "c < pq_size q" "c div 2 = i" for c
      using maxchild_max [OF i(1) that, of pri] False wc that by (auto simp: hole_W_def)
    then have "heap_W (pq_size q) ?W" using down_W_stop "1.prems"(2) by blast
    moreover have "cache_pq_percolate_loop pri (pri v) q i = (q, i)"
      using False by (subst cache_pq_percolate_loop.simps) (auto simp: Let_def)
    ultimately show ?thesis using "1.prems"(1) by (simp add: sift_done_def)
  qed
qed

section \<open>The operations keep the invariant\<close>

lemma pq_elems_hole:
  "1 \<le> i \<Longrightarrow> i < pq_size q \<Longrightarrow> pq_elems q = insert (pq_d q ! i) (pq_rest q i)"
  by (auto simp: pq_elems_def pq_rest_def)

lemma hole_W_self: "hole_W pri q i (pri (pq_d q ! i)) = (\<lambda>j. pri (pq_d q ! j))"
  by (auto simp: hole_W_def)

lemma finite_pq_elems [simp]: "finite (pq_elems q)"
  by (simp add: pq_elems_def)

lemma sift_done_fill:
  assumes "sift_done pri v q i (q', i')" "pq_hole q i v" "v = pq_d q ! i"
  shows "cache_pq_inv pri (pq_put q' i' v) \<and> pq_elems (pq_put q' i' v) = pq_elems q
    \<and> pq_size (pq_put q' i' v) = pq_size q"
proof -
  from assms(1) have h: "pq_hole q' i' v" "pq_rest q' i' = pq_rest q i" "pq_size q' = pq_size q"
    and W: "heap_W (pq_size q) (hole_W pri q' i' (pri v))"
    by (auto simp: sift_done_def)
  have "hole_W pri q' i' (pri v) = (\<lambda>j. pri (pq_d (pq_put q' i' v) ! j))"
    using pq_hole_bounds [OF h(1)] by (auto simp: hole_W_def fun_eq_iff nth_list_update)
  then have "pq_heap pri (pq_put q' i' v)" using W h(3) by (simp add: pq_heap_def)
  moreover have "pq_elems q = insert v (pq_rest q i)"
    using pq_hole_bounds [OF assms(2)] assms(3) pq_elems_hole by auto
  ultimately show ?thesis using pq_hole_fill [OF h(1)] h by (simp add: cache_pq_inv_def)
qed

lemma bubble_up_inv:
  assumes "pq_hole q i (pq_d q ! i)" "up_W (pq_size q) (\<lambda>j. pri (pq_d q ! j)) i"
  shows "cache_pq_inv pri (cache_pq_bubble_up pri q i)
    \<and> pq_elems (cache_pq_bubble_up pri q i) = pq_elems q
    \<and> pq_size (cache_pq_bubble_up pri q i) = pq_size q"
proof (cases "cache_pq_bubble_loop pri (pri (pq_d q ! i)) q i")
  case (Pair q' i')
  then have "sift_done pri (pq_d q ! i) q i (q', i')"
    using bubble_loop_done [OF assms(1), of pri] assms(2) by (simp add: hole_W_self)
  then show ?thesis
    using sift_done_fill [OF _ assms(1) refl] Pair by (simp add: cache_pq_bubble_up_def Let_def)
qed

lemma percolate_down_inv:
  assumes "pq_hole q i (pq_d q ! i)" "down_W (pq_size q) (\<lambda>j. pri (pq_d q ! j)) i"
  shows "cache_pq_inv pri (cache_pq_percolate_down pri q i)
    \<and> pq_elems (cache_pq_percolate_down pri q i) = pq_elems q
    \<and> pq_size (cache_pq_percolate_down pri q i) = pq_size q"
proof (cases "cache_pq_percolate_loop pri (pri (pq_d q ! i)) q i")
  case (Pair q' i')
  then have "sift_done pri (pq_d q ! i) q i (q', i')"
    using percolate_loop_done [OF assms(1), of pri] assms(2) by (simp add: hole_W_self)
  then show ?thesis
    using sift_done_fill [OF _ assms(1) refl] Pair by (simp add: cache_pq_percolate_down_def Let_def)
qed

lemma percolate_down_past_end:
  assumes "1 \<le> i" "pq_size q \<le> i" "i < length (pq_d q)"
  shows "cache_pq_percolate_down pri q i = pq_put q i (pq_d q ! i)"
proof -
  have "maxchild pri q i = 0" using assms by (simp add: maxchild_def)
  then show ?thesis
    by (simp add: cache_pq_percolate_down_def cache_pq_percolate_loop.simps [of pri _ q i] Let_def)
qed

lemma percolate_loop_size:
  "pq_size (fst (cache_pq_percolate_loop pri mp q i)) = pq_size q"
proof (induction pri mp q i rule: cache_pq_percolate_loop.induct)
  case (1 pri mp q i)
  then show ?case by (subst cache_pq_percolate_loop.simps) (auto simp: Let_def)
qed

lemma percolate_down_size [simp]: "pq_size (cache_pq_percolate_down pri q i) = pq_size q"
  using percolate_loop_size [of pri "pri (pq_d q ! i)" q i]
  by (auto simp: cache_pq_percolate_down_def Let_def split: prod.splits)

lemma pq_elem_pos:
  assumes "pq_located q" "x \<in> pq_elems q"
  shows "1 \<le> pq_pos q x" "pq_pos q x < pq_size q" "pq_d q ! pq_pos q x = x"
  using assms by (auto simp: pq_located_def pq_elems_def)

lemma pq_nth_inj:
  assumes "pq_located q" "1 \<le> i" "i < pq_size q" "1 \<le> j" "j < pq_size q" "pq_d q ! i = pq_d q ! j"
  shows "i = j"
  using assms by (metis pq_located_def)

lemma card_pq_elems: "pq_located q \<Longrightarrow> card (pq_elems q) = pq_size q - 1"
  unfolding pq_elems_def by (subst card_image) (auto intro!: inj_onI pq_nth_inj)

lemma pq_heap_root:
  assumes "pq_heap pri q" "1 \<le> i" "i < pq_size q"
  shows "pri (pq_d q ! i) \<le> pri (pq_d q ! 1)"
  using assms(2,3)
proof (induction i rule: less_induct)
  case (less i)
  show ?case
  proof (cases "i = 1")
    case False
    then have "pri (pq_d q ! i) \<le> pri (pq_d q ! (i div 2))"
      using assms(1) less.prems by (simp add: pq_heap_def heap_W_def)
    also have "\<dots> \<le> pri (pq_d q ! 1)" using less.IH [of "i div 2"] less.prems False by simp
    finally show ?thesis .
  qed simp
qed

subsection \<open>Insertion\<close>

lemma cache_pq_insert_inv:
  assumes inv: "cache_pq_inv pri q" and x: "x \<notin> pq_elems q"
    and room: "pq_size q < pq_avail q \<or> realloc_ok"
  shows "\<exists>q'. cache_pq_insert pri junk realloc_ok (Some q) x = (APR_SUCCESS, Some q')
    \<and> cache_pq_inv pri q' \<and> pq_elems q' = insert x (pq_elems q) \<and> pq_size q' = pq_size q + 1"
proof -
  define q1 where "q1 = (if pq_size q \<ge> pq_avail q
      then q\<lparr>pq_d := pq_d q @ replicate (pq_size q + pq_step q - pq_avail q) junk,
             pq_avail := pq_size q + pq_step q\<rparr>
      else q)"
  define q2 where "q2 = q1\<lparr>pq_size := pq_size q1 + 1, pq_d := (pq_d q1)[pq_size q1 := x]\<rparr>"
  let ?n = "pq_size q"
  have wf: "pq_wf q" "pq_located q" "pq_heap pri q" using inv by (auto simp: cache_pq_inv_def)
  have q1: "pq_size q1 = ?n" "pq_pos q1 = pq_pos q" "?n < length (pq_d q1)"
      "pq_avail q1 = length (pq_d q1)" "1 \<le> pq_step q1"
    and same: "\<And>j. j < ?n \<Longrightarrow> pq_d q1 ! j = pq_d q ! j"
    using wf(1) by (auto simp: q1_def pq_wf_def nth_append)
  have q2: "pq_size q2 = ?n + 1" "pq_pos q2 = pq_pos q" "pq_d q2 ! ?n = x" "pq_wf q2"
    and same2: "\<And>j. j < ?n \<Longrightarrow> pq_d q2 ! j = pq_d q ! j"
    using q1 same by (auto simp: q2_def pq_wf_def)
  have new: "pq_d q ! j \<noteq> x" if "1 \<le> j" "j < ?n" for j using x that by (auto simp: pq_elems_def)
  have n1: "1 \<le> ?n" using wf(1) by (simp add: pq_wf_def)
  have hole: "pq_hole q2 ?n (pq_d q2 ! ?n)"
    using wf(2) q2 same2 new n1 by (auto simp: pq_hole_def pq_located_def less_Suc_eq)
  have up: "up_W (pq_size q2) (\<lambda>j. pri (pq_d q2 ! j)) ?n"
    using wf(3) q2(1) same2 by (auto simp: up_W_def bridge_W_def pq_heap_def heap_W_def less_Suc_eq)
  have "pq_elems q2 = insert x (pq_elems q)"
    using q2 same2 n1 by (auto simp: pq_elems_def less_Suc_eq image_iff atLeastLessThanSuc)
  moreover have "cache_pq_insert pri junk realloc_ok (Some q) x
      = (APR_SUCCESS, Some (cache_pq_bubble_up pri q2 ?n))"
    using room q1(1) unfolding cache_pq_insert.simps(2) Let_def q2_def q1_def by auto
  ultimately show ?thesis using bubble_up_inv [OF hole up] q2(1) by auto
qed

subsection \<open>Taking an element out\<close>

lemma pq_unlink_fields [simp]:
  "pq_size (pq_unlink q k) = pq_size q - 1" "pq_avail (pq_unlink q k) = pq_avail q"
  "pq_step (pq_unlink q k) = pq_step q" "pq_pos (pq_unlink q k) = pq_pos q"
  "pq_d (pq_unlink q k) = (pq_d q)[k := pq_d q ! (pq_size q - 1)]"
  by (simp_all add: pq_unlink_def Let_def)

lemma pq_unlink_elems:
  assumes "pq_wf q" "pq_located q" "1 \<le> k" "k < pq_size q"
  shows "pq_elems (pq_unlink q k) = pq_elems q - {pq_d q ! k}"
proof -
  let ?n = "pq_size q - 1"
  have k: "k < length (pq_d q)" "k \<le> ?n" "1 \<le> ?n" using assms by (auto simp: pq_wf_def)
  have inj: "pq_d q ! i \<noteq> pq_d q ! k" if "1 \<le> i" "i < pq_size q" "i \<noteq> k" for i
    using pq_nth_inj [OF assms(2) that(1,2) assms(3,4)] that(3) by blast
  have "y \<in> pq_elems q - {pq_d q ! k}" if "y \<in> pq_elems (pq_unlink q k)" for y
  proof -
    from that obtain i where i: "1 \<le> i" "i < ?n" "y = (pq_d q)[k := pq_d q ! ?n] ! i"
      by (auto simp: pq_elems_def)
    let ?j = "if i = k then ?n else i"
    have "1 \<le> ?j" "?j < pq_size q" "?j \<noteq> k" "y = pq_d q ! ?j" using i k by auto
    then show ?thesis using inj [of ?j] unfolding pq_elems_def
      by (metis Diff_iff atLeastLessThan_iff image_eqI singletonD)
  qed
  then have sub: "pq_elems (pq_unlink q k) \<subseteq> pq_elems q - {pq_d q ! k}" by blast
  have "y \<in> pq_elems (pq_unlink q k)" if "y \<in> pq_elems q - {pq_d q ! k}" for y
  proof -
    from that obtain i where "i \<in> {1..<pq_size q}" and y: "y = pq_d q ! i" "y \<noteq> pq_d q ! k"
      by (auto simp: pq_elems_def)
    then have i: "1 \<le> i" "i < pq_size q" "i \<noteq> k" by auto
    let ?j = "if i = ?n then k else i"
    have "(pq_d q)[k := pq_d q ! ?n] ! ?j = y" "1 \<le> ?j" "?j < ?n"
      using i y k assms(3) by auto
    then show ?thesis unfolding pq_elems_def by (force simp: image_iff)
  qed
  then show ?thesis using sub by blast
qed

lemma pq_unlink_hole:
  assumes "pq_wf q" "pq_located q" "1 \<le> k" "k < pq_size q - 1"
  shows "pq_hole (pq_unlink q k) k (pq_d (pq_unlink q k) ! k)"
    and "(\<lambda>j. pri (pq_d (pq_unlink q k) ! j))
      = (\<lambda>j. pri (pq_d q ! j))(k := pri (pq_d q ! (pq_size q - 1)))"
proof -
  let ?n = "pq_size q - 1"
  have inj: "pq_d q ! j \<noteq> pq_d q ! ?n" if "1 \<le> j" "j < ?n" for j
    using pq_nth_inj [OF assms(2), of j ?n] that by auto
  show "pq_hole (pq_unlink q k) k (pq_d (pq_unlink q k) ! k)"
    using assms inj by (auto simp: pq_hole_def pq_wf_def pq_located_def nth_list_update)
  show "(\<lambda>j. pri (pq_d (pq_unlink q k) ! j))
      = (\<lambda>j. pri (pq_d q ! j))(k := pri (pq_d q ! ?n))"
    using assms by (auto simp: fun_eq_iff nth_list_update pq_wf_def)
qed

lemma pq_unlink_last:
  assumes inv: "cache_pq_inv pri q" and k: "1 \<le> k" "k = pq_size q - 1"
  shows "cache_pq_inv pri (cache_pq_percolate_down pri (pq_unlink q k) k)
    \<and> pq_elems (cache_pq_percolate_down pri (pq_unlink q k) k) = pq_elems (pq_unlink q k)"
proof -
  have wf: "pq_wf q" "pq_located q" "pq_heap pri q" using inv by (auto simp: cache_pq_inv_def)
  have d: "pq_d (pq_unlink q k) = pq_d q" using k by simp
  have same: "pq_put (pq_unlink q k) k (pq_d q ! k) = pq_unlink q k"
    using wf(2) k by (auto simp: pq_put_def pq_unlink_def Let_def pq_located_def fun_eq_iff)
  have "cache_pq_percolate_down pri (pq_unlink q k) k = pq_unlink q k"
    using percolate_down_past_end [of k "pq_unlink q k" pri] k wf(1) d same by (auto simp: pq_wf_def)
  moreover have "cache_pq_inv pri (pq_unlink q k)"
    using wf k by (auto simp: cache_pq_inv_def pq_wf_def pq_located_def pq_heap_def heap_W_def)
  ultimately show ?thesis by simp
qed

lemma heap_W_shrink: "heap_W n W \<Longrightarrow> m \<le> n \<Longrightarrow> heap_W m W"
  by (auto simp: heap_W_def)

lemma cache_pq_remove_inv:
  assumes inv: "cache_pq_inv pri q" and x: "x \<in> pq_elems q"
  shows "\<exists>q'. cache_pq_remove pri q x = (APR_SUCCESS, q') \<and> cache_pq_inv pri q'
    \<and> pq_elems q' = pq_elems q - {x}"
proof -
  let ?k = "pq_pos q x" and ?n = "pq_size q - 1"
  let ?q = "pq_unlink q ?k"
  have wf: "pq_wf q" "pq_located q" "pq_heap pri q" using inv by (auto simp: cache_pq_inv_def)
  note k = pq_elem_pos [OF wf(2) x]
  have el: "pq_elems ?q = pq_elems q - {x}" using pq_unlink_elems [OF wf(1,2) k(1,2)] k(3) by simp
  show ?thesis
  proof (cases "?k = ?n")
    case True
    moreover have "?k < length (pq_d q)" using k(2) wf(1) by (simp add: pq_wf_def)
    ultimately have "pq_d ?q ! ?k = x" using k(3) by simp
    then show ?thesis using pq_unlink_last [OF inv k(1) True] el
      by (simp add: cache_pq_remove_def Let_def)
  next
    case False
    then have kn: "?k < ?n" using k(2) by simp
    note h = pq_unlink_hole [OF wf(1,2) k(1) kn]
    let ?v = "pq_d q ! ?n"
    have W: "heap_W ?n (\<lambda>j. pri (pq_d q ! j))"
      using wf(3) heap_W_shrink by (auto simp: pq_heap_def)
    have v: "pq_d ?q ! ?k = ?v" using k kn wf(1) by (simp add: pq_wf_def)
    show ?thesis
    proof (cases "pri ?v > pri x")
      case True
      have "up_W (pq_size ?q) (\<lambda>j. pri (pq_d ?q ! j)) ?k"
        unfolding h(2) pq_unlink_fields(1)
        using heap_W_raise [OF W kn, of "pri ?v"] True k(3) by simp
      then show ?thesis using bubble_up_inv [OF h(1)] el v True
        by (simp add: cache_pq_remove_def Let_def)
    next
      case False
      have "down_W (pq_size ?q) (\<lambda>j. pri (pq_d ?q ! j)) ?k"
        unfolding h(2) pq_unlink_fields(1)
        using heap_W_lower [OF W kn, of "pri ?v"] False k(3) by simp
      then show ?thesis using percolate_down_inv [OF h(1)] el v False
        by (simp add: cache_pq_remove_def Let_def)
    qed
  qed
qed

lemma cache_pq_pop_inv:
  assumes inv: "cache_pq_inv pri q" and ne: "pq_elems q \<noteq> {}"
  shows "\<exists>q'. cache_pq_pop pri (Some q) = (Some (pq_d q ! 1), Some q')
    \<and> pq_d q ! 1 \<in> pq_elems q \<and> (\<forall>y \<in> pq_elems q. pri y \<le> pri (pq_d q ! 1))
    \<and> cache_pq_inv pri q' \<and> pq_elems q' = pq_elems q - {pq_d q ! 1}"
proof -
  let ?n = "pq_size q - 1"
  have wf: "pq_wf q" "pq_located q" "pq_heap pri q" using inv by (auto simp: cache_pq_inv_def)
  have n: "1 < pq_size q" using ne by (auto simp: pq_elems_def)
  let ?q = "cache_pq_percolate_down pri (pq_unlink q 1) 1"
  have el: "pq_elems (pq_unlink q 1) = pq_elems q - {pq_d q ! 1}"
    using pq_unlink_elems [OF wf(1,2) _ n] by simp
  have top: "pq_d q ! 1 \<in> pq_elems q" "\<forall>y \<in> pq_elems q. pri y \<le> pri (pq_d q ! 1)"
    using n pq_heap_root [OF wf(3)] by (auto simp: pq_elems_def)
  have "cache_pq_inv pri ?q \<and> pq_elems ?q = pq_elems (pq_unlink q 1)"
  proof (cases "1 = ?n")
    case True
    then show ?thesis using pq_unlink_last [OF inv _ True] by simp
  next
    case False
    then have kn: "1 < ?n" using n by simp
    have W: "heap_W ?n (\<lambda>j. pri (pq_d q ! j))"
      using wf(3) heap_W_shrink by (auto simp: pq_heap_def)
    note h = pq_unlink_hole [OF wf(1,2) order_refl kn]
    have "pri (pq_d q ! ?n) \<le> pri (pq_d q ! 1)" using pq_heap_root [OF wf(3)] n by simp
    then have "down_W (pq_size (pq_unlink q 1)) (\<lambda>j. pri (pq_d (pq_unlink q 1) ! j)) 1"
      unfolding h(2) pq_unlink_fields(1) by (rule heap_W_lower [OF W kn])
    then show ?thesis using percolate_down_inv [OF h(1)] by simp
  qed
  then show ?thesis using top el n by (simp add: cache_pq_pop.simps(2))
qed

lemma cache_pq_pop_empty: "pq_located q \<Longrightarrow> pq_wf q \<Longrightarrow> pq_elems q = {} \<Longrightarrow>
   cache_pq_pop pri (Some q) = (None, Some q)"
  by (auto simp: pq_elems_def pq_wf_def cache_pq_pop.simps(2))

subsection \<open>A changed priority\<close>

lemma cache_pq_change_priority_inv:
  assumes inv: "cache_pq_inv pri q" and x: "x \<in> pq_elems q"
    and other: "\<And>y. y \<noteq> x \<Longrightarrow> pri' y = pri y"
  shows "cache_pq_inv pri' (cache_pq_change_priority pri' q (pri x) (pri' x) x)
    \<and> pq_elems (cache_pq_change_priority pri' q (pri x) (pri' x) x) = pq_elems q"
proof -
  let ?k = "pq_pos q x"
  have wf: "pq_wf q" "pq_located q" "pq_heap pri q" using inv by (auto simp: cache_pq_inv_def)
  note k = pq_elem_pos [OF wf(2) x]
  have loc: "pq_pos q (pq_d q ! j) = j" if "1 \<le> j" "j < pq_size q" for j
    using wf(2) that by (simp add: pq_located_def)
  have ne: "pq_d q ! j \<noteq> x" if "1 \<le> j" "j < pq_size q" "j \<noteq> ?k" for j
    using loc [OF that(1,2)] that(3) by metis
  have hole: "pq_hole q ?k (pq_d q ! ?k)"
    unfolding pq_hole_def k(3) using wf(1) k(1,2) loc ne by blast
  let ?W = "\<lambda>j. pri (pq_d q ! j)"
  have W: "heap_W (pq_size q) ?W" using wf(3) by (simp add: pq_heap_def)
  have eq: "(?W(?k := pri' x)) j = pri' (pq_d q ! j)" if "1 \<le> j" "j < pq_size q" for j
    using other ne k(3) that by auto
  show ?thesis
  proof (cases "pri' x > pri x")
    case True
    have "up_W (pq_size q) (?W(?k := pri' x)) ?k"
      using heap_W_raise [OF W k(2), of "pri' x"] True k(3) by simp
    then have "up_W (pq_size q) (\<lambda>j. pri' (pq_d q ! j)) ?k"
      by (rule up_W_cong [rotated]) (rule eq)
    then show ?thesis using bubble_up_inv [OF hole] True
      by (simp add: cache_pq_change_priority_def Let_def)
  next
    case False
    have "down_W (pq_size q) (?W(?k := pri' x)) ?k"
      using heap_W_lower [OF W k(2), of "pri' x"] False k(3) by simp
    then have "down_W (pq_size q) (\<lambda>j. pri' (pq_d q ! j)) ?k"
      by (rule down_W_cong [rotated]) (rule eq)
    then show ?thesis using percolate_down_inv [OF hole] False
      by (simp add: cache_pq_change_priority_def Let_def)
  qed
qed

subsection \<open>The debug listing\<close>

text \<open>
  cache_pq_print pops a copy of the queue, whose set callback does nothing,
  and prints what it pops. The result is the list of the printed objects.
\<close>

function cache_pq_print_loop :: "('a \<Rightarrow> int) \<Rightarrow> 'a cache_pqueue \<Rightarrow> 'a list" where
  "cache_pq_print_loop pri dup =
     (if cache_pq_size dup > 1
      then (case cache_pq_pop pri (Some dup) of
              (Some e, Some dup') \<Rightarrow> e # cache_pq_print_loop pri dup'
            | _ \<Rightarrow> [])
      else [])"
  by pat_completeness auto
termination
  by (relation "measure (\<lambda>(pri, dup). pq_size dup)")
    (auto simp: cache_pq_pop.simps(2) cache_pq_size_def split: if_splits)

declare cache_pq_print_loop.simps [simp del]

definition cache_pq_print :: "('a \<Rightarrow> int) \<Rightarrow> 'a cache_pqueue \<Rightarrow> 'a list" where
  "cache_pq_print pri q = cache_pq_print_loop pri q"

section \<open>The queue as a provider\<close>

fun pq_opt_inv :: "('a \<Rightarrow> int) \<Rightarrow> 'a cache_pqueue option \<Rightarrow> bool" where
  "pq_opt_inv pri None = False"
| "pq_opt_inv pri (Some q) = cache_pq_inv pri q"

fun pq_opt_elems :: "'a cache_pqueue option \<Rightarrow> 'a set" where
  "pq_opt_elems None = {}"
| "pq_opt_elems (Some q) = pq_elems q"

fun_cases pq_opt_invE: "pq_opt_inv pri q"

interpretation cpq: prio_queue "pq_opt_inv pri" pq_opt_elems pri "cache_pq_pop pri" for pri
proof unfold_locales
  fix q :: "'a cache_pqueue option"
  assume "pq_opt_inv pri q"
  then obtain r where q: "q = Some r" "cache_pq_inv pri r" by (cases q) auto
  then have wf: "pq_located r" "pq_wf r" by (auto simp: cache_pq_inv_def)
  show "finite (pq_opt_elems q)" using q by simp
  show "cache_pq_pop pri q = (None, q)" if "pq_opt_elems q = {}"
    using cache_pq_pop_empty [OF wf] that q by simp
  show "\<exists>x q'. cache_pq_pop pri q = (Some x, q') \<and> x \<in> pq_opt_elems q
      \<and> (\<forall>y \<in> pq_opt_elems q. pri y \<le> pri x)
      \<and> pq_opt_inv pri q' \<and> pq_opt_elems q' = pq_opt_elems q - {x}" if "pq_opt_elems q \<noteq> {}"
  proof -
    have "pq_elems r \<noteq> {}" using that q(1) by simp
    then obtain r' where "cache_pq_pop pri (Some r) = (Some (pq_d r ! 1), Some r')"
        "pq_d r ! 1 \<in> pq_elems r" "\<forall>y \<in> pq_elems r. pri y \<le> pri (pq_d r ! 1)"
        "cache_pq_inv pri r'" "pq_elems r' = pq_elems r - {pq_d r ! 1}"
      using cache_pq_pop_inv [OF q(2)] by blast
    then show ?thesis
      using q(1) by (intro exI [of _ "pq_d r ! 1"] exI [of _ "Some r'"]) simp
  qed
qed

lemma print_loop_pops:
  "cache_pq_print_loop pri q = fst (pop_times (cache_pq_pop pri) (cache_pq_size q - 1) (Some q))"
proof (induction pri q rule: cache_pq_print_loop.induct)
  case (1 pri q)
  show ?case
  proof (cases "cache_pq_size q > 1")
    case True
    then obtain n where n: "cache_pq_size q - 1 = Suc n" by (metis Suc_pred zero_less_diff)
    let ?q = "cache_pq_percolate_down pri (pq_unlink q 1) 1"
    have pop: "cache_pq_pop pri (Some q) = (Some (pq_d q ! 1), Some ?q)"
      using True by (simp add: cache_pq_pop.simps(2) cache_pq_size_def)
    have "cache_pq_size ?q - 1 = n" using n by (simp add: cache_pq_size_def)
    then show ?thesis
      using "1.IH" [OF True pop [symmetric] refl refl] True n pop
      by (subst cache_pq_print_loop.simps) (simp split: prod.splits)
  qed (simp add: cache_pq_print_loop.simps [of pri q])
qed

section \<open>The self check\<close>

fun in_subtree :: "nat \<Rightarrow> nat \<Rightarrow> bool" where
  "in_subtree i j = (if i < j then j div 2 = i \<or> in_subtree i (j div 2) else False)"

declare in_subtree.simps [simp del]

lemma in_subtree_le: "in_subtree i j \<Longrightarrow> 2 * i \<le> j"
proof (induction i j rule: in_subtree.induct)
  case (1 i j)
  from "1.prems" have "i < j \<and> (j div 2 = i \<or> in_subtree i (j div 2))"
    by (subst (asm) in_subtree.simps) (auto split: if_splits)
  then show ?case using "1.IH" by auto
qed

lemma in_subtree_root: "in_subtree 1 j \<longleftrightarrow> 2 \<le> j"
proof (induction j rule: less_induct)
  case (less j)
  then show ?case using less [of "j div 2"] by (subst in_subtree.simps) auto
qed

lemma in_subtree_children:
  "1 \<le> i \<Longrightarrow> in_subtree i j \<longleftrightarrow>
     j = 2 * i \<or> j = 2 * i + 1 \<or> in_subtree (2 * i) j \<or> in_subtree (2 * i + 1) j"
proof (induction j rule: less_induct)
  case (less j)
  show ?case
  proof (cases "j div 2 = i \<or> j \<le> i")
    case True
    then show ?thesis using less.prems in_subtree_le [of "2 * i" j] in_subtree_le [of "2 * i + 1" j]
      by (subst in_subtree.simps) (auto dest: in_subtree_le)
  next
    case False
    then have j: "i < j" "j div 2 < j" "j div 2 \<noteq> i" "j \<noteq> 2 * i" "j \<noteq> 2 * i + 1" by auto
    have eq: "in_subtree c j \<longleftrightarrow> j div 2 = c \<or> in_subtree c (j div 2)" if "c \<le> 2 * i + 1" "i < c" for c
      using in_subtree.simps [of c j] j(2) in_subtree_le [of c "j div 2"] that less.prems by auto
    have "in_subtree i j \<longleftrightarrow> in_subtree i (j div 2)" using j by (subst in_subtree.simps) auto
    also have "\<dots> \<longleftrightarrow> j div 2 = 2 * i \<or> j div 2 = 2 * i + 1
        \<or> in_subtree (2 * i) (j div 2) \<or> in_subtree (2 * i + 1) (j div 2)"
      using less.IH [OF j(2) less.prems] .
    also have "\<dots> \<longleftrightarrow> in_subtree (2 * i) j \<or> in_subtree (2 * i + 1) j"
      using eq [of "2 * i"] eq [of "2 * i + 1"] less.prems by auto
    finally show ?thesis using j by simp
  qed
qed

definition subtree_ok :: "('a \<Rightarrow> int) \<Rightarrow> 'a cache_pqueue \<Rightarrow> nat \<Rightarrow> bool" where
  "subtree_ok pri q i \<longleftrightarrow> (\<forall>j. in_subtree i j \<and> j < pq_size q \<longrightarrow>
     pri (pq_d q ! j) \<le> pri (pq_d q ! (j div 2)))"

lemma subtree_ok_unfold:
  assumes "1 \<le> i"
  shows "subtree_ok pri q i \<longleftrightarrow>
    (2 * i < pq_size q \<longrightarrow> pri (pq_d q ! (2 * i)) \<le> pri (pq_d q ! i) \<and> subtree_ok pri q (2 * i)) \<and>
    (2 * i + 1 < pq_size q \<longrightarrow>
       pri (pq_d q ! (2 * i + 1)) \<le> pri (pq_d q ! i) \<and> subtree_ok pri q (2 * i + 1))"
proof -
  have none: "subtree_ok pri q c" if "pq_size q \<le> c" for c
    using that in_subtree_le [of c] by (fastforce simp: subtree_ok_def)
  show ?thesis
    using none [of "2 * i"] none [of "2 * i + 1"]
    unfolding subtree_ok_def in_subtree_children [OF assms] by auto
qed

lemma cache_pq_subtree_is_valid_eq:
  "1 \<le> i \<Longrightarrow> cache_pq_subtree_is_valid pri q i = Some (subtree_ok pri q i)"
proof (induction "pq_size q - i" arbitrary: i rule: less_induct)
  case less
  have IH: "cache_pq_subtree_is_valid pri q c = Some (subtree_ok pri q c)"
    if "i < c" "c < pq_size q" for c
    using less.hyps [of c] less.prems that by simp
  have i: "i < 2 * i" "i < 2 * i + 1" using less.prems by auto
  show ?case
    using IH [OF i(1)] IH [OF i(2)]
    by (subst cache_pq_subtree_is_valid.simps, subst subtree_ok_unfold [OF less.prems]) auto
qed

section \<open>Properties\<close>

text \<open>
  A concrete queue of integers, their own priorities, that the witnesses use:
  5 is the root and 3 its child.
\<close>

definition example_pq :: "int cache_pqueue" where
  "example_pq = \<lparr>pq_size = 3, pq_avail = 4, pq_step = 4, pq_d = [0, 5, 3, 0],
                 pq_pos = (\<lambda>x. if x = 5 then 1 else 2)\<rparr>"

lemma example_pq_inv: "cache_pq_inv (\<lambda>x. x) example_pq"
  by (auto simp: cache_pq_inv_def pq_wf_def pq_located_def pq_heap_def heap_W_def example_pq_def
      numeral_3_eq_3 less_Suc_eq)

lemma example_pq_elems: "pq_elems example_pq = {3, 5}"
  by (auto simp: pq_elems_def example_pq_def numeral_3_eq_3 atLeastLessThanSuc image_iff)

text \<open>
  Inserting, removing and re-weighting an object keep the queue's
  invariant (the heap order, and every object's recorded position is the slot
  it is in) and change the set of queued objects by exactly that object; the
  insertion needs a free slot or a successful realloc, and the re-weighting
  starts from the queue ordered by the old priorities and ends in one ordered
  by the new ones.
\<close>

theorem cache_pq_updates_correct:
  assumes "cache_pq_inv pri q"
  shows "(x \<notin> pq_elems q \<and> (pq_size q < pq_avail q \<or> realloc_ok) \<longrightarrow>
      (\<exists>q'. cache_pq_insert pri junk realloc_ok (Some q) x = (APR_SUCCESS, Some q')
        \<and> cache_pq_inv pri q' \<and> pq_elems q' = insert x (pq_elems q)))
    \<and> (y \<in> pq_elems q \<longrightarrow>
      (\<exists>q'. cache_pq_remove pri q y = (APR_SUCCESS, q')
        \<and> cache_pq_inv pri q' \<and> pq_elems q' = pq_elems q - {y}))
    \<and> (y \<in> pq_elems q \<and> (\<forall>z. z \<noteq> y \<longrightarrow> pri' z = pri z) \<longrightarrow>
      cache_pq_inv pri' (cache_pq_change_priority pri' q (pri y) (pri' y) y)
        \<and> pq_elems (cache_pq_change_priority pri' q (pri y) (pri' y) y) = pq_elems q)"
proof (intro conjI impI)
  assume "x \<notin> pq_elems q \<and> (pq_size q < pq_avail q \<or> realloc_ok)"
  then show "\<exists>q'. cache_pq_insert pri junk realloc_ok (Some q) x = (APR_SUCCESS, Some q')
        \<and> cache_pq_inv pri q' \<and> pq_elems q' = insert x (pq_elems q)"
    using cache_pq_insert_inv [OF assms] by blast
next
  assume "y \<in> pq_elems q"
  then show "\<exists>q'. cache_pq_remove pri q y = (APR_SUCCESS, q')
        \<and> cache_pq_inv pri q' \<and> pq_elems q' = pq_elems q - {y}"
    by (rule cache_pq_remove_inv [OF assms])
next
  assume "y \<in> pq_elems q \<and> (\<forall>z. z \<noteq> y \<longrightarrow> pri' z = pri z)"
  then have y: "y \<in> pq_elems q" "\<And>z. z \<noteq> y \<Longrightarrow> pri' z = pri z" by auto
  note change = cache_pq_change_priority_inv [OF assms y]
  show "cache_pq_inv pri' (cache_pq_change_priority pri' q (pri y) (pri' y) y)"
    using change by (rule conjunct1)
  show "pq_elems (cache_pq_change_priority pri' q (pri y) (pri' y) y) = pq_elems q"
    using change by (rule conjunct2)
qed

theorem cache_pq_updates_correct_witness:
  "(\<exists>q'. cache_pq_insert (\<lambda>x. x) 0 False (Some example_pq) 7 = (APR_SUCCESS, Some q')
      \<and> pq_elems q' = {3, 5, 7}) \<and>
   (\<exists>q'. cache_pq_remove (\<lambda>x. x) example_pq 5 = (APR_SUCCESS, q') \<and> pq_elems q' = {3}) \<and>
   cache_pq_inv (\<lambda>x. if x = 3 then 9 else x)
     (cache_pq_change_priority (\<lambda>x. if x = 3 then 9 else x) example_pq 3 9 3)"
proof -
  have "7 \<notin> pq_elems example_pq" "5 \<in> pq_elems example_pq" "3 \<in> pq_elems example_pq"
      "pq_size example_pq < pq_avail example_pq"
    by (auto simp: example_pq_elems) (simp add: example_pq_def)
  then show ?thesis
    using cache_pq_updates_correct [OF example_pq_inv, of 7 False 0 5 "\<lambda>x. x"]
      cache_pq_updates_correct [OF example_pq_inv, of 7 False 0 3 "\<lambda>x. if x = 3 then 9 else x"]
    by (auto simp: example_pq_elems)
qed

text \<open>
  C29. Popping a queue as often as it has objects returns each of them exactly
  once, in order of falling priority, and leaves it empty.
\<close>

theorem cache_pq_drain_sorted:
  assumes "cache_pq_inv pri q"
  shows "\<exists>xs q'. pop_times (cache_pq_pop pri) (cache_pq_size q) (Some q) = (xs, Some q')
    \<and> distinct xs \<and> set xs = pq_elems q \<and> sorted_wrt (\<lambda>x y. pri y \<le> pri x) xs
    \<and> cache_pq_pop pri (Some q') = (None, Some q')"
proof -
  have "card (pq_elems q) = cache_pq_size q"
    using assms card_pq_elems by (auto simp: cache_pq_inv_def cache_pq_size_def)
  then have "\<exists>xs r. pop_times (cache_pq_pop pri) (cache_pq_size q) (Some q) = (xs, r)
      \<and> pq_opt_inv pri r \<and> pq_opt_elems r = {}
      \<and> distinct xs \<and> set xs = pq_elems q \<and> sorted_wrt (\<lambda>x y. pri y \<le> pri x) xs"
    using cpq.pop_all [of pri "Some q"] assms by simp
  then obtain xs r where r: "pq_opt_inv pri r" "pq_opt_elems r = {}"
    and xs: "pop_times (cache_pq_pop pri) (cache_pq_size q) (Some q) = (xs, r)"
      "distinct xs" "set xs = pq_elems q" "sorted_wrt (\<lambda>x y. pri y \<le> pri x) xs"
    by blast
  obtain q' where q': "r = Some q'" using r(1) by (cases r) auto
  have "cache_pq_pop pri (Some q') = (None, Some q')" using cpq.pop_empty [OF r] q' by simp
  then show ?thesis using xs q' by blast
qed

theorem cache_pq_drain_sorted_witness:
  "\<exists>xs. fst (pop_times (cache_pq_pop (\<lambda>x. x)) 2 (Some example_pq)) = xs
    \<and> distinct xs \<and> set xs = {3, 5} \<and> sorted_wrt (\<lambda>x y. y \<le> x) xs"
proof -
  have "cache_pq_size example_pq = 2" by (simp add: cache_pq_size_def example_pq_def)
  then obtain xs q' where
      "pop_times (cache_pq_pop (\<lambda>x. x)) 2 (Some example_pq) = (xs, Some q')"
      "distinct xs" "set xs = {3, 5}" "sorted_wrt (\<lambda>x y. y \<le> x) xs"
    using cache_pq_drain_sorted [OF example_pq_inv] unfolding example_pq_elems by auto
  then show ?thesis by simp
qed

text \<open>
  The self check cache_pq_is_valid returns, and returns true exactly when
  the array is in heap order.
\<close>

theorem cache_pq_is_valid_iff: "cache_pq_is_valid pri q = Some (pq_heap pri q)"
proof -
  have "subtree_ok pri q 1 \<longleftrightarrow> pq_heap pri q"
    unfolding subtree_ok_def in_subtree_root pq_heap_def heap_W_def ..
  then show ?thesis by (simp add: cache_pq_is_valid_def cache_pq_subtree_is_valid_eq)
qed

text \<open>
  The debug listing prints the objects in order of falling priority, each
  at most once, but stops one object early: the last one is never printed.
\<close>

theorem cache_pq_print_omits_one:
  assumes "cache_pq_inv pri q" and "pq_elems q \<noteq> {}"
  shows "\<exists>x \<in> pq_elems q. set (cache_pq_print pri q) = pq_elems q - {x}
    \<and> distinct (cache_pq_print pri q)
    \<and> sorted_wrt (\<lambda>x y. pri y \<le> pri x) (cache_pq_print pri q)
    \<and> (\<forall>y \<in> pq_elems q. pri x \<le> pri y)"
proof -
  let ?n = "cache_pq_size q - 1"
  have card: "card (pq_elems q) = cache_pq_size q"
    using assms card_pq_elems by (auto simp: cache_pq_inv_def cache_pq_size_def)
  obtain xs r where r: "pop_times (cache_pq_pop pri) ?n (Some q) = (xs, r)" by fastforce
  have xs: "cache_pq_print pri q = xs" using r by (simp add: cache_pq_print_def print_loop_pops)
  have inv: "pq_opt_inv pri (Some q)" "?n \<le> card (pq_opt_elems (Some q))" using assms(1) card by auto
  note spec = cpq.pop_times_spec [OF inv r]
  have sp: "length xs = ?n" "distinct xs" "set xs \<subseteq> pq_elems q" "pq_opt_elems r = pq_elems q - set xs"
      "sorted_wrt (\<lambda>x y. pri y \<le> pri x) xs" "\<forall>x \<in> set xs. \<forall>y \<in> pq_opt_elems r. pri y \<le> pri x"
    using spec card by auto
  have "card (pq_elems q - set xs) = 1"
    using sp(1-3) card assms(2) finite_pq_elems card_gt_0_iff [of "pq_elems q"]
    by (simp add: card_Diff_subset distinct_card)
  then obtain x where x: "pq_elems q - set xs = {x}" by (auto simp: card_1_singleton_iff)
  then have "pq_elems q = insert x (set xs)" "x \<notin> set xs" using sp(3) by auto
  then show ?thesis using sp x by (auto simp: xs)
qed

theorem cache_pq_print_omits_one_witness:
  "\<exists>x \<in> {3, 5}. set (cache_pq_print (\<lambda>x. x) example_pq) = {3, 5} - {x}"
  using cache_pq_print_omits_one [OF example_pq_inv] example_pq_elems by auto

end
