(* ===== verification/Cache_Hash.thy ===== *)
theory Cache_Hash
  imports Interfaces
begin

text \<open>
  modules/cache/cache_hash.c: the chained hash table that finds a cached
  object by its key. A key pointer is the list of the bytes from there on and
  klen says how many of them count, CACHE_HASH_KEY_STRING (-1) meaning up to
  the first NUL. A pointer to the place that holds an entry pointer (hep) is
  the pair of a bucket and a position in its chain, the position after the last
  entry being the null link. The values are the non-null pointers 'v.
\<close>

section \<open>State and operations\<close>

record 'v cache_hash_entry =
  he_hash :: "32 word"
  he_key :: "char list"
  he_klen :: nat
  he_val :: 'v

record 'v cache_hash =
  ch_array :: "'v cache_hash_entry list list"
  ch_count :: int
  ch_max :: nat

text \<open>
  The size is an apr_size_t that the code stores in an int: the two agree below
  2^31 buckets, the range of the model.
\<close>

definition cache_hash_make :: "nat \<Rightarrow> bool \<Rightarrow> bool \<Rightarrow> 'v cache_hash option" where
  "cache_hash_make sz malloc_ok calloc_ok =
     (if \<not> malloc_ok then None
      else if \<not> calloc_ok then None
      else Some \<lparr>ch_array = replicate (sz + 1) [], ch_count = 0, ch_max = sz\<rparr>)"

text \<open>The times-33 hash of unsigned bytes, on 32 bits.\<close>

definition times33 :: "char list \<Rightarrow> 32 word" where
  "times33 bytes = fold (\<lambda>c h. h * 33 + of_nat (chr_code c)) bytes 0"

definition key_bytes :: "char list \<Rightarrow> int \<Rightarrow> char list" where
  "key_bytes key klen =
     (if klen = -1 then takeWhile (\<lambda>c. c \<noteq> CHR 0x00) key else take (nat klen) key)"

definition he_match :: "32 word \<Rightarrow> nat \<Rightarrow> char list \<Rightarrow> 'v cache_hash_entry \<Rightarrow> bool" where
  "he_match hash klen key he \<longleftrightarrow>
     he_hash he = hash \<and> he_klen he = klen \<and> take klen (he_key he) = take klen key"

fun scan_chain :: "32 word \<Rightarrow> nat \<Rightarrow> char list \<Rightarrow> 'v cache_hash_entry list \<Rightarrow> nat" where
  "scan_chain hash klen key [] = 0"
| "scan_chain hash klen key (he # hes) =
     (if he_match hash klen key he then 0 else Suc (scan_chain hash klen key hes))"

definition find_entry ::
    "'v cache_hash \<Rightarrow> char list \<Rightarrow> int \<Rightarrow> 'v option \<Rightarrow> bool
     \<Rightarrow> 'v cache_hash \<times> (nat \<times> nat) option" where
  "find_entry ht key klen val malloc_ok =
     (let bytes = key_bytes key klen;
          hash = times33 bytes;
          n = (if klen = -1 then length bytes else nat klen);
          b = unat hash mod ch_max ht;
          chain = ch_array ht ! b;
          i = scan_chain hash n key chain
      in if i < length chain then (ht, Some (b, i))
         else (case val of
             None \<Rightarrow> (ht, Some (b, i))
           | Some v \<Rightarrow>
               if \<not> malloc_ok then (ht, None)
               else
                 let he = \<lparr>he_hash = hash, he_key = key, he_klen = n, he_val = v\<rparr>
                 in (ht\<lparr>ch_array := (ch_array ht)[b := chain @ [he]],
                        ch_count := ch_count ht + 1\<rparr>, Some (b, i))))"

definition cache_hash_get :: "'v cache_hash \<Rightarrow> char list \<Rightarrow> int \<Rightarrow> 'v option" where
  "cache_hash_get ht key klen =
     (case find_entry ht key klen None True of
        (ht', Some (b, i)) \<Rightarrow>
          (if i < length (ch_array ht' ! b) then Some (he_val (ch_array ht' ! b ! i)) else None)
      | (ht', None) \<Rightarrow> None)"

definition cache_hash_set ::
    "'v cache_hash \<Rightarrow> char list \<Rightarrow> int \<Rightarrow> 'v option \<Rightarrow> bool \<Rightarrow> 'v option \<times> 'v cache_hash" where
  "cache_hash_set ht key klen val malloc_ok =
     (case find_entry ht key klen val malloc_ok of
        (ht', None) \<Rightarrow> (None, ht')
      | (ht', Some (b, i)) \<Rightarrow>
          let chain = ch_array ht' ! b in
          if i < length chain then
            (case val of
               None \<Rightarrow>
                 (Some (he_val (chain ! i)),
                  ht'\<lparr>ch_array := (ch_array ht')[b := take i chain @ drop (Suc i) chain],
                      ch_count := ch_count ht' - 1\<rparr>)
             | Some v \<Rightarrow>
                 (Some (he_val (chain ! i)),
                  ht'\<lparr>ch_array := (ch_array ht')[b := chain[i := (chain ! i)\<lparr>he_val := v\<rparr>]]\<rparr>))
          else (None, ht'))"

definition cache_hash_count :: "'v cache_hash \<Rightarrow> int" where
  "cache_hash_count ht = ch_count ht"

text \<open>
  Iteration. The iterator holds the entry it is at, the rest of that entry's
  chain (this->next and on) and the next bucket's index.
\<close>

record 'v cache_hash_index =
  hi_this :: "'v cache_hash_entry option"
  hi_next :: "'v cache_hash_entry list"
  hi_index :: nat

function hi_advance ::
    "'v cache_hash \<Rightarrow> 'v cache_hash_entry list \<Rightarrow> nat \<Rightarrow> 'v cache_hash_index option" where
  "hi_advance ht (he # rest) i = Some \<lparr>hi_this = Some he, hi_next = rest, hi_index = i\<rparr>"
| "hi_advance ht [] i =
     (if i > ch_max ht then None else hi_advance ht (ch_array ht ! i) (i + 1))"
  by pat_completeness auto
termination
  by (relation "measure (\<lambda>(ht, c, i). (ch_max ht + 1) - i)") auto

definition cache_hash_next ::
    "'v cache_hash \<Rightarrow> 'v cache_hash_index \<Rightarrow> 'v cache_hash_index option" where
  "cache_hash_next ht hi = hi_advance ht (hi_next hi) (hi_index hi)"

definition cache_hash_first :: "'v cache_hash \<Rightarrow> 'v cache_hash_index option" where
  "cache_hash_first ht = cache_hash_next ht \<lparr>hi_this = None, hi_next = [], hi_index = 0\<rparr>"

text \<open>The walk a caller makes: first, then next until it returns null.\<close>

fun hash_walk :: "'v cache_hash \<Rightarrow> nat \<Rightarrow> 'v cache_hash_index option \<Rightarrow> 'v cache_hash_entry list" where
  "hash_walk ht 0 hi = []"
| "hash_walk ht (Suc n) None = []"
| "hash_walk ht (Suc n) (Some hi) =
     (case hi_this hi of None \<Rightarrow> [] | Some he \<Rightarrow> he # hash_walk ht n (cache_hash_next ht hi))"

section \<open>Invariant and abstraction\<close>

definition entry_key :: "'v cache_hash_entry \<Rightarrow> char list" where
  "entry_key he = take (he_klen he) (he_key he)"

definition home :: "'v cache_hash \<Rightarrow> char list \<Rightarrow> nat" where
  "home ht k = unat (times33 k) mod ch_max ht"

definition chain_ok :: "'v cache_hash \<Rightarrow> nat \<Rightarrow> 'v cache_hash_entry list \<Rightarrow> bool" where
  "chain_ok ht b hes \<longleftrightarrow> distinct (map entry_key hes) \<and>
     (\<forall>he \<in> set hes. he_klen he \<le> length (he_key he) \<and> he_hash he = times33 (entry_key he)
        \<and> home ht (entry_key he) = b)"

definition cache_hash_inv :: "'v cache_hash \<Rightarrow> bool" where
  "cache_hash_inv ht \<longleftrightarrow> 0 < ch_max ht \<and> length (ch_array ht) = ch_max ht + 1
     \<and> (\<forall>b < length (ch_array ht). chain_ok ht b (ch_array ht ! b))
     \<and> ch_count ht = int (length (concat (ch_array ht)))"

definition chain_map :: "'v cache_hash_entry list \<Rightarrow> char list \<Rightarrow> 'v option" where
  "chain_map hes = map_of (map (\<lambda>he. (entry_key he, he_val he)) hes)"

definition hash_map :: "'v cache_hash \<Rightarrow> char list \<Rightarrow> 'v option" where
  "hash_map ht k = chain_map (ch_array ht ! home ht k) k"

lemma chain_map_simps [simp]:
  "chain_map [] k = None"
  "chain_map (he # hes) k = (if k = entry_key he then Some (he_val he) else chain_map hes k)"
  by (auto simp: chain_map_def)

lemma scan_chain_le: "scan_chain h n key hes \<le> length hes"
  by (induction hes) auto

lemma he_match_key:
  assumes "he_klen he \<le> length (he_key he)" "he_hash he = times33 (entry_key he)" "n \<le> length key"
  shows "he_match (times33 (take n key)) n key he \<longleftrightarrow> entry_key he = take n key"
  using assms by (auto simp: he_match_def entry_key_def) (metis length_take min_absorb2)+

lemma scan_chain_map:
  assumes "\<forall>he \<in> set hes. he_klen he \<le> length (he_key he) \<and> he_hash he = times33 (entry_key he)"
    and "n \<le> length key"
  defines "i \<equiv> scan_chain (times33 (take n key)) n key hes"
  shows "chain_map hes (take n key) = (if i < length hes then Some (he_val (hes ! i)) else None)"
    and "i < length hes \<Longrightarrow> entry_key (hes ! i) = take n key"
    and "i \<ge> length hes \<Longrightarrow> take n key \<notin> entry_key ` set hes"
  using assms(1) unfolding i_def
  by (induction hes) (auto simp: he_match_key [OF _ _ assms(2)] split: if_splits)

lemma chain_map_None: "chain_map hes k = None \<longleftrightarrow> k \<notin> entry_key ` set hes"
  by (induction hes) auto

lemma entry_key_val [simp]: "entry_key (he\<lparr>he_val := v\<rparr>) = entry_key he"
  by (simp add: entry_key_def)

lemma chain_map_replace:
  "i < length hes \<Longrightarrow> distinct (map entry_key hes) \<Longrightarrow>
     chain_map (hes[i := (hes ! i)\<lparr>he_val := v\<rparr>]) = (chain_map hes)(entry_key (hes ! i) := Some v)"
proof (induction hes arbitrary: i)
  case (Cons he hes)
  show ?case
  proof (cases i)
    case 0
    then show ?thesis using Cons.prems by (auto simp: fun_eq_iff chain_map_None)
  next
    case (Suc j)
    then have "entry_key (hes ! j) \<noteq> entry_key he" using Cons.prems by (metis Suc_less_SucD distinct.simps(2) image_eqI length_Cons list.simps(9) nth_mem set_map)
    then show ?thesis using Cons.IH [of j] Cons.prems Suc by (auto simp: fun_eq_iff)
  qed
qed simp

lemma chain_map_delete:
  "i < length hes \<Longrightarrow> distinct (map entry_key hes) \<Longrightarrow>
     chain_map (take i hes @ drop (Suc i) hes) = (chain_map hes)(entry_key (hes ! i) := None)"
proof (induction hes arbitrary: i)
  case (Cons he hes)
  show ?case
  proof (cases i)
    case 0
    then show ?thesis using Cons.prems by (auto simp: fun_eq_iff chain_map_None)
  next
    case (Suc j)
    then have "entry_key (hes ! j) \<noteq> entry_key he" using Cons.prems by (metis Suc_less_SucD distinct.simps(2) image_eqI length_Cons list.simps(9) nth_mem set_map)
    then show ?thesis using Cons.IH [of j] Cons.prems Suc by (auto simp: fun_eq_iff)
  qed
qed simp

lemma chain_map_append:
  "chain_map (hes @ [he]) k
     = (case chain_map hes k of None \<Rightarrow> if k = entry_key he then Some (he_val he) else None
        | Some v \<Rightarrow> Some v)"
  by (induction hes) auto

lemma map_entry_key_update:
  "i < length hes \<Longrightarrow> map entry_key (hes[i := (hes ! i)\<lparr>he_val := v\<rparr>]) = map entry_key hes"
  by (rule nth_equalityI) (auto simp: nth_list_update)

lemma chain_ok_sub:
  assumes "chain_ok ht b hes" "distinct (map entry_key hes')"
    and "\<And>he'. he' \<in> set hes' \<Longrightarrow> \<exists>he \<in> set hes. he_klen he' = he_klen he \<and> he_key he' = he_key he
           \<and> he_hash he' = he_hash he"
  shows "chain_ok ht b hes'"
  unfolding chain_ok_def
proof (intro conjI ballI)
  fix he'
  assume "he' \<in> set hes'"
  then obtain he where he: "he \<in> set hes" "he_klen he' = he_klen he" "he_key he' = he_key he"
      "he_hash he' = he_hash he" using assms(3) by blast
  then have "entry_key he' = entry_key he" by (simp add: entry_key_def)
  then show "he_klen he' \<le> length (he_key he')" "he_hash he' = times33 (entry_key he')"
      "home ht (entry_key he') = b"
    using he assms(1) by (auto simp: chain_ok_def)
qed (rule assms(2))

lemma chain_ok_replace:
  assumes "chain_ok ht b hes" "i < length hes"
  shows "chain_ok ht b (hes[i := (hes ! i)\<lparr>he_val := v\<rparr>])"
proof (rule chain_ok_sub [OF assms(1)])
  show "distinct (map entry_key (hes[i := (hes ! i)\<lparr>he_val := v\<rparr>]))"
    using assms by (simp add: map_entry_key_update chain_ok_def)
  fix he'
  assume "he' \<in> set (hes[i := (hes ! i)\<lparr>he_val := v\<rparr>])"
  then have "he' = (hes ! i)\<lparr>he_val := v\<rparr> \<or> he' \<in> set hes" using set_update_subset_insert by fast
  then show "\<exists>he \<in> set hes. he_klen he' = he_klen he \<and> he_key he' = he_key he
      \<and> he_hash he' = he_hash he"
    using assms(2) by auto
qed

lemma chain_ok_delete:
  assumes "chain_ok ht b hes"
  shows "chain_ok ht b (take i hes @ drop (Suc i) hes)"
proof (rule chain_ok_sub [OF assms])
  have "distinct (map entry_key hes)" using assms by (simp add: chain_ok_def)
  then have "distinct (take i (map entry_key hes) @ drop (Suc i) (map entry_key hes))"
    using set_take_disj_set_drop_if_distinct [of "map entry_key hes" i "Suc i"]
    by (simp only: distinct_append distinct_take distinct_drop)
  then show "distinct (map entry_key (take i hes @ drop (Suc i) hes))"
    by (simp add: take_map drop_map)
qed (auto dest: in_set_takeD in_set_dropD)

lemma home_update [simp]: "home (ht\<lparr>ch_array := a, ch_count := n\<rparr>) k = home ht k"
  by (simp add: home_def)

lemma home_bound: "cache_hash_inv ht \<Longrightarrow> home ht k < length (ch_array ht)"
  by (simp add: cache_hash_inv_def home_def less_Suc_eq)

lemma bucket_update:
  fixes ht :: "'v cache_hash"
  assumes inv: "cache_hash_inv ht" and ok: "chain_ok ht (home ht k) chain'"
    and map: "chain_map chain' = (chain_map (ch_array ht ! home ht k))(k := v)"
    and n: "n = ch_count ht + int (length chain') - int (length (ch_array ht ! home ht k))"
  defines "ht' \<equiv> ht\<lparr>ch_array := (ch_array ht)[home ht k := chain'], ch_count := n\<rparr>"
  shows "cache_hash_inv ht' \<and> hash_map ht' = (hash_map ht)(k := v)"
proof
  have b: "home ht k < length (ch_array ht)" by (rule home_bound [OF inv])
  have chains: "chain_ok ht c (ch_array ht ! c)" if "c < length (ch_array ht)" for c
    using inv that by (simp add: cache_hash_inv_def)
  have same: "chain_ok ht' c hes = chain_ok ht c hes" for c and hes :: "'v cache_hash_entry list"
    by (simp add: chain_ok_def ht'_def)
  have count: "int (length (concat ((ch_array ht)[home ht k := chain']))) = n"
    using length_concat_update [OF b, of chain'] inv n by (simp add: cache_hash_inv_def)
  show "cache_hash_inv ht'"
    using inv chains ok b count unfolding cache_hash_inv_def same
    by (auto simp: ht'_def nth_list_update)
  show "hash_map ht' = (hash_map ht)(k := v)"
    using b map by (auto simp: hash_map_def ht'_def fun_eq_iff nth_list_update)
qed

section \<open>Lookup and update\<close>

definition key_ok :: "char list \<Rightarrow> int \<Rightarrow> bool" where
  "key_ok key klen \<longleftrightarrow> klen = -1 \<or> (0 \<le> klen \<and> nat klen \<le> length key)"

lemma key_bytes_take:
  assumes "key_ok key klen"
  defines "n \<equiv> (if klen = -1 then length (key_bytes key klen) else nat klen)"
  shows "key_bytes key klen = take n key" "n \<le> length key"
proof -
  show "key_bytes key klen = take n key"
    by (auto simp: n_def key_bytes_def takeWhile_as_take [symmetric])
  show "n \<le> length key"
    using assms(1) by (auto simp: n_def key_bytes_def key_ok_def length_takeWhile_le)
qed

text \<open>What find_entry returns, in terms of the bucket's map.\<close>

lemma find_entry_spec:
  fixes ht :: "'v cache_hash"
  assumes inv: "cache_hash_inv ht" and key: "key_ok key klen"
  defines "k \<equiv> key_bytes key klen"
  defines "b \<equiv> home ht k" and "chain \<equiv> ch_array ht ! home ht k"
  obtains i where "i \<le> length chain"
    and "hash_map ht k = (if i < length chain then Some (he_val (chain ! i)) else None)"
    and "i < length chain \<Longrightarrow> entry_key (chain ! i) = k"
    and "chain_ok ht b chain" "b < length (ch_array ht)"
    and "\<And>val m. i < length chain \<or> val = None \<Longrightarrow> find_entry ht key klen val m = (ht, Some (b, i))"
    and "\<And>v. i \<ge> length chain \<Longrightarrow> find_entry ht key klen (Some v) False = (ht, None)"
    and "\<And>v. i \<ge> length chain \<Longrightarrow> \<exists>he. entry_key he = k \<and> he_val he = v
          \<and> he_klen he \<le> length (he_key he) \<and> he_hash he = times33 k
          \<and> find_entry ht key klen (Some v) True =
             (ht\<lparr>ch_array := (ch_array ht)[b := chain @ [he]], ch_count := ch_count ht + 1\<rparr>, Some (b, i))"
proof
  let ?n = "if klen = -1 then length (key_bytes key klen) else nat klen"
  note kb = key_bytes_take [OF key]
  let ?i = "scan_chain (times33 (take ?n key)) ?n key chain"
  have b: "b < length (ch_array ht)" using home_bound [OF inv] by (simp add: b_def)
  then show "b < length (ch_array ht)" .
  have ok: "chain_ok ht b chain" using inv b by (simp add: cache_hash_inv_def chain_def b_def)
  then show "chain_ok ht b chain" .
  then have "\<forall>he \<in> set chain. he_klen he \<le> length (he_key he) \<and> he_hash he = times33 (entry_key he)"
    by (auto simp: chain_ok_def)
  note scan = scan_chain_map [OF this kb(2)]
  show "?i \<le> length chain" by (rule scan_chain_le)
  show "hash_map ht k = (if ?i < length chain then Some (he_val (chain ! ?i)) else None)"
    using scan(1) kb(1) by (simp add: hash_map_def k_def chain_def)
  show "?i < length chain \<Longrightarrow> entry_key (chain ! ?i) = k"
    using scan(2) kb(1) by (simp add: k_def)
  have find: "find_entry ht key klen val m =
      (if ?i < length chain then (ht, Some (b, ?i))
       else (case val of None \<Rightarrow> (ht, Some (b, ?i))
         | Some v \<Rightarrow> if \<not> m then (ht, None)
           else (ht\<lparr>ch_array := (ch_array ht)[b := chain @
                   [\<lparr>he_hash = times33 k, he_key = key, he_klen = ?n, he_val = v\<rparr>]],
                  ch_count := ch_count ht + 1\<rparr>, Some (b, ?i))))" for val m
    unfolding find_entry_def Let_def b_def chain_def k_def home_def kb(1) [symmetric] by simp
  show "?i < length chain \<or> val = None \<Longrightarrow> find_entry ht key klen val m = (ht, Some (b, ?i))" for val m
    unfolding find by auto
  show "?i \<ge> length chain \<Longrightarrow> find_entry ht key klen (Some v) False = (ht, None)" for v
    unfolding find by auto
  show "\<exists>he. entry_key he = k \<and> he_val he = v
          \<and> he_klen he \<le> length (he_key he) \<and> he_hash he = times33 k
          \<and> find_entry ht key klen (Some v) True =
             (ht\<lparr>ch_array := (ch_array ht)[b := chain @ [he]], ch_count := ch_count ht + 1\<rparr>, Some (b, ?i))"
    if "?i \<ge> length chain" for v
    unfolding find using that kb
    by (intro exI [of _ "\<lparr>he_hash = times33 k, he_key = key, he_klen = ?n, he_val = v\<rparr>"])
      (simp add: entry_key_def k_def)
qed

lemma cache_hash_get_map:
  assumes "cache_hash_inv ht" "key_ok key klen"
  shows "cache_hash_get ht key klen = hash_map ht (key_bytes key klen)"
  by (rule find_entry_spec [OF assms]) (simp add: cache_hash_get_def)

lemma cache_hash_set_map:
  assumes inv: "cache_hash_inv ht" and key: "key_ok key klen"
    and m: "malloc_ok \<or> val = None \<or> hash_map ht (key_bytes key klen) \<noteq> None"
  shows "\<exists>ht'. cache_hash_set ht key klen val malloc_ok
      = (case hash_map ht (key_bytes key klen) of None \<Rightarrow> val | Some v \<Rightarrow> Some v, ht')
    \<and> cache_hash_inv ht' \<and> hash_map ht' = (hash_map ht)(key_bytes key klen := val)"
proof (rule find_entry_spec [OF inv key], goal_cases)
  case (1 i)
  let ?k = "key_bytes key klen"
  let ?chain = "ch_array ht ! home ht ?k"
  have dist: "distinct (map entry_key ?chain)" using 1(4) by (simp add: chain_ok_def)
  show ?case
  proof (cases "i < length ?chain")
    case found: True
    note key = 1(3) [OF found] and find = 1(6) [OF disjI1 [OF found]]
    show ?thesis
    proof (cases val)
      case None
      note bu = bucket_update [OF inv chain_ok_delete [OF 1(4)],
          of i None "ch_count ht - 1"]
      have "cache_hash_inv (ht\<lparr>ch_array := (ch_array ht)[home ht ?k := take i ?chain @ drop (Suc i) ?chain],
            ch_count := ch_count ht - 1\<rparr>)
          \<and> hash_map (ht\<lparr>ch_array := (ch_array ht)[home ht ?k := take i ?chain @ drop (Suc i) ?chain],
            ch_count := ch_count ht - 1\<rparr>) = (hash_map ht)(?k := None)"
        by (rule bu) (use chain_map_delete [OF found dist] key found in auto)
      then show ?thesis using 1(2) find found None by (simp add: cache_hash_set_def Let_def)
    next
      case (Some v)
      let ?c = "?chain[i := (?chain ! i)\<lparr>he_val := v\<rparr>]"
      have "cache_hash_inv (ht\<lparr>ch_array := (ch_array ht)[home ht ?k := ?c], ch_count := ch_count ht\<rparr>)
          \<and> hash_map (ht\<lparr>ch_array := (ch_array ht)[home ht ?k := ?c], ch_count := ch_count ht\<rparr>)
            = (hash_map ht)(?k := Some v)"
        by (rule bucket_update [OF inv chain_ok_replace [OF 1(4) found]])
          (use chain_map_replace [OF found dist] key in auto)
      moreover have "ht\<lparr>ch_array := a, ch_count := ch_count ht\<rparr> = ht\<lparr>ch_array := a\<rparr>" for a by simp
      ultimately show ?thesis using 1(2) find found Some by (simp add: cache_hash_set_def Let_def)
    qed
  next
    case False
    then have new: "hash_map ht ?k = None" "i = length ?chain" using 1(1,2) by auto
    show ?thesis
    proof (cases val)
      case None
      then have "(hash_map ht)(?k := val) = hash_map ht" using new by auto
      then show ?thesis using 1(6) [of val] new inv None by (simp add: cache_hash_set_def Let_def)
    next
      case (Some v)
      then have mt: "malloc_ok" using m new by simp
      obtain he where he: "entry_key he = ?k" "he_val he = v" "he_klen he \<le> length (he_key he)"
          "he_hash he = times33 ?k"
        and find: "find_entry ht key klen (Some v) True =
          (ht\<lparr>ch_array := (ch_array ht)[home ht ?k := ?chain @ [he]],
              ch_count := ch_count ht + 1\<rparr>, Some (home ht ?k, i))"
        using 1(8) [of v] new(2) by auto
      have fresh: "?k \<notin> entry_key ` set ?chain"
        using new(1) by (simp add: hash_map_def chain_map_None)
      have "chain_ok ht (home ht ?k) (?chain @ [he])"
        using 1(4) fresh he by (auto simp: chain_ok_def)
      then have upd: "cache_hash_inv (ht\<lparr>ch_array := (ch_array ht)[home ht ?k := ?chain @ [he]],
            ch_count := ch_count ht + 1\<rparr>)
          \<and> hash_map (ht\<lparr>ch_array := (ch_array ht)[home ht ?k := ?chain @ [he]],
            ch_count := ch_count ht + 1\<rparr>) = (hash_map ht)(?k := Some v)"
        by (rule bucket_update [OF inv])
          (use new he in \<open>auto simp: fun_eq_iff chain_map_append hash_map_def split: option.splits\<close>)
      obtain h kk kl
        where "he = \<lparr>he_hash = h, he_key = kk, he_klen = kl, he_val = v\<rparr>"
        using he(2) by (cases he) auto
      then have "cache_hash_set ht key klen val malloc_ok
          = (Some v, ht\<lparr>ch_array := (ch_array ht)[home ht ?k := ?chain @ [he]],
                       ch_count := ch_count ht + 1\<rparr>)"
        using find mt new Some 1(5) by (simp add: cache_hash_set_def Let_def)
      with upd show ?thesis using new Some by simp
    qed
  qed
qed

section \<open>The table as a keyed store\<close>

definition ch_put :: "char list \<Rightarrow> 'v option \<Rightarrow> 'v cache_hash \<Rightarrow> 'v cache_hash" where
  "ch_put k v ht = snd (cache_hash_set ht k (int (length k)) v True)"

lemma key_bytes_full [simp]: "key_bytes k (int (length k)) = k"
  by (simp add: key_bytes_def)

lemma key_ok_full [simp]: "key_ok k (int (length k))" "key_ok k (-1)"
  by (auto simp: key_ok_def)

interpretation ch: keyed_store cache_hash_inv hash_map ch_put
proof unfold_locales
  fix ht :: "'v cache_hash" and k v
  assume inv: "cache_hash_inv ht"
  obtain ht' where "snd (cache_hash_set ht k (int (length k)) v True) = ht'" "cache_hash_inv ht'"
      "hash_map ht' = (hash_map ht)(k := v)"
    using cache_hash_set_map [OF inv key_ok_full(1), of True v k] by auto
  then show "cache_hash_inv (ch_put k v ht)" "hash_map (ch_put k v ht) = (hash_map ht)(k := v)"
    by (auto simp: ch_put_def)
qed

text \<open>A C string key means the same with its length spelled out.\<close>

lemma key_bytes_string: "cstring k \<Longrightarrow> key_bytes k (-1) = k"
  by (auto simp: key_bytes_def cstring_def intro!: takeWhile_eq_all_conv [THEN iffD2])

lemma find_entry_string: "cstring k \<Longrightarrow> find_entry ht k (-1) = find_entry ht k (int (length k))"
  by (simp add: find_entry_def key_bytes_string fun_eq_iff)

lemma cache_hash_set_string:
  "cstring k \<Longrightarrow> cache_hash_set ht k (-1) v m = cache_hash_set ht k (int (length k)) v m"
  by (simp add: cache_hash_set_def find_entry_string)

lemma chain_ok_Nil [simp]: "chain_ok ht b []"
  by (simp add: chain_ok_def)

lemma cache_hash_make_inv:
  "0 < n \<Longrightarrow> \<exists>ht. cache_hash_make n True True = Some ht \<and> cache_hash_inv ht \<and> ch_max ht = n
     \<and> hash_map ht = Map.empty"
  by (auto simp: cache_hash_make_def cache_hash_inv_def hash_map_def home_def fun_eq_iff less_Suc_eq
      nth_append nth_Cons' simp del: replicate_Suc)

section \<open>Iteration\<close>

lemma hash_walk_advance:
  assumes "length (ch_array ht) = ch_max ht + 1"
  shows "hash_walk ht n (hi_advance ht hes i) = take n (hes @ concat (drop i (ch_array ht)))"
proof (induction n arbitrary: hes i)
  case (Suc n)
  show ?case
    using assms Suc.IH
  proof (induction ht hes i rule: hi_advance.induct)
    case (1 ht he rest i)
    then show ?case by (simp add: cache_hash_next_def)
  next
    case (2 ht i)
    show ?case
    proof (cases "i > ch_max ht")
      case True
      then show ?thesis using "2.prems"(1) by simp
    next
      case False
      then have "drop i (ch_array ht) = ch_array ht ! i # drop (i + 1) (ch_array ht)"
        using "2.prems"(1) by (simp add: Cons_nth_drop_Suc)
      then show ?thesis using "2.IH" [OF False "2.prems"] False by simp
    qed
  qed
qed simp

section \<open>Properties\<close>

text \<open>
  C39. The hash table is a dictionary: whatever sequence of sets and unsets of
  string keys is applied to a fresh table of any positive size, a lookup
  returns what a map that went through the same updates holds, however the
  keys collide, and the entry count is the number of keys that are set.
\<close>

theorem cache_hash_dictionary:
  fixes ht :: "'v cache_hash"
  assumes "0 < n" and "cache_hash_make n True True = Some ht"
    and "\<forall>(k, v) \<in> set ops. cstring k" and "cstring key"
  shows "cache_hash_get (fold (\<lambda>(k, v) t. snd (cache_hash_set t k (-1) v True)) ops ht) key (-1)
    = fold (\<lambda>(k, v) m. m(k := v)) ops Map.empty key"
proof -
  obtain ht0 :: "'v cache_hash" where "cache_hash_make n True True = Some ht0"
      "cache_hash_inv ht0" "hash_map ht0 = Map.empty"
    using cache_hash_make_inv [OF assms(1)] by blast
  then have ht: "cache_hash_inv ht" "hash_map ht = Map.empty" using assms(2) by auto
  have "fold (\<lambda>(k, v) t. snd (cache_hash_set t k (-1) v True)) ops t
      = fold (\<lambda>(k, v). ch_put k v) ops t" for t
    using assms(3) by (induction ops arbitrary: t) (auto simp: ch_put_def cache_hash_set_string)
  moreover have "cache_hash_get (fold (\<lambda>(k, v). ch_put k v) ops ht) key (-1)
      = hash_map (fold (\<lambda>(k, v). ch_put k v) ops ht) key"
    using cache_hash_get_map [OF ch.inv_puts [OF ht(1)] key_ok_full(2)]
      key_bytes_string [OF assms(4)] by metis
  ultimately show ?thesis using ch.look_puts [OF ht(1)] ht(2) by simp
qed

theorem cache_hash_dictionary_witness:
  "\<exists>ht. cache_hash_make 1 True True = Some ht \<and>
     cache_hash_get (fold (\<lambda>(k, v) t. snd (cache_hash_set t k (-1) v True))
       [(''a'', Some 1), (''b'', Some 2), (''a'', Some (3 :: int)), (''b'', None)] ht) ''a'' (-1) = Some 3"
proof -
  obtain ht :: "int cache_hash" where ht: "cache_hash_make 1 True True = Some ht"
    by (simp add: cache_hash_make_def)
  then show ?thesis
    using cache_hash_dictionary [OF _ ht,
        of "[(''a'', Some 1), (''b'', Some 2), (''a'', Some 3), (''b'', None)]" "''a''"]
    by auto
qed

text \<open>
  Walking the table with cache_hash_first and cache_hash_next meets every
  entry exactly once and then stops, after as many steps as the table counts
  entries; no two of the entries met have the same key.
\<close>

theorem cache_hash_walk_complete:
  assumes "cache_hash_inv ht" and "nat (cache_hash_count ht) \<le> n"
  shows "hash_walk ht n (cache_hash_first ht) = concat (ch_array ht)
    \<and> length (concat (ch_array ht)) = nat (cache_hash_count ht)
    \<and> (\<forall>he \<in> set (concat (ch_array ht)). hash_map ht (entry_key he) = Some (he_val he))"
proof (intro conjI ballI)
  note inv = assms(1) [unfolded cache_hash_inv_def]
  show "hash_walk ht n (cache_hash_first ht) = concat (ch_array ht)"
    using inv assms(2) hash_walk_advance [of ht n "[]" 0]
    by (simp add: cache_hash_first_def cache_hash_next_def cache_hash_count_def)
  show "length (concat (ch_array ht)) = nat (cache_hash_count ht)"
    using inv by (simp add: cache_hash_count_def)
  fix he
  assume "he \<in> set (concat (ch_array ht))"
  then obtain b where b: "b < length (ch_array ht)" "he \<in> set (ch_array ht ! b)"
    by (auto simp: in_set_conv_nth [of _ "ch_array ht"])
  then have "chain_ok ht b (ch_array ht ! b)" using inv by simp
  then have "home ht (entry_key he) = b" "distinct (map entry_key (ch_array ht ! b))"
    using b(2) by (auto simp: chain_ok_def)
  then show "hash_map ht (entry_key he) = Some (he_val he)"
    using b(2) by (auto simp: hash_map_def chain_map_def o_def intro!: map_of_is_SomeI)
qed

theorem cache_hash_walk_complete_witness:
  "\<exists>ht :: int cache_hash. cache_hash_inv ht \<and> cache_hash_count ht = 2
     \<and> hash_walk ht 2 (cache_hash_first ht) = concat (ch_array ht)"
proof -
  define t :: "int cache_hash" where "t = \<lparr>ch_array = [[], []], ch_count = 0, ch_max = 1 :: nat\<rparr>"
  define ht where "ht = ch_put ''b'' (Some 2) (ch_put ''a'' (Some (1 :: int)) t)"
  have "cache_hash_inv t"
    by (auto simp: t_def cache_hash_inv_def less_Suc_eq)
  then have inv: "cache_hash_inv ht" by (simp add: ht_def ch.inv_put)
  have count: "cache_hash_count ht = 2"
    by (simp add: ht_def t_def ch_put_def cache_hash_set_def find_entry_def key_bytes_def
        he_match_def cache_hash_count_def Let_def)
  show ?thesis using cache_hash_walk_complete [OF inv, of 2] inv count by auto
qed

end
