(* ===== verification/Object_Cache.thy ===== *)
theory Object_Cache
  imports Cache_Pqueue Cache_Hash
begin

text \<open>
  modules/cache/cache_cache.c over the priority queue and the hash table, with
  the callbacks that modules/cache/mod_mem_cache.c plugs into it: the bounded
  object cache of the server. 'a are the object pointers and c_obj is the
  memory behind them, so a callback that changes an object updates c_obj. The
  objects handed to free_entry are recorded in c_freed. cache_insert can end
  in a fault of the process, a null pointer that is dereferenced or a division
  by zero, which is a result of its own with the cache as it is at the fault;
  a run of it that does not end would be None. In cache_update and in the
  callbacks, which have no loops, None is the division by zero. Sizes are
  natural numbers: the sum of sizes in the loop condition (over_limit) does not
  wrap as apr_size_t does, and the invariant shows that the subtractions never
  go below zero.
\<close>

section \<open>Objects and the callbacks of mod_mem_cache\<close>

record mem_cache_object =
  mo_key :: cstr
  mo_len :: nat
  mo_priority :: int
  mo_refs :: int

definition memcache_get_priority :: "mem_cache_object \<Rightarrow> int" where
  "memcache_get_priority mobj = mo_priority mobj"

definition memcache_inc_frequency :: "mem_cache_object \<Rightarrow> mem_cache_object" where
  "memcache_inc_frequency mobj = mobj\<lparr>mo_refs := mo_refs mobj + 1, mo_priority := 0\<rparr>"

definition memcache_cache_get_size :: "mem_cache_object \<Rightarrow> nat" where
  "memcache_cache_get_size mobj = mo_len mobj"

definition memcache_cache_get_key :: "mem_cache_object \<Rightarrow> cstr" where
  "memcache_cache_get_key mobj = mo_key mobj"

type_synonym set_priority = "int \<Rightarrow> mem_cache_object \<Rightarrow> mem_cache_object option"

definition memcache_lru_algorithm :: set_priority where
  "memcache_lru_algorithm queue_clock mobj =
     Some (if mo_priority mobj = 0 then mobj\<lparr>mo_priority := queue_clock - mo_refs mobj\<rparr> else mobj)"

definition memcache_gdsf_algorithm :: set_priority where
  "memcache_gdsf_algorithm queue_clock mobj =
     (if mo_priority mobj = 0
      then if mo_len mobj = 0 then None
           else Some (mobj\<lparr>mo_priority := queue_clock - (mo_refs mobj * 1000) div int (mo_len mobj)\<rparr>)
      else Some mobj)"

text \<open>The directive MCacheRemovalAlgorithm; strcasecmp is true where the strings differ.\<close>

definition strcasecmp_differs :: "cstr \<Rightarrow> cstr \<Rightarrow> bool" where
  "strcasecmp_differs s t \<longleftrightarrow> map apr_tolower s \<noteq> map apr_tolower t"

definition set_cache_removal_algorithm :: "cstr \<Rightarrow> cstr + set_priority" where
  "set_cache_removal_algorithm arg =
     (if strcasecmp_differs ''LRU'' arg then Inr memcache_lru_algorithm
      else if strcasecmp_differs ''GDSF'' arg then Inr memcache_gdsf_algorithm
      else Inl ''currently implemented algorithms are LRU and GDSF'')"

section \<open>The cache\<close>

record 'a cache_cache =
  c_max_entries :: int
  c_max_size :: nat
  c_current_size :: nat
  c_total_purges :: int
  c_queue_clock :: int
  c_ht :: "'a cache_hash"
  c_pq :: "'a cache_pqueue"
  c_obj :: "'a \<Rightarrow> mem_cache_object"
  c_freed :: "'a list"

abbreviation get_pri :: "'a cache_cache \<Rightarrow> 'a \<Rightarrow> int" where
  "get_pri c \<equiv> (\<lambda>x. memcache_get_priority (c_obj c x))"

abbreviation size_entry :: "'a cache_cache \<Rightarrow> 'a \<Rightarrow> nat" where
  "size_entry c x \<equiv> memcache_cache_get_size (c_obj c x)"

abbreviation key_entry :: "'a cache_cache \<Rightarrow> 'a \<Rightarrow> cstr" where
  "key_entry c x \<equiv> memcache_cache_get_key (c_obj c x)"

text \<open>
  The code does not test whether its allocations succeeded; where one did not,
  the first use of the cache faults, and the model has no cache.
\<close>

definition cache_init ::
    "nat \<Rightarrow> nat \<Rightarrow> ('a \<Rightarrow> mem_cache_object) \<Rightarrow> 'a \<Rightarrow> ('a \<Rightarrow> nat) \<Rightarrow> bool \<Rightarrow> 'a cache_cache option" where
  "cache_init max_entries max_size objs junk posn alloc_ok =
     (case (cache_hash_make max_entries alloc_ok alloc_ok,
            cache_pq_init max_entries junk posn alloc_ok alloc_ok) of
        (Some ht, Some pq) \<Rightarrow>
          Some \<lparr>c_max_entries = int max_entries, c_max_size = max_size, c_current_size = 0,
                c_total_purges = 0, c_queue_clock = 0, c_ht = ht, c_pq = pq,
                c_obj = objs, c_freed = []\<rparr>
      | _ \<Rightarrow> None)"

definition cache_find :: "'a cache_cache \<Rightarrow> cstr \<Rightarrow> 'a option" where
  "cache_find c key = cache_hash_get (c_ht c) key (-1)"

definition cache_update :: "set_priority \<Rightarrow> 'a cache_cache \<Rightarrow> 'a \<Rightarrow> 'a cache_cache option" where
  "cache_update set_pri c entry =
     Option.bind (set_pri (c_queue_clock c) (c_obj c entry)) (\<lambda>mobj1.
     Option.bind (set_pri (c_queue_clock c) (memcache_inc_frequency mobj1)) (\<lambda>mobj2.
       let c1 = c\<lparr>c_obj := (c_obj c)(entry := mobj2)\<rparr> in
       Some (c1\<lparr>c_pq := cache_pq_change_priority (get_pri c1) (c_pq c1)
                          (mo_priority mobj1) (mo_priority mobj2) entry\<rparr>)))"

text \<open>How a run of cache_insert ends; a fault keeps the cache it happens in.\<close>

datatype fault = Null_Pointer | Division_By_Zero

datatype 'a cache_run = Done "'a cache_cache" | Fault fault "'a cache_cache"

text \<open>
  One round of the eviction loop, None when popping the queue gives NULL, and
  the loop, which dereferences that NULL.
\<close>

definition evict_one :: "'a cache_cache \<Rightarrow> 'a cache_cache option" where
  "evict_one c =
     (case cache_pq_pop (get_pri c) (Some (c_pq c)) of
        (Some ejected, Some pq') \<Rightarrow>
          let priority = get_pri c ejected in
          Some (c\<lparr>c_pq := pq',
                  c_queue_clock := (if c_queue_clock c > priority then priority else c_queue_clock c),
                  c_ht := snd (cache_hash_set (c_ht c) (key_entry c ejected) (-1) None True),
                  c_current_size := c_current_size c - size_entry c ejected,
                  c_freed := c_freed c @ [ejected],
                  c_total_purges := c_total_purges c + 1\<rparr>)
      | _ \<Rightarrow> None)"

definition over_limit :: "'a cache_cache \<Rightarrow> 'a \<Rightarrow> bool" where
  "over_limit c entry \<longleftrightarrow> int (cache_pq_size (c_pq c)) \<ge> c_max_entries c
     \<or> c_current_size c + size_entry c entry > c_max_size c"

partial_function (option) evict_loop :: "'a cache_cache \<Rightarrow> 'a \<Rightarrow> 'a cache_run option" where
  "evict_loop c entry =
     (if over_limit c entry
      then (case evict_one c of None \<Rightarrow> Some (Fault Null_Pointer c) | Some c' \<Rightarrow> evict_loop c' entry)
      else Some (Done c))"

definition cache_insert ::
    "set_priority \<Rightarrow> 'a \<Rightarrow> bool \<Rightarrow> bool \<Rightarrow> 'a cache_cache \<Rightarrow> 'a \<Rightarrow> 'a cache_run option" where
  "cache_insert set_pri junk realloc_ok malloc_ok c entry =
     (case set_pri (c_queue_clock c) (c_obj c entry) of
        None \<Rightarrow> Some (Fault Division_By_Zero c)
      | Some mobj \<Rightarrow>
          (case evict_loop (c\<lparr>c_obj := (c_obj c)(entry := mobj)\<rparr>) entry of
             Some (Done c) \<Rightarrow>
               Some (Done (c\<lparr>c_current_size := c_current_size c + size_entry c entry,
                 c_pq := (case cache_pq_insert (get_pri c) junk realloc_ok (Some (c_pq c)) entry of
                            (_, Some pq') \<Rightarrow> pq' | (_, None) \<Rightarrow> c_pq c),
                 c_ht := snd (cache_hash_set (c_ht c) (key_entry c entry) (-1) (Some entry) malloc_ok)\<rparr>))
           | fault_or_none \<Rightarrow> fault_or_none))"

fun cache_pop :: "'a cache_cache option \<Rightarrow> 'a option \<times> 'a cache_cache option" where
  "cache_pop None = (None, None)"
| "cache_pop (Some c) =
     (case cache_pq_pop (get_pri c) (Some (c_pq c)) of
        (Some entry, Some pq') \<Rightarrow>
          (Some entry,
           Some (c\<lparr>c_pq := pq',
                   c_current_size := c_current_size c - size_entry c entry,
                   c_ht := snd (cache_hash_set (c_ht c) (key_entry c entry) (-1) None True)\<rparr>))
      | _ \<Rightarrow> (None, Some c))"

definition cache_remove :: "'a cache_cache \<Rightarrow> 'a \<Rightarrow> apr_status \<times> 'a cache_cache" where
  "cache_remove c entry =
     (let entry_size = size_entry c entry;
          (rc, pq') = cache_pq_remove (get_pri c) (c_pq c) entry;
          c1 = c\<lparr>c_pq := pq'\<rparr>
      in if rc \<noteq> APR_SUCCESS then (rc, c1)
         else (APR_SUCCESS,
               c1\<lparr>c_ht := snd (cache_hash_set (c_ht c1) (key_entry c1 entry) (-1) None True),
                  c_current_size := c_current_size c1 - entry_size\<rparr>))"

section \<open>Consistency of queue, table and size\<close>

abbreviation cached :: "'a cache_cache \<Rightarrow> 'a set" where
  "cached c \<equiv> pq_elems (c_pq c)"

definition cache_consistent :: "'a cache_cache \<Rightarrow> bool" where
  "cache_consistent c \<longleftrightarrow>
     cache_pq_inv (get_pri c) (c_pq c) \<and> cache_hash_inv (c_ht c)
     \<and> (\<forall>k x. hash_map (c_ht c) k = Some x \<longleftrightarrow> x \<in> cached c \<and> key_entry c x = k)
     \<and> (\<forall>x \<in> cached c. cstring (key_entry c x))
     \<and> c_current_size c = (\<Sum>x \<in> cached c. size_entry c x)
     \<and> c_max_entries c < int (pq_avail (c_pq c))"

definition cache_inv :: "'a cache_cache \<Rightarrow> bool" where
  "cache_inv c \<longleftrightarrow> cache_consistent c
     \<and> int (card (cached c)) \<le> c_max_entries c \<and> c_current_size c \<le> c_max_size c"

lemma pq_avail_percolate_loop:
  "pq_avail (fst (cache_pq_percolate_loop pri mp q i)) = pq_avail q"
proof (induction pri mp q i rule: cache_pq_percolate_loop.induct)
  case (1 pri mp q i)
  then show ?case by (subst cache_pq_percolate_loop.simps) (auto simp: Let_def)
qed

lemma pq_avail_bubble_loop:
  "pq_avail (fst (cache_pq_bubble_loop pri mp q i)) = pq_avail q"
proof (induction pri mp q i rule: cache_pq_bubble_loop.induct)
  case (1 pri mp q i)
  then show ?case by (subst cache_pq_bubble_loop.simps) auto
qed

lemma pq_avail_frame [frame_simps]:
  "pq_avail (cache_pq_percolate_down pri q i) = pq_avail q"
  "pq_avail (cache_pq_bubble_up pri q i) = pq_avail q"
  "pq_avail (cache_pq_change_priority pri q o1 o2 x) = pq_avail q"
  "cache_pq_remove pri q x = (rc, q') \<Longrightarrow> pq_avail q' = pq_avail q"
  "cache_pq_pop pri (Some q) = (y, Some q') \<Longrightarrow> pq_avail q' = pq_avail q"
proof -
  have pd: "pq_avail (cache_pq_percolate_down pri q i) = pq_avail q" for q :: "'a cache_pqueue" and i
    using pq_avail_percolate_loop [of pri "pri (pq_d q ! i)" q i]
    by (auto simp: cache_pq_percolate_down_def Let_def split: prod.splits)
  have bu: "pq_avail (cache_pq_bubble_up pri q i) = pq_avail q" for q :: "'a cache_pqueue" and i
    using pq_avail_bubble_loop [of pri "pri (pq_d q ! i)" q i]
    by (auto simp: cache_pq_bubble_up_def Let_def split: prod.splits)
  show "pq_avail (cache_pq_percolate_down pri q i) = pq_avail q"
    "pq_avail (cache_pq_bubble_up pri q i) = pq_avail q" by (fact pd bu)+
  show "pq_avail (cache_pq_change_priority pri q o1 o2 x) = pq_avail q"
    by (simp add: cache_pq_change_priority_def Let_def pd bu)
  show "cache_pq_remove pri q x = (rc, q') \<Longrightarrow> pq_avail q' = pq_avail q"
    by (auto simp: cache_pq_remove_def Let_def pd bu)
  show "cache_pq_pop pri (Some q) = (y, Some q') \<Longrightarrow> pq_avail q' = pq_avail q"
    by (auto simp: cache_pq_pop.simps(2) pd split: if_splits)
qed

lemma cache_pq_inv_cong:
  assumes "\<And>x. x \<in> pq_elems q \<Longrightarrow> pri x = pri' x"
  shows "cache_pq_inv pri q \<longleftrightarrow> cache_pq_inv pri' q"
proof -
  have "pri (pq_d q ! j) = pri' (pq_d q ! j)" if "1 \<le> j" "j < pq_size q" for j
    using assms that by (auto simp: pq_elems_def)
  then have "heap_W (pq_size q) (\<lambda>i. pri (pq_d q ! i)) = heap_W (pq_size q) (\<lambda>i. pri' (pq_d q ! i))"
    by (auto simp: heap_W_def)
  then show ?thesis by (simp add: cache_pq_inv_def pq_heap_def)
qed

text \<open>Taking one object out of queue, table and size keeps them consistent.\<close>

lemma consistent_remove:
  assumes c: "cache_consistent c" and x: "x \<in> cached c"
    and pq: "cache_pq_inv (get_pri c) pq'" "pq_elems pq' = cached c - {x}" "pq_avail pq' = pq_avail (c_pq c)"
    and c': "c_pq c' = pq'" "c_obj c' = c_obj c" "c_max_entries c' = c_max_entries c"
      "c_ht c' = snd (cache_hash_set (c_ht c) (key_entry c x) (-1) None True)"
      "c_current_size c' = c_current_size c - size_entry c x"
  shows "cache_consistent c'"
proof -
  note cc = c [unfolded cache_consistent_def]
  have key: "cstring (key_entry c x)" using cc x by blast
  obtain ht' where ht': "snd (cache_hash_set (c_ht c) (key_entry c x) (-1) None True) = ht'"
      "cache_hash_inv ht'" "hash_map ht' = (hash_map (c_ht c))(key_entry c x := None)"
    using cache_hash_set_map [of "c_ht c" "key_entry c x" "-1" True None] cc key_bytes_string [OF key]
    by auto
  have uniq: "y = x" if "y \<in> cached c" "key_entry c y = key_entry c x" for y
  proof -
    have "hash_map (c_ht c) (key_entry c x) = Some y" "hash_map (c_ht c) (key_entry c x) = Some x"
      using cc x that by auto
    then show ?thesis by simp
  qed
  have map: "\<forall>k y. hash_map ht' k = Some y \<longleftrightarrow> y \<in> cached c - {x} \<and> key_entry c y = k"
    using cc uniq unfolding ht'(3) by (auto simp: fun_upd_def)
  have sum: "c_current_size c - size_entry c x = (\<Sum>y \<in> cached c - {x}. size_entry c y)"
    using cc x by (simp add: sum_diff1_nat)
  show ?thesis
    using cc pq ht' map sum unfolding cache_consistent_def c' by simp
qed

lemma pop_consistent:
  assumes c: "cache_consistent c" and ne: "cached c \<noteq> {}"
  obtains x pq' where "cache_pq_pop (get_pri c) (Some (c_pq c)) = (Some x, Some pq')"
    "x \<in> cached c" "\<forall>y \<in> cached c. get_pri c y \<le> get_pri c x"
    "cache_pq_inv (get_pri c) pq'" "pq_elems pq' = cached c - {x}" "pq_avail pq' = pq_avail (c_pq c)"
proof -
  have inv: "cache_pq_inv (get_pri c) (c_pq c)" using c by (simp add: cache_consistent_def)
  from cache_pq_pop_inv [OF inv ne] obtain pq' where
    pop: "cache_pq_pop (get_pri c) (Some (c_pq c)) = (Some (pq_d (c_pq c) ! 1), Some pq')"
    and rest: "pq_d (c_pq c) ! 1 \<in> cached c"
      "\<forall>y \<in> cached c. get_pri c y \<le> get_pri c (pq_d (c_pq c) ! 1)"
      "cache_pq_inv (get_pri c) pq'" "pq_elems pq' = cached c - {pq_d (c_pq c) ! 1}" by blast
  then show ?thesis using that [OF pop] frame_simps(5) [OF pop] by blast
qed

lemma evict_one_consistent:
  assumes c: "cache_consistent c" and ne: "cached c \<noteq> {}"
  obtains x c' where "evict_one c = Some c'" "x \<in> cached c"
    "\<forall>y \<in> cached c. get_pri c y \<le> get_pri c x"
    "cache_consistent c'" "cached c' = cached c - {x}" "c_obj c' = c_obj c"
    "c_max_entries c' = c_max_entries c" "c_max_size c' = c_max_size c"
    "c_freed c' = c_freed c @ [x]"
proof -
  obtain x pq' where p: "cache_pq_pop (get_pri c) (Some (c_pq c)) = (Some x, Some pq')"
    "x \<in> cached c" "\<forall>y \<in> cached c. get_pri c y \<le> get_pri c x"
    "cache_pq_inv (get_pri c) pq'" "pq_elems pq' = cached c - {x}" "pq_avail pq' = pq_avail (c_pq c)"
    using pop_consistent [OF c ne] .
  obtain c' where c': "evict_one c = Some c'" "c_pq c' = pq'" "c_obj c' = c_obj c"
      "c_max_entries c' = c_max_entries c" "c_max_size c' = c_max_size c"
      "c_ht c' = snd (cache_hash_set (c_ht c) (key_entry c x) (-1) None True)"
      "c_current_size c' = c_current_size c - size_entry c x" "c_freed c' = c_freed c @ [x]"
    using p(1) by (simp add: evict_one_def Let_def)
  show ?thesis
    using that [OF c'(1) p(2,3) consistent_remove [OF c p(2) p(4-6) c'(2-4,6,7)]] c' p(5) by simp
qed

section \<open>Eviction\<close>

lemma evict_loop_spec:
  assumes "cache_consistent c" "size_entry c e \<le> c_max_size c" "0 < c_max_entries c"
  shows "\<exists>c' xs. evict_loop c e = Some (Done c') \<and> cache_consistent c' \<and> \<not> over_limit c' e
    \<and> set xs \<subseteq> cached c \<and> cached c' = cached c - set xs \<and> c_freed c' = c_freed c @ xs
    \<and> (\<forall>x \<in> set xs. \<forall>y \<in> cached c'. get_pri c y \<le> get_pri c x)
    \<and> c_obj c' = c_obj c \<and> c_max_entries c' = c_max_entries c \<and> c_max_size c' = c_max_size c"
  using assms
proof (induction "card (cached c)" arbitrary: c rule: less_induct)
  case less
  show ?case
  proof (cases "over_limit c e")
    case False
    then show ?thesis using less.prems
      by (intro exI [of _ c] exI [of _ "[]"]) (simp add: evict_loop.simps [of c e])
  next
    case True
    have "card (cached c) = cache_pq_size (c_pq c)"
      using less.prems(1) card_pq_elems by (auto simp: cache_consistent_def cache_pq_inv_def cache_pq_size_def)
    then have ne: "cached c \<noteq> {}"
      using True less.prems by (auto simp: over_limit_def cache_consistent_def)
    obtain x c1 where c1: "evict_one c = Some c1" "x \<in> cached c"
      "\<forall>y \<in> cached c. get_pri c y \<le> get_pri c x"
      "cache_consistent c1" "cached c1 = cached c - {x}" "c_obj c1 = c_obj c"
      "c_max_entries c1 = c_max_entries c" "c_max_size c1 = c_max_size c"
      "c_freed c1 = c_freed c @ [x]"
      using evict_one_consistent [OF less.prems(1) ne] .
    have "card (cached c1) < card (cached c)" using c1(2,5) by (metis card_Diff1_less finite_pq_elems)
    then obtain c' xs where c': "evict_loop c1 e = Some (Done c')" "cache_consistent c'" "\<not> over_limit c' e"
        "set xs \<subseteq> cached c1" "cached c' = cached c1 - set xs" "c_freed c' = c_freed c1 @ xs"
        "\<forall>x \<in> set xs. \<forall>y \<in> cached c'. get_pri c1 y \<le> get_pri c1 x"
        "c_obj c' = c_obj c1" "c_max_entries c' = c_max_entries c1" "c_max_size c' = c_max_size c1"
      using less.hyps [of c1] less.prems c1 by auto
    have "evict_loop c e = Some (Done c')" using True c1(1) c'(1) by (simp add: evict_loop.simps [of c e])
    then show ?thesis
      using c' c1 by (intro exI [of _ c'] exI [of _ "x # xs"]) auto
  qed
qed

lemma set_pri_consistent:
  assumes "cache_consistent c" "e \<notin> cached c"
  shows "cache_consistent (c\<lparr>c_obj := (c_obj c)(e := mobj)\<rparr>)"
proof -
  let ?c = "c\<lparr>c_obj := (c_obj c)(e := mobj)\<rparr>"
  have same: "c_obj ?c x = c_obj c x" if "x \<in> cached c" for x using that assms(2) by auto
  note cc = assms(1) [unfolded cache_consistent_def]
  have "cache_pq_inv (get_pri ?c) (c_pq c)"
    using cc cache_pq_inv_cong [of "c_pq c" "get_pri c" "get_pri ?c"] same by auto
  moreover have "(\<Sum>x \<in> cached c. size_entry ?c x) = (\<Sum>x \<in> cached c. size_entry c x)"
    using same by (intro sum.cong) auto
  moreover have "x \<in> cached c \<and> key_entry ?c x = k \<longleftrightarrow> x \<in> cached c \<and> key_entry c x = k" for x k
    using assms(2) by auto
  ultimately show ?thesis using cc same unfolding cache_consistent_def by simp
qed

lemma cache_find_map:
  assumes "cache_consistent c" "cstring k"
  shows "cache_find c k = Some x \<longleftrightarrow> x \<in> cached c \<and> key_entry c x = k"
  using assms cache_hash_get_map [OF _ key_ok_full(2), of "c_ht c" k] key_bytes_string [OF assms(2)]
  by (simp add: cache_find_def cache_consistent_def)

lemma add_consistent:
  fixes junk :: 'a and realloc_ok :: bool and c :: "'a cache_cache"
  assumes c: "cache_consistent c" and e: "e \<notin> cached c" "cstring (key_entry c e)"
    and free: "\<forall>x \<in> cached c. key_entry c x \<noteq> key_entry c e"
    and room: "\<not> over_limit c e"
  defines "c' \<equiv> c\<lparr>c_current_size := c_current_size c + size_entry c e,
      c_pq := (case cache_pq_insert (get_pri c) junk realloc_ok (Some (c_pq c)) e of
                 (_, Some pq') \<Rightarrow> pq' | (_, None) \<Rightarrow> c_pq c),
      c_ht := snd (cache_hash_set (c_ht c) (key_entry c e) (-1) (Some e) True)\<rparr>"
  shows "cache_inv c' \<and> cached c' = insert e (cached c)"
proof -
  note cc = c [unfolded cache_consistent_def]
  have card: "card (cached c) = pq_size (c_pq c) - 1" and sz: "1 \<le> pq_size (c_pq c)"
    using cc card_pq_elems by (auto simp: cache_pq_inv_def pq_wf_def)
  have lim: "int (card (cached c)) < c_max_entries c" "c_current_size c + size_entry c e \<le> c_max_size c"
    using room card by (auto simp: over_limit_def cache_pq_size_def)
  have fit: "pq_size (c_pq c) < pq_avail (c_pq c)" using lim(1) cc card sz by linarith
  obtain pq' where pq': "cache_pq_insert (get_pri c) junk realloc_ok (Some (c_pq c)) e = (APR_SUCCESS, Some pq')"
      "cache_pq_inv (get_pri c) pq'" "pq_elems pq' = insert e (cached c)"
    using cache_pq_insert_inv [of "get_pri c" "c_pq c" e realloc_ok junk] cc e(1) fit by blast
  have av: "pq_avail pq' = pq_avail (c_pq c)"
    using pq'(1) fit unfolding cache_pq_insert.simps(2)
    by (auto simp: Let_def frame_simps)
  obtain ht' where ht': "snd (cache_hash_set (c_ht c) (key_entry c e) (-1) (Some e) True) = ht'"
      "cache_hash_inv ht'" "hash_map ht' = (hash_map (c_ht c))(key_entry c e := Some e)"
    using cache_hash_set_map [of "c_ht c" "key_entry c e" "-1" True "Some e"] cc key_bytes_string [OF e(2)]
    by auto
  have map: "\<forall>k y. hash_map ht' k = Some y \<longleftrightarrow> y \<in> insert e (cached c) \<and> key_entry c y = k"
    using cc free e(1) unfolding ht'(3) by (auto simp: fun_upd_def)
  have fields: "c_pq c' = pq'" "c_ht c' = ht'" "c_obj c' = c_obj c" "c_max_entries c' = c_max_entries c"
      "c_max_size c' = c_max_size c" "c_current_size c' = c_current_size c + size_entry c e"
    using pq'(1) ht'(1) by (simp_all add: c'_def)
  have "cache_consistent c'"
    using cc pq' ht'(2) map e av unfolding cache_consistent_def fields by (simp add: add.commute)
  then show ?thesis
    using lim pq'(3) e(1) by (simp add: cache_inv_def fields)
qed

section \<open>Properties\<close>

text \<open>
  C28. Inserting an object that fits the cache and whose key is not cached
  returns: the cache is consistent afterwards (queue, table and size agree)
  and within both of its limits, it holds the new object, finds it by its
  key, and what it evicted to make room are objects of the highest priorities,
  handed to free_entry.
\<close>

theorem cache_insert_correct:
  fixes c :: "'a cache_cache"
  assumes inv: "cache_inv c" and pos: "0 < c_max_entries c"
    and new: "entry \<notin> cached c" "cache_find c (mo_key (c_obj c entry)) = None"
      "cstring (mo_key (c_obj c entry))"
    and pri: "set_pri (c_queue_clock c) (c_obj c entry) = Some mobj"
      "mo_key mobj = mo_key (c_obj c entry)" "mo_len mobj = mo_len (c_obj c entry)"
    and fits: "mo_len mobj \<le> c_max_size c"
  shows "\<exists>c' xs. cache_insert set_pri junk realloc_ok True c entry = Some (Done c') \<and> cache_inv c'
    \<and> cached c' = insert entry (cached c - set xs) \<and> set xs \<subseteq> cached c
    \<and> c_freed c' = c_freed c @ xs
    \<and> (\<forall>x \<in> set xs. \<forall>y \<in> cached c - set xs. get_pri c y \<le> get_pri c x)
    \<and> cache_find c' (mo_key mobj) = Some entry"
proof -
  let ?c = "c\<lparr>c_obj := (c_obj c)(entry := mobj)\<rparr>"
  note defs = memcache_cache_get_key_def memcache_cache_get_size_def
  have con: "cache_consistent c" using inv by (simp add: cache_inv_def)
  have con1: "cache_consistent ?c" using set_pri_consistent [OF con new(1)] .
  have same: "c_obj ?c x = c_obj c x" if "x \<in> cached c" for x using that new(1) by auto
  have free: "key_entry c x \<noteq> mo_key mobj" if "x \<in> cached c" for x
    using cache_find_map [OF con new(3), of x] new(2) pri(2) that by auto
  obtain c2 xs where c2: "evict_loop ?c entry = Some (Done c2)" "cache_consistent c2" "\<not> over_limit c2 entry"
      "set xs \<subseteq> cached ?c" "cached c2 = cached ?c - set xs" "c_freed c2 = c_freed ?c @ xs"
      "\<forall>x \<in> set xs. \<forall>y \<in> cached c2. get_pri ?c y \<le> get_pri ?c x" "c_obj c2 = c_obj ?c"
    using evict_loop_spec [OF con1, of entry] fits pos by (auto simp: defs)
  have e2: "entry \<notin> cached c2" "key_entry c2 entry = mo_key mobj"
    using c2(5,8) new(1) by (auto simp: defs)
  have free2: "\<forall>x \<in> cached c2. key_entry c2 x \<noteq> key_entry c2 entry"
    using free same e2 c2(5,8) new(1) by (auto simp: defs)
  let ?r = "c2\<lparr>c_current_size := c_current_size c2 + size_entry c2 entry,
      c_pq := (case cache_pq_insert (get_pri c2) junk realloc_ok (Some (c_pq c2)) entry of
                 (_, Some pq') \<Rightarrow> pq' | (_, None) \<Rightarrow> c_pq c2),
      c_ht := snd (cache_hash_set (c_ht c2) (key_entry c2 entry) (-1) (Some entry) True)\<rparr>"
  have r: "cache_insert set_pri junk realloc_ok True c entry = Some (Done ?r)"
    using pri(1) c2(1) by (simp add: cache_insert_def)
  have cs: "cstring (mo_key mobj)" using new(3) pri(2) by simp
  have ok: "cache_inv ?r \<and> cached ?r = insert entry (cached c2)"
    by (rule add_consistent [OF c2(2) e2(1) _ free2 c2(3)]) (simp add: e2(2) cs)
  then have "cache_consistent ?r" by (simp add: cache_inv_def)
  moreover have "key_entry ?r entry = mo_key mobj" using e2(2) by simp
  ultimately have "cache_find ?r (mo_key mobj) = Some entry"
    using cache_find_map [OF _ cs, of ?r entry] ok by blast
  moreover have "\<forall>x \<in> set xs. \<forall>y \<in> cached c - set xs. get_pri c y \<le> get_pri c x"
    using c2(4,5,7) same by fastforce
  ultimately show ?thesis using r ok c2 by (intro exI [of _ ?r] exI [of _ xs]) simp
qed

text \<open>A cache of at most one object that holds object 1 of size 5, for the witnesses.\<close>

definition example_obj :: "nat \<Rightarrow> mem_cache_object" where
  "example_obj x = \<lparr>mo_key = (if x = 1 then ''a'' else ''b''), mo_len = 5, mo_priority = -1, mo_refs = 1\<rparr>"

definition example_cache :: "nat cache_cache" where
  "example_cache = \<lparr>c_max_entries = 1, c_max_size = 8, c_current_size = 5, c_total_purges = 0,
     c_queue_clock = 0,
     c_ht = ch_put ''a'' (Some 1) \<lparr>ch_array = [[], []], ch_count = 0, ch_max = 1\<rparr>,
     c_pq = \<lparr>pq_size = 2, pq_avail = 2, pq_step = 2, pq_d = [0, 1], pq_pos = (\<lambda>x. 1)\<rparr>,
     c_obj = example_obj, c_freed = []\<rparr>"

lemma example_cache_elems: "cached example_cache = {1}"
  by (auto simp: example_cache_def pq_elems_def atLeastLessThanSuc numeral_2_eq_2)

lemma example_cache_inv: "cache_inv example_cache"
proof -
  define t :: "nat cache_hash" where "t = \<lparr>ch_array = [[], []], ch_count = 0, ch_max = 1\<rparr>"
  have t: "cache_hash_inv t" "hash_map t = Map.empty"
    by (auto simp: t_def cache_hash_inv_def less_Suc_eq hash_map_def home_def fun_eq_iff)
  have ht: "c_ht example_cache = ch_put ''a'' (Some 1) t" by (simp add: example_cache_def t_def)
  have "cache_hash_inv (c_ht example_cache)" "hash_map (c_ht example_cache) = [''a'' \<mapsto> 1]"
    using t by (simp_all add: ht ch.inv_put ch.look_put)
  moreover have "cache_pq_inv (get_pri example_cache) (c_pq example_cache)"
    by (auto simp: cache_pq_inv_def pq_wf_def pq_located_def pq_heap_def heap_W_def example_cache_def)
  moreover have "key_entry example_cache 1 = ''a''" "size_entry example_cache 1 = 5"
      "c_current_size example_cache = 5" "c_max_entries example_cache = 1"
      "c_max_size example_cache = 8" "pq_avail (c_pq example_cache) = 2"
    by (auto simp: example_cache_def example_obj_def memcache_cache_get_key_def
        memcache_cache_get_size_def)
  ultimately show ?thesis
    unfolding cache_inv_def cache_consistent_def example_cache_elems
    by (simp add: fun_upd_def) auto
qed

lemma example_cache_find: "cache_find example_cache ''b'' = None"
proof -
  have con: "cache_consistent example_cache" using example_cache_inv by (simp add: cache_inv_def)
  show ?thesis using cache_find_map [OF con, of "''b''"] example_cache_elems
    by (cases "cache_find example_cache ''b''")
      (auto simp: memcache_cache_get_key_def example_cache_def example_obj_def)
qed

theorem cache_insert_correct_witness:
  "\<exists>c' xs. cache_insert memcache_lru_algorithm 0 True True example_cache 2 = Some (Done c') \<and> cache_inv c'
    \<and> cached c' = insert 2 (cached example_cache - set xs)"
proof -
  let ?m = "c_obj example_cache 2"
  have f: "mo_key ?m = ''b''" "mo_len ?m = 5" "c_max_entries example_cache = 1"
      "c_max_size example_cache = 8" "mo_priority ?m = -1"
    by (auto simp: example_cache_def example_obj_def)
  have "memcache_lru_algorithm (c_queue_clock example_cache) ?m = Some ?m"
    by (simp add: memcache_lru_algorithm_def f)
  then have "\<exists>c' xs. cache_insert memcache_lru_algorithm 0 True True example_cache 2 = Some (Done c')
      \<and> cache_inv c' \<and> cached c' = insert 2 (cached example_cache - set xs)
      \<and> set xs \<subseteq> cached example_cache \<and> c_freed c' = c_freed example_cache @ xs
      \<and> (\<forall>x \<in> set xs. \<forall>y \<in> cached example_cache - set xs.
            get_pri example_cache y \<le> get_pri example_cache x)
      \<and> cache_find c' (mo_key ?m) = Some 2"
    by (intro cache_insert_correct [OF example_cache_inv])
      (simp_all add: f example_cache_find example_cache_elems)
  then show ?thesis by blast
qed

text \<open>The loop of an object that does not fit even into an empty cache.\<close>

lemma evict_loop_oversized:
  assumes "cache_consistent c" "c_max_size c < size_entry c e"
  shows "\<exists>c' xs. evict_loop c e = Some (Fault Null_Pointer c') \<and> cache_consistent c' \<and> cached c' = {}
    \<and> c_freed c' = c_freed c @ xs \<and> distinct xs \<and> set xs = cached c"
  using assms
proof (induction "card (cached c)" arbitrary: c rule: less_induct)
  case less
  have over: "over_limit c e" using less.prems(2) by (simp add: over_limit_def)
  show ?case
  proof (cases "cached c = {}")
    case True
    have "pq_located (c_pq c)" "pq_wf (c_pq c)"
      using less.prems(1) by (auto simp: cache_consistent_def cache_pq_inv_def)
    then have "cache_pq_pop (get_pri c) (Some (c_pq c)) = (None, Some (c_pq c))"
      using True by (rule cache_pq_pop_empty)
    then have "evict_one c = None" by (simp add: evict_one_def)
    then have "evict_loop c e = Some (Fault Null_Pointer c)" using over by (simp add: evict_loop.simps [of c])
    then show ?thesis using True less.prems(1) by (intro exI [of _ c] exI [of _ "[]"]) simp
  next
    case False
    obtain x c1 where c1: "evict_one c = Some c1" "x \<in> cached c"
      "cache_consistent c1" "cached c1 = cached c - {x}" "c_obj c1 = c_obj c"
      "c_max_size c1 = c_max_size c" "c_freed c1 = c_freed c @ [x]"
      using evict_one_consistent [OF less.prems(1) False] .
    have "card (cached c1) < card (cached c)" using c1(2,4) by (metis card_Diff1_less finite_pq_elems)
    then obtain c' xs where c': "evict_loop c1 e = Some (Fault Null_Pointer c')" "cache_consistent c'"
        "cached c' = {}" "c_freed c' = c_freed c1 @ xs" "distinct xs" "set xs = cached c1"
      using less.hyps [of c1] less.prems c1 by auto
    have "evict_loop c e = Some (Fault Null_Pointer c')"
      using over c1(1) c'(1) by (simp add: evict_loop.simps [of c])
    then show ?thesis using c' c1(2,4,7) by (intro exI [of _ c'] exI [of _ "x # xs"]) auto
  qed
qed

text \<open>
  C40. An object larger than the whole cache makes cache_insert evict every
  object, each of them handed to free_entry once, and then dereference the null
  pointer that popping the empty queue returns: the run ends, and ends in that
  fault, with the cache empty.
\<close>

theorem cache_insert_oversized_faults:
  fixes c :: "'a cache_cache"
  assumes inv: "cache_inv c" and new: "entry \<notin> cached c"
    and pri: "set_pri (c_queue_clock c) (c_obj c entry) = Some mobj"
    and big: "c_max_size c < mo_len mobj"
  shows "\<exists>c' xs. cache_insert set_pri junk realloc_ok malloc_ok c entry = Some (Fault Null_Pointer c')
    \<and> cached c' = {} \<and> cache_consistent c' \<and> c_freed c' = c_freed c @ xs \<and> distinct xs \<and> set xs = cached c"
proof -
  let ?c = "c\<lparr>c_obj := (c_obj c)(entry := mobj)\<rparr>"
  have "cache_consistent ?c" using set_pri_consistent inv new by (auto simp: cache_inv_def)
  moreover have "c_max_size ?c < size_entry ?c entry" using big by (simp add: memcache_cache_get_size_def)
  ultimately have "\<exists>c' xs. evict_loop ?c entry = Some (Fault Null_Pointer c') \<and> cache_consistent c' \<and> cached c' = {}
      \<and> c_freed c' = c_freed ?c @ xs \<and> distinct xs \<and> set xs = cached ?c"
    by (rule evict_loop_oversized)
  then obtain c' xs where c': "evict_loop ?c entry = Some (Fault Null_Pointer c')" "cache_consistent c'"
      "cached c' = {}" "c_freed c' = c_freed ?c @ xs" "distinct xs" "set xs = cached ?c"
    by (elim exE conjE) (rule that)
  have "cache_insert set_pri junk realloc_ok malloc_ok c entry = Some (Fault Null_Pointer c')"
    using pri c'(1) by (simp add: cache_insert_def)
  then show ?thesis using c'(2-6) by (intro exI [of _ c'] exI [of _ xs]) simp
qed

theorem cache_insert_oversized_faults_witness:
  "\<exists>c'. cache_insert (\<lambda>clock mobj. Some (mobj\<lparr>mo_len := 9\<rparr>)) 0 True True example_cache 2 = Some (Fault Null_Pointer c')
    \<and> cached c' = {} \<and> c_freed c' = [1]"
proof -
  have big: "c_max_size example_cache < mo_len ((c_obj example_cache 2)\<lparr>mo_len := 9\<rparr>)"
    by (simp add: example_cache_def)
  have new: "2 \<notin> cached example_cache" by (simp add: example_cache_elems)
  have "\<exists>c' xs. cache_insert (\<lambda>clock mobj. Some (mobj\<lparr>mo_len := 9\<rparr>)) 0 True True example_cache 2 = Some (Fault Null_Pointer c')
    \<and> cached c' = {} \<and> cache_consistent c' \<and> c_freed c' = c_freed example_cache @ xs
    \<and> distinct xs \<and> set xs = cached example_cache"
    by (rule cache_insert_oversized_faults [OF example_cache_inv new _ big]) (rule refl)
  then obtain c' xs where c': "cache_insert (\<lambda>clock mobj. Some (mobj\<lparr>mo_len := 9\<rparr>)) 0 True True example_cache 2
      = Some (Fault Null_Pointer c')" "cached c' = {}" "c_freed c' = c_freed example_cache @ xs"
      "distinct xs" "set xs = cached example_cache" by (elim exE conjE) (rule that)
  have "length xs = 1" using distinct_card [OF c'(4)] c'(5) example_cache_elems by simp
  then have "xs = [1]" using c'(5) example_cache_elems by (cases xs) auto
  then show ?thesis using c'(1-3) by (simp add: example_cache_def)
qed

text \<open>
  Taking the object of the highest priority out (cache_pop) and taking a
  given object out (cache_remove) keep the cache consistent and within its
  limits, and afterwards the object's key is not found.
\<close>

theorem cache_pop_remove_correct:
  fixes c :: "'a cache_cache"
  assumes inv: "cache_inv c" and x: "x \<in> cached c"
  shows "(\<exists>c'. cache_remove c x = (APR_SUCCESS, c') \<and> cache_inv c' \<and> cached c' = cached c - {x}
      \<and> cache_find c' (mo_key (c_obj c x)) = None)
    \<and> (\<exists>y c'. cache_pop (Some c) = (Some y, Some c') \<and> cache_inv c' \<and> y \<in> cached c
      \<and> cached c' = cached c - {y} \<and> (\<forall>z \<in> cached c. get_pri c z \<le> get_pri c y)
      \<and> cache_find c' (mo_key (c_obj c y)) = None)"
proof -
  note defs = memcache_cache_get_key_def memcache_cache_get_size_def
  have con: "cache_consistent c" using inv by (simp add: cache_inv_def)
  have gone: "cache_inv c' \<and> cache_find c' (mo_key (c_obj c y)) = None"
    if "cache_consistent c'" "cached c' = cached c - {y}" "y \<in> cached c" "c_obj c' = c_obj c"
      "c_max_entries c' = c_max_entries c" "c_max_size c' = c_max_size c"
      "c_current_size c' = c_current_size c - size_entry c y" for c' y
  proof
    have "card (cached c') \<le> card (cached c)" using that(2) by (metis Diff_subset card_mono finite_pq_elems)
    then show "cache_inv c'" using inv that(1,5-7) unfolding cache_inv_def by linarith
    have k: "cstring (mo_key (c_obj c y))" using con that(3) by (auto simp: cache_consistent_def defs)
    have "key_entry c z \<noteq> mo_key (c_obj c y)" if "z \<in> cached c - {y}" for z
      using cache_find_map [OF con k, of z] cache_find_map [OF con k, of y] that \<open>y \<in> cached c\<close>
      by (simp add: defs) (metis option.inject)
    then show "cache_find c' (mo_key (c_obj c y)) = None"
      using cache_find_map [OF that(1) k] that(2,4) by (cases "cache_find c' (mo_key (c_obj c y))") auto
  qed
  have inv_pq: "cache_pq_inv (get_pri c) (c_pq c)" using con by (simp add: cache_consistent_def)
  obtain pq' where r: "cache_pq_remove (get_pri c) (c_pq c) x = (APR_SUCCESS, pq')"
      "cache_pq_inv (get_pri c) pq'" "pq_elems pq' = cached c - {x}"
    using cache_pq_remove_inv [OF inv_pq x] by blast
  have one: "\<exists>c'. cache_remove c x = (APR_SUCCESS, c') \<and> cache_inv c' \<and> cached c' = cached c - {x}
      \<and> cache_find c' (mo_key (c_obj c x)) = None"
  proof -
    obtain c' where c': "cache_remove c x = (APR_SUCCESS, c')" "c_pq c' = pq'" "c_obj c' = c_obj c"
        "c_max_entries c' = c_max_entries c"
        "c_ht c' = snd (cache_hash_set (c_ht c) (key_entry c x) (-1) None True)"
        "c_current_size c' = c_current_size c - size_entry c x" "c_max_size c' = c_max_size c"
      using r(1) by (simp add: cache_remove_def Let_def)
    have "cache_consistent c'"
      by (rule consistent_remove [OF con x r(2,3) frame_simps(4) [OF r(1)] c'(2-6)])
    then show ?thesis using gone [OF _ _ x c'(3,4,7,6)] c'(1,2) r(3) by simp
  qed
  have ne: "cached c \<noteq> {}" using x by auto
  obtain y pq2 where p: "cache_pq_pop (get_pri c) (Some (c_pq c)) = (Some y, Some pq2)"
    "y \<in> cached c" "\<forall>z \<in> cached c. get_pri c z \<le> get_pri c y"
    "cache_pq_inv (get_pri c) pq2" "pq_elems pq2 = cached c - {y}" "pq_avail pq2 = pq_avail (c_pq c)"
    using pop_consistent [OF con ne] .
  have two: "\<exists>y c'. cache_pop (Some c) = (Some y, Some c') \<and> cache_inv c' \<and> y \<in> cached c
      \<and> cached c' = cached c - {y} \<and> (\<forall>z \<in> cached c. get_pri c z \<le> get_pri c y)
      \<and> cache_find c' (mo_key (c_obj c y)) = None"
  proof -
    obtain c' where c': "cache_pop (Some c) = (Some y, Some c')" "c_pq c' = pq2" "c_obj c' = c_obj c"
        "c_max_entries c' = c_max_entries c"
        "c_ht c' = snd (cache_hash_set (c_ht c) (key_entry c y) (-1) None True)"
        "c_current_size c' = c_current_size c - size_entry c y" "c_max_size c' = c_max_size c"
      using p(1) by simp
    have "cache_consistent c'"
      by (rule consistent_remove [OF con p(2) p(4-6) c'(2-6)])
    then show ?thesis using gone [OF _ _ p(2) c'(3,4,7,6)] c'(1,2) p(2,3,5) by simp
  qed
  show ?thesis using one two by blast
qed

theorem cache_pop_remove_correct_witness:
  "(\<exists>c'. cache_remove example_cache 1 = (APR_SUCCESS, c') \<and> cached c' = {})
   \<and> (\<exists>y c'. cache_pop (Some example_cache) = (Some y, Some c') \<and> cache_inv c')"
  using cache_pop_remove_correct [OF example_cache_inv, of 1] example_cache_elems by auto

text \<open>
  The directive that selects the removal algorithm tests its argument the
  wrong way round: GDSF, in any case, selects LRU, and LRU selects GDSF, and no
  argument at all is refused.
\<close>

theorem removal_algorithm_swapped:
  "set_cache_removal_algorithm ''GDSF'' = Inr memcache_lru_algorithm
   \<and> set_cache_removal_algorithm ''LRU'' = Inr memcache_gdsf_algorithm
   \<and> (\<forall>arg. \<exists>alg. set_cache_removal_algorithm arg = Inr alg)"
  by (auto simp: set_cache_removal_algorithm_def strcasecmp_differs_def ctype_simps)

end
