(* ===== verification/Test_Char.thy ===== *)
theory Test_Char
  imports Prelude
begin

text \<open>
  server/gen_test_char.c: the table of character flags that util.c looks up
  with TEST_CHAR. The generator prints test_char_table[c] = flags for every c;
  the model computes the flags of a character the way the generator does (the
  branch for systems other than Windows and OS/2).
\<close>

named_theorems test_char_simps
  \<open>what each flag of the character table tests\<close>

definition apr_isprint :: "char \<Rightarrow> bool" where
  [ctype_simps]: "apr_isprint c \<longleftrightarrow> 32 \<le> chr_code c \<and> chr_code c \<le> 126"

definition apr_isascii :: "char \<Rightarrow> bool" where
  [ctype_simps]: "apr_isascii c \<longleftrightarrow> chr_code c < 128"

definition T_ESCAPE_SHELL_CMD :: "8 word" where "T_ESCAPE_SHELL_CMD = 0x01"
definition T_ESCAPE_PATH_SEGMENT :: "8 word" where "T_ESCAPE_PATH_SEGMENT = 0x02"
definition T_OS_ESCAPE_PATH :: "8 word" where "T_OS_ESCAPE_PATH = 0x04"
definition T_HTTP_TOKEN_STOP :: "8 word" where "T_HTTP_TOKEN_STOP = 0x08"
definition T_ESCAPE_LOGITEM :: "8 word" where "T_ESCAPE_LOGITEM = 0x10"
definition T_ESCAPE_FORENSIC :: "8 word" where "T_ESCAPE_FORENSIC = 0x20"

lemmas test_flags = T_ESCAPE_SHELL_CMD_def T_ESCAPE_PATH_SEGMENT_def T_OS_ESCAPE_PATH_def
  T_HTTP_TOKEN_STOP_def T_ESCAPE_LOGITEM_def T_ESCAPE_FORENSIC_def

text \<open>
  strchr on a constant string: it also finds the NUL at its end. The
  characters a HOL string cannot hold directly are written by their code.
\<close>

definition strchr_in :: "cstr \<Rightarrow> char \<Rightarrow> bool" where
  "strchr_in str c \<longleftrightarrow> c \<in> set str \<or> c = CHR 0x00"

definition shell_specials :: cstr where
  "shell_specials = ''&;`'' @ [CHR 0x27, CHR 0x22] @ ''|*?~<>^()[]{}$'' @ [CHR 0x5C, CHR 0x0A]"

definition segment_chars :: cstr where
  "segment_chars = ''$-_.+!*'' @ [CHR 0x27] @ ''(),:@&=~''"

definition path_chars :: cstr where
  "path_chars = ''$-_.+!*'' @ [CHR 0x27] @ ''(),:@&=/~''"

definition tspecials :: cstr where
  "tspecials = '' '' @ [CHR 0x09] @ ''()<>@,;:'' @ [CHR 0x5C, CHR 0x22] @ ''/[]?={}''"

definition test_char_table :: "char \<Rightarrow> 8 word" where
  "test_char_table c =
     (let nul = (c = CHR 0x00)
      in (if \<not> nul \<and> strchr_in shell_specials c then T_ESCAPE_SHELL_CMD else 0)
      OR (if \<not> apr_isalnum c \<and> \<not> strchr_in segment_chars c then T_ESCAPE_PATH_SEGMENT else 0)
      OR (if \<not> apr_isalnum c \<and> \<not> strchr_in path_chars c then T_OS_ESCAPE_PATH else 0)
      OR (if \<not> nul \<and> (apr_iscntrl c \<or> strchr_in tspecials c) then T_HTTP_TOKEN_STOP else 0)
      OR (if \<not> nul \<and> (\<not> apr_isprint c \<or> c = CHR 0x22 \<or> c = CHR 0x5C \<or> apr_iscntrl c)
          then T_ESCAPE_LOGITEM else 0)
      OR (if \<not> apr_isprint c \<or> c = CHR '':'' \<or> c = CHR 0x7C \<or> c = CHR ''%'' \<or> apr_iscntrl c \<or> nul
          then T_ESCAPE_FORENSIC else 0))"

definition TEST_CHAR :: "char \<Rightarrow> 8 word \<Rightarrow> bool" where
  "TEST_CHAR c f \<longleftrightarrow> test_char_table c AND f \<noteq> 0"

lemma flag_bits:
  fixes a b c d e f :: bool
  defines "w \<equiv> (if a then 0x01 else 0) OR (if b then 0x02 else 0) OR (if c then 0x04 else 0)
    OR (if d then 0x08 else 0) OR (if e then 0x10 else 0) OR (if f then 0x20 else (0 :: 8 word))"
  shows "w AND 0x01 \<noteq> 0 \<longleftrightarrow> a" "w AND 0x02 \<noteq> 0 \<longleftrightarrow> b" "w AND 0x04 \<noteq> 0 \<longleftrightarrow> c"
    "w AND 0x08 \<noteq> 0 \<longleftrightarrow> d" "w AND 0x10 \<noteq> 0 \<longleftrightarrow> e" "w AND 0x20 \<noteq> 0 \<longleftrightarrow> f"
  unfolding w_def bit.conj_disj_distrib2 by (cases a; cases b; cases c; cases d; cases e; cases f; simp)+

lemma TEST_CHAR_bits:
  "TEST_CHAR c T_ESCAPE_SHELL_CMD \<longleftrightarrow> c \<noteq> CHR 0x00 \<and> strchr_in shell_specials c"
  "TEST_CHAR c T_ESCAPE_PATH_SEGMENT \<longleftrightarrow> \<not> apr_isalnum c \<and> \<not> strchr_in segment_chars c"
  "TEST_CHAR c T_OS_ESCAPE_PATH \<longleftrightarrow> \<not> apr_isalnum c \<and> \<not> strchr_in path_chars c"
  "TEST_CHAR c T_HTTP_TOKEN_STOP \<longleftrightarrow> c \<noteq> CHR 0x00 \<and> (apr_iscntrl c \<or> strchr_in tspecials c)"
  "TEST_CHAR c T_ESCAPE_LOGITEM \<longleftrightarrow> c \<noteq> CHR 0x00 \<and>
     (\<not> apr_isprint c \<or> c = CHR 0x22 \<or> c = CHR 0x5C \<or> apr_iscntrl c)"
  unfolding TEST_CHAR_def test_char_table_def Let_def test_flags flag_bits by (rule refl)+

lemma TEST_CHAR_simps [test_char_simps]:
  "TEST_CHAR c T_ESCAPE_SHELL_CMD \<longleftrightarrow> c \<in> set shell_specials"
  "TEST_CHAR c T_ESCAPE_PATH_SEGMENT \<longleftrightarrow> c \<noteq> CHR 0x00 \<and> \<not> apr_isalnum c \<and> c \<notin> set segment_chars"
  "TEST_CHAR c T_OS_ESCAPE_PATH \<longleftrightarrow> c \<noteq> CHR 0x00 \<and> \<not> apr_isalnum c \<and> c \<notin> set path_chars"
  "TEST_CHAR c T_HTTP_TOKEN_STOP \<longleftrightarrow> c \<noteq> CHR 0x00 \<and> (apr_iscntrl c \<or> c \<in> set tspecials)"
  "TEST_CHAR c T_ESCAPE_LOGITEM \<longleftrightarrow> c \<noteq> CHR 0x00 \<and>
     (\<not> apr_isprint c \<or> c = CHR 0x22 \<or> c = CHR 0x5C)"
  unfolding TEST_CHAR_bits strchr_in_def
  by (auto simp: shell_specials_def ctype_simps)

end
