(* ===== verification/Util_Path.thy ===== *)
theory Util_Path
  imports Interfaces
begin

text \<open>
  server/util.c, the functions on URL paths: ap_getparents, ap_no2slash,
  ap_make_dirstr_prefix, ap_make_dirstr_parent, ap_count_dirs,
  ap_make_full_path and ap_stripprefix. IS_SLASH is the one of file systems
  that tell case apart. ap_getparents edits its buffer in place with an index
  l; the model keeps the part before l reversed and the part from l on, so that
  reading backwards from l is reading the head of the reversed part.
\<close>

abbreviation slash :: char where
  "slash \<equiv> CHR ''/''"

definition is_slash :: "char \<Rightarrow> bool" where
  "is_slash c \<longleftrightarrow> c = slash"

section \<open>ap_getparents\<close>

text \<open>Pass a: drop the ./ segments. prev is the character before, if any.\<close>

fun drop_dot_segments :: "char option \<Rightarrow> cstr \<Rightarrow> cstr" where
  "drop_dot_segments prev [] = []"
| "drop_dot_segments prev [c] = [c]"
| "drop_dot_segments prev (c # c' # s) =
     (if c = CHR ''.'' \<and> is_slash c' \<and> (prev = None \<or> is_slash (the prev))
      then drop_dot_segments (Some c') s
      else c # drop_dot_segments (Some c) (c' # s))"

text \<open>Pass b: drop a trailing dot segment.\<close>

definition drop_trailing_dot :: "cstr \<Rightarrow> cstr" where
  "drop_trailing_dot name =
     (let w = length name in
      if w = 1 \<and> name ! 0 = CHR ''.'' then take (w - 1) name
      else if w > 1 \<and> name ! (w - 1) = CHR ''.'' \<and> is_slash (name ! (w - 2)) then take (w - 1) name
      else name)"

text \<open>
  The scan back over one segment: l points to what is behind it, and ends at
  its first character.
\<close>

definition back_over :: "cstr \<Rightarrow> cstr" where
  "back_over rp = dropWhile (\<lambda>c. \<not> is_slash c) rp"

text \<open>Pass c: remove the segments x/../, with l moving back over x.\<close>

fun drop_parent_segments :: "cstr \<Rightarrow> cstr \<Rightarrow> cstr" where
  "drop_parent_segments rp [] = rev rp"
| "drop_parent_segments rp (c # s) =
     (if c = CHR ''.'' \<and> length s \<ge> 2 \<and> s ! 0 = CHR ''.'' \<and> is_slash (s ! 1)
         \<and> (rp = [] \<or> is_slash (hd rp))
      then drop_parent_segments (if length rp \<ge> 2 then back_over (tl rp) else []) (drop 2 s)
      else drop_parent_segments (c # rp) s)"

text \<open>Pass d: remove a trailing segment x/.. .\<close>

definition drop_trailing_parent :: "cstr \<Rightarrow> cstr" where
  "drop_trailing_parent name =
     (let l = length name in
      if l = 2 \<and> name ! 0 = CHR ''.'' \<and> name ! 1 = CHR ''.'' then []
      else if l > 2 \<and> name ! (l - 1) = CHR ''.'' \<and> name ! (l - 2) = CHR ''.''
              \<and> is_slash (name ! (l - 3))
      then if l \<ge> 4 then rev (back_over (rev (take (l - 3) name))) else []
      else name)"

definition ap_getparents :: "cstr \<Rightarrow> cstr" where
  "ap_getparents name =
     (let before = takeWhile (\<lambda>c. c \<noteq> CHR ''.'') name;
          rest = dropWhile (\<lambda>c. c \<noteq> CHR ''.'') name;
          prev = (if before = [] then None else Some (last before));
          name1 = drop_trailing_dot (before @ drop_dot_segments prev rest);
          first_dot = length before
      in drop_trailing_parent
           (drop_parent_segments (rev (take first_dot name1)) (drop first_dot name1)))"

section \<open>The other path functions\<close>

function ap_no2slash :: "cstr \<Rightarrow> cstr" where
  "ap_no2slash [] = []"
| "ap_no2slash (c # s) =
     (if c = slash then c # ap_no2slash (dropWhile (\<lambda>x. x = slash) s)
      else c # ap_no2slash s)"
  by pat_completeness auto
termination
  by (relation "measure length") (auto simp: le_imp_less_Suc length_dropWhile_le)

fun dirstr_copy :: "cstr \<Rightarrow> int \<Rightarrow> cstr" where
  "dirstr_copy [] n = [slash]"
| "dirstr_copy (c # s) n =
     (if c = slash \<and> n - 1 = 0 then [slash]
      else c # dirstr_copy s (if c = slash then n - 1 else n))"

definition ap_make_dirstr_prefix :: "cstr \<Rightarrow> int \<Rightarrow> cstr" where
  "ap_make_dirstr_prefix s n = (if n < 1 then [slash] else dirstr_copy s n)"

text \<open>ap_strrchr_c: the index of the last occurrence.\<close>

fun strrchr :: "cstr \<Rightarrow> char \<Rightarrow> nat option" where
  "strrchr [] c = None"
| "strrchr (x # s) c =
     (case strrchr s c of Some i \<Rightarrow> Some (Suc i) | None \<Rightarrow> if x = c then Some 0 else None)"

definition ap_make_dirstr_parent :: "cstr \<Rightarrow> cstr" where
  "ap_make_dirstr_parent s =
     (case strrchr s slash of None \<Rightarrow> [] | Some last_slash \<Rightarrow> take (last_slash + 1) s)"

fun ap_count_dirs :: "cstr \<Rightarrow> nat" where
  "ap_count_dirs [] = 0"
| "ap_count_dirs (c # s) = (if c = slash then Suc (ap_count_dirs s) else ap_count_dirs s)"

definition ap_make_full_path :: "cstr \<Rightarrow> cstr \<Rightarrow> cstr" where
  "ap_make_full_path src1 src2 =
     (if length src1 = 0 then slash # src2
      else src1 @ (if last src1 \<noteq> slash then [slash] else []) @ src2)"

fun stripprefix_loop :: "cstr \<Rightarrow> cstr \<Rightarrow> cstr \<Rightarrow> cstr" where
  "stripprefix_loop bigstring (c # p1) (d # prefix) =
     (if c \<noteq> d then bigstring else stripprefix_loop bigstring p1 prefix)"
| "stripprefix_loop bigstring p1 [] = p1"
| "stripprefix_loop bigstring [] (d # prefix) = bigstring"

definition ap_stripprefix :: "cstr \<Rightarrow> cstr \<Rightarrow> cstr" where
  "ap_stripprefix bigstring prefix =
     (if prefix = [] then bigstring else stripprefix_loop bigstring bigstring prefix)"

section \<open>Segments\<close>

text \<open>
  The reference view of a path: the list of the pieces between the slashes.
  dirs writes out complete segments, each with its slash.
\<close>

fun segs :: "cstr \<Rightarrow> cstr list" where
  "segs [] = [[]]"
| "segs (c # s) = (if is_slash c then [] # segs s
     else case segs s of [] \<Rightarrow> [[c]] | x # xs \<Rightarrow> (c # x) # xs)"

definition dirs :: "cstr list \<Rightarrow> cstr" where
  "dirs xs = concat (map (\<lambda>x. x @ [slash]) xs)"

definition plain :: "cstr \<Rightarrow> bool" where
  "plain x \<longleftrightarrow> slash \<notin> set x"

lemma plain_simps [simp]: "plain []" "plain (c # x) \<longleftrightarrow> c \<noteq> slash \<and> plain x"
  "plain (x @ y) \<longleftrightarrow> plain x \<and> plain y" "plain (rev x) \<longleftrightarrow> plain x"
  by (auto simp: plain_def)

lemma dirs_simps [simp]: "dirs [] = []" "dirs (x # xs) = x @ slash # dirs xs"
  "dirs (xs @ ys) = dirs xs @ dirs ys"
  by (auto simp: dirs_def)

lemma segs_not_Nil [simp]: "segs s \<noteq> []"
  by (induction s) (auto split: list.splits)

lemma segs_plain: "x \<in> set (segs s) \<Longrightarrow> plain x"
  by (induction s arbitrary: x) (auto simp: is_slash_def split: list.splits if_splits)

lemma segs_plain_append: "plain x \<Longrightarrow> segs (x @ slash # s) = x # segs s"
  by (induction x) (auto simp: is_slash_def)

lemma segs_of_plain [simp]: "plain x \<Longrightarrow> segs x = [x]"
  by (induction x) (auto simp: is_slash_def)

lemma segs_dirs: "(\<And>x. x \<in> set xs \<Longrightarrow> plain x) \<Longrightarrow> segs (dirs xs @ s) = xs @ segs s"
  by (induction xs) (auto simp: segs_plain_append)

lemma dirs_segs: "dirs (butlast (segs s)) @ last (segs s) = s"
  by (induction s) (auto simp: is_slash_def split: list.splits if_splits)

text \<open>Every path is some complete segments and a last one.\<close>

lemma path_split:
  "\<exists>xs y. s = dirs xs @ y \<and> (\<forall>x \<in> set xs. plain x) \<and> plain y \<and> segs s = xs @ [y]"
proof (intro exI conjI ballI)
  show "s = dirs (butlast (segs s)) @ last (segs s)" by (simp add: dirs_segs)
  show "plain x" if "x \<in> set (butlast (segs s))" for x
    using that segs_plain in_set_butlastD by metis
  show "plain (last (segs s))" using segs_plain last_in_set segs_not_Nil by blast
  show "segs s = butlast (segs s) @ [last (segs s)]" by simp
qed

section \<open>What ap_getparents computes\<close>

definition dot :: cstr where "dot = ''.''"
definition dotdot :: cstr where "dotdot = ''..''"

definition walk :: "cstr list \<Rightarrow> cstr list \<Rightarrow> cstr list" where
  "walk st xs = foldl (\<lambda>st x. if x = dotdot then butlast st else st @ [x]) st xs"

definition norm_segs :: "cstr list \<Rightarrow> cstr list" where
  "norm_segs xs =
     (let st = walk [] (filter (\<lambda>x. x \<noteq> dot) (butlast xs));
          y = (if last xs = dot then [] else last xs)
      in if y = dotdot then butlast st @ [[]] else st @ [y])"

lemma walk_simps [simp]: "walk st [] = st"
  "walk st (x # xs) = walk (if x = dotdot then butlast st else st @ [x]) xs"
  by (auto simp: walk_def)

lemma drop_dot_plain:
  assumes "plain x" "prev = None \<or> is_slash (the prev)"
  shows "drop_dot_segments prev (x @ slash # s)
    = (if x = dot then drop_dot_segments (Some slash) s
       else x @ slash # drop_dot_segments (Some slash) s)"
proof -
  have inner: "drop_dot_segments (Some c) (y @ slash # s) = y @ slash # drop_dot_segments (Some slash) s"
    if "plain y" "c \<noteq> slash" for c y
    using that
  proof (induction y arbitrary: c)
    case Nil
    then show ?case by (cases s) (auto simp: is_slash_def)
  next
    case (Cons d y)
    then show ?case by (cases y) (auto simp: is_slash_def)
  qed
  show ?thesis
  proof (cases x)
    case Nil
    then show ?thesis by (cases s) (auto simp: dot_def)
  next
    case (Cons c y)
    have c: "c \<noteq> slash" "plain y" using assms(1) Cons by auto
    show ?thesis
    proof (cases y)
      case Nil
      then show ?thesis using Cons inner [of "[]" c] c assms(2)
        by (auto simp: dot_def is_slash_def)
    next
      case (Cons d z)
      then show ?thesis using \<open>x = c # y\<close> inner [OF c(2,1)] c by (auto simp: dot_def is_slash_def)
    qed
  qed
qed

lemma drop_dot_last:
  assumes "plain x"
  shows "drop_dot_segments prev x = x"
  using assms
proof (induction x arbitrary: prev)
  case (Cons c x)
  then show ?case by (cases x) (auto simp: is_slash_def)
qed simp

lemma drop_dot_dirs:
  assumes "\<And>x. x \<in> set xs \<Longrightarrow> plain x" "plain y" "prev = None \<or> is_slash (the prev)"
  shows "drop_dot_segments prev (dirs xs @ y) = dirs (filter (\<lambda>x. x \<noteq> dot) xs) @ y"
  using assms
proof (induction xs arbitrary: prev)
  case (Cons x xs)
  then show ?case by (simp add: drop_dot_plain) (simp add: is_slash_def)
qed (simp add: drop_dot_last)

lemma drop_dot_before:
  assumes "CHR ''.'' \<notin> set u"
  shows "drop_dot_segments prev (u @ s)
    = u @ drop_dot_segments (if u = [] then prev else Some (last u)) s"
  using assms
proof (induction u arbitrary: prev)
  case (Cons c u)
  then show ?case by (cases "u @ s") (auto split: if_splits)
qed simp

lemma drop_trailing_dot_dirs:
  assumes "plain y"
  shows "drop_trailing_dot (dirs xs @ y) = dirs xs @ (if y = dot then [] else y)"
proof (cases "y = dot")
  case True
  show ?thesis
  proof (cases xs rule: rev_cases)
    case Nil
    then show ?thesis using True by (simp add: drop_trailing_dot_def dot_def)
  next
    case (snoc ys x)
    then show ?thesis using True
      by (simp add: drop_trailing_dot_def dot_def nth_append is_slash_def)
  qed
next
  case False
  have n1: "\<not> (length (dirs xs @ y) = 1 \<and> (dirs xs @ y) ! 0 = CHR ''.'')"
  proof (cases xs)
    case Nil
    then show ?thesis using False by (auto simp: dot_def length_Suc_conv)
  next
    case (Cons x ys)
    then show ?thesis by (cases x) (auto simp: length_Suc_conv)
  qed
  have n2: "\<not> (length (dirs xs @ y) > 1 \<and> (dirs xs @ y) ! (length (dirs xs @ y) - 1) = CHR ''.''
      \<and> is_slash ((dirs xs @ y) ! (length (dirs xs @ y) - 2)))"
  proof (cases y rule: rev_cases)
    case Nil
    then show ?thesis by (cases xs rule: rev_cases) (auto simp: nth_append)
  next
    case (snoc z c)
    show ?thesis
    proof (cases z rule: rev_cases)
      case Nil
      then show ?thesis using snoc False by (auto simp: dot_def nth_append)
    next
      case (snoc w d)
      then show ?thesis using \<open>y = z @ [c]\<close> assms by (auto simp: nth_append is_slash_def)
    qed
  qed
  show ?thesis by (simp only: drop_trailing_dot_def Let_def n1 n2 False if_False)
qed

subsection \<open>Passes c and d\<close>

lemma back_over_dirs: "plain x \<Longrightarrow> back_over (rev x @ rev (dirs st)) = rev (dirs st)"
proof -
  assume "plain x"
  then have "back_over (rev x @ rev (dirs st)) = back_over (rev (dirs st))"
    unfolding back_over_def
    by (subst dropWhile_append2) (auto simp: is_slash_def plain_def)
  also have "\<dots> = rev (dirs st)"
    by (cases st rule: rev_cases) (simp_all add: back_over_def is_slash_def)
  finally show ?thesis .
qed

lemma back_one_segment:
  assumes "\<And>x. x \<in> set st \<Longrightarrow> plain x"
  shows "(if length (rev (dirs st)) \<ge> 2 then back_over (tl (rev (dirs st))) else [])
    = rev (dirs (butlast st))"
proof (cases st rule: rev_cases)
  case (snoc ys x)
  have "plain x" using assms snoc by simp
  then show ?thesis using snoc back_over_dirs [of x ys]
    by (cases x; cases "dirs ys") (auto simp: back_over_def)
qed simp

lemma drop_parent_inner:
  assumes "plain y" "rp \<noteq> []" "\<not> is_slash (hd rp)"
  shows "drop_parent_segments rp (y @ slash # s) = drop_parent_segments (slash # rev y @ rp) s"
    and "drop_parent_segments rp y = rev rp @ y"
  using assms by (induction y arbitrary: rp) (auto simp: is_slash_def)

lemma drop_parent_segment:
  assumes st: "\<And>x. x \<in> set st \<Longrightarrow> plain x" and x: "plain x"
  shows "drop_parent_segments (rev (dirs st)) (x @ slash # s)
    = drop_parent_segments (rev (dirs (if x = dotdot then butlast st else st @ [x]))) s"
proof -
  have hd: "rev (dirs st) = [] \<or> is_slash (hd (rev (dirs st)))"
    by (cases st rule: rev_cases) (auto simp: is_slash_def)
  show ?thesis
  proof (cases x)
    case Nil
    then show ?thesis by (simp add: dotdot_def)
  next
    case (Cons c y)
    have c: "c \<noteq> slash" "plain y" using x Cons by auto
    show ?thesis
    proof (cases "x = dotdot")
      case True
      then show ?thesis using hd back_one_segment [of st, OF st]
        by (simp add: dotdot_def is_slash_def)
    next
      case False
      have "\<not> (c = CHR ''.'' \<and> length (y @ slash # s) \<ge> 2 \<and> (y @ slash # s) ! 0 = CHR ''.''
          \<and> is_slash ((y @ slash # s) ! 1))"
      proof (cases y)
        case (Cons d z)
        then show ?thesis using False c \<open>x = c # y\<close>
          by (cases z) (auto simp: dotdot_def is_slash_def)
      qed simp
      then have "drop_parent_segments (rev (dirs st)) (x @ slash # s)
          = drop_parent_segments (c # rev (dirs st)) (y @ slash # s)"
        using Cons by (simp only: append_Cons drop_parent_segments.simps) auto
      then show ?thesis using drop_parent_inner(1) [of y "c # rev (dirs st)" s] c False Cons
        by (simp add: is_slash_def)
    qed
  qed
qed

lemma drop_parent_last:
  assumes "plain y"
  shows "drop_parent_segments (rev (dirs st)) y = dirs st @ y"
proof (cases y)
  case (Cons c z)
  have "\<not> (length z \<ge> 2 \<and> is_slash (z ! 1))"
  proof
    assume z: "length z \<ge> 2 \<and> is_slash (z ! 1)"
    then have "slash \<in> set z" by (metis Suc_1 Suc_le_lessD is_slash_def nth_mem)
    then show False using assms Cons by (simp add: plain_def)
  qed
  then have "drop_parent_segments (rev (dirs st)) y = drop_parent_segments (c # rev (dirs st)) z"
    using Cons by (simp only: drop_parent_segments.simps) auto
  then show ?thesis
    using drop_parent_inner(2) [of z "c # rev (dirs st)"] assms Cons by (simp add: is_slash_def)
qed simp

lemma walk_plain:
  "(\<And>x. x \<in> set st \<Longrightarrow> plain x) \<Longrightarrow> (\<And>x. x \<in> set xs \<Longrightarrow> plain x) \<Longrightarrow>
     x \<in> set (walk st xs) \<Longrightarrow> plain x"
proof (induction xs arbitrary: st)
  case (Cons z zs)
  have "\<And>w. w \<in> set (if z = dotdot then butlast st else st @ [z]) \<Longrightarrow> plain w"
    using Cons.prems(1,2) by (auto split: if_splits dest: in_set_butlastD)
  then show ?case using Cons.IH Cons.prems(2,3) by (metis list.set_intros(2) walk_simps(2))
qed simp

lemma drop_parent_dirs:
  assumes "\<And>x. x \<in> set st \<Longrightarrow> plain x" "\<And>x. x \<in> set xs \<Longrightarrow> plain x" "plain y"
  shows "drop_parent_segments (rev (dirs st)) (dirs xs @ y) = dirs (walk st xs) @ y"
  using assms
proof (induction xs arbitrary: st)
  case (Cons x xs)
  have "\<And>z. z \<in> set (if x = dotdot then butlast st else st @ [x]) \<Longrightarrow> plain z"
    using Cons.prems by (auto split: if_splits dest: in_set_butlastD)
  moreover have "drop_parent_segments (rev (dirs st)) (x @ slash # dirs xs @ y)
      = drop_parent_segments (rev (dirs (if x = dotdot then butlast st else st @ [x]))) (dirs xs @ y)"
    using Cons.prems by (intro drop_parent_segment) auto
  ultimately show ?case using Cons.IH Cons.prems by simp
qed (simp add: drop_parent_last)

lemma drop_parent_before:
  assumes "CHR ''.'' \<notin> set u"
  shows "drop_parent_segments rp (u @ s) = drop_parent_segments (rev u @ rp) s"
  using assms by (induction u arbitrary: rp) auto

lemma drop_trailing_parent_dirs:
  assumes st: "\<And>x. x \<in> set st \<Longrightarrow> plain x" and y: "plain y"
  shows "drop_trailing_parent (dirs st @ y)
    = (if y = dotdot then dirs (butlast st) else dirs st @ y)"
proof (cases "y = dotdot")
  case True
  show ?thesis
  proof (cases st rule: rev_cases)
    case Nil
    then show ?thesis using True by (simp add: drop_trailing_parent_def dotdot_def)
  next
    case (snoc ys x)
    have x: "plain x" using st snoc by simp
    have len: "length (dirs st @ y) = length (dirs ys) + length x + 3"
      using snoc True by (simp add: dotdot_def)
    have bk: "rev (back_over (rev (take (length (dirs st @ y) - 3) (dirs st @ y)))) = dirs ys"
      using snoc True back_over_dirs [OF x, of ys] by (simp add: dotdot_def)
    have c1: "\<not> (length (dirs st @ y) = 2 \<and> (dirs st @ y) ! 0 = CHR ''.'' \<and> (dirs st @ y) ! 1 = CHR ''.'')"
      using len by simp
    have c2: "length (dirs st @ y) > 2 \<and> (dirs st @ y) ! (length (dirs st @ y) - 1) = CHR ''.''
      \<and> (dirs st @ y) ! (length (dirs st @ y) - 2) = CHR ''.''
      \<and> is_slash ((dirs st @ y) ! (length (dirs st @ y) - 3))"
      using snoc True by (simp add: dotdot_def nth_append is_slash_def)
    have "dirs ys = []" if "\<not> 4 \<le> length (dirs st @ y)"
      using len that by (cases x; cases "dirs ys") auto
    then have "drop_trailing_parent (dirs st @ y) = dirs ys"
      unfolding drop_trailing_parent_def Let_def if_not_P [OF c1] if_P [OF c2] bk by simp
    then show ?thesis using True snoc by simp
  qed
next
  case False
  have n1: "\<not> (length (dirs st @ y) = 2 \<and> (dirs st @ y) ! 0 = CHR ''.'' \<and> (dirs st @ y) ! 1 = CHR ''.'')"
  proof (cases st)
    case Nil
    then show ?thesis using False by (auto simp: dotdot_def length_Suc_conv numeral_2_eq_2)
  next
    case (Cons x xs)
    then show ?thesis by (cases x) (auto simp: length_Suc_conv numeral_2_eq_2)
  qed
  have n2: "\<not> (length (dirs st @ y) > 2 \<and> (dirs st @ y) ! (length (dirs st @ y) - 1) = CHR ''.''
      \<and> (dirs st @ y) ! (length (dirs st @ y) - 2) = CHR ''.''
      \<and> is_slash ((dirs st @ y) ! (length (dirs st @ y) - 3)))"
  proof (cases "length y \<ge> 3")
    case True
    then have "\<not> length (dirs st @ y) - 3 < length (dirs st)"
      "length (dirs st @ y) - 3 - length (dirs st) = length y - 3" by auto
    then have "(dirs st @ y) ! (length (dirs st @ y) - 3) = y ! (length y - 3)"
      unfolding nth_append by (simp only: if_False)
    moreover have "y ! (length y - 3) \<in> set y" using True by (intro nth_mem) auto
    ultimately show ?thesis using y by (auto simp: is_slash_def plain_def)
  next
    case short: False
    show ?thesis
    proof (cases st rule: rev_cases)
      case Nil
      then show ?thesis using short by auto
    next
      case (snoc ys x)
      consider "y = []" | d where "y = [d]" | d e where "y = [d, e]"
        using short by (cases y; cases "tl y"; cases "tl (tl y)") auto
      then show ?thesis
        by cases (use snoc False in \<open>auto simp: nth_append dotdot_def is_slash_def\<close>)
    qed
  qed
  show ?thesis by (simp only: drop_trailing_parent_def Let_def n1 n2 False if_False)
qed

section \<open>ap_getparents on segments\<close>

lemma getparents_dirs:
  assumes xs: "\<And>x. x \<in> set xs \<Longrightarrow> plain x" and y: "plain y"
  defines "st \<equiv> walk [] (filter (\<lambda>x. x \<noteq> dot) xs)" and "z \<equiv> if y = dot then [] else y"
  shows "ap_getparents (dirs xs @ y) = (if z = dotdot then dirs (butlast st) else dirs st @ z)"
proof -
  let ?name = "dirs xs @ y"
  define u where "u = takeWhile (\<lambda>c. c \<noteq> CHR ''.'') ?name"
  define v where "v = dropWhile (\<lambda>c. c \<noteq> CHR ''.'') ?name"
  have uv: "u @ v = ?name" by (simp add: u_def v_def)
  have no: "CHR ''.'' \<notin> set u" by (auto simp: u_def dest: set_takeWhileD)
  have a: "u @ drop_dot_segments (if u = [] then None else Some (last u)) v
      = dirs (filter (\<lambda>x. x \<noteq> dot) xs) @ y"
    using drop_dot_before [OF no, of None v] drop_dot_dirs [where prev = None, OF xs y] uv by simp
  have b: "drop_trailing_dot (dirs (filter (\<lambda>x. x \<noteq> dot) xs) @ y)
      = dirs (filter (\<lambda>x. x \<noteq> dot) xs) @ z" (is "_ = ?n1")
    by (simp add: drop_trailing_dot_dirs [OF y] z_def)
  have "length u \<le> length ?n1" and tk: "take (length u) ?n1 = u"
  proof -
    let ?w = "drop_dot_segments (if u = [] then None else Some (last u)) v"
    have eq: "?n1 = drop_trailing_dot (u @ ?w)" using a b by simp
    show "take (length u) ?n1 = u"
    proof (cases "drop_trailing_dot (u @ ?w) = u @ ?w")
      case False
      then have d: "drop_trailing_dot (u @ ?w) = take (length (u @ ?w) - 1) (u @ ?w)"
          "(u @ ?w) ! (length (u @ ?w) - 1) = CHR ''.''" "u @ ?w \<noteq> []"
        by (auto simp: drop_trailing_dot_def Let_def split: if_splits)
      have "?w \<noteq> []"
      proof
        assume "?w = []"
        then have "last u = CHR ''.''" "u \<noteq> []" using d(2,3) by (auto simp: last_conv_nth)
        then show False using no last_in_set by metis
      qed
      then have "length u \<le> length (u @ ?w) - 1" by (cases ?w) auto
      then have "take (length u) (take (length (u @ ?w) - 1) (u @ ?w)) = u"
        by (simp add: take_append min_def)
      then show ?thesis using eq d(1) by metis
    qed (use eq in simp)
    then show "length u \<le> length ?n1" by (metis length_take min.absorb_iff2 nat_le_linear take_all)
  qed
  then have c: "drop_parent_segments (rev (take (length u) ?n1)) (drop (length u) ?n1)
      = drop_parent_segments [] ?n1"
    using drop_parent_before [OF no, of "[]" "drop (length u) ?n1"] by (metis append.right_neutral append_take_drop_id)
  have d: "drop_parent_segments [] ?n1 = dirs st @ z"
    using drop_parent_dirs [of "[]" "filter (\<lambda>x. x \<noteq> dot) xs" z] xs y by (simp add: st_def z_def)
  have st: "plain x" if "x \<in> set st" for x
    using walk_plain [of "[]" "filter (\<lambda>x. x \<noteq> dot) xs" x] that xs by (auto simp: st_def)
  have zp: "plain z" using y by (simp add: z_def)
  show ?thesis
    unfolding ap_getparents_def Let_def u_def [symmetric] v_def [symmetric] a b c d
    by (rule drop_trailing_parent_dirs [OF st zp])
qed

lemma getparents_segs: "segs (ap_getparents s) = norm_segs (segs s)"
proof -
  obtain xs y where s: "s = dirs xs @ y" "\<And>x. x \<in> set xs \<Longrightarrow> plain x" "plain y" "segs s = xs @ [y]"
    using path_split [of s] by blast
  let ?st = "walk [] (filter (\<lambda>x. x \<noteq> dot) xs)" and ?z = "if y = dot then [] else y"
  have st: "plain x" if "x \<in> set ?st" for x
    using walk_plain [of "[]" "filter (\<lambda>x. x \<noteq> dot) xs" x] that s(2) by auto
  have pl: "plain ?z" using s(3) by simp
  have 1: "segs (dirs (butlast ?st)) = butlast ?st @ [[]]"
    using segs_dirs [of "butlast ?st" "[]"] st in_set_butlastD by fastforce
  have 2: "segs (dirs ?st @ ?z) = ?st @ [?z]"
    using segs_dirs [OF st, where s = ?z] segs_of_plain [OF pl] by simp
  have e: "segs (if ?z = dotdot then dirs (butlast ?st) else dirs ?st @ ?z)
      = (if ?z = dotdot then butlast ?st @ [[]] else ?st @ [?z])"
    using 1 2 by (cases "?z = dotdot") simp_all
  have g: "ap_getparents (dirs xs @ y)
      = (if ?z = dotdot then dirs (butlast ?st) else dirs ?st @ ?z)"
    by (rule getparents_dirs) (use s in auto)
  have n: "norm_segs (xs @ [y])
      = (if ?z = dotdot then butlast ?st @ [[]] else ?st @ [?z])"
    by (simp add: norm_segs_def Let_def)
  show ?thesis using e unfolding s(4) n unfolding s(1) g .
qed

lemma walk_members: "x \<in> set (walk st xs) \<Longrightarrow> x \<in> set st \<or> (x \<in> set xs \<and> x \<noteq> dotdot)"
proof (induction xs arbitrary: st)
  case (Cons z zs)
  let ?st = "if z = dotdot then butlast st else st @ [z]"
  from Cons.prems have "x \<in> set ?st \<or> (x \<in> set zs \<and> x \<noteq> dotdot)" using Cons.IH [of ?st] by simp
  then show ?case by (auto split: if_splits dest: in_set_butlastD)
qed simp

lemma norm_segs_clean: "dot \<notin> set (norm_segs xs)" "dotdot \<notin> set (norm_segs xs)"
proof -
  let ?st = "walk [] (filter (\<lambda>x. x \<noteq> dot) (butlast xs))"
  have st: "x \<noteq> dot \<and> x \<noteq> dotdot" if "x \<in> set ?st" for x
    using walk_members [OF that] by auto
  have ne: "dot \<noteq> []" "dotdot \<noteq> []" "dot \<noteq> dotdot" by (simp_all add: dot_def dotdot_def)
  define y where "y = (if last xs = dot then [] else last xs)"
  have y: "y \<noteq> dot" using ne by (simp add: y_def)
  have eq: "norm_segs xs = (if y = dotdot then butlast ?st @ [[]] else ?st @ [y])"
    by (simp add: norm_segs_def y_def)
  have "x \<noteq> dot \<and> x \<noteq> dotdot" if "x \<in> set (norm_segs xs)" for x
    using that st [of x] y ne unfolding eq by (cases "y = dotdot") (auto dest: in_set_butlastD)
  then show "dot \<notin> set (norm_segs xs)" "dotdot \<notin> set (norm_segs xs)" by blast+
qed

definition no_dots :: "cstr \<Rightarrow> bool" where
  "no_dots s \<longleftrightarrow> dot \<notin> set (segs s) \<and> dotdot \<notin> set (segs s)"

lemma segs_inj: "segs s = segs t \<Longrightarrow> s = t"
  by (metis dirs_segs)

lemma walk_clean: "dotdot \<notin> set xs \<Longrightarrow> walk st xs = st @ xs"
  by (induction xs arbitrary: st) auto

lemma norm_segs_fixed:
  assumes "dot \<notin> set xs" "dotdot \<notin> set xs" "xs \<noteq> []"
  shows "norm_segs xs = xs"
proof -
  have "last xs \<noteq> dot" "last xs \<noteq> dotdot" using assms last_in_set [of xs] by metis+
  moreover have "dotdot \<notin> set (butlast xs)" "filter (\<lambda>x. x \<noteq> dot) (butlast xs) = butlast xs"
    using assms by (auto simp: filter_id_conv dest: in_set_butlastD)
  ultimately show ?thesis using assms(3) by (simp add: norm_segs_def Let_def walk_clean)
qed

interpretation gp: normal_form ap_getparents no_dots
proof unfold_locales
  fix s
  show "no_dots (ap_getparents s)" by (simp add: no_dots_def getparents_segs norm_segs_clean)
  show "ap_getparents s = s" if "no_dots s"
    using that by (intro segs_inj) (simp add: getparents_segs norm_segs_fixed no_dots_def)
qed

section \<open>ap_no2slash\<close>

fun no_2slash :: "cstr \<Rightarrow> bool" where
  "no_2slash (c # d # s) = (\<not> (c = slash \<and> d = slash) \<and> no_2slash (d # s))"
| "no_2slash _ = True"

lemma no_2slash_Cons: "no_2slash s \<Longrightarrow> c \<noteq> slash \<or> s = [] \<or> hd s \<noteq> slash \<Longrightarrow> no_2slash (c # s)"
  by (cases s) auto

lemma no2slash_hd: "s \<noteq> [] \<Longrightarrow> ap_no2slash s \<noteq> [] \<and> hd (ap_no2slash s) = hd s"
  by (cases s) auto

lemma hd_dropWhile_slash: "dropWhile (\<lambda>x. x = c) s = [] \<or> hd (dropWhile (\<lambda>x. x = c) s) \<noteq> c"
  using hd_dropWhile by blast

lemma no2slash_nf: "no_2slash (ap_no2slash s)"
proof (induction s rule: ap_no2slash.induct)
  case (2 c s)
  let ?t = "dropWhile (\<lambda>x. x = slash) s"
  show ?case
  proof (cases "c = slash")
    case True
    have "ap_no2slash ?t = [] \<or> hd (ap_no2slash ?t) \<noteq> slash"
      by (metis hd_dropWhile_slash no2slash_hd ap_no2slash.simps(1))
    then have "no_2slash (c # ap_no2slash ?t)" using "2.IH"(1) [OF True] no_2slash_Cons by blast
    then show ?thesis using True by simp
  next
    case False
    then show ?thesis using "2.IH"(2) [OF False] no_2slash_Cons by simp
  qed
qed simp

lemma no2slash_id: "no_2slash s \<Longrightarrow> ap_no2slash s = s"
proof (induction s rule: ap_no2slash.induct)
  case (2 c s)
  then show ?case by (cases s) auto
qed simp

interpretation n2: normal_form ap_no2slash no_2slash
  by unfold_locales (auto simp: no2slash_nf no2slash_id)

text \<open>Merging slashes drops empty segments and leaves the others as they are.\<close>

lemma no2slash_plain:
  assumes "plain x"
  shows "ap_no2slash (x @ slash # s) = x @ slash # ap_no2slash (dropWhile (\<lambda>c. c = slash) s)"
    and "ap_no2slash x = x"
  using assms by (induction x) auto

lemma dropWhile_dirs:
  assumes "plain y"
  shows "dropWhile (\<lambda>c. c = slash) (dirs xs @ y) = dirs (dropWhile (\<lambda>x. x = []) xs) @ y
    \<or> (\<exists>x \<in> set xs. \<not> plain x)"
proof (induction xs)
  case Nil
  then show ?case using assms by (cases y) auto
next
  case (Cons x xs)
  then show ?case by (cases x) auto
qed

lemma no2slash_dirs:
  assumes "\<And>x. x \<in> set xs \<Longrightarrow> plain x" "plain y"
  shows "\<exists>zs. set zs \<subseteq> set xs \<and> ap_no2slash (dirs xs @ y) = dirs zs @ y"
  using assms
proof (induction "length xs" arbitrary: xs rule: less_induct)
  case less
  show ?case
  proof (cases xs)
    case Nil
    then show ?thesis using no2slash_plain(2) less.prems by (intro exI [of _ "[]"]) simp
  next
    case (Cons x ys)
    let ?ys = "dropWhile (\<lambda>x. x = []) ys"
    have sub: "set ?ys \<subseteq> set ys" by (auto dest: set_dropWhileD)
    have "length ?ys < length xs" using Cons by (simp add: le_imp_less_Suc length_dropWhile_le)
    then obtain zs where zs: "set zs \<subseteq> set ?ys" "ap_no2slash (dirs ?ys @ y) = dirs zs @ y"
      using less.hyps [of ?ys] less.prems sub Cons by (metis list.set_intros(2) subsetD)
    have "dropWhile (\<lambda>c. c = slash) (dirs ys @ y) = dirs ?ys @ y"
      using dropWhile_dirs [OF less.prems(2), of ys] less.prems(1) Cons by auto
    then have "ap_no2slash (dirs xs @ y) = dirs (x # zs) @ y"
      using no2slash_plain(1) [of x "dirs ys @ y"] less.prems(1) [of x] Cons zs(2) by simp
    then show ?thesis using zs(1) sub Cons by (intro exI [of _ "x # zs"]) auto
  qed
qed

lemma no2slash_segs: "set (segs (ap_no2slash s)) \<subseteq> set (segs s)"
proof -
  obtain xs y where s: "s = dirs xs @ y" "\<And>x. x \<in> set xs \<Longrightarrow> plain x" "plain y" "segs s = xs @ [y]"
    using path_split [of s] by blast
  obtain zs where zs: "set zs \<subseteq> set xs" "ap_no2slash s = dirs zs @ y"
    using no2slash_dirs [OF s(2,3)] s(1) by auto
  have "segs (dirs zs @ y) = zs @ [y]" using segs_dirs [of zs y] s(2,3) zs(1) by auto
  then show ?thesis using zs s(4) by auto
qed

section \<open>Directory prefixes\<close>

lemma dirstr_copy_plain:
  "plain x \<Longrightarrow> dirstr_copy (x @ slash # s) n
     = (if n = 1 then x @ [slash] else x @ slash # dirstr_copy s (n - 1))"
  "plain x \<Longrightarrow> dirstr_copy x n = x @ [slash]"
  by (induction x) auto

lemma dirstr_copy_dirs:
  assumes "\<And>x. x \<in> set xs \<Longrightarrow> plain x" "plain y" "1 \<le> n"
  shows "dirstr_copy (dirs xs @ y) n = dirs (take (nat n) (xs @ [y]))"
  using assms
proof (induction xs arbitrary: n)
  case Nil
  then show ?case by (simp add: dirstr_copy_plain(2) take_Cons')
next
  case (Cons x xs)
  show ?case
  proof (cases "n = 1")
    case False
    then have "nat n = Suc (nat (n - 1))" using Cons.prems(3) by simp
    then show ?thesis using Cons False by (simp add: dirstr_copy_plain(1))
  qed (use Cons in \<open>simp add: dirstr_copy_plain(1)\<close>)
qed

lemma count_dirs_segs: "ap_count_dirs s + 1 = length (segs s)"
  by (induction s) (auto simp: is_slash_def split: list.splits)

lemma strrchr_None: "strrchr s c = None \<longleftrightarrow> c \<notin> set s"
  by (induction s) (auto split: option.splits)

lemma strrchr_split: "strrchr (u @ c # v) c = Some (length u) \<longleftrightarrow> c \<notin> set v"
proof (induction u)
  case Nil
  then show ?case using strrchr_None [of v c] by (auto split: option.splits)
next
  case (Cons x u)
  have "strrchr (u @ c # v) c \<noteq> None" by (simp add: strrchr_None)
  then show ?case using Cons by (auto split: option.splits)
qed

lemma dirstr_parent_dirs:
  assumes "plain y"
  shows "ap_make_dirstr_parent (dirs xs @ y) = dirs xs"
proof (cases xs rule: rev_cases)
  case Nil
  then show ?thesis using assms strrchr_None [of y slash]
    by (auto simp: ap_make_dirstr_parent_def plain_def)
next
  case (snoc ys x)
  have "strrchr ((dirs ys @ x) @ slash # y) slash = Some (length (dirs ys @ x))"
    using strrchr_split [of "dirs ys @ x" slash y] assms by (simp add: plain_def)
  then show ?thesis using snoc by (simp add: ap_make_dirstr_parent_def)
qed

section \<open>Properties\<close>

text \<open>
  C32. ap_getparents normalises a path as a stack of segments does: it drops
  the segments that are a single dot and lets each double-dot segment remove
  the segment before it, where there is one, a trailing dot or double dot
  leaving an empty last segment. So no segment of the result is a dot or a
  double dot, whatever the input, paths that climb above the root included,
  and merging slashes afterwards does not bring one back.
\<close>

theorem getparents_safe:
  "segs (ap_getparents s) = norm_segs (segs s)
   \<and> ''.'' \<notin> set (segs (ap_getparents s)) \<and> ''..'' \<notin> set (segs (ap_getparents s))
   \<and> ''.'' \<notin> set (segs (ap_no2slash (ap_getparents s)))
   \<and> ''..'' \<notin> set (segs (ap_no2slash (ap_getparents s)))"
  using gp.nf_norm [of s] no2slash_segs [of "ap_getparents s"] getparents_segs [of s]
  by (auto simp: no_dots_def dot_def dotdot_def)

text \<open>
  The two clean-ups are idempotent, and they leave alone exactly the
  paths without dot segments and the paths without two slashes in a row.
\<close>

theorem path_cleanups_idempotent:
  "ap_getparents (ap_getparents s) = ap_getparents s
   \<and> ap_no2slash (ap_no2slash s) = ap_no2slash s
   \<and> (ap_getparents s = s \<longleftrightarrow> ''.'' \<notin> set (segs s) \<and> ''..'' \<notin> set (segs s))
   \<and> (ap_no2slash s = s \<longleftrightarrow> no_2slash s)"
  using gp.norm_idem n2.norm_idem gp.norm_fixpoints [of s] n2.norm_fixpoints [of s]
  by (simp add: no_dots_def dot_def dotdot_def)

text \<open>
  The directory helpers agree on the segments of a path: the prefix of
  depth n is the first n segments, each with a slash (all of them when the
  path has fewer), the parent is all but the last, and the count of
  directories is the number of segments less one. Joining a directory and a
  file name, which has no slash, gives a path whose parent is that directory.
\<close>

theorem dirstr_segments:
  "ap_make_dirstr_prefix s n = (if n < 1 then ''/'' else dirs (take (nat n) (segs s)))
   \<and> ap_make_dirstr_parent s = dirs (butlast (segs s))
   \<and> ap_count_dirs s = length (segs s) - 1
   \<and> ap_make_dirstr_parent (ap_make_full_path s (last (segs t))) = ap_make_full_path s []"
proof -
  obtain xs y where s: "s = dirs xs @ y" "\<And>x. x \<in> set xs \<Longrightarrow> plain x" "plain y" "segs s = xs @ [y]"
    using path_split [of s] by blast
  have a: "ap_make_dirstr_prefix s n = (if n < 1 then ''/'' else dirs (take (nat n) (segs s)))"
  proof (cases "n < 1")
    case False
    then have "dirstr_copy s n = dirs (take (nat n) (xs @ [y]))"
      using dirstr_copy_dirs [of xs y n] s by simp
    then show ?thesis using False s(4) by (simp add: ap_make_dirstr_prefix_def del: take_append)
  qed (simp add: ap_make_dirstr_prefix_def)
  have b: "ap_make_dirstr_parent s = dirs (butlast (segs s))"
    using dirstr_parent_dirs [OF s(3)] s(1,4) by simp
  have c: "ap_count_dirs s = length (segs s) - 1" using count_dirs_segs [of s] by simp
  have t: "plain (last (segs t))" using segs_plain last_in_set segs_not_Nil by metis
  have d: "ap_make_dirstr_parent (ap_make_full_path s (last (segs t))) = ap_make_full_path s []"
  proof -
    obtain zs where zs: "ap_make_full_path s [] = dirs zs"
    proof (cases "s = [] \<or> last s = slash")
      case True
      then show ?thesis
      proof
        assume "s = []"
        then show ?thesis using that [of "[[]]"] by (simp add: ap_make_full_path_def)
      next
        assume l: "last s = slash"
        then have "y = []" using s(1,3) last_in_set [of y] by (cases "y = []") (auto simp: plain_def)
        then show ?thesis using that [of "if xs = [] then [[]] else xs"] s(1) l
          by (cases xs) (auto simp: ap_make_full_path_def)
      qed
    next
      case False
      then show ?thesis using that [of "xs @ [y]"] s(1) by (simp add: ap_make_full_path_def)
    qed
    have "ap_make_full_path s (last (segs t)) = ap_make_full_path s [] @ last (segs t)" by (simp add: ap_make_full_path_def)
    then show ?thesis using zs dirstr_parent_dirs [OF t, of zs] by simp
  qed
  show ?thesis using a b c d by blast
qed

end
