(* ===== verification/Util_Escape.thy ===== *)
theory Util_Escape
  imports Test_Char Util_Path
begin

text \<open>
  server/util.c, escaping: URL escapes (x2c, c2x, ap_unescape_url and its
  keep2f variants, ap_escape_path_segment, ap_os_escape_path), HTML
  (ap_escape_html2), the shell (ap_escape_shell_cmd) and the logs
  (ap_escape_logitem, ap_escape_errorlog_item); and the clean-up of the path
  at the start of ap_process_request_internal in server/request.c.
\<close>

abbreviation percent :: char where "percent \<equiv> CHR ''%''"
abbreviation bslash :: char where "bslash \<equiv> CHR 0x5C"

section \<open>Hexadecimal digits\<close>

text \<open>
  The value x2c gives one digit. The comparison with 'A' is one of signed
  characters.
\<close>

definition x2c_digit :: "char \<Rightarrow> int" where
  "x2c_digit c =
     (if 65 \<le> chr_code c \<and> chr_code c < 128
      then (int (chr_code c) AND 0xdf) - 65 + 10 else int (chr_code c) - 48)"

definition x2c :: "char \<Rightarrow> char \<Rightarrow> char" where
  "x2c what0 what1 = char_of (x2c_digit what0 * 16 + x2c_digit what1)"

definition c2x_table :: cstr where
  "c2x_table = ''0123456789abcdef''"

definition c2x :: "char \<Rightarrow> char \<Rightarrow> cstr" where
  "c2x what prefix =
     [prefix, c2x_table ! drop_bit 4 (chr_code what), c2x_table ! (chr_code what AND 0xf)]"

section \<open>Unescaping a URL\<close>

datatype http_status = OK | HTTP_BAD_REQUEST | HTTP_NOT_FOUND

text \<open>
  The buffer is rewritten in place: y reads, x writes, and x stays at or
  behind y. The buffer ends in NUL; a NUL that was decoded from a %00 can
  end the string earlier.
\<close>

function unescape_url_loop ::
    "cstr \<Rightarrow> nat \<Rightarrow> nat \<Rightarrow> bool \<Rightarrow> bool \<Rightarrow> cstr \<times> bool \<times> bool" where
  "unescape_url_loop buf x y badesc badpath =
     (if \<not> (y < length buf \<and> buf ! y \<noteq> CHR 0x00) then (buf[x := CHR 0x00], badesc, badpath)
      else if buf ! y \<noteq> percent then
        unescape_url_loop (buf[x := buf ! y]) (x + 1) (y + 1) badesc badpath
      else if \<not> apr_isxdigit (buf ! (y + 1)) \<or> \<not> apr_isxdigit (buf ! (y + 2)) then
        unescape_url_loop (buf[x := percent]) (x + 1) (y + 1) True badpath
      else
        let c = x2c (buf ! (y + 1)) (buf ! (y + 2))
        in unescape_url_loop (buf[x := c]) (x + 1) (y + 3) badesc
             (if is_slash c \<or> c = CHR 0x00 then True else badpath))"
  by pat_completeness auto
termination
  by (relation "measure (\<lambda>(buf, x, y, _). length buf - y)") auto

declare unescape_url_loop.simps [simp del]

definition url_status :: "bool \<Rightarrow> bool \<Rightarrow> http_status" where
  "url_status badesc badpath =
     (if badesc then HTTP_BAD_REQUEST else if badpath then HTTP_NOT_FOUND else OK)"

text \<open>The string in a buffer: what is before the first NUL.\<close>

definition c_str :: "cstr \<Rightarrow> cstr" where
  "c_str buf = takeWhile (\<lambda>c. c \<noteq> CHR 0x00) buf"

definition ap_unescape_url :: "cstr \<Rightarrow> cstr \<times> http_status" where
  "ap_unescape_url url =
     (if percent \<notin> set url then (url, OK)
      else
        let y = length (takeWhile (\<lambda>c. c \<noteq> percent) url)
        in case unescape_url_loop (url @ [CHR 0x00]) y y False False of
             (buf, badesc, badpath) \<Rightarrow> (c_str buf, url_status badesc badpath))"

text \<open>
  The variant for AllowEncodedSlashes. With a decoded NUL neither x is written
  nor y moved past the digits.
\<close>

function keep2f_loop ::
    "bool \<Rightarrow> cstr \<Rightarrow> nat \<Rightarrow> nat \<Rightarrow> bool \<Rightarrow> bool \<Rightarrow> cstr \<times> bool \<times> bool" where
  "keep2f_loop decode_2f buf x y badesc badpath =
     (if \<not> (y < length buf \<and> buf ! y \<noteq> CHR 0x00) then (buf[x := CHR 0x00], badesc, badpath)
      else if buf ! y \<noteq> percent then
        keep2f_loop decode_2f (buf[x := buf ! y]) (x + 1) (y + 1) badesc badpath
      else if \<not> apr_isxdigit (buf ! (y + 1)) \<or> \<not> apr_isxdigit (buf ! (y + 2)) then
        keep2f_loop decode_2f (buf[x := percent]) (x + 1) (y + 1) True badpath
      else
        let decoded = x2c (buf ! (y + 1)) (buf ! (y + 2))
        in if decoded = CHR 0x00 then
             keep2f_loop decode_2f buf (x + 1) (y + 1) badesc True
           else if is_slash decoded \<and> \<not> decode_2f then
             keep2f_loop decode_2f (buf[x := buf ! y]) (x + 1) (y + 1) badesc badpath
           else
             keep2f_loop decode_2f (buf[x := decoded]) (x + 1) (y + 3) badesc badpath)"
  by pat_completeness auto
termination
  by (relation "measure (\<lambda>(d, buf, x, y, _). length buf - y)") auto

declare keep2f_loop.simps [simp del]

definition ap_unescape_url_keep2f_ex :: "cstr \<Rightarrow> bool \<Rightarrow> cstr \<times> http_status" where
  "ap_unescape_url_keep2f_ex url decode_2f =
     (if percent \<notin> set url then (url, OK)
      else
        let y = length (takeWhile (\<lambda>c. c \<noteq> percent) url)
        in case keep2f_loop decode_2f (url @ [CHR 0x00]) y y False False of
             (buf, badesc, badpath) \<Rightarrow> (c_str buf, url_status badesc badpath))"

definition ap_unescape_url_keep2f :: "cstr \<Rightarrow> cstr \<times> http_status" where
  "ap_unescape_url_keep2f url = ap_unescape_url_keep2f_ex url True"

section \<open>Escaping\<close>

fun ap_escape_path_segment :: "cstr \<Rightarrow> cstr" where
  "ap_escape_path_segment [] = []"
| "ap_escape_path_segment (c # s) =
     (if TEST_CHAR c T_ESCAPE_PATH_SEGMENT then c2x c percent else [c]) @ ap_escape_path_segment s"

text \<open>strchr, as the index of the character found.\<close>

fun index_of :: "cstr \<Rightarrow> char \<Rightarrow> nat option" where
  "index_of [] c = None"
| "index_of (x # s) c = (if x = c then Some 0 else map_option Suc (index_of s c))"

fun os_escape_loop :: "cstr \<Rightarrow> cstr" where
  "os_escape_loop [] = []"
| "os_escape_loop (c # s) =
     (if TEST_CHAR c T_OS_ESCAPE_PATH then c2x c percent else [c]) @ os_escape_loop s"

definition ap_os_escape_path :: "cstr \<Rightarrow> bool \<Rightarrow> cstr" where
  "ap_os_escape_path path partial =
     (let colon = index_of path CHR '':''; sl = index_of path slash
      in (if \<not> partial \<and> colon \<noteq> None \<and> (sl = None \<or> the colon < the sl) then ''./'' else [])
         @ os_escape_loop path)"

fun html_extra :: "bool \<Rightarrow> cstr \<Rightarrow> nat" where
  "html_extra toasc [] = 0"
| "html_extra toasc (c # s) =
     (if c = CHR ''<'' \<or> c = CHR ''>'' then 3
      else if c = CHR ''&'' then 4
      else if c = CHR 0x22 then 5
      else if toasc \<and> \<not> apr_isascii c then 5 else 0) + html_extra toasc s"

text \<open>apr_psprintf with the format %3.3d: three digits at least.\<close>

definition digit_char :: "nat \<Rightarrow> char" where
  "digit_char n = char_of (48 + n)"

definition format_3_3d :: "nat \<Rightarrow> cstr" where
  "format_3_3d n = [digit_char (n div 100), digit_char (n div 10 mod 10), digit_char (n mod 10)]"

fun html_loop :: "bool \<Rightarrow> cstr \<Rightarrow> cstr" where
  "html_loop toasc [] = []"
| "html_loop toasc (c # s) =
     (if c = CHR ''<'' then ''&lt;''
      else if c = CHR ''>'' then ''&gt;''
      else if c = CHR ''&'' then ''&amp;''
      else if c = CHR 0x22 then ''&quot;''
      else if toasc \<and> \<not> apr_isascii c then ''&#'' @ format_3_3d (chr_code c) @ '';''
      else [c]) @ html_loop toasc s"

definition ap_escape_html2 :: "cstr \<Rightarrow> bool \<Rightarrow> cstr" where
  "ap_escape_html2 s toasc = (if html_extra toasc s = 0 then s else html_loop toasc s)"

fun ap_escape_shell_cmd :: "cstr \<Rightarrow> cstr" where
  "ap_escape_shell_cmd [] = []"
| "ap_escape_shell_cmd (c # s) =
     (if TEST_CHAR c T_ESCAPE_SHELL_CMD then [bslash, c] else [c]) @ ap_escape_shell_cmd s"

text \<open>What both log functions write after the backslash for the usual control characters.\<close>

definition log_letter :: "char \<Rightarrow> char option" where
  "log_letter c =
     (if c = CHR 0x08 then Some CHR ''b'' else if c = CHR 0x0A then Some CHR ''n''
      else if c = CHR 0x0D then Some CHR ''r'' else if c = CHR 0x09 then Some CHR ''t''
      else if c = CHR 0x0B then Some CHR ''v'' else None)"

fun ap_escape_logitem :: "cstr \<Rightarrow> cstr" where
  "ap_escape_logitem [] = []"
| "ap_escape_logitem (c # s) =
     (if TEST_CHAR c T_ESCAPE_LOGITEM then
        bslash # (case log_letter c of
            Some l \<Rightarrow> [l]
          | None \<Rightarrow> if c = bslash \<or> c = CHR 0x22 then [c] else c2x c CHR ''x'')
      else [c]) @ ap_escape_logitem s"

text \<open>
  ep is the index of the last byte of the buffer; out is what is written, so
  its length is the write index d.
\<close>

fun errorlog_loop :: "nat \<Rightarrow> cstr \<Rightarrow> cstr \<Rightarrow> cstr" where
  "errorlog_loop ep out [] = out"
| "errorlog_loop ep out (c # s) =
     (if \<not> length out < ep then out
      else if TEST_CHAR c T_ESCAPE_LOGITEM then
        if length out + 1 \<ge> ep then out
        else case log_letter c of
            Some l \<Rightarrow> errorlog_loop ep (out @ [bslash, l]) s
          | None \<Rightarrow>
              if c = bslash then errorlog_loop ep (out @ [bslash, c]) s
              else if c = CHR 0x22 then errorlog_loop ep (out @ [c]) s
              else if length out + 1 + 2 \<ge> ep then out
              else errorlog_loop ep (out @ bslash # c2x c CHR ''x'') s
      else errorlog_loop ep (out @ [c]) s)"

text \<open>The bytes written to dest (with the NUL) and the length returned.\<close>

definition ap_escape_errorlog_item :: "cstr option \<Rightarrow> nat \<Rightarrow> cstr \<times> nat" where
  "ap_escape_errorlog_item source buflen =
     (case source of
        None \<Rightarrow> ([], 0)
      | Some s \<Rightarrow>
          if buflen = 0 then ([], 0)
          else let d = errorlog_loop (buflen - 1) [] s in (d @ [CHR 0x00], length d))"

section \<open>The path of a request\<close>

text \<open>
  The beginning of ap_process_request_internal for a request that is not a
  proxy request: r->uri and r->parsed_uri.path are the same string.
\<close>

definition process_request_path :: "bool \<Rightarrow> bool \<Rightarrow> cstr \<Rightarrow> http_status + cstr" where
  "process_request_path allow_encoded_slashes decode_encoded_slashes path =
     (case (if allow_encoded_slashes
            then ap_unescape_url_keep2f_ex path decode_encoded_slashes
            else ap_unescape_url path) of
        (uri, access_status) \<Rightarrow>
          if access_status \<noteq> OK then Inl access_status else Inr (ap_getparents uri))"

section \<open>Digits\<close>

lemma hex_digit_cases:
  assumes "n < 16"
  shows "x2c_digit (c2x_table ! n) = int n \<and> apr_isxdigit (c2x_table ! n)
    \<and> c2x_table ! n \<noteq> CHR 0x00 \<and> c2x_table ! n \<noteq> percent"
proof -
  have "\<forall>n \<in> set [0..<16]. x2c_digit (c2x_table ! n) = int n \<and> apr_isxdigit (c2x_table ! n)
      \<and> c2x_table ! n \<noteq> CHR 0x00 \<and> c2x_table ! n \<noteq> percent"
    by (simp add: c2x_table_def x2c_digit_def ctype_simps upt_rec)
  then show ?thesis using assms by simp
qed

lemma c2x_split: "c2x c p = [p, c2x_table ! (chr_code c div 16), c2x_table ! (chr_code c mod 16)]"
proof -
  have "(15 :: nat) = mask 4" by (simp add: mask_eq_exp_minus_1)
  then have "chr_code c AND 0xf = take_bit 4 (chr_code c)" by (metis take_bit_eq_mask)
  then have "chr_code c AND 0xf = chr_code c mod 16" by (simp add: take_bit_eq_mod)
  then show ?thesis by (simp add: c2x_def drop_bit_eq_div)
qed

lemma x2c_c2x:
  "x2c (c2x_table ! (chr_code c div 16)) (c2x_table ! (chr_code c mod 16)) = c"
proof -
  have "chr_code c div 16 < 16" using chr_code_bound [of c] by (simp add: less_mult_imp_div_less)
  then have "x2c (c2x_table ! (chr_code c div 16)) (c2x_table ! (chr_code c mod 16))
      = char_of (int (chr_code c div 16) * 16 + int (chr_code c mod 16))"
    using hex_digit_cases [of "chr_code c div 16"] hex_digit_cases [of "chr_code c mod 16"]
    by (simp add: x2c_def)
  also have "int (chr_code c div 16) * 16 + int (chr_code c mod 16) = int (chr_code c)"
    by (metis div_mult_mod_eq of_nat_add of_nat_mult of_nat_numeral)
  also have "char_of (int (chr_code c)) = c" by simp
  finally show ?thesis .
qed

section \<open>What unescaping computes\<close>

text \<open>
  The reference: a percent sign with two hexadecimal digits behind it is an
  escape; every escape is replaced by its character, unless keep holds of that.
\<close>

definition hex2 :: "cstr \<Rightarrow> bool" where
  "hex2 s \<longleftrightarrow> length s \<ge> 2 \<and> apr_isxdigit (s ! 0) \<and> apr_isxdigit (s ! 1)"

definition escaped_char :: "cstr \<Rightarrow> char" where
  "escaped_char s = x2c (s ! 0) (s ! 1)"

function url_decode :: "(char \<Rightarrow> bool) \<Rightarrow> cstr \<Rightarrow> cstr" where
  "url_decode keep [] = []"
| "url_decode keep (c # s) =
     (if c = percent \<and> hex2 s \<and> \<not> keep (escaped_char s)
      then escaped_char s # url_decode keep (drop 2 s)
      else c # url_decode keep s)"
  by pat_completeness auto
termination
  by (relation "measure (\<lambda>(k, s). length s)") auto

fun bad_escape :: "cstr \<Rightarrow> bool" where
  "bad_escape [] = False"
| "bad_escape (c # s) \<longleftrightarrow> (c = percent \<and> \<not> hex2 s) \<or> bad_escape s"

fun has_escape :: "(char \<Rightarrow> bool) \<Rightarrow> cstr \<Rightarrow> bool" where
  "has_escape P [] = False"
| "has_escape P (c # s) \<longleftrightarrow> (c = percent \<and> hex2 s \<and> P (escaped_char s)) \<or> has_escape P s"

lemma not_xdigit [simp]: "\<not> apr_isxdigit percent" "\<not> apr_isxdigit slash" "\<not> apr_isxdigit CHR 0x00"
  by (simp_all add: ctype_simps)

lemma hex2_cases:
  "hex2 s \<Longrightarrow> \<exists>a b t. s = a # b # t \<and> apr_isxdigit a \<and> apr_isxdigit b \<and> a \<noteq> percent \<and> b \<noteq> percent"
  by (cases s; cases "tl s") (auto simp: hex2_def)

lemma hex2_Cons2: "hex2 (a # b # t) \<longleftrightarrow> apr_isxdigit a \<and> apr_isxdigit b"
  by (auto simp: hex2_def)

lemma escape_drop2:
  "hex2 s \<Longrightarrow> bad_escape (drop 2 s) = bad_escape s"
  "hex2 s \<Longrightarrow> has_escape P (drop 2 s) = has_escape P s"
  by (auto dest!: hex2_cases)

text \<open>Writing at the front of the middle part moves the border by one.\<close>

lemma write_middle:
  "m \<noteq> [] \<Longrightarrow> (pre @ m @ t)[length pre := v] = (pre @ [v]) @ tl m @ t"
  by (cases m) auto

lemma buffer_reads:
  fixes pre mid t :: cstr
  assumes "y = length pre + length mid"
  shows "(pre @ mid @ c # t @ [CHR 0x00]) ! y = c" "y < length (pre @ mid @ c # t @ [CHR 0x00])"
    "apr_isxdigit ((pre @ mid @ c # t @ [CHR 0x00]) ! (y + 1))
      \<and> apr_isxdigit ((pre @ mid @ c # t @ [CHR 0x00]) ! (y + 2)) \<longleftrightarrow> hex2 t"
    "hex2 t \<Longrightarrow> x2c ((pre @ mid @ c # t @ [CHR 0x00]) ! (y + 1))
      ((pre @ mid @ c # t @ [CHR 0x00]) ! (y + 2)) = escaped_char t"
proof -
  let ?b = "pre @ mid @ c # t @ [CHR 0x00]"
  have r: "?b ! (y + k) = (c # t @ [CHR 0x00]) ! k" for k using assms by (simp add: nth_append)
  show "?b ! y = c" using r [of 0] by simp
  show "y < length ?b" using assms by simp
  have r1: "?b ! (y + 1) = (t @ [CHR 0x00]) ! 0" using r [of 1] by simp
  have r2: "?b ! (y + 2) = (t @ [CHR 0x00]) ! 1" using r [of 2] by simp
  show "apr_isxdigit (?b ! (y + 1)) \<and> apr_isxdigit (?b ! (y + 2)) \<longleftrightarrow> hex2 t"
  proof (cases t)
    case Nil
    then show ?thesis unfolding r1 r2 by (simp add: hex2_def)
  next
    case (Cons a u)
    then show ?thesis unfolding r1 r2 by (cases u) (auto simp: hex2_def)
  qed
  show "x2c (?b ! (y + 1)) (?b ! (y + 2)) = escaped_char t" if "hex2 t"
    using hex2_cases [OF that] unfolding r1 r2 by (auto simp: escaped_char_def)
qed

lemma unescape_url_steps:
  "y < length buf \<Longrightarrow> buf ! y = c \<Longrightarrow> c \<noteq> CHR 0x00 \<Longrightarrow>
     \<not> (c = percent \<and> (apr_isxdigit (buf ! (y + 1)) \<and> apr_isxdigit (buf ! (y + 2)))) \<Longrightarrow>
     unescape_url_loop buf x y be bp
       = unescape_url_loop (buf[x := c]) (x + 1) (y + 1) (be \<or> c = percent) bp"
  "y < length buf \<Longrightarrow> buf ! y = percent \<Longrightarrow>
     apr_isxdigit (buf ! (y + 1)) \<and> apr_isxdigit (buf ! (y + 2)) \<Longrightarrow>
     x2c (buf ! (y + 1)) (buf ! (y + 2)) = d \<Longrightarrow>
     unescape_url_loop buf x y be bp
       = unescape_url_loop (buf[x := d]) (x + 1) (y + 3) be (bp \<or> is_slash d \<or> d = CHR 0x00)"
  by (subst unescape_url_loop.simps, auto simp: Let_def)+

lemma unescape_loop_decodes:
  assumes "cstring rest"
  shows "\<exists>junk. unescape_url_loop (pre @ mid @ rest @ [CHR 0x00]) (length pre) (length pre + length mid) be bp
    = (pre @ url_decode (\<lambda>_. False) rest @ CHR 0x00 # junk, be \<or> bad_escape rest,
       bp \<or> has_escape (\<lambda>c. is_slash c \<or> c = CHR 0x00) rest)"
  using assms
proof (induction "length rest" arbitrary: rest pre mid be bp rule: less_induct)
  case less
  show ?case
  proof (cases rest)
    case Nil
    have "(pre @ mid @ [CHR 0x00])[length pre := CHR 0x00] = pre @ CHR 0x00 # tl (mid @ [CHR 0x00])"
      using write_middle [of "mid @ [CHR 0x00]" pre "[]"] by simp
    then show ?thesis using Nil by (subst unescape_url_loop.simps) (simp add: nth_append)
  next
    case (Cons c t)
    have c: "c \<noteq> CHR 0x00" "cstring t" using less.prems Cons by auto
    let ?b = "pre @ mid @ c # t @ [CHR 0x00]" and ?y = "length pre + length mid"
    note reads = buffer_reads [where y = ?y and pre = pre and mid = mid and c = c and t = t, OF refl]
    have wr: "?b[length pre := v] = (pre @ [v]) @ tl (mid @ [c]) @ t @ [CHR 0x00]"
      "length (pre @ [v]) + length (tl (mid @ [c])) = ?y + 1" "length (pre @ [v]) = length pre + 1" for v
      using write_middle [of "mid @ [c]" pre "t @ [CHR 0x00]" v] by auto
    show ?thesis
    proof (cases "c = percent \<and> hex2 t")
      case False
      have "unescape_url_loop ?b (length pre) ?y be bp
          = unescape_url_loop (?b[length pre := c]) (length pre + 1) (?y + 1) (be \<or> c = percent) bp"
        by (rule unescape_url_steps(1)) (use False c(1) in \<open>auto simp only: reads\<close>)
      also have "\<dots> = unescape_url_loop ((pre @ [c]) @ tl (mid @ [c]) @ t @ [CHR 0x00]) (length (pre @ [c]))
              (length (pre @ [c]) + length (tl (mid @ [c]))) (be \<or> c = percent) bp"
        unfolding wr(1,2) unfolding wr(3) ..
      finally have step: "unescape_url_loop ?b (length pre) ?y be bp = \<dots>" .
      have "\<exists>junk. unescape_url_loop ?b (length pre) ?y be bp
          = ((pre @ [c]) @ url_decode (\<lambda>_. False) t @ CHR 0x00 # junk, (be \<or> c = percent) \<or> bad_escape t,
             bp \<or> has_escape (\<lambda>c. is_slash c \<or> c = CHR 0x00) t)"
        unfolding step by (rule less.hyps) (use Cons c in auto)
      then show ?thesis using Cons False by auto
    next
      case True
      obtain a b u where u: "t = a # b # u" and ab: "a \<noteq> percent" "b \<noteq> percent"
        using hex2_cases [of t] True by auto
      let ?d = "escaped_char t" and ?m = "tl (mid @ [c, a, b])"
      have w: "?b[length pre := ?d] = (pre @ [?d]) @ ?m @ u @ [CHR 0x00]"
        "length (pre @ [?d]) + length ?m = ?y + 3"
        using write_middle [of "mid @ [c, a, b]" pre "u @ [CHR 0x00]" ?d] u by auto
      have l: "length (pre @ [?d]) = length pre + 1" by simp
      have "unescape_url_loop ?b (length pre) ?y be bp
          = unescape_url_loop (?b[length pre := ?d]) (length pre + 1)
              (?y + 3) be (bp \<or> is_slash ?d \<or> ?d = CHR 0x00)"
        by (rule unescape_url_steps(2)) (use True reads in \<open>metis+\<close>)
      also have "\<dots> = unescape_url_loop ((pre @ [?d]) @ ?m @ u @ [CHR 0x00]) (length (pre @ [?d]))
              (length (pre @ [?d]) + length ?m) be (bp \<or> is_slash ?d \<or> ?d = CHR 0x00)"
        unfolding w unfolding l ..
      finally have step: "unescape_url_loop ?b (length pre) ?y be bp = \<dots>" .
      have "\<exists>junk. unescape_url_loop ?b (length pre) ?y be bp
          = ((pre @ [?d]) @ url_decode (\<lambda>_. False) u @ CHR 0x00 # junk, be \<or> bad_escape u,
             (bp \<or> is_slash ?d \<or> ?d = CHR 0x00) \<or> has_escape (\<lambda>c. is_slash c \<or> c = CHR 0x00) u)"
        unfolding step by (rule less.hyps) (use Cons c u in auto)
      then show ?thesis using Cons True u ab by (auto simp: disj_assoc)
    qed
  qed
qed

lemma keep2f_steps:
  "y < length buf \<Longrightarrow> buf ! y = c \<Longrightarrow> c \<noteq> CHR 0x00 \<Longrightarrow>
     h = (apr_isxdigit (buf ! (y + 1)) \<and> apr_isxdigit (buf ! (y + 2))) \<Longrightarrow>
     x2c (buf ! (y + 1)) (buf ! (y + 2)) = d \<Longrightarrow>
     c = percent \<Longrightarrow> h \<Longrightarrow> d \<noteq> CHR 0x00 \<Longrightarrow> is_slash d \<and> \<not> d2f \<Longrightarrow>
     keep2f_loop d2f buf x y be bp = keep2f_loop d2f (buf[x := c]) (x + 1) (y + 1) be bp"
  "y < length buf \<Longrightarrow> buf ! y = c \<Longrightarrow> c \<noteq> CHR 0x00 \<Longrightarrow>
     \<not> (c = percent \<and> (apr_isxdigit (buf ! (y + 1)) \<and> apr_isxdigit (buf ! (y + 2)))) \<Longrightarrow>
     keep2f_loop d2f buf x y be bp = keep2f_loop d2f (buf[x := c]) (x + 1) (y + 1) (be \<or> c = percent) bp"
  "y < length buf \<Longrightarrow> buf ! y = percent \<Longrightarrow>
     apr_isxdigit (buf ! (y + 1)) \<and> apr_isxdigit (buf ! (y + 2)) \<Longrightarrow>
     x2c (buf ! (y + 1)) (buf ! (y + 2)) = CHR 0x00 \<Longrightarrow>
     keep2f_loop d2f buf x y be bp = keep2f_loop d2f buf (x + 1) (y + 1) be True"
  "y < length buf \<Longrightarrow> buf ! y = percent \<Longrightarrow>
     apr_isxdigit (buf ! (y + 1)) \<and> apr_isxdigit (buf ! (y + 2)) \<Longrightarrow>
     x2c (buf ! (y + 1)) (buf ! (y + 2)) = d \<Longrightarrow> d \<noteq> CHR 0x00 \<Longrightarrow> \<not> (is_slash d \<and> \<not> d2f) \<Longrightarrow>
     keep2f_loop d2f buf x y be bp = keep2f_loop d2f (buf[x := d]) (x + 1) (y + 3) be bp"
  by (subst keep2f_loop.simps, auto simp: Let_def)+

text \<open>
  The same for the variant, as long as no escape stands for NUL: then a byte
  of the buffer is left as it was.
\<close>

definition keep2f :: "bool \<Rightarrow> char \<Rightarrow> bool" where
  "keep2f decode_2f c \<longleftrightarrow> is_slash c \<and> \<not> decode_2f"

definition keep2f_result :: "bool \<Rightarrow> cstr \<Rightarrow> bool \<Rightarrow> bool \<Rightarrow> cstr \<Rightarrow> cstr \<times> bool \<times> bool \<Rightarrow> bool" where
  "keep2f_result d2f pre be bp rest r \<longleftrightarrow>
     (\<exists>out junk. r = (pre @ out @ CHR 0x00 # junk, be \<or> bad_escape rest,
          bp \<or> has_escape (\<lambda>c. c = CHR 0x00) rest)
        \<and> (\<not> has_escape (\<lambda>c. c = CHR 0x00) rest \<longrightarrow> out = url_decode (keep2f d2f) rest))"

lemma keep2f_result_extend:
  assumes "keep2f_result d2f (pre @ [v]) be' bp' t r"
    and "(be' \<or> bad_escape t) = (be \<or> bad_escape rest)"
    and "(bp' \<or> has_escape (\<lambda>c. c = CHR 0x00) t) = (bp \<or> has_escape (\<lambda>c. c = CHR 0x00) rest)"
    and "\<not> has_escape (\<lambda>c. c = CHR 0x00) rest \<Longrightarrow> \<not> has_escape (\<lambda>c. c = CHR 0x00) t
      \<and> url_decode (keep2f d2f) rest = v # url_decode (keep2f d2f) t"
  shows "keep2f_result d2f pre be bp rest r"
proof -
  obtain out junk where "r = ((pre @ [v]) @ out @ CHR 0x00 # junk, be' \<or> bad_escape t,
        bp' \<or> has_escape (\<lambda>c. c = CHR 0x00) t)"
      "\<not> has_escape (\<lambda>c. c = CHR 0x00) t \<longrightarrow> out = url_decode (keep2f d2f) t"
    using assms(1) by (auto simp: keep2f_result_def)
  then show ?thesis unfolding keep2f_result_def
    by (intro exI [of _ "v # out"] exI [of _ junk]) (use assms(2-4) in auto)
qed

lemma keep2f_loop_decodes:
  assumes "cstring rest"
  shows "keep2f_result d2f pre be bp rest
    (keep2f_loop d2f (pre @ mid @ rest @ [CHR 0x00]) (length pre) (length pre + length mid) be bp)"
  using assms
proof (induction "length rest" arbitrary: rest pre mid be bp rule: less_induct)
  case less
  show ?case
  proof (cases rest)
    case Nil
    have "(pre @ mid @ [CHR 0x00])[length pre := CHR 0x00] = pre @ CHR 0x00 # tl (mid @ [CHR 0x00])"
      using write_middle [of "mid @ [CHR 0x00]" pre "[]"] by simp
    then show ?thesis using Nil
      by (subst keep2f_loop.simps) (simp add: nth_append keep2f_result_def)
  next
    case (Cons c t)
    have c: "c \<noteq> CHR 0x00" "cstring t" using less.prems Cons by auto
    let ?b = "pre @ mid @ c # t @ [CHR 0x00]" and ?y = "length pre + length mid"
    note reads = buffer_reads [where y = ?y and pre = pre and mid = mid and c = c and t = t, OF refl]
    have wr: "?b[length pre := v] = (pre @ [v]) @ tl (mid @ [c]) @ t @ [CHR 0x00]"
      "length (pre @ [v]) + length (tl (mid @ [c])) = ?y + 1" "length (pre @ [v]) = length pre + 1" for v
      using write_middle [of "mid @ [c]" pre "t @ [CHR 0x00]" v] by auto
    have goal: "?thesis \<longleftrightarrow> keep2f_result d2f pre be bp (c # t) (keep2f_loop d2f ?b (length pre) ?y be bp)"
      using Cons by simp
    have one: ?thesis
      if step: "keep2f_loop d2f ?b (length pre) ?y be bp
          = keep2f_loop d2f (?b[length pre := v]) (length pre + 1) (?y + 1) be' bp'"
        and ok: "(be' \<or> bad_escape t) = (be \<or> bad_escape (c # t))"
          "(bp' \<or> has_escape (\<lambda>c. c = CHR 0x00) t) = (bp \<or> has_escape (\<lambda>c. c = CHR 0x00) (c # t))"
          "\<not> has_escape (\<lambda>c. c = CHR 0x00) (c # t) \<Longrightarrow> \<not> has_escape (\<lambda>c. c = CHR 0x00) t
            \<and> url_decode (keep2f d2f) (c # t) = v # url_decode (keep2f d2f) t"
      for v be' bp'
    proof -
      have "keep2f_loop d2f (?b[length pre := v]) (length pre + 1) (?y + 1) be' bp'
          = keep2f_loop d2f ((pre @ [v]) @ tl (mid @ [c]) @ t @ [CHR 0x00]) (length (pre @ [v]))
              (length (pre @ [v]) + length (tl (mid @ [c]))) be' bp'"
        unfolding wr(1,2) unfolding wr(3) ..
      then have "keep2f_result d2f (pre @ [v]) be' bp' t (keep2f_loop d2f ?b (length pre) ?y be bp)"
        unfolding step by (simp only:) (rule less.hyps, use Cons c in auto)
      then show ?thesis unfolding goal by (rule keep2f_result_extend) (fact ok)+
    qed
    let ?d = "escaped_char t"
    consider "\<not> (c = percent \<and> hex2 t)" | "c = percent" "hex2 t" "?d = CHR 0x00"
      | "c = percent" "hex2 t" "?d \<noteq> CHR 0x00" "keep2f d2f ?d"
      | "c = percent" "hex2 t" "?d \<noteq> CHR 0x00" "\<not> keep2f d2f ?d" by blast
    then show ?thesis
    proof cases
      case 1
      have "keep2f_loop d2f ?b (length pre) ?y be bp
          = keep2f_loop d2f (?b[length pre := c]) (length pre + 1) (?y + 1) (be \<or> c = percent) bp"
        by (rule keep2f_steps(2)) (use 1 c(1) in \<open>auto simp only: reads\<close>)
      then show ?thesis using 1 by (intro one [of c "be \<or> c = percent" bp]) auto
    next
      case 2
      have "?b ! length pre = hd (mid @ [c])" by (cases mid) (auto simp: nth_append)
      then have same: "?b[length pre := hd (mid @ [c])] = ?b" by (metis list_update_id)
      have "keep2f_loop d2f ?b (length pre) ?y be bp
          = keep2f_loop d2f (?b[length pre := hd (mid @ [c])]) (length pre + 1) (?y + 1) be True"
        unfolding same by (rule keep2f_steps(3)) (use 2 reads in metis)+
      then show ?thesis using 2 by (intro one [of "hd (mid @ [c])" be True]) auto
    next
      case 3
      have "keep2f_loop d2f ?b (length pre) ?y be bp
          = keep2f_loop d2f (?b[length pre := c]) (length pre + 1) (?y + 1) be bp"
        by (rule keep2f_steps(1) [where h = True and d = ?d]) (use 3 c(1) reads in \<open>auto simp only: keep2f_def\<close>)
      then show ?thesis using 3 by (intro one [of c be bp]) auto
    next
      case 4
      obtain a b u where u: "t = a # b # u" and ab: "a \<noteq> percent" "b \<noteq> percent"
        using hex2_cases [of t] 4 by auto
      let ?m = "tl (mid @ [c, a, b])"
      have w: "?b[length pre := ?d] = (pre @ [?d]) @ ?m @ u @ [CHR 0x00]"
        "length (pre @ [?d]) + length ?m = ?y + 3" "length (pre @ [?d]) = length pre + 1"
        using write_middle [of "mid @ [c, a, b]" pre "u @ [CHR 0x00]" ?d] u by auto
      have "keep2f_loop d2f ?b (length pre) ?y be bp
          = keep2f_loop d2f (?b[length pre := ?d]) (length pre + 1) (?y + 3) be bp"
        by (rule keep2f_steps(4)) (use 4 reads keep2f_def in metis)+
      also have "\<dots> = keep2f_loop d2f ((pre @ [?d]) @ ?m @ u @ [CHR 0x00]) (length (pre @ [?d]))
          (length (pre @ [?d]) + length ?m) be bp"
        unfolding w(1,2) unfolding w(3) ..
      finally have "keep2f_result d2f (pre @ [?d]) be bp u (keep2f_loop d2f ?b (length pre) ?y be bp)"
        by (simp only:) (rule less.hyps, use Cons c u in auto)
      then show ?thesis unfolding goal
        by (rule keep2f_result_extend) (use 4 u ab in \<open>auto simp: hex2_Cons2\<close>)
    qed
  qed
qed

lemma c_str_append: "cstring u \<Longrightarrow> c_str (u @ CHR 0x00 # junk) = u"
  by (auto simp: c_str_def cstring_def takeWhile_append)

lemma url_decode_plain:
  "percent \<notin> set u \<Longrightarrow> url_decode keep (u @ s) = u @ url_decode keep s"
  "percent \<notin> set u \<Longrightarrow> bad_escape (u @ s) = bad_escape s"
  "percent \<notin> set u \<Longrightarrow> has_escape P (u @ s) = has_escape P s"
  by (induction u) auto

lemma url_decode_cstring:
  "cstring s \<Longrightarrow> \<not> has_escape (\<lambda>c. c = CHR 0x00) s \<Longrightarrow> cstring (url_decode keep s)"
proof (induction keep s rule: url_decode.induct)
  case (2 keep c s)
  then show ?case using escape_drop2(2) [of s "\<lambda>c. c = CHR 0x00"] by (auto intro: cstring_drop)
qed simp

lemma has_escape_mono: "has_escape P s \<Longrightarrow> (\<And>c. P c \<Longrightarrow> Q c) \<Longrightarrow> has_escape Q s"
  by (induction s) auto

lemma has_escape_disj: "has_escape (\<lambda>c. P c \<or> Q c) s \<longleftrightarrow> has_escape P s \<or> has_escape Q s"
  by (induction s) auto

lemma unescape_url_spec:
  assumes "cstring url"
  shows "snd (ap_unescape_url url)
      = url_status (bad_escape url) (has_escape (\<lambda>c. is_slash c \<or> c = CHR 0x00) url)"
    and "\<not> has_escape (\<lambda>c. c = CHR 0x00) url \<Longrightarrow>
      fst (ap_unescape_url url) = url_decode (\<lambda>_. False) url"
proof -
  let ?u = "takeWhile (\<lambda>c. c \<noteq> percent) url" and ?s = "dropWhile (\<lambda>c. c \<noteq> percent) url"
  have u: "percent \<notin> set ?u" by (auto dest: set_takeWhileD)
  have split: "?u @ ?s = url" by simp
  have cs: "cstring ?s" using assms split cstring_simps(3) by metis
  have pl: "bad_escape url = bad_escape ?s" "has_escape P url = has_escape P ?s"
    "url_decode k url = ?u @ url_decode k ?s" for P k
    using url_decode_plain(1,3) [OF u, of _ ?s] url_decode_plain(2) [OF u, of ?s]
    unfolding split by auto
  have buf: "url @ [CHR 0x00] = ?u @ [] @ ?s @ [CHR 0x00]" by simp
  have noesc: "\<not> bad_escape url \<and> \<not> has_escape P url \<and> url_decode k url = url" if "percent \<notin> set url" for P k
    using url_decode_plain(2) [OF that, of "[]"] url_decode_plain(1) [OF that, of k "[]"]
      url_decode_plain(3) [OF that, of P "[]"] by simp
  obtain junk where loop: "unescape_url_loop (url @ [CHR 0x00]) (length ?u) (length ?u) False False
      = (?u @ url_decode (\<lambda>_. False) ?s @ CHR 0x00 # junk, bad_escape ?s,
         has_escape (\<lambda>c. is_slash c \<or> c = CHR 0x00) ?s)"
    using unescape_loop_decodes [OF cs, of ?u "[]" False False] unfolding buf by auto
  show "snd (ap_unescape_url url)
      = url_status (bad_escape url) (has_escape (\<lambda>c. is_slash c \<or> c = CHR 0x00) url)"
    using noesc loop pl by (auto simp: ap_unescape_url_def url_status_def Let_def)
  show "fst (ap_unescape_url url) = url_decode (\<lambda>_. False) url"
    if nul: "\<not> has_escape (\<lambda>c. c = CHR 0x00) url"
  proof (cases "percent \<in> set url")
    case True
    have "fst (ap_unescape_url url) = c_str (?u @ url_decode (\<lambda>_. False) ?s @ CHR 0x00 # junk)"
      using True loop by (simp add: ap_unescape_url_def Let_def)
    also have "?u @ url_decode (\<lambda>_. False) ?s @ CHR 0x00 # junk
        = url_decode (\<lambda>_. False) url @ CHR 0x00 # junk" using pl by simp
    finally show ?thesis using url_decode_cstring [OF assms nul] c_str_append by simp
  qed (use noesc in \<open>simp add: ap_unescape_url_def\<close>)
qed

lemma keep2f_spec:
  assumes "cstring url"
  shows "snd (ap_unescape_url_keep2f_ex url d2f)
      = url_status (bad_escape url) (has_escape (\<lambda>c. c = CHR 0x00) url)"
    and "\<not> has_escape (\<lambda>c. c = CHR 0x00) url \<Longrightarrow>
      fst (ap_unescape_url_keep2f_ex url d2f) = url_decode (keep2f d2f) url"
proof -
  let ?u = "takeWhile (\<lambda>c. c \<noteq> percent) url" and ?s = "dropWhile (\<lambda>c. c \<noteq> percent) url"
  have u: "percent \<notin> set ?u" by (auto dest: set_takeWhileD)
  have split: "?u @ ?s = url" by simp
  have cs: "cstring ?s" using assms split cstring_simps(3) by metis
  have pl: "bad_escape url = bad_escape ?s" "has_escape P url = has_escape P ?s"
    "url_decode k url = ?u @ url_decode k ?s" for P k
    using url_decode_plain(1,3) [OF u, of _ ?s] url_decode_plain(2) [OF u, of ?s]
    unfolding split by auto
  have buf: "url @ [CHR 0x00] = ?u @ [] @ ?s @ [CHR 0x00]" by simp
  have noesc: "\<not> bad_escape url \<and> \<not> has_escape P url \<and> url_decode k url = url" if "percent \<notin> set url" for P k
    using url_decode_plain(2) [OF that, of "[]"] url_decode_plain(1) [OF that, of k "[]"]
      url_decode_plain(3) [OF that, of P "[]"] by simp
  obtain out junk where loop: "keep2f_loop d2f (url @ [CHR 0x00]) (length ?u) (length ?u) False False
      = (?u @ out @ CHR 0x00 # junk, bad_escape ?s, has_escape (\<lambda>c. c = CHR 0x00) ?s)"
    and out: "\<not> has_escape (\<lambda>c. c = CHR 0x00) ?s \<longrightarrow> out = url_decode (keep2f d2f) ?s"
    using keep2f_loop_decodes [OF cs, of d2f ?u False False "[]"] unfolding buf keep2f_result_def by auto
  show "snd (ap_unescape_url_keep2f_ex url d2f)
      = url_status (bad_escape url) (has_escape (\<lambda>c. c = CHR 0x00) url)"
    using noesc loop pl(1,2) by (auto simp: ap_unescape_url_keep2f_ex_def url_status_def Let_def)
  show "fst (ap_unescape_url_keep2f_ex url d2f) = url_decode (keep2f d2f) url"
    if nul: "\<not> has_escape (\<lambda>c. c = CHR 0x00) url"
  proof (cases "percent \<in> set url")
    case True
    have "fst (ap_unescape_url_keep2f_ex url d2f) = c_str (?u @ out @ CHR 0x00 # junk)"
      using True loop by (simp add: ap_unescape_url_keep2f_ex_def Let_def)
    also have "?u @ out @ CHR 0x00 # junk = url_decode (keep2f d2f) url @ CHR 0x00 # junk"
      using pl nul out by simp
    finally show ?thesis using url_decode_cstring [OF assms nul] c_str_append by simp
  qed (use noesc in \<open>simp add: ap_unescape_url_keep2f_ex_def\<close>)
qed

section \<open>Escapes and segments\<close>

text \<open>A slash is no part of an escape, so decoding works segment by segment.\<close>

lemma hex2_slash: "hex2 (x @ slash # s) = hex2 x" "hex2 x \<Longrightarrow> escaped_char (x @ slash # s) = escaped_char x"
proof -
  have n: "hex2 (slash # s) = False" "hex2 [a] = False" "hex2 (a # slash # s) = False" for a
    by (auto simp: hex2_def)
  show "hex2 (x @ slash # s) = hex2 x"
    using n by (cases x; cases "tl x") (auto simp: hex2_def)
  show "hex2 x \<Longrightarrow> escaped_char (x @ slash # s) = escaped_char x"
    by (cases x; cases "tl x") (auto simp: hex2_def escaped_char_def)
qed

lemma url_decode_slash:
  "url_decode keep (x @ slash # s) = url_decode keep x @ slash # url_decode keep s"
proof (induction keep x rule: url_decode.induct)
  case (2 keep c x)
  have "drop 2 (x @ slash # s) = drop 2 x @ slash # s" if "hex2 x"
    using hex2_cases [OF that] by auto
  then show ?case using 2 hex2_slash [of x s] by auto
qed simp

lemma bad_has_slash:
  "bad_escape (x @ slash # s) \<longleftrightarrow> bad_escape x \<or> bad_escape s"
  "has_escape P (x @ slash # s) \<longleftrightarrow> has_escape P x \<or> has_escape P s"
  using hex2_slash by (induction x) auto

lemma url_decode_plain_segment:
  "plain x \<Longrightarrow> \<not> has_escape (\<lambda>c. is_slash c \<and> \<not> keep c) x \<Longrightarrow> plain (url_decode keep x)"
proof (induction keep x rule: url_decode.induct)
  case (2 keep c x)
  have "plain (drop 2 x)" if "hex2 x" using hex2_cases [OF that] "2.prems"(1) by auto
  then show ?case using 2 escape_drop2(2) [of x "\<lambda>c. is_slash c \<and> \<not> keep c"]
    by (auto simp: is_slash_def)
qed simp

lemma url_decode_segs:
  "\<not> has_escape (\<lambda>c. is_slash c \<and> \<not> keep c) s \<Longrightarrow> segs (url_decode keep s) = map (url_decode keep) (segs s)"
proof (induction "length s" arbitrary: s rule: less_induct)
  case less
  obtain xs y where xs: "s = dirs xs @ y" "\<forall>x \<in> set xs. plain x" "plain y" "segs s = xs @ [y]"
    using path_split [of s] by blast
  show ?case
  proof (cases xs)
    case Nil
    then show ?thesis using xs url_decode_plain_segment [of y keep] less.prems by simp
  next
    case (Cons x zs)
    let ?r = "dirs zs @ y"
    have s: "s = x @ slash # ?r" using xs(1) Cons by simp
    have px: "plain x" using xs(2) Cons by simp
    have "segs (url_decode keep ?r) = map (url_decode keep) (segs ?r)"
      by (rule less.hyps) (use less.prems bad_has_slash s in auto)
    moreover have "plain (url_decode keep x)"
      using url_decode_plain_segment [OF px] less.prems bad_has_slash(2) [of _ x ?r] s by simp
    ultimately show ?thesis
      unfolding s url_decode_slash using px segs_plain_append by simp
  qed
qed

text \<open>NUL-freedom passes from a path to its segments and back, and through ap_getparents.\<close>

lemma segs_cstring: "\<forall>x \<in> set (segs s). cstring x \<Longrightarrow> cstring s"
proof (induction s)
  case (Cons c s)
  then show ?case by (cases "segs s") (auto simp: is_slash_def split: if_splits)
qed simp

lemma cstring_segs: "cstring s \<Longrightarrow> x \<in> set (segs s) \<Longrightarrow> cstring x"
proof (induction s arbitrary: x)
  case (Cons c s)
  then show ?case by (cases "segs s") (auto split: if_splits)
qed simp

lemma norm_segs_members: "xs \<noteq> [] \<Longrightarrow> x \<in> set (norm_segs xs) \<Longrightarrow> x \<in> set xs \<or> x = []"
proof -
  assume ne: "xs \<noteq> []" and x: "x \<in> set (norm_segs xs)"
  let ?st = "walk [] (filter (\<lambda>x. x \<noteq> dot) (butlast xs))"
  have st: "y \<in> set xs" if "y \<in> set ?st" for y
    using walk_members [OF that] by (auto dest: in_set_butlastD)
  show ?thesis
    using x st last_in_set [OF ne] by (auto simp: norm_segs_def Let_def dest: in_set_butlastD split: if_splits)
qed

lemma norm_segs_cstring: "cstring s \<Longrightarrow> \<forall>x \<in> set (norm_segs (segs s)). cstring x"
  using norm_segs_members [OF segs_not_Nil] cstring_segs by fastforce

section \<open>Escaping is undone\<close>

definition escape_with :: "8 word \<Rightarrow> cstr \<Rightarrow> cstr" where
  "escape_with f s = concat (map (\<lambda>c. if TEST_CHAR c f then c2x c percent else [c]) s)"

lemma escape_with_eqs:
  "ap_escape_path_segment s = escape_with T_ESCAPE_PATH_SEGMENT s"
  "os_escape_loop s = escape_with T_OS_ESCAPE_PATH s"
  by (induction s) (auto simp: escape_with_def)

lemma escape_with_simps [simp]:
  "escape_with f [] = []"
  "escape_with f (c # s) = (if TEST_CHAR c f then c2x c percent else [c]) @ escape_with f s"
  by (auto simp: escape_with_def)

lemma c2x_hex2: "hex2 (tl (c2x c p) @ t)" "escaped_char (tl (c2x c p) @ t) = c"
  "c2x c p = p # tl (c2x c p)" "length (c2x c p) = 3" "cstring (tl (c2x c p))" "percent \<notin> set (tl (c2x c p))"
proof -
  have d: "chr_code c div 16 < 16" using chr_code_bound [of c] by (simp add: less_mult_imp_div_less)
  note h = hex_digit_cases [OF d] hex_digit_cases [of "chr_code c mod 16"]
  show "hex2 (tl (c2x c p) @ t)" using h by (simp add: c2x_split hex2_def)
  show "escaped_char (tl (c2x c p) @ t) = c" by (simp add: c2x_split escaped_char_def x2c_c2x)
  show "cstring (tl (c2x c p))" "percent \<notin> set (tl (c2x c p))" using h by (auto simp: c2x_split)
qed (simp_all add: c2x_split)

lemma escape_with_decode:
  assumes "TEST_CHAR percent f"
  shows "url_decode (\<lambda>_. False) (escape_with f s) = s" "\<not> bad_escape (escape_with f s)"
    "has_escape P (escape_with f s) \<longleftrightarrow> (\<exists>c \<in> set s. TEST_CHAR c f \<and> P c)"
    "cstring s \<Longrightarrow> cstring (escape_with f s)"
proof -
  have "url_decode (\<lambda>_. False) (escape_with f s) = s \<and> \<not> bad_escape (escape_with f s)
    \<and> (has_escape P (escape_with f s) \<longleftrightarrow> (\<exists>c \<in> set s. TEST_CHAR c f \<and> P c))
    \<and> (cstring s \<longrightarrow> cstring (escape_with f s))"
  proof (induction s)
    case (Cons c s)
    show ?case
    proof (cases "TEST_CHAR c f")
      case True
      let ?t = "escape_with f s"
      have e: "escape_with f (c # s) = percent # (tl (c2x c percent) @ ?t)"
        using True c2x_hex2(3) [of c percent] by simp
      have 2: "drop 2 (tl (c2x c percent) @ ?t) = ?t" using c2x_hex2(4) [of c percent] by simp
      note h = c2x_hex2(1,2) [of c percent ?t]
      show ?thesis
        using Cons h 2 True c2x_hex2(5) [of c percent] escape_drop2 [OF h(1)]
        unfolding e by auto
    next
      case False
      then show ?thesis using Cons assms by auto
    qed
  qed simp
  then show "url_decode (\<lambda>_. False) (escape_with f s) = s" "\<not> bad_escape (escape_with f s)"
    "has_escape P (escape_with f s) \<longleftrightarrow> (\<exists>c \<in> set s. TEST_CHAR c f \<and> P c)"
    "cstring s \<Longrightarrow> cstring (escape_with f s)" by blast+
qed

section \<open>HTML\<close>

lemma html_loop_extra:
  "length (html_loop toasc s) = length s + html_extra toasc s"
  "html_extra toasc s = 0 \<Longrightarrow> html_loop toasc s = s"
  by (induction s) (auto simp: format_3_3d_def split: if_splits)

lemma escape_html_loop: "ap_escape_html2 s toasc = html_loop toasc s"
  by (simp add: ap_escape_html2_def html_loop_extra(2))

text \<open>The reader of escaped text: the five forms the function writes.\<close>

definition digit_val :: "char \<Rightarrow> nat" where
  "digit_val c = chr_code c - 48"

function html_read :: "cstr \<Rightarrow> cstr" where
  "html_read [] = []"
| "html_read (c # s) =
     (if c \<noteq> CHR ''&'' then c # html_read s
      else if take 3 s = ''lt;'' then CHR ''<'' # html_read (drop 3 s)
      else if take 3 s = ''gt;'' then CHR ''>'' # html_read (drop 3 s)
      else if take 4 s = ''amp;'' then CHR ''&'' # html_read (drop 4 s)
      else if take 5 s = ''quot;'' then CHR 0x22 # html_read (drop 5 s)
      else if take 1 s = ''#'' \<and> length s \<ge> 5 then
        char_of (digit_val (s ! 1) * 100 + digit_val (s ! 2) * 10 + digit_val (s ! 3)) # html_read (drop 5 s)
      else c # html_read s)"
  by pat_completeness auto
termination
  by (relation "measure length") auto

lemma digit_val_char: "n < 10 \<Longrightarrow> digit_val (digit_char n) = n"
  by (simp add: digit_val_def digit_char_def)

lemma digit_char_plain:
  assumes "n < 10"
  shows "apr_isascii (digit_char n) \<and> digit_char n \<notin> {CHR ''<'', CHR ''>'', CHR 0x22, CHR ''&''}"
proof -
  have "chr_code (digit_char n) = 48 + n" using assms by (simp add: digit_char_def)
  then show ?thesis using assms by (auto simp: apr_isascii_def)
qed

lemma format_3_3d_read:
  assumes "n < 256"
  shows "digit_val (format_3_3d n ! 0) * 100 + digit_val (format_3_3d n ! 1) * 10
    + digit_val (format_3_3d n ! 2) = n"
proof -
  have "n div 100 < 10" using assms by linarith
  moreover have "n div 100 * 100 + n div 10 mod 10 * 10 + n mod 10 = n"
  proof -
    have "n div 100 = n div 10 div 10" by (simp add: div_mult2_eq [symmetric])
    moreover have "n div 10 div 10 * 10 + n div 10 mod 10 = n div 10" "n div 10 * 10 + n mod 10 = n"
      by (rule div_mult_mod_eq)+
    ultimately show ?thesis by linarith
  qed
  ultimately show ?thesis by (simp add: format_3_3d_def digit_val_char)
qed

lemma html_read_loop: "html_read (html_loop toasc s) = s"
proof (induction s)
  case (Cons c s)
  show ?case
  proof (cases "toasc \<and> \<not> apr_isascii c \<and> c \<notin> {CHR ''<'', CHR ''>'', CHR 0x22, CHR ''&''}")
    case True
    have "html_loop toasc (c # s) = CHR ''&'' # CHR ''#'' # format_3_3d (chr_code c) @ CHR '';'' # html_loop toasc s"
      using True by simp
    then show ?thesis using Cons format_3_3d_read [of "chr_code c"]
      by (simp add: format_3_3d_def)
  next
    case False
    then show ?thesis using Cons by auto
  qed
qed simp

lemma html_loop_chars:
  "c \<in> set (html_loop toasc s) \<Longrightarrow> c \<noteq> CHR ''<'' \<and> c \<noteq> CHR ''>'' \<and> c \<noteq> CHR 0x22 \<and> (toasc \<longrightarrow> apr_isascii c)"
proof (induction s)
  case (Cons d s)
  have "n mod 10 < 10" for n :: nat by simp
  moreover have "chr_code d div 100 < 10" using chr_code_bound [of d] by linarith
  ultimately have dg: "\<forall>x \<in> set (format_3_3d (chr_code d)). apr_isascii x
      \<and> x \<notin> {CHR ''<'', CHR ''>'', CHR 0x22, CHR ''&''}"
    using digit_char_plain by (simp add: format_3_3d_def)
  let ?ok = "\<lambda>x. x \<noteq> CHR ''<'' \<and> x \<noteq> CHR ''>'' \<and> x \<noteq> CHR 0x22 \<and> (toasc \<longrightarrow> apr_isascii x)"
  have "\<forall>x \<in> set (if d = CHR ''<'' then ''&lt;'' else if d = CHR ''>'' then ''&gt;''
      else if d = CHR ''&'' then ''&amp;'' else if d = CHR 0x22 then ''&quot;''
      else if toasc \<and> \<not> apr_isascii d then ''&#'' @ format_3_3d (chr_code d) @ '';'' else [d]). ?ok x"
    (is "\<forall>x \<in> set ?e. ?ok x")
  proof -
    consider "d \<in> {CHR ''<'', CHR ''>'', CHR ''&'', CHR 0x22}"
      | "d \<notin> {CHR ''<'', CHR ''>'', CHR ''&'', CHR 0x22}" "toasc \<and> \<not> apr_isascii d"
      | "d \<notin> {CHR ''<'', CHR ''>'', CHR ''&'', CHR 0x22}" "\<not> (toasc \<and> \<not> apr_isascii d)" by blast
    then show ?thesis
    proof cases
      case 1
      then show ?thesis by (auto simp: apr_isascii_def)
    next
      case 2
      then have "?e = ''&#'' @ format_3_3d (chr_code d) @ '';''" by simp
      then show ?thesis using dg by (auto simp: apr_isascii_def)
    next
      case 3
      then have "?e = [d]" by simp
      then show ?thesis using 3 by auto
    qed
  qed
  moreover have "c \<in> set ?e \<or> c \<in> set (html_loop toasc s)" using Cons.prems by (simp only: html_loop.simps set_append Un_iff)
  ultimately show ?case using Cons.IH by blast
qed simp

section \<open>The logs\<close>

definition log_escape :: "bool \<Rightarrow> char \<Rightarrow> cstr" where
  "log_escape quotes c =
     (if TEST_CHAR c T_ESCAPE_LOGITEM then
        case log_letter c of
          Some l \<Rightarrow> [bslash, l]
        | None \<Rightarrow> if c = bslash \<or> (c = CHR 0x22 \<and> quotes) then [bslash, c]
            else if c = CHR 0x22 then [c] else bslash # c2x c CHR ''x''
      else [c])"

lemma escape_logitem_concat: "ap_escape_logitem s = concat (map (log_escape True) s)"
  by (induction s) (auto simp: log_escape_def split: option.splits)

text \<open>The reader of a log item.\<close>

definition log_unletter :: "char \<Rightarrow> char" where
  "log_unletter l =
     (if l = CHR ''b'' then CHR 0x08 else if l = CHR ''n'' then CHR 0x0A
      else if l = CHR ''r'' then CHR 0x0D else if l = CHR ''t'' then CHR 0x09
      else if l = CHR ''v'' then CHR 0x0B else l)"

function log_read :: "cstr \<Rightarrow> cstr" where
  "log_read [] = []"
| "log_read (c # s) =
     (if c \<noteq> bslash \<or> s = [] then c # log_read s
      else if hd s = CHR ''x'' \<and> length s \<ge> 3 then x2c (s ! 1) (s ! 2) # log_read (drop 3 s)
      else log_unletter (hd s) # log_read (tl s))"
  by pat_completeness auto
termination
  by (relation "measure length") auto

lemma log_letter_unletter: "log_letter c = Some l \<Longrightarrow> log_unletter l = c \<and> l \<noteq> CHR ''x''"
  by (auto simp: log_letter_def log_unletter_def split: if_splits)

lemma log_read_escape:
  assumes "c \<noteq> CHR 0x00"
  shows "log_read (log_escape quotes c @ s) = c # log_read s"
proof (cases "TEST_CHAR c T_ESCAPE_LOGITEM")
  case True
  show ?thesis
  proof (cases "log_letter c")
    case None
    show ?thesis
    proof (cases "c = bslash \<or> c = CHR 0x22")
      case True
      then show ?thesis using \<open>TEST_CHAR c T_ESCAPE_LOGITEM\<close>
        by (auto simp: log_escape_def log_letter_def log_unletter_def)
    next
      case False
      then show ?thesis using None True x2c_c2x [of c] by (simp add: log_escape_def c2x_split)
    qed
  next
    case (Some l)
    then show ?thesis using True log_letter_unletter [OF Some] by (simp add: log_escape_def)
  qed
next
  case False
  then have "c \<noteq> bslash" using assms by (auto simp: test_char_simps)
  then show ?thesis using False by (simp add: log_escape_def)
qed

lemma log_read_escapes: "cstring s \<Longrightarrow> log_read (concat (map (log_escape quotes) s)) = s"
  by (induction s) (auto simp: log_read_escape)

lemma log_escape_chars:
  assumes "c \<noteq> CHR 0x00" "x \<in> set (log_escape quotes c)"
  shows "apr_isprint x"
proof -
  have "\<forall>n \<in> set [0..<16]. apr_isprint (c2x_table ! n)"
    by (simp add: c2x_table_def ctype_simps upt_rec)
  then have hex: "apr_isprint (c2x_table ! n)" if "n < 16" for n using that by simp
  have "chr_code c div 16 < 16" using chr_code_bound [of c] by (simp add: less_mult_imp_div_less)
  then have "apr_isprint x" if "x \<in> set (c2x c CHR ''x'')"
    using that hex by (auto simp: c2x_split) (simp_all add: apr_isprint_def)
  moreover have "apr_isprint bslash" "apr_isprint CHR 0x22" by (simp_all add: apr_isprint_def)
  moreover have "apr_isprint l" if "log_letter c = Some l" for l
    using that by (simp add: log_letter_def apr_isprint_def split: if_splits) auto
  moreover have "\<not> TEST_CHAR c T_ESCAPE_LOGITEM \<Longrightarrow> apr_isprint c"
    using assms(1) by (simp add: test_char_simps)
  ultimately show ?thesis
    using assms(2) unfolding log_escape_def by (cases "log_letter c") (auto split: if_split_asm)
qed

lemma log_escape_length: "1 \<le> length (log_escape quotes c) \<and> length (log_escape quotes c) \<le> 4"
  by (auto simp: log_escape_def c2x_def split: option.splits)

text \<open>
  The bounded writer takes whole escapes of its input while they fit, and
  drops the rest.
\<close>

lemma errorlog_loop_Cons:
  "errorlog_loop ep out (c # s) =
     (if length out < ep \<and> (TEST_CHAR c T_ESCAPE_LOGITEM \<longrightarrow> length out + 1 < ep)
         \<and> (length (log_escape False c) = 4 \<longrightarrow> length out + 3 < ep)
      then errorlog_loop ep (out @ log_escape False c) s else out)"
proof -
  consider "\<not> TEST_CHAR c T_ESCAPE_LOGITEM" | l where "TEST_CHAR c T_ESCAPE_LOGITEM" "log_letter c = Some l"
    | "TEST_CHAR c T_ESCAPE_LOGITEM" "log_letter c = None" "c = bslash"
    | "TEST_CHAR c T_ESCAPE_LOGITEM" "log_letter c = None" "c \<noteq> bslash" "c = CHR 0x22"
    | "TEST_CHAR c T_ESCAPE_LOGITEM" "log_letter c = None" "c \<noteq> bslash" "c \<noteq> CHR 0x22"
    by (cases "log_letter c") blast+
  then show ?thesis
  proof cases
    case 1
    then have e: "log_escape False c = [c]" by (simp add: log_escape_def)
    show ?thesis using 1 unfolding e by simp
  next
    case (2 l)
    then have e: "log_escape False c = [bslash, l]" by (simp add: log_escape_def)
    show ?thesis using 2 unfolding e by simp
  next
    case 3
    then have e: "log_escape False c = [bslash, c]" by (simp add: log_escape_def)
    show ?thesis unfolding e using 3(1,2) by (simp add: 3(3))
  next
    case 4
    then have e: "log_escape False c = [c]" by (simp add: log_escape_def)
    show ?thesis unfolding e using 4(1,2) by (simp add: 4(4))
  next
    case 5
    then have e: "log_escape False c = bslash # c2x c CHR ''x''" by (simp add: log_escape_def)
    have "length (log_escape False c) = 4" unfolding e by (simp add: c2x_def)
    then show ?thesis using 5 by (simp add: e)
  qed
qed

lemma log_escape_flag:
  "\<not> TEST_CHAR c T_ESCAPE_LOGITEM \<Longrightarrow> length (log_escape quotes c) = 1"
  "length (log_escape quotes c) = 1 \<or> length (log_escape quotes c) = 2 \<or> length (log_escape quotes c) = 4"
  by (auto simp: log_escape_def c2x_def split: option.splits)

lemma errorlog_loop_escapes:
  assumes "length out \<le> ep"
  shows "\<exists>k. errorlog_loop ep out s = out @ concat (map (log_escape False) (take k s))
    \<and> length (errorlog_loop ep out s) \<le> ep
    \<and> (length out + length (concat (map (log_escape False) s)) < ep \<longrightarrow> k = length s)"
  using assms
proof (induction s arbitrary: out)
  case Nil
  then show ?case by simp
next
  case (Cons c s)
  define fits where "fits \<longleftrightarrow> length out < ep \<and> (TEST_CHAR c T_ESCAPE_LOGITEM \<longrightarrow> length out + 1 < ep)
    \<and> (length (log_escape False c) = 4 \<longrightarrow> length out + 3 < ep)"
  have step: "errorlog_loop ep out (c # s)
      = (if fits then errorlog_loop ep (out @ log_escape False c) s else out)"
    unfolding fits_def by (rule errorlog_loop_Cons)
  show ?case
  proof (cases fits)
    case True
    then have "length (out @ log_escape False c) \<le> ep"
      using log_escape_flag [where c = c and quotes = False] unfolding fits_def length_append by linarith
    then obtain k where k: "errorlog_loop ep (out @ log_escape False c) s
        = (out @ log_escape False c) @ concat (map (log_escape False) (take k s))"
      "length (errorlog_loop ep (out @ log_escape False c) s) \<le> ep"
      "length (out @ log_escape False c) + length (concat (map (log_escape False) s)) < ep \<longrightarrow> k = length s"
      using Cons.IH [of "out @ log_escape False c"] by blast
    then show ?thesis unfolding step if_P [OF True] by (intro exI [of _ "Suc k"]) simp
  next
    case False
    then have "\<not> length out + length (log_escape False c) < ep"
      using log_escape_flag [where c = c and quotes = False] unfolding fits_def by linarith
    then show ?thesis using Cons.prems unfolding step if_not_P [OF False] by (intro exI [of _ 0]) simp
  qed
qed

section \<open>Properties\<close>

text \<open>
  C27. A request path that is accepted cannot climb: with %-escapes decoded
  once and dot segments removed afterwards, no segment of the result is a dot
  or a double dot and no NUL is in it, whatever the path and the settings for
  encoded slashes. Unless encoded slashes are both allowed and decoded, the
  segments are those of the escaped path, decoded one by one: an encoded
  slash never separates segments.
\<close>

theorem request_path_safe:
  assumes "cstring path" and "process_request_path allow decode2f path = Inr uri"
  shows "''.'' \<notin> set (segs uri) \<and> ''..'' \<notin> set (segs uri) \<and> cstring uri
    \<and> (\<not> (allow \<and> decode2f) \<longrightarrow>
        segs uri = norm_segs (map (url_decode (\<lambda>c. allow \<and> is_slash c)) (segs path)))"
proof -
  let ?keep = "\<lambda>c. allow \<and> keep2f decode2f c"
  have keep: "keep2f decode2f = ?keep" if allow using that by auto
  have none: "?keep = (\<lambda>_. False)" if "\<not> allow" using that by auto
  obtain decoded where uri: "uri = ap_getparents decoded"
    and t: "decoded = url_decode ?keep path" "\<not> has_escape (\<lambda>c. c = CHR 0x00) path"
      "\<not> allow \<longrightarrow> \<not> has_escape is_slash path"
  proof (cases allow)
    case True
    then have "snd (ap_unescape_url_keep2f_ex path decode2f) = OK"
        "uri = ap_getparents (fst (ap_unescape_url_keep2f_ex path decode2f))"
      using assms(2) by (auto simp: process_request_path_def split: prod.splits if_splits)
    then show ?thesis using keep2f_spec [OF assms(1), of decode2f] True keep that
      by (auto simp: url_status_def split: if_splits)
  next
    case False
    then have ok: "snd (ap_unescape_url path) = OK" "uri = ap_getparents (fst (ap_unescape_url path))"
      using assms(2) by (auto simp: process_request_path_def split: prod.splits if_splits)
    then have no: "\<not> has_escape (\<lambda>c. is_slash c \<or> c = CHR 0x00) path"
      using unescape_url_spec(1) [OF assms(1)] by (auto simp: url_status_def split: if_splits)
    then have "\<not> has_escape (\<lambda>c. c = CHR 0x00) path" "\<not> has_escape is_slash path"
      using has_escape_disj [of is_slash "\<lambda>c. c = CHR 0x00" path] by simp_all
    then show ?thesis using unescape_url_spec(2) [OF assms(1)] ok(2) none [OF False] that by simp
  qed
  have "cstring decoded" using url_decode_cstring [OF assms(1) t(2)] t(1) by simp
  then have "\<forall>x \<in> set (segs uri). cstring x"
    unfolding uri getparents_segs by (rule norm_segs_cstring)
  then have "cstring uri" by (rule segs_cstring)
  moreover have "segs uri = norm_segs (map (url_decode (\<lambda>c. allow \<and> is_slash c)) (segs path))"
    if "\<not> (allow \<and> decode2f)"
  proof -
    have k: "?keep = (\<lambda>c. allow \<and> is_slash c)" using that by (auto simp: keep2f_def)
    have "\<not> has_escape (\<lambda>c. is_slash c \<and> \<not> (allow \<and> is_slash c)) path"
      using t(3) has_escape_mono [of "\<lambda>c. is_slash c \<and> \<not> (allow \<and> is_slash c)" path is_slash]
        has_escape_mono [of "\<lambda>c. is_slash c \<and> \<not> (allow \<and> is_slash c)" path "\<lambda>c. c = CHR 0x00"] t(2)
      by (cases allow) auto
    then show ?thesis using url_decode_segs unfolding uri t(1) k getparents_segs by metis
  qed
  ultimately show ?thesis
    using norm_segs_clean [of "segs decoded"] unfolding uri getparents_segs by (simp add: dot_def dotdot_def)
qed

theorem request_path_safe_witness:
  "process_request_path False False ''/a/%2e%2e/b'' = Inr ''/b'' \<and> ''..'' \<notin> set (segs ''/b'')"
proof -
  have "process_request_path False False ''/a/%2e%2e/b'' = Inr ''/b''"
    by code_simp
  moreover have "cstring ''/a/%2e%2e/b''" by simp
  ultimately show ?thesis using request_path_safe [of "''/a/%2e%2e/b''" False False "''/b''"] by blast
qed

text \<open>
  C33. Escaping is undone by unescaping: a path that ap_os_escape_path has
  escaped is accepted by ap_unescape_url, which gives the path back (behind a
  dot-slash, where that was put in front), and so is a path segment that
  ap_escape_path_segment has escaped, unless it holds a slash, when the text
  comes back with status 404.
\<close>

theorem url_escape_roundtrip:
  assumes "cstring s"
  shows "\<exists>prefix. prefix \<in> {'''', ''./''} \<and> (partial \<longrightarrow> prefix = '''')
      \<and> ap_unescape_url (ap_os_escape_path s partial) = (prefix @ s, OK)
    \<and> ap_unescape_url (ap_escape_path_segment s) = (s, if slash \<in> set s then HTTP_NOT_FOUND else OK)"
proof -
  have t: "TEST_CHAR percent T_OS_ESCAPE_PATH" "TEST_CHAR percent T_ESCAPE_PATH_SEGMENT"
    by (simp_all add: test_char_simps path_chars_def segment_chars_def ctype_simps)
  have nul: "\<not> TEST_CHAR CHR 0x00 T_OS_ESCAPE_PATH" "\<not> TEST_CHAR CHR 0x00 T_ESCAPE_PATH_SEGMENT"
    "\<not> TEST_CHAR slash T_OS_ESCAPE_PATH" "TEST_CHAR slash T_ESCAPE_PATH_SEGMENT"
    by (simp_all add: test_char_simps path_chars_def segment_chars_def ctype_simps)
  note os = escape_with_decode [OF t(1), where s = s] and sg = escape_with_decode [OF t(2), where s = s]
  have sl: "(\<exists>c \<in> set s. TEST_CHAR c T_ESCAPE_PATH_SEGMENT \<and> (is_slash c \<or> c = CHR 0x00)) \<longleftrightarrow> slash \<in> set s"
    using nul by (auto simp: is_slash_def)
  have seg: "ap_unescape_url (ap_escape_path_segment s) = (s, if slash \<in> set s then HTTP_NOT_FOUND else OK)"
  proof (rule prod_eqI)
    show "fst (ap_unescape_url (ap_escape_path_segment s)) = fst (s, if slash \<in> set s then HTTP_NOT_FOUND else OK)"
      using unescape_url_spec(2) [OF sg(4) [OF assms]] sg(1,3) nul(2) by (auto simp: escape_with_eqs)
    show "snd (ap_unescape_url (ap_escape_path_segment s)) = snd (s, if slash \<in> set s then HTTP_NOT_FOUND else OK)"
      unfolding escape_with_eqs unescape_url_spec(1) [OF sg(4) [OF assms]] sg(3) sl
      using sg(2) by (simp add: url_status_def)
  qed
  define prefix where "prefix = (let colon = index_of s CHR '':''; sl = index_of s slash
    in if \<not> partial \<and> colon \<noteq> None \<and> (sl = None \<or> the colon < the sl) then ''./'' else [])"
  have p: "prefix \<in> {'''', ''./''}" "partial \<longrightarrow> prefix = ''''"
    "ap_os_escape_path s partial = prefix @ escape_with T_OS_ESCAPE_PATH s"
    by (simp_all add: prefix_def ap_os_escape_path_def escape_with_eqs Let_def)
  have np: "percent \<notin> set prefix" "cstring prefix" using p(1) by auto
  let ?e = "prefix @ escape_with T_OS_ESCAPE_PATH s"
  have e: "cstring ?e" "\<not> bad_escape ?e" "url_decode (\<lambda>_. False) ?e = prefix @ s"
    "has_escape P ?e \<longleftrightarrow> (\<exists>c \<in> set s. TEST_CHAR c T_OS_ESCAPE_PATH \<and> P c)" for P
    using np os assms url_decode_plain [OF np(1)] by auto
  have no: "\<not> has_escape (\<lambda>c. is_slash c \<or> c = CHR 0x00) ?e" "\<not> has_escape (\<lambda>c. c = CHR 0x00) ?e"
    unfolding e(4) using nul by (auto simp: is_slash_def)
  have "ap_unescape_url (ap_os_escape_path s partial) = (prefix @ s, OK)"
    unfolding p(3) using unescape_url_spec [OF e(1)] e(2,3) no by (intro prod_eqI) (simp_all add: url_status_def)
  then show ?thesis using p(1,2) seg by blast
qed

theorem url_escape_roundtrip_witness:
  "ap_unescape_url (ap_escape_path_segment ''a b%'') = (''a b%'', OK)"
  using url_escape_roundtrip [of "''a b%''" True] by simp

text \<open>
  Escaped HTML is safe and readable: no angle bracket and no double quote
  is left in it (and with toasc no character outside ASCII), reading its
  entities gives the text back, and its length is what the counting pass
  allocated.
\<close>

theorem escape_html_safe:
  "html_read (ap_escape_html2 s toasc) = s
   \<and> length (ap_escape_html2 s toasc) = length s + html_extra toasc s
   \<and> set (ap_escape_html2 s toasc) \<inter> {CHR ''<'', CHR ''>'', CHR 0x22} = {}
   \<and> (set (ap_escape_html2 s True)) \<subseteq> {c. apr_isascii c}"
  using html_loop_chars html_read_loop html_loop_extra(1) by (auto simp: escape_html_loop)

text \<open>
  Log items hold printable ASCII only and can be read back, in four bytes
  per character at most; the bounded writer for the error log never writes
  more than the buffer holds, always ends with NUL, returns the length, writes
  the escapes of the beginning of its text, and all of it when the buffer has
  two bytes more than they take.
\<close>

theorem escape_log_items:
  assumes "cstring s"
  shows "log_read (ap_escape_logitem s) = s \<and> set (ap_escape_logitem s) \<subseteq> {c. apr_isprint c}
    \<and> length (ap_escape_logitem s) \<le> 4 * length s
    \<and> (0 < buflen \<longrightarrow> (\<exists>k w. ap_escape_errorlog_item (Some s) buflen = (w @ [CHR 0x00], length w)
        \<and> length w < buflen \<and> set w \<subseteq> {c. apr_isprint c} \<and> log_read w = take k s
        \<and> (length (concat (map (log_escape False) s)) + 2 \<le> buflen \<longrightarrow> k = length s)))"
proof -
  have len: "length (concat (map (log_escape q) s)) \<le> 4 * length s" for q
  proof (induction s)
    case (Cons c s)
    then show ?case using log_escape_length [of q c] by simp
  qed simp
  have pr: "set (concat (map (log_escape q) t)) \<subseteq> {c. apr_isprint c}" if "cstring t" for q t
  proof
    fix x assume "x \<in> set (concat (map (log_escape q) t))"
    then obtain c where "c \<in> set t" "x \<in> set (log_escape q c)" by auto
    moreover from this have "c \<noteq> CHR 0x00" using that unfolding cstring_def by metis
    ultimately show "x \<in> {c. apr_isprint c}" using log_escape_chars by simp
  qed
  have bounded: "\<exists>k w. ap_escape_errorlog_item (Some s) buflen = (w @ [CHR 0x00], length w)
        \<and> length w < buflen \<and> set w \<subseteq> {c. apr_isprint c} \<and> log_read w = take k s
        \<and> (length (concat (map (log_escape False) s)) + 2 \<le> buflen \<longrightarrow> k = length s)" if "0 < buflen"
  proof -
    let ?w = "errorlog_loop (buflen - 1) [] s"
    obtain k where k: "?w = concat (map (log_escape False) (take k s))" "length ?w \<le> buflen - 1"
      "length (concat (map (log_escape False) s)) < buflen - 1 \<longrightarrow> k = length s"
      using errorlog_loop_escapes [of "[]" "buflen - 1" s, unfolded list.size(3) append_Nil add_0, OF le0]
      by blast
    have 1: "log_read ?w = take k s"
      unfolding k(1) by (rule log_read_escapes) (rule cstring_take [OF assms])
    have 2: "set ?w \<subseteq> {c. apr_isprint c}"
      unfolding k(1) by (rule pr) (rule cstring_take [OF assms])
    have 3: "ap_escape_errorlog_item (Some s) buflen = (?w @ [CHR 0x00], length ?w)"
      using that by (simp add: ap_escape_errorlog_item_def Let_def)
    have 4: "length ?w < buflen" using k(2) that by linarith
    have 5: "length (concat (map (log_escape False) s)) + 2 \<le> buflen \<longrightarrow> k = length s"
      using k(3) by linarith
    show ?thesis by (rule exI [of _ k], rule exI [of _ ?w]) (intro conjI 1 2 3 4 5)
  qed
  show ?thesis
    unfolding escape_logitem_concat
    by (intro conjI log_read_escapes [OF assms] pr [OF assms] len impI bounded)
qed

theorem escape_log_items_witness:
  "log_read (ap_escape_logitem ''a b'') = ''a b''
   \<and> (\<exists>w. ap_escape_errorlog_item (Some ''a b'') 4 = (w @ [CHR 0x00], length w) \<and> length w < 4)"
proof -
  have "cstring ''a b''" "0 < (4 :: nat)" by simp_all
  then show ?thesis using escape_log_items [of "''a b''" 4] by blast
qed

end
