(* ===== verification/Util_Word.thy ===== *)
theory Util_Word
  imports Prelude "HOL-Library.Sublist"
begin

text \<open>
  server/util.c, taking a line apart: ap_getword, ap_getword_white,
  ap_getword_nulls, the words of a configuration line with their quotes
  (ap_getword_conf and substring_conf), and the expansion of environment
  variables in a word (ap_resolve_env). A function that moves the caller's
  line pointer returns the word and the rest of the line.
\<close>

section \<open>Words up to a stop character\<close>

text \<open>The loops that step a pointer over a text while a test holds.\<close>

fun skip_while :: "(char \<Rightarrow> bool) \<Rightarrow> cstr \<Rightarrow> cstr" where
  "skip_while P [] = []"
| "skip_while P (c # s) = (if P c then skip_while P s else c # s)"

text \<open>pos - *line characters of *line.\<close>

definition upto_ptr :: "cstr \<Rightarrow> cstr \<Rightarrow> cstr" where
  "upto_ptr line pos = take (length line - length pos) line"

definition ap_getword :: "cstr \<Rightarrow> char \<Rightarrow> cstr \<times> cstr" where
  "ap_getword line stop =
     (let pos = skip_while (\<lambda>c. c \<noteq> stop) line;
          res = upto_ptr line pos
      in (res, if stop \<noteq> CHR 0x00 then skip_while (\<lambda>c. c = stop) pos else pos))"

definition ap_getword_white :: "cstr \<Rightarrow> cstr \<times> cstr" where
  "ap_getword_white line =
     (let pos = skip_while (\<lambda>c. \<not> apr_isspace c) line;
          res = upto_ptr line pos
      in (res, skip_while apr_isspace pos))"

fun strchr :: "cstr \<Rightarrow> char \<Rightarrow> cstr option" where
  "strchr [] c = None"
| "strchr (x # s) c = (if x = c then Some (x # s) else strchr s c)"

definition ap_getword_nulls :: "cstr \<Rightarrow> char \<Rightarrow> cstr \<times> cstr" where
  "ap_getword_nulls line stop =
     (case strchr line stop of
        None \<Rightarrow> (line, [])
      | Some pos \<Rightarrow> (upto_ptr line pos, tl pos))"

lemma skip_while_dropWhile [simp]: "skip_while P s = dropWhile P s"
  by (induction s) auto

lemma upto_ptr_dropWhile [simp]: "upto_ptr s (dropWhile P s) = takeWhile P s"
proof -
  have "length s = length (takeWhile P s) + length (dropWhile P s)"
    by (metis length_append takeWhile_dropWhile_id)
  then have "upto_ptr s (dropWhile P s) = take (length (takeWhile P s)) s" by (simp add: upto_ptr_def)
  then show ?thesis using takeWhile_eq_take [of P s] by metis
qed

lemma strchr_Some: "c \<in> set s \<Longrightarrow> strchr s c = Some (dropWhile (\<lambda>x. x \<noteq> c) s)"
  by (induction s) auto

lemma strchr_None [simp]: "strchr s c = None \<longleftrightarrow> c \<notin> set s"
  by (induction s) auto

section \<open>Configuration words\<close>

text \<open>
  substring_conf copies len characters from start; with a backslash at its
  position it looks at the next one, which may lie behind the len characters
  (start is the whole rest of the line).
\<close>

function substring_conf_loop :: "cstr \<Rightarrow> nat \<Rightarrow> char option \<Rightarrow> nat \<Rightarrow> cstr" where
  "substring_conf_loop start len quote i =
     (if i < len then
        (if start ! i = CHR 0x5C \<and> i + 1 < length start
            \<and> (start ! (i + 1) = CHR 0x5C \<or> Some (start ! (i + 1)) = quote)
         then start ! (i + 1) # substring_conf_loop start len quote (i + 2)
         else start ! i # substring_conf_loop start len quote (i + 1))
      else [])"
  by pat_completeness auto
termination
  by (relation "measure (\<lambda>(start, len, quote, i). len - i)") auto

declare substring_conf_loop.simps [simp del]

definition substring_conf :: "cstr \<Rightarrow> nat \<Rightarrow> char option \<Rightarrow> cstr" where
  "substring_conf start len quote = substring_conf_loop start len quote 0"

text \<open>The scan to the closing quote.\<close>

fun quoted_end :: "char \<Rightarrow> cstr \<Rightarrow> cstr" where
  "quoted_end quote [] = []"
| "quoted_end quote [c] = (if c = quote then [c] else [])"
| "quoted_end quote (c # d # s) =
     (if c = quote then c # d # s
      else if c = CHR 0x5C \<and> (d = quote \<or> d = CHR 0x5C) then quoted_end quote s
      else quoted_end quote (d # s))"

definition ap_getword_conf :: "cstr \<Rightarrow> cstr \<times> cstr" where
  "ap_getword_conf line =
     (let str = skip_while apr_isspace line
      in if str = [] then ([], str)
         else
           let quote = hd str
           in if quote = CHR 0x22 \<or> quote = CHR 0x27 then
                let strend = quoted_end quote (tl str);
                    res = substring_conf (tl str) (length (tl str) - length strend) (Some quote);
                    strend = (if strend \<noteq> [] \<and> hd strend = quote then tl strend else strend)
                in (res, skip_while apr_isspace strend)
              else
                let strend = skip_while (\<lambda>c. \<not> apr_isspace c) str;
                    res = substring_conf str (length str - length strend) None
                in (res, skip_while apr_isspace strend))"

section \<open>Environment variables\<close>

text \<open>
  ap_resolve_env collects the pieces of the result in a linked list, its
  current entry last (here: first, then the entries before it, the newest
  first) and reuses an entry of length 0. getenv is a parameter.
\<close>

definition next_entry :: "cstr list \<Rightarrow> cstr list" where
  "next_entry es = (if length (hd es) \<noteq> 0 then [] # es else es)"

text \<open>One turn of the loop: the piece it takes off the word, and the rest.\<close>

definition env_piece :: "(cstr \<Rightarrow> cstr option) \<Rightarrow> char \<Rightarrow> cstr \<Rightarrow> cstr \<times> cstr" where
  "env_piece getenv c s =
     (if c = CHR ''$'' then
        if s \<noteq> [] \<and> hd s = CHR 0x7B \<and> CHR 0x7D \<in> set s then
          let e = dropWhile (\<lambda>x. x \<noteq> CHR 0x7D) s
          in (case getenv (upto_ptr (tl s) e) of
                Some word \<Rightarrow> word
              | None \<Rightarrow> c # upto_ptr s (tl e), tl e)
        else ([c], s)
      else
        let rest = dropWhile (\<lambda>x. x \<noteq> CHR ''$'') (c # s)
        in (upto_ptr (c # s) rest, rest))"

lemma env_piece_progress: "length (snd (env_piece getenv c s)) \<le> length s"
  using length_dropWhile_le [of "\<lambda>x. x \<noteq> CHR 0x7D" s] length_dropWhile_le [of "\<lambda>x. x \<noteq> CHR ''$''" s]
  by (auto simp: env_piece_def Let_def)

function resolve_env_loop ::
    "(cstr \<Rightarrow> cstr option) \<Rightarrow> cstr \<Rightarrow> cstr list \<Rightarrow> nat \<Rightarrow> cstr list \<times> nat" where
  "resolve_env_loop getenv [] es outlen = (es, outlen)"
| "resolve_env_loop getenv (c # s) es outlen =
     (case env_piece getenv c s of
        (piece, rest) \<Rightarrow>
          resolve_env_loop getenv rest (piece # tl (next_entry es)) (outlen + length piece))"
  by pat_completeness auto
termination
  by (relation "measure (\<lambda>(g, s, es, n). length s)")
    (auto, metis env_piece_progress less_Suc_eq_le snd_conv)

text \<open>
  The result and the size allocated for it. The first entry is what is before
  the first dollar sign, and the copy at the end runs over the list in order.
\<close>

definition resolve_env_entries :: "(cstr \<Rightarrow> cstr option) \<Rightarrow> cstr \<Rightarrow> cstr list \<times> nat" where
  "resolve_env_entries getenv word =
     (let s = dropWhile (\<lambda>x. x \<noteq> CHR ''$'') word;
          first = upto_ptr word s
      in resolve_env_loop getenv s [first] (length first))"

definition ap_resolve_env :: "(cstr \<Rightarrow> cstr option) \<Rightarrow> cstr \<Rightarrow> cstr" where
  "ap_resolve_env getenv word =
     (if CHR ''$'' \<notin> set word then word
      else concat (rev (fst (resolve_env_entries getenv word))))"

section \<open>The words of a line\<close>

text \<open>The pieces of a line between the characters a test accepts.\<close>

fun pieces :: "(char \<Rightarrow> bool) \<Rightarrow> cstr \<Rightarrow> cstr list" where
  "pieces P [] = [[]]"
| "pieces P (c # s) = (if P c then [] # pieces P s
     else case pieces P s of [] \<Rightarrow> [[c]] | x # xs \<Rightarrow> (c # x) # xs)"

lemma pieces_not_Nil [simp]: "pieces P s \<noteq> []"
  by (induction s) (auto split: list.splits)

lemma pieces_append: "(\<forall>c \<in> set x. \<not> P c) \<Longrightarrow> P d \<Longrightarrow> pieces P (x @ d # s) = x # pieces P s"
  by (induction x) auto

lemma pieces_plain: "(\<forall>c \<in> set x. \<not> P c) \<Longrightarrow> pieces P x = [x]"
  by (induction x) auto

lemma pieces_split:
  "pieces P s = (case dropWhile (\<lambda>c. \<not> P c) s of
     [] \<Rightarrow> [s] | d # t \<Rightarrow> takeWhile (\<lambda>c. \<not> P c) s # pieces P t)"
proof (cases "dropWhile (\<lambda>c. \<not> P c) s")
  case Nil
  then have "\<forall>c \<in> set s. \<not> P c" by (simp add: dropWhile_eq_Nil_conv)
  then show ?thesis using Nil pieces_plain [of s P] by (simp del: dropWhile_eq_Nil_conv)
next
  case (Cons d t)
  then have "P d" using hd_dropWhile [of "\<lambda>c. \<not> P c" s] by simp
  moreover have "\<forall>c \<in> set (takeWhile (\<lambda>c. \<not> P c) s). \<not> P c" by (auto dest: set_takeWhileD)
  moreover have "s = takeWhile (\<lambda>c. \<not> P c) s @ d # t" using Cons by (metis takeWhile_dropWhile_id)
  ultimately show ?thesis using Cons pieces_append by (metis list.simps(5))
qed

lemma pieces_skip: "filter (\<lambda>x. x \<noteq> []) (pieces P (dropWhile P s)) = filter (\<lambda>x. x \<noteq> []) (pieces P s)"
  by (induction s) auto

lemma hd_pieces: "s \<noteq> [] \<Longrightarrow> hd (pieces P s) = [] \<longleftrightarrow> P (hd s)"
  by (cases s) (auto split: list.splits)

text \<open>All words a caller gets that asks until the line is used up.\<close>

fun word_loop :: "nat \<Rightarrow> (cstr \<Rightarrow> cstr \<times> cstr) \<Rightarrow> cstr \<Rightarrow> cstr list" where
  "word_loop 0 get line = []"
| "word_loop (Suc n) get line =
     (if line = [] then [] else case get line of (w, rest) \<Rightarrow> w # word_loop n get rest)"

definition all_words :: "(cstr \<Rightarrow> cstr \<times> cstr) \<Rightarrow> cstr \<Rightarrow> cstr list" where
  "all_words get line = word_loop (length line) get line"

lemma word_loop_enough:
  assumes get: "\<And>s. s \<noteq> [] \<Longrightarrow> length (snd (get s)) < length s"
  shows "length line \<le> n \<Longrightarrow> word_loop n get line = all_words get line"
proof (induction n arbitrary: line rule: less_induct)
  case (less n)
  have step: "word_loop m get line = fst (get line) # all_words get (snd (get line))"
    if m: "m \<le> n" "length line \<le> m" "line \<noteq> []" for m
  proof -
    obtain k where k: "m = Suc k" using m by (cases m) auto
    have "word_loop k get (snd (get line)) = all_words get (snd (get line))"
      using get [OF m(3)] m k by (intro less.IH) auto
    then show ?thesis using k m(3) by (simp add: split_beta)
  qed
  show ?case
  proof (cases "line = []")
    case True
    then show ?thesis by (cases n) (auto simp: all_words_def)
  next
    case False
    then show ?thesis
      using step [of n] step [of "length line"] less.prems by (simp add: all_words_def)
  qed
qed

lemma all_words_step:
  assumes get: "\<And>s. s \<noteq> [] \<Longrightarrow> length (snd (get s)) < length s" and "line \<noteq> []"
  shows "all_words get line = fst (get line) # all_words get (snd (get line))"
proof -
  obtain k where k: "length line = Suc k" using assms(2) by (cases line) auto
  have "length (snd (get line)) \<le> k" using get [OF assms(2)] k by simp
  then show ?thesis
    using word_loop_enough [of get "snd (get line)" k, OF get] k assms(2)
    by (simp add: all_words_def split_beta)
qed

lemma all_words_Nil [simp]: "all_words get [] = []"
  by (simp add: all_words_def)

lemma all_words_pieces:
  assumes get: "\<And>s. s \<noteq> [] \<Longrightarrow>
    get s = (takeWhile (\<lambda>c. \<not> P c) s, dropWhile P (dropWhile (\<lambda>c. \<not> P c) s))"
  shows "all_words get s = (if s \<noteq> [] \<and> P (hd s) then [[]] else [])
    @ filter (\<lambda>x. x \<noteq> []) (pieces P s)"
proof (induction "length s" arbitrary: s rule: less_induct)
  case less
  have prog: "length (snd (get s)) < length s" if "s \<noteq> []" for s
    using get [OF that] that
    by (cases s) (auto simp: le_imp_less_Suc length_dropWhile_le
        intro: le_less_trans [OF length_dropWhile_le])
  show ?case
  proof (cases "s = []")
    case False
    let ?u = "takeWhile (\<lambda>c. \<not> P c) s" and ?r = "dropWhile P (dropWhile (\<lambda>c. \<not> P c) s)"
    have st: "all_words get s = ?u # all_words get ?r"
      using all_words_step [of get, OF prog False] get [OF False] by simp
    have "length ?r < length s" using prog [OF False] get [OF False] by simp
    then have IH: "all_words get ?r = (if ?r \<noteq> [] \<and> P (hd ?r) then [[]] else [])
        @ filter (\<lambda>x. x \<noteq> []) (pieces P ?r)" by (rule less.hyps)
    have r: "\<not> (?r \<noteq> [] \<and> P (hd ?r))" using hd_dropWhile by blast
    have "filter (\<lambda>x. x \<noteq> []) (pieces P s)
        = (if ?u = [] then [] else [?u]) @ filter (\<lambda>x. x \<noteq> []) (pieces P ?r)"
    proof (cases "dropWhile (\<lambda>c. \<not> P c) s")
      case Nil
      then have "?u = s" by (metis append.right_neutral takeWhile_dropWhile_id)
      then show ?thesis using Nil False pieces_split [of P s]
        by (simp del: dropWhile_eq_Nil_conv takeWhile_eq_all_conv takeWhile_eq_Nil_iff)
    next
      case (Cons d t)
      then have "P d" using hd_dropWhile [of "\<lambda>c. \<not> P c" s] by simp
      then show ?thesis using Cons pieces_split [of P s] pieces_skip [of P t] by simp
    qed
    moreover have "?u = [] \<longleftrightarrow> P (hd s)" using False by (cases s) auto
    ultimately show ?thesis using st IH r False by auto
  qed simp
qed

lemma all_words_nulls:
  "all_words (\<lambda>l. ap_getword_nulls l stop) s
     = (let ps = pieces (\<lambda>c. c = stop) s in if last ps = [] then butlast ps else ps)"
proof (induction "length s" arbitrary: s rule: less_induct)
  case less
  let ?get = "\<lambda>l. ap_getword_nulls l stop"
  let ?d = "\<lambda>s. dropWhile (\<lambda>c. c \<noteq> stop) s"
  have get: "?get s = (takeWhile (\<lambda>c. c \<noteq> stop) s, tl (?d s))" for s
  proof (cases "stop \<in> set s")
    case False
    then have "?d s = []" "strchr s stop = None" "takeWhile (\<lambda>c. c \<noteq> stop) s = s"
      by (auto simp: dropWhile_eq_Nil_conv takeWhile_eq_all_conv)
    then show ?thesis by (simp add: ap_getword_nulls_def del: dropWhile_eq_Nil_conv strchr_None takeWhile_eq_all_conv)
  qed (simp add: ap_getword_nulls_def strchr_Some)
  have prog: "length (snd (?get s)) < length s" if "s \<noteq> []" for s
    using that get [of s] by (cases s) (auto simp: le_imp_less_Suc length_dropWhile_le
        intro: le_less_trans [OF diff_le_self])
  show ?case
  proof (cases "s = []")
    case False
    have st: "all_words ?get s = takeWhile (\<lambda>c. c \<noteq> stop) s # all_words ?get (tl (?d s))"
      using all_words_step [of ?get, OF prog False] get by simp
    have IH: "all_words ?get (tl (?d s)) = (let ps = pieces (\<lambda>c. c = stop) (tl (?d s))
        in if last ps = [] then butlast ps else ps)"
      using prog [OF False] get [of s] by (intro less.hyps) simp
    show ?thesis
    proof (cases "?d s")
      case Nil
      then have "takeWhile (\<lambda>c. c \<noteq> stop) s = s"
        by (metis append.right_neutral takeWhile_dropWhile_id)
      then show ?thesis using st Nil False pieces_split [of "\<lambda>c. c = stop" s]
        by (simp del: dropWhile_eq_Nil_conv)
    next
      case (Cons d t)
      then show ?thesis using st IH pieces_split [of "\<lambda>c. c = stop" s] by (simp add: Let_def)
    qed
  qed simp
qed

section \<open>Quoting a configuration word\<close>

definition conf_escape :: "char \<Rightarrow> cstr \<Rightarrow> cstr" where
  "conf_escape q w = concat (map (\<lambda>c. if c = q \<or> c = CHR 0x5C then [CHR 0x5C, c] else [c]) w)"

definition conf_quote :: "bool \<Rightarrow> cstr \<Rightarrow> cstr" where
  "conf_quote double w =
     (let q = if double then CHR 0x22 else CHR 0x27 in q # conf_escape q w @ [q])"

lemma conf_escape_simps [simp]: "conf_escape q [] = []"
  "conf_escape q (c # w) = (if c = q \<or> c = CHR 0x5C then [CHR 0x5C, c] else [c]) @ conf_escape q w"
  by (auto simp: conf_escape_def)

lemma quoted_end_escape:
  "q \<noteq> CHR 0x5C \<Longrightarrow> quoted_end q (conf_escape q w @ q # rest) = q # rest"
proof (induction w)
  case Nil
  then show ?case by (cases rest) auto
next
  case (Cons c w)
  obtain d t where "conf_escape q w @ q # rest = d # t"
    by (cases "conf_escape q w @ q # rest") auto
  then show ?case using Cons by auto
qed

lemma substring_conf_escape:
  assumes "q \<noteq> CHR 0x5C"
  shows "substring_conf_loop (pre @ conf_escape q w @ q # rest)
           (length pre + length (conf_escape q w)) (Some q) (length pre) = w"
proof (induction w arbitrary: pre)
  case Nil
  then show ?case by (simp add: substring_conf_loop.simps)
next
  case (Cons c w)
  show ?case
  proof (cases "c = q \<or> c = CHR 0x5C")
    case True
    have "substring_conf_loop (pre @ conf_escape q (c # w) @ q # rest)
        (length pre + length (conf_escape q (c # w))) (Some q) (length pre)
      = c # substring_conf_loop (pre @ conf_escape q (c # w) @ q # rest)
        (length pre + length (conf_escape q (c # w))) (Some q) (length pre + 2)"
      using True by (subst substring_conf_loop.simps) (auto simp: nth_append)
    then show ?thesis using True Cons [of "pre @ [CHR 0x5C, c]"] by simp
  next
    case False
    have "substring_conf_loop (pre @ conf_escape q (c # w) @ q # rest)
        (length pre + length (conf_escape q (c # w))) (Some q) (length pre)
      = c # substring_conf_loop (pre @ conf_escape q (c # w) @ q # rest)
        (length pre + length (conf_escape q (c # w))) (Some q) (length pre + 1)"
      using False by (subst substring_conf_loop.simps) (auto simp: nth_append)
    then show ?thesis using False Cons [of "pre @ [c]"] by simp
  qed
qed

lemma getword_conf_quote:
  "ap_getword_conf (conf_quote double w @ rest) = (w, dropWhile apr_isspace rest)"
proof -
  define q where "q = (if double then CHR 0x22 else CHR 0x27)"
  have q: "q = CHR 0x22 \<or> q = CHR 0x27" "q \<noteq> CHR 0x5C" "\<not> apr_isspace q"
    by (auto simp: q_def ctype_simps)
  have s: "substring_conf (conf_escape q w @ q # rest)
      (length (conf_escape q w @ q # rest) - length (q # rest)) (Some q) = w"
    using substring_conf_escape [OF q(2), of "[]" w rest] by (simp add: substring_conf_def)
  show ?thesis
    using q s quoted_end_escape [OF q(2), of w rest]
    by (simp add: ap_getword_conf_def conf_quote_def Let_def flip: q_def)
qed

lemma quoted_end_le: "length (quoted_end q s) \<le> length s"
  by (induction q s rule: quoted_end.induct) auto

lemma getword_conf_progress: "s \<noteq> [] \<Longrightarrow> length (snd (ap_getword_conf s)) < length s"
proof -
  assume ne: "s \<noteq> []"
  let ?t = "dropWhile apr_isspace s"
  have le: "length ?t \<le> length s" by (rule length_dropWhile_le)
  show ?thesis
  proof (cases ?t)
    case Nil
    then show ?thesis using ne by (simp add: ap_getword_conf_def del: dropWhile_eq_Nil_conv)
  next
    case (Cons c t)
    then have c: "\<not> apr_isspace c" using hd_dropWhile [of apr_isspace s] by simp
    define u where "u = (if c = CHR 0x22 \<or> c = CHR 0x27
      then if quoted_end c t \<noteq> [] \<and> hd (quoted_end c t) = c then tl (quoted_end c t) else quoted_end c t
      else dropWhile (\<lambda>c. \<not> apr_isspace c) t)"
    have "snd (ap_getword_conf s) = dropWhile apr_isspace u"
      using Cons c by (simp add: ap_getword_conf_def u_def Let_def)
    moreover have "length u \<le> length t"
      using quoted_end_le [of c t] length_dropWhile_le [of "\<lambda>c. \<not> apr_isspace c" t]
      by (auto simp: u_def)
    ultimately show ?thesis using Cons le length_dropWhile_le [of apr_isspace u] by simp
  qed
qed

lemma conf_words_quote:
  "all_words ap_getword_conf (concat (map (\<lambda>(d, w). conf_quote d w @ '' '') ws)) = map snd ws"
proof (induction ws)
  case (Cons dw ws)
  obtain d w where dw: "dw = (d, w)" by fastforce
  let ?rest = "concat (map (\<lambda>(d, w). conf_quote d w @ '' '') ws)"
  have sp: "apr_isspace CHR '' ''" by (simp add: apr_isspace_def)
  have "dropWhile apr_isspace ?rest = ?rest"
    by (cases ws) (auto simp: conf_quote_def Let_def ctype_simps split: prod.splits)
  then have "ap_getword_conf (conf_quote d w @ '' '' @ ?rest) = (w, ?rest)"
    using getword_conf_quote [of d w "'' '' @ ?rest"] sp by simp
  moreover have "conf_quote d w @ '' '' @ ?rest \<noteq> []" by (simp add: conf_quote_def)
  ultimately have "all_words ap_getword_conf (conf_quote d w @ '' '' @ ?rest)
      = w # all_words ap_getword_conf ?rest"
    using all_words_step [of ap_getword_conf, OF getword_conf_progress] by simp
  then show ?case using Cons dw by simp
qed simp

section \<open>Expansion of environment variables\<close>

text \<open>The reference: one pass over the characters of the word.\<close>

function expand_env :: "(cstr \<Rightarrow> cstr option) \<Rightarrow> cstr \<Rightarrow> cstr" where
  "expand_env getenv [] = []"
| "expand_env getenv (c # s) =
     (if c = CHR ''$'' \<and> s \<noteq> [] \<and> hd s = CHR 0x7B \<and> CHR 0x7D \<in> set s then
        let name = takeWhile (\<lambda>x. x \<noteq> CHR 0x7D) (tl s);
            rest = tl (dropWhile (\<lambda>x. x \<noteq> CHR 0x7D) s)
        in (case getenv name of Some v \<Rightarrow> v | None \<Rightarrow> [c, CHR 0x7B] @ name @ [CHR 0x7D])
             @ expand_env getenv rest
      else c # expand_env getenv s)"
  by pat_completeness auto
termination
  by (relation "measure (\<lambda>(g, s). length s)")
    (auto simp: less_Suc_eq_le intro: order_trans [OF diff_le_self length_dropWhile_le])

lemma expand_env_plain:
  "CHR ''$'' \<notin> set u \<Longrightarrow> expand_env getenv (u @ s) = u @ expand_env getenv s"
  by (induction u) auto

lemma next_entry_concat:
  "es \<noteq> [] \<Longrightarrow> concat (rev (piece # tl (next_entry es))) = concat (rev es) @ piece"
  by (cases es) (auto simp: next_entry_def)

lemma upto_ptr_append [simp]: "upto_ptr (u @ e) e = u"
  by (simp add: upto_ptr_def)

lemma upto_ptr_id: "suffix e s \<Longrightarrow> upto_ptr s e @ e = s"
  by (auto simp: suffix_def)

lemma env_piece_unset: "fst (env_piece (\<lambda>_. None) c s) @ snd (env_piece (\<lambda>_. None) c s) = c # s"
proof -
  have suf: "suffix (dropWhile P t) t" "suffix (tl (dropWhile P t)) t" for P and t :: cstr
    by (auto simp: suffix_dropWhile intro: suffix_order.trans [OF suffix_tl])
  show ?thesis
    using upto_ptr_id [OF suf(2) [of _ s]] upto_ptr_id [OF suf(1) [of "\<lambda>x. x \<noteq> CHR ''$''" "c # s"]]
    by (simp only: env_piece_def Let_def split: if_split) (auto split: if_splits)
qed

lemma expand_env_piece:
  "expand_env getenv (c # s) = fst (env_piece getenv c s) @ expand_env getenv (snd (env_piece getenv c s))"
proof -
  consider "c = CHR ''$''" "s \<noteq> []" "hd s = CHR 0x7B" "CHR 0x7D \<in> set s"
    | "c = CHR ''$''" "\<not> (s \<noteq> [] \<and> hd s = CHR 0x7B \<and> CHR 0x7D \<in> set s)" | "c \<noteq> CHR ''$''" by blast
  then show ?thesis
  proof cases
    case 1
    then obtain t where t: "s = CHR 0x7B # t" "CHR 0x7D \<in> set t" by (cases s) auto
    let ?u = "takeWhile (\<lambda>x. x \<noteq> CHR 0x7D) t"
    obtain v where v: "t = ?u @ CHR 0x7D # v" "dropWhile (\<lambda>x. x \<noteq> CHR 0x7D) t = CHR 0x7D # v"
    proof (cases "dropWhile (\<lambda>x. x \<noteq> CHR 0x7D) t")
      case Nil
      then show ?thesis using t(2) by (auto simp: dropWhile_eq_Nil_conv)
    next
      case (Cons d v)
      then have "d = CHR 0x7D" using hd_dropWhile [of "\<lambda>x. x \<noteq> CHR 0x7D" t] by simp
      then show ?thesis using that [of v] Cons by (metis takeWhile_dropWhile_id)
    qed
    have "upto_ptr (CHR 0x7B # ?u @ CHR 0x7D # v) v = CHR 0x7B # ?u @ [CHR 0x7D]"
      by (simp add: upto_ptr_def)
    then have "upto_ptr (CHR 0x7B # t) v = CHR 0x7B # ?u @ [CHR 0x7D]" using v(1) by metis
    moreover have "upto_ptr t (CHR 0x7D # v) = ?u" using v(2) upto_ptr_dropWhile by metis
    ultimately show ?thesis using 1(1) t v(2)
      by (auto simp: env_piece_def Let_def split: option.splits)
  next
    case 2
    then show ?thesis by (auto simp: env_piece_def)
  next
    case 3
    have "CHR ''$'' \<notin> set (takeWhile (\<lambda>x. x \<noteq> CHR ''$'') (c # s))" by (auto dest: set_takeWhileD)
    moreover have "env_piece getenv c s
        = (takeWhile (\<lambda>x. x \<noteq> CHR ''$'') (c # s), dropWhile (\<lambda>x. x \<noteq> CHR ''$'') (c # s))"
      using 3 upto_ptr_dropWhile [of "c # s" "\<lambda>x. x \<noteq> CHR ''$''"] by (simp add: env_piece_def Let_def)
    ultimately show ?thesis
      using expand_env_plain [of "takeWhile (\<lambda>x. x \<noteq> CHR ''$'') (c # s)" getenv
          "dropWhile (\<lambda>x. x \<noteq> CHR ''$'') (c # s)"]
      unfolding takeWhile_dropWhile_id by simp
  qed
qed

definition expands_to :: "(cstr \<Rightarrow> cstr option) \<Rightarrow> cstr \<Rightarrow> cstr list \<Rightarrow> cstr list \<times> nat \<Rightarrow> bool" where
  "expands_to getenv s es r \<longleftrightarrow>
     concat (rev (fst r)) = concat (rev es) @ expand_env getenv s \<and> snd r = length (concat (fst r))"

lemma resolve_env_loop_expands:
  "es \<noteq> [] \<Longrightarrow> outlen = length (concat es) \<Longrightarrow>
     expands_to getenv s es (resolve_env_loop getenv s es outlen)"
proof (induction getenv s es outlen rule: resolve_env_loop.induct)
  case (2 getenv c s es outlen)
  obtain piece rest where p: "env_piece getenv c s = (piece, rest)" by fastforce
  have "length (concat (piece # tl (next_entry es))) = outlen + length piece"
    using 2 by (cases es) (auto simp: next_entry_def)
  then have "expands_to getenv rest (piece # tl (next_entry es))
      (resolve_env_loop getenv rest (piece # tl (next_entry es)) (outlen + length piece))"
    using 2 p by simp
  then show ?case
    using next_entry_concat [OF \<open>es \<noteq> []\<close>, of piece] expand_env_piece [of getenv c s] p
    by (simp add: expands_to_def)
qed (simp add: expands_to_def)

lemma resolve_env_entries_expand:
  "concat (rev (fst (resolve_env_entries getenv word))) = expand_env getenv word"
  "snd (resolve_env_entries getenv word) = length (expand_env getenv word)"
proof -
  let ?u = "takeWhile (\<lambda>x. x \<noteq> CHR ''$'') word" and ?s = "dropWhile (\<lambda>x. x \<noteq> CHR ''$'') word"
  have r: "resolve_env_entries getenv word = resolve_env_loop getenv ?s [?u] (length ?u)"
    by (simp add: resolve_env_entries_def Let_def)
  have u: "CHR ''$'' \<notin> set ?u" by (auto dest: set_takeWhileD)
  have "expands_to getenv ?s [?u] (resolve_env_entries getenv word)"
    unfolding r by (rule resolve_env_loop_expands) auto
  then show 1: "concat (rev (fst (resolve_env_entries getenv word))) = expand_env getenv word"
    using expand_env_plain [OF u, of getenv ?s] by (simp add: expands_to_def)
  have "length (concat xs) = length (concat (rev xs))" for xs :: "cstr list"
    by (simp add: length_concat rev_map [symmetric])
  then show "snd (resolve_env_entries getenv word) = length (expand_env getenv word)"
    using 1 \<open>expands_to getenv ?s [?u] (resolve_env_entries getenv word)\<close>
    by (metis expands_to_def)
qed

section \<open>Properties\<close>

text \<open>
  Words joined with their separators come back: asking ap_getword_nulls
  until the line is used up yields the pieces between the stop characters, an
  empty last one left out, ap_getword yields the non-empty pieces, after an
  empty word when the line begins with the stop character, and
  ap_getword_white does the same with white space.
\<close>

theorem getword_all_words:
  assumes "stop \<noteq> CHR 0x00"
  shows "all_words (\<lambda>l. ap_getword_nulls l stop) s
      = (let ps = pieces (\<lambda>c. c = stop) s in if last ps = [] then butlast ps else ps)
    \<and> all_words (\<lambda>l. ap_getword l stop) s
      = (if s \<noteq> [] \<and> hd s = stop then [[]] else []) @ filter (\<lambda>x. x \<noteq> []) (pieces (\<lambda>c. c = stop) s)
    \<and> all_words ap_getword_white s
      = (if s \<noteq> [] \<and> apr_isspace (hd s) then [[]] else [])
          @ filter (\<lambda>x. x \<noteq> []) (pieces apr_isspace s)"
proof (intro conjI)
  show "all_words (\<lambda>l. ap_getword l stop) s
      = (if s \<noteq> [] \<and> hd s = stop then [[]] else []) @ filter (\<lambda>x. x \<noteq> []) (pieces (\<lambda>c. c = stop) s)"
    by (rule all_words_pieces) (use assms in \<open>simp add: ap_getword_def\<close>)
  show "all_words ap_getword_white s
      = (if s \<noteq> [] \<and> apr_isspace (hd s) then [[]] else [])
          @ filter (\<lambda>x. x \<noteq> []) (pieces apr_isspace s)"
    by (rule all_words_pieces) (simp add: ap_getword_white_def)
qed (rule all_words_nulls)

theorem getword_all_words_witness:
  "all_words (\<lambda>l. ap_getword_nulls l CHR '','') ''a,,b,'' = [''a'', '''', ''b'']
   \<and> all_words (\<lambda>l. ap_getword l CHR '','') ''a,,b,'' = [''a'', ''b'']"
  using getword_all_words [of "CHR '',''" "''a,,b,''"] by simp

text \<open>
  C34. Quoting survives: words written in double or single quotes, with a
  backslash before each quote of that kind and each backslash in them and a
  space after each, are exactly the words ap_getword_conf reads back, in
  order, whatever characters they hold.
\<close>

theorem getword_conf_roundtrip:
  "all_words ap_getword_conf (concat (map (\<lambda>(d, w). conf_quote d w @ '' '') ws)) = map snd ws"
  by (rule conf_words_quote)

text \<open>
  ap_resolve_env replaces, in one pass from the left, each reference to a
  variable that is set by its value, leaves references to unset variables and
  unfinished ones as they are, does not look into what it puts in, and
  allocates exactly the length of the result.
\<close>

theorem resolve_env_expands:
  "ap_resolve_env getenv word = expand_env getenv word
   \<and> snd (resolve_env_entries getenv word) = length (ap_resolve_env getenv word)
   \<and> ap_resolve_env (\<lambda>_. None) word = word"
proof -
  have eq: "ap_resolve_env g word = expand_env g word" for g
    using resolve_env_entries_expand(1) [of g word] expand_env_plain [of word g "[]"]
    by (simp add: ap_resolve_env_def)
  have "expand_env (\<lambda>_. None) word = word"
  proof (induction "length word" arbitrary: word rule: less_induct)
    case less
    show ?case
    proof (cases word)
      case (Cons c s)
      have "length (snd (env_piece (\<lambda>_. None) c s)) < length word"
        using env_piece_progress [of "\<lambda>_. None" c s] Cons by simp
      then have "expand_env (\<lambda>_. None) word
          = fst (env_piece (\<lambda>_. None) c s) @ snd (env_piece (\<lambda>_. None) c s)"
        using less expand_env_piece Cons by metis
      then show ?thesis using env_piece_unset Cons by metis
    qed simp
  qed
  then show ?thesis using eq resolve_env_entries_expand(2) by metis
qed

end
