(* ===== verification/Util_List.thy ===== *)
theory Util_List
  imports Test_Char Util_Word
begin

text \<open>
  server/util.c, the lists in HTTP header fields: ap_size_list_item,
  ap_get_list_item and ap_find_list_item for items between commas,
  ap_get_token, ap_find_token and ap_find_last_token for tokens. The three
  functions on items scan with the same lexical state (in_qpair, in_qstr,
  in_com), which is one record here.
\<close>

record lex_state =
  in_qpair :: bool
  in_qstr :: bool
  in_com :: nat

definition lex_start :: lex_state where
  "lex_start = \<lparr>in_qpair = False, in_qstr = False, in_com = 0\<rparr>"

text \<open>The condition under which a comma does not end the item.\<close>

definition in_quotes :: "lex_state \<Rightarrow> bool" where
  "in_quotes st \<longleftrightarrow> in_qpair st \<or> in_qstr st \<or> in_com st \<noteq> 0"

text \<open>What one character does to the lexical state, in all three switches.\<close>

definition lex_step :: "char \<Rightarrow> lex_state \<Rightarrow> lex_state" where
  "lex_step c st =
     (if in_qpair st then st\<lparr>in_qpair := False\<rparr>
      else if c = CHR 0x5C then st\<lparr>in_qpair := True\<rparr>
      else if c = CHR 0x22 then if in_com st = 0 then st\<lparr>in_qstr := \<not> in_qstr st\<rparr> else st
      else if c = CHR ''('' then if \<not> in_qstr st then st\<lparr>in_com := in_com st + 1\<rparr> else st
      else if c = CHR '')'' then if in_com st \<noteq> 0 then st\<lparr>in_com := in_com st - 1\<rparr> else st
      else st)"

definition comma_or_space :: "char \<Rightarrow> bool" where
  "comma_or_space c \<longleftrightarrow> c = CHR '','' \<or> apr_isspace c"

section \<open>Items\<close>

fun item_end :: "lex_state \<Rightarrow> cstr \<Rightarrow> cstr" where
  "item_end st [] = []"
| "item_end st (c # s) =
     (if in_quotes st \<or> c \<noteq> CHR '','' then item_end (lex_step c st) s else c # s)"

text \<open>The item as it stands in the field (None for the null pointer), and the rest.\<close>

definition ap_size_list_item :: "cstr \<Rightarrow> (cstr \<times> nat) option \<times> cstr" where
  "ap_size_list_item field =
     (let token = skip_while comma_or_space field;
          ptr = item_end lex_start token;
          len = length token - length ptr
      in if len = 0 then (None, ptr)
         else (Some (token, len), skip_while comma_or_space ptr))"

text \<open>
  The copying scan. addspace is 1 when a space is owed, -1 when spaces are to
  be swallowed. get_step is one turn of the loop: what it appends, and the
  next state.
\<close>

definition get_step :: "char \<Rightarrow> lex_state \<Rightarrow> int \<Rightarrow> cstr \<times> int" where
  "get_step c st addspace =
     (let sp = (if addspace = 1 then '' '' else []);
          st' = lex_step c st;
          protected = (in_com st' \<noteq> 0 \<or> in_qstr st')
      in if in_qpair st then ([c], addspace)
         else if c = CHR 0x5C \<or> c = CHR 0x22 \<or> c = CHR ''('' then (sp @ [c], 0)
         else if c = CHR '')'' then ([c], 0)
         else if c = CHR '' '' \<or> c = CHR 0x09 then
           if addspace \<noteq> 0 then ([], addspace)
           else if protected then ([c], addspace) else ([], 1)
         else if c = CHR ''='' \<or> c = CHR ''/'' \<or> c = CHR '';'' then
           ([c], if \<not> protected then -1 else addspace)
         else (sp @ [if protected then c else apr_tolower c], 0))"

fun get_item_loop :: "lex_state \<Rightarrow> int \<Rightarrow> cstr \<Rightarrow> cstr" where
  "get_item_loop st addspace [] = []"
| "get_item_loop st addspace (c # s) =
     (if in_quotes st \<or> c \<noteq> CHR '','' then
        case get_step c st addspace of
          (out, addspace') \<Rightarrow> out @ get_item_loop (lex_step c st) addspace' s
      else [])"

definition ap_get_list_item :: "cstr \<Rightarrow> cstr option \<times> cstr" where
  "ap_get_list_item field =
     (case ap_size_list_item field of
        (None, field') \<Rightarrow> (None, field')
      | (Some (tok_start, tok_len), field') \<Rightarrow> (Some (get_item_loop lex_start 0 tok_start), field'))"

text \<open>
  The comparing scan: pos is what is left of tok while good holds. expect c
  pos is *pos++ == c.
\<close>

definition expect :: "char \<Rightarrow> cstr \<Rightarrow> cstr option" where
  "expect c pos = (if pos \<noteq> [] \<and> hd pos = c then Some (tl pos) else None)"

definition expect_space :: "int \<Rightarrow> cstr option \<Rightarrow> cstr option" where
  "expect_space addspace pos =
     (if addspace = 1 then Option.bind pos (expect CHR '' '') else pos)"

text \<open>None stands for good = 0; the value of pos is not used then.\<close>

definition find_step :: "char \<Rightarrow> lex_state \<Rightarrow> int \<Rightarrow> cstr option \<Rightarrow> cstr option \<times> int" where
  "find_step c st addspace pos =
     (let st' = lex_step c st;
          protected = (in_com st' \<noteq> 0 \<or> in_qstr st')
      in if in_qpair st then (Option.bind pos (expect c), addspace)
         else if c = CHR 0x5C \<or> c = CHR 0x22 \<or> c = CHR ''('' then
           (Option.bind (expect_space addspace pos) (expect c), 0)
         else if c = CHR '')'' then (Option.bind pos (expect c), 0)
         else if c = CHR '' '' \<or> c = CHR 0x09 then
           if addspace \<noteq> 0 \<or> pos = None then (pos, addspace)
           else if protected then (Option.bind pos (expect c), addspace) else (pos, 1)
         else if c = CHR ''='' \<or> c = CHR ''/'' \<or> c = CHR '';'' then
           (Option.bind pos (expect c), if \<not> protected then -1 else addspace)
         else if pos = None then (pos, addspace)
         else (Option.bind (expect_space addspace pos) (expect (if protected then c else apr_tolower c)), 0))"

fun find_item_loop :: "lex_state \<Rightarrow> int \<Rightarrow> cstr option \<Rightarrow> cstr \<Rightarrow> cstr option \<times> int \<times> cstr" where
  "find_item_loop st addspace pos [] = (pos, addspace, [])"
| "find_item_loop st addspace pos (c # s) =
     (if in_quotes st \<or> c \<noteq> CHR '','' then
        case find_step c st addspace pos of
          (pos', addspace') \<Rightarrow> find_item_loop (lex_step c st) addspace' pos' s
      else (pos, addspace, c # s))"

lemma find_item_loop_rest: "snd (snd (find_item_loop st a pos s)) = item_end st s"
  by (induction s arbitrary: st a pos) (auto split: prod.splits)

lemma item_end_le: "length (item_end st s) \<le> length s"
  by (induction s arbitrary: st) (auto simp: le_SucI)

lemma find_items_progress:
  assumes skip: "skip_while comma_or_space ptr = c # s"
    and x: "(pos, addspace', ptr') = find_item_loop lex_start addspace p (c # s)"
  shows "length ptr' < length ptr"
proof -
  have "\<not> comma_or_space c" using skip hd_dropWhile [of comma_or_space ptr] by simp
  moreover have "ptr' = item_end lex_start (c # s)"
    using find_item_loop_rest [of lex_start addspace p "c # s"] x by (metis snd_conv)
  ultimately have "ptr' = item_end (lex_step c lex_start) s" by (simp add: comma_or_space_def)
  moreover have "length (c # s) \<le> length ptr"
    using skip length_dropWhile_le [of comma_or_space ptr] by simp
  ultimately show ?thesis using item_end_le [of "lex_step c lex_start" s] by simp
qed

text \<open>
  The loop over the items. The lexical state is back at its start wherever a
  comma ends an item, but addspace keeps its value from item to item.
\<close>

function find_items :: "cstr \<Rightarrow> int \<Rightarrow> cstr \<Rightarrow> bool" where
  "find_items tok addspace ptr =
     (case skip_while comma_or_space ptr of
        [] \<Rightarrow> False
      | c # s \<Rightarrow>
          (case find_item_loop lex_start addspace (Some tok) (c # s) of
             (pos, addspace', ptr') \<Rightarrow>
               if pos = Some [] then True
               else if ptr' \<noteq> [] then find_items tok addspace' ptr' else False))"
  by pat_completeness auto
termination
  by (relation "measure (\<lambda>(tok, a, ptr). length ptr)")
    (simp, metis find_items_progress in_measure case_prod_conv)

declare find_items.simps [simp del]

definition ap_find_list_item :: "cstr option \<Rightarrow> cstr option \<Rightarrow> bool" where
  "ap_find_list_item line tok =
     (case (line, tok) of
        (Some l, Some t) \<Rightarrow> find_items t 0 l
      | _ \<Rightarrow> False)"

section \<open>Tokens\<close>

fun quoted_skip :: "cstr \<Rightarrow> cstr" where
  "quoted_skip [] = []"
| "quoted_skip (c # s) = (if c = CHR 0x22 then s else quoted_skip s)"

lemma quoted_skip_le: "length (quoted_skip s) \<le> length s"
  by (induction s) auto

function token_end :: "bool \<Rightarrow> cstr \<Rightarrow> cstr" where
  "token_end accept_white [] = []"
| "token_end accept_white (c # s) =
     (if (accept_white \<or> \<not> apr_isspace c) \<and> c \<noteq> CHR '';'' \<and> c \<noteq> CHR '',''
      then token_end accept_white (if c = CHR 0x22 then quoted_skip s else s)
      else c # s)"
  by pat_completeness auto
termination
  by (relation "measure (\<lambda>(a, s). length s)") (auto simp: less_Suc_eq_le quoted_skip_le)

definition ap_get_token :: "cstr \<Rightarrow> bool \<Rightarrow> cstr \<times> cstr" where
  "ap_get_token accept_line accept_white =
     (let tok_start = skip_while apr_isspace accept_line;
          ptr = token_end accept_white tok_start;
          token = upto_ptr tok_start ptr
      in (token, skip_while apr_isspace ptr))"

text \<open>strncasecmp gives 0.\<close>

fun strncaseeq :: "cstr \<Rightarrow> cstr \<Rightarrow> nat \<Rightarrow> bool" where
  "strncaseeq s t 0 = True"
| "strncaseeq [] [] (Suc n) = True"
| "strncaseeq (c # s) (d # t) (Suc n) = (apr_tolower c = apr_tolower d \<and> strncaseeq s t n)"
| "strncaseeq _ _ (Suc n) = False"

function find_token_loop :: "cstr \<Rightarrow> cstr \<Rightarrow> bool" where
  "find_token_loop s tok =
     (case skip_while (\<lambda>c. TEST_CHAR c T_HTTP_TOKEN_STOP) s of
        [] \<Rightarrow> False
      | c # t \<Rightarrow>
          let e = skip_while (\<lambda>c. \<not> TEST_CHAR c T_HTTP_TOKEN_STOP) (c # t)
          in if strncaseeq (c # t) tok (length (c # t) - length e) then True
             else if e = [] then False
             else find_token_loop e tok)"
  by pat_completeness auto
termination
proof (relation "measure (\<lambda>(s, tok). length s)")
  fix s tok :: cstr and c t e
  assume skip: "skip_while (\<lambda>c. TEST_CHAR c T_HTTP_TOKEN_STOP) s = c # t"
    and e: "e = skip_while (\<lambda>c. \<not> TEST_CHAR c T_HTTP_TOKEN_STOP) (c # t)"
  have "\<not> TEST_CHAR c T_HTTP_TOKEN_STOP"
    using skip hd_dropWhile [of "\<lambda>c. TEST_CHAR c T_HTTP_TOKEN_STOP" s] by simp
  then have "length e \<le> length t" using e by (simp add: length_dropWhile_le)
  moreover have "length (c # t) \<le> length s"
    using skip length_dropWhile_le [of "\<lambda>c. TEST_CHAR c T_HTTP_TOKEN_STOP" s] by simp
  ultimately show "((e, tok), s, tok) \<in> measure (\<lambda>(s, tok). length s)" by simp
qed auto

declare find_token_loop.simps [simp del]

definition ap_find_token :: "cstr option \<Rightarrow> cstr \<Rightarrow> bool" where
  "ap_find_token line tok = (case line of None \<Rightarrow> False | Some s \<Rightarrow> find_token_loop s tok)"

definition ap_find_last_token :: "cstr option \<Rightarrow> cstr \<Rightarrow> bool" where
  "ap_find_last_token line tok =
     (case line of
        None \<Rightarrow> False
      | Some l \<Rightarrow>
          let lidx = int (length l) - int (length tok)
          in if lidx < 0 \<or> (lidx > 0 \<and> \<not> (apr_isspace (l ! nat (lidx - 1)) \<or> l ! nat (lidx - 1) = CHR '',''))
             then False
             else strncaseeq (drop (nat lidx) l) tok (length tok))"

section \<open>Comparing an item is comparing its canonical form\<close>

lemma expect_iff: "expect c t = (if prefix [c] t then Some (drop 1 t) else None)"
  by (cases t) (auto simp: expect_def)

lemma bind_expect_space:
  "Option.bind (expect_space a (Some t)) (expect c)
     = (let out = (if a = 1 then '' '' else []) @ [c]
        in if prefix out t then Some (drop (length out) t) else None)"
  by (cases t; cases "tl t") (auto simp: expect_space_def expect_iff Let_def)

text \<open>As long as the comparison is good, it has consumed what the copying scan appends.\<close>

lemma find_step_get:
  "get_step c st a = (out, a') \<Longrightarrow>
     (prefix out t \<longrightarrow> find_step c st a (Some t) = (Some (drop (length out) t), a'))
   \<and> (\<not> prefix out t \<longrightarrow> fst (find_step c st a (Some t)) = None)"
proof -
  assume g: "get_step c st a = (out, a')"
  let ?goal = "(prefix out t \<longrightarrow> find_step c st a (Some t) = (Some (drop (length out) t), a'))
    \<and> (\<not> prefix out t \<longrightarrow> fst (find_step c st a (Some t)) = None)"
  note defs = get_step_def find_step_def Let_def
  consider "in_qpair st" | "\<not> in_qpair st" "c = CHR 0x5C \<or> c = CHR 0x22 \<or> c = CHR ''(''"
    | "\<not> in_qpair st" "c = CHR '')''"
    | "\<not> in_qpair st" "c = CHR '' '' \<or> c = CHR 0x09"
    | "\<not> in_qpair st" "c = CHR ''='' \<or> c = CHR ''/'' \<or> c = CHR '';''"
    | "\<not> in_qpair st" "\<not> (c = CHR 0x5C \<or> c = CHR 0x22 \<or> c = CHR ''('')" "c \<noteq> CHR '')''"
      "\<not> (c = CHR '' '' \<or> c = CHR 0x09)" "\<not> (c = CHR ''='' \<or> c = CHR ''/'' \<or> c = CHR '';'')"
    by argo
  then show ?goal
  proof cases
    case 1
    then have "out = [c]" "a' = a" "find_step c st a (Some t) = (Option.bind (Some t) (expect c), a)"
      using g by (simp_all add: defs)
    then show ?thesis by (simp add: expect_iff)
  next
    case 2
    then have "out = (if a = 1 then '' '' else []) @ [c]" "a' = 0"
      "find_step c st a (Some t) = (Option.bind (expect_space a (Some t)) (expect c), 0)"
      using g by (simp_all add: defs del: split_paired_All split_paired_Ex)
    then show ?thesis unfolding bind_expect_space Let_def by simp
  next
    case 3
    then have "out = [c]" "a' = 0" "find_step c st a (Some t) = (Option.bind (Some t) (expect c), 0)"
      using g by (simp_all add: defs)
    then show ?thesis by (simp add: expect_iff)
  next
    case 4
    then show ?thesis using g by (simp add: defs expect_iff split: if_splits) auto
  next
    case 5
    have "out = [c]" "find_step c st a (Some t) = (Option.bind (Some t) (expect c), a')"
      using 5(2,1) g by (elim disjE; simp add: defs; fastforce)+
    then show ?thesis by (simp add: expect_iff)
  next
    case 6
    define d where "d = (if in_com (lex_step c st) \<noteq> 0 \<or> in_qstr (lex_step c st) then c else apr_tolower c)"
    have "out = (if a = 1 then '' '' else []) @ [d]" "a' = 0"
      "find_step c st a (Some t) = (Option.bind (expect_space a (Some t)) (expect d), 0)"
      using 6 g by (simp_all add: defs d_def)
    then show ?thesis unfolding bind_expect_space Let_def by simp
  qed
qed

lemma find_step_None: "fst (find_step c st a None) = None"
  by (auto simp: find_step_def Let_def expect_space_def)

lemma find_item_loop_None: "fst (find_item_loop st a None s) = None"
proof (induction s arbitrary: st a)
  case (Cons c s)
  show ?case
    using Cons find_step_None [of c st a] by (cases "find_step c st a None") auto
qed simp

lemma find_item_loop_get:
  "fst (find_item_loop st a (Some t) s)
     = (if prefix (get_item_loop st a s) t then Some (drop (length (get_item_loop st a s)) t) else None)"
proof (induction s arbitrary: st a t)
  case (Cons c s)
  obtain out a' where g: "get_step c st a = (out, a')" by fastforce
  show ?case
  proof (cases "in_quotes st \<or> c \<noteq> CHR '',''")
    case True
    show ?thesis
    proof (cases "prefix out t")
      case pre: True
      then obtain u where u: "t = out @ u" by (auto simp: prefix_def)
      then show ?thesis using True g find_step_get [OF g, of t] Cons [of "lex_step c st" a' u] by simp
    next
      case False
      then have no: "\<not> prefix (out @ x) t" for x using append_prefixD by blast
      obtain a2 where "find_step c st a (Some t) = (None, a2)"
        using find_step_get [OF g, of t] False by (cases "find_step c st a (Some t)") auto
      then show ?thesis using True g no find_item_loop_None by simp
    qed
  qed simp
qed simp

text \<open>An owed space from the item before shows up in front of the next item.\<close>

lemma get_item_loop_owed:
  assumes "\<not> comma_or_space c"
  shows "get_item_loop lex_start a (c # s)
    = (if a = 1 \<and> c \<notin> {CHR '')'', CHR ''='', CHR ''/'', CHR '';''} then '' '' else [])
        @ get_item_loop lex_start 0 (c # s)"
proof -
  have "c \<noteq> CHR '' ''" "c \<noteq> CHR 0x09" "c \<noteq> CHR '',''"
    using assms by (auto simp: comma_or_space_def apr_isspace_def)
  then show ?thesis
    by (auto simp: get_step_def Let_def lex_start_def lex_step_def)
qed

lemma get_item_first: "\<not> comma_or_space c \<Longrightarrow> get_item_loop lex_start a (c # s) \<noteq> []"
proof -
  assume "\<not> comma_or_space c"
  then have "c \<noteq> CHR '' ''" "c \<noteq> CHR 0x09" "c \<noteq> CHR '',''"
    by (auto simp: comma_or_space_def apr_isspace_def)
  then show ?thesis by (auto simp: get_step_def Let_def lex_start_def split: prod.splits)
qed

section \<open>The items of a list\<close>

lemma get_list_item_eq:
  "ap_get_list_item field =
     (case skip_while comma_or_space field of
        [] \<Rightarrow> (None, [])
      | c # s \<Rightarrow> (Some (get_item_loop lex_start 0 (c # s)),
                   skip_while comma_or_space (item_end lex_start (c # s))))"
proof (cases "skip_while comma_or_space field")
  case Nil
  then show ?thesis by (simp add: ap_get_list_item_def ap_size_list_item_def del: skip_while_dropWhile)
next
  case (Cons c s)
  then have "\<not> comma_or_space c" using hd_dropWhile [of comma_or_space field] by simp
  then have "item_end lex_start (c # s) = item_end (lex_step c lex_start) s"
    by (simp add: comma_or_space_def)
  then have "length (c # s) - length (item_end lex_start (c # s)) \<noteq> 0"
    using item_end_le [of "lex_step c lex_start" s] by simp
  then show ?thesis
    using Cons by (simp add: ap_get_list_item_def ap_size_list_item_def Let_def
        del: skip_while_dropWhile item_end.simps get_item_loop.simps)
qed

text \<open>All the items of a field value, in canonical form.\<close>

function list_items :: "cstr \<Rightarrow> cstr list" where
  "list_items line =
     (case skip_while comma_or_space line of
        [] \<Rightarrow> []
      | c # s \<Rightarrow> the (fst (ap_get_list_item line)) # list_items (snd (ap_get_list_item line)))"
  by pat_completeness auto
termination
proof (relation "measure length")
  fix line c s
  assume skip: "skip_while comma_or_space line = c # s"
  have "length (item_end lex_start (c # s)) < length line"
    using find_items_progress [OF skip, of "fst (find_item_loop lex_start 0 None (c # s))"
        "fst (snd (find_item_loop lex_start 0 None (c # s)))" _ 0 None]
      find_item_loop_rest [of lex_start 0 None "c # s"] by (metis prod.collapse)
  then show "(snd (ap_get_list_item line), line) \<in> measure length"
    using skip length_dropWhile_le [of comma_or_space "item_end lex_start (c # s)"]
    by (simp add: get_list_item_eq del: item_end.simps)
qed simp

declare list_items.simps [simp del]

lemma dropWhile_idem [simp]: "dropWhile P (dropWhile P s) = dropWhile P s"
  by (induction s) auto

lemma list_items_alt:
  "list_items line = (case fst (ap_get_list_item line) of
     None \<Rightarrow> [] | Some x \<Rightarrow> x # list_items (snd (ap_get_list_item line)))"
  by (cases "skip_while comma_or_space line"; subst list_items.simps)
    (simp_all add: get_list_item_eq del: skip_while_dropWhile item_end.simps get_item_loop.simps)

lemma list_items_skip: "list_items (dropWhile comma_or_space s) = list_items s"
proof -
  have "ap_get_list_item (dropWhile comma_or_space s) = ap_get_list_item s"
    by (simp add: ap_get_list_item_def ap_size_list_item_def)
  then show ?thesis using list_items_alt by metis
qed

lemma list_items_step:
  "list_items line = (case skip_while comma_or_space line of [] \<Rightarrow> []
     | c # s \<Rightarrow> get_item_loop lex_start 0 (c # s) # list_items (item_end lex_start (c # s)))"
proof (cases "skip_while comma_or_space line")
  case Nil
  then show ?thesis by (subst list_items.simps) (simp del: skip_while_dropWhile)
next
  case (Cons c s)
  then show ?thesis
    by (subst list_items.simps)
      (simp add: get_list_item_eq list_items_skip del: item_end.simps get_item_loop.simps)
qed

section \<open>When a space is owed at the end of an item\<close>

definition blank :: "char \<Rightarrow> bool" where
  "blank c \<longleftrightarrow> c = CHR '' '' \<or> c = CHR 0x09"

text \<open>No comma of the line has a blank right before it.\<close>

fun no_blank_comma :: "cstr \<Rightarrow> bool" where
  "no_blank_comma (c # d # s) \<longleftrightarrow> \<not> (blank c \<and> d = CHR '','') \<and> no_blank_comma (d # s)"
| "no_blank_comma _ = True"

lemma no_blank_comma_tl: "no_blank_comma (c # s) \<Longrightarrow> no_blank_comma s"
  by (cases s) auto

lemma no_blank_comma_append: "no_blank_comma (u @ s) \<Longrightarrow> no_blank_comma s"
  by (induction u) (auto dest: no_blank_comma_tl)

lemma find_step_owed:
  assumes "a = 1 \<Longrightarrow> \<not> in_quotes st \<and> pos \<noteq> None" and "find_step c st a pos = (pos', 1)"
  shows "blank c \<and> \<not> in_quotes (lex_step c st) \<and> pos' \<noteq> None"
proof -
  have "blank c" using assms
    by (auto simp: find_step_def Let_def blank_def in_quotes_def lex_step_def split: if_splits)
  then have b: "c = CHR '' '' \<or> c = CHR 0x09" by (simp add: blank_def)
  then have "lex_step c st = st\<lparr>in_qpair := False\<rparr>" by (auto simp: lex_step_def)
  then show ?thesis using assms \<open>blank c\<close> b
    by (auto simp: find_step_def Let_def in_quotes_def split: if_splits)
qed

lemma find_item_loop_owed:
  "(a = 1 \<Longrightarrow> \<not> in_quotes st \<and> pos \<noteq> None) \<Longrightarrow> find_item_loop st a pos s = (p, 1, r) \<Longrightarrow>
     r \<noteq> [] \<Longrightarrow> (a = 1 \<and> hd s = CHR '','') \<or> \<not> no_blank_comma s"
proof (induction s arbitrary: st a pos)
  case (Cons c s)
  show ?case
  proof (cases "in_quotes st \<or> c \<noteq> CHR '',''")
    case True
    obtain pos' a' where f: "find_step c st a pos = (pos', a')" by fastforce
    have ih: "(a' = 1 \<and> hd s = CHR '','') \<or> \<not> no_blank_comma s"
    proof (rule Cons.IH)
      show "a' = 1 \<Longrightarrow> \<not> in_quotes (lex_step c st) \<and> pos' \<noteq> None"
        using find_step_owed [OF Cons.prems(1)] f by blast
      show "find_item_loop (lex_step c st) a' pos' s = (p, 1, r)" using Cons.prems(2) True f by simp
    qed (rule Cons.prems(3))
    have ne: "s \<noteq> []" using Cons.prems(2,3) True f by (cases s) auto
    show ?thesis
    proof (cases "a' = 1")
      case a: True
      then have "blank c" using find_step_owed [OF Cons.prems(1)] f by blast
      then show ?thesis using ih ne by (cases s) auto
    next
      case False
      then show ?thesis using ih no_blank_comma_tl by blast
    qed
  next
    case False
    then show ?thesis using Cons.prems(2) by auto
  qed
qed simp

lemma find_items_step:
  assumes "skip_while comma_or_space ptr = c # s"
    and "find_item_loop lex_start a (Some tok) (c # s) = (pos, a', r)"
  shows "find_items tok a ptr \<longleftrightarrow>
      get_item_loop lex_start a (c # s) = tok \<or> (r \<noteq> [] \<and> find_items tok a' r)"
    and "r = item_end lex_start (c # s)"
    and "get_item_loop lex_start a (c # s) \<noteq> tok \<Longrightarrow> r \<noteq> [] \<Longrightarrow> a' = 1 \<Longrightarrow> a \<noteq> 1 \<Longrightarrow> \<not> no_blank_comma ptr"
proof -
  have p: "pos = (if prefix (get_item_loop lex_start a (c # s)) tok
      then Some (drop (length (get_item_loop lex_start a (c # s))) tok) else None)"
    using find_item_loop_get [of lex_start a tok "c # s"] assms(2) by (metis fst_conv)
  then have "pos = Some [] \<longleftrightarrow> get_item_loop lex_start a (c # s) = tok"
    by (auto simp: prefix_def simp del: get_item_loop.simps)
  then show "find_items tok a ptr \<longleftrightarrow>
      get_item_loop lex_start a (c # s) = tok \<or> (r \<noteq> [] \<and> find_items tok a' r)"
    using assms by (subst find_items.simps) (simp del: skip_while_dropWhile get_item_loop.simps find_item_loop.simps)
  show "r = item_end lex_start (c # s)"
    using find_item_loop_rest [of lex_start a "Some tok" "c # s"] assms(2) by (metis snd_conv)
  show "\<not> no_blank_comma ptr" if "r \<noteq> []" "a' = 1" "a \<noteq> 1"
  proof -
    have "\<not> no_blank_comma (c # s)"
      using find_item_loop_owed [of a lex_start "Some tok" "c # s" pos r] that assms(2) by simp
    moreover have "ptr = takeWhile comma_or_space ptr @ c # s"
      using assms(1) by (metis skip_while_dropWhile takeWhile_dropWhile_id)
    ultimately show ?thesis using no_blank_comma_append by metis
  qed
qed

lemma item_end_suffix: "\<exists>u. s = u @ item_end st s"
proof (induction s arbitrary: st)
  case (Cons c s)
  obtain u where "s = u @ item_end (lex_step c st) s" using Cons by blast
  then have "c # s = (c # u) @ item_end (lex_step c st) s" by simp
  then show ?case by (cases "in_quotes st \<or> c \<noteq> CHR '',''") (simp_all, metis append_Cons)
qed simp

lemma find_items_sound:
  "find_items tok a line \<Longrightarrow> tok \<noteq> [] \<Longrightarrow> hd tok \<noteq> CHR '' '' \<Longrightarrow> tok \<in> set (list_items line)"
proof (induction "length line" arbitrary: a line rule: less_induct)
  case less
  show ?case
  proof (cases "skip_while comma_or_space line")
    case Nil
    then show ?thesis using less.prems(1) by (simp add: find_items.simps del: skip_while_dropWhile)
  next
    case (Cons c s)
    obtain pos a' r where f: "find_item_loop lex_start a (Some tok) (c # s) = (pos, a', r)"
      by (metis prod_cases3)
    note step = find_items_step [OF Cons f]
    have c: "\<not> comma_or_space c" using Cons hd_dropWhile [of comma_or_space line] by simp
    have items: "list_items line = get_item_loop lex_start 0 (c # s) # list_items r"
      using list_items_step [of line] Cons step(2) by simp
    show ?thesis
    proof (cases "get_item_loop lex_start a (c # s) = tok")
      case True
      then have "get_item_loop lex_start 0 (c # s) = tok"
        using get_item_loop_owed [OF c, of a s] less.prems(3) by (auto split: if_splits)
      then show ?thesis using items by simp
    next
      case False
      then have "find_items tok a' r" using step(1) less.prems(1) by blast
      moreover have "length r < length line" using find_items_progress [OF Cons] f by metis
      ultimately show ?thesis using less.hyps less.prems(2,3) items by auto
    qed
  qed
qed

lemma find_items_complete:
  "no_blank_comma line \<Longrightarrow> a \<noteq> 1 \<Longrightarrow> find_items tok a line \<longleftrightarrow> tok \<in> set (list_items line)"
proof (induction "length line" arbitrary: a line rule: less_induct)
  case less
  show ?case
  proof (cases "skip_while comma_or_space line")
    case Nil
    then show ?thesis
      using list_items_step [of line] by (simp add: find_items.simps del: skip_while_dropWhile)
  next
    case (Cons c s)
    obtain pos a' r where f: "find_item_loop lex_start a (Some tok) (c # s) = (pos, a', r)"
      by (metis prod_cases3)
    note step = find_items_step [OF Cons f]
    have c: "\<not> comma_or_space c" using Cons hd_dropWhile [of comma_or_space line] by simp
    have items: "list_items line = get_item_loop lex_start 0 (c # s) # list_items r"
      using list_items_step [of line] Cons step(2) by simp
    have same: "get_item_loop lex_start a (c # s) = get_item_loop lex_start 0 (c # s)"
      using get_item_loop_owed [OF c, of a s] less.prems(2) by simp
    have rest: "find_items tok a' r \<longleftrightarrow> tok \<in> set (list_items r)"
      if "r \<noteq> []" "get_item_loop lex_start a (c # s) \<noteq> tok"
    proof (rule less.hyps)
      show "length r < length line" using find_items_progress [OF Cons] f by metis
      have "line = takeWhile comma_or_space line @ c # s"
        using Cons by (metis skip_while_dropWhile takeWhile_dropWhile_id)
      then obtain u where "line = u @ r" using item_end_suffix [of "c # s" lex_start] step(2)
        by (metis append_assoc)
      then show "no_blank_comma r" using less.prems(1) no_blank_comma_append by blast
      show "a' \<noteq> 1" using step(3) [OF that(2,1)] less.prems by blast
    qed
    have "list_items [] = []" by (simp add: list_items.simps)
    then show ?thesis unfolding step(1) items same set_simps insert_iff
      using rest [unfolded same] by (cases "r = []") (auto simp del: get_item_loop.simps)
  qed
qed

section \<open>Tokens\<close>

lemma strncaseeq_prefix:
  "strncaseeq (u @ s) tok (length u) \<longleftrightarrow> prefix (map apr_tolower u) (map apr_tolower tok)"
proof (induction u arbitrary: tok)
  case (Cons c u)
  then show ?case by (cases tok) auto
qed simp

lemma strncaseeq_same:
  "length s = length tok \<Longrightarrow> strncaseeq s tok (length tok) \<longleftrightarrow> map apr_tolower s = map apr_tolower tok"
  by (induction s tok rule: list_induct2) auto

abbreviation token_words :: "cstr \<Rightarrow> cstr list" where
  "token_words line \<equiv>
     filter (\<lambda>x. x \<noteq> []) (pieces (\<lambda>c. TEST_CHAR c T_HTTP_TOKEN_STOP) line)"

lemma find_token_words:
  "find_token_loop s tok \<longleftrightarrow>
     (\<exists>w \<in> set (token_words s). prefix (map apr_tolower w) (map apr_tolower tok))"
proof (induction "length s" arbitrary: s rule: less_induct)
  case less
  let ?P = "\<lambda>c. TEST_CHAR c T_HTTP_TOKEN_STOP"
  show ?case
  proof (cases "dropWhile ?P s")
    case Nil
    then have "token_words s = []"
      using pieces_skip [of ?P s] by (simp del: dropWhile_eq_Nil_conv)
    moreover have "\<not> find_token_loop s tok"
      using Nil by (subst find_token_loop.simps) (simp del: dropWhile_eq_Nil_conv)
    ultimately show ?thesis by simp
  next
    case (Cons c t)
    let ?w = "takeWhile (\<lambda>c. \<not> ?P c) (c # t)" and ?e = "dropWhile (\<lambda>c. \<not> ?P c) (c # t)"
    have c: "\<not> ?P c" using Cons hd_dropWhile [of ?P s] by simp
    have words: "token_words s = ?w # token_words ?e"
    proof -
      have "token_words s = token_words (c # t)" using pieces_skip [of ?P s] Cons by simp
      also have "\<dots> = ?w # token_words ?e"
      proof (cases ?e)
        case Nil
        then have "?w = c # t" using takeWhile_dropWhile_id [of "\<lambda>c. \<not> ?P c" "c # t"] by simp
        moreover have "pieces ?P (c # t) = [c # t]"
          using pieces_split [of ?P "c # t"] unfolding Nil by simp
        ultimately show ?thesis unfolding Nil by simp
      next
        case (Cons d v)
        have "?P d" using Cons hd_dropWhile [of "\<lambda>c. \<not> ?P c" "c # t"] by simp
        moreover have "?w \<noteq> []" using c by simp
        moreover have "pieces ?P (c # t) = ?w # pieces ?P v"
          using pieces_split [of ?P "c # t"] unfolding Cons by simp
        ultimately show ?thesis unfolding Cons by simp
      qed
      finally show ?thesis .
    qed
    have len: "length (c # t) - length ?e = length ?w" and split: "c # t = ?w @ ?e"
    proof -
      show "c # t = ?w @ ?e" by (rule takeWhile_dropWhile_id [symmetric])
      then have "length (c # t) = length ?w + length ?e" by (metis length_append)
      then show "length (c # t) - length ?e = length ?w" by linarith
    qed
    have eq: "strncaseeq (c # t) tok (length ?w) \<longleftrightarrow> prefix (map apr_tolower ?w) (map apr_tolower tok)"
      using strncaseeq_prefix [of ?w ?e tok] split by metis
    have step: "find_token_loop s tok \<longleftrightarrow>
        strncaseeq (c # t) tok (length ?w) \<or> (?e \<noteq> [] \<and> find_token_loop ?e tok)"
      using Cons by (subst find_token_loop.simps) (simp only: skip_while_dropWhile list.case Let_def len, simp)
    have "length ?e < length s"
      using c length_dropWhile_le [of "\<lambda>c. \<not> ?P c" t] length_dropWhile_le [of ?P s] Cons by simp
    then have "find_token_loop ?e tok \<longleftrightarrow>
        (\<exists>w \<in> set (token_words ?e). prefix (map apr_tolower w) (map apr_tolower tok))"
      by (rule less.hyps)
    moreover have "token_words [] = []" by simp
    ultimately show ?thesis unfolding words step eq by (cases "?e = []") auto
  qed
qed

section \<open>Properties\<close>

text \<open>
  C37. Looking up an item of a header list agrees with taking the list apart:
  an item that ap_find_list_item finds is one of those ap_get_list_item
  returns, and, in a list without blanks before its commas, the items found
  are exactly those.
\<close>

theorem find_list_item_correct:
  shows "(tok \<noteq> [] \<and> hd tok \<noteq> CHR '' '' \<and> ap_find_list_item (Some line) (Some tok)
      \<longrightarrow> tok \<in> set (list_items line))
    \<and> (no_blank_comma line \<longrightarrow>
        (ap_find_list_item (Some line) (Some tok) \<longleftrightarrow> tok \<in> set (list_items line)))"
  using find_items_sound [of tok 0 line] find_items_complete [of line 0 tok]
  by (simp add: ap_find_list_item_def)

theorem find_list_item_correct_witness:
  "ap_find_list_item (Some ''a,b'') (Some ''b'') \<and> ''b'' \<in> set (list_items ''a,b'')"
proof -
  have "ap_find_list_item (Some ''a,b'') (Some ''b'')" by code_simp
  then show ?thesis using find_list_item_correct [of "''b''" "''a,b''"] by (simp add: blank_def)
qed

text \<open>
  With a blank before a comma an item can be missed: the space owed at the end
  of an item that is a beginning of the wanted one is demanded of the next.
\<close>

theorem find_list_item_misses:
  "list_items ''a , ab'' = [''a'', ''ab''] \<and> \<not> ap_find_list_item (Some ''a , ab'') (Some ''ab'')"
  by code_simp

text \<open>
  Looking for a token in a header line: ap_find_token finds it if one of
  the words between the separators, letter case aside, is a beginning of the
  token, so a whole word is always found, but so is a mere beginning;
  ap_find_last_token compares the whole token with the end of the line, at a
  word boundary.
\<close>

theorem find_token_matches_prefixes:
  "(ap_find_token (Some line) tok \<longleftrightarrow>
      (\<exists>w \<in> set (token_words line). prefix (map apr_tolower w) (map apr_tolower tok)))
   \<and> (ap_find_last_token (Some line) tok \<longleftrightarrow>
      (\<exists>u w. line = u @ w \<and> map apr_tolower w = map apr_tolower tok
        \<and> (u = [] \<or> apr_isspace (last u) \<or> last u = CHR '','')))
   \<and> ap_find_token (Some ''clo'') ''close''"
proof (intro conjI)
  show find: "ap_find_token (Some line) tok \<longleftrightarrow>
      (\<exists>w \<in> set (token_words line). prefix (map apr_tolower w) (map apr_tolower tok))" for line tok
    by (simp add: ap_find_token_def find_token_words)
  show "ap_find_token (Some ''clo'') ''close''" by code_simp
  show "ap_find_last_token (Some line) tok \<longleftrightarrow>
      (\<exists>u w. line = u @ w \<and> map apr_tolower w = map apr_tolower tok
        \<and> (u = [] \<or> apr_isspace (last u) \<or> last u = CHR '',''))" (is "?f \<longleftrightarrow> ?r")
  proof
    assume f: ?f
    define k where "k = nat (int (length line) - int (length tok))"
    have le: "length tok \<le> length line" using f by (auto simp: ap_find_last_token_def Let_def split: if_splits)
    have k: "k + length tok = length line" using le by (simp add: k_def)
    have "map apr_tolower (drop k line) = map apr_tolower tok"
      using f k strncaseeq_same [of "drop k line" tok]
      by (auto simp: ap_find_last_token_def Let_def k_def split: if_splits)
    moreover have "take k line = [] \<or> apr_isspace (last (take k line)) \<or> last (take k line) = CHR '',''"
    proof (cases "k = 0")
      case False
      then have "last (take k line) = line ! (k - 1)" "take k line \<noteq> []"
        using False k last_conv_nth [of "take k line"] by (cases line, auto)+
      moreover have "nat (int (length line) - int (length tok) - 1) = k - 1" by (simp add: k_def)
      ultimately show ?thesis
        using f False by (auto simp: ap_find_last_token_def Let_def k_def split: if_splits)
    qed simp
    ultimately show ?r by (intro exI [of _ "take k line"] exI [of _ "drop k line"]) simp
  next
    assume ?r
    then obtain u w where u: "line = u @ w" "map apr_tolower w = map apr_tolower tok"
      "u = [] \<or> apr_isspace (last u) \<or> last u = CHR '',''" by blast
    have len: "length w = length tok" using u(2) by (metis length_map)
    have idx: "int (length line) - int (length tok) = int (length u)" using u(1) len by simp
    have l: "u \<noteq> [] \<Longrightarrow> line ! nat (int (length u) - 1) = last u"
    proof -
      assume "u \<noteq> []"
      moreover have "nat (int (length u) - 1) = length u - 1" by simp
      ultimately show ?thesis using u(1) by (simp add: last_conv_nth nth_append)
    qed
    show ?f
      unfolding ap_find_last_token_def option.case Let_def idx
      using u l strncaseeq_same [OF len] by (cases "u = []") auto
  qed
qed

end
