(* ===== verification/Util_Cfg.thy ===== *)
theory Util_Cfg
  imports Util_Word
begin

text \<open>
  Reading configuration lines: ap_cfg_getc and both branches of
  ap_cfg_getline in server/util.c, over a file given as the list of the
  characters still to come, and apr_file_gets of
  srclib/apr/file_io/unix/readwrite.c, which the getstr function of a
  configuration file calls. The characters below index i of the buffer are
  the list buf, so i is its length. Two properties of C strings matter for
  files with unusual bytes: cfg_getch returns its signed char as an int, so the
  byte 0xFF is taken for EOF, and the branch that reads lines goes by the NUL
  that ends a C string, so what follows a NUL byte in a line is not looked at.
\<close>

abbreviation LF :: char where "LF \<equiv> CHR 0x0A"
abbreviation CR :: char where "CR \<equiv> CHR 0x0D"
abbreviation backslash :: char where "backslash \<equiv> CHR 0x5C"

definition is_blank :: "char \<Rightarrow> bool" where
  "is_blank c \<longleftrightarrow> c = CHR 0x09 \<or> c = CHR '' ''"

section \<open>Character by character\<close>

text \<open>cfg_getch: None stands for EOF, which as an int is the signed char 0xFF.\<close>

definition getch :: "cstr \<Rightarrow> char option \<times> cstr" where
  "getch inp = (case inp of
     [] \<Rightarrow> (None, [])
   | c # s \<Rightarrow> (if c = CHR 0xFF then None else Some c, s))"

lemma getch_simps [simp]:
  "getch [] = (None, [])" "getch (c # s) = (if c = CHR 0xFF then None else Some c, s)"
  by (simp_all add: getch_def)

definition ap_cfg_getc :: "cstr \<Rightarrow> nat \<Rightarrow> char option \<times> cstr \<times> nat" where
  "ap_cfg_getc inp line_number =
     (case getch inp of (ch, inp') \<Rightarrow>
        (ch, inp', if ch = Some LF then line_number + 1 else line_number))"

text \<open>The next character that is no blank.\<close>

fun get_nonblank :: "cstr \<Rightarrow> char option \<times> cstr" where
  "get_nonblank [] = (None, [])"
| "get_nonblank (c # s) = (if is_blank c then get_nonblank s else getch (c # s))"

text \<open>The top of the loop: a run of blanks is one space, CR is skipped, LF counted.\<close>

definition cfg_prepare :: "char option \<Rightarrow> cstr \<Rightarrow> cstr \<Rightarrow> nat \<Rightarrow> char option \<times> cstr \<times> cstr \<times> nat" where
  "cfg_prepare c inp buf ln =
     (let (c, inp, buf) =
            (if c \<noteq> None \<and> is_blank (the c)
             then case get_nonblank inp of (c', inp') \<Rightarrow> (c', inp', buf @ '' '')
             else (c, inp, buf));
          (c, inp) = (if c = Some CR then getch inp else (c, inp))
      in (c, inp, buf, if c = Some LF then ln + 1 else ln))"

definition rstrip :: "cstr \<Rightarrow> cstr" where
  "rstrip s = rev (dropWhile apr_isspace (rev s))"

definition ends_with :: "cstr \<Rightarrow> char \<Rightarrow> bool" where
  "ends_with s c \<longleftrightarrow> s \<noteq> [] \<and> last s = c"

lemma ends_with_iff: "ends_with s c \<longleftrightarrow> (\<exists>u. s = u @ [c])"
  by (cases s rule: rev_cases) (auto simp: ends_with_def)

definition left_over :: "char option \<Rightarrow> cstr \<Rightarrow> nat" where
  "left_over c inp = length inp + (if c = None then 0 else 1)"

lemma get_nonblank_le: "left_over (fst (get_nonblank s)) (snd (get_nonblank s)) \<le> length s"
  by (induction s) (auto simp: left_over_def)

lemma getch_le: "left_over (fst (getch s)) (snd (getch s)) \<le> length s"
  by (cases s) (auto simp: left_over_def)

lemma cfg_prepare_le:
  assumes "cfg_prepare c inp buf ln = (c', inp', buf', ln')"
  shows "left_over c' inp' \<le> left_over c inp" "c = None \<Longrightarrow> c' = None \<and> buf' = buf"
    "left_over c' inp' = left_over c inp \<Longrightarrow> buf' = buf"
    "buf' = buf \<or> (buf' = buf @ '' '' \<and> c \<noteq> None \<and> is_blank (the c))"
proof -
  have "left_over c' inp' \<le> left_over c inp \<and> (c = None \<longrightarrow> c' = None \<and> buf' = buf)
    \<and> (left_over c' inp' = left_over c inp \<longrightarrow> buf' = buf)
    \<and> (buf' = buf \<or> (buf' = buf @ '' '' \<and> c \<noteq> None \<and> is_blank (the c)))"
    using assms get_nonblank_le [of inp] getch_le [of inp] getch_le [of "snd (get_nonblank inp)"]
    by (auto simp: cfg_prepare_def Let_def left_over_def split: prod.splits if_splits)
  then show "left_over c' inp' \<le> left_over c inp" "c = None \<Longrightarrow> c' = None \<and> buf' = buf"
    "left_over c' inp' = left_over c inp \<Longrightarrow> buf' = buf"
    "buf' = buf \<or> (buf' = buf @ '' '' \<and> c \<noteq> None \<and> is_blank (the c))" by blast+
qed

function cfg_chr_loop :: "nat \<Rightarrow> char option \<Rightarrow> cstr \<Rightarrow> cstr \<Rightarrow> nat \<Rightarrow> cstr \<times> cstr \<times> nat" where
  "cfg_chr_loop bufsize c inp buf ln =
     (case cfg_prepare c inp buf ln of
        (c', inp', buf', ln') \<Rightarrow>
          if c' = None \<or> c' = Some CHR 0x04 \<or> c' = Some LF \<or> length buf' \<ge> bufsize - 2 then
            if ends_with buf' backslash then
              if \<not> ends_with (butlast buf') backslash then
                cfg_chr_loop bufsize (fst (getch inp')) (snd (getch inp')) (butlast buf') ln'
              else (rstrip (butlast buf'), inp', ln')
            else (rstrip buf', inp', ln')
          else cfg_chr_loop bufsize (fst (getch inp')) (snd (getch inp')) (buf' @ [the c']) ln')"
  by pat_completeness auto
termination
proof (relation "measures [\<lambda>(b, c, inp, buf, ln). left_over c inp, \<lambda>(b, c, inp, buf, ln). length buf]")
  fix bufsize :: nat and c inp buf and ln :: nat and c' y inp' z buf' ln'
  assume x: "(c', y) = cfg_prepare c inp buf ln" "(inp', z) = y" "(buf', ln') = z"
  then have p: "cfg_prepare c inp buf ln = (c', inp', buf', ln')" by simp
  note le = cfg_prepare_le [OF p] getch_le [of inp']
  show "((bufsize, fst (getch inp'), snd (getch inp'), butlast buf', ln'), bufsize, c, inp, buf, ln)
      \<in> measures [\<lambda>(b, c, inp, buf, ln). left_over c inp, \<lambda>(b, c, inp, buf, ln). length buf]"
    if "ends_with buf' backslash"
    using le that by (cases "c' = None") (auto simp: left_over_def ends_with_def)
  show "((bufsize, fst (getch inp'), snd (getch inp'), buf' @ [the c'], ln'), bufsize, c, inp, buf, ln)
      \<in> measures [\<lambda>(b, c, inp, buf, ln). left_over c inp, \<lambda>(b, c, inp, buf, ln). length buf]"
    if "\<not> (c' = None \<or> c' = Some CHR 0x04 \<or> c' = Some LF \<or> length buf' \<ge> bufsize - 2)"
    using le that by (auto simp: left_over_def)
qed auto

declare cfg_chr_loop.simps [simp del]

text \<open>None stands for the return value 1.\<close>

definition ap_cfg_getline_chr :: "nat \<Rightarrow> cstr \<Rightarrow> nat \<Rightarrow> cstr option \<times> cstr \<times> nat" where
  "ap_cfg_getline_chr bufsize inp line_number =
     (case get_nonblank inp of
        (c, inp') \<Rightarrow>
          if c = None then (None, inp', line_number)
          else if bufsize < 2 then (None, inp', line_number)
          else case cfg_chr_loop bufsize c inp' [] line_number of
                 (buf, inp'', ln) \<Rightarrow> (Some buf, inp'', ln))"

section \<open>Line by line\<close>

text \<open>The characters stored by apr_file_gets; None when it stored none and reports EOF.\<close>

fun gets_loop :: "nat \<Rightarrow> cstr \<Rightarrow> cstr \<times> cstr" where
  "gets_loop 0 inp = ([], inp)"
| "gets_loop (Suc room) [] = ([], [])"
| "gets_loop (Suc room) (c # inp) =
     (if c = LF then ([c], inp) else case gets_loop room inp of (s, inp') \<Rightarrow> (c # s, inp'))"

definition apr_file_gets :: "nat \<Rightarrow> cstr \<Rightarrow> (cstr \<times> cstr) option" where
  "apr_file_gets len inp =
     (if len \<le> 1 then Some ([], inp)
      else case gets_loop (len - 1) inp of
             (s, inp') \<Rightarrow> if s \<noteq> [] then Some (s, inp') else None)"

text \<open>What the scan for the end of the line and strlen see of the characters stored.\<close>

definition c_string :: "cstr \<Rightarrow> cstr" where
  "c_string s = takeWhile (\<lambda>c. c \<noteq> CHR 0x00) s"

text \<open>
  What a line read into cbuf means: continued (with the text before the
  backslash), or complete, an escaping backslash taken out.
\<close>

datatype line_kind = Continued cstr | Complete cstr

definition classify_line :: "cstr \<Rightarrow> line_kind" where
  "classify_line line =
     (if ends_with line LF then
        let l1 = butlast line;
            l2 = (if ends_with l1 CR then butlast l1 else l1)
        in if ends_with l2 backslash then
             let cp = butlast l2
             in if \<not> ends_with cp backslash then Continued cp
                else Complete (cp @ drop (length cp + 1) line)
           else Complete line
      else Complete line)"

lemma gets_loop_split: "gets_loop n inp = (s, inp') \<Longrightarrow> inp = s @ inp' \<and> length s \<le> n"
  by (induction n inp arbitrary: s inp' rule: gets_loop.induct) (auto split: if_splits prod.splits)

lemma file_gets_split: "apr_file_gets len inp = Some (s, inp') \<Longrightarrow> inp = s @ inp' \<and> length s \<le> len - 1"
  using gets_loop_split [of "len - 1" inp s inp'] by (auto simp: apr_file_gets_def split: if_splits prod.splits)

lemma c_string_le: "length (c_string s) \<le> length s"
  by (simp add: c_string_def length_takeWhile_le)

lemma classify_Continued: "classify_line (c_string line) = Continued cp \<Longrightarrow> length cp + 2 \<le> length line"
  using c_string_le [of line]
  by (auto simp: classify_line_def Let_def ends_with_iff butlast_append split: if_splits)

function cfg_str_loop :: "cstr \<Rightarrow> nat \<Rightarrow> cstr \<Rightarrow> nat \<Rightarrow> cstr option \<times> cstr \<times> nat" where
  "cfg_str_loop pre cbufsize inp ln =
     (case apr_file_gets cbufsize inp of
        None \<Rightarrow> (None, inp, ln + 1)
      | Some (line, inp') \<Rightarrow>
          (case classify_line (c_string line) of
             Continued cp \<Rightarrow> cfg_str_loop (pre @ cp) (cbufsize - length cp) inp' (ln + 1)
           | Complete text \<Rightarrow> (Some (pre @ text), inp', ln + 1)))"
  by pat_completeness auto
termination
proof (relation "measure (\<lambda>(d, s, inp, ln). length inp)")
  fix pre :: cstr and cbufsize inp ln x line inp' cp
  assume "apr_file_gets cbufsize inp = Some x" "(line, inp') = x" "classify_line (c_string line) = Continued cp"
  then have "inp = line @ inp'" "length cp + 2 \<le> length line"
    using file_gets_split classify_Continued by auto
  then show "((pre @ cp, cbufsize - length cp, inp', ln + 1), pre, cbufsize, inp, ln)
      \<in> measure (\<lambda>(d, s, inp, ln). length inp)" by (cases line) auto
qed auto

declare cfg_str_loop.simps [simp del]

definition strip_space :: "cstr \<Rightarrow> cstr" where
  "strip_space s = rstrip (dropWhile apr_isspace s)"

definition ap_cfg_getline_str :: "nat \<Rightarrow> cstr \<Rightarrow> nat \<Rightarrow> cstr option \<times> cstr \<times> nat" where
  "ap_cfg_getline_str bufsize inp line_number =
     (case cfg_str_loop [] bufsize inp line_number of
        (None, inp', ln) \<Rightarrow> (None, inp', ln)
      | (Some buf, inp', ln) \<Rightarrow> (Some (strip_space buf), inp', ln))"

section \<open>Bounds\<close>






section \<open>Logical lines\<close>

text \<open>Physical lines, each but the last one ended by a backslash.\<close>

fun logical_line :: "cstr list \<Rightarrow> cstr" where
  "logical_line [] = [LF]"
| "logical_line [p] = p @ [LF]"
| "logical_line (p # ps) = p @ [backslash, LF] @ logical_line ps"

definition clean_text :: "cstr \<Rightarrow> bool" where
  "clean_text s \<longleftrightarrow> set s \<inter> {LF, CR, backslash, CHR 0x04, CHR 0x00, CHR 0xFF} = {}"

lemma clean_text_simps [simp]: "clean_text []" "clean_text (s @ t) \<longleftrightarrow> clean_text s \<and> clean_text t"
  "clean_text (c # s) \<longleftrightarrow> c \<notin> {LF, CR, backslash, CHR 0x04, CHR 0x00, CHR 0xFF} \<and> clean_text s"
  by (auto simp: clean_text_def)

text \<open>Runs of blanks become single spaces.\<close>

function squeeze :: "cstr \<Rightarrow> cstr" where
  "squeeze [] = []"
| "squeeze (c # s) = (if is_blank c then CHR '' '' # squeeze (dropWhile is_blank s) else c # squeeze s)"
  by pat_completeness auto
termination
  by (relation "measure length") (auto simp: less_Suc_eq_le length_dropWhile_le)

lemma gets_loop_line:
  "LF \<notin> set u \<Longrightarrow> length u + 1 \<le> n \<Longrightarrow> gets_loop n (u @ LF # s) = (u @ [LF], s)"
proof (induction u arbitrary: n)
  case Nil
  then show ?case by (cases n) auto
next
  case (Cons c u)
  then show ?case by (cases n) auto
qed

lemma file_gets_line:
  "LF \<notin> set u \<Longrightarrow> length u + 2 \<le> n \<Longrightarrow> apr_file_gets n (u @ LF # s) = Some (u @ [LF], s)"
  using gets_loop_line [of u "n - 1" s] by (simp add: apr_file_gets_def)

lemma clean_ends: "clean_text u \<Longrightarrow> \<not> ends_with u backslash \<and> \<not> ends_with u CR \<and> LF \<notin> set u"
  by (cases u rule: rev_cases) (auto simp: ends_with_def clean_text_def)

lemma c_string_clean:
  assumes "clean_text u"
  shows "c_string (u @ [LF]) = u @ [LF]" "c_string (u @ [backslash, LF]) = u @ [backslash, LF]"
  using assms by (auto simp: c_string_def clean_text_def takeWhile_eq_all_conv)

lemma classify_clean:
  assumes "clean_text u"
  shows "classify_line (u @ [LF]) = Complete (u @ [LF])"
    and "classify_line (u @ [backslash, LF]) = Continued u"
  using clean_ends [OF assms] by (auto simp: classify_line_def ends_with_def Let_def butlast_append)

lemma cfg_str_loop_logical:
  "ps \<noteq> [] \<Longrightarrow> (\<forall>p \<in> set ps. clean_text p) \<Longrightarrow> length (concat ps) + 3 \<le> cbufsize \<Longrightarrow>
     cfg_str_loop pre cbufsize (logical_line ps @ rest) ln
       = (Some (pre @ concat ps @ [LF]), rest, ln + length ps)"
proof (induction ps arbitrary: pre cbufsize ln rule: logical_line.induct)
  case (2 p)
  have "apr_file_gets cbufsize (p @ LF # rest) = Some (p @ [LF], rest)"
    using 2 clean_ends [of p] by (intro file_gets_line) auto
  then show ?case using 2 by (subst cfg_str_loop.simps) (simp add: classify_clean c_string_clean)
next
  case (3 p q ps)
  have "apr_file_gets cbufsize ((p @ [backslash]) @ LF # logical_line (q # ps) @ rest)
      = Some ((p @ [backslash]) @ [LF], logical_line (q # ps) @ rest)"
    using 3(3,4) clean_ends [of p] by (intro file_gets_line) auto
  then have "cfg_str_loop pre cbufsize (logical_line (p # q # ps) @ rest) ln
      = cfg_str_loop (pre @ p) (cbufsize - length p) (logical_line (q # ps) @ rest) (ln + 1)"
    using 3(3) by (subst cfg_str_loop.simps) (simp add: classify_clean c_string_clean)
  then show ?case using 3(1) [of "cbufsize - length p" "pre @ p" "ln + 1"] 3(3,4) by simp
qed simp

text \<open>The character loop with its next character still in the file.\<close>

definition chr_at :: "nat \<Rightarrow> cstr \<Rightarrow> cstr \<Rightarrow> nat \<Rightarrow> cstr \<times> cstr \<times> nat" where
  "chr_at bufsize inp buf ln = cfg_chr_loop bufsize (fst (getch inp)) (snd (getch inp)) buf ln"

lemma get_nonblank_run: "\<forall>b \<in> set bl. is_blank b \<Longrightarrow> \<not> is_blank d \<Longrightarrow> get_nonblank (bl @ d # s) = getch (d # s)"
  by (induction bl) auto

lemma chr_at_blanks:
  assumes "is_blank b" "\<forall>b \<in> set bl. is_blank b" "\<not> is_blank d" "d \<noteq> CR" "d \<noteq> CHR 0xFF"
  shows "chr_at bufsize (b # bl @ d # s) buf ln = chr_at bufsize (d # s) (buf @ '' '') ln"
proof -
  have "cfg_prepare (Some b) (bl @ d # s) buf ln = cfg_prepare (Some d) s (buf @ '' '') ln"
    using assms get_nonblank_run [OF assms(2,3)] by (simp add: cfg_prepare_def)
  moreover have "b \<noteq> CHR 0xFF" using assms(1) by (auto simp: is_blank_def)
  ultimately show ?thesis using assms(5)
    by (simp add: chr_at_def cfg_chr_loop.simps [of _ "Some b"] cfg_chr_loop.simps [of _ "Some d"])
qed

lemma chr_at_plain:
  assumes "\<not> is_blank c" "c \<notin> {LF, CR, CHR 0x04, CHR 0xFF}" "length buf < bufsize - 2"
  shows "chr_at bufsize (c # s) buf ln = chr_at bufsize s (buf @ [c]) ln"
proof -
  have "cfg_prepare (Some c) s buf ln = (Some c, s, buf, ln)"
    using assms by (simp add: cfg_prepare_def)
  then show ?thesis using assms by (simp add: chr_at_def cfg_chr_loop.simps [of _ "Some c"])
qed

lemma chr_at_run:
  "clean_text u \<Longrightarrow> \<not> is_blank d \<Longrightarrow> d \<noteq> CR \<Longrightarrow> d \<noteq> CHR 0xFF \<Longrightarrow> length buf + length u \<le> bufsize - 2 \<Longrightarrow>
     chr_at bufsize (u @ d # s) buf ln = chr_at bufsize (d # s) (buf @ squeeze u) ln"
proof (induction u arbitrary: buf rule: squeeze.induct)
  case (2 c u)
  show ?case
  proof (cases "is_blank c")
    case True
    let ?bl = "takeWhile is_blank u" and ?v = "dropWhile is_blank u"
    have u: "u = ?bl @ ?v" by simp
    have cv: "clean_text ?v" using 2(3) u clean_text_simps by metis
    have bl: "\<forall>b \<in> set ?bl. is_blank b" by (auto dest: set_takeWhileD)
    have len: "length ?v \<le> length u" by (rule length_dropWhile_le)
    have ih: "chr_at bufsize (?v @ d # s) (buf @ '' '') ln = chr_at bufsize (d # s) ((buf @ '' '') @ squeeze ?v) ln"
      by (rule 2(1)) (use True cv 2(4-7) len in auto)
    have "chr_at bufsize (c # ?bl @ ?v @ d # s) buf ln = chr_at bufsize (?v @ d # s) (buf @ '' '') ln"
    proof (cases ?v)
      case Nil
      show ?thesis unfolding Nil append_Nil by (rule chr_at_blanks) (use True bl 2(4-6) in auto)
    next
      case (Cons e w)
      then have "\<not> is_blank e" using hd_dropWhile [of is_blank u] by simp
      moreover have "e \<noteq> CR" "e \<noteq> CHR 0xFF" using cv Cons by simp_all
      ultimately show ?thesis unfolding Cons append_Cons using chr_at_blanks [OF True bl] by simp
    qed
    then show ?thesis using ih True u by (metis append_Cons append_assoc squeeze.simps(2) append_Nil)
  next
    case False
    have "chr_at bufsize ((c # u) @ d # s) buf ln = chr_at bufsize (u @ d # s) (buf @ [c]) ln"
      unfolding append_Cons by (rule chr_at_plain) (use False 2(3,7) in auto)
    also have "\<dots> = chr_at bufsize (d # s) ((buf @ [c]) @ squeeze u) ln"
      by (rule 2(2)) (use False 2(3-7) in auto)
    finally show ?thesis using False by simp
  qed
qed simp

lemma squeeze_le: "length (squeeze u) \<le> length u"
proof (induction u rule: squeeze.induct)
  case (2 c u)
  then show ?case using length_dropWhile_le [of is_blank u] by auto
qed simp

lemma squeeze_clean: "clean_text u \<Longrightarrow> clean_text (squeeze u)"
proof (induction u rule: squeeze.induct)
  case (2 c u)
  have "clean_text (dropWhile is_blank u)" using 2(3)
    by (metis clean_text_simps(2,3) takeWhile_dropWhile_id)
  then show ?case using 2 by auto
qed simp

lemma chr_at_logical:
  "ps \<noteq> [] \<Longrightarrow> (\<forall>p \<in> set ps. clean_text p) \<Longrightarrow> clean_text buf \<Longrightarrow>
     length buf + length (concat ps) + 3 \<le> bufsize \<Longrightarrow>
     chr_at bufsize (logical_line ps @ rest) buf ln
       = (rstrip (buf @ concat (map squeeze ps)), rest, ln + length ps)"
proof (induction ps arbitrary: buf ln rule: logical_line.induct)
  case (2 p)
  have "chr_at bufsize (p @ LF # rest) buf ln = chr_at bufsize (LF # rest) (buf @ squeeze p) ln"
    by (rule chr_at_run) (use 2 in \<open>auto simp: is_blank_def\<close>)
  moreover have "chr_at bufsize (LF # rest) b ln = (rstrip b, rest, ln + 1)" if "clean_text b" for b
    using clean_ends [OF that] by (simp add: chr_at_def cfg_chr_loop.simps [of _ "Some LF"] cfg_prepare_def is_blank_def)
  ultimately show ?case using 2 squeeze_clean by simp
next
  case (3 p q ps)
  let ?s = "logical_line (q # ps) @ rest" and ?b = "buf @ squeeze p"
  have b: "clean_text ?b" using 3(3,4) squeeze_clean by simp
  have len: "length ?b < bufsize - 2" using 3(5) squeeze_le [of p] by simp
  have "chr_at bufsize (p @ backslash # LF # ?s) buf ln = chr_at bufsize (backslash # LF # ?s) ?b ln"
    by (rule chr_at_run) (use 3(3,5) in \<open>auto simp: is_blank_def\<close>)
  also have "\<dots> = chr_at bufsize (LF # ?s) (?b @ [backslash]) ln"
    by (rule chr_at_plain) (use len in \<open>auto simp: is_blank_def\<close>)
  also have "\<dots> = chr_at bufsize ?s ?b (ln + 1)"
  proof -
    have "cfg_prepare (Some LF) ?s (?b @ [backslash]) ln = (Some LF, ?s, ?b @ [backslash], ln + 1)"
      by (simp add: cfg_prepare_def is_blank_def)
    then show ?thesis
      using clean_ends [OF b] by (simp add: chr_at_def cfg_chr_loop.simps [of _ "Some LF"] ends_with_def butlast_append)
  qed
  also have "\<dots> = (rstrip (?b @ concat (map squeeze (q # ps))), rest, ln + 1 + length (q # ps))"
    by (rule 3(1)) (use 3(3,5) b squeeze_le [of p] in auto)
  finally show ?case by simp
qed simp

section \<open>Line numbers\<close>

text \<open>A character that has been read and not looked at yet: the line feed it may be.\<close>

definition pending_lf :: "char option \<Rightarrow> nat" where
  "pending_lf c = (if c = Some LF then 1 else 0)"

lemma pending_lf_simps [simp]: "pending_lf None = 0" "pending_lf (Some c) = (if c = LF then 1 else 0)"
  by (simp_all add: pending_lf_def)











section \<open>Properties\<close>



text \<open>
  Continuation lines are joined: a logical line that is spread over
  physical lines, each but the last ended by a backslash, is read as its
  pieces put together, with the white space around it stripped, by either
  branch (the character branch also makes one space of each run of blanks in a
  piece), the line number grows by the number of physical lines, and the file
  stands at the next line.
\<close>

theorem cfg_getline_continuation:
  assumes "ps \<noteq> []" and "\<forall>p \<in> set ps. clean_text p" and "length (concat ps) + 3 \<le> bufsize"
    and "hd ps \<noteq> []" and "\<not> is_blank (hd (hd ps))"
  shows "ap_cfg_getline_str bufsize (logical_line ps @ rest) ln
      = (Some (strip_space (concat ps @ [LF])), rest, ln + length ps)
    \<and> ap_cfg_getline_chr bufsize (logical_line ps @ rest) ln
      = (Some (rstrip (concat (map squeeze ps))), rest, ln + length ps)"
proof
  show "ap_cfg_getline_str bufsize (logical_line ps @ rest) ln
      = (Some (strip_space (concat ps @ [LF])), rest, ln + length ps)"
    using cfg_str_loop_logical [OF assms(1,2,3), of "[]" rest ln] by (simp add: ap_cfg_getline_str_def)
  obtain c p ps' where ps: "ps = (c # p) # ps'" using assms(1,4) by (cases ps; cases "hd ps") auto
  obtain s where s: "logical_line ps @ rest = c # s" by (cases ps') (auto simp: ps)
  have c: "c \<noteq> CHR 0xFF" using assms(2) ps by simp
  then have "get_nonblank (c # s) = (Some c, s)" using assms(5) ps by simp
  moreover have "cfg_chr_loop bufsize (Some c) s [] ln = (rstrip (concat (map squeeze ps)), rest, ln + length ps)"
    using chr_at_logical [OF assms(1,2), of "[]" bufsize rest ln] assms(3) c unfolding s by (simp add: chr_at_def)
  ultimately show "ap_cfg_getline_chr bufsize (logical_line ps @ rest) ln
      = (Some (rstrip (concat (map squeeze ps))), rest, ln + length ps)"
    using assms(3) unfolding s by (simp add: ap_cfg_getline_chr_def)
qed

theorem cfg_getline_continuation_witness:
  "ap_cfg_getline_str 20 (logical_line [''a '', ''b''] @ ''c'') 0
    = (Some (strip_space (concat [''a '', ''b''] @ [LF])), ''c'', 2)"
  using cfg_getline_continuation [of "[''a '', ''b'']" 20 "''c''" 0]
  by (simp add: is_blank_def)

text \<open>
  The branches differ at the edges: a continued line that ends with the
  file is lost when lines are read with getstr and kept when characters are
  read; and reading characters drops the one that does not fit when the buffer
  is full.
\<close>

theorem cfg_getline_edges:
  "ap_cfg_getline_str 20 (''ab'' @ [backslash, LF]) 0 = (None, '''', 2)
   \<and> ap_cfg_getline_chr 20 (''ab'' @ [backslash, LF]) 0 = (Some ''ab'', '''', 1)
   \<and> ap_cfg_getline_chr 4 (''abcdef'' @ [LF]) 0 = (Some ''ab'', ''def'' @ [LF], 0)"
  by code_simp

text \<open>
  And at unusual bytes: the branch that reads characters ends a line at a byte
  0xFF, at the beginning of a line it even reports the end of the file there,
  and the branch that reads lines forgets what follows a NUL byte.
\<close>

theorem cfg_getline_bytes:
  "ap_cfg_getline_chr 20 ([CHR 0xFF] @ ''ab'' @ [LF]) 0 = (None, ''ab'' @ [LF], 0)
   \<and> ap_cfg_getline_chr 20 (''a'' @ [CHR 0xFF] @ ''b'' @ [LF]) 0 = (Some ''a'', ''b'' @ [LF], 0)
   \<and> ap_cfg_getline_str 20 (''a'' @ [CHR 0xFF] @ ''b'' @ [LF]) 0 = (Some (''a'' @ [CHR 0xFF] @ ''b''), '''', 1)
   \<and> ap_cfg_getline_str 20 (''a'' @ [CHR 0x00] @ ''b'' @ [backslash, LF] @ ''c'') 0 = (Some ''a'', ''c'', 1)"
  by code_simp

end
