(* ===== verification/Apr_Queue.thy ===== *)
theory Apr_Queue
  imports Interfaces
begin

text \<open>
  srclib/apr-util/misc/apr_queue.c: the thread-safe FIFO queue over a ring of
  pointers. First the queue and what each function does between taking and
  giving back one_big_mutex, then the threads that call it: apr_queue_push and
  apr_queue_pop test terminated before they lock, may wait on a condition once
  and look again when they are woken. Locking, unlocking and signalling are
  taken to succeed, and a wait may return without a signal.
\<close>

section \<open>The ring\<close>

record 'a apr_queue =
  q_data :: "'a list"
  q_nelts :: nat
  q_in :: nat
  q_out :: nat
  q_bounds :: nat
  q_full_waiters :: nat
  q_empty_waiters :: nat
  q_terminated :: bool

definition apr_queue_full :: "'a apr_queue \<Rightarrow> bool" where
  "apr_queue_full queue \<longleftrightarrow> q_nelts queue = q_bounds queue"

definition apr_queue_empty :: "'a apr_queue \<Rightarrow> bool" where
  "apr_queue_empty queue \<longleftrightarrow> q_nelts queue = 0"

text \<open>null is the null pointer that apr_pcalloc leaves in the array.\<close>

definition apr_queue_create :: "'a \<Rightarrow> nat \<Rightarrow> 'a apr_queue" where
  "apr_queue_create null queue_capacity =
     \<lparr>q_data = replicate queue_capacity null, q_nelts = 0, q_in = 0, q_out = 0,
      q_bounds = queue_capacity, q_full_waiters = 0, q_empty_waiters = 0, q_terminated = False\<rparr>"

definition wrap_index :: "nat \<Rightarrow> nat \<Rightarrow> nat" where
  "wrap_index bounds i = (if i \<ge> bounds then i - bounds else i)"

definition queue_store :: "'a \<Rightarrow> 'a apr_queue \<Rightarrow> 'a apr_queue" where
  "queue_store x queue =
     queue\<lparr>q_data := (q_data queue)[q_in queue := x],
           q_in := wrap_index (q_bounds queue) (q_in queue + 1),
           q_nelts := q_nelts queue + 1\<rparr>"

definition queue_fetch :: "'a apr_queue \<Rightarrow> 'a \<times> 'a apr_queue" where
  "queue_fetch queue =
     (q_data queue ! q_out queue,
      queue\<lparr>q_nelts := q_nelts queue - 1,
            q_out := wrap_index (q_bounds queue) (q_out queue + 1)\<rparr>)"

text \<open>
  What a critical section ends in: the thread waits on its condition, or the
  function returns a status (with the element, for a pop). The flag tells
  whether the other side's condition was signalled.
\<close>

datatype 'a outcome = Waits | Returns apr_status | Got 'a

definition push_enter :: "'a \<Rightarrow> 'a apr_queue \<Rightarrow> 'a apr_queue \<times> bool \<times> 'a outcome" where
  "push_enter x queue =
     (if apr_queue_full queue then
        if \<not> q_terminated queue
        then (queue\<lparr>q_full_waiters := q_full_waiters queue + 1\<rparr>, False, Waits)
        else (queue, False, Returns APR_EOF)
      else (queue_store x queue, q_empty_waiters queue > 0, Returns APR_SUCCESS))"

definition push_resume :: "'a \<Rightarrow> 'a apr_queue \<Rightarrow> 'a apr_queue \<times> bool \<times> 'a outcome" where
  "push_resume x queue =
     (let queue = queue\<lparr>q_full_waiters := q_full_waiters queue - 1\<rparr>
      in if apr_queue_full queue
         then (queue, False, Returns (if q_terminated queue then APR_EOF else APR_EINTR))
         else (queue_store x queue, q_empty_waiters queue > 0, Returns APR_SUCCESS))"

definition pop_enter :: "'a apr_queue \<Rightarrow> 'a apr_queue \<times> bool \<times> 'a outcome" where
  "pop_enter queue =
     (if apr_queue_empty queue then
        if \<not> q_terminated queue
        then (queue\<lparr>q_empty_waiters := q_empty_waiters queue + 1\<rparr>, False, Waits)
        else (queue, False, Returns APR_EOF)
      else case queue_fetch queue of
             (x, queue') \<Rightarrow> (queue', q_full_waiters queue > 0, Got x))"

definition pop_resume :: "'a apr_queue \<Rightarrow> 'a apr_queue \<times> bool \<times> 'a outcome" where
  "pop_resume queue =
     (let queue = queue\<lparr>q_empty_waiters := q_empty_waiters queue - 1\<rparr>
      in if apr_queue_empty queue
         then (queue, False, Returns (if q_terminated queue then APR_EOF else APR_EINTR))
         else case queue_fetch queue of
                (x, queue') \<Rightarrow> (queue', q_full_waiters queue > 0, Got x))"

definition trypush_enter :: "'a \<Rightarrow> 'a apr_queue \<Rightarrow> 'a apr_queue \<times> bool \<times> 'a outcome" where
  "trypush_enter x queue =
     (if apr_queue_full queue then (queue, False, Returns APR_EAGAIN)
      else (queue_store x queue, q_empty_waiters queue > 0, Returns APR_SUCCESS))"

definition trypop_enter :: "'a apr_queue \<Rightarrow> 'a apr_queue \<times> bool \<times> 'a outcome" where
  "trypop_enter queue =
     (if apr_queue_empty queue then (queue, False, Returns APR_EAGAIN)
      else case queue_fetch queue of
             (x, queue') \<Rightarrow> (queue', q_full_waiters queue > 0, Got x))"

text \<open>The whole calls that never wait, for a single thread.\<close>

definition apr_queue_trypush :: "'a \<Rightarrow> 'a apr_queue \<Rightarrow> 'a apr_queue \<times> apr_status" where
  "apr_queue_trypush x queue =
     (if q_terminated queue then (queue, APR_EOF)
      else case trypush_enter x queue of
             (queue', _, Returns rv) \<Rightarrow> (queue', rv)
           | (queue', _, _) \<Rightarrow> (queue', APR_EGENERAL))"

definition apr_queue_trypop :: "'a apr_queue \<Rightarrow> 'a apr_queue \<times> (apr_status + 'a)" where
  "apr_queue_trypop queue =
     (if q_terminated queue then (queue, Inl APR_EOF)
      else case trypop_enter queue of
             (queue', _, Got x) \<Rightarrow> (queue', Inr x)
           | (queue', _, Returns rv) \<Rightarrow> (queue', Inl rv)
           | (queue', _, Waits) \<Rightarrow> (queue', Inl APR_EGENERAL))"

definition apr_queue_size :: "'a apr_queue \<Rightarrow> nat" where
  "apr_queue_size queue = q_nelts queue"

subsection \<open>What the ring holds\<close>

definition ring_contents :: "'a apr_queue \<Rightarrow> 'a list" where
  "ring_contents q = map (\<lambda>i. q_data q ! ((q_out q + i) mod q_bounds q)) [0..<q_nelts q]"

definition ring_ok :: "'a apr_queue \<Rightarrow> bool" where
  "ring_ok q \<longleftrightarrow> 0 < q_bounds q \<and> length (q_data q) = q_bounds q \<and> q_out q < q_bounds q
     \<and> q_nelts q \<le> q_bounds q \<and> q_in q = (q_out q + q_nelts q) mod q_bounds q"

lemma length_ring [simp]: "length (ring_contents q) = q_nelts q"
  by (simp add: ring_contents_def)

lemma ring_nonempty: "ring_contents q \<noteq> [] \<longleftrightarrow> q_nelts q \<noteq> 0"
  by (simp add: ring_contents_def)

lemma wrap_mod: "i < n \<Longrightarrow> wrap_index n (i + 1) = (i + 1) mod n"
  by (auto simp: wrap_index_def mod_Suc)

lemma mod_offsets_differ:
  assumes "i < k" "k < (n :: nat)"
  shows "(a + i) mod n \<noteq> (a + k) mod n"
proof
  assume "(a + i) mod n = (a + k) mod n"
  then have "n dvd (a + k) - (a + i)" using assms by (metis mod_eq_dvd_iff_nat add_le_mono less_imp_le le_refl)
  then show False using assms by (auto dest: dvd_imp_le)
qed

lemma store_ok:
  assumes "ring_ok q" "q_nelts q < q_bounds q"
  shows "ring_ok (queue_store x q)" "ring_contents (queue_store x q) = ring_contents q @ [x]"
proof -
  let ?n = "q_bounds q" and ?k = "q_nelts q" and ?o = "q_out q"
  have inn: "q_in q < ?n" "q_in q = (?o + ?k) mod ?n" using assms by (auto simp: ring_ok_def)
  have "((?o + ?k) mod ?n + 1) mod ?n = (?o + (?k + 1)) mod ?n" by (simp add: mod_Suc_eq)
  then show "ring_ok (queue_store x q)"
    using assms inn wrap_mod [OF inn(1)] by (simp add: ring_ok_def queue_store_def)
  have old: "(q_data q)[q_in q := x] ! ((?o + i) mod ?n) = q_data q ! ((?o + i) mod ?n)" if "i < ?k" for i
    using mod_offsets_differ [OF that assms(2), of ?o] inn(2) by simp
  have new: "(q_data q)[q_in q := x] ! ((?o + ?k) mod ?n) = x"
    using inn assms(1) by (simp add: ring_ok_def)
  show "ring_contents (queue_store x q) = ring_contents q @ [x]"
    using old new by (simp add: ring_contents_def queue_store_def)
qed

lemma fetch_ok:
  assumes "ring_ok q" "q_nelts q \<noteq> 0"
  shows "ring_ok (snd (queue_fetch q))"
    "ring_contents q = fst (queue_fetch q) # ring_contents (snd (queue_fetch q))"
proof -
  let ?n = "q_bounds q" and ?k = "q_nelts q" and ?o = "q_out q"
  have o: "?o < ?n" using assms by (simp add: ring_ok_def)
  have w: "wrap_index ?n (?o + 1) = (?o + 1) mod ?n" by (rule wrap_mod [OF o])
  have step: "((?o + 1) mod ?n + i) mod ?n = (?o + (i + 1)) mod ?n" for i
    by (metis add.assoc add.commute mod_add_left_eq)
  show "ring_ok (snd (queue_fetch q))"
    using assms w step [of "?k - 1"] by (auto simp: ring_ok_def queue_fetch_def)
  obtain m where m: "?k = Suc m" using assms(2) by (cases ?k) auto
  have "[0..<Suc m] = 0 # map Suc [0..<m]" by (simp add: map_Suc_upt upt_conv_Cons del: upt_Suc)
  then show "ring_contents q = fst (queue_fetch q) # ring_contents (snd (queue_fetch q))"
    using o w step m by (simp add: ring_contents_def queue_fetch_def del: upt_Suc)
qed

lemma ring_frames [simp]:
  "q_bounds (queue_store x q) = q_bounds q" "q_nelts (queue_store x q) = q_nelts q + 1"
  "q_full_waiters (queue_store x q) = q_full_waiters q"
  "q_empty_waiters (queue_store x q) = q_empty_waiters q"
  "q_terminated (queue_store x q) = q_terminated q"
  "q_bounds (snd (queue_fetch q)) = q_bounds q" "q_nelts (snd (queue_fetch q)) = q_nelts q - 1"
  "q_full_waiters (snd (queue_fetch q)) = q_full_waiters q"
  "q_empty_waiters (snd (queue_fetch q)) = q_empty_waiters q"
  "q_terminated (snd (queue_fetch q)) = q_terminated q"
  by (simp_all add: queue_store_def queue_fetch_def)

lemma ring_update [simp]:
  "ring_ok (q\<lparr>q_full_waiters := n\<rparr>) = ring_ok q" "ring_ok (q\<lparr>q_empty_waiters := n\<rparr>) = ring_ok q"
  "ring_ok (q\<lparr>q_terminated := t\<rparr>) = ring_ok q"
  "ring_contents (q\<lparr>q_full_waiters := n\<rparr>) = ring_contents q"
  "ring_contents (q\<lparr>q_empty_waiters := n\<rparr>) = ring_contents q"
  "ring_contents (q\<lparr>q_terminated := t\<rparr>) = ring_contents q"
  by (simp_all add: ring_ok_def ring_contents_def)

lemma create_ok: "0 < n \<Longrightarrow> ring_ok (apr_queue_create null n)"
  "ring_contents (apr_queue_create null n) = []"
  by (simp_all add: ring_ok_def apr_queue_create_def ring_contents_def)

interpretation aq: fifo_buffer ring_ok ring_contents q_bounds queue_store queue_fetch
proof unfold_locales
  fix q :: "'a apr_queue" and x
  assume q: "ring_ok q"
  show "length (ring_contents q) \<le> q_bounds q" using q by (simp add: ring_ok_def)
  show "ring_ok (queue_store x q) \<and> q_bounds (queue_store x q) = q_bounds q
      \<and> mset (ring_contents (queue_store x q)) = add_mset x (mset (ring_contents q))"
    if "length (ring_contents q) < q_bounds q"
    using store_ok [OF q, of x] that by simp
  show "ring_contents (queue_store x q) = ring_contents q @ [x]"
    if "length (ring_contents q) < q_bounds q"
    using store_ok [OF q, of x] that by simp
  have f: "ring_ok (snd (queue_fetch q))"
    "ring_contents q = fst (queue_fetch q) # ring_contents (snd (queue_fetch q))"
    if "ring_contents q \<noteq> []"
    using fetch_ok [OF q] that by (simp_all add: ring_nonempty)
  then show "ring_contents q = fst (queue_fetch q) # ring_contents (snd (queue_fetch q))"
    if "ring_contents q \<noteq> []" using that by blast
  show "ring_ok (snd (queue_fetch q)) \<and> q_bounds (snd (queue_fetch q)) = q_bounds q
      \<and> mset (ring_contents q) = add_mset (fst (queue_fetch q)) (mset (ring_contents (snd (queue_fetch q))))"
    if "ring_contents q \<noteq> []"
    using f [OF that] by (metis mset.simps(2) ring_frames(6))
qed

section \<open>The threads\<close>

text \<open>
  A call in progress: past its test of terminated and about to lock, blocked
  on a condition, or woken and about to lock again. The calls of all threads
  are a multiset. pushed and popped record, in order, what was stored and what
  was handed out.
\<close>

datatype 'a queue_call =
    PushCall 'a | is_PushBlocked: PushBlocked 'a | is_PushWoken: PushWoken 'a | TryPushCall 'a
  | PopCall | PopBlocked | PopWoken | TryPopCall
  | TermCall | InterruptCall

record 'a queue_sys =
  que :: "'a apr_queue"
  calls :: "'a queue_call multiset"
  pushed :: "'a list"
  popped :: "'a list"

fun push_section :: "'a queue_call \<Rightarrow> 'a apr_queue \<Rightarrow> ('a \<times> 'a apr_queue \<times> bool \<times> 'a outcome) option" where
  "push_section (PushCall x) q = Some (x, push_enter x q)"
| "push_section (PushWoken x) q = Some (x, push_resume x q)"
| "push_section (TryPushCall x) q = Some (x, trypush_enter x q)"
| "push_section _ q = None"

fun pop_section :: "'a queue_call \<Rightarrow> 'a apr_queue \<Rightarrow> ('a apr_queue \<times> bool \<times> 'a outcome) option" where
  "pop_section PopCall q = Some (pop_enter q)"
| "pop_section PopWoken q = Some (pop_resume q)"
| "pop_section TryPopCall q = Some (trypop_enter q)"
| "pop_section _ q = None"

text \<open>apr_thread_cond_signal wakes a thread that waits, if there is one; a broadcast wakes all.\<close>

definition wake_popper :: "bool \<Rightarrow> 'a queue_call multiset \<Rightarrow> 'a queue_call multiset" where
  "wake_popper signal M =
     (if signal \<and> PopBlocked \<in># M then add_mset PopWoken (M - {#PopBlocked#}) else M)"

definition wake_pusher :: "bool \<Rightarrow> 'a queue_call multiset \<Rightarrow> 'a queue_call multiset \<Rightarrow> bool" where
  "wake_pusher signal M M' \<longleftrightarrow>
     (if signal \<and> (\<exists>x. PushBlocked x \<in># M)
      then \<exists>x. PushBlocked x \<in># M \<and> M' = add_mset (PushWoken x) (M - {#PushBlocked x#})
      else M' = M)"

fun woken :: "'a queue_call \<Rightarrow> 'a queue_call" where
  "woken (PushBlocked x) = PushWoken x"
| "woken PopBlocked = PopWoken"
| "woken c = c"

text \<open>
  What the calls in progress do: run their critical section, set terminated,
  broadcast. Next to that, new calls arrive (the locking ones only while
  terminated reads as 0) and a waiting thread may wake up on its own.
\<close>

inductive queue_work :: "'a queue_sys \<Rightarrow> 'a queue_sys \<Rightarrow> bool" where
  push_waits: "calls s = add_mset c M \<Longrightarrow> push_section c (que s) = Some (x, q', sg, Waits) \<Longrightarrow>
    queue_work s (s\<lparr>que := q', calls := add_mset (PushBlocked x) M\<rparr>)"
| push_returns: "calls s = add_mset c M \<Longrightarrow> push_section c (que s) = Some (x, q', sg, Returns rv) \<Longrightarrow>
    queue_work s (s\<lparr>que := q', calls := wake_popper sg M,
                    pushed := pushed s @ (if rv = APR_SUCCESS then [x] else [])\<rparr>)"
| pop_waits: "calls s = add_mset c M \<Longrightarrow> pop_section c (que s) = Some (q', sg, Waits) \<Longrightarrow>
    queue_work s (s\<lparr>que := q', calls := add_mset PopBlocked M\<rparr>)"
| pop_fails: "calls s = add_mset c M \<Longrightarrow> pop_section c (que s) = Some (q', sg, Returns rv) \<Longrightarrow>
    queue_work s (s\<lparr>que := q', calls := M\<rparr>)"
| pop_gets: "calls s = add_mset c M \<Longrightarrow> pop_section c (que s) = Some (q', sg, Got x) \<Longrightarrow>
    wake_pusher sg M M' \<Longrightarrow>
    queue_work s (s\<lparr>que := q', calls := M', popped := popped s @ [x]\<rparr>)"
| terminates: "calls s = add_mset TermCall M \<Longrightarrow>
    queue_work s (s\<lparr>que := (que s)\<lparr>q_terminated := True\<rparr>, calls := add_mset InterruptCall M\<rparr>)"
| interrupt: "calls s = add_mset InterruptCall M \<Longrightarrow> queue_work s (s\<lparr>calls := image_mset woken M\<rparr>)"

inductive queue_step :: "'a queue_sys \<Rightarrow> 'a queue_sys \<Rightarrow> bool" where
  works: "queue_work s t \<Longrightarrow> queue_step s t"
| call_locked: "\<not> q_terminated (que s) \<Longrightarrow> c \<in> {PushCall x, TryPushCall x, PopCall, TryPopCall} \<Longrightarrow>
    queue_step s (s\<lparr>calls := add_mset c (calls s)\<rparr>)"
| call_control: "c \<in> {TermCall, InterruptCall} \<Longrightarrow> queue_step s (s\<lparr>calls := add_mset c (calls s)\<rparr>)"
| spurious: "calls s = add_mset c M \<Longrightarrow> queue_step s (s\<lparr>calls := add_mset (woken c) M\<rparr>)"

definition queue_init :: "'a \<Rightarrow> nat \<Rightarrow> 'a queue_sys" where
  "queue_init null n = \<lparr>que = apr_queue_create null n, calls = {#}, pushed = [], popped = []\<rparr>"

inductive queue_reachable :: "'a \<Rightarrow> nat \<Rightarrow> 'a queue_sys \<Rightarrow> bool" for null n where
  start: "queue_reachable null n (queue_init null n)"
| step: "queue_reachable null n s \<Longrightarrow> queue_step s t \<Longrightarrow> queue_reachable null n t"

subsection \<open>The invariant\<close>

definition push_blocked :: "'a queue_call multiset \<Rightarrow> nat" where
  "push_blocked M = size (filter_mset is_PushBlocked M)"

definition push_woken :: "'a queue_call multiset \<Rightarrow> nat" where
  "push_woken M = size (filter_mset is_PushWoken M)"

definition pop_blocked :: "'a queue_call multiset \<Rightarrow> nat" where
  "pop_blocked M = count M PopBlocked"

definition pop_woken :: "'a queue_call multiset \<Rightarrow> nat" where
  "pop_woken M = count M PopWoken"

lemma call_counts [simp]:
  "push_blocked {#} = 0" "push_woken {#} = 0" "pop_blocked {#} = 0" "pop_woken {#} = 0"
  "push_blocked (add_mset c M) = (if is_PushBlocked c then push_blocked M + 1 else push_blocked M)"
  "push_woken (add_mset c M) = (if is_PushWoken c then push_woken M + 1 else push_woken M)"
  "pop_blocked (add_mset c M) = (if c = PopBlocked then pop_blocked M + 1 else pop_blocked M)"
  "pop_woken (add_mset c M) = (if c = PopWoken then pop_woken M + 1 else pop_woken M)"
  by (simp_all add: push_blocked_def push_woken_def pop_blocked_def pop_woken_def)

definition waiters_ok :: "'a apr_queue \<Rightarrow> 'a queue_call multiset \<Rightarrow> bool" where
  "waiters_ok q M \<longleftrightarrow>
     q_full_waiters q = push_blocked M + push_woken M
     \<and> q_empty_waiters q = pop_blocked M + pop_woken M
     \<and> (pop_blocked M > 0 \<longrightarrow> q_nelts q \<le> pop_woken M)
     \<and> (push_blocked M > 0 \<longrightarrow> q_bounds q - q_nelts q \<le> push_woken M)
     \<and> (q_terminated q \<and> (pop_blocked M > 0 \<or> push_blocked M > 0) \<longrightarrow> InterruptCall \<in># M)"

definition queue_inv :: "'a queue_sys \<Rightarrow> bool" where
  "queue_inv s \<longleftrightarrow> ring_ok (que s) \<and> pushed s = popped s @ ring_contents (que s)
     \<and> waiters_ok (que s) (calls s)"

lemma wake_popper_counts:
  "push_blocked (wake_popper sg M) = push_blocked M" "push_woken (wake_popper sg M) = push_woken M"
  "InterruptCall \<in># wake_popper sg M \<longleftrightarrow> InterruptCall \<in># M"
  "pop_blocked (wake_popper sg M) = (if sg then pop_blocked M - 1 else pop_blocked M)"
  "pop_woken (wake_popper sg M) = (if sg \<and> pop_blocked M > 0 then pop_woken M + 1 else pop_woken M)"
proof -
  have none: "pop_blocked M = 0" if "PopBlocked \<notin># M"
    using that by (simp add: pop_blocked_def not_in_iff)
  have some: "\<exists>N. M = add_mset PopBlocked N" if "PopBlocked \<in># M"
    using that by (rule multi_member_split)
  show "push_blocked (wake_popper sg M) = push_blocked M" "push_woken (wake_popper sg M) = push_woken M"
    "InterruptCall \<in># wake_popper sg M \<longleftrightarrow> InterruptCall \<in># M"
    "pop_blocked (wake_popper sg M) = (if sg then pop_blocked M - 1 else pop_blocked M)"
    "pop_woken (wake_popper sg M) = (if sg \<and> pop_blocked M > 0 then pop_woken M + 1 else pop_woken M)"
    using none by (auto simp: wake_popper_def dest!: some)
qed

lemma wake_pusher_counts:
  assumes "wake_pusher sg M M'"
  shows "pop_blocked M' = pop_blocked M" "pop_woken M' = pop_woken M"
    "InterruptCall \<in># M' \<longleftrightarrow> InterruptCall \<in># M"
    "push_blocked M' = (if sg then push_blocked M - 1 else push_blocked M)"
    "push_woken M' = (if sg \<and> push_blocked M > 0 then push_woken M + 1 else push_woken M)"
proof -
  have none: "push_blocked M = 0" if "\<not> (\<exists>x. PushBlocked x \<in># M)"
    using that by (induction M) (auto simp: is_PushBlocked_def)
  consider x N where "sg" "M = add_mset (PushBlocked x) N" "M' = add_mset (PushWoken x) N"
    | "sg" "push_blocked M = 0" "M' = M" | "\<not> sg" "M' = M"
    using assms none unfolding wake_pusher_def by (auto dest!: multi_member_split split: if_splits)
  then show "pop_blocked M' = pop_blocked M" "pop_woken M' = pop_woken M"
    "InterruptCall \<in># M' \<longleftrightarrow> InterruptCall \<in># M"
    "push_blocked M' = (if sg then push_blocked M - 1 else push_blocked M)"
    "push_woken M' = (if sg \<and> push_blocked M > 0 then push_woken M + 1 else push_woken M)"
    by (cases; simp)+
qed

lemma woken_counts:
  "push_blocked (image_mset woken M) = 0" "pop_blocked (image_mset woken M) = 0"
  "push_woken (image_mset woken M) = push_blocked M + push_woken M"
  "pop_woken (image_mset woken M) = pop_blocked M + pop_woken M"
proof -
  have "push_blocked (image_mset woken M) = 0 \<and> pop_blocked (image_mset woken M) = 0
    \<and> push_woken (image_mset woken M) = push_blocked M + push_woken M
    \<and> pop_woken (image_mset woken M) = pop_blocked M + pop_woken M"
  proof (induction M)
    case (add c M)
    then show ?case by (cases c; simp)
  qed simp
  then show "push_blocked (image_mset woken M) = 0" "pop_blocked (image_mset woken M) = 0"
    "push_woken (image_mset woken M) = push_blocked M + push_woken M"
    "pop_woken (image_mset woken M) = pop_blocked M + pop_woken M" by blast+
qed

lemmas queue_sections = push_enter_def push_resume_def trypush_enter_def
  pop_enter_def pop_resume_def trypop_enter_def apr_queue_full_def apr_queue_empty_def Let_def

lemma stored_ok:
  assumes "ring_ok q" "q_nelts q \<noteq> q_bounds q"
    and "q_full_waiters q = push_blocked M + push_woken M"
    and "q_empty_waiters q = pop_blocked M + pop_woken M"
    and "pop_blocked M > 0 \<longrightarrow> q_nelts q \<le> pop_woken M"
    and "push_blocked M > 0 \<longrightarrow> q_bounds q - q_nelts q \<le> push_woken M + 1"
    and "q_terminated q \<and> (pop_blocked M > 0 \<or> push_blocked M > 0) \<longrightarrow> InterruptCall \<in># M"
  shows "ring_ok (queue_store x q) \<and> ring_contents (queue_store x q) = ring_contents q @ [x]
    \<and> waiters_ok (queue_store x q) (wake_popper (q_empty_waiters q > 0) M)"
proof -
  have "waiters_ok (queue_store x q) (wake_popper (q_empty_waiters q > 0) M)"
    unfolding waiters_ok_def ring_frames wake_popper_counts using assms(3-7) by auto
  then show ?thesis using store_ok [OF assms(1)] assms(1,2) by (simp add: ring_ok_def)
qed

lemma push_section_ok:
  assumes "push_section c q = Some (x, q', sg, out)" and "ring_ok q" and "waiters_ok q (add_mset c M)"
  shows "ring_ok q' \<and>
    (case out of
       Waits \<Rightarrow> ring_contents q' = ring_contents q \<and> waiters_ok q' (add_mset (PushBlocked x) M)
     | Returns rv \<Rightarrow> ring_contents q' = ring_contents q @ (if rv = APR_SUCCESS then [x] else [])
         \<and> waiters_ok q' (wake_popper sg M)
     | Got y \<Rightarrow> False)"
proof -
  have nostore: ?thesis if "q_nelts q = q_bounds q"
    using assms that by (cases c) (auto simp: queue_sections waiters_ok_def wake_popper_def split: if_splits)
  let ?w = "q\<lparr>q_full_waiters := q_full_waiters q - 1\<rparr>"
  have wk: "waiters_ok q (add_mset c M)" by (rule assms(3))
  show ?thesis
  proof (cases "q_nelts q = q_bounds q")
    case False
    consider "c \<in> {PushCall x, TryPushCall x}" "q' = queue_store x q" "sg = (q_empty_waiters q > 0)"
        "out = Returns APR_SUCCESS"
      | "c = PushWoken x" "q' = queue_store x ?w" "sg = (q_empty_waiters ?w > 0)" "out = Returns APR_SUCCESS"
      using assms(1) False by (cases c) (auto simp: queue_sections)
    then show ?thesis
    proof cases
      case 1
      then have "ring_ok (queue_store x q) \<and> ring_contents (queue_store x q) = ring_contents q @ [x]
          \<and> waiters_ok (queue_store x q) (wake_popper (q_empty_waiters q > 0) M)"
        using wk by (intro stored_ok [OF assms(2) False]) (auto simp: waiters_ok_def)
      then show ?thesis using 1 by simp
    next
      case 2
      then have "ring_ok (queue_store x ?w) \<and> ring_contents (queue_store x ?w) = ring_contents ?w @ [x]
          \<and> waiters_ok (queue_store x ?w) (wake_popper (q_empty_waiters ?w > 0) M)"
        using wk assms(2) False by (intro stored_ok) (auto simp: waiters_ok_def)
      then show ?thesis using 2 by simp
    qed
  qed (rule nostore)
qed

lemma fetched_ok:
  assumes "queue_fetch q = (y, q2)" "ring_ok q" "q_nelts q \<noteq> 0"
    and "q_full_waiters q = push_blocked M + push_woken M"
    and "q_empty_waiters q = pop_blocked M + pop_woken M"
    and "pop_blocked M > 0 \<longrightarrow> q_nelts q \<le> pop_woken M + 1"
    and "push_blocked M > 0 \<longrightarrow> q_bounds q - q_nelts q \<le> push_woken M"
    and "q_terminated q \<and> (pop_blocked M > 0 \<or> push_blocked M > 0) \<longrightarrow> InterruptCall \<in># M"
  shows "ring_ok q2 \<and> ring_contents q = y # ring_contents q2
    \<and> (\<forall>M'. wake_pusher (q_full_waiters q > 0) M M' \<longrightarrow> waiters_ok q2 M')"
proof -
  have eq: "q_nelts q2 = q_nelts q - 1" "q_bounds q2 = q_bounds q" "q_full_waiters q2 = q_full_waiters q"
    "q_empty_waiters q2 = q_empty_waiters q" "q_terminated q2 = q_terminated q"
    using ring_frames(6-10) [of q] assms(1) by simp_all
  have "waiters_ok q2 M'" if w: "wake_pusher (q_full_waiters q > 0) M M'" for M'
    unfolding waiters_ok_def eq wake_pusher_counts [OF w] using assms(3-8) by auto
  then show ?thesis using fetch_ok [OF assms(2,3)] assms(1) by simp
qed

lemma pop_section_ok:
  assumes "pop_section c q = Some (q', sg, out)" and "ring_ok q" and "waiters_ok q (add_mset c M)"
  shows "ring_ok q' \<and>
    (case out of
       Waits \<Rightarrow> ring_contents q' = ring_contents q \<and> waiters_ok q' (add_mset PopBlocked M)
     | Returns rv \<Rightarrow> rv \<noteq> APR_SUCCESS \<and> ring_contents q' = ring_contents q \<and> waiters_ok q' M
     | Got x \<Rightarrow> ring_contents q = x # ring_contents q'
         \<and> (\<forall>M'. wake_pusher sg M M' \<longrightarrow> waiters_ok q' M'))"
proof -
  have le: "q_nelts q \<le> q_bounds q" using assms(2) by (simp add: ring_ok_def)
  have nofetch: ?thesis if "q_nelts q = 0"
    using assms that by (cases c) (auto simp: queue_sections waiters_ok_def split: if_splits)
  let ?w = "q\<lparr>q_empty_waiters := q_empty_waiters q - 1\<rparr>"
  obtain y q2 where f: "queue_fetch q = (y, q2)" by fastforce
  obtain z q3 where g: "queue_fetch ?w = (z, q3)" by fastforce
  have wk: "waiters_ok q (add_mset c M)" by (rule assms(3))
  show ?thesis
  proof (cases "q_nelts q = 0")
    case False
    consider "c \<in> {PopCall, TryPopCall}" "q' = q2" "sg = (q_full_waiters q > 0)" "out = Got y"
      | "c = PopWoken" "q' = q3" "sg = (q_full_waiters ?w > 0)" "out = Got z"
      using assms(1) False f g by (cases c) (auto simp: queue_sections)
    then show ?thesis
    proof cases
      case 1
      then have "ring_ok q2 \<and> ring_contents q = y # ring_contents q2
          \<and> (\<forall>M'. wake_pusher (q_full_waiters q > 0) M M' \<longrightarrow> waiters_ok q2 M')"
        using wk by (intro fetched_ok [OF f assms(2) False]) (auto simp: waiters_ok_def)
      then show ?thesis using 1 by simp
    next
      case 2
      then have "ring_ok q3 \<and> ring_contents ?w = z # ring_contents q3
          \<and> (\<forall>M'. wake_pusher (q_full_waiters ?w > 0) M M' \<longrightarrow> waiters_ok q3 M')"
        using wk assms(2) False by (intro fetched_ok [OF g]) (auto simp: waiters_ok_def)
      then show ?thesis using 2 by simp
    qed
  qed (rule nofetch)
qed

lemma queue_work_inv:
  assumes "queue_work s t" and "queue_inv s"
  shows "queue_inv t"
proof -
  have inv: "ring_ok (que s)" "pushed s = popped s @ ring_contents (que s)" "waiters_ok (que s) (calls s)"
    using assms(2) by (auto simp: queue_inv_def)
  show ?thesis
    using assms(1)
  proof (cases rule: queue_work.cases)
    case (push_waits c M x q' sg)
    then show ?thesis using push_section_ok [OF push_waits(3) inv(1), of M] inv by (simp add: queue_inv_def)
  next
    case (push_returns c M x q' sg rv)
    then show ?thesis using push_section_ok [OF push_returns(3) inv(1), of M] inv by (simp add: queue_inv_def)
  next
    case (pop_waits c M q' sg)
    then show ?thesis using pop_section_ok [OF pop_waits(3) inv(1), of M] inv by (simp add: queue_inv_def)
  next
    case (pop_fails c M q' sg rv)
    then show ?thesis using pop_section_ok [OF pop_fails(3) inv(1), of M] inv by (simp add: queue_inv_def)
  next
    case (pop_gets c M q' sg x M')
    then show ?thesis using pop_section_ok [OF pop_gets(3) inv(1), of M] inv by (simp add: queue_inv_def)
  next
    case (terminates M)
    then show ?thesis using inv by (auto simp: queue_inv_def waiters_ok_def)
  next
    case (interrupt M)
    have "waiters_ok (que s) (image_mset woken M)"
      using inv(3) interrupt(2) by (simp add: waiters_ok_def woken_counts)
    then show ?thesis using inv interrupt by (simp add: queue_inv_def)
  qed
qed

lemma queue_step_inv:
  assumes "queue_step s t" and "queue_inv s"
  shows "queue_inv t"
  using assms(1)
proof (cases rule: queue_step.cases)
  case works
  then show ?thesis using queue_work_inv assms(2) by blast
next
  case (spurious c M)
  have "waiters_ok (que s) (add_mset (woken c) M)"
    using assms(2) spurious(2) by (cases c) (auto simp: waiters_ok_def queue_inv_def)
  then show ?thesis using assms(2) spurious by (simp add: queue_inv_def)
qed (use assms(2) in \<open>auto simp: queue_inv_def waiters_ok_def\<close>)

text \<open>The capacity never changes, and terminated is never taken back.\<close>

lemma push_section_frame:
  "push_section c q = Some (x, q', sg, out) \<Longrightarrow> q_bounds q' = q_bounds q \<and> q_terminated q' = q_terminated q"
  by (cases c) (auto simp: queue_sections split: if_splits)

lemma pop_section_frame:
  assumes "pop_section c q = Some (q', sg, out)"
  shows "q_bounds q' = q_bounds q \<and> q_terminated q' = q_terminated q"
  using assms by (cases c) (auto simp: queue_sections queue_fetch_def split: if_splits)

lemma queue_work_frame:
  "queue_work s t \<Longrightarrow> q_bounds (que t) = q_bounds (que s)
     \<and> (q_terminated (que s) \<longrightarrow> q_terminated (que t))"
  by (cases rule: queue_work.cases) (auto dest: push_section_frame pop_section_frame)

lemma queue_reachable_inv:
  assumes "queue_reachable null n s" "0 < n"
  shows "queue_inv s \<and> q_bounds (que s) = n"
  using assms(1)
proof (induction rule: queue_reachable.induct)
  case start
  show ?case using assms(2) by (simp add: queue_init_def queue_inv_def create_ok waiters_ok_def
        apr_queue_create_def ring_contents_def ring_ok_def)
next
  case (step s t)
  have "q_bounds (que t) = q_bounds (que s)"
    using step(2) by (cases rule: queue_step.cases) (auto dest: queue_work_frame)
  then show ?case using step queue_step_inv by metis
qed

subsection \<open>Order and wake-ups\<close>

text \<open>
  C31. First in, first out, for any number of threads and any schedule: the
  elements pushed so far are, in order, those popped so far followed by those
  in the ring, and the ring never holds more than its capacity.
\<close>

theorem apr_queue_fifo:
  assumes "queue_reachable null n s" "0 < n"
  shows "pushed s = popped s @ ring_contents (que s) \<and> length (ring_contents (que s)) \<le> n"
  using queue_reachable_inv [OF assms] by (auto simp: queue_inv_def ring_ok_def)

lemma all_blocked_counts:
  assumes "\<forall>c \<in># M. c = PopBlocked \<or> is_PushBlocked c"
  shows "pop_woken M = 0" "push_woken M = 0" "InterruptCall \<notin># M" "pop_blocked M + push_blocked M = size M"
proof -
  have "pop_woken M = 0 \<and> push_woken M = 0 \<and> InterruptCall \<notin># M \<and> pop_blocked M + push_blocked M = size M"
    using assms
  proof (induction M)
    case (add c M)
    then show ?case by (cases c) auto
  qed simp
  then show "pop_woken M = 0" "push_woken M = 0" "InterruptCall \<notin># M" "pop_blocked M + push_blocked M = size M"
    by blast+
qed

lemma blocked_members:
  "pop_blocked M = 0 \<Longrightarrow> PopBlocked \<notin># M" "push_blocked M = 0 \<Longrightarrow> c \<in># M \<Longrightarrow> \<not> is_PushBlocked c"
  by (auto simp: pop_blocked_def push_blocked_def not_in_iff filter_mset_eq_conv)

text \<open>
  C30. No wake-up is lost. If calls are in progress and all of them are blocked,
  the queue is not terminated, and either all wait to pop and the ring is
  empty, or all wait to push and the ring is full.
\<close>

theorem apr_queue_no_lost_wakeup:
  assumes "queue_reachable null n s" "0 < n" and "calls s \<noteq> {#}"
    and "\<forall>c \<in># calls s. c = PopBlocked \<or> is_PushBlocked c"
  shows "\<not> q_terminated (que s)
    \<and> ((\<forall>c \<in># calls s. c = PopBlocked) \<and> ring_contents (que s) = []
       \<or> (\<forall>c \<in># calls s. is_PushBlocked c) \<and> length (ring_contents (que s)) = n)"
proof -
  note inv = queue_reachable_inv [OF assms(1,2)] and cnt = all_blocked_counts [OF assms(4)]
  have ok: "ring_ok (que s)" "waiters_ok (que s) (calls s)" "q_bounds (que s) = n"
    using inv by (auto simp: queue_inv_def)
  have pos: "pop_blocked (calls s) + push_blocked (calls s) > 0"
    using cnt(4) assms(3) by (simp add: nonempty_has_size)
  have live: "\<not> q_terminated (que s)" using ok(2) pos cnt(3) by (auto simp: waiters_ok_def)
  have empty: "q_nelts (que s) = 0" if "pop_blocked (calls s) > 0"
    using ok(2) that cnt(1) by (simp add: waiters_ok_def)
  have full: "q_nelts (que s) = n" if "push_blocked (calls s) > 0"
    using ok that cnt(2) by (simp add: waiters_ok_def ring_ok_def)
  have "pop_blocked (calls s) = 0 \<or> push_blocked (calls s) = 0" using empty full assms(2) by fastforce
  then show ?thesis
    using live empty full pos assms(4) blocked_members [of "calls s"] ring_nonempty [of "que s"] by fastforce
qed

subsection \<open>Shutting down\<close>

fun call_weight :: "'a queue_call \<Rightarrow> nat" where
  "call_weight TermCall = 2"
| "call_weight _ = 1"

definition work_left :: "'a queue_call multiset \<Rightarrow> nat" where
  "work_left M = sum_mset (image_mset call_weight M)"

lemma work_left_simps [simp]: "work_left {#} = 0" "work_left (add_mset c M) = call_weight c + work_left M"
  by (simp_all add: work_left_def)

lemma work_left_woken:
  "work_left (image_mset woken M) = work_left M" "work_left (wake_popper sg M) = work_left M"
  "wake_pusher sg M M' \<Longrightarrow> work_left M' = work_left M"
proof -
  have w: "call_weight (woken c) = call_weight c" for c :: "'a queue_call" by (cases c) auto
  show "work_left (image_mset woken M) = work_left M" by (induction M) (auto simp: w)
  show "work_left (wake_popper sg M) = work_left M"
    by (auto simp: wake_popper_def dest!: multi_member_split)
  show "wake_pusher sg M M' \<Longrightarrow> work_left M' = work_left M"
    by (auto simp: wake_pusher_def dest!: multi_member_split split: if_splits)
qed

lemma call_weight_pos: "0 < call_weight c"
  by (cases c) auto

lemma terminated_no_wait:
  assumes "q_terminated q"
  shows "push_section c q \<noteq> Some (x, q', sg, Waits)" "pop_section c q \<noteq> Some (q', sg, Waits)"
  using assms by (cases c; auto simp: queue_sections split: if_splits prod.splits)+

lemma shutdown_step:
  assumes "queue_work s t" "q_terminated (que s)"
  shows "work_left (calls t) < work_left (calls s)"
  using assms(1)
proof (cases rule: queue_work.cases)
  case (push_waits c M x q' sg)
  then show ?thesis using terminated_no_wait(1) [OF assms(2)] by metis
next
  case (push_returns c M x q' sg rv)
  then show ?thesis by (simp add: work_left_woken call_weight_pos)
next
  case (pop_waits c M q' sg)
  then show ?thesis using terminated_no_wait(2) [OF assms(2)] by metis
next
  case (pop_fails c M q' sg rv)
  then show ?thesis by (simp add: call_weight_pos)
next
  case (pop_gets c M q' sg x M')
  then show ?thesis by (simp add: work_left_woken(3) [OF pop_gets(4)] call_weight_pos)
next
  case (terminates M)
  then show ?thesis by simp
next
  case (interrupt M)
  then show ?thesis by (simp add: work_left_woken)
qed

lemma work_left_size: "work_left M \<le> 2 * size M"
proof (induction M)
  case (add c M)
  then show ?case by (cases c) auto
qed simp

lemma shutdown_progress:
  assumes "queue_inv s" "q_terminated (que s)" "calls s \<noteq> {#}"
  shows "\<exists>t. queue_work s t"
proof (cases "InterruptCall \<in># calls s")
  case True
  then show ?thesis using interrupt by (metis multi_member_split)
next
  case False
  then have none: "pop_blocked (calls s) = 0" "push_blocked (calls s) = 0"
    using assms(1,2) by (auto simp: queue_inv_def waiters_ok_def)
  obtain c M where M: "calls s = add_mset c M" using assms(3) by (meson multiset_cases)
  have pop: ?thesis if "pop_section c (que s) = Some (q', sg, out)" for q' sg out
  proof (cases out)
    case Waits
    then show ?thesis using terminated_no_wait(2) [OF assms(2)] that by blast
  next
    case (Returns rv)
    then show ?thesis using pop_fails [OF M, of q' sg rv] that by blast
  next
    case (Got x)
    have "\<exists>M'. wake_pusher sg M M'" by (auto simp: wake_pusher_def)
    then show ?thesis using pop_gets [OF M, of q' sg x] that Got by blast
  qed
  have push: ?thesis if "push_section c (que s) = Some (x, q', sg, out)" for x q' sg out
  proof (cases out)
    case (Returns rv)
    then show ?thesis using push_returns [OF M, of x q' sg rv] that by blast
  next
    case (Got y)
    then show ?thesis using that by (cases c) (auto simp: queue_sections split: if_splits)
  qed (use terminated_no_wait(1) [OF assms(2)] that in blast)
  have push': ?thesis if "push_section c (que s) = Some (x, r)" for x r
    using push that by (cases r) blast
  have pop': ?thesis if "pop_section c (que s) = Some r" for r
    using pop that by (cases r) blast
  show ?thesis
  proof (cases c)
    case TermCall
    then show ?thesis using terminates M by blast
  next
    case (PushCall x)
    then have "push_section c (que s) = Some (x, push_enter x (que s))" by simp
    then show ?thesis by (rule push')
  next
    case (PushWoken x)
    then have "push_section c (que s) = Some (x, push_resume x (que s))" by simp
    then show ?thesis by (rule push')
  next
    case (TryPushCall x)
    then have "push_section c (que s) = Some (x, trypush_enter x (que s))" by simp
    then show ?thesis by (rule push')
  next
    case PopCall
    then have "pop_section c (que s) = Some (pop_enter (que s))" by simp
    then show ?thesis by (rule pop')
  next
    case PopWoken
    then have "pop_section c (que s) = Some (pop_resume (que s))" by simp
    then show ?thesis by (rule pop')
  next
    case TryPopCall
    then have "pop_section c (que s) = Some (trypop_enter (que s))" by simp
    then show ?thesis by (rule pop')
  next
    case InterruptCall
    then show ?thesis using M False by simp
  next
    case PopBlocked
    then show ?thesis using M none by simp
  next
    case (PushBlocked x)
    then show ?thesis using M none by simp
  qed
qed

text \<open>
  C38. Once terminated is set, all calls in progress, blocked ones included, can
  run to their return without a new call arriving.
\<close>

theorem apr_queue_shutdown_completes:
  assumes "queue_reachable null n s" "0 < n" "q_terminated (que s)"
  shows "\<exists>t. queue_work\<^sup>*\<^sup>* s t \<and> calls t = {#}"
proof -
  have "queue_inv s" using queue_reachable_inv [OF assms(1,2)] by (rule conjunct1)
  then show ?thesis
    using assms(3)
  proof (induction "work_left (calls s)" arbitrary: s rule: less_induct)
    case less
    show ?case
    proof (cases "calls s = {#}")
      case False
      then obtain t where t: "queue_work s t" using shutdown_progress [OF less(2,3)] by blast
      have "queue_inv t" "q_terminated (que t)"
        using queue_work_inv [OF t less(2)] queue_work_frame [OF t] less(3) by simp_all
      then obtain u where "queue_work\<^sup>*\<^sup>* t u" "calls u = {#}"
        using less(1) [OF shutdown_step [OF t less(3)]] by blast
      then show ?thesis using t by (meson converse_rtranclp_into_rtranclp)
    qed blast
  qed
qed

text \<open>
  Once terminated is set, no schedule of the calls in progress runs for more
  than two steps per call, so that no call can block again.
\<close>

theorem apr_queue_shutdown_terminates:
  assumes "(queue_work ^^ k) s t" "q_terminated (que s)"
  shows "k \<le> 2 * size (calls s)"
proof -
  have "work_left (calls t) + k \<le> work_left (calls s) \<and> q_terminated (que t)"
    using assms
  proof (induction k arbitrary: t)
    case (Suc k)
    then obtain u where "(queue_work ^^ k) s u" "queue_work u t" by auto
    then show ?case using Suc.IH [of u] Suc.prems(2) shutdown_step [of u t] queue_work_frame [of u t] by simp
  qed simp
  then show ?thesis using work_left_size [of "calls s"] by linarith
qed

section \<open>A run\<close>

text \<open>A pop waits on a queue of capacity one, a push wakes it, and it gets the element.\<close>

definition run_waiting :: "nat queue_sys" where
  "run_waiting = \<lparr>que = (apr_queue_create 0 1)\<lparr>q_empty_waiters := 1\<rparr>, calls = {#PopBlocked#},
     pushed = [], popped = []\<rparr>"

definition run_pushed :: "nat queue_sys" where
  "run_pushed = \<lparr>que = queue_store 5 (que run_waiting), calls = {#PopWoken#}, pushed = [5], popped = []\<rparr>"

definition run_closed :: "nat queue_sys" where
  "run_closed = \<lparr>que = (que run_waiting)\<lparr>q_terminated := True\<rparr>, calls = {#InterruptCall, PopBlocked#},
     pushed = [], popped = []\<rparr>"

lemmas run_defs = run_waiting_def run_pushed_def run_closed_def queue_init_def apr_queue_create_def
  queue_store_def queue_sections

lemma run_waiting_reachable: "queue_reachable 0 1 run_waiting"
proof -
  let ?s = "(queue_init 0 1)\<lparr>calls := {#PopCall#}\<rparr> :: nat queue_sys"
  have "queue_step (queue_init 0 1) ?s"
    using call_locked [of "queue_init 0 1 :: nat queue_sys" PopCall] by (simp add: run_defs)
  moreover have "queue_step ?s run_waiting"
    using works [OF pop_waits [of ?s PopCall "{#}" _ False]] by (simp add: run_defs)
  ultimately show ?thesis by (meson queue_reachable.intros)
qed

lemma run_pushed_reachable: "queue_reachable 0 1 run_pushed"
proof -
  let ?s = "run_waiting\<lparr>calls := {#PushCall 5, PopBlocked#}\<rparr> :: nat queue_sys"
  have "queue_step run_waiting ?s"
    using call_locked [of run_waiting "PushCall 5" 5] by (simp add: run_defs)
  moreover have "queue_step ?s run_pushed"
    using works [OF push_returns [of ?s "PushCall 5" "{#PopBlocked#}" 5 _ True]]
    by (simp add: run_defs wake_popper_def wrap_index_def)
  ultimately show ?thesis using run_waiting_reachable by (meson queue_reachable.intros)
qed

lemma run_closed_reachable: "queue_reachable 0 1 run_closed"
proof -
  let ?s = "run_waiting\<lparr>calls := {#TermCall, PopBlocked#}\<rparr> :: nat queue_sys"
  have "queue_step run_waiting ?s"
    using call_control [of TermCall run_waiting] by (simp add: run_defs)
  moreover have "queue_step ?s run_closed"
    using works [OF terminates [of ?s "{#PopBlocked#}"]] by (simp add: run_defs)
  ultimately show ?thesis using run_waiting_reachable by (meson queue_reachable.intros)
qed

theorem apr_queue_fifo_witness:
  "pushed run_pushed = popped run_pushed @ ring_contents (que run_pushed)
     \<and> length (ring_contents (que run_pushed)) \<le> 1"
  by (rule apr_queue_fifo [OF run_pushed_reachable]) simp

theorem apr_queue_no_lost_wakeup_witness:
  "\<not> q_terminated (que run_waiting)
    \<and> ((\<forall>c \<in># calls run_waiting. c = PopBlocked) \<and> ring_contents (que run_waiting) = []
       \<or> (\<forall>c \<in># calls run_waiting. is_PushBlocked c) \<and> length (ring_contents (que run_waiting)) = 1)"
  by (rule apr_queue_no_lost_wakeup [OF run_waiting_reachable]) (simp_all add: run_waiting_def)

theorem apr_queue_shutdown_completes_witness: "\<exists>t. queue_work\<^sup>*\<^sup>* run_closed t \<and> calls t = {#}"
  by (rule apr_queue_shutdown_completes [OF run_closed_reachable]) (simp_all add: run_closed_def)

theorem apr_queue_shutdown_terminates_witness: "(1::nat) \<le> 2 * size (calls run_closed)"
proof -
  have "queue_work run_closed (run_closed\<lparr>calls := {#PopWoken#}\<rparr>)"
    using interrupt [of run_closed "{#PopBlocked#}"] by (simp add: run_closed_def)
  then have "(queue_work ^^ 1) run_closed (run_closed\<lparr>calls := {#PopWoken#}\<rparr>)"
    by (simp add: OO_def)
  then show ?thesis by (rule apr_queue_shutdown_terminates) (simp add: run_closed_def)
qed

end
