(* ===== verification/Fd_Queue.thy ===== *)
theory Fd_Queue
  imports Interfaces
begin

text \<open>
  server/mpm/worker/fdqueue.c: the queue of accepted connections and the
  information on idle workers that the threads of the worker MPM share. Each
  definition is what one thread does without another in between: a critical
  section under one_big_mutex, one atomic operation, or one read or write of
  shared memory. Worker_Mpm puts them together.
\<close>

section \<open>The queue of connections\<close>

record 'a fd_queue =
  fd_data :: "'a list"
  fd_nelts :: nat
  fd_bounds :: nat
  fd_terminated :: bool

definition ap_queue_full :: "'a fd_queue \<Rightarrow> bool" where
  "ap_queue_full queue \<longleftrightarrow> fd_nelts queue = fd_bounds queue"

definition ap_queue_empty :: "'a fd_queue \<Rightarrow> bool" where
  "ap_queue_empty queue \<longleftrightarrow> fd_nelts queue = 0"

text \<open>null is an element whose socket is the null pointer.\<close>

definition ap_queue_init :: "'a \<Rightarrow> nat \<Rightarrow> 'a fd_queue" where
  "ap_queue_init null queue_capacity =
     \<lparr>fd_data = replicate queue_capacity null, fd_nelts = 0, fd_bounds = queue_capacity,
      fd_terminated = False\<rparr>"

definition fd_put :: "'a \<Rightarrow> 'a fd_queue \<Rightarrow> 'a fd_queue" where
  "fd_put elem queue =
     queue\<lparr>fd_data := (fd_data queue)[fd_nelts queue := elem], fd_nelts := fd_nelts queue + 1\<rparr>"

text \<open>
  None is a write past the end of the array. The assertions of ap_queue_push
  that would stop it are compiled in with AP_DEBUG only.
\<close>

definition ap_queue_push :: "'a \<Rightarrow> 'a fd_queue \<Rightarrow> 'a fd_queue option" where
  "ap_queue_push elem queue =
     (if fd_nelts queue < length (fd_data queue) then Some (fd_put elem queue) else None)"

definition fd_take :: "'a fd_queue \<Rightarrow> 'a \<times> 'a fd_queue" where
  "fd_take queue =
     (fd_data queue ! (fd_nelts queue - 1), queue\<lparr>fd_nelts := fd_nelts queue - 1\<rparr>)"

datatype 'a pop_outcome = PopWaits | PopFails apr_status | PopGets 'a "'a fd_queue"

definition ap_queue_pop :: "'a fd_queue \<Rightarrow> 'a pop_outcome" where
  "ap_queue_pop queue =
     (if ap_queue_empty queue
      then if \<not> fd_terminated queue then PopWaits else PopFails APR_EOF
      else case fd_take queue of (elem, queue') \<Rightarrow> PopGets elem queue')"

text \<open>The rest of ap_queue_pop after apr_thread_cond_wait.\<close>

definition ap_queue_pop_woken :: "'a fd_queue \<Rightarrow> 'a pop_outcome" where
  "ap_queue_pop_woken queue =
     (if ap_queue_empty queue
      then PopFails (if fd_terminated queue then APR_EOF else APR_EINTR)
      else case fd_take queue of (elem, queue') \<Rightarrow> PopGets elem queue')"

definition ap_queue_set_terminated :: "'a fd_queue \<Rightarrow> 'a fd_queue" where
  "ap_queue_set_terminated queue = queue\<lparr>fd_terminated := True\<rparr>"

subsection \<open>It is a stack\<close>

definition fd_contents :: "'a fd_queue \<Rightarrow> 'a list" where
  "fd_contents q = rev (take (fd_nelts q) (fd_data q))"

definition fd_ok :: "'a fd_queue \<Rightarrow> bool" where
  "fd_ok q \<longleftrightarrow> length (fd_data q) = fd_bounds q \<and> fd_nelts q \<le> fd_bounds q"

lemma length_fd_contents [simp]: "fd_ok q \<Longrightarrow> length (fd_contents q) = fd_nelts q"
  by (simp add: fd_contents_def fd_ok_def)

lemma fd_put_ok:
  assumes "fd_ok q" "fd_nelts q < fd_bounds q"
  shows "fd_ok (fd_put x q)" "fd_contents (fd_put x q) = x # fd_contents q"
  using assms by (auto simp: fd_ok_def fd_put_def fd_contents_def take_Suc_conv_app_nth)

lemma fd_take_ok:
  assumes "fd_ok q" "fd_nelts q \<noteq> 0"
  shows "fd_ok (snd (fd_take q))"
    "fd_contents q = fst (fd_take q) # fd_contents (snd (fd_take q))"
proof -
  show "fd_ok (snd (fd_take q))" using assms by (auto simp: fd_ok_def fd_take_def)
  obtain m where m: "fd_nelts q = Suc m" using assms(2) by (cases "fd_nelts q") auto
  show "fd_contents q = fst (fd_take q) # fd_contents (snd (fd_take q))"
    using assms m by (simp add: fd_ok_def fd_take_def fd_contents_def take_Suc_conv_app_nth)
qed

lemma fd_frames [simp]:
  "fd_bounds (fd_put x q) = fd_bounds q" "fd_nelts (fd_put x q) = fd_nelts q + 1"
  "fd_terminated (fd_put x q) = fd_terminated q"
  "fd_bounds (snd (fd_take q)) = fd_bounds q" "fd_nelts (snd (fd_take q)) = fd_nelts q - 1"
  "fd_terminated (snd (fd_take q)) = fd_terminated q"
  by (simp_all add: fd_put_def fd_take_def)

lemma fd_set_terminated [simp]:
  "fd_ok (ap_queue_set_terminated q) = fd_ok q"
  "fd_contents (ap_queue_set_terminated q) = fd_contents q"
  "fd_nelts (ap_queue_set_terminated q) = fd_nelts q"
  "fd_bounds (ap_queue_set_terminated q) = fd_bounds q"
  "fd_terminated (ap_queue_set_terminated q)"
  by (simp_all add: ap_queue_set_terminated_def fd_ok_def fd_contents_def)

lemma fd_init_ok:
  "fd_ok (ap_queue_init null n)" "fd_contents (ap_queue_init null n) = []"
  by (simp_all add: fd_ok_def fd_contents_def ap_queue_init_def)

interpretation fq: lifo_buffer fd_ok fd_contents fd_bounds fd_put fd_take
proof unfold_locales
  fix q :: "'a fd_queue" and x
  assume q: "fd_ok q"
  show "length (fd_contents q) \<le> fd_bounds q" using q by (simp add: fd_ok_def)
  show put: "fd_contents (fd_put x q) = x # fd_contents q" if "length (fd_contents q) < fd_bounds q"
    using fd_put_ok [OF q] that q by simp
  show "fd_ok (fd_put x q) \<and> fd_bounds (fd_put x q) = fd_bounds q
      \<and> mset (fd_contents (fd_put x q)) = add_mset x (mset (fd_contents q))"
    if "length (fd_contents q) < fd_bounds q"
    using fd_put_ok [OF q, of x] that q by simp
  have t: "fd_ok (snd (fd_take q))" "fd_contents q = fst (fd_take q) # fd_contents (snd (fd_take q))"
    if "fd_contents q \<noteq> []"
    using fd_take_ok [OF q] that q by (force simp: fd_contents_def)+
  then show "fd_contents q = fst (fd_take q) # fd_contents (snd (fd_take q))"
    if "fd_contents q \<noteq> []" using that by blast
  show "fd_ok (snd (fd_take q)) \<and> fd_bounds (snd (fd_take q)) = fd_bounds q
      \<and> mset (fd_contents q) = add_mset (fst (fd_take q)) (mset (fd_contents (snd (fd_take q))))"
    if "fd_contents q \<noteq> []"
    using t [OF that] by (metis mset.simps(2) fd_frames(4))
qed

lemma fd_pop_gets:
  assumes "ap_queue_pop q = PopGets x q' \<or> ap_queue_pop_woken q = PopGets x q'"
  shows "fd_nelts q \<noteq> 0" "x = fst (fd_take q)" "q' = snd (fd_take q)"
  using assms by (auto simp: ap_queue_pop_def ap_queue_pop_woken_def ap_queue_empty_def
      split: if_splits prod.splits)

lemma fd_pop_fails:
  "ap_queue_pop q = PopWaits \<longleftrightarrow> fd_nelts q = 0 \<and> \<not> fd_terminated q"
  "ap_queue_pop q = PopFails rv \<longleftrightarrow> fd_nelts q = 0 \<and> fd_terminated q \<and> rv = APR_EOF"
  "ap_queue_pop_woken q \<noteq> PopWaits"
  "ap_queue_pop_woken q = PopFails rv \<longleftrightarrow>
     fd_nelts q = 0 \<and> rv = (if fd_terminated q then APR_EOF else APR_EINTR)"
  by (auto simp: ap_queue_pop_def ap_queue_pop_woken_def ap_queue_empty_def split: prod.splits)

section \<open>Idle workers and recycled pools\<close>

text \<open>
  recycled_pools is a linked list. Its nodes are allocated in the pools they
  hold, so a node is named by its pool, and qi_next is the next field of all
  nodes. The pools are numbered; max_idlers is never read.
\<close>

record fd_queue_info =
  qi_idlers :: nat
  qi_terminated :: bool
  qi_recycled :: "nat option"
  qi_next :: "nat \<Rightarrow> nat option"

definition ap_queue_info_create :: "fd_queue_info" where
  "ap_queue_info_create =
     \<lparr>qi_idlers = 0, qi_terminated = False, qi_recycled = None, qi_next = \<lambda>_. None\<rparr>"

definition recycle_link :: "nat \<Rightarrow> nat option \<Rightarrow> fd_queue_info \<Rightarrow> fd_queue_info" where
  "recycle_link pool nxt qi = qi\<lparr>qi_next := (qi_next qi)(pool := nxt)\<rparr>"

text \<open>The compare and swap of ap_queue_info_set_idle, and that of ap_queue_info_wait_for_idler.\<close>

definition recycle_cas :: "nat \<Rightarrow> nat option \<Rightarrow> fd_queue_info \<Rightarrow> bool \<times> fd_queue_info" where
  "recycle_cas pool nxt qi =
     (if qi_recycled qi = nxt then (True, qi\<lparr>qi_recycled := Some pool\<rparr>) else (False, qi))"

definition unrecycle_cas :: "nat \<Rightarrow> nat option \<Rightarrow> fd_queue_info \<Rightarrow> bool \<times> fd_queue_info" where
  "unrecycle_cas first_pool nxt qi =
     (if qi_recycled qi = Some first_pool then (True, qi\<lparr>qi_recycled := nxt\<rparr>) else (False, qi))"

definition idlers_inc :: "fd_queue_info \<Rightarrow> nat \<times> fd_queue_info" where
  "idlers_inc qi = (qi_idlers qi, qi\<lparr>qi_idlers := qi_idlers qi + 1\<rparr>)"

definition idlers_dec :: "fd_queue_info \<Rightarrow> fd_queue_info" where
  "idlers_dec qi = qi\<lparr>qi_idlers := qi_idlers qi - 1\<rparr>"

lemmas qi_defs = recycle_link_def recycle_cas_def unrecycle_cas_def idlers_inc_def idlers_dec_def

subsection \<open>The list of recycled pools\<close>

fun pool_chain :: "(nat \<Rightarrow> nat option) \<Rightarrow> nat option \<Rightarrow> nat list \<Rightarrow> bool" where
  "pool_chain nxt h [] \<longleftrightarrow> h = None"
| "pool_chain nxt h (p # ps) \<longleftrightarrow> h = Some p \<and> pool_chain nxt (nxt p) ps"

lemma pool_chain_upd: "p \<notin> set ps \<Longrightarrow> pool_chain (nxt(p := v)) h ps = pool_chain nxt h ps"
  by (induction ps arbitrary: h) auto

lemma pool_chain_head: "pool_chain nxt (Some p) ps \<Longrightarrow> \<exists>qs. ps = p # qs \<and> pool_chain nxt (nxt p) qs"
  by (cases ps) auto

text \<open>Freeing the list, when the process ends: queue_info_cleanup destroys every recycled pool.\<close>

fun cleanup_loop :: "nat \<Rightarrow> fd_queue_info \<Rightarrow> nat list \<Rightarrow> (fd_queue_info \<times> nat list) option" where
  "cleanup_loop 0 qi destroyed = None"
| "cleanup_loop (Suc fuel) qi destroyed =
     (case qi_recycled qi of
        None \<Rightarrow> Some (qi, destroyed)
      | Some first_pool \<Rightarrow>
          (case unrecycle_cas first_pool (qi_next qi first_pool) qi of
             (True, qi') \<Rightarrow> cleanup_loop fuel qi' (destroyed @ [first_pool])
           | (False, qi') \<Rightarrow> cleanup_loop fuel qi' destroyed))"

lemma cleanup_loop_all:
  assumes "pool_chain (qi_next qi) (qi_recycled qi) ps" "length ps < fuel"
  shows "\<exists>qi'. cleanup_loop fuel qi destroyed = Some (qi', destroyed @ ps) \<and> qi_recycled qi' = None"
  using assms
proof (induction ps arbitrary: qi fuel destroyed)
  case Nil
  then show ?case by (cases fuel) auto
next
  case (Cons p ps)
  obtain f where f: "fuel = Suc f" using Cons.prems(2) by (cases fuel) auto
  let ?q = "qi\<lparr>qi_recycled := qi_next qi p\<rparr>"
  have "\<exists>qi'. cleanup_loop f ?q (destroyed @ [p]) = Some (qi', (destroyed @ [p]) @ ps) \<and> qi_recycled qi' = None"
    using Cons.prems f by (intro Cons.IH) auto
  then show ?case using Cons.prems f by (simp add: unrecycle_cas_def)
qed

end
