(* ===== verification/Worker_Mpm.thy ===== *)
theory Worker_Mpm
  imports Fd_Queue
begin

text \<open>
  server/mpm/worker/worker.c: the listener thread, the worker threads and the
  shutdown of one child process, over the queue and the idle worker information
  of Fd_Queue. A thread is its program point with the local variables that are
  live there; each step is what the code does between two accesses to shared
  memory by others. Mutex and condition operations are taken to succeed, a
  wait may return without a signal, and CAS loops are steps that may go back.
\<close>

section \<open>The threads\<close>

text \<open>
  worker_thread. WTop: about to test workers_may_exit, not idle, with
  last_ptrans. WLink, WCas: in ap_queue_info_set_idle, before linking the pool
  and before the compare and swap. WInc: before counting itself idle. WSignal:
  before signalling the listener. WPop: before the test at worker_pop. WCall:
  before the lock of ap_queue_pop. WBlocked, WWoken: in its wait, after it.
  WBusy: in process_socket. WExit: gone, having been idle or not.
\<close>

datatype 'c worker =
    WTop "nat option" | WLink nat | WCas nat "nat option" | WInc | is_WSignal: WSignal
  | WPop | WCall | is_WBlocked: WBlocked | is_WWoken: WWoken | WBusy 'c nat
  | is_WExit: WExit bool "nat option"

text \<open>
  listener_thread. LTop: loop head without an idle worker. LTest: before the
  first test of idlers. LLock, LWait: before the locked test, in the wait. LDec:
  before the decrement. LPool, LNext, LCas: before reading the head of the
  recycled pools, its next field, and before the compare and swap. LRet: before
  the test of terminated. LReady: holding an idle worker, up to and in accept.
  LPush: before the lock of ap_queue_push. LClose: before ap_queue_term.
  LInterrupt: before its broadcast. LExit: gone. The flag of the last three
  tells whether an idle worker was reserved.
\<close>

datatype 'c listener =
    LTop | LTest | LLock | is_LWait: LWait | is_LDec: LDec | LPool | LNext nat | LCas nat "nat option"
  | LRet "nat option" | LReady "nat option" | LPush 'c nat
  | LClose bool "nat option" | is_LInterrupt: LInterrupt bool "nat option" | is_LExit: LExit bool "nat option"

datatype terminate_mode = ST_INIT | ST_GRACEFUL | ST_UNGRACEFUL

text \<open>What is left of signal_threads for the thread that called it with ST_UNGRACEFUL.\<close>

datatype signaller = SigNone | SigInterrupt | SigInfoTerm

record 'c mpm =
  listener :: "'c listener"
  workers :: "'c worker multiset"
  worker_queue :: "('c \<times> nat) fd_queue"
  queue_info :: fd_queue_info
  listener_may_exit :: bool
  workers_may_exit :: bool
  mode :: terminate_mode
  signaller :: signaller
  next_pool :: nat
  accepted :: "'c multiset"
  finished :: "'c multiset"

definition worker_count :: "('c worker \<Rightarrow> bool) \<Rightarrow> 'c worker multiset \<Rightarrow> nat" where
  "worker_count P M = size (filter_mset P M)"

text \<open>Signals: not_empty wakes one worker, its broadcast all; wait_for_idler wakes the listener.\<close>

definition wake_worker :: "'c worker multiset \<Rightarrow> 'c worker multiset" where
  "wake_worker M = (if WBlocked \<in># M then add_mset WWoken (M - {#WBlocked#}) else M)"

fun worker_woken :: "'c worker \<Rightarrow> 'c worker" where
  "worker_woken WBlocked = WWoken"
| "worker_woken w = w"

fun listener_woken :: "'c listener \<Rightarrow> 'c listener" where
  "listener_woken LWait = LLock"
| "listener_woken l = l"

text \<open>ap_queue_info_set_idle, called by a worker.\<close>

inductive set_idle_step :: "'c mpm \<Rightarrow> 'c mpm \<Rightarrow> bool" where
  w_link: "workers s = add_mset (WLink p) M \<Longrightarrow> h = qi_recycled (queue_info s) \<Longrightarrow>
    set_idle_step s (s\<lparr>queue_info := recycle_link p h (queue_info s), workers := add_mset (WCas p h) M\<rparr>)"
| w_cas: "workers s = add_mset (WCas p h) M \<Longrightarrow> recycle_cas p h (queue_info s) = (ok, qi) \<Longrightarrow>
    set_idle_step s (s\<lparr>queue_info := qi, workers := add_mset (if ok then WInc else WLink p) M\<rparr>)"
| w_inc: "workers s = add_mset WInc M \<Longrightarrow> idlers_inc (queue_info s) = (prev, qi) \<Longrightarrow>
    set_idle_step s (s\<lparr>queue_info := qi, workers := add_mset (if prev = 0 then WSignal else WPop) M\<rparr>)"
| w_signal: "workers s = add_mset WSignal M \<Longrightarrow>
    set_idle_step s (s\<lparr>listener := listener_woken (listener s), workers := add_mset WPop M\<rparr>)"

text \<open>The worker thread, with the critical sections of ap_queue_pop.\<close>

inductive worker_step :: "'c mpm \<Rightarrow> 'c mpm \<Rightarrow> bool" where
  w_top_exit: "workers s = add_mset (WTop lp) M \<Longrightarrow> workers_may_exit s \<Longrightarrow>
    worker_step s (s\<lparr>workers := add_mset (WExit False lp) M\<rparr>)"
| w_top: "workers s = add_mset (WTop lp) M \<Longrightarrow> \<not> workers_may_exit s \<Longrightarrow>
    worker_step s (s\<lparr>workers := add_mset (case lp of None \<Rightarrow> WInc | Some p \<Rightarrow> WLink p) M\<rparr>)"
| w_pop: "workers s = add_mset WPop M \<Longrightarrow>
    worker_step s (s\<lparr>workers := add_mset (if workers_may_exit s then WExit True None else WCall) M\<rparr>)"
| w_waits: "workers s = add_mset WCall M \<Longrightarrow> ap_queue_pop (worker_queue s) = PopWaits \<Longrightarrow>
    worker_step s (s\<lparr>workers := add_mset WBlocked M\<rparr>)"
| w_fails: "workers s = add_mset w M \<Longrightarrow>
    w = WCall \<and> ap_queue_pop (worker_queue s) = PopFails rv
      \<or> w = WWoken \<and> ap_queue_pop_woken (worker_queue s) = PopFails rv \<Longrightarrow>
    worker_step s (s\<lparr>workers := add_mset (if rv = APR_EOF then WExit True None else WPop) M\<rparr>)"
| w_gets: "workers s = add_mset w M \<Longrightarrow>
    w = WCall \<and> ap_queue_pop (worker_queue s) = PopGets (c, p) q
      \<or> w = WWoken \<and> ap_queue_pop_woken (worker_queue s) = PopGets (c, p) q \<Longrightarrow>
    worker_step s (s\<lparr>worker_queue := q, workers := add_mset (WBusy c p) M\<rparr>)"
| w_set_idle: "set_idle_step s t \<Longrightarrow> worker_step s t"

lemma worker_step_elim [consumes 1, case_names w_top_exit w_top w_link w_cas w_inc w_signal w_pop w_waits w_fails w_gets]:
  assumes "worker_step s t"
  obtains (w_top_exit) lp M where "t = s\<lparr>workers := add_mset (WExit False lp) M\<rparr>" "workers s = add_mset (WTop lp) M" "workers_may_exit s"
  | (w_top) lp M where "t = s\<lparr>workers := add_mset (case lp of None \<Rightarrow> WInc | Some p \<Rightarrow> WLink p) M\<rparr>" "workers s = add_mset (WTop lp) M" "\<not> workers_may_exit s"
  | (w_link) p M h where "t = s\<lparr>queue_info := recycle_link p h (queue_info s), workers := add_mset (WCas p h) M\<rparr>" "workers s = add_mset (WLink p) M" "h = qi_recycled (queue_info s)"
  | (w_cas) p h M ok qi where "t = s\<lparr>queue_info := qi, workers := add_mset (if ok then WInc else WLink p) M\<rparr>" "workers s = add_mset (WCas p h) M" "recycle_cas p h (queue_info s) = (ok, qi)"
  | (w_inc) M prev qi where "t = s\<lparr>queue_info := qi, workers := add_mset (if prev = 0 then WSignal else WPop) M\<rparr>" "workers s = add_mset WInc M" "idlers_inc (queue_info s) = (prev, qi)"
  | (w_signal) M where "t = s\<lparr>listener := listener_woken (listener s), workers := add_mset WPop M\<rparr>" "workers s = add_mset WSignal M"
  | (w_pop) M where "t = s\<lparr>workers := add_mset (if workers_may_exit s then WExit True None else WCall) M\<rparr>" "workers s = add_mset WPop M"
  | (w_waits) M where "t = s\<lparr>workers := add_mset WBlocked M\<rparr>" "workers s = add_mset WCall M" "ap_queue_pop (worker_queue s) = PopWaits"
  | (w_fails) w M rv where "t = s\<lparr>workers := add_mset (if rv = APR_EOF then WExit True None else WPop) M\<rparr>" "workers s = add_mset w M" "w = WCall \<and> ap_queue_pop (worker_queue s) = PopFails rv
      \<or> w = WWoken \<and> ap_queue_pop_woken (worker_queue s) = PopFails rv"
  | (w_gets) w M c p q where "t = s\<lparr>worker_queue := q, workers := add_mset (WBusy c p) M\<rparr>" "workers s = add_mset w M" "w = WCall \<and> ap_queue_pop (worker_queue s) = PopGets (c, p) q
      \<or> w = WWoken \<and> ap_queue_pop_woken (worker_queue s) = PopGets (c, p) q"
  using assms
proof (cases rule: worker_step.cases)
  case w_set_idle
  then show thesis by (cases rule: set_idle_step.cases) (rule that, assumption+)+
qed (rule that, assumption+)+

text \<open>ap_queue_info_wait_for_idler; its last step is the return to the listener, which breaks on APR_EOF.\<close>

inductive wait_for_idler_step :: "'c mpm \<Rightarrow> 'c mpm \<Rightarrow> bool" where
  l_test: "listener s = LTest \<Longrightarrow>
    wait_for_idler_step s (s\<lparr>listener := if qi_idlers (queue_info s) = 0 then LLock else LDec\<rparr>)"
| l_lock: "listener s = LLock \<Longrightarrow>
    wait_for_idler_step s (s\<lparr>listener := if qi_idlers (queue_info s) = 0 then LWait else LDec\<rparr>)"
| l_dec: "listener s = LDec \<Longrightarrow>
    wait_for_idler_step s (s\<lparr>queue_info := idlers_dec (queue_info s), listener := LPool\<rparr>)"
| l_pool: "listener s = LPool \<Longrightarrow>
    wait_for_idler_step s (s\<lparr>listener := case qi_recycled (queue_info s) of None \<Rightarrow> LRet None | Some p \<Rightarrow> LNext p\<rparr>)"
| l_next: "listener s = LNext p \<Longrightarrow>
    wait_for_idler_step s (s\<lparr>listener := LCas p (qi_next (queue_info s) p)\<rparr>)"
| l_cas: "listener s = LCas p nxt \<Longrightarrow> unrecycle_cas p nxt (queue_info s) = (ok, qi) \<Longrightarrow>
    wait_for_idler_step s (s\<lparr>queue_info := qi, listener := if ok then LRet (Some p) else LPool\<rparr>)"
| l_ret: "listener s = LRet op \<Longrightarrow>
    wait_for_idler_step s (s\<lparr>listener := if qi_terminated (queue_info s) then LClose True op else LReady op\<rparr>)"

text \<open>The listener thread.\<close>

inductive listener_step :: "'c mpm \<Rightarrow> 'c mpm \<Rightarrow> bool" where
  l_top: "listener s = LTop \<Longrightarrow>
    listener_step s (s\<lparr>listener := if listener_may_exit s then LClose False None else LTest\<rparr>)"
| l_stop: "listener s = LReady op \<Longrightarrow> listener_may_exit s \<Longrightarrow>
    listener_step s (s\<lparr>listener := LClose True op\<rparr>)"
| l_push: "listener s = LPush c p \<Longrightarrow> ap_queue_push (c, p) (worker_queue s) = Some q \<Longrightarrow>
    listener_step s (s\<lparr>worker_queue := q, workers := wake_worker (workers s), listener := LTop\<rparr>)"
| l_close: "listener s = LClose r op \<Longrightarrow>
    listener_step s (s\<lparr>worker_queue := ap_queue_set_terminated (worker_queue s), listener := LInterrupt r op\<rparr>)"
| l_interrupt: "listener s = LInterrupt r op \<Longrightarrow>
    listener_step s (s\<lparr>workers := image_mset worker_woken (workers s), listener := LExit r op\<rparr>)"
| l_wait_for_idler: "wait_for_idler_step s t \<Longrightarrow> listener_step s t"

lemma listener_step_elim [consumes 1, case_names l_top l_test l_lock l_dec l_pool l_next l_cas l_ret l_stop l_push l_close l_interrupt]:
  assumes "listener_step s t"
  obtains (l_top) "t = s\<lparr>listener := if listener_may_exit s then LClose False None else LTest\<rparr>" "listener s = LTop"
  | (l_test) "t = s\<lparr>listener := if qi_idlers (queue_info s) = 0 then LLock else LDec\<rparr>" "listener s = LTest"
  | (l_lock) "t = s\<lparr>listener := if qi_idlers (queue_info s) = 0 then LWait else LDec\<rparr>" "listener s = LLock"
  | (l_dec) "t = s\<lparr>queue_info := idlers_dec (queue_info s), listener := LPool\<rparr>" "listener s = LDec"
  | (l_pool) "t = s\<lparr>listener := case qi_recycled (queue_info s) of None \<Rightarrow> LRet None | Some p \<Rightarrow> LNext p\<rparr>" "listener s = LPool"
  | (l_next) p where "t = s\<lparr>listener := LCas p (qi_next (queue_info s) p)\<rparr>" "listener s = LNext p"
  | (l_cas) p nxt ok qi where "t = s\<lparr>queue_info := qi, listener := if ok then LRet (Some p) else LPool\<rparr>" "listener s = LCas p nxt" "unrecycle_cas p nxt (queue_info s) = (ok, qi)"
  | (l_ret) op where "t = s\<lparr>listener := if qi_terminated (queue_info s) then LClose True op else LReady op\<rparr>" "listener s = LRet op"
  | (l_stop) op where "t = s\<lparr>listener := LClose True op\<rparr>" "listener s = LReady op" "listener_may_exit s"
  | (l_push) c p q where "t = s\<lparr>worker_queue := q, workers := wake_worker (workers s), listener := LTop\<rparr>" "listener s = LPush c p" "ap_queue_push (c, p) (worker_queue s) = Some q"
  | (l_close) r op where "t = s\<lparr>worker_queue := ap_queue_set_terminated (worker_queue s), listener := LInterrupt r op\<rparr>" "listener s = LClose r op"
  | (l_interrupt) r op where "t = s\<lparr>workers := image_mset worker_woken (workers s), listener := LExit r op\<rparr>" "listener s = LInterrupt r op"
  using assms
proof (cases rule: listener_step.cases)
  case l_wait_for_idler
  then show thesis by (cases rule: wait_for_idler_step.cases) (rule that, assumption+)+
qed (rule that, assumption+)+

text \<open>
  signal_threads; its first part, for either mode, and the rest for
  ST_UNGRACEFUL. The two flags are written one right after the other in the
  source and set in one step here.
\<close>

inductive signal_start :: "'c mpm \<Rightarrow> 'c mpm \<Rightarrow> bool" where
  s_graceful: "mode s \<noteq> ST_GRACEFUL \<Longrightarrow>
    signal_start s (s\<lparr>mode := ST_GRACEFUL, listener_may_exit := True\<rparr>)"
| s_ungraceful: "mode s \<noteq> ST_UNGRACEFUL \<Longrightarrow> signaller s = SigNone \<Longrightarrow>
    signal_start s (s\<lparr>mode := ST_UNGRACEFUL, listener_may_exit := True, workers_may_exit := True,
                      signaller := SigInterrupt\<rparr>)"

inductive signal_step :: "'c mpm \<Rightarrow> 'c mpm \<Rightarrow> bool" where
  s_interrupt: "signaller s = SigInterrupt \<Longrightarrow>
    signal_step s (s\<lparr>workers := image_mset worker_woken (workers s), signaller := SigInfoTerm\<rparr>)"
| s_info_term: "signaller s = SigInfoTerm \<Longrightarrow>
    signal_step s (s\<lparr>queue_info := (queue_info s)\<lparr>qi_terminated := True\<rparr>,
                     listener := listener_woken (listener s), signaller := SigNone\<rparr>)"

text \<open>
  What comes from outside: a connection accepted (into the recycled pool or a
  new one) or a failed accept, the end of process_socket, a shutdown, and
  waits that return on their own.
\<close>

inductive mpm_env :: "'c mpm \<Rightarrow> 'c mpm \<Rightarrow> bool" where
  e_accept: "listener s = LReady op \<Longrightarrow> (p, np) = (case op of Some p \<Rightarrow> (p, next_pool s) | None \<Rightarrow> (next_pool s, next_pool s + 1)) \<Longrightarrow>
    mpm_env s (s\<lparr>listener := LPush c p, next_pool := np, accepted := add_mset c (accepted s)\<rparr>)"
| e_accept_fails: "listener s = LReady op \<Longrightarrow> (p, np) = (case op of Some p \<Rightarrow> (p, next_pool s) | None \<Rightarrow> (next_pool s, next_pool s + 1)) \<Longrightarrow>
    mpm_env s (s\<lparr>listener := LReady (Some p), next_pool := np\<rparr>)"
| e_finish: "workers s = add_mset (WBusy c p) M \<Longrightarrow>
    mpm_env s (s\<lparr>workers := add_mset (WTop (Some p)) M, finished := add_mset c (finished s)\<rparr>)"
| e_signal: "signal_start s t \<Longrightarrow> mpm_env s t"
| e_worker_wakes: "workers s = add_mset WBlocked M \<Longrightarrow> mpm_env s (s\<lparr>workers := add_mset WWoken M\<rparr>)"
| e_listener_wakes: "listener s = LWait \<Longrightarrow> mpm_env s (s\<lparr>listener := LLock\<rparr>)"

inductive mpm_work :: "'c mpm \<Rightarrow> 'c mpm \<Rightarrow> bool" where
  "worker_step s t \<Longrightarrow> mpm_work s t"
| "listener_step s t \<Longrightarrow> mpm_work s t"
| "signal_step s t \<Longrightarrow> mpm_work s t"

text \<open>A child process starts with all its threads: threads_per_child workers and a queue of that capacity.\<close>

definition mpm_init :: "'c \<times> nat \<Rightarrow> nat \<Rightarrow> 'c mpm" where
  "mpm_init null n =
     \<lparr>listener = LTop, workers = replicate_mset n (WTop None), worker_queue = ap_queue_init null n,
      queue_info = ap_queue_info_create, listener_may_exit = False, workers_may_exit = False,
      mode = ST_INIT, signaller = SigNone, next_pool = 0, accepted = {#}, finished = {#}\<rparr>"

inductive mpm_reachable :: "'c \<times> nat \<Rightarrow> nat \<Rightarrow> 'c mpm \<Rightarrow> bool" for null n where
  m_start: "mpm_reachable null n (mpm_init null n)"
| m_work: "mpm_reachable null n s \<Longrightarrow> mpm_work s t \<Longrightarrow> mpm_reachable null n t"
| m_env: "mpm_reachable null n s \<Longrightarrow> mpm_env s t \<Longrightarrow> mpm_reachable null n t"

section \<open>Counting threads\<close>

lemma worker_count_simps [simp]:
  "worker_count P {#} = 0"
  "worker_count P (add_mset w M) = (if P w then worker_count P M + 1 else worker_count P M)"
  by (simp_all add: worker_count_def)

lemma worker_count_cong: "(\<And>w. P (f w) = Q w) \<Longrightarrow> worker_count P (image_mset f M) = worker_count Q M"
  by (induction M) auto

lemma worker_count_pos: "w \<in># M \<Longrightarrow> P w \<Longrightarrow> 0 < worker_count P M"
  by (auto simp: worker_count_def dest!: multi_member_split)

lemma worker_count_zero: "worker_count P M = 0 \<Longrightarrow> w \<in># M \<Longrightarrow> \<not> P w"
  using worker_count_pos [of w M P] by auto

lemma worker_count_mono: "(\<And>w. P w \<Longrightarrow> Q w) \<Longrightarrow> worker_count P M \<le> worker_count Q M"
  by (induction M) auto

lemma worker_count_all: "worker_count P M \<le> size M"
  by (induction M) auto

fun is_idle :: "'c worker \<Rightarrow> bool" where
  "is_idle WSignal \<longleftrightarrow> True"
| "is_idle WPop \<longleftrightarrow> True"
| "is_idle WCall \<longleftrightarrow> True"
| "is_idle WBlocked \<longleftrightarrow> True"
| "is_idle WWoken \<longleftrightarrow> True"
| "is_idle (WExit idle lp) \<longleftrightarrow> idle"
| "is_idle _ \<longleftrightarrow> False"

fun reserved :: "'c listener \<Rightarrow> nat" where
  "reserved LTop = 0"
| "reserved LTest = 0"
| "reserved LLock = 0"
| "reserved LWait = 0"
| "reserved LDec = 0"
| "reserved (LClose r op) = of_bool r"
| "reserved (LInterrupt r op) = of_bool r"
| "reserved (LExit r op) = of_bool r"
| "reserved _ = 1"

lemma worker_woken_simps [simp]:
  "is_idle (worker_woken w) = is_idle w" "is_WSignal (worker_woken w) = is_WSignal w"
  "is_WExit (worker_woken w) = is_WExit w" "\<not> is_WBlocked (worker_woken w)"
  "is_WWoken (worker_woken w) \<longleftrightarrow> is_WWoken w \<or> is_WBlocked w"
  by (cases w; simp)+

lemma wake_worker_cases:
  obtains M' where "M = add_mset WBlocked M'" "wake_worker M = add_mset WWoken M'"
  | "worker_count is_WBlocked M = 0" "WBlocked \<notin># M" "wake_worker M = M"
proof (cases "WBlocked \<in># M")
  case True
  then obtain M' where "M = add_mset WBlocked M'" by (meson multi_member_split)
  then show thesis using that(1) by (simp add: wake_worker_def)
next
  case False
  then have "worker_count is_WBlocked M = 0" by (auto simp: worker_count_def is_WBlocked_def)
  then show thesis using that(2) False by (simp add: wake_worker_def)
qed

lemma listener_woken_reserved [simp]: "reserved (listener_woken l) = reserved l"
  by (cases l) auto

section \<open>Every connection has an idle worker\<close>

text \<open>
  The idle workers are those counted in idlers, the one the listener holds, and
  one for each connection in the queue.
\<close>

definition reserve_inv :: "nat \<Rightarrow> 'c mpm \<Rightarrow> bool" where
  "reserve_inv n s \<longleftrightarrow> fd_ok (worker_queue s) \<and> fd_bounds (worker_queue s) = n \<and> size (workers s) = n
     \<and> qi_idlers (queue_info s) + reserved (listener s) + fd_nelts (worker_queue s)
         = worker_count is_idle (workers s)
     \<and> (listener s = LDec \<longrightarrow> 0 < qi_idlers (queue_info s))"

lemma wake_worker_frame:
  "size (wake_worker M) = size M" "worker_count is_idle (wake_worker M) = worker_count is_idle M"
  "worker_count is_WExit (wake_worker M) = worker_count is_WExit M"
  "worker_count is_WSignal (wake_worker M) = worker_count is_WSignal M"
  by (rule wake_worker_cases [of M]; simp)+

lemma fd_pop_frame:
  assumes "ap_queue_pop q = PopGets x q' \<or> ap_queue_pop_woken q = PopGets x q'" "fd_ok q"
  shows "fd_ok q'" "fd_bounds q' = fd_bounds q" "fd_nelts q = fd_nelts q' + 1"
    "fd_terminated q' = fd_terminated q" "fd_contents q = x # fd_contents q'"
  using fd_pop_gets [OF assms(1)] fd_take_ok [OF assms(2)] by simp_all

lemma reserve_room:
  assumes "reserve_inv n s" "listener s = LPush c p"
  shows "fd_nelts (worker_queue s) < n"
  using assms worker_count_all [of is_idle "workers s"] by (simp add: reserve_inv_def)

lemma ap_queue_push_room:
  assumes "fd_ok q" "fd_nelts q < fd_bounds q"
  shows "ap_queue_push x q = Some (fd_put x q)"
  using assms by (simp add: ap_queue_push_def fd_ok_def)

lemma reserve_worker:
  assumes "worker_step s t" "reserve_inv n s"
  shows "reserve_inv n t"
  using assms(1)
proof (cases rule: worker_step_elim)
  case (w_gets w M c p q)
  then have g: "ap_queue_pop (worker_queue s) = PopGets (c, p) q
      \<or> ap_queue_pop_woken (worker_queue s) = PopGets (c, p) q" by blast
  have "fd_ok (worker_queue s)" using assms(2) by (simp add: reserve_inv_def)
  note f = fd_pop_frame [OF g this]
  have "is_idle w" using w_gets(3) by auto
  then show ?thesis using assms(2) w_gets f by (simp add: reserve_inv_def)
next
  case (w_fails w M rv)
  then have "is_idle w" by auto
  then show ?thesis using assms(2) w_fails by (simp add: reserve_inv_def)
next
  case (w_signal M)
  have "listener_woken (listener s) = LDec \<longleftrightarrow> listener s = LDec" by (cases "listener s") auto
  then show ?thesis using assms(2) w_signal by (simp add: reserve_inv_def)
qed (use assms(2) in \<open>auto simp: reserve_inv_def qi_defs split: if_splits option.splits\<close>)

lemma reserve_listener:
  assumes "listener_step s t" "reserve_inv n s"
  shows "reserve_inv n t"
  using assms(1)
proof (cases rule: listener_step_elim)
  case (l_push c p q)
  have "fd_nelts (worker_queue s) < n" by (rule reserve_room [OF assms(2) l_push(2)])
  then have q: "q = fd_put (c, p) (worker_queue s)" "fd_ok q"
    using l_push(3) assms(2) fd_put_ok [of "worker_queue s" "(c, p)"]
    by (auto simp: reserve_inv_def ap_queue_push_room)
  then show ?thesis using assms(2) l_push by (simp add: reserve_inv_def wake_worker_frame)
next
  case (l_interrupt r op)
  then show ?thesis using assms(2)
    by (simp add: reserve_inv_def worker_count_cong [where Q = is_idle])
qed (use assms(2) in \<open>auto simp: reserve_inv_def qi_defs split: if_splits option.splits\<close>)

lemma reserve_signal:
  assumes "signal_step s t" "reserve_inv n s"
  shows "reserve_inv n t"
  using assms(1)
proof (cases rule: signal_step.cases)
  case s_interrupt
  then show ?thesis using assms(2) by (simp add: reserve_inv_def worker_count_cong [where Q = is_idle])
next
  case s_info_term
  have "listener_woken (listener s) = LDec \<longleftrightarrow> listener s = LDec" by (cases "listener s") auto
  then show ?thesis using assms(2) s_info_term by (simp add: reserve_inv_def)
qed

lemma reserve_env: "mpm_env s t \<Longrightarrow> reserve_inv n s \<Longrightarrow> reserve_inv n t"
  by (cases rule: mpm_env.cases)
     (auto simp: reserve_inv_def signal_start.simps split: option.splits)

lemma reserve_work: "mpm_work s t \<Longrightarrow> reserve_inv n s \<Longrightarrow> reserve_inv n t"
  using reserve_worker reserve_listener reserve_signal by (metis mpm_work.cases)

lemma reserve_reachable: "mpm_reachable null n s \<Longrightarrow> reserve_inv n s"
proof (induction rule: mpm_reachable.induct)
  case m_start
  have "worker_count is_idle (replicate_mset n (WTop None)) = 0" by (induction n) auto
  then show ?case by (simp add: mpm_init_def reserve_inv_def fd_init_ok ap_queue_info_create_def)
      (simp add: ap_queue_init_def)
qed (use reserve_work reserve_env in blast)+

section \<open>Every pool has one owner\<close>

fun worker_pools :: "'c worker \<Rightarrow> nat multiset" where
  "worker_pools (WTop lp) = mset_set (set_option lp)"
| "worker_pools (WLink p) = {#p#}"
| "worker_pools (WCas p h) = {#p#}"
| "worker_pools (WBusy c p) = {#p#}"
| "worker_pools (WExit idle lp) = mset_set (set_option lp)"
| "worker_pools _ = {#}"

fun listener_pools :: "'c listener \<Rightarrow> nat multiset" where
  "listener_pools (LRet op) = mset_set (set_option op)"
| "listener_pools (LReady op) = mset_set (set_option op)"
| "listener_pools (LPush c p) = {#p#}"
| "listener_pools (LClose r op) = mset_set (set_option op)"
| "listener_pools (LInterrupt r op) = mset_set (set_option op)"
| "listener_pools (LExit r op) = mset_set (set_option op)"
| "listener_pools _ = {#}"

definition all_pools :: "'c worker multiset \<Rightarrow> nat multiset" where
  "all_pools M = sum_mset (image_mset worker_pools M)"

definition pool_owners :: "nat list \<Rightarrow> 'c mpm \<Rightarrow> nat multiset" where
  "pool_owners ps s = mset ps + all_pools (workers s) + listener_pools (listener s)
     + image_mset snd (mset (fd_contents (worker_queue s)))"

definition single_owner :: "nat \<Rightarrow> nat multiset \<Rightarrow> bool" where
  "single_owner np M \<longleftrightarrow> (\<forall>p. count M p \<le> (if p < np then 1 else 0))"

definition links_ok :: "nat list \<Rightarrow> 'c listener \<Rightarrow> 'c worker multiset \<Rightarrow> fd_queue_info \<Rightarrow> bool" where
  "links_ok ps l M qi \<longleftrightarrow> pool_chain (qi_next qi) (qi_recycled qi) ps
     \<and> (\<forall>p. l = LNext p \<longrightarrow> p \<in> set ps)
     \<and> (\<forall>p nxt. l = LCas p nxt \<longrightarrow> p \<in> set ps \<and> qi_next qi p = nxt)
     \<and> (\<forall>p h. WCas p h \<in># M \<longrightarrow> qi_next qi p = h)"

definition pool_inv :: "'c mpm \<Rightarrow> bool" where
  "pool_inv s \<longleftrightarrow> (\<exists>ps. links_ok ps (listener s) (workers s) (queue_info s)
     \<and> single_owner (next_pool s) (pool_owners ps s))"

lemma all_pools_simps [simp]:
  "all_pools {#} = {#}" "all_pools (add_mset w M) = worker_pools w + all_pools M"
  by (simp_all add: all_pools_def)

lemma worker_pools_woken [simp]: "worker_pools (worker_woken w) = worker_pools w"
  by (cases w) auto

lemma all_pools_woken [simp]: "all_pools (image_mset worker_woken M) = all_pools M"
  by (induction M) auto

lemma all_pools_wake [simp]: "all_pools (wake_worker M) = all_pools M"
  by (rule wake_worker_cases [of M]) simp_all

lemma cas_in_woken [simp]:
  "WCas p h \<in> worker_woken ` W \<longleftrightarrow> WCas p h \<in> W" "WCas p h \<in># wake_worker M \<longleftrightarrow> WCas p h \<in># M"
proof -
  have "WCas p h = worker_woken w \<longleftrightarrow> WCas p h = w" for w :: "'c worker" by (cases w) auto
  then show "WCas p h \<in> worker_woken ` W \<longleftrightarrow> WCas p h \<in> W" by (metis image_iff)
  show "WCas p h \<in># wake_worker M \<longleftrightarrow> WCas p h \<in># M" by (rule wake_worker_cases [of M]) simp_all
qed

lemma all_pools_member: "w \<in># M \<Longrightarrow> p \<in># worker_pools w \<Longrightarrow> p \<in># all_pools M"
  by (auto dest!: multi_member_split)

lemma single_owner_disjoint: "single_owner np (A + B) \<Longrightarrow> p \<in># A \<Longrightarrow> p \<notin># B"
  by (force simp: single_owner_def not_in_iff count_greater_zero_iff [symmetric] simp del: count_greater_zero_iff
      dest: spec [of _ p] split: if_splits)

lemma single_owner_fresh:
  assumes "single_owner np M"
  shows "single_owner (np + 1) (add_mset np M)"
proof -
  have m: "count M p \<le> (if p < np then 1 else 0)" for p using assms by (simp add: single_owner_def)
  have "count (add_mset np M) p \<le> (if p < np + 1 then 1 else 0)" for p
    using m [of p] by (cases "p = np") (auto split: if_splits)
  then show ?thesis by (simp add: single_owner_def)
qed

lemma listener_woken_eqs [simp]:
  "listener_woken l = LNext p \<longleftrightarrow> l = LNext p" "listener_woken l = LCas p nxt \<longleftrightarrow> l = LCas p nxt"
  "listener_woken l = LPush c p \<longleftrightarrow> l = LPush c p" "listener_woken l = LDec \<longleftrightarrow> l = LDec"
  "listener_pools (listener_woken l) = listener_pools l"
  by (cases l; simp)+

lemma pool_invI:
  "links_ok ps (listener s) (workers s) (queue_info s) \<Longrightarrow> single_owner (next_pool s) (pool_owners ps s) \<Longrightarrow> pool_inv s"
  by (auto simp: pool_inv_def)

text \<open>A step that keeps the list of recycled pools and hands its pools on.\<close>

lemma pool_same:
  assumes "links_ok ps (listener s) (workers s) (queue_info s)" "single_owner (next_pool s) (pool_owners ps s)"
    and "queue_info t = queue_info s" "next_pool t = next_pool s" "pool_owners ps t = pool_owners ps s"
    and "\<And>p. listener t = LNext p \<Longrightarrow> listener s = LNext p"
    and "\<And>p nxt. listener t = LCas p nxt \<Longrightarrow> listener s = LCas p nxt"
    and "\<And>p h. WCas p h \<in># workers t \<Longrightarrow> WCas p h \<in># workers s"
  shows "pool_inv t"
  using assms by (intro pool_invI [of ps]) (auto simp: links_ok_def)

lemma pool_worker:
  assumes "worker_step s t" "pool_inv s" "fd_ok (worker_queue s)"
  shows "pool_inv t"
proof -
  obtain ps where ps: "links_ok ps (listener s) (workers s) (queue_info s)"
    "single_owner (next_pool s) (pool_owners ps s)"
    using assms(2) by (auto simp: pool_inv_def)
  show ?thesis
    using assms(1)
  proof (cases rule: worker_step_elim)
    case (w_link p M h)
    have own: "pool_owners ps s = {#p#} + (mset ps + all_pools M + listener_pools (listener s)
        + image_mset snd (mset (fd_contents (worker_queue s))))"
      using w_link by (simp add: pool_owners_def)
    then have out: "p \<notin> set ps" "p \<notin># all_pools M"
      using single_owner_disjoint [OF ps(2) [unfolded own], of p] by auto
    have "WCas p' h' \<in># M \<Longrightarrow> p' \<noteq> p" for p' h'
      using all_pools_member [of "WCas p' h'" M p'] out(2) by auto
    then have "links_ok ps (listener t) (workers t) (queue_info t)"
      using ps(1) w_link out by (auto simp: links_ok_def recycle_link_def pool_chain_upd)
    then show ?thesis using ps(2) own w_link by (intro pool_invI [of ps]) (simp_all add: pool_owners_def)
  next
    case (w_cas p h M ok qi)
    show ?thesis
    proof (cases ok)
      case True
      then have "links_ok (p # ps) (listener t) (workers t) (queue_info t)"
        using ps(1) w_cas by (auto simp: links_ok_def recycle_cas_def split: if_splits)
      then show ?thesis using ps(2) w_cas True
        by (intro pool_invI [of "p # ps"]) (simp_all add: pool_owners_def)
    next
      case False
      then have "qi = queue_info s" using w_cas(3) by (auto simp: recycle_cas_def split: if_splits)
      then show ?thesis using w_cas False
        by (intro pool_same [OF ps]) (auto simp: pool_owners_def)
    qed
  next
    case (w_inc M prev qi)
    then have "links_ok ps (listener t) (workers t) (queue_info t)"
      using ps(1) by (auto simp: links_ok_def idlers_inc_def)
    then show ?thesis using ps(2) w_inc by (intro pool_invI [of ps]) (simp_all add: pool_owners_def)
  next
    case (w_gets w M c p q)
    then have g: "ap_queue_pop (worker_queue s) = PopGets (c, p) q
        \<or> ap_queue_pop_woken (worker_queue s) = PopGets (c, p) q" by blast
    note f = fd_pop_frame [OF g assms(3)]
    have "worker_pools w = {#}" using w_gets(3) by auto
    then show ?thesis using w_gets f(5) by (intro pool_same [OF ps]) (auto simp: pool_owners_def)
  next
    case (w_fails w M rv)
    then have "worker_pools w = {#}" by auto
    then show ?thesis using w_fails
      by (intro pool_same [OF ps]) (auto simp: pool_owners_def split: if_splits)
  next
    case (w_top lp M)
    then show ?thesis by (intro pool_same [OF ps]) (auto simp: pool_owners_def split: option.splits)
  qed (intro pool_same [OF ps]; auto simp: pool_owners_def split: if_splits)+
qed

lemma pool_listener:
  assumes "listener_step s t" "pool_inv s" "reserve_inv n s"
  shows "pool_inv t"
proof -
  obtain ps where ps: "links_ok ps (listener s) (workers s) (queue_info s)"
    "single_owner (next_pool s) (pool_owners ps s)"
    using assms(2) by (auto simp: pool_inv_def)
  show ?thesis
    using assms(1)
  proof (cases rule: listener_step_elim)
    case l_dec
    then have "links_ok ps (listener t) (workers t) (queue_info t)"
      using ps(1) by (auto simp: links_ok_def idlers_dec_def)
    then show ?thesis using ps(2) l_dec by (intro pool_invI [of ps]) (simp_all add: pool_owners_def)
  next
    case l_pool
    have "links_ok ps (listener t) (workers t) (queue_info t)"
      using ps(1) l_pool pool_chain_head by (fastforce simp: links_ok_def split: option.splits)
    then show ?thesis using ps(2) l_pool
      by (intro pool_invI [of ps]) (simp_all add: pool_owners_def split: option.splits)
  next
    case (l_next p)
    then have "links_ok ps (listener t) (workers t) (queue_info t)"
      using ps(1) by (auto simp: links_ok_def)
    then show ?thesis using ps(2) l_next by (intro pool_invI [of ps]) (simp_all add: pool_owners_def)
  next
    case (l_cas p nxt ok qi)
    show ?thesis
    proof (cases ok)
      case True
      then have qi: "qi_recycled (queue_info s) = Some p" "qi = (queue_info s)\<lparr>qi_recycled := nxt\<rparr>"
        using l_cas(3) by (auto simp: unrecycle_cas_def split: if_splits)
      obtain qs where qs: "ps = p # qs" "pool_chain (qi_next (queue_info s)) (qi_next (queue_info s) p) qs"
        using ps(1) qi(1) pool_chain_head by (force simp: links_ok_def)
      have "links_ok qs (listener t) (workers t) (queue_info t)"
        using ps(1) l_cas qs True qi by (auto simp: links_ok_def)
      then show ?thesis using ps(2) qs(1) l_cas True
        by (intro pool_invI [of qs]) (simp_all add: pool_owners_def)
    next
      case False
      then have "qi = queue_info s" using l_cas(3) by (auto simp: unrecycle_cas_def split: if_splits)
      then show ?thesis using l_cas False by (intro pool_same [OF ps]) (auto simp: pool_owners_def)
    qed
  next
    case (l_push c p q)
    have "q = fd_put (c, p) (worker_queue s)" "fd_contents q = (c, p) # fd_contents (worker_queue s)"
      using l_push(3) assms(3) reserve_room [OF assms(3) l_push(2)] fd_put_ok [of "worker_queue s" "(c, p)"]
      by (auto simp: reserve_inv_def ap_queue_push_room)
    then show ?thesis using l_push by (intro pool_same [OF ps]) (auto simp: pool_owners_def)
  qed (intro pool_same [OF ps]; auto simp: pool_owners_def split: if_splits)+
qed

lemma pool_signal: "signal_step s t \<Longrightarrow> pool_inv s \<Longrightarrow> pool_inv t"
  by (cases rule: signal_step.cases) (auto simp: pool_inv_def pool_owners_def links_ok_def)

lemma pool_env:
  assumes "mpm_env s t" "pool_inv s"
  shows "pool_inv t"
proof -
  obtain ps where ps: "links_ok ps (listener s) (workers s) (queue_info s)"
    "single_owner (next_pool s) (pool_owners ps s)"
    using assms(2) by (auto simp: pool_inv_def)
  have fresh: "single_owner (next_pool s + 1) (add_mset (next_pool s) (pool_owners ps s))"
    by (rule single_owner_fresh [OF ps(2)])
  show ?thesis
    using assms(1)
  proof (cases rule: mpm_env.cases)
    case (e_accept op p np c)
    then have "links_ok ps (listener t) (workers t) (queue_info t)" using ps(1) by (auto simp: links_ok_def)
    then show ?thesis using ps(2) fresh e_accept
      by (intro pool_invI [of ps]) (auto simp: pool_owners_def split: option.splits)
  next
    case (e_accept_fails op p np)
    then have "links_ok ps (listener t) (workers t) (queue_info t)" using ps(1) by (auto simp: links_ok_def)
    then show ?thesis using ps(2) fresh e_accept_fails
      by (intro pool_invI [of ps]) (auto simp: pool_owners_def split: option.splits)
  next
    case e_signal
    then show ?thesis
      by (cases rule: signal_start.cases) (intro pool_same [OF ps]; auto simp: pool_owners_def)+
  qed (intro pool_same [OF ps]; auto simp: pool_owners_def)+
qed

lemma pool_reachable:
  fixes s :: "'a mpm"
  shows "mpm_reachable null n s \<Longrightarrow> pool_inv s"
proof (induction rule: mpm_reachable.induct)
  case m_start
  have "all_pools (replicate_mset n (WTop None) :: 'a worker multiset) = {#}" by (induction n) auto
  then show ?case by (intro pool_invI [of "[]"])
      (auto simp: mpm_init_def links_ok_def single_owner_def pool_owners_def fd_init_ok ap_queue_info_create_def
         in_replicate_mset)
next
  case (m_work s t)
  then show ?case using reserve_reachable [OF m_work(1)]
    by (metis mpm_work.cases pool_worker pool_listener pool_signal reserve_inv_def)
qed (rule pool_env)

section \<open>Connections, wake-ups and the drain\<close>

fun worker_conns :: "'c worker \<Rightarrow> 'c multiset" where
  "worker_conns (WBusy c p) = {#c#}"
| "worker_conns _ = {#}"

fun listener_conns :: "'c listener \<Rightarrow> 'c multiset" where
  "listener_conns (LPush c p) = {#c#}"
| "listener_conns _ = {#}"

definition in_service :: "'c worker multiset \<Rightarrow> 'c multiset" where
  "in_service M = sum_mset (image_mset worker_conns M)"

definition conn_inv :: "'c mpm \<Rightarrow> bool" where
  "conn_inv s \<longleftrightarrow> accepted s = finished s + in_service (workers s) + listener_conns (listener s)
     + image_mset fst (mset (fd_contents (worker_queue s)))"

definition listener_wakes :: "'c mpm \<Rightarrow> bool" where
  "listener_wakes s \<longleftrightarrow> (listener s = LWait \<and> 0 < qi_idlers (queue_info s) \<longrightarrow>
     0 < worker_count is_WSignal (workers s))"

definition workers_wake :: "'c mpm \<Rightarrow> bool" where
  "workers_wake s \<longleftrightarrow> (0 < worker_count is_WBlocked (workers s) \<longrightarrow>
     fd_nelts (worker_queue s) \<le> worker_count is_WWoken (workers s))"

definition closes :: "'c mpm \<Rightarrow> bool" where
  "closes s \<longleftrightarrow> (fd_terminated (worker_queue s) \<longleftrightarrow> is_LInterrupt (listener s) \<or> is_LExit (listener s))
     \<and> (is_LExit (listener s) \<longrightarrow> worker_count is_WBlocked (workers s) = 0)"

definition drains :: "'c mpm \<Rightarrow> bool" where
  "drains s \<longleftrightarrow> workers_may_exit s \<or> worker_count is_WExit (workers s) = 0
     \<or> fd_terminated (worker_queue s) \<and> fd_nelts (worker_queue s) = 0"

definition wake_inv :: "'c mpm \<Rightarrow> bool" where
  "wake_inv s \<longleftrightarrow> listener_wakes s \<and> workers_wake s \<and> closes s \<and> drains s"

lemma in_service_simps [simp]:
  "in_service {#} = {#}" "in_service (add_mset w M) = worker_conns w + in_service M"
  by (simp_all add: in_service_def)

lemma worker_conns_woken [simp]: "worker_conns (worker_woken w) = worker_conns w"
  by (cases w) auto

lemma in_service_woken [simp]: "in_service (image_mset worker_woken M) = in_service M"
  by (induction M) auto

lemma in_service_wake [simp]: "in_service (wake_worker M) = in_service M"
  by (rule wake_worker_cases [of M]) simp_all

lemma listener_woken_more [simp]:
  "listener_conns (listener_woken l) = listener_conns l" "listener_woken l \<noteq> LWait"
  "is_LInterrupt (listener_woken l) = is_LInterrupt l" "is_LExit (listener_woken l) = is_LExit l"
  by (cases l; simp)+

lemma worker_woken_counts [simp]:
  "worker_count is_WSignal (image_mset worker_woken M) = worker_count is_WSignal M"
  "worker_count is_WExit (image_mset worker_woken M) = worker_count is_WExit M"
  "worker_count is_WBlocked (image_mset worker_woken M) = 0"
  "worker_count is_WWoken (image_mset worker_woken M)
     = worker_count is_WWoken M + worker_count is_WBlocked M"
proof -
  show "worker_count is_WSignal (image_mset worker_woken M) = worker_count is_WSignal M"
    "worker_count is_WExit (image_mset worker_woken M) = worker_count is_WExit M"
    by (rule worker_count_cong; simp)+
  show "worker_count is_WBlocked (image_mset worker_woken M) = 0" by (induction M) auto
  show "worker_count is_WWoken (image_mset worker_woken M)
     = worker_count is_WWoken M + worker_count is_WBlocked M"
  proof (induction M)
    case (add w M)
    then show ?case by (cases w) auto
  qed simp
qed

lemma conn_work:
  assumes "mpm_work s t" "conn_inv s" "reserve_inv n s"
  shows "conn_inv t"
  using assms(1)
proof (cases rule: mpm_work.cases)
  case 1
  then show ?thesis
  proof (cases rule: worker_step_elim)
    case (w_gets w M c p q)
    then have g: "ap_queue_pop (worker_queue s) = PopGets (c, p) q
        \<or> ap_queue_pop_woken (worker_queue s) = PopGets (c, p) q" by blast
    have "fd_ok (worker_queue s)" using assms(3) by (simp add: reserve_inv_def)
    note f = fd_pop_frame [OF g this]
    have "worker_conns w = {#}" using w_gets(3) by auto
    then show ?thesis using assms(2) w_gets f(5) by (simp add: conn_inv_def)
  next
    case (w_fails w M rv)
    then have "worker_conns w = {#}" by auto
    then show ?thesis using assms(2) w_fails by (simp add: conn_inv_def)
  qed (use assms(2) in \<open>auto simp: conn_inv_def split: option.splits\<close>)
next
  case 2
  then show ?thesis
  proof (cases rule: listener_step_elim)
    case (l_push c p q)
    have "fd_contents q = (c, p) # fd_contents (worker_queue s)"
      using l_push(3) assms(3) reserve_room [OF assms(3) l_push(2)] fd_put_ok [of "worker_queue s" "(c, p)"]
      by (auto simp: reserve_inv_def ap_queue_push_room)
    then show ?thesis using assms(2) l_push by (simp add: conn_inv_def)
  qed (use assms(2) in \<open>auto simp: conn_inv_def split: option.splits\<close>)
next
  case 3
  then show ?thesis by (cases rule: signal_step.cases) (use assms(2) in \<open>auto simp: conn_inv_def\<close>)
qed

lemma conn_env: "mpm_env s t \<Longrightarrow> conn_inv s \<Longrightarrow> conn_inv t"
  by (cases rule: mpm_env.cases) (auto simp: conn_inv_def signal_start.simps)

lemma conn_reachable:
  fixes s :: "'a mpm"
  shows "mpm_reachable null n s \<Longrightarrow> conn_inv s"
proof (induction rule: mpm_reachable.induct)
  case m_start
  have "in_service (replicate_mset n (WTop None) :: 'a worker multiset) = {#}" by (induction n) auto
  then show ?case by (simp add: mpm_init_def conn_inv_def fd_init_ok)
qed (use conn_work conn_env reserve_reachable in blast)+

text \<open>A worker that enters or leaves a critical section of the queue.\<close>

lemma pop_step_facts:
  assumes "worker_step s t" "reserve_inv n s"
  shows "listener t = listener s \<or> listener t = listener_woken (listener s)"
    "fd_terminated (worker_queue t) = fd_terminated (worker_queue s)"
    "fd_nelts (worker_queue t) \<le> fd_nelts (worker_queue s)"
    "workers_may_exit t = workers_may_exit s"
proof -
  have "(listener t = listener s \<or> listener t = listener_woken (listener s))
      \<and> fd_terminated (worker_queue t) = fd_terminated (worker_queue s)
      \<and> fd_nelts (worker_queue t) \<le> fd_nelts (worker_queue s)
      \<and> workers_may_exit t = workers_may_exit s"
    using assms(1)
  proof (cases rule: worker_step_elim)
    case (w_gets w M c p q)
    then have g: "ap_queue_pop (worker_queue s) = PopGets (c, p) q
        \<or> ap_queue_pop_woken (worker_queue s) = PopGets (c, p) q" by blast
    have "fd_ok (worker_queue s)" using assms(2) by (simp add: reserve_inv_def)
    note f = fd_pop_frame [OF g this]
    then show ?thesis using w_gets(1) by simp
  qed simp_all
  then show "listener t = listener s \<or> listener t = listener_woken (listener s)"
    "fd_terminated (worker_queue t) = fd_terminated (worker_queue s)"
    "fd_nelts (worker_queue t) \<le> fd_nelts (worker_queue s)"
    "workers_may_exit t = workers_may_exit s" by blast+
qed

lemma listener_wakes_worker:
  assumes "worker_step s t" "listener_wakes s"
  shows "listener_wakes t"
  using assms(1)
proof (cases rule: worker_step_elim)
  case (w_gets w M c p q)
  then have "\<not> is_WSignal w" by auto
  then show ?thesis using assms(2) w_gets(1,2) by (simp add: listener_wakes_def)
next
  case (w_fails w M rv)
  then have "\<not> is_WSignal w" by auto
  then show ?thesis using assms(2) w_fails(1,2) by (simp add: listener_wakes_def)
qed (use assms(2) in \<open>auto simp: listener_wakes_def qi_defs split: if_splits option.splits\<close>)

lemma workers_wake_worker:
  assumes "worker_step s t" "workers_wake s" "reserve_inv n s"
  shows "workers_wake t"
  using assms(1)
proof (cases rule: worker_step_elim)
  case (w_gets w M c p q)
  then have g: "ap_queue_pop (worker_queue s) = PopGets (c, p) q
      \<or> ap_queue_pop_woken (worker_queue s) = PopGets (c, p) q" by blast
  have "fd_ok (worker_queue s)" using assms(3) by (simp add: reserve_inv_def)
  note f = fd_pop_frame [OF g this]
  have "w = WCall \<or> w = WWoken" using w_gets(3) by auto
  then show ?thesis using assms(2) w_gets(1,2) f(3) by (auto simp: workers_wake_def)
next
  case (w_fails w M rv)
  then have "w = WCall \<or> w = WWoken" "fd_nelts (worker_queue s) = 0"
    by (auto simp: fd_pop_fails split: if_splits)
  then show ?thesis using w_fails(1) by (simp add: workers_wake_def)
next
  case (w_waits M)
  then show ?thesis by (simp add: fd_pop_fails workers_wake_def)
qed (use assms(2) in \<open>auto simp: workers_wake_def qi_defs split: if_splits option.splits\<close>)

lemma closes_worker:
  assumes "worker_step s t" "closes s" "reserve_inv n s"
  shows "closes t"
proof -
  have blocked: "worker_count is_WBlocked (workers t) = 0"
    if "is_LExit (listener s)" "worker_count is_WBlocked (workers s) = 0"
    using assms(1)
  proof (cases rule: worker_step_elim)
    case (w_waits M)
    then show ?thesis using assms(2) that by (simp add: fd_pop_fails closes_def)
  next
    case (w_gets w M c p q)
    show ?thesis using that w_gets(1,2) by (simp split: if_splits)
  next
    case (w_fails w M rv)
    show ?thesis using that w_fails(1,2) by (simp split: if_splits)
  qed (use that in \<open>simp split: if_splits option.splits\<close>)+
  have "is_LExit (listener t) = is_LExit (listener s)" "is_LInterrupt (listener t) = is_LInterrupt (listener s)"
    using pop_step_facts(1) [OF assms(1,3)] by (elim disjE; simp)+
  then show ?thesis using assms(2) blocked pop_step_facts(2) [OF assms(1,3)] unfolding closes_def by blast
qed

lemma drains_worker:
  assumes "worker_step s t" "drains s" "reserve_inv n s"
  shows "drains t"
proof -
  have exits: "worker_count is_WExit (workers t) \<noteq> 0 \<Longrightarrow> \<not> workers_may_exit s \<Longrightarrow>
      worker_count is_WExit (workers s) \<noteq> 0 \<or> fd_terminated (worker_queue s) \<and> fd_nelts (worker_queue s) = 0"
    using assms(1)
  proof (cases rule: worker_step_elim)
    case (w_fails w M rv)
    then have "fd_nelts (worker_queue s) = 0" "rv = APR_EOF \<longleftrightarrow> fd_terminated (worker_queue s)"
      by (auto simp: fd_pop_fails split: if_splits)
    then show ?thesis if "worker_count is_WExit (workers t) \<noteq> 0" "\<not> workers_may_exit s"
      using w_fails(1,2) that by (auto split: if_splits)
  next
    case (w_gets w M c p q)
    show ?thesis if "worker_count is_WExit (workers t) \<noteq> 0" "\<not> workers_may_exit s"
      using w_gets(1,2) that by (simp split: if_splits)
  qed (simp split: if_splits option.splits)+
  note f = pop_step_facts(2-4) [OF assms(1,3)]
  show ?thesis
  proof (cases "fd_nelts (worker_queue s) = 0")
    case True
    then show ?thesis using assms(2) exits f unfolding drains_def by (metis le_zero_eq)
  next
    case False
    then show ?thesis using assms(2) exits f(3) unfolding drains_def by metis
  qed
qed

lemma wake_worker_step:
  assumes "worker_step s t" "wake_inv s" "reserve_inv n s"
  shows "wake_inv t"
  using listener_wakes_worker [OF assms(1)] workers_wake_worker [OF assms(1)] closes_worker [OF assms(1)]
    drains_worker [OF assms(1)] assms(2,3) by (simp add: wake_inv_def)

lemmas wake_defs = listener_wakes_def workers_wake_def closes_def drains_def

lemma wake_listener_step:
  assumes "listener_step s t" "wake_inv s" "reserve_inv n s"
  shows "wake_inv t"
proof -
  have w: "listener_wakes s" "workers_wake s" "closes s" "drains s"
    using assms(2) by (simp_all add: wake_inv_def)
  have "listener_wakes t \<and> workers_wake t \<and> closes t \<and> drains t"
    using assms(1)
  proof (cases rule: listener_step_elim)
    case (l_push c p q)
    have q: "q = fd_put (c, p) (worker_queue s)"
      using l_push(3) assms(3) reserve_room [OF assms(3) l_push(2)]
      by (auto simp: reserve_inv_def ap_queue_push_room)
    have "\<not> fd_terminated (worker_queue s)" using w(3) l_push(2) by (simp add: closes_def)
    then have t: "closes t" "drains t" "listener_wakes t"
      using w l_push(1,2) q by (auto simp: wake_defs wake_worker_frame)
    have "workers_wake t"
    proof (rule wake_worker_cases [of "workers s"])
      fix M' assume "workers s = add_mset WBlocked M'" "wake_worker (workers s) = add_mset WWoken M'"
      then show ?thesis using w(2) l_push(1) q by (auto simp: workers_wake_def)
    next
      assume "worker_count is_WBlocked (workers s) = 0" "wake_worker (workers s) = workers s"
      then show ?thesis using l_push(1) by (simp add: workers_wake_def)
    qed
    then show ?thesis using t by blast
  next
    case l_lock
    then show ?thesis using w by (simp add: wake_defs)
  next
    case (l_close r op)
    then show ?thesis using w by (auto simp: wake_defs)
  next
    case (l_interrupt r op)
    then show ?thesis using w by (auto simp: wake_defs)
  qed (use w in \<open>simp add: wake_defs qi_defs split: if_splits option.splits\<close>)+
  then show ?thesis by (simp add: wake_inv_def)
qed

lemma wake_signal:
  assumes "signal_step s t" "wake_inv s"
  shows "wake_inv t"
proof -
  have w: "listener_wakes s" "workers_wake s" "closes s" "drains s"
    using assms(2) by (simp_all add: wake_inv_def)
  have "listener_wakes t \<and> workers_wake t \<and> closes t \<and> drains t"
    using assms(1) by (cases rule: signal_step.cases) (use w in \<open>simp_all add: wake_defs\<close>)
  then show ?thesis by (simp add: wake_inv_def)
qed

lemma wake_env:
  assumes "mpm_env s t" "wake_inv s"
  shows "wake_inv t"
proof -
  have w: "listener_wakes s" "workers_wake s" "closes s" "drains s"
    using assms(2) by (simp_all add: wake_inv_def)
  have "listener_wakes t \<and> workers_wake t \<and> closes t \<and> drains t"
    using assms(1)
  proof (cases rule: mpm_env.cases)
    case e_signal
    then show ?thesis
    proof (cases rule: signal_start.cases)
      case s_graceful
      then show ?thesis using w by (simp add: wake_defs)
    next
      case s_ungraceful
      then show ?thesis using w by (simp add: wake_defs)
    qed
  next
    case (e_worker_wakes M)
    then show ?thesis using w by (auto simp: wake_defs)
  qed (use w in \<open>simp add: wake_defs\<close>)+
  then show ?thesis by (simp add: wake_inv_def)
qed

lemma wake_reachable:
  fixes s :: "'a mpm"
  shows "mpm_reachable null n s \<Longrightarrow> wake_inv s"
proof (induction rule: mpm_reachable.induct)
  case m_start
  have "\<not> P (WTop None) \<Longrightarrow> worker_count P (replicate_mset n (WTop None) :: 'a worker multiset) = 0" for P
    by (induction n) auto
  then show ?case by (simp add: mpm_init_def wake_inv_def wake_defs ap_queue_init_def)
next
  case (m_work s t)
  then show ?case using reserve_reachable [OF m_work(1)]
    by (metis mpm_work.cases wake_worker_step wake_listener_step wake_signal)
qed (rule wake_env)

section \<open>What the child process guarantees\<close>

text \<open>
  C6. The queue has room whenever the listener is about to push, and is not
  terminated then, so that the assertions of ap_queue_push hold and no write
  leaves the array; and idlers is positive whenever the listener is about to
  decrement it, so that the counter never wraps.
\<close>

theorem worker_queue_never_overflows:
  assumes "mpm_reachable null n s"
  shows "case listener s of
           LPush c p \<Rightarrow> ap_queue_push (c, p) (worker_queue s) = Some (fd_put (c, p) (worker_queue s))
                        \<and> \<not> ap_queue_full (worker_queue s) \<and> \<not> fd_terminated (worker_queue s)
         | LDec \<Rightarrow> 0 < qi_idlers (queue_info s)
         | _ \<Rightarrow> fd_nelts (worker_queue s) \<le> n"
proof -
  have r: "reserve_inv n s" by (rule reserve_reachable [OF assms])
  then have b: "fd_ok (worker_queue s)" "fd_bounds (worker_queue s) = n" "fd_nelts (worker_queue s) \<le> n"
    by (simp_all add: reserve_inv_def fd_ok_def)
  have "closes s" using wake_reachable [OF assms] by (simp add: wake_inv_def)
  then have "\<not> fd_terminated (worker_queue s)" if "listener s = LPush c p" for c p
    using that by (simp add: closes_def)
  then show ?thesis
    using r b reserve_room [OF r] ap_queue_push_room [OF b(1)]
    by (auto simp: reserve_inv_def ap_queue_full_def split: listener.split)
qed

text \<open>
  C8. A transaction pool is never in two hands: the recycled list is well
  formed, and no pool is twice among the list, the queue, the listener and the
  workers, although set_idle and wait_for_idler work on the list without a lock.
\<close>

theorem transaction_pools_not_shared:
  assumes "mpm_reachable null n s"
  shows "\<exists>ps. pool_chain (qi_next (queue_info s)) (qi_recycled (queue_info s)) ps
    \<and> (\<forall>p. count (pool_owners ps s) p \<le> 1)"
proof -
  obtain ps where "links_ok ps (listener s) (workers s) (queue_info s)"
    "single_owner (next_pool s) (pool_owners ps s)"
    using pool_reachable [OF assms] by (auto simp: pool_inv_def)
  moreover from this(2) have "count (pool_owners ps s) p \<le> (if p < next_pool s then 1 else 0)" for p
    by (simp add: single_owner_def)
  then have "count (pool_owners ps s) p \<le> 1" for p by (rule le_trans) simp
  ultimately show ?thesis by (auto simp: links_ok_def)
qed

text \<open>
  C7. A graceful shutdown serves every connection: when all workers have gone
  without workers_may_exit, every accepted connection was processed exactly
  once and the queue is empty.
\<close>

theorem graceful_shutdown_drains:
  assumes "mpm_reachable null n s" "0 < n"
    and "\<not> workers_may_exit s" "\<forall>w \<in># workers s. is_WExit w"
  shows "finished s = accepted s \<and> fd_contents (worker_queue s) = [] \<and> fd_terminated (worker_queue s)"
proof -
  have r: "reserve_inv n s" "conn_inv s" "closes s" "drains s"
    using reserve_reachable [OF assms(1)] conn_reachable [OF assms(1)] wake_reachable [OF assms(1)]
    by (simp_all add: wake_inv_def)
  have "workers s \<noteq> {#}" using r(1) assms(2) by (auto simp: reserve_inv_def)
  then obtain w where "w \<in># workers s" by blast
  then have "worker_count is_WExit (workers s) \<noteq> 0"
    using worker_count_pos [of w "workers s" is_WExit] assms(4) by auto
  then have d: "fd_terminated (worker_queue s)" "fd_nelts (worker_queue s) = 0"
    using r(4) assms(3) by (simp_all add: drains_def)
  have "in_service M = {#}" if "\<forall>w \<in># M. is_WExit w" for M :: "'a worker multiset"
    using that by (induction M) (auto simp: is_WExit_def)
  then have "in_service (workers s) = {#}" using assms(4) .
  moreover have "listener_conns (listener s) = {#}"
    using r(3) d(1) by (auto simp: closes_def is_LInterrupt_def is_LExit_def)
  moreover have "fd_contents (worker_queue s) = []" using d(2) by (simp add: fd_contents_def)
  ultimately show ?thesis using r(2) d(1) by (simp add: conn_inv_def)
qed

fun is_busy :: "'c worker \<Rightarrow> bool" where
  "is_busy (WBusy c p) \<longleftrightarrow> True"
| "is_busy _ \<longleftrightarrow> False"

lemma stuck_worker:
  assumes "\<not> (\<exists>t. worker_step s t)" "w \<in># workers s"
  shows "w = WBlocked \<or> is_busy w \<or> is_WExit w"
proof -
  obtain M where M: "workers s = add_mset w M" using assms(2) by (meson multi_member_split)
  show ?thesis
  proof (cases w)
    case (WTop lp)
    then show ?thesis using w_top_exit [of s lp M] w_top [of s lp M] M assms(1) by blast
  next
    case (WLink p)
    then show ?thesis using w_set_idle [OF w_link [of s p M]] M assms(1) by blast
  next
    case (WCas p h)
    then show ?thesis using w_set_idle [OF w_cas [of s p h M]] M assms(1) by (metis prod.exhaust)
  next
    case WInc
    then show ?thesis using w_set_idle [OF w_inc [of s M]] M assms(1) by (metis prod.exhaust)
  next
    case WSignal
    then show ?thesis using w_set_idle [OF w_signal [of s M]] M assms(1) by blast
  next
    case WPop
    then show ?thesis using w_pop [of s M] M assms(1) by blast
  next
    case WCall
    show ?thesis
    proof (cases "ap_queue_pop (worker_queue s)")
      case PopWaits
      then show ?thesis using w_waits [of s M] M WCall assms(1) by blast
    next
      case (PopFails rv)
      then show ?thesis using w_fails [of s w M rv] M WCall assms(1) by blast
    next
      case (PopGets x q)
      then show ?thesis using w_gets [of s w M "fst x" "snd x" q] M WCall assms(1) by auto
    qed
  next
    case WWoken
    show ?thesis
    proof (cases "ap_queue_pop_woken (worker_queue s)")
      case PopWaits
      then show ?thesis by (simp add: fd_pop_fails)
    next
      case (PopFails rv)
      then show ?thesis using w_fails [of s w M rv] M WWoken assms(1) by blast
    next
      case (PopGets x q)
      then show ?thesis using w_gets [of s w M "fst x" "snd x" q] M WWoken assms(1) by auto
    qed
  qed simp_all
qed

lemma stuck_listener:
  assumes "\<not> (\<exists>t. listener_step s t)" "reserve_inv n s"
  shows "listener s = LWait \<or> (\<exists>op. listener s = LReady op \<and> \<not> listener_may_exit s) \<or> is_LExit (listener s)"
proof (cases "listener s")
  case (LCas p nxt)
  then show ?thesis using l_wait_for_idler [OF l_cas [of s p nxt]] assms(1) by (metis prod.exhaust)
next
  case (LPush c p)
  have "fd_ok (worker_queue s)" "fd_nelts (worker_queue s) < fd_bounds (worker_queue s)"
    using reserve_room [OF assms(2) LPush] assms(2) by (auto simp: reserve_inv_def)
  then show ?thesis using l_push [OF LPush ap_queue_push_room] assms(1) by blast
next
  case LTest
  then show ?thesis using l_wait_for_idler [OF l_test] assms(1) by blast
next
  case LLock
  then show ?thesis using l_wait_for_idler [OF l_lock] assms(1) by blast
next
  case LDec
  then show ?thesis using l_wait_for_idler [OF l_dec] assms(1) by blast
next
  case LPool
  then show ?thesis using l_wait_for_idler [OF l_pool] assms(1) by blast
next
  case (LNext p)
  then show ?thesis using l_wait_for_idler [OF l_next] assms(1) by blast
next
  case (LRet op)
  then show ?thesis using l_wait_for_idler [OF l_ret] assms(1) by blast
next
  case LTop
  then show ?thesis using l_top assms(1) by blast
next
  case (LReady op)
  then show ?thesis using l_stop assms(1) by blast
next
  case (LClose r op)
  then show ?thesis using l_close assms(1) by blast
next
  case (LInterrupt r op)
  then show ?thesis using l_interrupt assms(1) by blast
qed simp_all

text \<open>The workers may exit only in a process whose listener may exit as well.\<close>

definition exit_flags :: "'c mpm \<Rightarrow> bool" where
  "exit_flags s \<longleftrightarrow> (workers_may_exit s \<longrightarrow> listener_may_exit s)"

lemma exit_flags_work:
  assumes "mpm_work s t"
  shows "workers_may_exit t = workers_may_exit s \<and> listener_may_exit t = listener_may_exit s"
  using assms
proof (cases rule: mpm_work.cases)
  case 1
  then show ?thesis by (cases rule: worker_step_elim) simp_all
next
  case 2
  then show ?thesis by (cases rule: listener_step_elim) simp_all
next
  case 3
  then show ?thesis by (cases rule: signal_step.cases) simp_all
qed

lemma exit_flags_env: "mpm_env s t \<Longrightarrow> exit_flags s \<Longrightarrow> exit_flags t"
  by (erule mpm_env.cases) (auto simp: exit_flags_def elim!: signal_start.cases)

lemma exit_flags_reachable: "mpm_reachable null n s \<Longrightarrow> exit_flags s"
proof (induction rule: mpm_reachable.induct)
  case m_start
  then show ?case by (simp add: exit_flags_def mpm_init_def)
next
  case (m_work s t)
  then show ?case using exit_flags_work [OF m_work.hyps(2)] by (simp add: exit_flags_def)
next
  case (m_env s t)
  then show ?case by (blast intro: exit_flags_env)
qed

text \<open>The threads and the queue of a process in which no thread can take a step.\<close>

lemma stuck_listener_waits:
  assumes "mpm_reachable null n s" "\<not> (\<exists>t. mpm_work s t)"
  shows "listener s = LWait \<or> (\<exists>op. listener s = LReady op \<and> \<not> workers_may_exit s) \<or> is_LExit (listener s)"
  using stuck_listener [OF _ reserve_reachable [OF assms(1)]] exit_flags_reachable [OF assms(1)] assms(2) mpm_work.intros(2)
  unfolding exit_flags_def by blast

lemma stuck_worker_waits:
  assumes "\<not> (\<exists>t. mpm_work s t)"
  shows "\<forall>w \<in># workers s. w = WBlocked \<or> is_busy w \<or> is_WExit w"
    and "worker_count is_WSignal (workers s) = 0" and "worker_count is_WWoken (workers s) = 0"
proof -
  show w: "\<forall>w \<in># workers s. w = WBlocked \<or> is_busy w \<or> is_WExit w"
    using stuck_worker [where s = s] assms mpm_work.intros(1) by blast
  have "\<not> is_WSignal v \<and> \<not> is_WWoken v" if "v \<in># workers s" for v using w that by (cases v) auto
  then show "worker_count is_WSignal (workers s) = 0" "worker_count is_WWoken (workers s) = 0"
    by (auto simp: worker_count_def filter_mset_eq_conv)
qed

lemma busy_not_idle: "\<forall>w \<in># M. is_busy w \<Longrightarrow> worker_count is_idle M = 0"
proof -
  have "\<not> is_idle v" if "is_busy v" for v :: "'a worker" using that by (cases v) auto
  then show "\<forall>w \<in># M. is_busy w \<Longrightarrow> ?thesis" by (auto simp: worker_count_def filter_mset_eq_conv)
qed

lemma reserve_idle:
  assumes "reserve_inv n s"
  shows "qi_idlers (queue_info s) + reserved (listener s) + fd_nelts (worker_queue s) = worker_count is_idle (workers s)"
    and "fd_contents (worker_queue s) = [] \<longleftrightarrow> fd_nelts (worker_queue s) = 0"
proof -
  show "qi_idlers (queue_info s) + reserved (listener s) + fd_nelts (worker_queue s) = worker_count is_idle (workers s)"
    using assms by (simp add: reserve_inv_def)
  have "fd_ok (worker_queue s)" using assms by (simp add: reserve_inv_def)
  then show "fd_contents (worker_queue s) = [] \<longleftrightarrow> fd_nelts (worker_queue s) = 0"
    by (metis length_0_conv length_fd_contents)
qed

text \<open>
  C1. No deadlock and no lost wake-up, in every reachable state of a process,
  shut down or not: when no thread can take a step, then the listener waits
  for an idle worker and every worker is busy (or has exited, after an
  ungraceful shutdown only), or the listener is in accept with a worker
  blocked on an empty queue for it, or the listener is gone, every worker is
  busy or gone and, unless the shutdown was ungraceful, the queue is empty.
  The exception in the first case is real: it is the situation of C35.
\<close>

theorem worker_mpm_no_deadlock:
  assumes "mpm_reachable null n s" "\<not> (\<exists>t. mpm_work s t)"
  shows "listener s = LWait \<and> (\<forall>w \<in># workers s. is_busy w \<or> workers_may_exit s \<and> is_WExit w)
    \<or> (\<exists>op. listener s = LReady op \<and> \<not> workers_may_exit s
         \<and> fd_contents (worker_queue s) = [] \<and> WBlocked \<in># workers s)
    \<or> is_LExit (listener s) \<and> (\<forall>w \<in># workers s. is_busy w \<or> is_WExit w)
        \<and> (workers_may_exit s \<or> fd_contents (worker_queue s) = [])"
proof -
  have r: "listener_wakes s" "workers_wake s" "closes s" "drains s"
    using wake_reachable [OF assms(1)] by (simp_all add: wake_inv_def)
  note w = bspec [OF stuck_worker_waits(1) [OF assms(2)]] stuck_worker_waits(2,3) [OF assms(2)]
    and reserve = reserve_idle [OF reserve_reachable [OF assms(1)]]
  have empty: "fd_nelts (worker_queue s) = 0" if "WBlocked \<in># workers s"
    using r(2) w(3) worker_count_pos [OF that, of is_WBlocked] by (simp add: workers_wake_def)
  have noexit: "w \<in># workers s \<Longrightarrow> \<not> is_WExit w \<or> workers_may_exit s" if "\<not> fd_terminated (worker_queue s)" for w
    using r(4) that worker_count_zero [of is_WExit "workers s" w] by (auto simp: drains_def)
  consider "listener s = LWait" | op where "listener s = LReady op" "\<not> workers_may_exit s"
    | "is_LExit (listener s)" using stuck_listener_waits [OF assms] by blast
  then show ?thesis
  proof cases
    case 1
    then have idl: "qi_idlers (queue_info s) = 0" and nt: "\<not> fd_terminated (worker_queue s)"
      using r(1,3) w(2) by (auto simp: listener_wakes_def closes_def)
    have "WBlocked \<notin># workers s"
    proof
      assume b: "WBlocked \<in># workers s"
      have "0 < worker_count is_idle (workers s)" by (rule worker_count_pos [OF b]) simp
      then show False using reserve(1) empty [OF b] idl 1 by simp
    qed
    then show ?thesis using 1 w(1) noexit [OF nt] by blast
  next
    case 2
    then have nt: "\<not> fd_terminated (worker_queue s)" using r(3) by (simp add: closes_def)
    have "WBlocked \<in># workers s"
    proof (rule ccontr)
      assume "WBlocked \<notin># workers s"
      then have "\<forall>w \<in># workers s. is_busy w" using w(1) noexit [OF nt] 2 by blast
      then have "worker_count is_idle (workers s) = 0" by (rule busy_not_idle)
      then show False using reserve(1) 2(1) by simp
    qed
    then show ?thesis using 2 empty reserve(2) by blast
  next
    case 3
    have "WBlocked \<notin># workers s"
      using r(3) 3 worker_count_zero [of is_WBlocked "workers s" WBlocked] by (auto simp: closes_def)
    then have b: "\<forall>w \<in># workers s. is_busy w \<or> is_WExit w" using w(1) by blast
    have "fd_nelts (worker_queue s) = 0" if none: "worker_count is_WExit (workers s) = 0"
    proof -
      have "\<forall>w \<in># workers s. is_busy w" using b worker_count_zero [OF none] by blast
      then have "worker_count is_idle (workers s) = 0" by (rule busy_not_idle)
      then show ?thesis using reserve(1) by simp
    qed
    then have "workers_may_exit s \<or> fd_nelts (worker_queue s) = 0" using r(4) by (auto simp: drains_def)
    then show ?thesis using 3 b reserve(2) by blast
  qed
qed

section \<open>The shutdown that does not reach the listener\<close>

text \<open>
  ap_queue_info_term broadcasts wait_for_idler, but the loop around the wait
  tests idlers only. Once all workers have gone without counting themselves
  idle again, the listener goes back to its wait every time it is woken.
\<close>

definition listener_starved :: "'c mpm \<Rightarrow> bool" where
  "listener_starved s \<longleftrightarrow> (listener s = LWait \<or> listener s = LLock) \<and> qi_idlers (queue_info s) = 0
     \<and> (\<forall>w \<in># workers s. is_WExit w)"

lemma starved_work:
  assumes "mpm_work s t" "listener_starved s"
  shows "listener_starved t"
  using assms(1)
proof (cases rule: mpm_work.cases)
  case 1
  have gone: "workers s = add_mset w M \<Longrightarrow> is_WExit w" for w M using assms(2) by (simp add: listener_starved_def)
  from 1 show ?thesis
  proof (cases rule: worker_step_elim)
    case (w_fails w M rv)
    then show ?thesis using gone [of w M] by auto
  next
    case (w_gets w M c p q)
    then show ?thesis using gone [of w M] by auto
  qed (use gone in force)+
next
  case 2
  then show ?thesis by (cases rule: listener_step_elim) (use assms(2) in \<open>auto simp: listener_starved_def\<close>)
next
  case 3
  then show ?thesis by (cases rule: signal_step.cases) (use assms(2) in \<open>auto simp: listener_starved_def\<close>)
qed

lemma starved_env:
  assumes "mpm_env s t" "listener_starved s"
  shows "listener_starved t"
  using assms(1)
proof (cases rule: mpm_env.cases)
  case e_signal
  then show ?thesis by (cases rule: signal_start.cases) (use assms(2) in \<open>auto simp: listener_starved_def\<close>)
qed (use assms(2) in \<open>auto simp: listener_starved_def\<close>)

text \<open>
  C35. When the listener waits for an idle worker, idlers is zero and all
  workers have gone, no further step of the process brings the listener out of
  ap_queue_info_wait_for_idler, the broadcast of ap_queue_info_term included.
\<close>

theorem info_term_misses_listener:
  assumes "(\<lambda>s t. mpm_work s t \<or> mpm_env s t)\<^sup>*\<^sup>* s t"
    and "listener s = LWait" "qi_idlers (queue_info s) = 0" "\<forall>w \<in># workers s. is_WExit w"
  shows "listener t = LWait \<or> listener t = LLock"
proof -
  have "listener_starved t"
    using assms(1)
  proof (induction rule: rtranclp_induct)
    case base
    show ?case using assms(2-4) by (simp add: listener_starved_def)
  qed (use starved_work starved_env in blast)
  then show ?thesis by (simp add: listener_starved_def)
qed

section \<open>Runs\<close>

text \<open>
  A process with one worker: the worker goes idle and blocks, the listener
  reserves it, accepts connection 7 and pushes it.
\<close>

definition run_state :: "nat listener \<Rightarrow> nat worker \<Rightarrow> (nat \<times> nat) fd_queue \<Rightarrow> nat \<Rightarrow> nat mpm" where
  "run_state l w q idlers =
     \<lparr>listener = l, workers = {#w#}, worker_queue = q,
      queue_info = ap_queue_info_create\<lparr>qi_idlers := idlers\<rparr>,
      listener_may_exit = False, workers_may_exit = False, mode = ST_INIT, signaller = SigNone,
      next_pool = 0, accepted = {#}, finished = {#}\<rparr>"

abbreviation "run_queue \<equiv> ap_queue_init (0 :: nat, 0 :: nat) 1"

abbreviation "run_reachable \<equiv> mpm_reachable (0 :: nat, 0) 1"

lemmas run_worker = m_work [OF _ mpm_work.intros(1)]
lemmas run_listener = m_work [OF _ mpm_work.intros(2)]
lemmas run_set_idle = run_worker [OF _ w_set_idle]
lemmas run_idler = run_listener [OF _ l_wait_for_idler]
lemmas run_signal = m_work [OF _ mpm_work.intros(3)]

lemmas run_simps = run_state_def ap_queue_info_create_def ap_queue_init_def ap_queue_pop_def
  ap_queue_pop_woken_def ap_queue_empty_def idlers_inc_def idlers_dec_def

lemma run_idle: "run_reachable (run_state LTop WPop run_queue 1)"
proof -
  have "mpm_init (0, 0) 1 = run_state LTop (WTop None) run_queue 0"
    by (simp add: mpm_init_def run_simps)
  then have 0: "run_reachable (run_state LTop (WTop None) run_queue 0)" using m_start by metis
  have 1: "run_reachable (run_state LTop WInc run_queue 0)"
    using run_worker [OF 0 w_top [of _ None "{#}"]] by (simp add: run_simps)
  have 2: "run_reachable (run_state LTop WSignal run_queue 1)"
    using run_set_idle [OF 1 w_inc [of _ "{#}" 0]] by (simp add: run_simps)
  show ?thesis using run_set_idle [OF 2 w_signal [of _ "{#}"]] by (simp add: run_simps)
qed

lemma run_blocked: "run_reachable (run_state LTop WBlocked run_queue 1)"
proof -
  have 1: "run_reachable (run_state LTop WCall run_queue 1)"
    using run_worker [OF run_idle w_pop [of _ "{#}"]] by (simp add: run_simps)
  show ?thesis using run_worker [OF 1 w_waits [of _ "{#}"]] by (simp add: run_simps)
qed

lemma run_ready: "run_reachable (run_state (LReady None) WBlocked run_queue 0)"
proof -
  have 1: "run_reachable (run_state LTest WBlocked run_queue 1)"
    using run_listener [OF run_blocked l_top] by (simp add: run_simps)
  have 2: "run_reachable (run_state LDec WBlocked run_queue 1)"
    using run_idler [OF 1 l_test] by (simp add: run_simps)
  have 3: "run_reachable (run_state LPool WBlocked run_queue 0)"
    using run_idler [OF 2 l_dec] by (simp add: run_simps)
  have 4: "run_reachable (run_state (LRet None) WBlocked run_queue 0)"
    using run_idler [OF 3 l_pool] by (simp add: run_simps)
  show ?thesis using run_idler [OF 4 l_ret] by (simp add: run_simps)
qed

definition run_accepted :: "nat mpm" where
  "run_accepted = (run_state (LPush 7 0) WBlocked run_queue 0)\<lparr>next_pool := 1, accepted := {#7#}\<rparr>"

lemma run_accepted_reachable: "run_reachable run_accepted"
  using m_env [OF run_ready e_accept [of _ None 0 1 7]] by (simp add: run_simps run_accepted_def)

text \<open>The worker takes the connection while the listener waits for the next idle worker.\<close>

definition run_serving :: "nat mpm" where
  "run_serving = (run_state LWait (WBusy 7 0) (run_queue\<lparr>fd_data := [(7, 0)]\<rparr>) 0)
     \<lparr>next_pool := 1, accepted := {#7#}\<rparr>"

lemma run_serving_reachable: "run_reachable run_serving"
proof -
  let ?q = "run_queue\<lparr>fd_data := [(7, 0)], fd_nelts := 1\<rparr>"
  let ?s = "\<lambda>l w q. (run_state l w q 0)\<lparr>next_pool := 1, accepted := {#7#}\<rparr>"
  have 1: "run_reachable (?s LTop WWoken ?q)"
    using run_listener [OF run_accepted_reachable l_push [of _ 7 0 ?q]]
    by (simp add: run_simps run_accepted_def wake_worker_def ap_queue_push_def fd_put_def)
  have 2: "run_reachable (?s LTop (WBusy 7 0) (run_queue\<lparr>fd_data := [(7, 0)]\<rparr>))"
    using run_worker [OF 1 w_gets [of _ WWoken "{#}" 7 0 "run_queue\<lparr>fd_data := [(7, 0)]\<rparr>"]]
    by (simp add: run_simps fd_take_def)
  have 3: "run_reachable (?s LTest (WBusy 7 0) (run_queue\<lparr>fd_data := [(7, 0)]\<rparr>))"
    using run_listener [OF 2 l_top] by (simp add: run_simps)
  have 4: "run_reachable (?s LLock (WBusy 7 0) (run_queue\<lparr>fd_data := [(7, 0)]\<rparr>))"
    using run_idler [OF 3 l_test] by (simp add: run_simps)
  show ?thesis using run_idler [OF 4 l_lock] by (simp add: run_simps run_serving_def)
qed

text \<open>A graceful shutdown from there: the worker finishes, recycles its pool and frees the listener.\<close>

definition run_closing :: "nat listener \<Rightarrow> nat worker \<Rightarrow> nat \<Rightarrow> nat option \<Rightarrow> bool \<Rightarrow> nat mpm" where
  "run_closing l w idlers head closed = run_serving\<lparr>listener := l, workers := {#w#},
     worker_queue := run_queue\<lparr>fd_data := [(7, 0)], fd_terminated := closed\<rparr>,
     queue_info := ap_queue_info_create\<lparr>qi_idlers := idlers, qi_recycled := head\<rparr>,
     mode := ST_GRACEFUL, listener_may_exit := True, finished := {#7#}\<rparr>"

lemmas closing_simps = run_simps run_serving_def run_closing_def qi_defs fun_upd_idem ap_queue_set_terminated_def

lemma run_recycled: "run_reachable (run_closing LWait WInc 0 (Some 0) False)"
proof -
  have 1: "run_reachable (run_serving\<lparr>mode := ST_GRACEFUL, listener_may_exit := True\<rparr>)"
    using m_env [OF run_serving_reachable e_signal [OF s_graceful]] by (simp add: run_simps run_serving_def)
  have 2: "run_reachable (run_closing LWait (WTop (Some 0)) 0 None False)"
    using m_env [OF 1 e_finish [of _ 7 0 "{#}"]] by (simp add: closing_simps)
  have 3: "run_reachable (run_closing LWait (WLink 0) 0 None False)"
    using run_worker [OF 2 w_top [of _ "Some 0" "{#}"]] by (simp add: closing_simps)
  have 4: "run_reachable (run_closing LWait (WCas 0 None) 0 None False)"
    using run_set_idle [OF 3 w_link [of _ 0 "{#}"]] by (simp add: closing_simps)
  show ?thesis using run_set_idle [OF 4 w_cas [of _ 0 None "{#}" True]] by (simp add: closing_simps)
qed

lemma run_unrecycled: "run_reachable (run_closing (LReady (Some 0)) WPop 0 None False)"
proof -
  have 1: "run_reachable (run_closing LWait WSignal 1 (Some 0) False)"
    using run_set_idle [OF run_recycled w_inc [of _ "{#}" 0]] by (simp add: closing_simps)
  have 2: "run_reachable (run_closing LLock WPop 1 (Some 0) False)"
    using run_set_idle [OF 1 w_signal [of _ "{#}"]] by (simp add: closing_simps)
  have 3: "run_reachable (run_closing LDec WPop 1 (Some 0) False)"
    using run_idler [OF 2 l_lock] by (simp add: closing_simps)
  have 4: "run_reachable (run_closing LPool WPop 0 (Some 0) False)"
    using run_idler [OF 3 l_dec] by (simp add: closing_simps)
  have 5: "run_reachable (run_closing (LNext 0) WPop 0 (Some 0) False)"
    using run_idler [OF 4 l_pool] by (simp add: closing_simps)
  have 6: "run_reachable (run_closing (LCas 0 None) WPop 0 (Some 0) False)"
    using run_idler [OF 5 l_next [of _ 0]] by (simp add: closing_simps)
  have 7: "run_reachable (run_closing (LRet (Some 0)) WPop 0 None False)"
    using run_idler [OF 6 l_cas [of _ 0 None True]] by (simp add: closing_simps)
  show ?thesis using run_idler [OF 7 l_ret] by (simp add: closing_simps)
qed

lemma run_drained: "run_reachable (run_closing (LExit True (Some 0)) (WExit True None) 0 None True)"
proof -
  have 1: "run_reachable (run_closing (LClose True (Some 0)) WPop 0 None False)"
    using run_listener [OF run_unrecycled l_stop] by (simp add: closing_simps)
  have 2: "run_reachable (run_closing (LInterrupt True (Some 0)) WPop 0 None True)"
    using run_listener [OF 1 l_close] by (simp add: closing_simps)
  have 3: "run_reachable (run_closing (LExit True (Some 0)) WPop 0 None True)"
    using run_listener [OF 2 l_interrupt] by (simp add: closing_simps)
  have 4: "run_reachable (run_closing (LExit True (Some 0)) WCall 0 None True)"
    using run_worker [OF 3 w_pop [of _ "{#}"]] by (simp add: closing_simps)
  show ?thesis using run_worker [OF 4 w_fails [of _ WCall "{#}" APR_EOF]] by (simp add: closing_simps)
qed

text \<open>An ungraceful shutdown: the worker finishes and leaves without counting itself idle.\<close>

definition run_starved :: "signaller \<Rightarrow> nat mpm" where
  "run_starved sig = run_serving\<lparr>workers := {#WExit False (Some 0)#}, mode := ST_UNGRACEFUL,
     listener_may_exit := True, workers_may_exit := True, signaller := sig, finished := {#7#}\<rparr>"

theorem worker_queue_never_overflows_witness:
  "case listener run_accepted of
     LPush c p \<Rightarrow> ap_queue_push (c, p) (worker_queue run_accepted) = Some (fd_put (c, p) (worker_queue run_accepted))
                  \<and> \<not> ap_queue_full (worker_queue run_accepted) \<and> \<not> fd_terminated (worker_queue run_accepted)
   | LDec \<Rightarrow> 0 < qi_idlers (queue_info run_accepted)
   | _ \<Rightarrow> fd_nelts (worker_queue run_accepted) \<le> 1"
  by (rule worker_queue_never_overflows [OF run_accepted_reachable])

theorem transaction_pools_not_shared_witness:
  "\<exists>ps. pool_chain (qi_next (queue_info (run_closing LWait WInc 0 (Some 0) False))) (Some 0) ps
    \<and> (\<forall>p. count (pool_owners ps (run_closing LWait WInc 0 (Some 0) False)) p \<le> 1)"
  using transaction_pools_not_shared [OF run_recycled] by (simp add: run_closing_def)

theorem graceful_shutdown_drains_witness:
  "let s = run_closing (LExit True (Some 0)) (WExit True None) 0 None True
   in finished s = accepted s \<and> fd_contents (worker_queue s) = [] \<and> fd_terminated (worker_queue s)"
  unfolding Let_def
  by (rule graceful_shutdown_drains [OF run_drained]) (simp_all add: closing_simps)

lemma run_serving_stuck: "\<not> (\<exists>t. mpm_work run_serving t)"
  by (auto simp: mpm_work.simps worker_step.simps set_idle_step.simps listener_step.simps
      wait_for_idler_step.simps signal_step.simps run_serving_def run_state_def)

theorem worker_mpm_no_deadlock_witness:
  "listener run_serving = LWait
      \<and> (\<forall>w \<in># workers run_serving. is_busy w \<or> workers_may_exit run_serving \<and> is_WExit w)
    \<or> (\<exists>op. listener run_serving = LReady op \<and> \<not> workers_may_exit run_serving
         \<and> fd_contents (worker_queue run_serving) = [] \<and> WBlocked \<in># workers run_serving)
    \<or> is_LExit (listener run_serving) \<and> (\<forall>w \<in># workers run_serving. is_busy w \<or> is_WExit w)
        \<and> (workers_may_exit run_serving \<or> fd_contents (worker_queue run_serving) = [])"
  by (rule worker_mpm_no_deadlock [OF run_serving_reachable run_serving_stuck])

text \<open>The state of the finding is reachable, and the broadcast leaves the listener inside.\<close>

lemma run_starved_reachable: "run_reachable (run_starved SigInterrupt)"
proof -
  have 1: "run_reachable (run_serving\<lparr>mode := ST_UNGRACEFUL, listener_may_exit := True,
      workers_may_exit := True, signaller := SigInterrupt\<rparr>)"
    using m_env [OF run_serving_reachable e_signal [OF s_ungraceful]] by (simp add: run_simps run_serving_def)
  have 2: "run_reachable (run_starved SigInterrupt\<lparr>workers := {#WTop (Some 0)#}\<rparr>)"
    using m_env [OF 1 e_finish [of _ 7 0 "{#}"]] by (simp add: run_simps run_serving_def run_starved_def)
  show ?thesis using run_worker [OF 2 w_top_exit [of _ "Some 0" "{#}"]]
    by (simp add: run_simps run_serving_def run_starved_def)
qed

theorem info_term_misses_listener_witness:
  "let t = (run_starved SigNone)\<lparr>queue_info := (queue_info run_serving)\<lparr>qi_terminated := True\<rparr>, listener := LLock\<rparr>
   in listener t = LWait \<or> listener t = LLock"
proof -
  let ?t = "(run_starved SigNone)\<lparr>queue_info := (queue_info run_serving)\<lparr>qi_terminated := True\<rparr>, listener := LLock\<rparr>"
  have 1: "mpm_work (run_starved SigInterrupt) (run_starved SigInfoTerm)"
    using mpm_work.intros(3) [OF s_interrupt [of "run_starved SigInterrupt"]]
    by (simp add: run_simps run_serving_def run_starved_def)
  have 2: "mpm_work (run_starved SigInfoTerm) ?t"
    using mpm_work.intros(3) [OF s_info_term [of "run_starved SigInfoTerm"]]
    by (simp add: run_simps run_serving_def run_starved_def)
  have "(\<lambda>s t. mpm_work s t \<or> mpm_env s t)\<^sup>*\<^sup>* (run_starved SigInterrupt) ?t"
    using 1 2 by (blast intro: converse_rtranclp_into_rtranclp)
  from info_term_misses_listener [OF this] show ?thesis
    unfolding Let_def by (simp add: run_simps run_serving_def run_starved_def)
qed

end
