(* ===== verification/Apr_Rmm.thy ===== *)
theory Apr_Rmm
  imports Interfaces
begin

text \<open>
  srclib/apr-util/misc/apr_rmm.c: the allocator inside a shared memory region.
  Blocks are named by their offset from the base and linked in two lists, used
  and free, both sorted by offset. The headers of all offsets are a function
  (r_mem), so that headers overwritten by a neighbour keep their old contents,
  and every pointer step of the code is a read or a write of that function.
  Locking is taken to succeed. Sizes are those of an LP64 system.
\<close>

section \<open>Blocks and the region\<close>

record rmm_block =
  b_size :: nat
  b_prev :: nat
  b_next :: nat

record rmm =
  r_size :: nat
  r_abssize :: nat
  r_firstused :: nat
  r_firstfree :: nat
  r_mem :: "nat \<Rightarrow> rmm_block"

definition apr_align_default :: "nat \<Rightarrow> nat" where
  "apr_align_default n = ((n + 7) mod 2 ^ 64) div 8 * 8"

definition RMM_HDR_BLOCK_SIZE :: nat where
  "RMM_HDR_BLOCK_SIZE = 24"

definition RMM_BLOCK_SIZE :: nat where
  "RMM_BLOCK_SIZE = 24"

definition upd_size :: "nat \<Rightarrow> nat \<Rightarrow> rmm \<Rightarrow> rmm" where
  "upd_size x v r = r\<lparr>r_mem := (r_mem r)(x := (r_mem r x)\<lparr>b_size := v\<rparr>)\<rparr>"

definition upd_prev :: "nat \<Rightarrow> nat \<Rightarrow> rmm \<Rightarrow> rmm" where
  "upd_prev x v r = r\<lparr>r_mem := (r_mem r)(x := (r_mem r x)\<lparr>b_prev := v\<rparr>)\<rparr>"

definition upd_next :: "nat \<Rightarrow> nat \<Rightarrow> rmm \<Rightarrow> rmm" where
  "upd_next x v r = r\<lparr>r_mem := (r_mem r)(x := (r_mem r x)\<lparr>b_next := v\<rparr>)\<rparr>"

section \<open>Walking the lists\<close>

text \<open>None is a walk that does not end.\<close>

partial_function (option) find_block_by_offset_loop ::
    "(nat \<Rightarrow> rmm_block) \<Rightarrow> nat \<Rightarrow> nat \<Rightarrow> bool \<Rightarrow> nat \<Rightarrow> nat option" where
  "find_block_by_offset_loop m next sought includes prev =
     (if next = 0 then Some (if includes then prev else 0)
      else if sought = next then Some next
      else if sought < next then Some (if includes then prev else 0)
      else find_block_by_offset_loop m (b_next (m next)) sought includes next)"

definition find_block_by_offset :: "rmm \<Rightarrow> nat \<Rightarrow> nat \<Rightarrow> bool \<Rightarrow> nat option" where
  "find_block_by_offset r next sought includes =
     find_block_by_offset_loop (r_mem r) next sought includes 0"

text \<open>The walk of find_block_of_size: a block of that very size, or the best fit and its size.\<close>

partial_function (option) best_fit_loop ::
    "(nat \<Rightarrow> rmm_block) \<Rightarrow> nat \<Rightarrow> nat \<Rightarrow> nat \<Rightarrow> nat \<Rightarrow> (nat + nat \<times> nat) option" where
  "best_fit_loop m sz next best bestsize =
     (if next = 0 then Some (Inr (best, bestsize))
      else if b_size (m next) = sz then Some (Inl next)
      else if b_size (m next) \<ge> sz \<and> (bestsize = 0 \<or> b_size (m next) < bestsize)
      then best_fit_loop m sz (b_next (m next)) next (b_size (m next))
      else best_fit_loop m sz (b_next (m next)) best bestsize)"

definition split_block :: "nat \<Rightarrow> nat \<Rightarrow> rmm \<Rightarrow> rmm" where
  "split_block best sz r =
     (let new = best + sz;
          r = upd_size new (b_size (r_mem r best) - sz) r;
          r = upd_next new (b_next (r_mem r best)) r;
          r = upd_prev new best r;
          r = upd_size best sz r;
          r = upd_next best new r
      in if b_next (r_mem r new) \<noteq> 0 then upd_prev (b_next (r_mem r new)) new r else r)"

definition find_block_of_size :: "nat \<Rightarrow> rmm \<Rightarrow> (nat \<times> rmm) option" where
  "find_block_of_size sz r =
     (case best_fit_loop (r_mem r) sz (r_firstfree r) 0 0 of
        None \<Rightarrow> None
      | Some (Inl next) \<Rightarrow> Some (next, r)
      | Some (Inr (best, bestsize)) \<Rightarrow>
          Some (best, if bestsize > RMM_BLOCK_SIZE + sz then split_block best sz r else r))"

section \<open>Moving a block between the lists\<close>

definition close_gap :: "nat \<Rightarrow> bool \<Rightarrow> rmm \<Rightarrow> rmm" where
  "close_gap this free r =
     (let r = (if b_prev (r_mem r this) \<noteq> 0
               then upd_next (b_prev (r_mem r this)) (b_next (r_mem r this)) r
               else if free then r\<lparr>r_firstused := b_next (r_mem r this)\<rparr>
               else r\<lparr>r_firstfree := b_next (r_mem r this)\<rparr>)
      in if b_next (r_mem r this) \<noteq> 0
         then upd_prev (b_next (r_mem r this)) (b_prev (r_mem r this)) r else r)"

definition find_place :: "nat \<Rightarrow> bool \<Rightarrow> rmm \<Rightarrow> rmm option" where
  "find_place this free r =
     (case find_block_by_offset r (if free then r_firstfree r else r_firstused r) this True of
        None \<Rightarrow> None
      | Some p \<Rightarrow>
          let r = upd_prev this p r
          in Some (if p \<noteq> 0 then r
                   else if free then (upd_next this (r_firstfree r) r)\<lparr>r_firstfree := this\<rparr>
                   else (upd_next this (r_firstused r) r)\<lparr>r_firstused := this\<rparr>))"

text \<open>The block that stands for this one in the new list, and the region.\<close>

definition join_prev :: "nat \<Rightarrow> bool \<Rightarrow> rmm \<Rightarrow> nat \<times> rmm" where
  "join_prev this free r =
     (let p = b_prev (r_mem r this)
      in if p \<noteq> 0
         then if free \<and> p + b_size (r_mem r p) = this
              then (p, upd_size p (b_size (r_mem r p) + b_size (r_mem r this)) r)
              else (this, upd_next p this (upd_next this (b_next (r_mem r p)) r))
         else (this, r))"

definition join_next :: "nat \<Rightarrow> bool \<Rightarrow> rmm \<Rightarrow> rmm" where
  "join_next this free r =
     (let nx = b_next (r_mem r this)
      in if nx \<noteq> 0
         then if free \<and> this + b_size (r_mem r this) = nx
              then let r = upd_size this (b_size (r_mem r this) + b_size (r_mem r nx)) r;
                       r = upd_next this (b_next (r_mem r nx)) r
                   in if b_next (r_mem r this) \<noteq> 0 then upd_prev (b_next (r_mem r this)) this r else r
              else upd_prev nx this r
         else r)"

definition move_block :: "nat \<Rightarrow> bool \<Rightarrow> rmm \<Rightarrow> rmm option" where
  "move_block this free r =
     (case find_place this free (close_gap this free r) of
        None \<Rightarrow> None
      | Some r \<Rightarrow> (case join_prev this free r of (this, r) \<Rightarrow> Some (join_next this free r)))"

section \<open>The operations\<close>

definition apr_rmm_init :: "nat \<Rightarrow> (nat \<Rightarrow> rmm_block) \<Rightarrow> rmm" where
  "apr_rmm_init sz base =
     (let firstfree = RMM_HDR_BLOCK_SIZE
      in \<lparr>r_size = sz, r_abssize = sz, r_firstused = 0, r_firstfree = firstfree,
          r_mem = base(firstfree := \<lparr>b_size = sz - firstfree, b_prev = 0, b_next = 0\<rparr>)\<rparr>)"

partial_function (option) destroy_loop :: "(nat \<Rightarrow> rmm_block) \<Rightarrow> nat \<Rightarrow> (nat \<Rightarrow> rmm_block) option" where
  "destroy_loop m this =
     (let next = b_next (m this); m = m(this := (m this)\<lparr>b_next := 0, b_prev := 0\<rparr>)
      in if next \<noteq> 0 then destroy_loop m next else Some m)"

definition destroy_list :: "nat \<Rightarrow> (nat \<Rightarrow> rmm_block) \<Rightarrow> (nat \<Rightarrow> rmm_block) option" where
  "destroy_list first m = (if first \<noteq> 0 then destroy_loop m first else Some m)"

definition apr_rmm_destroy :: "rmm \<Rightarrow> rmm option" where
  "apr_rmm_destroy r =
     (case destroy_list (r_firstused r) (r_mem r) of
        None \<Rightarrow> None
      | Some m \<Rightarrow>
          (case destroy_list (r_firstfree r) m of
             None \<Rightarrow> None
           | Some m \<Rightarrow> Some (r\<lparr>r_mem := m, r_firstused := 0, r_firstfree := 0, r_abssize := 0, r_size := 0\<rparr>)))"

definition apr_rmm_attach :: "rmm \<Rightarrow> rmm" where
  "apr_rmm_attach r = r\<lparr>r_size := r_abssize r\<rparr>"

text \<open>The size with its header, modulo the width of apr_size_t; 0 of the code is None.\<close>

definition block_request :: "nat \<Rightarrow> nat option" where
  "block_request reqsize =
     (let sz = (apr_align_default reqsize + RMM_BLOCK_SIZE) mod 2 ^ 64
      in if sz < reqsize then None else Some sz)"

text \<open>The offset handed out, 0 for none.\<close>

definition apr_rmm_malloc :: "nat \<Rightarrow> rmm \<Rightarrow> (nat \<times> rmm) option" where
  "apr_rmm_malloc reqsize r =
     (case block_request reqsize of
        None \<Rightarrow> Some (0, r)
      | Some sz \<Rightarrow>
          (case find_block_of_size sz r of
             None \<Rightarrow> None
           | Some (this, r) \<Rightarrow>
               if this \<noteq> 0
               then (case move_block this False r of
                       None \<Rightarrow> None
                     | Some r \<Rightarrow> Some (this + RMM_BLOCK_SIZE, r))
               else Some (this, r)))"

text \<open>apr_rmm_calloc also gives the range it clears.\<close>

definition apr_rmm_calloc :: "nat \<Rightarrow> rmm \<Rightarrow> (nat \<times> (nat \<times> nat) option \<times> rmm) option" where
  "apr_rmm_calloc reqsize r =
     (case block_request reqsize of
        None \<Rightarrow> Some (0, None, r)
      | Some sz \<Rightarrow>
          (case find_block_of_size sz r of
             None \<Rightarrow> None
           | Some (this, r) \<Rightarrow>
               if this \<noteq> 0
               then (case move_block this False r of
                       None \<Rightarrow> None
                     | Some r \<Rightarrow>
                         let this = this + RMM_BLOCK_SIZE
                         in Some (this, Some (this, sz - RMM_BLOCK_SIZE), r))
               else Some (this, None, r)))"

definition apr_rmm_free :: "nat \<Rightarrow> rmm \<Rightarrow> (apr_status \<times> rmm) option" where
  "apr_rmm_free this r =
     (if this < RMM_HDR_BLOCK_SIZE + RMM_BLOCK_SIZE then Some (APR_EINVAL, r)
      else
        let this = this - RMM_BLOCK_SIZE; blk = r_mem r this
        in if (if b_prev blk \<noteq> 0 then b_next (r_mem r (b_prev blk)) \<noteq> this else r_firstused r \<noteq> this)
           then Some (APR_EINVAL, r)
           else if b_next blk \<noteq> 0 \<and> b_prev (r_mem r (b_next blk)) \<noteq> this then Some (APR_EINVAL, r)
           else (case move_block this True r of
                   None \<Rightarrow> None
                 | Some r \<Rightarrow> Some (APR_SUCCESS, r)))"

text \<open>
  apr_rmm_realloc gives the new offset and what it copies: source, destination
  and number of bytes. entity is None for the null pointer.
\<close>

definition apr_rmm_realloc :: "nat option \<Rightarrow> nat \<Rightarrow> rmm \<Rightarrow> (nat \<times> (nat \<times> nat \<times> nat) option \<times> rmm) option" where
  "apr_rmm_realloc entity reqsize r =
     (case entity of
        None \<Rightarrow> map_option (\<lambda>(this, r). (this, None, r)) (apr_rmm_malloc reqsize r)
      | Some old \<Rightarrow>
          let sz = apr_align_default reqsize
          in if sz < reqsize then Some (0, None, r)
             else
               (case apr_rmm_malloc sz r of
                  None \<Rightarrow> None
                | Some (this, r) \<Rightarrow>
                    if this = 0 then Some (0, None, r)
                    else
                      let oldsize = b_size (r_mem r (old - RMM_BLOCK_SIZE))
                      in map_option (\<lambda>(rv, r). (this, Some (old, this, if oldsize < sz then oldsize else sz), r))
                           (apr_rmm_free old r)))"

definition apr_rmm_overhead_get :: "nat \<Rightarrow> nat" where
  "apr_rmm_overhead_get n = RMM_HDR_BLOCK_SIZE + n * (RMM_BLOCK_SIZE + apr_align_default 1)"

section \<open>Segments of a doubly linked list\<close>

lemma upd_simps [simp]:
  "b_size (r_mem (upd_size x v r) y) = (if y = x then v else b_size (r_mem r y))"
  "b_prev (r_mem (upd_size x v r) y) = b_prev (r_mem r y)"
  "b_next (r_mem (upd_size x v r) y) = b_next (r_mem r y)"
  "b_size (r_mem (upd_prev x v r) y) = b_size (r_mem r y)"
  "b_prev (r_mem (upd_prev x v r) y) = (if y = x then v else b_prev (r_mem r y))"
  "b_next (r_mem (upd_prev x v r) y) = b_next (r_mem r y)"
  "b_size (r_mem (upd_next x v r) y) = b_size (r_mem r y)"
  "b_prev (r_mem (upd_next x v r) y) = b_prev (r_mem r y)"
  "b_next (r_mem (upd_next x v r) y) = (if y = x then v else b_next (r_mem r y))"
  by (simp_all add: upd_size_def upd_prev_def upd_next_def)

lemma upd_frames [simp]:
  "r_firstused (upd_size x v r) = r_firstused r" "r_firstfree (upd_size x v r) = r_firstfree r"
  "r_firstused (upd_prev x v r) = r_firstused r" "r_firstfree (upd_prev x v r) = r_firstfree r"
  "r_firstused (upd_next x v r) = r_firstused r" "r_firstfree (upd_next x v r) = r_firstfree r"
  "r_size (upd_size x v r) = r_size r" "r_size (upd_prev x v r) = r_size r" "r_size (upd_next x v r) = r_size r"
  by (simp_all add: upd_size_def upd_prev_def upd_next_def)

text \<open>The segment xs from head h, after block p and before block k.\<close>

fun dseg :: "rmm \<Rightarrow> nat \<Rightarrow> nat \<Rightarrow> nat list \<Rightarrow> nat \<Rightarrow> bool" where
  "dseg r p h [] k \<longleftrightarrow> h = k"
| "dseg r p h (x # xs) k \<longleftrightarrow> h = x \<and> x \<noteq> 0 \<and> b_prev (r_mem r x) = p \<and> dseg r x (b_next (r_mem r x)) xs k"

definition last0 :: "nat \<Rightarrow> nat list \<Rightarrow> nat" where
  "last0 p xs = (if xs = [] then p else last xs)"

lemma last0_simps [simp]: "last0 p [] = p" "last0 p (xs @ [x]) = x" "last0 p (x # xs) = last0 x xs"
  by (simp_all add: last0_def)

lemma dseg_append: "dseg r p h (as @ bs) k \<longleftrightarrow> (\<exists>j. dseg r p h as j \<and> dseg r (last0 p as) j bs k)"
  by (induction as arbitrary: p h) auto

lemma dseg_head: "dseg r p h xs k \<Longrightarrow> h = (if xs = [] then k else hd xs)"
  by (cases xs) auto

lemma dseg_nonzero: "dseg r p h xs k \<Longrightarrow> 0 \<notin> set xs"
  by (induction xs arbitrary: p h) auto

lemma dseg_cong:
  assumes "\<And>x. x \<in> set xs \<Longrightarrow> b_prev (r_mem r' x) = b_prev (r_mem r x) \<and> b_next (r_mem r' x) = b_next (r_mem r x)"
  shows "dseg r' p h xs k = dseg r p h xs k"
  using assms by (induction xs arbitrary: p h) auto

lemma dseg_frames [simp]:
  "dseg (upd_size x v r) p h xs k = dseg r p h xs k"
  "x \<notin> set xs \<Longrightarrow> dseg (upd_prev x v r) p h xs k = dseg r p h xs k"
  "x \<notin> set xs \<Longrightarrow> dseg (upd_next x v r) p h xs k = dseg r p h xs k"
  "dseg (r\<lparr>r_firstused := u\<rparr>) p h xs k = dseg r p h xs k"
  "dseg (r\<lparr>r_firstfree := u\<rparr>) p h xs k = dseg r p h xs k"
  by (rule dseg_cong; auto)+

lemma dseg_exit:
  "dseg r p h (as @ [a]) j \<Longrightarrow> a \<notin> set as \<Longrightarrow> dseg (upd_next a j' r) p h (as @ [a]) j'"
  by (auto simp: dseg_append)

lemma dseg_entry: "dseg r p h (b # bs) k \<Longrightarrow> b \<notin> set bs \<Longrightarrow> dseg (upd_prev b p' r) p' h (b # bs) k"
  by auto

lemma find_block_by_offset_place:
  assumes "dseg r p h (as @ bs) 0" "\<forall>a \<in> set as. a < x" "\<forall>b \<in> set bs. x < b"
  shows "find_block_by_offset_loop (r_mem r) h x True p = Some (last0 p as)"
  using assms
proof (induction as arbitrary: p h)
  case Nil
  then show ?case by (cases bs) (simp_all add: find_block_by_offset_loop.simps)
next
  case (Cons a as)
  then show ?case by (subst find_block_by_offset_loop.simps) auto
qed

section \<open>Unlinking and linking\<close>

text \<open>The list a block leaves, and the one it enters.\<close>

definition src_head :: "bool \<Rightarrow> rmm \<Rightarrow> nat" where
  "src_head free r = (if free then r_firstused r else r_firstfree r)"

definition dst_head :: "bool \<Rightarrow> rmm \<Rightarrow> nat" where
  "dst_head free r = (if free then r_firstfree r else r_firstused r)"

lemma head_frames [simp]:
  "src_head free (upd_size x v r) = src_head free r" "src_head free (upd_prev x v r) = src_head free r"
  "src_head free (upd_next x v r) = src_head free r" "dst_head free (upd_size x v r) = dst_head free r"
  "dst_head free (upd_prev x v r) = dst_head free r" "dst_head free (upd_next x v r) = dst_head free r"
  by (simp_all add: src_head_def dst_head_def)

lemma close_gap_ok:
  assumes "dseg r 0 (src_head free r) (as @ x # bs) 0" "distinct (as @ x # bs)"
  shows "dseg (close_gap x free r) 0 (src_head free (close_gap x free r)) (as @ bs) 0"
    "dst_head free (close_gap x free r) = dst_head free r"
    "r_size (close_gap x free r) = r_size r"
    "b_size (r_mem (close_gap x free r) y) = b_size (r_mem r y)"
    "y \<notin> set (as @ bs) \<Longrightarrow> r_mem (close_gap x free r) y = r_mem r y"
proof -
  let ?j = "b_next (r_mem r x)" and ?p = "b_prev (r_mem r x)"
  have s: "dseg r 0 (src_head free r) as x" "?p = last0 0 as" "dseg r x ?j bs 0" "x \<noteq> 0"
    using assms(1) by (auto simp: dseg_append dest: dseg_head)
  have nz: "0 \<notin> set (as @ x # bs)" by (rule dseg_nonzero [OF assms(1)])
  define r1 where "r1 = (if ?p \<noteq> 0 then upd_next ?p ?j r
     else if free then r\<lparr>r_firstused := ?j\<rparr> else r\<lparr>r_firstfree := ?j\<rparr>)"
  have p0: "?p \<noteq> 0 \<longleftrightarrow> as \<noteq> []" using s(2) nz by (cases as rule: rev_cases) auto
  have pin: "?p \<noteq> 0 \<Longrightarrow> ?p \<in> set as" using s(2) p0 by (simp add: last0_def)
  have j0: "?j \<noteq> 0 \<longleftrightarrow> bs \<noteq> []" using s(3) nz by (cases bs) auto
  have jin: "?j \<noteq> 0 \<Longrightarrow> ?j \<in> set bs" using s(3) by (cases bs) auto
  have eq: "close_gap x free r = (if ?j \<noteq> 0 then upd_prev ?j ?p r1 else r1)"
  proof -
    have "?p \<noteq> x" using pin s(4) assms(2) by auto
    then show ?thesis by (auto simp: close_gap_def r1_def Let_def)
  qed
  have left: "dseg r1 0 (src_head free r1) as ?j"
  proof (cases as rule: rev_cases)
    case Nil
    then have "?p = 0" using s(2) by simp
    then show ?thesis using Nil by (simp add: r1_def src_head_def)
  next
    case (snoc as' a)
    then have "r1 = upd_next a ?j r" using p0 s(2) by (simp add: r1_def)
    moreover have "dseg (upd_next a ?j r) 0 (src_head free r) as ?j"
      using dseg_exit [of r 0 "src_head free r" as' a x ?j] s(1) snoc assms(2) by auto
    ultimately show ?thesis by simp
  qed
  have right: "dseg (close_gap x free r) (last0 0 as) ?j bs 0"
  proof (cases bs)
    case Nil
    then show ?thesis using s(3) by simp
  next
    case (Cons b bs')
    have "?p \<noteq> 0 \<Longrightarrow> ?p \<notin> set bs" using pin assms(2) by auto
    then have "dseg r1 x ?j bs 0" using s(3) by (simp add: r1_def)
    moreover have "?j = b" using s(3) Cons by simp
    ultimately show ?thesis using Cons assms(2) s(2) j0 dseg_entry [of r1 x b b bs' 0 ?p] eq by auto
  qed
  have left': "dseg (close_gap x free r) 0 (src_head free (close_gap x free r)) as ?j"
  proof -
    have "?j \<noteq> 0 \<Longrightarrow> ?j \<notin> set as" using jin assms(2) by auto
    then show ?thesis using left by (cases "?j = 0") (simp_all add: eq)
  qed
  show "dseg (close_gap x free r) 0 (src_head free (close_gap x free r)) (as @ bs) 0"
    using left' right by (auto simp: dseg_append)
  show "dst_head free (close_gap x free r) = dst_head free r"
    "r_size (close_gap x free r) = r_size r"
    by (simp_all add: eq r1_def dst_head_def)
  show "b_size (r_mem (close_gap x free r) y) = b_size (r_mem r y)" by (simp add: eq r1_def)
  show "r_mem (close_gap x free r) y = r_mem r y" if "y \<notin> set (as @ bs)"
    using that pin jin by (auto simp: eq r1_def upd_prev_def upd_next_def)
qed

text \<open>find_place and join_prev: the block, or the predecessor that took it in, ends the front of the list.\<close>

lemma place_ok:
  assumes "dseg r 0 (dst_head free r) (as @ bs) 0" "distinct (as @ bs)" "x \<noteq> 0"
    and "\<forall>a \<in> set as. a < x" "\<forall>b \<in> set bs. x < b"
  defines "cp \<equiv> free \<and> as \<noteq> [] \<and> last as + b_size (r_mem r (last as)) = x"
  shows "\<exists>r1 r2. find_place x free r = Some r1
    \<and> join_prev x free r1 = (if cp then last as else x, r2)
    \<and> (\<exists>j q. dseg r2 0 (dst_head free r2) (if cp then as else as @ [x]) j \<and> dseg r2 q j bs 0)
    \<and> src_head free r2 = src_head free r \<and> r_size r2 = r_size r
    \<and> (\<forall>y. b_size (r_mem r2 y) = (if cp \<and> y = last as then b_size (r_mem r y) + b_size (r_mem r x)
                                  else b_size (r_mem r y)))
    \<and> (\<forall>y. y \<notin> set (as @ [x]) \<longrightarrow> r_mem r2 y = r_mem r y)"
proof -
  have nz: "0 \<notin> set (as @ bs)" by (rule dseg_nonzero [OF assms(1)])
  have fp: "find_block_by_offset r (dst_head free r) x True = Some (last0 0 as)"
    unfolding find_block_by_offset_def by (rule find_block_by_offset_place [OF assms(1,4,5)])
  have xin: "x \<notin> set (as @ bs)" using assms(4,5) by auto
  show ?thesis
  proof (cases as rule: rev_cases)
    case Nil
    let ?r1 = "upd_next x (dst_head free r) (upd_prev x 0 r)"
    let ?r2 = "if free then ?r1\<lparr>r_firstfree := x\<rparr> else ?r1\<lparr>r_firstused := x\<rparr>"
    have 1: "find_place x free r = Some ?r2"
      using fp Nil by (simp add: find_place_def dst_head_def split: if_splits)
    have 2: "join_prev x free ?r2 = (x, ?r2)" by (simp add: join_prev_def)
    have b: "dseg ?r2 0 (dst_head free r) bs 0" using assms(1) xin Nil by (cases free) simp_all
    have a: "dseg ?r2 0 (dst_head free ?r2) ([] @ [x]) (dst_head free r)"
      using assms(3) by (simp add: dst_head_def)
    have "\<not> cp" using Nil by (simp add: cp_def)
    have s: "src_head free ?r2 = src_head free r" "r_size ?r2 = r_size r" by (simp_all add: src_head_def)
    have m: "\<forall>y. y \<notin> set (as @ [x]) \<longrightarrow> r_mem ?r2 y = r_mem r y" "\<forall>y. b_size (r_mem ?r2 y) = b_size (r_mem r y)"
      by (auto simp: upd_prev_def upd_next_def)
    show ?thesis using 1 2 a b s m \<open>\<not> cp\<close> Nil by (intro exI [of _ ?r2]) auto
  next
    case (snoc as' a)
    have an: "a \<noteq> 0" "a \<noteq> x" "a \<notin> set as'" "a \<notin> set bs" using snoc nz assms(2) xin by auto
    let ?r1 = "upd_prev x a r"
    have 1: "find_place x free r = Some ?r1"
      using fp snoc an(1) by (simp add: find_place_def dst_head_def split: if_splits)
    obtain j where j: "dseg r 0 (dst_head free r) as j" "dseg r a j bs 0"
      using assms(1) snoc by (auto simp: dseg_append)
    then have j1: "dseg ?r1 0 (dst_head free ?r1) as j" "dseg ?r1 a j bs 0" "b_next (r_mem ?r1 a) = j"
      using xin snoc by (auto simp: dseg_append)
    show ?thesis
    proof (cases cp)
      case True
      let ?r2 = "upd_size a (b_size (r_mem ?r1 a) + b_size (r_mem ?r1 x)) ?r1"
      have 2: "join_prev x free ?r1 = (a, ?r2)"
        using True an(1) snoc by (simp add: join_prev_def cp_def)
      have "\<forall>y. y \<notin> set (as @ [x]) \<longrightarrow> r_mem ?r2 y = r_mem r y"
        using snoc by (auto simp: upd_prev_def upd_size_def)
      then show ?thesis using 1 2 j1 True snoc by (intro exI [of _ ?r1] exI [of _ ?r2]) auto
    next
      case False
      let ?r2 = "upd_next a x (upd_next x (b_next (r_mem ?r1 a)) ?r1)"
      have 2: "join_prev x free ?r1 = (x, ?r2)"
        using False an(1) snoc by (auto simp: join_prev_def cp_def Let_def)
      have "dseg (upd_next x j ?r1) 0 (dst_head free ?r1) as j" using j1(1) xin by simp
      then have "dseg ?r2 0 (dst_head free ?r1) as x"
        using dseg_exit [of "upd_next x j ?r1" 0 "dst_head free ?r1" as' a j x] snoc an(3) j1(3) by simp
      then have f: "dseg ?r2 0 (dst_head free ?r2) (as @ [x]) j"
        using an assms(3) j1(3) snoc by (auto simp: dseg_append)
      have g: "dseg ?r2 a j bs 0" using j1(2) an xin by simp
      have "\<forall>y. y \<notin> set (as @ [x]) \<longrightarrow> r_mem ?r2 y = r_mem r y"
        using snoc by (auto simp: upd_prev_def upd_next_def)
      then show ?thesis using 1 2 f g False by (intro exI [of _ ?r1] exI [of _ ?r2]) auto
    qed
  qed
qed

text \<open>join_next: the rest of the list is hung on, the first block of it taken in when it is adjacent.\<close>

lemma join_next_ok:
  assumes "dseg r 0 (dst_head free r) (as @ [x]) j" "dseg r q j bs 0" "distinct (as @ x # bs)"
  defines "cn \<equiv> free \<and> bs \<noteq> [] \<and> x + b_size (r_mem r x) = hd bs"
  shows "dseg (join_next x free r) 0 (dst_head free (join_next x free r)) (as @ x # (if cn then tl bs else bs)) 0"
    "src_head free (join_next x free r) = src_head free r" "r_size (join_next x free r) = r_size r"
    "b_size (r_mem (join_next x free r) y)
       = (if cn \<and> y = x then b_size (r_mem r x) + b_size (r_mem r (hd bs)) else b_size (r_mem r y))"
    "y \<notin> set (x # bs) \<Longrightarrow> r_mem (join_next x free r) y = r_mem r y"
proof -
  have xj: "b_next (r_mem r x) = j" and x0: "x \<noteq> 0" using assms(1) by (auto simp: dseg_append)
  have nz: "0 \<notin> set bs" by (rule dseg_nonzero [OF assms(2)])
  let ?r' = "join_next x free r"
  have "dseg ?r' 0 (dst_head free ?r') (as @ x # (if cn then tl bs else bs)) 0
    \<and> src_head free ?r' = src_head free r \<and> r_size ?r' = r_size r
    \<and> (\<forall>y. b_size (r_mem ?r' y)
       = (if cn \<and> y = x then b_size (r_mem r x) + b_size (r_mem r (hd bs)) else b_size (r_mem r y)))
    \<and> (\<forall>y. y \<notin> set (x # bs) \<longrightarrow> r_mem ?r' y = r_mem r y)"
  proof (cases bs)
    case Nil
    then have "j = 0" using assms(2) by simp
    then have "?r' = r" using xj by (simp add: join_next_def)
    then show ?thesis using assms(1) Nil \<open>j = 0\<close> by (auto simp: cn_def dseg_append)
  next
    case (Cons b bs')
    have jb: "j = b" "b \<noteq> 0" "b \<noteq> x" using assms(2,3) Cons by auto
    show ?thesis
    proof (cases cn)
      case False
      have eq: "?r' = upd_prev b x r" using False xj jb Cons by (auto simp: join_next_def cn_def)
      have "dseg (upd_prev b x r) 0 (dst_head free r) (as @ [x]) b" using assms(1,3) Cons jb by simp
      moreover have "dseg (upd_prev b x r) x b (b # bs') 0"
        using dseg_entry [of r q b b bs' 0 x] assms(2,3) Cons jb by simp
      ultimately have "dseg (upd_prev b x r) 0 (dst_head free r) (as @ x # bs) 0"
        using Cons by (auto simp: dseg_append)
      moreover have "\<forall>y. y \<notin> set (x # bs) \<longrightarrow> r_mem (upd_prev b x r) y = r_mem r y"
        using Cons by (auto simp: upd_prev_def)
      ultimately show ?thesis using False by (simp add: eq)
    next
      case True
      let ?r1 = "upd_size x (b_size (r_mem r x) + b_size (r_mem r b)) r"
      let ?k = "b_next (r_mem r b)"
      let ?r2 = "upd_next x ?k ?r1"
      have k: "dseg r b ?k bs' 0" using assms(2) Cons by simp
      have eq: "?r' = (if ?k \<noteq> 0 then upd_prev ?k x ?r2 else ?r2)"
        using True xj jb Cons by (auto simp: join_next_def cn_def Let_def)
      have f: "dseg ?r2 0 (dst_head free r) (as @ [x]) ?k"
        using dseg_exit [of ?r1 0 "dst_head free r" as x j ?k] assms(1,3) by simp
      have g: "dseg ?r2 b ?k bs' 0" using k assms(3) Cons by simp
      have "dseg ?r' 0 (dst_head free r) (as @ x # bs') 0"
      proof (cases bs')
        case Nil
        then have "?k = 0" using k by simp
        then show ?thesis using f Nil by (simp add: eq dseg_append)
      next
        case (Cons c cs)
        then have kc: "?k = c" "c \<noteq> 0" using k by auto
        have c: "c \<notin> set (as @ [x])" "c \<notin> set cs" using Cons assms(3) \<open>bs = b # bs'\<close> by auto
        have "dseg (upd_prev c x ?r2) 0 (dst_head free r) (as @ [x]) c" using f kc c by simp
        moreover have "dseg (upd_prev c x ?r2) x c (c # cs) 0"
          using dseg_entry [of ?r2 b c c cs 0 x] g kc c Cons by simp
        ultimately have "dseg (upd_prev c x ?r2) 0 (dst_head free r) (as @ x # c # cs) 0"
          by (auto simp: dseg_append)
        then show ?thesis using Cons kc by (simp add: eq)
      qed
      moreover have "dst_head free ?r' = dst_head free r" "src_head free ?r' = src_head free r" "r_size ?r' = r_size r"
        by (simp_all add: eq)
      moreover have "?k \<noteq> 0 \<Longrightarrow> ?k \<in> set bs" using k Cons by (cases bs') auto
      then have "\<forall>y. y \<notin> set (x # bs) \<longrightarrow> r_mem ?r' y = r_mem r y"
        by (auto simp: eq upd_prev_def upd_next_def upd_size_def)
      moreover have "\<forall>y. b_size (r_mem ?r' y) = (if y = x then b_size (r_mem r x) + b_size (r_mem r b) else b_size (r_mem r y))"
        by (simp add: eq)
      ultimately show ?thesis using True Cons by simp
    qed
  qed
  then show "dseg (join_next x free r) 0 (dst_head free (join_next x free r)) (as @ x # (if cn then tl bs else bs)) 0"
    "src_head free (join_next x free r) = src_head free r" "r_size (join_next x free r) = r_size r"
    "b_size (r_mem (join_next x free r) y)
       = (if cn \<and> y = x then b_size (r_mem r x) + b_size (r_mem r (hd bs)) else b_size (r_mem r y))"
    "y \<notin> set (x # bs) \<Longrightarrow> r_mem (join_next x free r) y = r_mem r y" by blast+
qed

section \<open>The region as a row of blocks\<close>

text \<open>A block of the row: offset, size with header, and whether it is used.\<close>

type_synonym tile = "nat \<times> nat \<times> bool"

fun tiling :: "nat \<Rightarrow> tile list \<Rightarrow> nat \<Rightarrow> bool" where
  "tiling s [] e \<longleftrightarrow> s = e"
| "tiling s ((x, n, u) # ts) e \<longleftrightarrow> x = s \<and> RMM_BLOCK_SIZE \<le> n \<and> tiling (s + n) ts e"

definition tile_used :: "tile \<Rightarrow> bool" where
  "tile_used t \<longleftrightarrow> snd (snd t)"

definition merged :: "tile list \<Rightarrow> bool" where
  "merged ts \<longleftrightarrow> successively (\<lambda>s t. tile_used s \<or> tile_used t) ts"

definition offs :: "bool \<Rightarrow> tile list \<Rightarrow> nat list" where
  "offs u ts = map fst (filter (\<lambda>(x, n, v). v = u) ts)"

definition row :: "tile list \<Rightarrow> rmm \<Rightarrow> bool" where
  "row ts r \<longleftrightarrow> tiling RMM_HDR_BLOCK_SIZE ts (r_size r)
     \<and> dseg r 0 (r_firstused r) (offs True ts) 0 \<and> dseg r 0 (r_firstfree r) (offs False ts) 0
     \<and> (\<forall>(x, n, u) \<in> set ts. b_size (r_mem r x) = n)"

definition rmm_row :: "tile list \<Rightarrow> rmm \<Rightarrow> bool" where
  "rmm_row ts r \<longleftrightarrow> row ts r \<and> merged ts"

lemma offs_simps [simp]:
  "offs u [] = []" "offs u ((x, n, v) # ts) = (if v = u then x # offs u ts else offs u ts)"
  "offs u (ts @ ts') = offs u ts @ offs u ts'"
  by (simp_all add: offs_def)

lemma offs_set: "x \<in> set (offs u ts) \<longleftrightarrow> (\<exists>n. (x, n, u) \<in> set ts)"
  by (force simp: offs_def)

lemma tiling_append: "tiling s (as @ bs) e \<longleftrightarrow> (\<exists>m. tiling s as m \<and> tiling m bs e)"
  by (induction as arbitrary: s) auto

lemma tiling_le: "tiling s ts e \<Longrightarrow> s \<le> e"
  by (induction ts arbitrary: s) (force simp: RMM_BLOCK_SIZE_def)+

lemma tiling_bounds: "tiling s ts e \<Longrightarrow> (x, n, u) \<in> set ts \<Longrightarrow> s \<le> x \<and> x + n \<le> e \<and> RMM_BLOCK_SIZE \<le> n"
  by (induction ts arbitrary: s) (auto dest: tiling_le, force)

lemma tiling_before: "tiling s (as @ (x, n, u) # bs) e \<Longrightarrow> (y, m, v) \<in> set as \<Longrightarrow> y + m \<le> x \<and> y < x"
  using tiling_bounds by (force simp: tiling_append RMM_BLOCK_SIZE_def)

lemma tiling_after: "tiling s (as @ (x, n, u) # bs) e \<Longrightarrow> (y, m, v) \<in> set bs \<Longrightarrow> x + n \<le> y \<and> x < y"
  using tiling_bounds by (force simp: tiling_append RMM_BLOCK_SIZE_def)

lemma tiling_distinct: "tiling s ts e \<Longrightarrow> distinct (map fst ts)"
proof (induction ts arbitrary: s)
  case (Cons t ts)
  obtain x n u where t: "t = (x, n, u)" by (cases t)
  then have "\<forall>y \<in> set ts. x < fst y" using tiling_after [of s "[]" x n u ts e] Cons.prems by force
  then show ?case using Cons t by auto
qed simp

lemma tile_offs_lt:
  assumes "tiling s (as @ (x, n, u) # bs) e"
  shows "\<forall>a \<in> set (offs v as). a < x" "\<forall>b \<in> set (offs v bs). x < b"
  using tiling_before [OF assms] tiling_after [OF assms] by (auto simp: offs_set)

lemma offs_distinct: "tiling s ts e \<Longrightarrow> distinct (offs u ts)"
  unfolding offs_def by (rule distinct_map_filter [OF tiling_distinct])

lemma offs_disjoint: "tiling s ts e \<Longrightarrow> x \<in> set (offs True ts) \<Longrightarrow> x \<notin> set (offs False ts)"
  by (force simp: offs_set dest: tiling_distinct simp: distinct_map inj_on_def)

text \<open>Two free blocks of the list are adjacent exactly when they are neighbours in the row.\<close>

lemma adjacent_before:
  assumes "tiling s (as @ (x, n, u) # bs) e" "offs False as \<noteq> []" "(last (offs False as), m, False) \<in> set as"
  shows "last (offs False as) + m = x \<longleftrightarrow> (\<exists>as'. as = as' @ [(last (offs False as), m, False)])"
proof (cases as rule: rev_cases)
  case (snoc as' t)
  obtain y k v where t: "t = (y, k, v)" by (cases t)
  have yx: "y + k = x" "RMM_BLOCK_SIZE \<le> k" using assms(1) snoc t by (auto simp: tiling_append)
  show ?thesis
  proof (cases v)
    case True
    then have "(last (offs False as), m, False) \<in> set as'" using assms(3) snoc t by auto
    then have "last (offs False as) + m \<le> y"
      using tiling_before [of s as' y k v "(x, n, u) # bs" e] assms(1) snoc t by auto
    then show ?thesis using yx True snoc t by (auto simp: RMM_BLOCK_SIZE_def)
  next
    case False
    then have l: "last (offs False as) = y" using snoc t by simp
    have "m = k"
    proof (rule ccontr)
      assume "m \<noteq> k"
      then have "(y, m, False) \<in> set as'" using assms(3) snoc t l False by auto
      then show False using tiling_before [of s as' y k v "(x, n, u) # bs" e] assms(1) snoc t by force
    qed
    then show ?thesis using l yx snoc t False by auto
  qed
qed (use assms(2) in simp)

lemma adjacent_after:
  assumes "tiling s (as @ (x, n, u) # bs) e" "offs False bs \<noteq> []"
  shows "x + n = hd (offs False bs) \<longleftrightarrow> (\<exists>m bs'. bs = (hd (offs False bs), m, False) # bs')"
proof (cases bs)
  case (Cons t bs')
  obtain y k v where t: "t = (y, k, v)" by (cases t)
  have yx: "x + n = y" using assms(1) Cons t by (auto simp: tiling_append)
  show ?thesis
  proof (cases v)
    case True
    then have "hd (offs False bs) \<in> set (offs False bs')" using assms(2) Cons t by simp
    then have "y < hd (offs False bs)"
      using tile_offs_lt(2) [of s "as @ [(x, n, u)]" y k v bs' e] assms(1) Cons t by auto
    then show ?thesis using yx True Cons t by auto
  qed (use yx Cons t in auto)
qed (use assms(2) in simp)

section \<open>move_block\<close>

lemma move_block_lists:
  assumes "dseg r 0 (src_head free r) (as @ x # bs) 0" "dseg r 0 (dst_head free r) (cs @ ds) 0"
    and dist: "distinct (as @ x # bs @ cs @ ds)"
    and lt: "\<forall>a \<in> set cs. a < x" "\<forall>b \<in> set ds. x < b"
  defines "sz \<equiv> \<lambda>y. b_size (r_mem r y)"
  defines "cp \<equiv> free \<and> cs \<noteq> [] \<and> last cs + sz (last cs) = x"
  defines "cn \<equiv> free \<and> ds \<noteq> [] \<and> x + sz x = hd ds"
  defines "y \<equiv> if cp then last cs else x"
  shows "\<exists>r'. move_block x free r = Some r' \<and> dseg r' 0 (src_head free r') (as @ bs) 0
    \<and> dseg r' 0 (dst_head free r') ((if cp then cs else cs @ [x]) @ (if cn then tl ds else ds)) 0
    \<and> r_size r' = r_size r
    \<and> (\<forall>z. b_size (r_mem r' z) = (if z = y then (if cp then sz (last cs) + sz x else sz x) + (if cn then sz (hd ds) else 0) else sz z))"
proof -
  have x0: "x \<noteq> 0" using dseg_nonzero [OF assms(1)] by auto
  have d1: "distinct (as @ x # bs)" "distinct (cs @ ds)" using dist by auto
  let ?r1 = "close_gap x free r"
  note g = close_gap_ok [OF assms(1) d1(1)]
  have dst1: "dseg ?r1 0 (dst_head free ?r1) (cs @ ds) 0"
  proof -
    have "r_mem ?r1 z = r_mem r z" if "z \<in> set (cs @ ds)" for z
      using g(5) [of z] that dist by auto
    then have "dseg ?r1 0 (dst_head free r) (cs @ ds) 0 = dseg r 0 (dst_head free r) (cs @ ds) 0"
      by (intro dseg_cong) simp
    then show ?thesis using assms(2) g(2) by simp
  qed
  obtain r2 r3 j q where r2: "find_place x free ?r1 = Some r2" "join_prev x free r2 = (y, r3)"
    and seg: "dseg r3 0 (dst_head free r3) (if cp then cs else cs @ [x]) j" "dseg r3 q j ds 0"
    and fr: "src_head free r3 = src_head free ?r1" "r_size r3 = r_size ?r1"
      "\<And>z. b_size (r_mem r3 z) = (if cp \<and> z = last cs then sz z + sz x else sz z)"
      "\<And>z. z \<notin> set (cs @ [x]) \<Longrightarrow> r_mem r3 z = r_mem ?r1 z"
  proof -
    have c: "(free \<and> cs \<noteq> [] \<and> last cs + b_size (r_mem ?r1 (last cs)) = x) = cp"
      by (simp add: cp_def sz_def g(4))
    show thesis using place_ok [OF dst1 d1(2) x0 lt, unfolded c] that unfolding y_def sz_def g(4) by blast
  qed
  define cs' where "cs' = (if cp then butlast cs else cs)"
  have cs': "(if cp then cs else cs @ [x]) = cs' @ [y]" by (auto simp: cs'_def y_def cp_def)
  have "set (cs' @ [y]) \<subseteq> set (cs @ [x])" by (auto simp: cs' [symmetric])
  have "distinct ((cs' @ [y]) @ ds)" unfolding cs' [symmetric] using dist by auto
  then have dy: "distinct (cs' @ y # ds)" by simp
  have cn': "free \<and> ds \<noteq> [] \<and> y + b_size (r_mem r3 y) = hd ds \<longleftrightarrow> cn"
    by (auto simp: cn_def fr(3) y_def cp_def)
  let ?r4 = "join_next y free r3"
  note n = join_next_ok [OF seg(1) [unfolded cs'] seg(2) dy, unfolded cn']
  have mb: "move_block x free r = Some ?r4" using r2 by (simp add: move_block_def)
  have src: "dseg ?r4 0 (src_head free ?r4) (as @ bs) 0"
  proof -
    have "r_mem ?r4 z = r_mem ?r1 z" if "z \<in> set (as @ bs)" for z
    proof -
      have "z \<notin> set (y # ds)" "z \<notin> set (cs @ [x])"
        using that dist \<open>set (cs' @ [y]) \<subseteq> set (cs @ [x])\<close> by auto
      then show ?thesis using n(5) [of z] fr(4) [of z] by simp
    qed
    then have "dseg ?r4 0 (src_head free ?r1) (as @ bs) 0 = dseg ?r1 0 (src_head free ?r1) (as @ bs) 0"
      by (intro dseg_cong) simp
    then show ?thesis using g(1) n(2) fr(1) by simp
  qed
  have dst: "dseg ?r4 0 (dst_head free ?r4) ((if cp then cs else cs @ [x]) @ (if cn then tl ds else ds)) 0"
    using n(1) by (simp add: cs')
  have hy: "cn \<Longrightarrow> hd ds \<noteq> last cs \<or> \<not> cp" using dist cn_def cp_def by (metis disjoint_iff distinct_append
        hd_in_set last_in_set distinct.simps(2))
  have "b_size (r_mem ?r4 z) = (if z = y then (if cp then sz (last cs) + sz x else sz x) + (if cn then sz (hd ds) else 0) else sz z)" for z
    unfolding n(4) fr(3) using hy by (auto simp: y_def)
  then show ?thesis using mb src dst n(3) fr(2) g(3) by auto
qed

text \<open>What move_block does to the row.\<close>

lemma row_size: "row ts r \<Longrightarrow> (x, n, u) \<in> set ts \<Longrightarrow> b_size (r_mem r x) = n"
  by (auto simp: row_def)

lemma row_dist:
  assumes "row (pre @ (x, n, u) # post) r"
  shows "distinct (offs u pre @ x # offs u post @ offs (\<not> u) pre @ offs (\<not> u) post)"
proof -
  let ?ts = "pre @ (x, n, u) # post"
  have t: "tiling RMM_HDR_BLOCK_SIZE ?ts (r_size r)" using assms by (simp add: row_def)
  have "distinct (offs u ?ts)" "distinct (offs (\<not> u) ?ts)" by (rule offs_distinct [OF t])+
  moreover have "z \<in> set (offs u ?ts) \<Longrightarrow> z \<notin> set (offs (\<not> u) ?ts)" for z
    using offs_disjoint [OF t] by (cases u) (auto simp del: offs_simps)
  ultimately show ?thesis by auto
qed

lemma move_block_used:
  assumes "row (pre @ (x, n, False) # post) r"
  shows "\<exists>r'. move_block x False r = Some r' \<and> row (pre @ (x, n, True) # post) r' \<and> r_size r' = r_size r"
proof -
  let ?ts = "pre @ (x, n, False) # post"
  have t: "tiling RMM_HDR_BLOCK_SIZE ?ts (r_size r)" and s: "\<forall>(y, m, u) \<in> set ?ts. b_size (r_mem r y) = m"
    using assms by (auto simp: row_def)
  have 1: "dseg r 0 (src_head False r) (offs False pre @ x # offs False post) 0"
    and 2: "dseg r 0 (dst_head False r) (offs True pre @ offs True post) 0"
    using assms by (auto simp: row_def src_head_def dst_head_def)
  obtain r' where r': "move_block x False r = Some r'" "dseg r' 0 (src_head False r') (offs False pre @ offs False post) 0"
    "dseg r' 0 (dst_head False r') ((offs True pre @ [x]) @ offs True post) 0"
    "r_size r' = r_size r" "\<And>z. b_size (r_mem r' z) = b_size (r_mem r z)"
    using move_block_lists [OF 1 2 _ tile_offs_lt(1) [OF t] tile_offs_lt(2) [OF t]] row_dist [OF assms]
    by (auto split: if_splits)
  have "tiling RMM_HDR_BLOCK_SIZE (pre @ (x, n, True) # post) (r_size r')" using t r'(4) by (auto simp: tiling_append)
  moreover have "\<forall>(y, m, u) \<in> set (pre @ (x, n, True) # post). b_size (r_mem r' y) = m" using s r'(5) by auto
  ultimately show ?thesis using r' by (auto simp: row_def src_head_def dst_head_def)
qed

text \<open>Freeing a block joins it with the free neighbours.\<close>

definition join_left :: "tile list \<Rightarrow> nat \<Rightarrow> nat \<Rightarrow> tile list \<times> nat \<times> nat" where
  "join_left pre x n = (case rev pre of (y, m, False) # ys \<Rightarrow> (rev ys, y, m + n) | _ \<Rightarrow> (pre, x, n))"

definition join_right :: "nat \<Rightarrow> tile list \<Rightarrow> nat \<times> tile list" where
  "join_right n post = (case post of (z, k, False) # zs \<Rightarrow> (n + k, zs) | _ \<Rightarrow> (n, post))"

definition release :: "tile list \<Rightarrow> nat \<Rightarrow> nat \<Rightarrow> tile list \<Rightarrow> tile list" where
  "release pre x n post =
     (case join_left pre x n of (pre', x', n') \<Rightarrow>
       case join_right n' post of (n'', post') \<Rightarrow> pre' @ (x', n'', False) # post')"

lemma join_left_cases:
  obtains pre' y m where "pre = pre' @ [(y, m, False)]" "join_left pre x n = (pre', y, m + n)"
  | "join_left pre x n = (pre, x, n)" "pre = [] \<or> tile_used (last pre)"
proof (cases pre rule: rev_cases)
  case Nil
  then show thesis using that(2) by (simp add: join_left_def)
next
  case (snoc pre' t)
  obtain y m u where "t = (y, m, u)" by (cases t)
  then show thesis using snoc that by (cases u) (simp_all add: join_left_def tile_used_def)
qed

lemma join_right_cases:
  obtains z k post' where "post = (z, k, False) # post'" "join_right n post = (n + k, post')"
  | "join_right n post = (n, post)" "post = [] \<or> tile_used (hd post)"
proof (cases post)
  case Nil
  then show thesis using that(2) by (simp add: join_right_def)
next
  case (Cons t post')
  obtain z k u where "t = (z, k, u)" by (cases t)
  then show thesis using Cons that by (cases u) (simp_all add: join_right_def tile_used_def)
qed

lemma merged_nil [simp]: "merged []"
  by (simp add: merged_def)

lemma merged_used: "merged (as @ (x, n, True) # bs) \<longleftrightarrow> merged as \<and> merged bs"
  by (auto simp: merged_def successively_append_iff successively_Cons tile_used_def)

lemma merged_free:
  "merged (as @ (x, n, False) # bs) \<longleftrightarrow> merged as \<and> merged bs
     \<and> (as = [] \<or> tile_used (last as)) \<and> (bs = [] \<or> tile_used (hd bs))"
  by (auto simp: merged_def successively_append_iff successively_Cons tile_used_def)

lemma release_merged:
  assumes "merged (pre @ (x, n, True) # post)"
  shows "merged (release pre x n post)"
proof -
  have m: "merged pre" "merged post" using assms by (simp_all add: merged_used)
  obtain pre' x' n' where l: "join_left pre x n = (pre', x', n')" "merged pre'" "pre' = [] \<or> tile_used (last pre')"
    by (rule join_left_cases [of pre x n]) (use m merged_free [of _ _ _ "[]"] in force)+
  obtain n'' post' where p: "join_right n' post = (n'', post')" "merged post'" "post' = [] \<or> tile_used (hd post')"
    by (rule join_right_cases [of post n']) (use m merged_free [of "[]"] in force)+
  show ?thesis using l p by (simp add: release_def merged_free)
qed

lemma move_block_free:
  assumes "row (pre @ (x, n, True) # post) r"
  shows "\<exists>r'. move_block x True r = Some r' \<and> row (release pre x n post) r' \<and> r_size r' = r_size r"
proof -
  let ?ts = "pre @ (x, n, True) # post"
  have t: "tiling RMM_HDR_BLOCK_SIZE ?ts (r_size r)" and s: "\<forall>(y, m, u) \<in> set ?ts. b_size (r_mem r y) = m"
    using assms by (auto simp: row_def)
  let ?cs = "offs False pre" and ?ds = "offs False post"
  have 1: "dseg r 0 (src_head True r) (offs True pre @ x # offs True post) 0"
    and 2: "dseg r 0 (dst_head True r) (?cs @ ?ds) 0"
    using assms by (auto simp: row_def src_head_def dst_head_def)
  define cp where "cp \<longleftrightarrow> ?cs \<noteq> [] \<and> last ?cs + b_size (r_mem r (last ?cs)) = x"
  define cn where "cn \<longleftrightarrow> ?ds \<noteq> [] \<and> x + b_size (r_mem r x) = hd ?ds"
  have xn: "b_size (r_mem r x) = n" using s by auto
  obtain r' where r': "move_block x True r = Some r'" "dseg r' 0 (src_head True r') (offs True pre @ offs True post) 0"
    "dseg r' 0 (dst_head True r') ((if cp then ?cs else ?cs @ [x]) @ (if cn then tl ?ds else ?ds)) 0"
    "r_size r' = r_size r"
    "\<And>z. b_size (r_mem r' z) = (if z = (if cp then last ?cs else x)
        then (if cp then b_size (r_mem r (last ?cs)) + n else n) + (if cn then b_size (r_mem r (hd ?ds)) else 0)
        else b_size (r_mem r z))"
  proof -
    have d: "distinct (offs True pre @ x # offs True post @ ?cs @ ?ds)" using row_dist [OF assms] by simp
    have c: "(True \<and> ?cs \<noteq> [] \<and> last ?cs + b_size (r_mem r (last ?cs)) = x) = cp"
      "(True \<and> ?ds \<noteq> [] \<and> x + b_size (r_mem r x) = hd ?ds) = cn"
      by (simp_all add: cp_def cn_def)
    show thesis
      using move_block_lists [OF 1 2 d tile_offs_lt(1) [OF t] tile_offs_lt(2) [OF t], unfolded c] that
      unfolding xn by blast
  qed
  have cp: "cp \<longleftrightarrow> (\<exists>pre' y m. pre = pre' @ [(y, m, False)])"
  proof (cases "?cs = []")
    case True
    then show ?thesis by (auto simp: cp_def)
  next
    case False
    then have "last ?cs \<in> set ?cs" by simp
    then obtain m where m: "(last ?cs, m, False) \<in> set pre" by (auto simp: offs_set)
    then have "b_size (r_mem r (last ?cs)) = m" using row_size [OF assms, of "last ?cs" m False] m by simp
    then have "cp \<longleftrightarrow> (\<exists>as'. pre = as' @ [(last ?cs, m, False)])"
      using adjacent_before [OF t False m] False by (simp add: cp_def)
    moreover have "m' = m" if "pre = as' @ [(y, m', False)]" for as' y m'
      using that m s by (force dest: spec)
    ultimately show ?thesis by auto
  qed
  have cn: "cn \<longleftrightarrow> (\<exists>z k post'. post = (z, k, False) # post')"
    using adjacent_after [OF t] xn by (cases "?ds = []") (auto simp: cn_def)
  have res: "row (pre' @ (x', n', False) # post') r'"
    if "offs True pre = offs True pre'" "offs True post = offs True post'"
      "offs False pre' @ x' # offs False post' = (if cp then ?cs else ?cs @ [x]) @ (if cn then tl ?ds else ?ds)"
      "tiling RMM_HDR_BLOCK_SIZE (pre' @ (x', n', False) # post') (r_size r)"
      "x' = (if cp then last ?cs else x)" "b_size (r_mem r' x') = n'"
      "set pre' \<subseteq> set ?ts" "set post' \<subseteq> set ?ts" for pre' x' n' post'
  proof -
    have "distinct (map fst (pre' @ (x', n', False) # post'))" by (rule tiling_distinct [OF that(4)])
    then have ne: "y \<noteq> x'" if "(y, m, u) \<in> set (pre' @ post')" for y m u
      using imageI [OF that, of fst] by auto
    have "b_size (r_mem r' y) = m" if "(y, m, u) \<in> set (pre' @ post')" for y m u
    proof -
      have "(y, m, u) \<in> set ?ts" using that \<open>set pre' \<subseteq> set ?ts\<close> \<open>set post' \<subseteq> set ?ts\<close> by auto
      then show ?thesis
        using row_size [OF assms] r'(5) [of y] ne [OF that] \<open>x' = (if cp then last ?cs else x)\<close> by simp
    qed
    then have "\<forall>(y, m, u) \<in> set (pre' @ post'). b_size (r_mem r' y) = m" by blast
    then show ?thesis using r' that by (auto simp: row_def src_head_def dst_head_def)
  qed
  have "row (release pre x n post) r'"
  proof (rule join_left_cases [of pre x n])
    fix pre' y m assume l: "pre = pre' @ [(y, m, False)]" "join_left pre x n = (pre', y, m + n)"
    then have c: cp and ym: "b_size (r_mem r y) = m" using cp s by auto
    show ?thesis
    proof (rule join_right_cases [of post "m + n"])
      fix z k post' assume p: "post = (z, k, False) # post'" "join_right (m + n) post = (m + n + k, post')"
      then have cn and "b_size (r_mem r z) = k" using cn s by auto
      then show ?thesis using l p c ym t r'(5)
        by (auto simp: release_def tiling_append add.assoc intro!: res)
    next
      assume p: "join_right (m + n) post = (m + n, post)" "post = [] \<or> tile_used (hd post)"
      then have "\<not> cn" using cn by (auto simp: tile_used_def)
      then show ?thesis using l p c ym t r'(5)
        by (auto simp: release_def tiling_append add.assoc intro!: res)
    qed
  next
    assume l: "join_left pre x n = (pre, x, n)" "pre = [] \<or> tile_used (last pre)"
    then have c: "\<not> cp" using cp by (auto simp: tile_used_def)
    show ?thesis
    proof (rule join_right_cases [of post n])
      fix z k post' assume p: "post = (z, k, False) # post'" "join_right n post = (n + k, post')"
      then have cn and "b_size (r_mem r z) = k" using cn s by auto
      then show ?thesis using l p c t r'(5)
        by (auto simp: release_def tiling_append add.assoc intro!: res)
    next
      assume p: "join_right n post = (n, post)" "post = [] \<or> tile_used (hd post)"
      then have "\<not> cn" using cn by (auto simp: tile_used_def)
      then show ?thesis using l p c t r'(5)
        by (auto simp: release_def tiling_append add.assoc intro!: res)
    qed
  qed
  then show ?thesis using r'(1,4) by blast
qed

section \<open>Allocating\<close>

lemma block_request_some:
  assumes "block_request n = Some sz" "n < 2 ^ 64"
  shows "n + RMM_BLOCK_SIZE \<le> sz \<and> sz < 2 ^ 64 \<and> 8 dvd sz"
proof -
  let ?a = "apr_align_default n"
  have a: "?a \<le> (n + 7) mod 2 ^ 64" "8 dvd ?a" "(n + 7) mod 2 ^ 64 < ?a + 8"
    by (simp_all add: apr_align_default_def)
  have sz: "sz = (?a + 24) mod 2 ^ 64" "n \<le> sz"
    using assms(1) by (auto simp: block_request_def RMM_BLOCK_SIZE_def Let_def split: if_splits)
  have n7: "n + 7 < 2 ^ 64"
  proof (rule ccontr)
    assume "\<not> n + 7 < 2 ^ 64"
    then have m: "(n + 7) mod 2 ^ 64 = n + 7 - 2 ^ 64" using assms(2) by (simp add: mod_if)
    then have "?a < 8" using a(1) assms(2) by simp
    then have "sz < 32" using sz(1) by simp
    then show False using sz(2) \<open>\<not> n + 7 < 2 ^ 64\<close> by simp
  qed
  then have n_a: "n \<le> ?a" using a by simp
  have "?a + 24 < 2 ^ 64"
  proof (rule ccontr)
    assume c: "\<not> ?a + 24 < 2 ^ 64"
    then have "(?a + 24) mod 2 ^ 64 = ?a + 24 - 2 ^ 64" using a(1) n7 by (simp add: mod_if)
    then have "sz < 24" using sz(1) a(1) n7 by simp
    then show False using sz(2) c a(1) n7 by simp
  qed
  then show ?thesis using sz a(2) n_a by (simp add: RMM_BLOCK_SIZE_def)
qed

text \<open>The walk finds a block of the very size, or the smallest larger one.\<close>

lemma best_fit_ok:
  assumes "dseg r p h xs 0" "0 < sz" "bestsize = 0 \<and> best = 0 \<or> sz < bestsize"
  shows "\<exists>res. best_fit_loop (r_mem r) sz h best bestsize = Some res
    \<and> (case res of
         Inl y \<Rightarrow> y \<in> set xs \<and> b_size (r_mem r y) = sz
       | Inr (b, z) \<Rightarrow>
           ((b, z) = (best, bestsize) \<or> b \<in> set xs \<and> z = b_size (r_mem r b) \<and> sz < z)
           \<and> (bestsize \<noteq> 0 \<longrightarrow> sz < z \<and> z \<le> bestsize)
           \<and> (\<forall>y \<in> set xs. sz \<le> b_size (r_mem r y) \<longrightarrow> sz < z \<and> z \<le> b_size (r_mem r y)))"
  using assms
proof (induction xs arbitrary: p h best bestsize)
  case Nil
  then show ?case by (auto simp: best_fit_loop.simps)
next
  case (Cons x xs)
  have h: "h = x" "x \<noteq> 0" "dseg r x (b_next (r_mem r x)) xs 0" using Cons.prems(1) by auto
  let ?s = "b_size (r_mem r x)"
  show ?case
  proof (cases "?s = sz")
    case True
    then show ?thesis using h by (simp add: best_fit_loop.simps)
  next
    case ne: False
    show ?thesis
    proof (cases "?s \<ge> sz \<and> (bestsize = 0 \<or> ?s < bestsize)")
      case True
      then have "best_fit_loop (r_mem r) sz h best bestsize = best_fit_loop (r_mem r) sz (b_next (r_mem r x)) x ?s"
        using h ne by (simp add: best_fit_loop.simps [of _ _ x])
      moreover obtain res where "best_fit_loop (r_mem r) sz (b_next (r_mem r x)) x ?s = Some res"
        "case res of Inl y \<Rightarrow> y \<in> set xs \<and> b_size (r_mem r y) = sz
         | Inr (b, z) \<Rightarrow> ((b, z) = (x, ?s) \<or> b \<in> set xs \<and> z = b_size (r_mem r b) \<and> sz < z)
             \<and> (?s \<noteq> 0 \<longrightarrow> sz < z \<and> z \<le> ?s)
             \<and> (\<forall>y \<in> set xs. sz \<le> b_size (r_mem r y) \<longrightarrow> sz < z \<and> z \<le> b_size (r_mem r y))"
        using Cons.IH [OF h(3) Cons.prems(2), of ?s x] True ne by auto
      ultimately show ?thesis using True ne Cons.prems(2) by (intro exI [of _ res]) (auto split: sum.splits)
    next
      case False
      then have "best_fit_loop (r_mem r) sz h best bestsize = best_fit_loop (r_mem r) sz (b_next (r_mem r x)) best bestsize"
        using h ne by (auto simp: best_fit_loop.simps [of _ _ x])
      moreover obtain res where "best_fit_loop (r_mem r) sz (b_next (r_mem r x)) best bestsize = Some res"
        "case res of Inl y \<Rightarrow> y \<in> set xs \<and> b_size (r_mem r y) = sz
         | Inr (b, z) \<Rightarrow> ((b, z) = (best, bestsize) \<or> b \<in> set xs \<and> z = b_size (r_mem r b) \<and> sz < z)
             \<and> (bestsize \<noteq> 0 \<longrightarrow> sz < z \<and> z \<le> bestsize)
             \<and> (\<forall>y \<in> set xs. sz \<le> b_size (r_mem r y) \<longrightarrow> sz < z \<and> z \<le> b_size (r_mem r y))"
        using Cons.IH [OF h(3) Cons.prems(2,3)] by blast
      ultimately show ?thesis using False ne by (intro exI [of _ res]) (auto split: sum.splits)
    qed
  qed
qed

lemma split_block_ok:
  assumes "row (pre @ (x, n, False) # post) r" "RMM_BLOCK_SIZE \<le> sz" "RMM_BLOCK_SIZE + sz < n"
  shows "row (pre @ (x, sz, False) # (x + sz, n - sz, False) # post) (split_block x sz r)"
    "r_size (split_block x sz r) = r_size r"
proof -
  let ?ts = "pre @ (x, n, False) # post" and ?y = "x + sz"
  let ?ts' = "pre @ (x, sz, False) # (?y, n - sz, False) # post"
  have t: "tiling RMM_HDR_BLOCK_SIZE ?ts (r_size r)" using assms(1) by (simp add: row_def)
  then have t': "tiling RMM_HDR_BLOCK_SIZE ?ts' (r_size r)" using assms(2,3) by (auto simp: tiling_append)
  let ?F = "offs False pre" and ?G = "offs False post"
  have d': "distinct (offs False ?ts')" by (rule offs_distinct [OF t'])
  have x0: "x \<noteq> 0" "?y \<noteq> x" using assms(2) tiling_bounds [OF t, of x n False] by (auto simp: RMM_HDR_BLOCK_SIZE_def RMM_BLOCK_SIZE_def)
  have yU: "?y \<notin> set (offs True ?ts')" "x \<notin> set (offs True ?ts')"
    using offs_disjoint [OF t'] by (auto simp: offs_set)
  let ?k = "b_next (r_mem r x)"
  have F: "dseg r 0 (r_firstfree r) ?F x" "b_prev (r_mem r x) = last0 0 ?F" "dseg r x ?k ?G 0"
    using assms(1) by (auto simp: row_def dseg_append dest: dseg_head)
  let ?r1 = "upd_next x ?y (upd_size x sz (upd_prev ?y x (upd_next ?y ?k (upd_size ?y (b_size (r_mem r x) - sz) r))))"
  have eq: "split_block x sz r = (if ?k \<noteq> 0 then upd_prev ?k ?y ?r1 else ?r1)"
    using x0 by (simp add: split_block_def Let_def)
  have kin: "?k \<noteq> 0 \<Longrightarrow> ?k \<in> set ?G \<and> hd ?G = ?k" "?k = 0 \<longleftrightarrow> ?G = []"
    using F(3) dseg_nonzero [OF F(3)] by (cases ?G; auto)+
  have notin: "x \<notin> set ?F" "?y \<notin> set ?F" "x \<notin> set ?G" "?y \<notin> set ?G" "set ?F \<inter> set ?G = {}" using d' by auto
  let ?r' = "split_block x sz r"
  have hd0: "?k \<noteq> x" "?k \<noteq> ?y" "?k \<notin> set ?F" if "?k \<noteq> 0" using kin(1) [OF that] notin by auto
  have "dseg ?r' 0 (r_firstfree ?r') ?F x" using F(1) notin hd0 by (simp add: eq)
  moreover have "b_prev (r_mem ?r' x) = last0 0 ?F" "b_next (r_mem ?r' x) = ?y"
    "b_prev (r_mem ?r' ?y) = x" "b_next (r_mem ?r' ?y) = ?k"
    using F(2) x0 hd0 by (auto simp: eq)
  moreover have "dseg ?r' ?y ?k ?G 0"
  proof (cases ?G)
    case Nil
    then show ?thesis using kin by simp
  next
    case (Cons g gs)
    then have "?k = g" "?k \<noteq> 0" using kin by auto
    have "dseg ?r1 x ?k (g # gs) 0" using F(3) notin Cons by simp
    then have "dseg (upd_prev g ?y ?r1) ?y g (g # gs) 0"
      using dseg_entry [of ?r1 x ?k g gs 0 ?y] d' Cons \<open>?k = g\<close> by simp
    then show ?thesis using Cons \<open>?k = g\<close> \<open>?k \<noteq> 0\<close> by (simp add: eq)
  qed
  ultimately have free: "dseg ?r' 0 (r_firstfree ?r') (offs False ?ts') 0" using x0 by (auto simp: dseg_append)
  have kU: "?k \<noteq> 0 \<Longrightarrow> ?k \<notin> set (offs True ?ts')"
    using kin(1) offs_disjoint [OF t', of ?k] by auto
  have "dseg r 0 (r_firstused r) (offs True ?ts') 0" using assms(1) by (simp add: row_def)
  then have used: "dseg ?r' 0 (r_firstused ?r') (offs True ?ts') 0" using yU kU by (simp add: eq)
  have nn: "n = b_size (r_mem r x)" using row_size [OF assms(1), of x n False] by simp
  have "b_size (r_mem ?r' z) = m" if mem: "(z, m, u) \<in> set ?ts'" for z m u
  proof -
    have dm: "distinct (map fst ?ts')" by (rule tiling_distinct [OF t'])
    consider "(z, m) = (x, sz)" | "(z, m) = (?y, n - sz)" | "(z, m, u) \<in> set (pre @ post)" using mem by auto
    then show ?thesis
    proof cases
      case 3
      then have "z \<in> fst ` set pre \<or> z \<in> fst ` set post" by force
      then have "z \<noteq> x" "z \<noteq> ?y" using dm by auto
      moreover have "(z, m, u) \<in> set ?ts" using 3 by auto
      ultimately show ?thesis using row_size [OF assms(1)] by (simp add: eq)
    qed (use nn x0 in \<open>auto simp: eq\<close>)
  qed
  then have "\<forall>(z, m, u) \<in> set ?ts'. b_size (r_mem ?r' z) = m" by blast
  moreover show "r_size ?r' = r_size r" by (simp add: eq)
  ultimately show "row ?ts' ?r'" unfolding row_def using t' free used by simp
qed

lemma row_next:
  assumes "row (pre @ (x, n, u) # post) r"
  shows "b_prev (r_mem r x) = last0 0 (offs u pre)"
    "b_prev (r_mem r x) \<noteq> 0 \<Longrightarrow> b_next (r_mem r (b_prev (r_mem r x))) = x"
    "b_prev (r_mem r x) = 0 \<Longrightarrow> (if u then r_firstused r else r_firstfree r) = x"
    "b_next (r_mem r x) \<noteq> 0 \<Longrightarrow> b_prev (r_mem r (b_next (r_mem r x))) = x"
proof -
  let ?h = "if u then r_firstused r else r_firstfree r" and ?as = "offs u pre" and ?bs = "offs u post"
  have d: "dseg r 0 ?h (?as @ x # ?bs) 0" using assms by (cases u) (auto simp: row_def)
  have nz: "0 \<notin> set (?as @ x # ?bs)" by (rule dseg_nonzero [OF d])
  show p: "b_prev (r_mem r x) = last0 0 ?as" using d by (auto simp: dseg_append)
  have a: "dseg r 0 ?h ?as x" using d by (auto simp: dseg_append dest: dseg_head)
  show "b_next (r_mem r (b_prev (r_mem r x))) = x" if "b_prev (r_mem r x) \<noteq> 0"
    using a p that by (cases ?as rule: rev_cases) (auto simp: dseg_append)
  show "?h = x" if "b_prev (r_mem r x) = 0"
    using a p that nz by (cases ?as rule: rev_cases) auto
  show "b_prev (r_mem r (b_next (r_mem r x))) = x" if "b_next (r_mem r x) \<noteq> 0"
    using d that by (cases ?bs) (auto simp: dseg_append)
qed

definition taken :: "tile list \<Rightarrow> nat \<Rightarrow> nat \<Rightarrow> nat \<Rightarrow> tile list \<Rightarrow> tile list" where
  "taken pre x m k post = pre @ (x, k, True) # (if k = m then [] else [(x + k, m - k, False)]) @ post"

lemma taken_merged:
  assumes "merged (pre @ (x, m, False) # post)"
  shows "merged (taken pre x m k post)"
  using assms merged_free [of "[]" "x + k" "m - k" post]
  by (simp add: taken_def merged_used merged_free)

text \<open>
  The block at x was carved from a smallest free block of at least sz bytes; its
  size with header is sz, or that of the whole free block where no more than a
  header would be left over.
\<close>

definition carves :: "tile list \<Rightarrow> nat \<Rightarrow> nat \<Rightarrow> rmm \<Rightarrow> rmm \<Rightarrow> bool" where
  "carves ts sz x r r' \<longleftrightarrow>
     (\<exists>pre m post k. ts = pre @ (x, m, False) # post \<and> sz \<le> m
        \<and> k = (if RMM_BLOCK_SIZE + sz < m then sz else m)
        \<and> (\<forall>y j. (y, j, False) \<in> set ts \<longrightarrow> sz \<le> j \<longrightarrow> m \<le> j)
        \<and> r_size r' = r_size r \<and> rmm_row (taken pre x m k post) r')"

lemma carvesI:
  assumes "ts = pre @ (x, m, False) # post" "sz \<le> m" "k = (if RMM_BLOCK_SIZE + sz < m then sz else m)"
    and "\<forall>y j. (y, j, False) \<in> set ts \<longrightarrow> sz \<le> j \<longrightarrow> m \<le> j"
    and "r_size r' = r_size r" "rmm_row (taken pre x m k post) r'"
  shows "carves ts sz x r r'"
  unfolding carves_def using assms by blast

lemma malloc_tiles:
  assumes "rmm_row ts r" "RMM_BLOCK_SIZE \<le> sz"
  shows "\<exists>x r1. find_block_of_size sz r = Some (x, r1) \<and>
    (if x = 0 then r1 = r \<and> (\<forall>y j. (y, j, False) \<in> set ts \<longrightarrow> j < sz)
     else \<exists>r'. move_block x False r1 = Some r' \<and> carves ts sz x r r')"
proof -
  have row: "row ts r" "merged ts" using assms(1) by (simp_all add: rmm_row_def)
  have free: "dseg r 0 (r_firstfree r) (offs False ts) 0" and t: "tiling RMM_HDR_BLOCK_SIZE ts (r_size r)"
    using row by (simp_all add: row_def)
  have s0: "0 < sz" using assms(2) by (simp add: RMM_BLOCK_SIZE_def)
  obtain res where res: "best_fit_loop (r_mem r) sz (r_firstfree r) 0 0 = Some res"
    "case res of Inl y \<Rightarrow> y \<in> set (offs False ts) \<and> b_size (r_mem r y) = sz
     | Inr (b, z) \<Rightarrow> ((b, z) = (0, 0) \<or> b \<in> set (offs False ts) \<and> z = b_size (r_mem r b) \<and> sz < z)
         \<and> (\<forall>y \<in> set (offs False ts). sz \<le> b_size (r_mem r y) \<longrightarrow> sz < z \<and> z \<le> b_size (r_mem r y))"
  proof -
    obtain res where 1: "best_fit_loop (r_mem r) sz (r_firstfree r) 0 0 = Some res"
      "case res of Inl y \<Rightarrow> y \<in> set (offs False ts) \<and> b_size (r_mem r y) = sz
       | Inr (b, z) \<Rightarrow> ((b, z) = (0, 0) \<or> b \<in> set (offs False ts) \<and> z = b_size (r_mem r b) \<and> sz < z)
           \<and> ((0 :: nat) \<noteq> 0 \<longrightarrow> sz < z \<and> z \<le> 0)
           \<and> (\<forall>y \<in> set (offs False ts). sz \<le> b_size (r_mem r y) \<longrightarrow> sz < z \<and> z \<le> b_size (r_mem r y))"
      using best_fit_ok [OF free s0, of 0 0] by blast
    show thesis by (rule that [OF 1(1)]) (use 1(2) in \<open>cases res; auto\<close>)
  qed
  have sizes: "b_size (r_mem r y) = j" if "(y, j, False) \<in> set ts" for y j by (rule row_size [OF row(1) that])
  have used: ?thesis if f: "find_block_of_size sz r = Some (x, r)" and m: "(x, m, False) \<in> set ts" "sz \<le> m" "\<not> RMM_BLOCK_SIZE + sz < m"
      and best: "\<forall>y j. (y, j, False) \<in> set ts \<longrightarrow> sz \<le> j \<longrightarrow> m \<le> j" for x m
  proof -
    obtain pre post where ts: "ts = pre @ (x, m, False) # post" using m(1) by (meson split_list)
    have "x \<noteq> 0" using tiling_bounds [OF t m(1)] by (auto simp: RMM_HDR_BLOCK_SIZE_def)
    moreover obtain r' where "move_block x False r = Some r'" "row (pre @ (x, m, True) # post) r'" "r_size r' = r_size r"
      using move_block_used row(1) ts by blast
    moreover have "merged (taken pre x m m post)" using taken_merged row(2) ts by blast
    ultimately have "carves ts sz x r r'"
      using m(3) by (intro carvesI [OF ts m(2) refl best]) (simp_all add: rmm_row_def taken_def)
    then show ?thesis using f \<open>x \<noteq> 0\<close> \<open>move_block x False r = Some r'\<close>
      by (intro exI [of _ x] exI [of _ r]) auto
  qed
  consider y where "res = Inl y" | "res = Inr (0, 0)" | b z where "res = Inr (b, z)" "b \<in> set (offs False ts)"
      "z = b_size (r_mem r b)" "sz < z"
    using res(2) by (cases res) auto
  then show ?thesis
  proof cases
    case 1
    then obtain m where m: "(y, m, False) \<in> set ts" using res(2) by (auto simp: offs_set)
    then have "m = sz" using sizes [OF m] res(2) 1 by simp
    moreover have "find_block_of_size sz r = Some (y, r)" using res(1) 1 by (simp add: find_block_of_size_def)
    ultimately show ?thesis using used m by auto
  next
    case 2
    have "j < sz" if "(y, j, False) \<in> set ts" for y j
    proof (rule ccontr)
      assume "\<not> j < sz"
      moreover have "y \<in> set (offs False ts)" using that by (auto simp: offs_set)
      ultimately have "sz < (0::nat)" using res(2) 2 sizes [OF that] by fastforce
      then show False by simp
    qed
    moreover have "find_block_of_size sz r = Some (0, r)" using res(1) 2 by (simp add: find_block_of_size_def)
    ultimately show ?thesis by auto
  next
    case 3
    then have z: "(b, z, False) \<in> set ts" using sizes by (auto simp: offs_set)
    have best: "\<forall>y j. (y, j, False) \<in> set ts \<longrightarrow> sz \<le> j \<longrightarrow> z \<le> j"
    proof (intro allI impI)
      fix y j assume yj: "(y, j, False) \<in> set ts" "sz \<le> j"
      then have "y \<in> set (offs False ts)" by (auto simp: offs_set)
      then show "z \<le> j" using res(2) 3(1) sizes [OF yj(1)] yj(2) by auto
    qed
    show ?thesis
    proof (cases "z > RMM_BLOCK_SIZE + sz")
      case False
      then have "find_block_of_size sz r = Some (b, r)" using res(1) 3(1) by (simp add: find_block_of_size_def)
      then show ?thesis using used [OF _ z _ False best] 3(4) by simp
    next
      case True
      let ?r1 = "split_block b sz r"
      have f: "find_block_of_size sz r = Some (b, ?r1)" using res(1) 3(1) True by (simp add: find_block_of_size_def)
      obtain pre post where ts: "ts = pre @ (b, z, False) # post" using z by (meson split_list)
      have "row (pre @ (b, sz, False) # (b + sz, z - sz, False) # post) ?r1" "r_size ?r1 = r_size r"
        using split_block_ok [of pre b z post r sz] row(1) ts assms(2) True by auto
      then obtain r' where r': "move_block b False ?r1 = Some r'"
        "row (pre @ (b, sz, True) # (b + sz, z - sz, False) # post) r'" "r_size r' = r_size r"
        using move_block_used by metis
      have "b \<noteq> 0" using tiling_bounds [OF t z] by (auto simp: RMM_HDR_BLOCK_SIZE_def)
      moreover have "rmm_row (taken pre b z sz post) r'"
        using r'(2) taken_merged [of pre b z post sz] row(2) ts 3(4) by (simp add: rmm_row_def taken_def)
      ultimately have "b \<noteq> 0" "carves ts sz b r r'"
        using True best r'(3) by (auto intro!: carvesI [OF ts _ refl])
      then show ?thesis using f r'(1) by (intro exI [of _ b] exI [of _ ?r1]) auto
    qed
  qed
qed

lemma malloc_carves:
  assumes "rmm_row ts r" "n < 2 ^ 64"
  shows "\<exists>a r'. apr_rmm_malloc n r = Some (a, r') \<and>
    (if a = 0 then r' = r \<and> (case block_request n of None \<Rightarrow> True | Some sz \<Rightarrow> \<forall>y j. (y, j, False) \<in> set ts \<longrightarrow> j < sz)
     else \<exists>sz x. block_request n = Some sz \<and> n + RMM_BLOCK_SIZE \<le> sz \<and> a = x + RMM_BLOCK_SIZE
       \<and> carves ts sz x r r')"
proof (cases "block_request n")
  case None
  then show ?thesis by (simp add: apr_rmm_malloc_def)
next
  case (Some sz)
  note b = block_request_some [OF Some assms(2)]
  obtain x r1 where x: "find_block_of_size sz r = Some (x, r1)"
    "if x = 0 then r1 = r \<and> (\<forall>y j. (y, j, False) \<in> set ts \<longrightarrow> j < sz)
     else \<exists>r'. move_block x False r1 = Some r' \<and> carves ts sz x r r'"
    using malloc_tiles [OF assms(1), of sz] b by auto
  show ?thesis
  proof (cases "x = 0")
    case True
    then show ?thesis using x Some by (intro exI [of _ 0] exI [of _ r]) (simp add: apr_rmm_malloc_def)
  next
    case False
    then obtain r' where t: "move_block x False r1 = Some r'" "carves ts sz x r r'" using x(2) by auto
    have "apr_rmm_malloc n r = Some (x + RMM_BLOCK_SIZE, r')" using Some x(1) t(1) False by (simp add: apr_rmm_malloc_def)
    then show ?thesis using Some t(2) b False by (intro exI [of _ "x + RMM_BLOCK_SIZE"] exI [of _ r']) auto
  qed
qed

text \<open>The size asked for with its header, and exactly when it does not fit into 64 bits.\<close>

lemma block_request_eq:
  assumes "n < 2 ^ 64"
  shows "block_request n =
    (let sz = (n + 7) div 8 * 8 + RMM_BLOCK_SIZE in if 2 ^ 64 \<le> sz then None else Some sz)"
proof -
  show ?thesis
  proof (cases "n + 7 < 2 ^ 64")
    case True
    then have a: "apr_align_default n = (n + 7) div 8 * 8" by (simp add: apr_align_default_def)
    have "(n + 7) div 8 * 8 < 2 ^ 64" using True by (meson div_times_less_eq_dividend le_less_trans)
    moreover have "n \<le> (n + 7) div 8 * 8" by linarith
    ultimately show ?thesis by (auto simp: block_request_def a RMM_BLOCK_SIZE_def Let_def mod_if)
  next
    case False
    then have "(n + 7) mod 2 ^ 64 = n + 7 - 2 ^ 64" using assms by (simp add: mod_if)
    then have "apr_align_default n < 7" using False assms by (simp add: apr_align_default_def)
    then have "block_request n = None" using False by (auto simp: block_request_def RMM_BLOCK_SIZE_def Let_def)
    moreover have "2 ^ 64 \<le> (n + 7) div 8 * 8 + RMM_BLOCK_SIZE" using False by (simp add: RMM_BLOCK_SIZE_def)
    ultimately show ?thesis by simp
  qed
qed

lemma apr_rmm_free_tiles:
  assumes "rmm_row (pre @ (x, n, True) # post) r"
  shows "\<exists>r'. apr_rmm_free (x + RMM_BLOCK_SIZE) r = Some (APR_SUCCESS, r')
    \<and> rmm_row (release pre x n post) r' \<and> r_size r' = r_size r"
proof -
  have row: "row (pre @ (x, n, True) # post) r" "merged (pre @ (x, n, True) # post)"
    using assms by (simp_all add: rmm_row_def)
  have "RMM_HDR_BLOCK_SIZE \<le> x" using tiling_bounds [of _ _ _ x n True] row(1) by (force simp: row_def)
  moreover obtain r' where "move_block x True r = Some r'" "row (release pre x n post) r'" "r_size r' = r_size r"
    using move_block_free [OF row(1)] by blast
  ultimately show ?thesis
    using row_next(2-4) [OF row(1)] release_merged [OF row(2)]
    by (intro exI [of _ r']) (auto simp: apr_rmm_free_def rmm_row_def Let_def)
qed

section \<open>The allocator and its clients\<close>

lemma dseg_unique: "dseg r p h xs 0 \<Longrightarrow> dseg r p h ys 0 \<Longrightarrow> xs = ys"
proof (induction xs arbitrary: p h ys)
  case Nil
  then show ?case by (cases ys) auto
next
  case (Cons x xs)
  then show ?case by (cases ys) auto
qed

lemma tiling_sorted: "tiling s ts e \<Longrightarrow> sorted (map fst ts)"
proof (induction ts arbitrary: s)
  case (Cons t ts)
  obtain x n u where t: "t = (x, n, u)" by (cases t)
  then have "\<forall>y \<in> set ts. x < fst y" using tiling_after [of s "[]" x n u ts e] Cons.prems by force
  then show ?case using Cons t by auto
qed simp

lemma rmm_row_distinct: "rmm_row ts r \<Longrightarrow> distinct (map fst ts)"
  using tiling_distinct unfolding rmm_row_def row_def by blast

lemma row_unique:
  assumes "row ts r" "row ts' r"
  shows "ts = ts'"
proof -
  have "offs u ts = offs u ts'" for u using assms dseg_unique by (cases u) (auto simp: row_def)
  moreover have set_offs: "set (map fst us) = set (offs True us) \<union> set (offs False us)" for us
    by (induction us) (auto split: if_splits)
  ultimately have "set (map fst ts) = set (map fst ts')" by simp
  then have fsts: "map fst ts = map fst ts'"
    using assms tiling_sorted tiling_distinct unfolding row_def
    by (intro sorted_distinct_set_unique) blast+
  have det: "us = map (\<lambda>x. (x, b_size (r_mem r x), x \<in> set (offs True us))) (map fst us)" if "row us r" for us
  proof -
    have "u \<longleftrightarrow> x \<in> set (offs True us)" if m: "(x, n, u) \<in> set us" for x n u
      using m offs_disjoint [of _ us _ x] \<open>row us r\<close> by (cases u) (auto simp: row_def offs_set)
    then show ?thesis using row_size [OF that] by (auto simp: list_eq_iff_nth_eq) (metis nth_mem surjective_pairing)+
  qed
  show ?thesis using det [OF assms(1)] det [OF assms(2)] fsts \<open>\<And>u. offs u ts = offs u ts'\<close> by metis
qed

definition rmm_alloc :: "nat \<Rightarrow> rmm \<Rightarrow> nat \<times> rmm" where
  "rmm_alloc n r = (case apr_rmm_malloc n r of Some p \<Rightarrow> p | None \<Rightarrow> (0, r))"

definition rmm_release :: "nat \<Rightarrow> rmm \<Rightarrow> rmm" where
  "rmm_release a r = (case apr_rmm_free a r of Some (_, r') \<Rightarrow> r' | None \<Rightarrow> r)"

definition rmm_inv :: "nat \<Rightarrow> rmm \<Rightarrow> bool" where
  "rmm_inv e r \<longleftrightarrow> r_size r = e \<and> (\<exists>ts. rmm_row ts r)"

definition rmm_live :: "rmm \<Rightarrow> (nat \<times> nat) set" where
  "rmm_live r = {(x + RMM_BLOCK_SIZE, n - RMM_BLOCK_SIZE) | x n. \<exists>ts. rmm_row ts r \<and> (x, n, True) \<in> set ts}"

lemma rmm_live_row:
  "rmm_row ts r \<Longrightarrow> rmm_live r = (\<lambda>(x, n, u). (x + RMM_BLOCK_SIZE, n - RMM_BLOCK_SIZE)) ` {t \<in> set ts. tile_used t}"
proof -
  assume r: "rmm_row ts r"
  have "us = ts" if "rmm_row us r" for us using row_unique r that unfolding rmm_row_def by blast
  then have "rmm_live r = {(x + RMM_BLOCK_SIZE, n - RMM_BLOCK_SIZE) | x n. (x, n, True) \<in> set ts}"
    unfolding rmm_live_def using r by blast
  then show ?thesis by (auto simp: tile_used_def image_iff) force
qed

lemma rmm_row_bounds:
  "rmm_row ts r \<Longrightarrow> (x, n, u) \<in> set ts \<Longrightarrow> RMM_HDR_BLOCK_SIZE \<le> x \<and> x + n \<le> r_size r \<and> RMM_BLOCK_SIZE \<le> n"
  using tiling_bounds by (fastforce simp: rmm_row_def row_def)

lemma rmm_row_apart:
  assumes "rmm_row ts r" "(x, n, u) \<in> set ts" "(y, m, v) \<in> set ts" "x \<noteq> y"
  shows "x + n \<le> y \<or> y + m \<le> x"
proof -
  obtain as bs where ts: "ts = as @ (x, n, u) # bs" using assms(2) by (meson split_list)
  have t: "tiling RMM_HDR_BLOCK_SIZE (as @ (x, n, u) # bs) (r_size r)"
    using assms(1) ts by (simp add: rmm_row_def row_def)
  show ?thesis using assms(3,4) ts tiling_before [OF t] tiling_after [OF t] by auto
qed

lemma live_taken:
  assumes "rmm_row (pre @ (x, m, False) # post) r" "rmm_row (taken pre x m k post) r'"
  shows "rmm_live r' = insert (x + RMM_BLOCK_SIZE, k - RMM_BLOCK_SIZE) (rmm_live r)"
proof -
  have "{t \<in> set (taken pre x m k post). tile_used t}
      = insert (x, k, True) {t \<in> set (pre @ (x, m, False) # post). tile_used t}"
    by (auto simp: taken_def tile_used_def)
  then show ?thesis unfolding rmm_live_row [OF assms(1)] rmm_live_row [OF assms(2)] by simp
qed

lemma release_used: "{t \<in> set (release pre x n post). tile_used t} = {t \<in> set (pre @ post). tile_used t}"
proof (rule join_left_cases [of pre x n])
  fix pre' y m assume "pre = pre' @ [(y, m, False)]" "join_left pre x n = (pre', y, m + n)"
  then show ?thesis by (rule_tac join_right_cases [of post "m + n"]) (auto simp: release_def tile_used_def)
next
  assume "join_left pre x n = (pre, x, n)"
  then show ?thesis by (rule_tac join_right_cases [of post n]) (auto simp: release_def tile_used_def)
qed

lemma live_release:
  assumes "rmm_row (pre @ (x, n, True) # post) r" "rmm_row (release pre x n post) r'"
  shows "rmm_live r' = {b \<in> rmm_live r. fst b \<noteq> x + RMM_BLOCK_SIZE}"
proof -
  have "distinct (map fst (pre @ (x, n, True) # post))" by (rule rmm_row_distinct [OF assms(1)])
  then have "fst t \<noteq> x" if "t \<in> set (pre @ post)" for t using that by force
  then show ?thesis
    unfolding rmm_live_row [OF assms(1)] rmm_live_row [OF assms(2)] release_used
    by (force simp: tile_used_def)
qed

lemma rmm_release_live:
  assumes "rmm_inv e r" "(a, k) \<in> rmm_live r"
  shows "rmm_inv e (rmm_release a r) \<and> rmm_live (rmm_release a r) = {b \<in> rmm_live r. fst b \<noteq> a}"
proof -
  obtain ts x n where ts: "rmm_row ts r" "(x, n, True) \<in> set ts" "a = x + RMM_BLOCK_SIZE"
    using assms(2) by (auto simp: rmm_live_def)
  obtain pre post where split: "ts = pre @ (x, n, True) # post" using ts(2) by (meson split_list)
  obtain r' where "apr_rmm_free a r = Some (APR_SUCCESS, r')" "rmm_row (release pre x n post) r'" "r_size r' = r_size r"
    using apr_rmm_free_tiles [of pre x n post r] ts split by auto
  then show ?thesis using live_release [of pre x n post r r'] ts split assms(1)
    by (auto simp: rmm_release_def rmm_inv_def)
qed

interpretation ra: allocator "rmm_inv e" rmm_live "\<lambda>n. n < 2 ^ 64" rmm_alloc rmm_release for e
proof unfold_locales
  fix r a k b l
  assume r: "rmm_inv e r" "(a, k) \<in> rmm_live r" "(b, l) \<in> rmm_live r" "a \<noteq> b"
  obtain ts where ts: "rmm_row ts r" using r(1) by (auto simp: rmm_inv_def)
  obtain x n y m where xy: "(x, n, True) \<in> set ts" "a = x + RMM_BLOCK_SIZE" "k = n - RMM_BLOCK_SIZE"
    "(y, m, True) \<in> set ts" "b = y + RMM_BLOCK_SIZE" "l = m - RMM_BLOCK_SIZE"
    using r(2,3) unfolding rmm_live_row [OF ts] by (auto simp: tile_used_def)
  have "RMM_BLOCK_SIZE \<le> n" "RMM_BLOCK_SIZE \<le> m" using rmm_row_bounds [OF ts] xy by blast+
  moreover have "x + n \<le> y \<or> y + m \<le> x" using rmm_row_apart [OF ts xy(1,4)] r(4) xy by simp
  ultimately show "a + k \<le> b \<or> b + l \<le> a" using xy by auto
next
  fix r n r' assume r: "rmm_inv e r" "n < 2 ^ 64" "rmm_alloc n r = (0, r')"
  then obtain ts where ts: "rmm_row ts r" by (auto simp: rmm_inv_def)
  show "r' = r" using malloc_carves [OF ts r(2)] r(3) by (auto simp: rmm_alloc_def split: if_splits)
next
  fix r n a r' assume r: "rmm_inv e r" "n < 2 ^ 64" "rmm_alloc n r = (a, r')" "a \<noteq> 0"
  then obtain ts where ts: "rmm_row ts r" "r_size r = e" by (auto simp: rmm_inv_def)
  obtain sz x where m: "n + RMM_BLOCK_SIZE \<le> sz" "a = x + RMM_BLOCK_SIZE" "carves ts sz x r r'"
    using malloc_carves [OF ts(1) r(2)] r(3,4) by (auto simp: rmm_alloc_def split: if_splits)
  then obtain pre m' post k where c: "ts = pre @ (x, m', False) # post" "sz \<le> k" "r_size r' = r_size r"
    "rmm_row (taken pre x m' k post) r'" unfolding carves_def by (metis le_refl)
  have "rmm_live r' = insert (a, k - RMM_BLOCK_SIZE) (rmm_live r)"
    using live_taken [of pre x m' post r k r'] ts(1) c m(2) by simp
  moreover have "a \<notin> fst ` rmm_live r"
  proof -
    have "distinct (map fst (pre @ (x, m', False) # post))"
      using rmm_row_distinct [OF ts(1)] c(1) by simp
    then have "y \<noteq> x" if "(y, l, True) \<in> set ts" for y l using that c(1) by force
    then show ?thesis unfolding rmm_live_row [OF ts(1)] using m(2) by (fastforce simp: tile_used_def)
  qed
  ultimately show "rmm_inv e r' \<and> a \<notin> fst ` rmm_live r \<and> (\<exists>k \<ge> n. rmm_live r' = insert (a, k) (rmm_live r))"
    using c m(1) ts(2) by (auto simp: rmm_inv_def intro!: exI [of _ "k - RMM_BLOCK_SIZE"])
qed (rule rmm_release_live)

section \<open>What the allocator guarantees\<close>

lemma rmm_init_row: "48 \<le> sz \<Longrightarrow> rmm_row [(24, sz - 24, False)] (apr_rmm_init sz base)"
  by (simp add: rmm_row_def row_def apr_rmm_init_def RMM_HDR_BLOCK_SIZE_def RMM_BLOCK_SIZE_def
      merged_def Let_def)

lemma rmm_init_holds: "48 \<le> sz \<Longrightarrow> ra.holds sz (apr_rmm_init sz base) []"
  using rmm_init_row [of sz base] rmm_live_row [OF rmm_init_row, of sz base]
  by (auto simp: ra.holds_def rmm_inv_def tile_used_def apr_rmm_init_def Let_def)

text \<open>
  C10. apr_rmm_malloc always returns. With sz the request rounded up to eight
  bytes and its header, it fails, changing nothing, only when sz does not fit
  into 64 bits or every free block is smaller than sz; otherwise it takes a
  smallest free block of at least sz bytes, splits it when more than a header is
  left over, and keeps the row of blocks whole, merged and of the same extent.
\<close>

theorem apr_rmm_malloc_correct:
  assumes "rmm_row ts r" "n < 2 ^ 64" and "sz = (n + 7) div 8 * 8 + RMM_BLOCK_SIZE"
  shows "\<exists>a r'. apr_rmm_malloc n r = Some (a, r') \<and>
    (if a = 0 then r' = r \<and> (2 ^ 64 \<le> sz \<or> (\<forall>y j. (y, j, False) \<in> set ts \<longrightarrow> j < sz))
     else sz < 2 ^ 64 \<and> (\<exists>x. a = x + RMM_BLOCK_SIZE \<and> carves ts sz x r r'))"
proof -
  have req: "block_request n = (if 2 ^ 64 \<le> sz then None else Some sz)"
    using block_request_eq [OF assms(2)] assms(3) by (simp add: Let_def)
  obtain a r' where m: "apr_rmm_malloc n r = Some (a, r')"
    "if a = 0 then r' = r \<and> (case block_request n of None \<Rightarrow> True | Some sz \<Rightarrow> \<forall>y j. (y, j, False) \<in> set ts \<longrightarrow> j < sz)
     else \<exists>sz x. block_request n = Some sz \<and> n + RMM_BLOCK_SIZE \<le> sz \<and> a = x + RMM_BLOCK_SIZE \<and> carves ts sz x r r'"
    using malloc_carves [OF assms(1,2)] by blast
  show ?thesis
  proof (cases "2 ^ 64 \<le> sz")
    case True
    then show ?thesis using m req by (intro exI [of _ a] exI [of _ r']) (auto split: if_splits)
  next
    case False
    then show ?thesis using m req by (intro exI [of _ a] exI [of _ r']) (auto split: if_splits)
  qed
qed

text \<open>
  C9. For any sequence of malloc and free calls of a client that frees only
  what it holds, every walk ends, the blocks held lie inside the region after
  the first header, and no two of them overlap.
\<close>

theorem rmm_blocks_apart:
  assumes "48 \<le> sz" "\<forall>n. Alloc n \<in> set rs \<longrightarrow> n < 2 ^ 64"
    and "ra.client (apr_rmm_init sz base) [] rs = (r, held)"
    and "i < length held" "j < length held" "i \<noteq> j"
  shows "(fst (held ! i) + snd (held ! i) \<le> fst (held ! j) \<or> fst (held ! j) + snd (held ! j) \<le> fst (held ! i))
    \<and> 48 \<le> fst (held ! i) \<and> fst (held ! i) + snd (held ! i) \<le> sz"
proof -
  have h: "ra.holds sz r held" using ra.client_holds [OF rmm_init_holds [OF assms(1)] assms(2,3)] .
  then obtain ts where ts: "rmm_row ts r" "r_size r = sz" by (auto simp: ra.holds_def rmm_inv_def)
  have "held ! i \<in> set held" using assms(4) by simp
  then obtain k where "(fst (held ! i), k) \<in> rmm_live r" "snd (held ! i) \<le> k"
    using h by (force simp: ra.holds_def)
  then obtain x n where "(x, n, True) \<in> set ts" "fst (held ! i) = x + RMM_BLOCK_SIZE" "k = n - RMM_BLOCK_SIZE"
    unfolding rmm_live_row [OF ts(1)] by (auto simp: tile_used_def)
  then have "48 \<le> fst (held ! i) \<and> fst (held ! i) + snd (held ! i) \<le> sz"
    using rmm_row_bounds [OF ts(1)] ts(2) \<open>snd (held ! i) \<le> k\<close>
    by (fastforce simp: RMM_HDR_BLOCK_SIZE_def RMM_BLOCK_SIZE_def)
  then show ?thesis using ra.held_apart [OF h assms(4-6)] by blast
qed

lemma all_free_row:
  assumes "tiling s ts e" "merged ts" "\<forall>t \<in> set ts. \<not> tile_used t" "s < e"
  shows "ts = [(s, e - s, False)]"
proof (cases ts)
  case (Cons t us)
  obtain x n u where t: "t = (x, n, u)" by (cases t)
  have "us = []"
    using assms(2,3) Cons by (cases us) (auto simp: merged_def successively_Cons)
  then show ?thesis using Cons t assms(1,3) by (auto simp: tile_used_def)
qed (use assms in simp)

text \<open>
  C15. No fragmentation is left behind: when the client has freed everything,
  the free list is again the single block that apr_rmm_init made.
\<close>

theorem rmm_all_freed:
  assumes "48 \<le> sz" "\<forall>n. Alloc n \<in> set rs \<longrightarrow> n < 2 ^ 64"
    and "ra.client (apr_rmm_init sz base) [] rs = (r, [])"
  shows "r_firstused r = 0 \<and> r_firstfree r = RMM_HDR_BLOCK_SIZE
    \<and> r_mem r RMM_HDR_BLOCK_SIZE = \<lparr>b_size = sz - RMM_HDR_BLOCK_SIZE, b_prev = 0, b_next = 0\<rparr>"
proof -
  have h: "ra.holds sz r []" using ra.client_holds [OF rmm_init_holds [OF assms(1)] assms(2,3)] .
  then obtain ts where ts: "rmm_row ts r" "r_size r = sz" by (auto simp: ra.holds_def rmm_inv_def)
  have "rmm_live r = {}" using h by (simp add: ra.holds_def)
  then have "\<forall>t \<in> set ts. \<not> tile_used t" unfolding rmm_live_row [OF ts(1)] by auto
  moreover have "tiling RMM_HDR_BLOCK_SIZE ts sz" "merged ts" using ts by (auto simp: rmm_row_def row_def)
  ultimately have "ts = [(RMM_HDR_BLOCK_SIZE, sz - RMM_HDR_BLOCK_SIZE, False)]"
    using assms(1) by (intro all_free_row) (auto simp: RMM_HDR_BLOCK_SIZE_def)
  then show ?thesis using ts(1) by (auto simp: rmm_row_def row_def)
qed

lemma release_taken:
  assumes "rmm_row (pre @ (x, m, False) # post) r" "k = m \<or> k < m"
  shows "taken pre x m k post = pre @ (x, k, True) # drop (length pre + 1) (taken pre x m k post)"
    "release pre x k (drop (length pre + 1) (taken pre x m k post)) = pre @ (x, m, False) # post"
proof -
  have "merged (pre @ (x, m, False) # post)" using assms(1) by (simp add: rmm_row_def)
  then have f: "pre = [] \<or> tile_used (last pre)" "post = [] \<or> tile_used (hd post)" by (simp_all add: merged_free)
  have l: "join_left pre x k = (pre, x, k)"
    by (rule join_left_cases [of pre x k]) (use f(1) in \<open>auto simp: tile_used_def\<close>)
  have p: "join_right n post = (n, post)" for n
    by (rule join_right_cases [of post n]) (use f(2) in \<open>auto simp: tile_used_def\<close>)
  show "taken pre x m k post = pre @ (x, k, True) # drop (length pre + 1) (taken pre x m k post)"
    by (simp add: taken_def)
  show "release pre x k (drop (length pre + 1) (taken pre x m k post)) = pre @ (x, m, False) # post"
    using assms(2) l p by (auto simp: release_def taken_def join_right_def [of _ "(_, _, False) # _"])
qed

text \<open>Freeing the block just allocated gives back the row of blocks there was before.\<close>

theorem rmm_malloc_free_roundtrip:
  assumes "rmm_row ts r" "n < 2 ^ 64" "apr_rmm_malloc n r = Some (a, r1)" "a \<noteq> 0"
  shows "\<exists>r2. apr_rmm_free a r1 = Some (APR_SUCCESS, r2) \<and> rmm_row ts r2 \<and> r_size r2 = r_size r"
proof -
  obtain sz x where m: "a = x + RMM_BLOCK_SIZE" "carves ts sz x r r1"
    using malloc_carves [OF assms(1,2)] assms(3,4) by auto
  obtain pre m post k where c: "ts = pre @ (x, m, False) # post" "k = m \<or> k < m" "r_size r1 = r_size r"
    "rmm_row (taken pre x m k post) r1"
  proof -
    from m(2) obtain pre m' post k where "ts = pre @ (x, m', False) # post" "k \<le> m'" "r_size r1 = r_size r"
      "rmm_row (taken pre x m' k post) r1" unfolding carves_def by (metis le_refl)
    then show thesis using that le_imp_less_or_eq by blast
  qed
  have r: "rmm_row (pre @ (x, m, False) # post) r" using assms(1) c(1) by simp
  let ?rest = "drop (length pre + 1) (taken pre x m k post)"
  have "rmm_row (pre @ (x, k, True) # ?rest) r1" using c(4) release_taken(1) [OF r c(2)] by simp
  from apr_rmm_free_tiles [OF this] show ?thesis
    using m(1) c(1,3) release_taken(2) [OF r c(2)] by auto
qed

text \<open>
  apr_rmm_realloc to a larger size reads behind the block it replaces: the
  size it copies counts the header of the block, although the copy starts
  after the header.
\<close>

theorem realloc_reads_past_block:
  assumes "rmm_row (pre @ (x, n, True) # post) r" "m < 2 ^ 64"
    and "apr_rmm_realloc (Some (x + RMM_BLOCK_SIZE)) m r = Some (a, Some (source, dest, len), r')"
    and "n - RMM_BLOCK_SIZE < apr_align_default m"
  shows "x + n < source + len"
proof -
  let ?s = "apr_align_default m"
  have "?s \<le> (m + 7) mod 2 ^ 64" by (simp add: apr_align_default_def)
  also have "\<dots> < 2 ^ 64" by simp
  finally have s: "?s < 2 ^ 64" .
  obtain b r1 where b1: "apr_rmm_malloc ?s r = Some (b, r1)" using malloc_carves [OF assms(1) s] by blast
  let ?o = "b_size (r_mem r1 x)" and ?old = "x + RMM_BLOCK_SIZE"
  have "apr_rmm_realloc (Some ?old) m r = (if ?s < m then Some (0, None, r) else if b = 0 then Some (0, None, r1)
      else map_option (\<lambda>(rv, r). (b, Some (?old, b, if ?o < ?s then ?o else ?s), r)) (apr_rmm_free ?old r1))"
    by (simp add: apr_rmm_realloc_def Let_def b1)
  then have l: "b \<noteq> 0" "source = ?old" "len = (if ?o < ?s then ?o else ?s)"
    using assms(3) by (cases "apr_rmm_free ?old r1"; auto split: if_splits)+
  then have b: "apr_rmm_malloc ?s r = Some (b, r1)" "b \<noteq> 0" using b1 by simp_all
  have "carves (pre @ (x, n, True) # post) sz y r r1 \<Longrightarrow> b_size (r_mem r1 x) = n" for sz y
  proof -
    assume "carves (pre @ (x, n, True) # post) sz y r r1"
    then obtain as k bs j where c: "pre @ (x, n, True) # post = as @ (y, k, False) # bs"
      "rmm_row (taken as y k j bs) r1" unfolding carves_def by blast
    have "(x, n, True) \<in> set (as @ (y, k, False) # bs)" by (metis c(1) in_set_conv_decomp)
    then have "(x, n, True) \<in> set (taken as y k j bs)" by (auto simp: taken_def)
    then show ?thesis using c(2) row_size by (auto simp: rmm_row_def)
  qed
  then have "b_size (r_mem r1 x) = n" using malloc_carves [OF assms(1) s] b by auto
  moreover have "RMM_BLOCK_SIZE \<le> n" using rmm_row_bounds [OF assms(1), of x n True] by simp
  moreover have "n < RMM_BLOCK_SIZE + ?s" using assms(4) by linarith
  ultimately show ?thesis unfolding l(2,3) by (simp add: RMM_BLOCK_SIZE_def)
qed

section \<open>Runs\<close>

text \<open>
  A region of 400 bytes over blank memory: two blocks are taken, the first is
  freed, and the last request does not fit.
\<close>

definition blank :: "nat \<Rightarrow> rmm_block" where
  "blank x = \<lparr>b_size = 0, b_prev = 0, b_next = 0\<rparr>"

definition region :: rmm where
  "region = apr_rmm_init 400 blank"

lemmas rmm_eval = region_def blank_def apr_rmm_init_def apr_rmm_malloc_def apr_rmm_free_def block_request_def
  apr_align_default_def RMM_HDR_BLOCK_SIZE_def RMM_BLOCK_SIZE_def find_block_of_size_def
  best_fit_loop.simps find_block_by_offset_loop.simps find_block_by_offset_def split_block_def move_block_def
  close_gap_def find_place_def join_prev_def join_next_def upd_size_def upd_prev_def upd_next_def Let_def
  rmm_alloc_def rmm_release_def

lemma region_row: "rmm_row [(24, 376, False)] region"
  using rmm_init_row [of 400 blank] by (simp add: region_def)

theorem apr_rmm_malloc_correct_witness:
  "\<exists>r'. apr_rmm_malloc 100 region = Some (48, r') \<and> carves [(24, 376, False)] 128 24 region r'"
proof -
  have "(128 :: nat) = (100 + 7) div 8 * 8 + RMM_BLOCK_SIZE" by (simp add: RMM_BLOCK_SIZE_def)
  from apr_rmm_malloc_correct [OF region_row _ this] obtain a r' where
    r': "apr_rmm_malloc 100 region = Some (a, r')" "a = 0 \<longrightarrow> (376 :: nat) < 128"
    "a \<noteq> 0 \<longrightarrow> (\<exists>x. a = x + RMM_BLOCK_SIZE \<and> carves [(24, 376, False)] 128 x region r')"
    by (auto split: if_splits)
  then obtain x where x: "a = x + RMM_BLOCK_SIZE" "carves [(24, 376, False)] 128 x region r'" by auto
  have "x = 24"
  proof -
    obtain pre m post where "[(24 :: nat, 376 :: nat, False)] = pre @ (x, m, False) # post"
      using x(2) unfolding carves_def by blast
    then show ?thesis by (cases pre) auto
  qed
  then show ?thesis using r'(1) x by (simp add: RMM_BLOCK_SIZE_def)
qed

lemma region_client:
  "snd (ra.client region [] [Alloc 100, Alloc 60, Free 1, Alloc 300, Alloc 8]) = [(48, 8), (176, 60)]"
  by (simp add: rmm_eval)

theorem rmm_blocks_apart_witness:
  "(48 + 8 \<le> (176 :: nat) \<or> 176 + 60 \<le> (48 :: nat)) \<and> 48 \<le> (48 :: nat) \<and> 48 + 8 \<le> (400 :: nat)"
proof -
  obtain r where c: "ra.client (apr_rmm_init 400 blank) [] [Alloc 100, Alloc 60, Free 1, Alloc 300, Alloc 8]
      = (r, [(48, 8), (176, 60)])"
    using region_client by (metis prod.collapse region_def)
  show ?thesis using rmm_blocks_apart [OF _ _ c, of 0 1] by simp
qed

theorem rmm_all_freed_witness:
  "\<exists>r. ra.client region [] [Alloc 100, Alloc 60, Free 1, Free 0] = (r, []) \<and> r_firstused r = 0
     \<and> r_firstfree r = RMM_HDR_BLOCK_SIZE
     \<and> r_mem r RMM_HDR_BLOCK_SIZE = \<lparr>b_size = 400 - RMM_HDR_BLOCK_SIZE, b_prev = 0, b_next = 0\<rparr>"
proof -
  have "snd (ra.client region [] [Alloc 100, Alloc 60, Free 1, Free 0]) = []" by (simp add: rmm_eval)
  then obtain r where c: "ra.client region [] [Alloc 100, Alloc 60, Free 1, Free 0] = (r, [])"
    by (metis prod.collapse)
  have "\<forall>n. Alloc n \<in> set [Alloc 100, Alloc 60, Free 1, Free 0] \<longrightarrow> n < 2 ^ 64" by simp
  from rmm_all_freed [OF _ this c [unfolded region_def]] show ?thesis using c by auto
qed

theorem rmm_malloc_free_roundtrip_witness:
  "\<exists>r2. apr_rmm_free 48 (snd (the (apr_rmm_malloc 100 region))) = Some (APR_SUCCESS, r2)
     \<and> rmm_row [(24, 376, False)] r2 \<and> r_size r2 = r_size region"
proof -
  have "fst (the (apr_rmm_malloc 100 region)) = 48 \<and> apr_rmm_malloc 100 region \<noteq> None" by (simp add: rmm_eval)
  then have "apr_rmm_malloc 100 region = Some (48, snd (the (apr_rmm_malloc 100 region)))"
    by (metis option.collapse prod.collapse)
  from rmm_malloc_free_roundtrip [OF region_row _ this] show ?thesis by simp
qed

lemma region_realloc:
  "case apr_rmm_malloc 100 region of None \<Rightarrow> False
   | Some (a, r) \<Rightarrow> (case apr_rmm_realloc (Some 48) 120 r of None \<Rightarrow> False
     | Some (b, copied, r') \<Rightarrow> b = 176 \<and> copied = Some (48, 176, 120))"
  by (simp add: rmm_eval apr_rmm_realloc_def)

theorem realloc_reads_past_block_witness:
  "\<exists>r a source dest len r'. rmm_row [(24, 128, True), (152, 248, False)] r
     \<and> apr_rmm_realloc (Some 48) 120 r = Some (a, Some (source, dest, len), r') \<and> 24 + 128 < source + len"
proof -
  let ?r = "snd (the (apr_rmm_malloc 100 region))"
  have "apr_rmm_malloc 100 region \<noteq> None \<and> fst (the (apr_rmm_malloc 100 region)) = 48" by (simp add: rmm_eval)
  then obtain r where r: "apr_rmm_malloc 100 region = Some (48, r)" by (metis option.collapse prod.collapse)
  then have "\<exists>sz. block_request 100 = Some sz \<and> carves [(24, 376, False)] sz 24 region r"
    using malloc_carves [OF region_row, of 100] by (auto simp: RMM_BLOCK_SIZE_def)
  then obtain sz where sz: "block_request 100 = Some sz" and c: "carves [(24, 376, False)] sz 24 region r" by blast
  have "sz = 128" using sz by (simp add: block_request_def apr_align_default_def RMM_BLOCK_SIZE_def)
  then obtain pre m post k where k: "[(24, 376, False)] = pre @ (24, m, False) # post"
    "k = (if RMM_BLOCK_SIZE + 128 < m then 128 else m)" "rmm_row (taken pre 24 m k post) r"
    using c unfolding carves_def by blast
  have "pre = [] \<and> m = 376 \<and> post = []" using k(1) by (cases pre) auto
  then have row: "rmm_row [(24, 128, True), (152, 248, False)] r"
    using k(2,3) by (simp add: taken_def RMM_BLOCK_SIZE_def)
  have "\<exists>a d len r'. apr_rmm_realloc (Some 48) 120 r = Some (a, Some (48, d, len), r')"
    using region_realloc r by (auto split: option.splits)
  then obtain a d len r' where e: "apr_rmm_realloc (Some 48) 120 r = Some (a, Some (48, d, len), r')" by blast
  have "24 + 128 < 48 + len"
    using realloc_reads_past_block [of "[]" 24 128 "[(152, 248, False)]" r 120 a 48 d len r'] row e
    by (simp add: RMM_BLOCK_SIZE_def apr_align_default_def)
  then show ?thesis using row e by blast
qed

end
