(* ===== verification/Apr_Table.thy ===== *)
theory Apr_Table
  imports Interfaces "HOL-Library.List_Lexorder" "HOL-Library.Char_ord"
begin

text \<open>
  srclib/apr/tables/apr_tables.c: the table of key/value pairs that holds the
  headers of every request. The pairs are an array in order of insertion, with
  an index by the low five bits of the first byte of the key and a checksum of
  the first four bytes; keys compare without regard to case. Strings are
  values here, so the variants that do not copy them (setn, mergen, addn) do
  the same as those that do. The arrays under a table grow by doubling
  (t_nalloc); the slots behind the last entry are never read.
\<close>

section \<open>Entries, keys and checksums\<close>

text \<open>The key None is the null pointer, which stands in a table only while it is compressed.\<close>

record table_entry =
  te_key :: "cstr option"
  te_val :: cstr
  te_checksum :: "32 word"

record apr_table =
  t_elts :: "table_entry list"
  t_nalloc :: nat
  t_initialized :: "32 word"
  t_first :: "nat list"
  t_last :: "nat list"

definition TABLE_HASH_SIZE :: nat where
  "TABLE_HASH_SIZE = 32"

definition key_byte :: "cstr \<Rightarrow> nat \<Rightarrow> char" where
  "key_byte key i = (if i < length key then key ! i else CHR 0x00)"

definition TABLE_HASH :: "cstr \<Rightarrow> nat" where
  "TABLE_HASH key = 0x1f AND chr_code (key_byte key 0)"

text \<open>(apr_uint32_t)*k: a char is signed.\<close>

definition char_u32 :: "char \<Rightarrow> 32 word" where
  "char_u32 c = scast (of_nat (chr_code c) :: 8 word)"

definition CASE_MASK :: "32 word" where
  "CASE_MASK = 0xdfdfdfdf"

definition checksum_byte :: "cstr \<Rightarrow> nat \<Rightarrow> 32 word \<times> 32 word \<Rightarrow> 32 word \<times> 32 word" where
  "checksum_byte key i cs =
     (case cs of (c, checksum) \<Rightarrow>
        let checksum = push_bit 8 checksum
        in if c \<noteq> 0 then (let c = char_u32 (key_byte key i) in (c, checksum OR c)) else (c, checksum))"

definition COMPUTE_KEY_CHECKSUM :: "cstr \<Rightarrow> 32 word" where
  "COMPUTE_KEY_CHECKSUM key =
     (let c = char_u32 (key_byte key 0)
      in snd (checksum_byte key 3 (checksum_byte key 2 (checksum_byte key 1 (c, c)))) AND CASE_MASK)"

fun strcasecmp :: "cstr \<Rightarrow> cstr \<Rightarrow> int" where
  "strcasecmp [] [] = 0"
| "strcasecmp [] (d # b) = - 1"
| "strcasecmp (c # a) [] = 1"
| "strcasecmp (c # a) (d # b) =
     (if apr_tolower c = apr_tolower d then strcasecmp a b
      else int (chr_code (apr_tolower c)) - int (chr_code (apr_tolower d)))"

definition TABLE_INDEX_IS_INITIALIZED :: "apr_table \<Rightarrow> nat \<Rightarrow> bool" where
  "TABLE_INDEX_IS_INITIALIZED t i \<longleftrightarrow> bit (t_initialized t) i"

definition TABLE_SET_INDEX_INITIALIZED :: "nat \<Rightarrow> apr_table \<Rightarrow> apr_table" where
  "TABLE_SET_INDEX_INITIALIZED i t = t\<lparr>t_initialized := t_initialized t OR push_bit i 1\<rparr>"

definition entry_matches :: "cstr \<Rightarrow> 32 word \<Rightarrow> table_entry \<Rightarrow> bool" where
  "entry_matches key checksum e \<longleftrightarrow> checksum = te_checksum e
     \<and> (case te_key e of None \<Rightarrow> False | Some k \<Rightarrow> strcasecmp k key = 0)"

section \<open>The operations\<close>

definition apr_table_make :: "nat list \<Rightarrow> nat list \<Rightarrow> nat \<Rightarrow> apr_table" where
  "apr_table_make first0 last0 nelts =
     \<lparr>t_elts = [], t_nalloc = (if nelts < 1 then 1 else nelts), t_initialized = 0,
      t_first = first0, t_last = last0\<rparr>"

definition apr_is_empty_table :: "apr_table \<Rightarrow> bool" where
  "apr_is_empty_table t \<longleftrightarrow> t_elts t = []"

definition table_push :: "table_entry \<Rightarrow> apr_table \<Rightarrow> apr_table" where
  "table_push e t =
     t\<lparr>t_elts := t_elts t @ [e],
       t_nalloc := if length (t_elts t) = t_nalloc t
                   then (if t_nalloc t \<le> 0 then 1 else t_nalloc t * 2) else t_nalloc t\<rparr>"

definition apr_table_clear :: "apr_table \<Rightarrow> apr_table" where
  "apr_table_clear t = t\<lparr>t_elts := [], t_initialized := 0\<rparr>"

definition apr_table_copy :: "apr_table \<Rightarrow> apr_table" where
  "apr_table_copy t =
     \<lparr>t_elts = t_elts t, t_nalloc = (if t_nalloc t < 1 then 1 else t_nalloc t),
      t_initialized = t_initialized t, t_first = t_first t, t_last = t_last t\<rparr>"

text \<open>table_reindex: each entry moves the last index of its slot, and sets the first one once.\<close>

definition index_entry :: "nat \<Rightarrow> cstr \<Rightarrow> apr_table \<Rightarrow> apr_table" where
  "index_entry i key t =
     (let hash = TABLE_HASH key;
          t = t\<lparr>t_last := (t_last t)[hash := i]\<rparr>
      in if \<not> TABLE_INDEX_IS_INITIALIZED t hash
         then TABLE_SET_INDEX_INITIALIZED hash (t\<lparr>t_first := (t_first t)[hash := i]\<rparr>) else t)"

fun reindex_loop :: "nat \<Rightarrow> table_entry list \<Rightarrow> apr_table \<Rightarrow> apr_table" where
  "reindex_loop i [] t = t"
| "reindex_loop i (e # es) t =
     reindex_loop (i + 1) es (case te_key e of None \<Rightarrow> t | Some key \<Rightarrow> index_entry i key t)"

definition table_reindex :: "apr_table \<Rightarrow> apr_table" where
  "table_reindex t = reindex_loop 0 (t_elts t) (t\<lparr>t_initialized := 0\<rparr>)"

text \<open>The walk over the entries from the first to the last one of a slot, up to a match.\<close>

function table_scan :: "table_entry list \<Rightarrow> cstr \<Rightarrow> 32 word \<Rightarrow> nat \<Rightarrow> nat \<Rightarrow> nat option" where
  "table_scan elts key checksum next end_elt =
     (if next \<le> end_elt
      then if entry_matches key checksum (elts ! next) then Some next
           else table_scan elts key checksum (next + 1) end_elt
      else None)"
  by pat_completeness auto
termination by (relation "measure (\<lambda>(elts, key, checksum, next, end_elt). Suc end_elt - next)") auto

declare table_scan.simps [simp del]

definition table_find :: "apr_table \<Rightarrow> cstr \<Rightarrow> nat option" where
  "table_find t key =
     (let hash = TABLE_HASH key
      in if \<not> TABLE_INDEX_IS_INITIALIZED t hash then None
         else table_scan (t_elts t) key (COMPUTE_KEY_CHECKSUM key) (t_first t ! hash) (t_last t ! hash))"

definition apr_table_get :: "apr_table \<Rightarrow> cstr option \<Rightarrow> cstr option" where
  "apr_table_get t key =
     (case key of None \<Rightarrow> None
      | Some key \<Rightarrow> (case table_find t key of None \<Rightarrow> None | Some i \<Rightarrow> Some (te_val (t_elts t ! i))))"

text \<open>The part of set and merge that adds an entry; the first index is set when the slot was empty.\<close>

definition add_new_elt :: "cstr \<Rightarrow> cstr \<Rightarrow> apr_table \<Rightarrow> apr_table" where
  "add_new_elt key val t =
     (let hash = TABLE_HASH key; n = length (t_elts t);
          t = (if \<not> TABLE_INDEX_IS_INITIALIZED t hash
               then TABLE_SET_INDEX_INITIALIZED hash (t\<lparr>t_first := (t_first t)[hash := n]\<rparr>) else t);
          t = t\<lparr>t_last := (t_last t)[hash := n]\<rparr>
      in table_push \<lparr>te_key = Some key, te_val = val, te_checksum = COMPUTE_KEY_CHECKSUM key\<rparr> t)"

text \<open>
  Removing the other instances of a key: the array, the place of the next
  entry to keep (None before the first removal), the number of entries left.
\<close>

function remove_matches :: "cstr \<Rightarrow> 32 word \<Rightarrow> nat \<Rightarrow> nat \<Rightarrow> table_entry list \<times> nat option \<times> nat
    \<Rightarrow> table_entry list \<times> nat option \<times> nat" where
  "remove_matches key checksum next end_elt st =
     (if next \<le> end_elt then
        remove_matches key checksum (next + 1) end_elt
          (case st of (elts, dst_elt, nelts) \<Rightarrow>
             if entry_matches key checksum (elts ! next)
             then (elts, (case dst_elt of None \<Rightarrow> Some next | Some d \<Rightarrow> Some d), nelts - 1)
             else (case dst_elt of None \<Rightarrow> (elts, None, nelts)
                   | Some d \<Rightarrow> (elts[d := elts ! next], Some (d + 1), nelts)))
      else st)"
  by pat_completeness auto
termination by (relation "measure (\<lambda>(key, checksum, next, end_elt, st). Suc end_elt - next)") auto

declare remove_matches.simps [simp del]

text \<open>Shifting over the remainder of the table.\<close>

function shift_down :: "nat \<Rightarrow> nat \<Rightarrow> nat \<Rightarrow> table_entry list \<Rightarrow> table_entry list" where
  "shift_down dst_elt next table_end elts =
     (if next < table_end
      then shift_down (dst_elt + 1) (next + 1) table_end (elts[dst_elt := elts ! next]) else elts)"
  by pat_completeness auto
termination by (relation "measure (\<lambda>(dst_elt, next, table_end, elts). table_end - next)") auto

declare shift_down.simps [simp del]

definition apr_table_set :: "cstr \<Rightarrow> cstr \<Rightarrow> apr_table \<Rightarrow> apr_table" where
  "apr_table_set key val t =
     (case table_find t key of
        None \<Rightarrow> add_new_elt key val t
      | Some i \<Rightarrow>
          let table_end = length (t_elts t); end_elt = t_last t ! TABLE_HASH key;
              elts = (t_elts t)[i := (t_elts t ! i)\<lparr>te_val := val\<rparr>]
          in (case remove_matches key (COMPUTE_KEY_CHECKSUM key) (i + 1) end_elt (elts, None, table_end) of
                (elts, None, nelts) \<Rightarrow> t\<lparr>t_elts := elts\<rparr>
              | (elts, Some d, nelts) \<Rightarrow>
                  table_reindex (t\<lparr>t_elts := take nelts (shift_down d (max (i + 1) (end_elt + 1)) table_end elts)\<rparr>)))"

definition apr_table_setn :: "cstr \<Rightarrow> cstr \<Rightarrow> apr_table \<Rightarrow> apr_table" where
  "apr_table_setn key val t = apr_table_set key val t"

definition apr_table_unset :: "cstr \<Rightarrow> apr_table \<Rightarrow> apr_table" where
  "apr_table_unset key t =
     (case table_find t key of
        None \<Rightarrow> t
      | Some i \<Rightarrow>
          let table_end = length (t_elts t); end_elt = t_last t ! TABLE_HASH key
          in (case remove_matches key (COMPUTE_KEY_CHECKSUM key) (i + 1) end_elt (t_elts t, Some i, table_end - 1) of
                (elts, None, nelts) \<Rightarrow> t
              | (elts, Some d, nelts) \<Rightarrow>
                  table_reindex (t\<lparr>t_elts := take nelts (shift_down d (max (i + 1) (end_elt + 1)) table_end elts)\<rparr>)))"

definition apr_table_merge :: "cstr \<Rightarrow> cstr \<Rightarrow> apr_table \<Rightarrow> apr_table" where
  "apr_table_merge key val t =
     (case table_find t key of
        None \<Rightarrow> add_new_elt key val t
      | Some i \<Rightarrow> t\<lparr>t_elts := (t_elts t)[i := (t_elts t ! i)\<lparr>te_val := te_val (t_elts t ! i) @ '', '' @ val\<rparr>]\<rparr>)"

definition apr_table_mergen :: "cstr \<Rightarrow> cstr \<Rightarrow> apr_table \<Rightarrow> apr_table" where
  "apr_table_mergen key val t = apr_table_merge key val t"

definition apr_table_add :: "cstr \<Rightarrow> cstr \<Rightarrow> apr_table \<Rightarrow> apr_table" where
  "apr_table_add key val t =
     table_push \<lparr>te_key = Some key, te_val = val, te_checksum = COMPUTE_KEY_CHECKSUM key\<rparr>
       (index_entry (length (t_elts t)) key t)"

definition apr_table_addn :: "cstr \<Rightarrow> cstr \<Rightarrow> apr_table \<Rightarrow> apr_table" where
  "apr_table_addn key val t = apr_table_add key val t"

fun clone_loop :: "table_entry list \<Rightarrow> apr_table \<Rightarrow> apr_table" where
  "clone_loop [] t = t"
| "clone_loop (e # es) t =
     clone_loop es (case te_key e of None \<Rightarrow> t | Some key \<Rightarrow> apr_table_add key (te_val e) t)"

definition apr_table_clone :: "nat list \<Rightarrow> nat list \<Rightarrow> apr_table \<Rightarrow> apr_table" where
  "apr_table_clone first0 last0 t =
     clone_loop (t_elts t) (apr_table_make first0 last0 (length (t_elts t)))"

section \<open>Walking, sorting and joining tables\<close>

text \<open>
  apr_table_vdo: callback gets the state of its caller (rec) and returns it with
  whether to go on. A walk for a key stops at that key only.
\<close>

function vdo_key_loop :: "('r \<Rightarrow> cstr \<Rightarrow> cstr \<Rightarrow> bool \<times> 'r) \<Rightarrow> table_entry list \<Rightarrow> cstr \<Rightarrow> nat \<Rightarrow> nat \<Rightarrow> bool \<times> 'r
    \<Rightarrow> bool \<times> 'r" where
  "vdo_key_loop callback elts argp i end_elt st =
     (case st of (rv, r) \<Rightarrow>
        if rv \<and> i \<le> end_elt
        then vdo_key_loop callback elts argp (i + 1) end_elt
               (case te_key (elts ! i) of
                  None \<Rightarrow> (rv, r)
                | Some k \<Rightarrow> if COMPUTE_KEY_CHECKSUM argp = te_checksum (elts ! i) \<and> strcasecmp k argp = 0
                            then callback r k (te_val (elts ! i)) else (rv, r))
        else (rv, r))"
  by pat_completeness auto
termination by (relation "measure (\<lambda>(callback, elts, argp, i, end_elt, st). Suc end_elt - i)") auto

declare vdo_key_loop.simps [simp del]

fun vdo_all_loop :: "('r \<Rightarrow> cstr \<Rightarrow> cstr \<Rightarrow> bool \<times> 'r) \<Rightarrow> table_entry list \<Rightarrow> bool \<times> 'r \<Rightarrow> bool \<times> 'r" where
  "vdo_all_loop callback [] st = st"
| "vdo_all_loop callback (e # es) (rv, r) =
     (if rv
      then vdo_all_loop callback es (case te_key e of None \<Rightarrow> (rv, r) | Some k \<Rightarrow> callback r k (te_val e))
      else (rv, r))"

definition vdo_key :: "('r \<Rightarrow> cstr \<Rightarrow> cstr \<Rightarrow> bool \<times> 'r) \<Rightarrow> apr_table \<Rightarrow> cstr \<Rightarrow> 'r \<Rightarrow> bool \<times> 'r" where
  "vdo_key callback t argp r =
     (let hash = TABLE_HASH argp
      in if TABLE_INDEX_IS_INITIALIZED t hash
         then vdo_key_loop callback (t_elts t) argp (t_first t ! hash) (t_last t ! hash) (True, r) else (True, r))"

fun vdo_keys :: "('r \<Rightarrow> cstr \<Rightarrow> cstr \<Rightarrow> bool \<times> 'r) \<Rightarrow> apr_table \<Rightarrow> cstr list \<Rightarrow> bool \<times> 'r \<Rightarrow> bool \<times> 'r" where
  "vdo_keys callback t [] st = st"
| "vdo_keys callback t (argp # args) (vdorv, r) =
     (case vdo_key callback t argp r of (rv, r) \<Rightarrow> vdo_keys callback t args (vdorv \<and> rv, r))"

definition apr_table_vdo :: "('r \<Rightarrow> cstr \<Rightarrow> cstr \<Rightarrow> bool \<times> 'r) \<Rightarrow> 'r \<Rightarrow> apr_table \<Rightarrow> cstr list \<Rightarrow> bool \<times> 'r" where
  "apr_table_vdo callback r t vp =
     (if vp = [] then vdo_all_loop callback (t_elts t) (True, r) else vdo_keys callback t vp (True, r))"

text \<open>table_mergesort, on any elements that carry a key.\<close>

fun sort_pairs :: "('e \<Rightarrow> cstr) \<Rightarrow> 'e list \<Rightarrow> 'e list" where
  "sort_pairs key (a # b # vs) =
     (if strcasecmp (key a) (key b) > 0 then b # a # sort_pairs key vs else a # b # sort_pairs key vs)"
| "sort_pairs key vs = vs"

fun merge_blocks :: "('e \<Rightarrow> cstr) \<Rightarrow> 'e list \<Rightarrow> 'e list \<Rightarrow> 'e list" where
  "merge_blocks key [] block2 = block2"
| "merge_blocks key block1 [] = block1"
| "merge_blocks key (a # block1) (b # block2) =
     (if strcasecmp (key a) (key b) > 0 then b # merge_blocks key (a # block1) block2
      else a # merge_blocks key block1 (b # block2))"

text \<open>One pass over the array, two blocks at a time; what is left over is copied.\<close>

function merge_pass :: "('e \<Rightarrow> cstr) \<Rightarrow> nat \<Rightarrow> 'e list \<Rightarrow> 'e list" where
  "merge_pass key blocksize vs =
     (if 0 < blocksize \<and> blocksize < length vs
      then merge_blocks key (take blocksize vs) (take blocksize (drop blocksize vs))
           @ merge_pass key blocksize (drop (blocksize + blocksize) vs)
      else vs)"
  by pat_completeness auto
termination by (relation "measure (\<lambda>(key, blocksize, vs). length vs)") auto

declare merge_pass.simps [simp del]

function merge_passes :: "('e \<Rightarrow> cstr) \<Rightarrow> nat \<Rightarrow> 'e list \<Rightarrow> 'e list" where
  "merge_passes key blocksize vs =
     (if 0 < blocksize \<and> blocksize < length vs
      then merge_passes key (blocksize + blocksize) (merge_pass key blocksize vs) else vs)"
  by pat_completeness auto

lemma length_merge_blocks [simp]: "length (merge_blocks key xs ys) = length xs + length ys"
  by (induction key xs ys rule: merge_blocks.induct) auto

lemma length_merge_pass [simp]: "length (merge_pass key b vs) = length vs"
proof (induction key b vs rule: merge_pass.induct)
  case (1 key b vs)
  then show ?case by (subst merge_pass.simps) auto
qed

termination merge_passes
  by (relation "measure (\<lambda>(key, blocksize, vs). length vs - blocksize)") auto

declare merge_passes.simps [simp del]

definition table_mergesort :: "('e \<Rightarrow> cstr) \<Rightarrow> 'e list \<Rightarrow> 'e list" where
  "table_mergesort key vs = merge_passes key 2 (sort_pairs key vs)"

datatype overlap_flag = APR_OVERLAP_TABLES_SET | APR_OVERLAP_TABLES_MERGE

text \<open>
  The duplicates of a key are next to each other in the sorted array of
  pointers (indices). The first one gets the joined or the last value, the
  others lose their key.
\<close>

definition entry_key :: "table_entry list \<Rightarrow> nat \<Rightarrow> cstr" where
  "entry_key elts i = (case te_key (elts ! i) of None \<Rightarrow> [] | Some k \<Rightarrow> k)"

definition same_entry_key :: "table_entry list \<Rightarrow> nat \<Rightarrow> nat \<Rightarrow> bool" where
  "same_entry_key elts i j \<longleftrightarrow> te_checksum (elts ! i) = te_checksum (elts ! j)
     \<and> strcasecmp (entry_key elts i) (entry_key elts j) = 0"

fun join_values :: "cstr list \<Rightarrow> cstr" where
  "join_values [] = []"
| "join_values [v] = v"
| "join_values (v # w # vs) = v @ '', '' @ join_values (w # vs)"

fun drop_keys :: "nat list \<Rightarrow> table_entry list \<Rightarrow> table_entry list" where
  "drop_keys [] elts = elts"
| "drop_keys (i # rest) elts = drop_keys rest (elts[i := (elts ! i)\<lparr>te_key := None\<rparr>])"

function compress_loop :: "overlap_flag \<Rightarrow> nat \<Rightarrow> nat list \<Rightarrow> bool \<Rightarrow> table_entry list \<Rightarrow> bool \<times> table_entry list" where
  "compress_loop flags last_elt [] dups_found elts = (dups_found, elts)"
| "compress_loop flags last_elt (n # ns) dups_found elts =
     (if same_entry_key elts n last_elt
      then let dups = n # takeWhile (\<lambda>d. same_entry_key elts d last_elt) ns;
               val = (if flags = APR_OVERLAP_TABLES_MERGE
                      then join_values (map (\<lambda>i. te_val (elts ! i)) (last_elt # dups))
                      else te_val (elts ! last dups));
               elts' = drop_keys dups (elts[last_elt := (elts ! last_elt)\<lparr>te_val := val\<rparr>])
           in compress_loop flags last_elt (dropWhile (\<lambda>d. same_entry_key elts d last_elt) ns) True elts'
      else compress_loop flags n ns dups_found elts)"
  by pat_completeness auto
termination by (relation "measure (\<lambda>(flags, last_elt, ns, dups_found, elts). length ns)")
  (auto simp: less_Suc_eq_le length_dropWhile_le)

definition apr_table_compress :: "overlap_flag \<Rightarrow> apr_table \<Rightarrow> apr_table" where
  "apr_table_compress flags t =
     (if length (t_elts t) \<le> 1 then t
      else
        let elts = t_elts t;
            sort_array = table_mergesort (entry_key elts) [0..<length elts]
        in (case compress_loop flags (hd sort_array) (tl sort_array) False elts of (dups_found, elts) \<Rightarrow>
              table_reindex (t\<lparr>t_elts := if dups_found then filter (\<lambda>e. te_key e \<noteq> None) elts else elts\<rparr>)))"

text \<open>apr_array_cat: the size of the grown array.\<close>

function grown_size :: "nat \<Rightarrow> nat \<Rightarrow> nat" where
  "grown_size need new_size =
     (if 0 < new_size \<and> need > new_size then grown_size need (new_size * 2) else new_size)"
  by pat_completeness auto
termination by (relation "measure (\<lambda>(need, new_size). need - new_size)") auto

declare grown_size.simps [simp del]

definition array_cat_nalloc :: "nat \<Rightarrow> nat \<Rightarrow> nat \<Rightarrow> nat" where
  "array_cat_nalloc nalloc nelts extra =
     (if nelts + extra > nalloc then grown_size (nelts + extra) (if nalloc \<le> 0 then 1 else nalloc * 2)
      else nalloc)"

definition apr_table_cat :: "apr_table \<Rightarrow> apr_table \<Rightarrow> apr_table" where
  "apr_table_cat t s =
     (let n = length (t_elts t);
          t' = t\<lparr>t_elts := t_elts t @ t_elts s,
                 t_nalloc := array_cat_nalloc (t_nalloc t) n (length (t_elts s))\<rparr>
      in if n = 0
         then t'\<lparr>t_first := t_first s, t_last := t_last s, t_initialized := t_initialized s\<rparr>
         else t'\<lparr>t_last := map (\<lambda>idx. if TABLE_INDEX_IS_INITIALIZED s idx then t_last s ! idx + n else t_last t ! idx)
                             [0..<TABLE_HASH_SIZE],
                 t_first := map (\<lambda>idx. if TABLE_INDEX_IS_INITIALIZED s idx \<and> \<not> TABLE_INDEX_IS_INITIALIZED t idx
                                       then t_first s ! idx + n else t_first t ! idx) [0..<TABLE_HASH_SIZE],
                 t_initialized := t_initialized t OR t_initialized s\<rparr>)"

definition apr_table_overlap :: "apr_table \<Rightarrow> apr_table \<Rightarrow> overlap_flag \<Rightarrow> apr_table" where
  "apr_table_overlap a b flags =
     (if length (t_elts a) + length (t_elts b) = 0 then a
      else apr_table_compress flags (apr_table_cat a b))"

definition apr_table_overlay :: "nat list \<Rightarrow> nat list \<Rightarrow> apr_table \<Rightarrow> apr_table \<Rightarrow> apr_table" where
  "apr_table_overlay first0 last0 overlay base =
     table_reindex
       \<lparr>t_elts = t_elts overlay @ t_elts base,
        t_nalloc = array_cat_nalloc (length (t_elts overlay)) (length (t_elts overlay)) (length (t_elts base)),
        t_initialized = 0, t_first = first0, t_last = last0\<rparr>"

section \<open>Keys compare without regard to case\<close>

text \<open>
  A field name is a string in lower case; fold_name is the name of a key. Two
  keys are the same exactly when they have the same name, and strcasecmp
  orders keys like their names.
\<close>

typedef field_name = "{s :: cstr. map apr_tolower s = s}"
  by (rule exI [of _ "[]"]) simp

setup_lifting type_definition_field_name

lift_definition fold_name :: "cstr \<Rightarrow> field_name" is "map apr_tolower"
  by simp

lift_definition name_text :: "field_name \<Rightarrow> cstr" is "\<lambda>s. s" .

lemma fold_name_text [simp]: "fold_name (name_text k) = k"
  by transfer simp

lemma fold_name_eq_iff: "fold_name a = fold_name b \<longleftrightarrow> map apr_tolower a = map apr_tolower b"
  by transfer simp

instantiation field_name :: linorder
begin

lift_definition less_eq_field_name :: "field_name \<Rightarrow> field_name \<Rightarrow> bool" is "\<lambda>a b. a \<le> b" .

lift_definition less_field_name :: "field_name \<Rightarrow> field_name \<Rightarrow> bool" is "\<lambda>a b. a < b" .

instance
  by standard (transfer, auto)+

end

lemma strcasecmp_eq_0: "strcasecmp a b = 0 \<longleftrightarrow> fold_name a = fold_name b"
  unfolding fold_name_eq_iff by (induction a b rule: strcasecmp.induct) auto

lemma strcasecmp_pos: "0 < strcasecmp a b \<longleftrightarrow> fold_name b < fold_name a"
  unfolding less_field_name.rep_eq fold_name.rep_eq
  by (induction a b rule: strcasecmp.induct) (auto simp: less_char_def)

lemma strcasecmp_refl [simp]: "strcasecmp a a = 0"
  by (simp add: strcasecmp_eq_0)

subsection \<open>The checksum and the hash of a key depend on its name only\<close>

definition mask_eq :: "32 word \<Rightarrow> 32 word \<Rightarrow> bool" where
  "mask_eq x y \<longleftrightarrow> x AND CASE_MASK = y AND CASE_MASK"

lemma mask_eq_bits: "mask_eq x y \<longleftrightarrow> (\<forall>n < 32. bit CASE_MASK n \<longrightarrow> bit x n = bit y n)"
  unfolding mask_eq_def by (auto simp: bit_eq_iff bit_simps)

lemma CASE_MASK_shift:
  assumes "8 \<le> n" "n < 32" "bit CASE_MASK n"
  shows "bit CASE_MASK (n - 8)"
proof -
  have "drop_bit 8 CASE_MASK OR CASE_MASK = CASE_MASK"
    unfolding CASE_MASK_def by simp
  moreover have "bit (drop_bit 8 CASE_MASK OR CASE_MASK) (n - 8)"
    using assms by (simp add: bit_simps)
  ultimately show ?thesis by simp
qed

lemma mask_eq_push: "mask_eq x y \<Longrightarrow> mask_eq (push_bit 8 x) (push_bit 8 y)"
  unfolding mask_eq_bits by (auto simp: bit_simps dest: CASE_MASK_shift)

lemma mask_eq_or: "mask_eq a b \<Longrightarrow> mask_eq x y \<Longrightarrow> mask_eq (a OR x) (b OR y)"
  unfolding mask_eq_bits by (auto simp: bit_simps)

lemma apr_tolower_code:
  "apr_isupper c \<Longrightarrow> chr_code (apr_tolower c) = chr_code c + 32"
  by (auto simp: apr_tolower_def apr_isupper_def)

lemma upper_cases:
  assumes "\<And>n. 65 \<le> n \<Longrightarrow> n \<le> 90 \<Longrightarrow> P n (n + 32)" and "\<And>n. P n n"
  shows "P (chr_code c) (chr_code (apr_tolower c))"
proof (cases "apr_isupper c")
  case True
  then show ?thesis using assms(1) by (simp add: apr_tolower_code) (simp add: apr_isupper_def)
next
  case False
  then show ?thesis using assms(2) by (simp add: apr_tolower_def)
qed

lemma scast_ascii:
  assumes "n < 128"
  shows "(scast (of_nat n :: 8 word) :: 32 word) = of_nat n"
proof -
  have "signed_take_bit 7 (int n) = int n" using assms by (intro signed_take_bit_int_eq_self) auto
  then show ?thesis by (simp add: signed_of_nat)
qed

lemma upper_enum:
  fixes n :: nat
  assumes "65 \<le> n" "n \<le> 90"
  shows "n \<in> set [65, 66, 67, 68, 69, 70, 71, 72, 73, 74, 75, 76, 77, 78, 79, 80, 81, 82, 83, 84, 85, 86, 87, 88, 89, 90]"
proof -
  have "n \<in> set [65..<91]" unfolding set_upt atLeastLessThan_iff using assms by simp
  moreover have "[65..<91] = [65, 66, 67, 68, 69, 70, 71, 72, 73, 74, 75, 76, 77, 78, 79, 80, 81, 82, 83, 84, 85,
      86, 87, 88, 89, 90 :: nat]"
    by simp
  ultimately show ?thesis by metis
qed

lemma mask_eq_upper: "65 \<le> n \<Longrightarrow> n \<le> 90 \<Longrightarrow> mask_eq (of_nat n) (of_nat (n + 32))"
  by (drule (1) upper_enum) (auto simp: mask_eq_def CASE_MASK_def)

lemma char_u32_lower: "mask_eq (char_u32 c) (char_u32 (apr_tolower c))"
proof -
  have "mask_eq (scast (of_nat (chr_code c) :: 8 word)) (scast (of_nat (chr_code (apr_tolower c)) :: 8 word))"
    by (rule upper_cases [where P = "\<lambda>m n. mask_eq (scast (of_nat m :: 8 word)) (scast (of_nat n :: 8 word))"])
      (simp add: scast_ascii mask_eq_upper del: of_nat_add, simp add: mask_eq_def)
  then show ?thesis unfolding char_u32_def .
qed

lemma char_u32_zero: "char_u32 c = 0 \<longleftrightarrow> char_u32 (apr_tolower c) = 0"
proof -
  have zero: "(of_nat n :: 32 word) \<noteq> 0" if "65 \<le> n" "n \<le> 122" for n
  proof
    assume "(of_nat n :: 32 word) = 0"
    then have "unat (of_nat n :: 32 word) = 0" by (simp only: unat_0)
    then show False using that by (simp add: unat_of_nat)
  qed
  have "(scast (of_nat (chr_code c) :: 8 word) = (0 :: 32 word))
      = (scast (of_nat (chr_code (apr_tolower c)) :: 8 word) = (0 :: 32 word))"
    by (rule upper_cases [where P = "\<lambda>m n. (scast (of_nat m :: 8 word) = (0 :: 32 word))
        = (scast (of_nat n :: 8 word) = (0 :: 32 word))"]) (simp add: scast_ascii zero del: of_nat_add, rule refl)
  then show ?thesis unfolding char_u32_def .
qed

lemma low_five: "0x1f AND n = n mod 32" for n :: nat
  using take_bit_eq_mask [of 5 n] by (simp add: take_bit_eq_mod mask_eq_exp_minus_1 and.commute)

lemma hash_lower: "0x1f AND chr_code c = 0x1f AND chr_code (apr_tolower c)"
  by (rule upper_cases [where P = "\<lambda>m n. 0x1f AND m = 0x1f AND n"]) (simp_all only: low_five mod_add_self2)

lemma key_byte_fold: "fold_name a = fold_name b \<Longrightarrow> apr_tolower (key_byte a i) = apr_tolower (key_byte b i)"
proof -
  assume "fold_name a = fold_name b"
  then have e: "map apr_tolower a = map apr_tolower b" by (simp only: fold_name_eq_iff)
  then have l: "length a = length b" by (rule map_eq_imp_length_eq)
  show ?thesis
  proof (cases "i < length a")
    case True
    then show ?thesis using l e nth_map [of i a apr_tolower] nth_map [of i b apr_tolower]
      by (simp add: key_byte_def)
  qed (simp add: key_byte_def l)
qed

lemma TABLE_HASH_fold: "fold_name a = fold_name b \<Longrightarrow> TABLE_HASH a = TABLE_HASH b"
  unfolding TABLE_HASH_def by (metis hash_lower key_byte_fold)

lemma mask_eq_sym_trans: "mask_eq x z \<Longrightarrow> mask_eq y z \<Longrightarrow> mask_eq x y"
  by (simp add: mask_eq_def)

lemma char_u32_fold:
  "fold_name a = fold_name b \<Longrightarrow> mask_eq (char_u32 (key_byte a i)) (char_u32 (key_byte b i))"
  "fold_name a = fold_name b \<Longrightarrow> char_u32 (key_byte a i) = 0 \<longleftrightarrow> char_u32 (key_byte b i) = 0"
  by (metis char_u32_lower key_byte_fold mask_eq_sym_trans) (metis char_u32_zero key_byte_fold)

lemma checksum_byte_fold:
  assumes "fold_name a = fold_name b" "mask_eq (snd x) (snd y)" "fst x = 0 \<longleftrightarrow> fst y = 0"
  shows "mask_eq (snd (checksum_byte a i x)) (snd (checksum_byte b i y))"
    and "fst (checksum_byte a i x) = 0 \<longleftrightarrow> fst (checksum_byte b i y) = 0"
  using assms char_u32_fold [OF assms(1), of i]
  by (auto simp: checksum_byte_def Let_def mask_eq_push mask_eq_or split: prod.splits)

lemma COMPUTE_KEY_CHECKSUM_fold:
  assumes "fold_name a = fold_name b"
  shows "COMPUTE_KEY_CHECKSUM a = COMPUTE_KEY_CHECKSUM b"
proof -
  have "mask_eq (snd (checksum_byte a 3 (checksum_byte a 2 (checksum_byte a 1 (char_u32 (key_byte a 0), char_u32 (key_byte a 0))))))
      (snd (checksum_byte b 3 (checksum_byte b 2 (checksum_byte b 1 (char_u32 (key_byte b 0), char_u32 (key_byte b 0))))))"
    by (intro checksum_byte_fold assms) (simp_all add: char_u32_fold [OF assms])
  then show ?thesis unfolding COMPUTE_KEY_CHECKSUM_def Let_def mask_eq_def .
qed

lemma TABLE_HASH_bound [simp]: "TABLE_HASH key < TABLE_HASH_SIZE"
  unfolding TABLE_HASH_def TABLE_HASH_SIZE_def low_five by simp

section \<open>Tables as association lists\<close>

type_synonym fields = "(cstr \<times> cstr) list"

definition same_name :: "cstr \<Rightarrow> cstr \<times> cstr \<Rightarrow> bool" where
  "same_name key kv \<longleftrightarrow> fold_name (fst kv) = fold_name key"

definition al_get :: "cstr \<Rightarrow> fields \<Rightarrow> cstr option" where
  "al_get key al = map_option snd (List.find (same_name key) al)"

text \<open>Setting a field replaces the value of its first occurrence and removes the others.\<close>

fun al_set :: "cstr \<Rightarrow> cstr \<Rightarrow> fields \<Rightarrow> fields" where
  "al_set key val [] = [(key, val)]"
| "al_set key val (kv # al) =
     (if same_name key kv then (fst kv, val) # filter (\<lambda>kv. \<not> same_name key kv) al
      else kv # al_set key val al)"

definition al_unset :: "cstr \<Rightarrow> fields \<Rightarrow> fields" where
  "al_unset key al = filter (\<lambda>kv. \<not> same_name key kv) al"

fun al_merge :: "cstr \<Rightarrow> cstr \<Rightarrow> fields \<Rightarrow> fields" where
  "al_merge key val [] = [(key, val)]"
| "al_merge key val (kv # al) =
     (if same_name key kv then (fst kv, snd kv @ '', '' @ val) # al else kv # al_merge key val al)"

definition entry_pair :: "table_entry \<Rightarrow> cstr \<times> cstr" where
  "entry_pair e = (case te_key e of None \<Rightarrow> [] | Some k \<Rightarrow> k, te_val e)"

definition table_fields :: "apr_table \<Rightarrow> fields" where
  "table_fields t = map entry_pair (t_elts t)"

lemma snd_entry_pair [simp]: "snd (entry_pair e) = te_val e"
  by (simp add: entry_pair_def)

lemma al_split:
  assumes "\<forall>kv \<in> set xs. \<not> same_name key kv" and "same_name key kv"
  shows "al_set key val (xs @ kv # ys) = xs @ (fst kv, val) # filter (\<lambda>kv. \<not> same_name key kv) ys"
    and "al_merge key val (xs @ kv # ys) = xs @ (fst kv, snd kv @ '', '' @ val) # ys"
    and "al_unset key (xs @ kv # ys) = xs @ filter (\<lambda>kv. \<not> same_name key kv) ys"
    and "al_get key (xs @ kv # ys) = Some (snd kv)"
  using assms by (induction xs) (auto simp: al_unset_def al_get_def)

lemma al_absent:
  assumes "\<forall>kv \<in> set xs. \<not> same_name key kv"
  shows "al_set key val xs = xs @ [(key, val)]" "al_merge key val xs = xs @ [(key, val)]"
    "al_unset key xs = xs" "al_get key xs = None"
  using assms by (induction xs) (auto simp: al_unset_def al_get_def)

section \<open>The index\<close>

definition entry_ok :: "table_entry \<Rightarrow> bool" where
  "entry_ok e \<longleftrightarrow> (case te_key e of None \<Rightarrow> False | Some k \<Rightarrow> te_checksum e = COMPUTE_KEY_CHECKSUM k)"

definition entry_hash :: "table_entry \<Rightarrow> nat" where
  "entry_hash e = TABLE_HASH (fst (entry_pair e))"

text \<open>The bit of a slot is set if some entry has its hash; then the indices delimit these entries.\<close>

definition slot_ok :: "nat list \<Rightarrow> apr_table \<Rightarrow> nat \<Rightarrow> bool" where
  "slot_ok hs t h \<longleftrightarrow>
     (if TABLE_INDEX_IS_INITIALIZED t h
      then t_first t ! h < length hs \<and> hs ! (t_first t ! h) = h
        \<and> t_last t ! h < length hs \<and> hs ! (t_last t ! h) = h
        \<and> (\<forall>i < length hs. hs ! i = h \<longrightarrow> t_first t ! h \<le> i \<and> i \<le> t_last t ! h)
      else h \<notin> set hs)"

definition index_ok :: "nat list \<Rightarrow> apr_table \<Rightarrow> bool" where
  "index_ok hs t \<longleftrightarrow> length (t_first t) = TABLE_HASH_SIZE \<and> length (t_last t) = TABLE_HASH_SIZE
     \<and> (\<forall>h < TABLE_HASH_SIZE. slot_ok hs t h)"

definition table_ok :: "apr_table \<Rightarrow> bool" where
  "table_ok t \<longleftrightarrow> (\<forall>e \<in> set (t_elts t). entry_ok e) \<and> index_ok (map entry_hash (t_elts t)) t
     \<and> length (t_elts t) \<le> t_nalloc t"

lemma entry_okE:
  assumes "entry_ok e"
  obtains k where "te_key e = Some k" "te_checksum e = COMPUTE_KEY_CHECKSUM k" "fst (entry_pair e) = k"
  using assms by (auto simp: entry_ok_def entry_pair_def split: option.splits)

lemma entry_matches_iff:
  "entry_ok e \<Longrightarrow> entry_matches key (COMPUTE_KEY_CHECKSUM key) e \<longleftrightarrow> same_name key (entry_pair e)"
  by (elim entry_okE)
    (auto simp: entry_matches_def same_name_def strcasecmp_eq_0 dest: COMPUTE_KEY_CHECKSUM_fold)

lemma same_name_hash: "same_name key (entry_pair e) \<Longrightarrow> entry_hash e = TABLE_HASH key"
  unfolding same_name_def entry_hash_def by (rule TABLE_HASH_fold)

lemma bit_push_1: "h < 32 \<Longrightarrow> bit (push_bit i (1 :: 32 word)) h \<longleftrightarrow> h = i"
  by (auto simp: bit_simps bit_1_iff)

lemma INITIALIZED_set [simp]:
  assumes "h < TABLE_HASH_SIZE"
  shows "TABLE_INDEX_IS_INITIALIZED (TABLE_SET_INDEX_INITIALIZED i t) h
     \<longleftrightarrow> h = i \<or> TABLE_INDEX_IS_INITIALIZED t h"
proof -
  have "h < 32" using assms by (simp add: TABLE_HASH_SIZE_def)
  from bit_push_1 [OF this] show ?thesis
    by (simp add: TABLE_INDEX_IS_INITIALIZED_def TABLE_SET_INDEX_INITIALIZED_def bit_or_iff)
      (rule disj_commute)
qed

lemma INITIALIZED_simps [simp]:
  "TABLE_INDEX_IS_INITIALIZED (t\<lparr>t_first := f\<rparr>) h \<longleftrightarrow> TABLE_INDEX_IS_INITIALIZED t h"
  "TABLE_INDEX_IS_INITIALIZED (t\<lparr>t_last := f\<rparr>) h \<longleftrightarrow> TABLE_INDEX_IS_INITIALIZED t h"
  "TABLE_INDEX_IS_INITIALIZED (t\<lparr>t_elts := es\<rparr>) h \<longleftrightarrow> TABLE_INDEX_IS_INITIALIZED t h"
  "TABLE_INDEX_IS_INITIALIZED (t\<lparr>t_nalloc := n\<rparr>) h \<longleftrightarrow> TABLE_INDEX_IS_INITIALIZED t h"
  "\<not> TABLE_INDEX_IS_INITIALIZED (t\<lparr>t_initialized := 0\<rparr>) h"
  by (simp_all add: TABLE_INDEX_IS_INITIALIZED_def)

lemma SET_INDEX_fields [simp]:
  "t_elts (TABLE_SET_INDEX_INITIALIZED i t) = t_elts t"
  "t_nalloc (TABLE_SET_INDEX_INITIALIZED i t) = t_nalloc t"
  "t_first (TABLE_SET_INDEX_INITIALIZED i t) = t_first t"
  "t_last (TABLE_SET_INDEX_INITIALIZED i t) = t_last t"
  by (simp_all add: TABLE_SET_INDEX_INITIALIZED_def)

lemma index_entry_fields [simp]:
  "t_elts (index_entry i key t) = t_elts t" "t_nalloc (index_entry i key t) = t_nalloc t"
  by (simp_all add: index_entry_def Let_def)

lemma index_ok_cong:
  "t_first t = t_first u \<Longrightarrow> t_last t = t_last u \<Longrightarrow> t_initialized t = t_initialized u \<Longrightarrow>
     index_ok hs t \<longleftrightarrow> index_ok hs u"
  by (simp add: index_ok_def slot_ok_def TABLE_INDEX_IS_INITIALIZED_def)

lemma index_entry_slot_same:
  assumes "index_ok hs t"
  shows "slot_ok (hs @ [TABLE_HASH key]) (index_entry (length hs) key t) (TABLE_HASH key)"
proof -
  have "slot_ok hs t (TABLE_HASH key)" using assms by (simp add: index_ok_def)
  moreover have "i < length hs \<Longrightarrow> hs ! i \<noteq> TABLE_HASH key" if "TABLE_HASH key \<notin> set hs" for i
    using that nth_mem [of i hs] by metis
  moreover have "length (t_first t) = TABLE_HASH_SIZE" "length (t_last t) = TABLE_HASH_SIZE"
    using assms by (simp_all add: index_ok_def)
  ultimately show ?thesis
    by (auto simp: slot_ok_def index_entry_def Let_def nth_append less_Suc_eq split: if_splits)
qed

lemma index_entry_slot_other:
  assumes "index_ok hs t" "h < TABLE_HASH_SIZE" "h \<noteq> TABLE_HASH key"
  shows "slot_ok (hs @ [TABLE_HASH key]) (index_entry (length hs) key t) h"
proof -
  have "slot_ok hs t h" using assms by (simp add: index_ok_def)
  then show ?thesis using assms(2,3)
    by (auto simp: slot_ok_def index_entry_def Let_def nth_append less_Suc_eq split: if_splits)
qed

lemma index_entry_ok:
  assumes "index_ok hs t"
  shows "index_ok (hs @ [TABLE_HASH key]) (index_entry (length hs) key t)"
proof -
  have "slot_ok (hs @ [TABLE_HASH key]) (index_entry (length hs) key t) h" if "h < TABLE_HASH_SIZE" for h
    using index_entry_slot_same [OF assms, of key] index_entry_slot_other [OF assms that, of key] by metis
  moreover have "length (t_first (index_entry (length hs) key t)) = TABLE_HASH_SIZE"
      "length (t_last (index_entry (length hs) key t)) = TABLE_HASH_SIZE"
    using assms by (simp_all add: index_ok_def index_entry_def Let_def)
  ultimately show ?thesis unfolding index_ok_def by simp
qed

lemma reindex_loop_ok:
  assumes "index_ok hs t" "\<forall>e \<in> set es. entry_ok e"
  shows "index_ok (hs @ map entry_hash es) (reindex_loop (length hs) es t)"
    and "t_elts (reindex_loop (length hs) es t) = t_elts t"
    and "t_nalloc (reindex_loop (length hs) es t) = t_nalloc t"
proof -
  have "index_ok (hs @ map entry_hash es) (reindex_loop (length hs) es t)
      \<and> t_elts (reindex_loop (length hs) es t) = t_elts t \<and> t_nalloc (reindex_loop (length hs) es t) = t_nalloc t"
    using assms
  proof (induction es arbitrary: hs t)
    case (Cons e es)
    then obtain k where k: "te_key e = Some k" "entry_hash e = TABLE_HASH k"
      by (auto elim!: entry_okE simp: entry_hash_def)
    have "index_ok (hs @ [TABLE_HASH k]) (index_entry (length hs) k t)"
      by (rule index_entry_ok) (rule Cons.prems(1))
    from Cons.IH [OF this] Cons.prems(2) show ?case by (simp add: k)
  qed simp
  then show "index_ok (hs @ map entry_hash es) (reindex_loop (length hs) es t)"
    "t_elts (reindex_loop (length hs) es t) = t_elts t" "t_nalloc (reindex_loop (length hs) es t) = t_nalloc t"
    by simp_all
qed

lemma index_ok_empty:
  "length (t_first t) = TABLE_HASH_SIZE \<Longrightarrow> length (t_last t) = TABLE_HASH_SIZE \<Longrightarrow>
     index_ok [] (t\<lparr>t_initialized := 0\<rparr>)"
  by (simp add: index_ok_def slot_ok_def)

lemma table_reindex_ok:
  assumes "\<forall>e \<in> set (t_elts t). entry_ok e" "length (t_first t) = TABLE_HASH_SIZE"
    "length (t_last t) = TABLE_HASH_SIZE" "length (t_elts t) \<le> t_nalloc t"
  shows "table_ok (table_reindex t)" and "t_elts (table_reindex t) = t_elts t"
  using reindex_loop_ok [OF index_ok_empty [OF assms(2,3)] assms(1)] assms
  by (simp_all add: table_ok_def table_reindex_def)

lemma table_ok_lengths:
  "table_ok t \<Longrightarrow> length (t_first t) = TABLE_HASH_SIZE" "table_ok t \<Longrightarrow> length (t_last t) = TABLE_HASH_SIZE"
  by (simp_all add: table_ok_def index_ok_def)

section \<open>Looking up\<close>

lemma find_upt_Some:
  "List.find P [a..<b] = Some i \<longleftrightarrow> a \<le> i \<and> i < b \<and> P i \<and> (\<forall>j. a \<le> j \<and> j < i \<longrightarrow> \<not> P j)"
proof
  assume "List.find P [a..<b] = Some i"
  then obtain k where k: "k < b - a" "P (a + k)" "i = a + k" "\<forall>j < k. \<not> P (a + j)"
    by (auto simp: find_Some_iff)
  have "\<not> P j" if "a \<le> j" "j < i" for j
    using k(4) [rule_format, of "j - a"] that k(3) by simp
  then show "a \<le> i \<and> i < b \<and> P i \<and> (\<forall>j. a \<le> j \<and> j < i \<longrightarrow> \<not> P j)" using k by auto
next
  assume r: "a \<le> i \<and> i < b \<and> P i \<and> (\<forall>j. a \<le> j \<and> j < i \<longrightarrow> \<not> P j)"
  then show "List.find P [a..<b] = Some i"
    unfolding find_Some_iff by (intro exI [of _ "i - a"]) auto
qed

lemma find_upt_None: "List.find P [a..<b] = None \<longleftrightarrow> (\<forall>i. a \<le> i \<and> i < b \<longrightarrow> \<not> P i)"
  by (auto simp: find_None_iff)

lemma table_scan_find:
  "table_scan es key cs a b = List.find (\<lambda>i. entry_matches key cs (es ! i)) [a..<Suc b]"
proof (induction es key cs a b rule: table_scan.induct)
  case (1 es key cs a b)
  show ?case
  proof (cases "a \<le> b")
    case True
    then have "[a..<Suc b] = a # [Suc a..<Suc b]" by (simp only: upt_conv_Cons less_Suc_eq_le)
    then show ?thesis using 1 True by (subst table_scan.simps) (simp del: upt_Suc)
  next
    case False
    then show ?thesis by (subst table_scan.simps) simp
  qed
qed

lemma table_ok_slot:
  assumes "table_ok t"
  shows "slot_ok (map entry_hash (t_elts t)) t (TABLE_HASH key)"
  using assms by (simp add: table_ok_def index_ok_def)

text \<open>The scan of the slot of a key finds what a scan of the whole table would find.\<close>

lemma table_find_first:
  assumes ok: "table_ok t"
  shows "table_find t key = List.find (\<lambda>i. same_name key (entry_pair (t_elts t ! i))) [0..<length (t_elts t)]"
proof -
  let ?h = "TABLE_HASH key" and ?n = "length (t_elts t)"
  let ?P = "\<lambda>i. same_name key (entry_pair (t_elts t ! i))"
  let ?M = "\<lambda>i. entry_matches key (COMPUTE_KEY_CHECKSUM key) (t_elts t ! i)"
  have MP: "?M i \<longleftrightarrow> ?P i" if "i < ?n" for i
    using ok that by (simp add: table_ok_def entry_matches_iff)
  have hash: "map entry_hash (t_elts t) ! i = ?h" if "i < ?n" "?P i" for i
    using that same_name_hash by simp
  note slot = table_ok_slot [OF ok, of key]
  show ?thesis
  proof (cases "TABLE_INDEX_IS_INITIALIZED t ?h")
    case False
    then have no: "?h \<notin> set (map entry_hash (t_elts t))" using slot by (simp add: slot_ok_def)
    have "\<not> ?P i" if "i < ?n" for i
    proof
      assume "?P i"
      then have "entry_hash (t_elts t ! i) = ?h" by (rule same_name_hash)
      then show False using no that by (metis imageI list.set_map nth_mem)
    qed
    then have "List.find ?P [0..<?n] = None" by (simp add: find_upt_None)
    then show ?thesis using False by (simp add: table_find_def)
  next
    case True
    let ?f = "t_first t ! ?h" and ?l = "t_last t ! ?h"
    have l: "?l < ?n" and between: "\<And>i. i < ?n \<Longrightarrow> ?P i \<Longrightarrow> ?f \<le> i \<and> i \<le> ?l"
      using slot True hash by (auto simp: slot_ok_def)
    have "List.find ?M [?f..<Suc ?l] = List.find ?P [0..<?n]"
    proof (cases "List.find ?P [0..<?n]")
      case None
      then have "\<forall>i < ?n. \<not> ?P i" by (simp add: find_upt_None)
      then have "List.find ?M [?f..<Suc ?l] = None" unfolding find_upt_None using l MP by auto
      then show ?thesis using None by simp
    next
      case (Some i)
      then have i: "i < ?n" "?P i" "\<forall>j < i. \<not> ?P j" by (simp_all add: find_upt_Some)
      then have "List.find ?M [?f..<Suc ?l] = Some i"
        unfolding find_upt_Some using l between [OF i(1,2)] MP by auto
      then show ?thesis using Some by simp
    qed
    then show ?thesis using True by (simp add: table_find_def table_scan_find Let_def)
  qed
qed

lemma table_find_None:
  assumes "table_ok t" "table_find t key = None"
  shows "\<forall>kv \<in> set (table_fields t). \<not> same_name key kv"
  using assms(2) unfolding table_find_first [OF assms(1)] find_upt_None
  by (auto simp: table_fields_def in_set_conv_nth)

lemma table_find_Some:
  assumes ok: "table_ok t" and found: "table_find t key = Some i"
  shows "i < length (t_elts t)" "same_name key (entry_pair (t_elts t ! i))"
    "\<forall>e \<in> set (take i (t_elts t)). \<not> same_name key (entry_pair e)"
    "i \<le> t_last t ! TABLE_HASH key" "t_last t ! TABLE_HASH key < length (t_elts t)"
    "\<forall>e \<in> set (drop (Suc (t_last t ! TABLE_HASH key)) (t_elts t)). \<not> same_name key (entry_pair e)"
proof -
  have i: "i < length (t_elts t)" "same_name key (entry_pair (t_elts t ! i))"
    "\<forall>j < i. \<not> same_name key (entry_pair (t_elts t ! j))"
    using found unfolding table_find_first [OF ok] find_upt_Some by simp_all
  show "i < length (t_elts t)" "same_name key (entry_pair (t_elts t ! i))" by fact+
  show "\<forall>e \<in> set (take i (t_elts t)). \<not> same_name key (entry_pair e)"
    using i(1,3) by (auto simp: in_set_conv_nth)
  have init: "TABLE_INDEX_IS_INITIALIZED t (TABLE_HASH key)"
    using found by (simp add: table_find_def Let_def split: if_splits)
  have hash: "entry_hash (t_elts t ! j) = TABLE_HASH key" if "same_name key (entry_pair (t_elts t ! j))" for j
    using that by (rule same_name_hash)
  note slot = table_ok_slot [OF ok, of key, unfolded slot_ok_def]
  show "i \<le> t_last t ! TABLE_HASH key" "t_last t ! TABLE_HASH key < length (t_elts t)"
    using slot init i hash by auto
  have "\<not> same_name key (entry_pair (t_elts t ! j))"
    if "t_last t ! TABLE_HASH key < j" "j < length (t_elts t)" for j
    using slot init that hash [of j] by force
  then show "\<forall>e \<in> set (drop (Suc (t_last t ! TABLE_HASH key)) (t_elts t)). \<not> same_name key (entry_pair e)"
    by (auto simp: in_set_conv_nth)
qed

lemma table_fields_split:
  assumes "i < length (t_elts t)"
  shows "table_fields t = map entry_pair (take i (t_elts t)) @ entry_pair (t_elts t ! i)
    # map entry_pair (drop (Suc i) (t_elts t))"
  unfolding table_fields_def using assms by (subst id_take_nth_drop [of i "t_elts t"]) simp_all

lemma apr_table_get_fields:
  assumes ok: "table_ok t"
  shows "apr_table_get t (Some key) = al_get key (table_fields t)"
proof (cases "table_find t key")
  case None
  then show ?thesis using al_absent(4) [OF table_find_None [OF ok None]] by (simp add: apr_table_get_def)
next
  case (Some i)
  note f = table_find_Some [OF ok Some]
  show ?thesis
    unfolding table_fields_split [OF f(1)] using Some f
    by (subst al_split(4)) (auto simp: apr_table_get_def)
qed

section \<open>Adding\<close>

lemma entry_pair_new [simp]:
  "entry_pair \<lparr>te_key = Some key, te_val = val, te_checksum = cs\<rparr> = (key, val)"
  by (simp add: entry_pair_def)

lemma table_push_ok:
  assumes "index_ok (map entry_hash (t_elts t @ [e])) t" "\<forall>x \<in> set (t_elts t). entry_ok x" "entry_ok e"
    "length (t_elts t) \<le> t_nalloc t"
  shows "table_ok (table_push e t)"
  using assms index_ok_cong [of "table_push e t" t]
  by (auto simp: table_ok_def table_push_def)

lemma apr_table_add_ok:
  assumes "table_ok t"
  shows "table_ok (apr_table_add key val t)" "table_fields (apr_table_add key val t) = table_fields t @ [(key, val)]"
proof -
  have "index_ok (map entry_hash (t_elts t) @ [TABLE_HASH key])
      (index_entry (length (map entry_hash (t_elts t))) key t)"
    by (rule index_entry_ok) (use assms in \<open>simp add: table_ok_def\<close>)
  then show "table_ok (apr_table_add key val t)"
    unfolding apr_table_add_def using assms
    by (intro table_push_ok) (auto simp: table_ok_def entry_ok_def entry_hash_def)
  show "table_fields (apr_table_add key val t) = table_fields t @ [(key, val)]"
    by (simp add: table_fields_def apr_table_add_def table_push_def)
qed

lemma add_new_elt_add:
  "length (t_last t) = TABLE_HASH_SIZE \<Longrightarrow> add_new_elt key val t = apr_table_add key val t"
  by (cases t) (simp add: add_new_elt_def apr_table_add_def index_entry_def Let_def
      TABLE_SET_INDEX_INITIALIZED_def TABLE_INDEX_IS_INITIALIZED_def table_push_def)

lemma apr_table_make_ok:
  "length f = TABLE_HASH_SIZE \<Longrightarrow> length l = TABLE_HASH_SIZE \<Longrightarrow> table_ok (apr_table_make f l n)"
  "table_fields (apr_table_make f l n) = []"
  by (auto simp: table_ok_def apr_table_make_def index_ok_def slot_ok_def TABLE_INDEX_IS_INITIALIZED_def
      table_fields_def)

lemma apr_table_clear_ok:
  "table_ok t \<Longrightarrow> table_ok (apr_table_clear t)" "table_fields (apr_table_clear t) = []"
  by (auto simp: table_ok_def apr_table_clear_def index_ok_def slot_ok_def TABLE_INDEX_IS_INITIALIZED_def
      table_fields_def)

lemma apr_table_copy_ok:
  assumes "table_ok t"
  shows "table_ok (apr_table_copy t)" "table_fields (apr_table_copy t) = table_fields t"
  using assms index_ok_cong [of "apr_table_copy t" t]
  by (auto simp: apr_table_copy_def table_ok_def table_fields_def)

section \<open>Removing the other instances of a key\<close>

lemma shift_down_take:
  "d \<le> m \<Longrightarrow> m \<le> length es \<Longrightarrow>
     take (d + (length es - m)) (shift_down d m (length es) es) = take d es @ drop m es"
proof (induction "length es - m" arbitrary: d m es)
  case 0
  then show ?case by (subst shift_down.simps) simp
next
  case (Suc k)
  then have lt: "m < length es" by simp
  have IH: "take (d + 1 + (length es - (m + 1))) (shift_down (d + 1) (m + 1) (length es) (es[d := es ! m]))
      = take (d + 1) (es[d := es ! m]) @ drop (m + 1) (es[d := es ! m])"
    using Suc.hyps(1) [of "es[d := es ! m]" "m + 1" "d + 1"] Suc.hyps(2) Suc.prems by simp
  have "take (d + 1) (es[d := es ! m]) = take d es @ [es ! m]"
    using Suc.prems lt by (simp add: take_Suc_conv_app_nth)
  moreover have "drop m es = es ! m # drop (m + 1) es" using lt by (simp add: Cons_nth_drop_Suc)
  moreover have "d + 1 + (length es - (m + 1)) = d + (length es - m)" using lt by simp
  ultimately show ?case using IH lt Suc.prems by (subst shift_down.simps) simp
qed

text \<open>
  Once an entry has been removed: the entries kept so far stand before d, the
  rest of the table is unchanged.
\<close>

definition kept :: "cstr \<Rightarrow> 32 word \<Rightarrow> table_entry list \<Rightarrow> table_entry list" where
  "kept key cs es = filter (\<lambda>e. \<not> entry_matches key cs e) es"

lemma remove_matches_some:
  assumes "d < m" "m \<le> Suc e" "Suc e \<le> length es" "k + m = d + length es"
  shows "\<exists>es' d' k'. remove_matches key cs m e (es, Some d, k) = (es', Some d', k')
    \<and> length es' = length es \<and> d' \<le> e \<and> k' + Suc e = d' + length es
    \<and> take d' es' = take d es @ kept key cs (take (Suc e - m) (drop m es))
    \<and> drop (Suc e) es' = drop (Suc e) es"
  using assms
proof (induction "Suc e - m" arbitrary: d m es k)
  case 0
  then show ?case by (subst remove_matches.simps) (simp add: kept_def)
next
  case (Suc j)
  then have le: "m \<le> e" by simp
  have slice: "take (Suc e - m) (drop m es) = es ! m # take (Suc e - (m + 1)) (drop (m + 1) es)"
    using le Suc.prems(3) by (simp add: Cons_nth_drop_Suc [symmetric] Suc_diff_le)
  show ?case
  proof (cases "entry_matches key cs (es ! m)")
    case True
    note unfolded = remove_matches.simps [of key cs m e "(es, Some d, k)"]
    have "remove_matches key cs m e (es, Some d, k) = remove_matches key cs (m + 1) e (es, Some d, k - 1)"
      using le True unfolded by simp
    with Suc.hyps(1) [of "m + 1" d es "k - 1"] Suc.hyps(2) Suc.prems le
    show ?thesis unfolding slice by (simp add: kept_def True)
  next
    case False
    note unfolded = remove_matches.simps [of key cs m e "(es, Some d, k)"]
    have step: "remove_matches key cs m e (es, Some d, k)
        = remove_matches key cs (m + 1) e (es[d := es ! m], Some (d + 1), k)"
      using le False unfolded by simp
    have "take (d + 1) (es[d := es ! m]) = take d es @ [es ! m]"
      using Suc.prems by (simp add: take_Suc_conv_app_nth)
    with Suc.hyps(1) [of "m + 1" "d + 1" "es[d := es ! m]" k] Suc.hyps(2) Suc.prems le
    show ?thesis unfolding slice step by (simp add: kept_def False)
  qed
qed

lemma remove_matches_none:
  assumes "m \<le> Suc e" "Suc e \<le> length es"
  shows "(remove_matches key cs m e (es, None, length es) = (es, None, length es)
      \<and> kept key cs (take (Suc e - m) (drop m es)) = take (Suc e - m) (drop m es))
    \<or> (\<exists>es' d' k'. remove_matches key cs m e (es, None, length es) = (es', Some d', k')
      \<and> length es' = length es \<and> d' \<le> e \<and> k' + Suc e = d' + length es
      \<and> take d' es' = take m es @ kept key cs (take (Suc e - m) (drop m es))
      \<and> drop (Suc e) es' = drop (Suc e) es)"
  using assms
proof (induction "Suc e - m" arbitrary: m)
  case 0
  then show ?case by (subst remove_matches.simps) (simp add: kept_def)
next
  case (Suc j)
  then have le: "m \<le> e" by simp
  have slice: "take (Suc e - m) (drop m es) = es ! m # take (Suc e - (m + 1)) (drop (m + 1) es)"
    using le Suc.prems(2) by (simp add: Cons_nth_drop_Suc [symmetric] Suc_diff_le)
  note unfolded = remove_matches.simps [of key cs m e "(es, None, length es)"]
  show ?case
  proof (cases "entry_matches key cs (es ! m)")
    case True
    have "remove_matches key cs m e (es, None, length es) = remove_matches key cs (m + 1) e (es, Some m, length es - 1)"
      using le True unfolded by simp
    with remove_matches_some [of m "m + 1" e es "length es - 1" key cs] Suc.prems le
    show ?thesis unfolding slice by (simp add: kept_def True)
  next
    case False
    have step: "remove_matches key cs m e (es, None, length es)
        = remove_matches key cs (m + 1) e (es, None, length es)"
      using le False unfolded by simp
    have "take (m + 1) es = take m es @ [es ! m]" using Suc.prems le by (simp add: take_Suc_conv_app_nth)
    with Suc.hyps(1) [of "m + 1"] Suc.hyps(2) Suc.prems le
    show ?thesis unfolding slice step by (simp add: kept_def False)
  qed
qed

lemma kept_all: "\<forall>x \<in> set es. \<not> entry_matches key cs x \<Longrightarrow> kept key cs es = es"
  by (simp add: kept_def)

lemma kept_append: "kept key cs (xs @ ys) = kept key cs xs @ kept key cs ys"
  by (simp add: kept_def)

lemma drop_slice: "m \<le> n \<Longrightarrow> drop m es = take (n - m) (drop m es) @ drop n es"
  by (metis append_take_drop_id drop_drop le_add_diff_inverse2)

text \<open>What is left after the shift.\<close>

lemma removed_shifted:
  assumes "length es' = length es" "d' \<le> e" "k' + Suc e = d' + length es" "Suc e \<le> length es" "m \<le> Suc e"
    and "take d' es' = pre @ kept key cs (take (Suc e - m) (drop m es))" "drop (Suc e) es' = drop (Suc e) es"
    and "\<forall>x \<in> set (drop (Suc e) es). \<not> entry_matches key cs x"
  shows "take k' (shift_down d' (Suc e) (length es) es') = pre @ kept key cs (drop m es)"
proof -
  have k': "k' = d' + (length es' - Suc e)" using assms(1,3,4) by simp
  have "take k' (shift_down d' (Suc e) (length es) es') = take d' es' @ drop (Suc e) es'"
    unfolding k' using shift_down_take [of d' "Suc e" es'] assms(1,2,4) by simp
  also have "\<dots> = pre @ kept key cs (take (Suc e - m) (drop m es) @ drop (Suc e) es)"
    using assms(6,7) kept_all [OF assms(8)] by (simp add: kept_append)
  also have "take (Suc e - m) (drop m es) @ drop (Suc e) es = drop m es"
    using drop_slice [OF assms(5), of es] by simp
  finally show ?thesis .
qed

lemma map_kept:
  assumes "\<forall>x \<in> set es. entry_ok x"
  shows "map entry_pair (kept key (COMPUTE_KEY_CHECKSUM key) es)
    = filter (\<lambda>kv. \<not> same_name key kv) (map entry_pair es)"
proof -
  have "kept key (COMPUTE_KEY_CHECKSUM key) es = filter (\<lambda>e. \<not> same_name key (entry_pair e)) es"
    unfolding kept_def by (rule filter_cong) (use assms in \<open>auto simp: entry_matches_iff\<close>)
  then show ?thesis by (simp add: filter_map o_def)
qed

section \<open>Setting, unsetting and merging\<close>

lemma index_ok_values:
  assumes "table_ok t" "map te_key es = map te_key (t_elts t)" "map te_checksum es = map te_checksum (t_elts t)"
  shows "table_ok (t\<lparr>t_elts := es\<rparr>)"
proof -
  have len: "length es = length (t_elts t)" using assms(2) by (rule map_eq_imp_length_eq)
  have at: "te_key (es ! i) = te_key (t_elts t ! i)" "te_checksum (es ! i) = te_checksum (t_elts t ! i)"
    if "i < length es" for i
    using that len assms(2,3) nth_map [of i es te_key] nth_map [of i es te_checksum] by simp_all
  have "map entry_hash es = map entry_hash (t_elts t)"
    using at len by (intro nth_equalityI) (simp_all add: entry_hash_def entry_pair_def)
  moreover have "\<forall>e \<in> set es. entry_ok e"
    using assms(1) at len by (auto simp: table_ok_def entry_ok_def all_set_conv_all_nth split: option.splits)
  ultimately show ?thesis
    using assms(1) len index_ok_cong [of "t\<lparr>t_elts := es\<rparr>" t] by (simp add: table_ok_def)
qed

lemma new_value_ok:
  assumes "table_ok t" "i < length (t_elts t)"
  shows "table_ok (t\<lparr>t_elts := (t_elts t)[i := (t_elts t ! i)\<lparr>te_val := v\<rparr>]\<rparr>)"
  by (rule index_ok_values [OF assms(1)]) (simp_all add: map_update assms(2) list_update_same_conv)

lemma reindexed_ok:
  assumes "table_ok t" "set es \<subseteq> {e. entry_ok e}" "length es \<le> length (t_elts t)"
  shows "table_ok (table_reindex (t\<lparr>t_elts := es\<rparr>))"
    and "table_fields (table_reindex (t\<lparr>t_elts := es\<rparr>)) = map entry_pair es"
proof -
  have p: "\<forall>e \<in> set (t_elts (t\<lparr>t_elts := es\<rparr>)). entry_ok e" "length (t_first (t\<lparr>t_elts := es\<rparr>)) = TABLE_HASH_SIZE"
    "length (t_last (t\<lparr>t_elts := es\<rparr>)) = TABLE_HASH_SIZE" "length (t_elts (t\<lparr>t_elts := es\<rparr>)) \<le> t_nalloc (t\<lparr>t_elts := es\<rparr>)"
    using assms table_ok_lengths [OF assms(1)] by (auto simp: table_ok_def)
  show "table_ok (table_reindex (t\<lparr>t_elts := es\<rparr>))" by (rule table_reindex_ok(1) [OF p])
  show "table_fields (table_reindex (t\<lparr>t_elts := es\<rparr>)) = map entry_pair es"
    unfolding table_fields_def table_reindex_ok(2) [OF p] by simp
qed

lemma entries_ok: "table_ok t \<Longrightarrow> e \<in> set (t_elts t) \<Longrightarrow> entry_ok e"
  by (simp add: table_ok_def)

lemma table_end_not_matching:
  assumes "table_ok t" "table_find t key = Some i"
  shows "\<forall>x \<in> set (drop (Suc (t_last t ! TABLE_HASH key)) (t_elts t)).
    \<not> entry_matches key (COMPUTE_KEY_CHECKSUM key) x"
  using table_find_Some(6) [OF assms] entries_ok [OF assms(1)] entry_matches_iff
  by (metis in_set_dropD)

lemma entry_pair_value: "entry_pair (e\<lparr>te_val := v\<rparr>) = (fst (entry_pair e), v)"
  by (simp add: entry_pair_def)

lemma length_kept: "length (kept key cs (drop m es)) \<le> length es - m"
  unfolding kept_def using length_filter_le [of _ "drop m es"] by simp

lemma apr_table_unset_ok:
  assumes ok: "table_ok t"
  shows "table_ok (apr_table_unset key t)" (is ?ok)
    and "table_fields (apr_table_unset key t) = al_unset key (table_fields t)" (is ?al)
proof -
  have "?ok \<and> ?al"
  proof (cases "table_find t key")
    case None
    then show ?thesis
      using ok al_absent(3) [OF table_find_None [OF ok None]] by (simp add: apr_table_unset_def)
  next
    case (Some i)
    note f = table_find_Some [OF ok Some]
    let ?e = "t_last t ! TABLE_HASH key" and ?cs = "COMPUTE_KEY_CHECKSUM key" and ?n = "length (t_elts t)"
    have "?n - 1 + (i + 1) = i + ?n" using f(1) by arith
    then obtain es' d' k' where r: "remove_matches key ?cs (i + 1) ?e (t_elts t, Some i, ?n - 1) = (es', Some d', k')"
        "length es' = ?n" "d' \<le> ?e" "k' + Suc ?e = d' + ?n"
        "take d' es' = take i (t_elts t) @ kept key ?cs (take (Suc ?e - (i + 1)) (drop (i + 1) (t_elts t)))"
        "drop (Suc ?e) es' = drop (Suc ?e) (t_elts t)"
      using remove_matches_some [of i "i + 1" ?e "t_elts t" "?n - 1" key ?cs] f(4,5)
      by (metis Suc_eq_plus1 Suc_leI Suc_le_mono lessI)
    have left: "take k' (shift_down d' (Suc ?e) ?n es') = take i (t_elts t) @ kept key ?cs (drop (i + 1) (t_elts t))"
      by (rule removed_shifted [OF r(2,3,4) _ _ r(5,6) table_end_not_matching [OF ok Some]]) (use f in simp_all)
    have mx: "max (i + 1) (?e + 1) = Suc ?e" using f(4) by simp
    have op: "apr_table_unset key t = table_reindex (t\<lparr>t_elts := take i (t_elts t) @ kept key ?cs (drop (i + 1) (t_elts t))\<rparr>)"
      by (simp only: apr_table_unset_def Some option.case Let_def r(1) prod.case mx left)
    have "set (take i (t_elts t) @ kept key ?cs (drop (i + 1) (t_elts t))) \<subseteq> {e. entry_ok e}"
      using entries_ok [OF ok] by (auto simp: kept_def dest: in_set_takeD in_set_dropD)
    moreover have "length (take i (t_elts t) @ kept key ?cs (drop (i + 1) (t_elts t))) \<le> ?n"
      using f(1) length_kept [of key ?cs "i + 1" "t_elts t"] by simp
    ultimately have res: "table_ok (apr_table_unset key t)"
        "table_fields (apr_table_unset key t)
          = map entry_pair (take i (t_elts t) @ kept key ?cs (drop (i + 1) (t_elts t)))"
      unfolding op using reindexed_ok [OF ok] by blast+
    have "\<forall>x \<in> set (drop (i + 1) (t_elts t)). entry_ok x" using entries_ok [OF ok] by (meson in_set_dropD)
    then have "table_fields (apr_table_unset key t) = al_unset key (table_fields t)"
      unfolding res(2) table_fields_split [OF f(1)] using f(2,3)
      by (subst al_split(3)) (auto simp: map_kept)
    then show ?thesis using res(1) by blast
  qed
  then show ?ok ?al by blast+
qed

lemma apr_table_set_ok:
  assumes ok: "table_ok t"
  shows "table_ok (apr_table_set key val t)" (is ?ok)
    and "table_fields (apr_table_set key val t) = al_set key val (table_fields t)" (is ?al)
proof -
  have "?ok \<and> ?al"
  proof (cases "table_find t key")
    case None
    then show ?thesis
      using apr_table_add_ok [OF ok, of key val] al_absent(1) [OF table_find_None [OF ok None]]
      by (simp add: apr_table_set_def add_new_elt_add table_ok_lengths [OF ok])
  next
    case (Some i)
    note f = table_find_Some [OF ok Some]
    let ?e = "t_last t ! TABLE_HASH key" and ?cs = "COMPUTE_KEY_CHECKSUM key" and ?n = "length (t_elts t)"
    let ?es = "(t_elts t)[i := (t_elts t ! i)\<lparr>te_val := val\<rparr>]"
    let ?u = "t\<lparr>t_elts := ?es\<rparr>"
    have u: "table_ok ?u" by (rule new_value_ok [OF ok f(1)])
    have oks: "\<forall>x \<in> set ?es. entry_ok x" using entries_ok [OF u] by simp
    have rest: "drop (i + 1) ?es = drop (i + 1) (t_elts t)" by simp
    have pre: "map entry_pair (take (i + 1) ?es) = map entry_pair (take i (t_elts t)) @ [(fst (entry_pair (t_elts t ! i)), val)]"
      using f(1) by (simp add: take_Suc_conv_app_nth entry_pair_value)
    have "\<forall>x \<in> set (drop (i + 1) ?es). entry_ok x" using oks by (meson in_set_dropD)
    note tl = map_kept [OF this, of key, unfolded rest]
    have spec: "al_set key val (table_fields t) = map entry_pair (take (i + 1) ?es @ kept key ?cs (drop (i + 1) ?es))"
      unfolding table_fields_split [OF f(1)] map_append pre
      using f(2,3) tl unfolding rest by (subst al_split(1)) auto
    have tail: "\<forall>x \<in> set (drop (Suc ?e) ?es). \<not> entry_matches key ?cs x"
      using table_end_not_matching [OF ok Some] f(4) by simp
    note r = remove_matches_none [of "i + 1" ?e ?es key ?cs]
    show ?thesis
    proof (cases "snd (remove_matches key ?cs (i + 1) ?e (?es, None, ?n)) = (None, ?n)")
      case True
      then have none: "remove_matches key ?cs (i + 1) ?e (?es, None, ?n) = (?es, None, ?n)"
          "kept key ?cs (take (Suc ?e - (i + 1)) (drop (i + 1) ?es)) = take (Suc ?e - (i + 1)) (drop (i + 1) ?es)"
        using r f(4,5) by auto
      have "kept key ?cs (drop (i + 1) ?es) = drop (i + 1) ?es"
        using none(2) kept_all [OF tail] drop_slice [of "i + 1" "Suc ?e" ?es] f(4) kept_append
        by (metis Suc_eq_plus1 Suc_le_mono)
      then have "al_set key val (table_fields t) = map entry_pair ?es"
        unfolding spec by (simp only: append_take_drop_id)
      moreover have "apr_table_set key val t = ?u"
        unfolding apr_table_set_def Some using none(1) by (simp add: Let_def)
      ultimately show ?thesis using u by (simp add: table_fields_def)
    next
      case False
      then obtain es' d' k' where some: "remove_matches key ?cs (i + 1) ?e (?es, None, ?n) = (es', Some d', k')"
          "length es' = length ?es" "d' \<le> ?e" "k' + Suc ?e = d' + length ?es"
          "take d' es' = take (i + 1) ?es @ kept key ?cs (take (Suc ?e - (i + 1)) (drop (i + 1) ?es))"
          "drop (Suc ?e) es' = drop (Suc ?e) ?es"
        using r f(4,5) by auto
      have left: "take k' (shift_down d' (Suc ?e) (length ?es) es') = take (i + 1) ?es @ kept key ?cs (drop (i + 1) ?es)"
        by (rule removed_shifted [OF some(2,3,4) _ _ some(5,6) tail]) (use f in simp_all)
      have mx: "max (i + 1) (?e + 1) = Suc ?e" using f(4) by simp
      have op: "apr_table_set key val t
          = table_reindex (t\<lparr>t_elts := take (i + 1) ?es @ kept key ?cs (drop (i + 1) ?es)\<rparr>)"
        by (simp only: apr_table_set_def Some option.case Let_def some(1) prod.case mx left [unfolded length_list_update])
      let ?xs = "take (i + 1) ?es @ kept key ?cs (drop (i + 1) ?es)"
      have "t\<lparr>t_elts := xs\<rparr> = ?u\<lparr>t_elts := xs\<rparr>" for xs by simp
      with op have op': "apr_table_set key val t = table_reindex (?u\<lparr>t_elts := ?xs\<rparr>)" by metis
      have "set (take (i + 1) ?es @ kept key ?cs (drop (i + 1) ?es)) \<subseteq> {e. entry_ok e}"
        using oks by (auto simp: kept_def simp del: drop_update_cancel take_update_swap dest: in_set_takeD in_set_dropD)
      moreover have "length (take (i + 1) ?es @ kept key ?cs (drop (i + 1) ?es)) \<le> length (t_elts ?u)"
        using f(1) length_kept [of key ?cs "i + 1" "t_elts t"] by simp
      ultimately show ?thesis unfolding op' spec using reindexed_ok [OF u] by blast
    qed
  qed
  then show ?ok ?al by blast+
qed

lemma apr_table_merge_ok:
  assumes ok: "table_ok t"
  shows "table_ok (apr_table_merge key val t)" (is ?ok)
    and "table_fields (apr_table_merge key val t) = al_merge key val (table_fields t)" (is ?al)
proof -
  have "?ok \<and> ?al"
  proof (cases "table_find t key")
    case None
    then show ?thesis
      using apr_table_add_ok [OF ok, of key val] al_absent(2) [OF table_find_None [OF ok None]]
      by (simp add: apr_table_merge_def add_new_elt_add table_ok_lengths [OF ok])
  next
    case (Some i)
    note f = table_find_Some [OF ok Some]
    let ?v = "te_val (t_elts t ! i) @ '', '' @ val"
    let ?es = "(t_elts t)[i := (t_elts t ! i)\<lparr>te_val := ?v\<rparr>]"
    have "map entry_pair ?es = al_merge key val (table_fields t)"
      unfolding table_fields_split [OF f(1)] using f(1,2,3)
      by (subst al_split(2)) (auto simp: upd_conv_take_nth_drop entry_pair_value)
    then show ?thesis
      using new_value_ok [OF ok f(1), of ?v] Some by (simp add: apr_table_merge_def table_fields_def)
  qed
  then show ?ok ?al by blast+
qed

section \<open>Sorting by key\<close>

abbreviation name_of :: "('e \<Rightarrow> cstr) \<Rightarrow> 'e \<Rightarrow> field_name" where
  "name_of key x \<equiv> fold_name (key x)"

definition same_order :: "('e \<Rightarrow> cstr) \<Rightarrow> 'e list \<Rightarrow> 'e list \<Rightarrow> bool" where
  "same_order key xs ys \<longleftrightarrow> mset xs = mset ys
     \<and> (\<forall>k. filter (\<lambda>x. name_of key x = k) xs = filter (\<lambda>x. name_of key x = k) ys)"

definition blocks_sorted :: "('e \<Rightarrow> cstr) \<Rightarrow> nat \<Rightarrow> 'e list \<Rightarrow> bool" where
  "blocks_sorted key b vs \<longleftrightarrow> (\<forall>i. sorted (map (name_of key) (take b (drop (i * b) vs))))"

lemma same_order_refl [simp]: "same_order key xs xs"
  by (simp add: same_order_def)

lemma same_order_trans: "same_order key xs ys \<Longrightarrow> same_order key ys zs \<Longrightarrow> same_order key xs zs"
  by (simp add: same_order_def)

lemma same_order_append:
  "same_order key xs ys \<Longrightarrow> same_order key xs' ys' \<Longrightarrow> same_order key (xs @ xs') (ys @ ys')"
  by (simp add: same_order_def)

lemma set_merge_blocks [simp]: "set (merge_blocks key xs ys) = set xs \<union> set ys"
  by (induction key xs ys rule: merge_blocks.induct) auto

lemma sorted_merge_blocks:
  "sorted (map (name_of key) xs) \<Longrightarrow> sorted (map (name_of key) ys) \<Longrightarrow>
     sorted (map (name_of key) (merge_blocks key xs ys))"
proof (induction key xs ys rule: merge_blocks.induct)
  case (3 key a xs b ys)
  then show ?case by (auto simp: strcasecmp_pos not_less)
qed auto

lemma same_order_merge_blocks:
  "sorted (map (name_of key) xs) \<Longrightarrow> same_order key (merge_blocks key xs ys) (xs @ ys)"
proof (induction key xs ys rule: merge_blocks.induct)
  case (3 key a xs b ys)
  show ?case
  proof (cases "strcasecmp (key a) (key b) > 0")
    case True
    then have "\<forall>x \<in> set (a # xs). name_of key x \<noteq> name_of key b"
      using 3(3) by (auto simp: strcasecmp_pos)
    then have "filter (\<lambda>x. name_of key x = name_of key b) (a # xs) = []" by (simp add: filter_empty_conv)
    then show ?thesis using 3 True by (auto simp: same_order_def)
  next
    case False
    then show ?thesis using 3 by (auto simp: same_order_def)
  qed
qed (auto simp: same_order_def)

lemma blocks_sorted_Cons:
  assumes "sorted (map (name_of key) xs)" "length xs = b" "blocks_sorted key b ys"
  shows "blocks_sorted key b (xs @ ys)"
  unfolding blocks_sorted_def
proof
  fix i
  show "sorted (map (name_of key) (take b (drop (i * b) (xs @ ys))))"
  proof (cases i)
    case 0
    then show ?thesis using assms by simp
  next
    case (Suc j)
    then have "drop (i * b) (xs @ ys) = drop (j * b) ys" using assms(2) by simp
    then show ?thesis using assms(3) by (simp add: blocks_sorted_def)
  qed
qed

lemma blocks_sorted_short:
  assumes "sorted (map (name_of key) xs)" "length xs \<le> b"
  shows "blocks_sorted key b xs"
  unfolding blocks_sorted_def
proof
  fix i
  show "sorted (map (name_of key) (take b (drop (i * b) xs)))"
    using assms by (cases i) auto
qed

lemma blocks_sorted_drop: "blocks_sorted key b vs \<Longrightarrow> blocks_sorted key b (drop (n * b) vs)"
  unfolding blocks_sorted_def by (simp add: add_mult_distrib [symmetric])

lemma merge_pass_correct:
  "0 < b \<Longrightarrow> blocks_sorted key b vs \<Longrightarrow>
     blocks_sorted key (b + b) (merge_pass key b vs) \<and> same_order key (merge_pass key b vs) vs"
proof (induction key b vs rule: merge_pass.induct)
  case (1 key b vs)
  let ?x = "take b vs" and ?y = "take b (drop b vs)" and ?r = "drop (b + b) vs"
  have b: "sorted (map (name_of key) (take b (drop (i * b) vs)))" for i
    using "1.prems"(2) by (simp only: blocks_sorted_def)
  have s: "sorted (map (name_of key) ?x)" "sorted (map (name_of key) ?y)"
    using b [of 0] b [of 1] by simp_all
  show ?case
  proof (cases "b < length vs")
    case True
    have "blocks_sorted key b ?r"
      using blocks_sorted_drop [OF "1.prems"(2), of 2] by (simp add: mult_2)
    then have IH: "blocks_sorted key (b + b) (merge_pass key b ?r)" "same_order key (merge_pass key b ?r) ?r"
      using "1.IH" "1.prems"(1) True by simp_all
    have pass: "merge_pass key b vs = merge_blocks key ?x ?y @ merge_pass key b ?r"
      using True "1.prems"(1) by (subst merge_pass.simps) simp
    have m: "sorted (map (name_of key) (merge_blocks key ?x ?y))" by (rule sorted_merge_blocks [OF s])
    have "blocks_sorted key (b + b) (merge_pass key b vs)"
    proof (cases "length vs < b + b")
      case short: True
      then have "merge_pass key b ?r = []" by (subst merge_pass.simps) simp
      then show ?thesis unfolding pass using m short True by (intro blocks_sorted_short) simp_all
    next
      case False
      then show ?thesis unfolding pass by (intro blocks_sorted_Cons m IH(1)) simp
    qed
    moreover have "same_order key (merge_pass key b vs) ((?x @ ?y) @ ?r)"
      unfolding pass by (rule same_order_append [OF same_order_merge_blocks [OF s(1)] IH(2)])
    moreover have "(?x @ ?y) @ ?r = vs" by (metis append_take_drop_id append.assoc drop_drop)
    ultimately show ?thesis by simp
  next
    case False
    then have "merge_pass key b vs = vs" by (subst merge_pass.simps) simp
    moreover have "sorted (map (name_of key) vs)" using s(1) False by simp
    ultimately show ?thesis using False by (auto intro: blocks_sorted_short)
  qed
qed

lemma merge_passes_correct:
  "0 < b \<Longrightarrow> blocks_sorted key b vs \<Longrightarrow>
     sorted (map (name_of key) (merge_passes key b vs)) \<and> same_order key (merge_passes key b vs) vs"
proof (induction key b vs rule: merge_passes.induct)
  case (1 key b vs)
  show ?case
  proof (cases "b < length vs")
    case True
    note p = merge_pass_correct [OF "1.prems"]
    have "merge_passes key b vs = merge_passes key (b + b) (merge_pass key b vs)"
      using True "1.prems"(1) by (subst merge_passes.simps) simp
    then show ?thesis using "1.IH" True "1.prems"(1) p same_order_trans by auto
  next
    case False
    then have "merge_passes key b vs = vs" by (subst merge_passes.simps) simp
    then show ?thesis using False "1.prems"(2) [unfolded blocks_sorted_def, rule_format, of 0] by simp
  qed
qed

lemma sort_pairs_correct: "blocks_sorted key 2 (sort_pairs key vs) \<and> same_order key (sort_pairs key vs) vs"
proof (induction key vs rule: sort_pairs.induct)
  case (1 key a b vs)
  let ?p = "if strcasecmp (key a) (key b) > 0 then [b, a] else [a, b]"
  have IH: "blocks_sorted key 2 (sort_pairs key vs)" "same_order key (sort_pairs key vs) vs"
    using 1 by (cases "0 < strcasecmp (key a) (key b)"; simp)+
  have step: "sort_pairs key (a # b # vs) = ?p @ sort_pairs key vs" by simp
  have "sorted (map (name_of key) ?p)" by (auto simp: strcasecmp_pos not_less)
  then have "blocks_sorted key 2 (?p @ sort_pairs key vs)"
    by (rule blocks_sorted_Cons) (use IH in simp_all)
  moreover have "same_order key ?p [a, b]" by (auto simp: same_order_def strcasecmp_pos)
  then have "same_order key (?p @ sort_pairs key vs) ([a, b] @ vs)"
    by (rule same_order_append) (use IH in simp)
  ultimately show ?case unfolding step by simp
qed (auto intro: blocks_sorted_short)

lemma table_mergesort_sort_key: "table_mergesort key vs = sort_key (name_of key) vs"
proof -
  note p = sort_pairs_correct [of key vs]
  note m = merge_passes_correct [of 2 key "sort_pairs key vs"]
  have s: "sorted (map (name_of key) (table_mergesort key vs))" "same_order key (table_mergesort key vs) vs"
    using m p same_order_trans unfolding table_mergesort_def by fastforce+
  show ?thesis
  proof (rule properties_for_sort_key [symmetric])
    show "mset (table_mergesort key vs) = mset vs" using s(2) by (simp add: same_order_def)
    show "sorted (map (name_of key) (table_mergesort key vs))" by fact
    show "filter (\<lambda>x. name_of key k = name_of key x) (table_mergesort key vs)
        = filter (\<lambda>x. name_of key k = name_of key x) vs" if "k \<in> set (table_mergesort key vs)" for k
      using s(2) unfolding same_order_def by (metis (mono_tags, lifting) filter_cong)
  qed
qed

section \<open>Removing duplicates\<close>

definition joined :: "overlap_flag \<Rightarrow> cstr list \<Rightarrow> cstr" where
  "joined flags vs = (if flags = APR_OVERLAP_TABLES_MERGE then join_values vs else last vs)"

text \<open>Every name once, at its first place, with its values joined (or the last of them).\<close>

function al_compress :: "overlap_flag \<Rightarrow> fields \<Rightarrow> fields" where
  "al_compress flags [] = []"
| "al_compress flags (kv # al) =
     (fst kv, joined flags (snd kv # map snd (filter (same_name (fst kv)) al)))
       # al_compress flags (filter (\<lambda>kv'. \<not> same_name (fst kv) kv') al)"
  by pat_completeness auto
termination by (relation "measure (\<lambda>(flags, al). length al)") (auto simp: less_Suc_eq_le)

lemma joined_single [simp]: "joined flags [v] = v"
  by (simp add: joined_def)

definition name_group :: "(nat \<Rightarrow> field_name) \<Rightarrow> nat list \<Rightarrow> nat \<Rightarrow> nat list" where
  "name_group g ns i = filter (\<lambda>j. g j = g i) ns"

lemma al_compress_groups:
  assumes "distinct ns" and "\<And>i. g i = fold_name (fst (A i))"
  shows "al_compress flags (map A ns)
    = map (\<lambda>i. (fst (A i), joined flags (map (\<lambda>j. snd (A j)) (name_group g ns i)))) (filter (\<lambda>i. i = hd (name_group g ns i)) ns)"
  using assms(1)
proof (induction "length ns" arbitrary: ns rule: less_induct)
  case less
  show ?case
  proof (cases ns)
    case (Cons i0 r)
    let ?r = "filter (\<lambda>j. g j \<noteq> g i0) r"
    have same: "filter (same_name (fst (A i0))) (map A r) = map A (filter (\<lambda>j. g j = g i0) r)"
      by (simp add: filter_map o_def same_name_def assms(2))
    have other: "filter (\<lambda>kv. \<not> same_name (fst (A i0)) kv) (map A r) = map A ?r"
      by (simp add: filter_map o_def same_name_def assms(2))
    have first: "name_group g ns i0 = i0 # filter (\<lambda>j. g j = g i0) r" by (simp add: name_group_def Cons)
    have grp: "name_group g ns i = name_group g ?r i" if "g i \<noteq> g i0" for i
      using that by (auto simp: name_group_def Cons intro: filter_cong)
    have hd: "i = hd (name_group g ns i) \<longleftrightarrow> g i \<noteq> g i0 \<and> i = hd (name_group g ?r i)" if "i \<in> set r" for i
      using less.prems that grp [of i] first by (auto simp: Cons name_group_def)
    have "filter (\<lambda>i. i = hd (name_group g ns i)) r = filter (\<lambda>i. g i \<noteq> g i0 \<and> i = hd (name_group g ?r i)) r"
      by (rule filter_cong) (simp_all add: hd)
    then have firsts: "filter (\<lambda>i. i = hd (name_group g ns i)) ns = i0 # filter (\<lambda>i. i = hd (name_group g ?r i)) ?r"
      using first by (simp add: Cons conj_commute)
    have "al_compress flags (map A ?r)
        = map (\<lambda>i. (fst (A i), joined flags (map (\<lambda>j. snd (A j)) (name_group g ?r i)))) (filter (\<lambda>i. i = hd (name_group g ?r i)) ?r)"
      using less by (auto simp: Cons less_Suc_eq_le)
    also have "\<dots> = map (\<lambda>i. (fst (A i), joined flags (map (\<lambda>j. snd (A j)) (name_group g ns i)))) (filter (\<lambda>i. i = hd (name_group g ?r i)) ?r)"
      by (rule map_cong) (auto simp: grp)
    finally have rest: "al_compress flags (map A ?r) = \<dots>" .
    have "al_compress flags (map A ns) = (fst (A i0), joined flags (map (\<lambda>j. snd (A j)) (name_group g ns i0))) # al_compress flags (map A ?r)"
      unfolding Cons list.map al_compress.simps same other by (simp add: name_group_def o_def)
    then show ?thesis unfolding rest firsts by simp
  qed simp
qed

lemma sorted_same_prefix:
  assumes "sorted (map g ns)" "\<forall>x \<in> set ns. a \<le> (g x :: field_name)"
  shows "takeWhile (\<lambda>x. g x = a) ns = filter (\<lambda>x. g x = a) ns"
    and "dropWhile (\<lambda>x. g x = a) ns = filter (\<lambda>x. g x \<noteq> a) ns"
proof -
  have "takeWhile (\<lambda>x. g x = a) ns = filter (\<lambda>x. g x = a) ns
      \<and> dropWhile (\<lambda>x. g x = a) ns = filter (\<lambda>x. g x \<noteq> a) ns"
    using assms
  proof (induction ns)
    case (Cons n ns)
    show ?case
    proof (cases "g n = a")
      case False
      then have "a < g n" using Cons.prems(2) by (auto simp: less_le)
      then have "\<forall>x \<in> set ns. g x \<noteq> a" using Cons.prems(1) by fastforce
      then have "filter (\<lambda>x. g x = a) ns = []" "filter (\<lambda>x. g x \<noteq> a) ns = ns"
        by (simp_all add: filter_empty_conv)
      then show ?thesis using False by simp
    qed (use Cons in simp)
  qed simp
  then show "takeWhile (\<lambda>x. g x = a) ns = filter (\<lambda>x. g x = a) ns"
    "dropWhile (\<lambda>x. g x = a) ns = filter (\<lambda>x. g x \<noteq> a) ns" by blast+
qed

lemma drop_keys_nth:
  "length (drop_keys ns es) = length es"
  "distinct ns \<Longrightarrow> set ns \<subseteq> {..<length es} \<Longrightarrow> i < length es \<Longrightarrow>
     drop_keys ns es ! i = (if i \<in> set ns then (es ! i)\<lparr>te_key := None\<rparr> else es ! i)"
proof -
  show len: "length (drop_keys ns es) = length es" for es by (induction ns arbitrary: es) auto
  show "distinct ns \<Longrightarrow> set ns \<subseteq> {..<length es} \<Longrightarrow> i < length es \<Longrightarrow>
     drop_keys ns es ! i = (if i \<in> set ns then (es ! i)\<lparr>te_key := None\<rparr> else es ! i)"
    by (induction ns arbitrary: es) (auto simp: nth_list_update)
qed

lemma compress_loop_unchanged: "compress_loop flags l ns d es = (False, es') \<Longrightarrow> es' = es"
proof (induction flags l ns d es rule: compress_loop.induct)
  case (2 flags l n ns d es)
  have no: "compress_loop flags l' ns' True es'' \<noteq> (False, es3)" for l' ns' es'' es3
    by (induction flags l' ns' True es'' rule: compress_loop.induct) (auto simp: Let_def)
  show ?case using 2 no by (auto simp: Let_def split: if_splits)
qed simp

text \<open>The entries at the indices ns are well formed, and g gives their names.\<close>

definition named :: "(nat \<Rightarrow> field_name) \<Rightarrow> nat list \<Rightarrow> table_entry list \<Rightarrow> bool" where
  "named g ns es \<longleftrightarrow> (\<forall>i \<in> set ns. i < length es \<and> entry_ok (es ! i) \<and> fold_name (entry_key es i) = g i)"

lemma named_same:
  assumes "named g ns es" "i \<in> set ns" "j \<in> set ns"
  shows "same_entry_key es i j \<longleftrightarrow> g i = g j"
proof -
  have "te_checksum (es ! k) = COMPUTE_KEY_CHECKSUM (entry_key es k)" if "k \<in> set ns" for k
    using assms(1) that by (auto simp: named_def entry_key_def elim!: entry_okE)
  then show ?thesis
    using assms COMPUTE_KEY_CHECKSUM_fold [of "entry_key es i" "entry_key es j"]
    by (auto simp: same_entry_key_def strcasecmp_eq_0 named_def)
qed

lemma named_change:
  assumes "named g ns es" "set ms \<subseteq> set ns" "length es' = length es"
    and "\<forall>i \<in> set ms. te_key (es' ! i) = te_key (es ! i) \<and> te_checksum (es' ! i) = te_checksum (es ! i)"
  shows "named g ms es'"
  using assms by (auto simp: named_def entry_ok_def entry_key_def subset_iff split: option.splits)

definition compressed :: "overlap_flag \<Rightarrow> (nat \<Rightarrow> field_name) \<Rightarrow> nat list \<Rightarrow> table_entry list \<Rightarrow> nat \<Rightarrow> table_entry" where
  "compressed flags g ns es i =
     (if i \<in> set ns
      then if i = hd (name_group g ns i) then (es ! i)\<lparr>te_val := joined flags (map (\<lambda>j. te_val (es ! j)) (name_group g ns i))\<rparr>
           else (es ! i)\<lparr>te_key := None\<rparr>
      else es ! i)"

lemma te_val_same [simp]: "(e :: table_entry)\<lparr>te_val := te_val e\<rparr> = e"
  by (cases e) simp

lemma hd_name_group: "i \<in> set ns \<Longrightarrow> hd (name_group g ns i) \<in> set ns"
proof -
  assume "i \<in> set ns"
  then have "name_group g ns i \<noteq> []" by (auto simp: name_group_def filter_empty_conv)
  then have "hd (name_group g ns i) \<in> set (name_group g ns i)" by (rule hd_in_set)
  then show ?thesis by (simp add: name_group_def)
qed

lemma name_group_Cons: "g l \<noteq> g i \<Longrightarrow> name_group g (l # ns) i = name_group g ns i"
  by (simp add: name_group_def)

text \<open>The step that joins the duplicates n # dups of l, then goes on with the others.\<close>

lemma compressed_step:
  assumes dist: "distinct (l # ms)" and len: "l < length es" "set ms \<subseteq> {..<length es}"
    and dups: "dups = filter (\<lambda>j. g j = g l) ms" "dups \<noteq> []"
    and others: "others = filter (\<lambda>j. g j \<noteq> g l) ms"
    and es': "es' = drop_keys dups (es[l := (es ! l)\<lparr>te_val := joined flags (map (\<lambda>j. te_val (es ! j)) (l # dups))\<rparr>])"
    and i: "i < length es"
  shows "compressed flags g (l # others) es' i = compressed flags g (l # ms) es i"
proof -
  have nth: "es' ! j = (if j \<in> set dups then (es ! j)\<lparr>te_key := None\<rparr>
      else if j = l then (es ! l)\<lparr>te_val := joined flags (map (\<lambda>j. te_val (es ! j)) (l # dups))\<rparr> else es ! j)"
    if "j < length es" for j
    unfolding es' using that dist len dups(1) by (subst drop_keys_nth(2)) auto
  have gl: "name_group g (l # others) l = [l]" "name_group g (l # ms) l = l # dups"
    by (simp_all add: name_group_def others dups(1))
  consider "i = l" | "i \<in> set dups" | "i \<in> set others" | "i \<notin> set (l # ms)"
    by (auto simp: dups(1) others)
  then show ?thesis
  proof cases
    case 1
    then show ?thesis using nth [OF i] gl dist dups(1) by (simp add: compressed_def)
  next
    case 2
    then have ii: "g i = g l" "i \<in> set ms" "i \<noteq> l" "i \<notin> set (l # others)" using dist by (auto simp: dups(1) others)
    then have "name_group g (l # ms) i = name_group g (l # ms) l" by (simp add: name_group_def)
    then show ?thesis using nth [OF i] ii 2 gl by (simp add: compressed_def)
  next
    case 3
    then have ii: "g i \<noteq> g l" "i \<in> set ms" "i \<noteq> l" "i \<notin> set dups" using dist by (auto simp: dups(1) others)
    have gg: "name_group g (l # others) i = name_group g (l # ms) i"
      using ii(1) by (auto simp: name_group_def others intro: filter_cong)
    have vals: "te_val (es' ! j) = te_val (es ! j)" if "j \<in> set (name_group g (l # ms) i)" for j
    proof -
      have "j \<noteq> l" "j \<notin> set dups" "j < length es" using that ii(1) len by (auto simp: name_group_def dups(1))
      then show ?thesis using nth by simp
    qed
    have "map (\<lambda>j. te_val (es' ! j)) (name_group g (l # ms) i) = map (\<lambda>j. te_val (es ! j)) (name_group g (l # ms) i)"
      using vals by simp
    note m = this
    show ?thesis unfolding compressed_def gg m using nth [OF i] ii 3 by simp
  next
    case 4
    then have "i \<notin> set (l # others)" "i \<notin> set dups" "i \<noteq> l" by (auto simp: others dups(1))
    then show ?thesis using nth [OF i] 4 by (simp add: compressed_def)
  qed
qed

lemma value_update_key:
  "i < length es \<Longrightarrow> te_key (es[l := (es ! l)\<lparr>te_val := v\<rparr>] ! i) = te_key (es ! i)
     \<and> te_checksum (es[l := (es ! l)\<lparr>te_val := v\<rparr>] ! i) = te_checksum (es ! i)"
  by (cases "l = i") auto

lemma compress_loop_spec:
  assumes "sorted (map g (l # ns))" "distinct (l # ns)" "named g (l # ns) es"
    and "compress_loop flags l ns found es = (found', es')"
  shows "length es' = length es \<and> (\<forall>i < length es. es' ! i = compressed flags g (l # ns) es i)"
  using assms
proof (induction flags l ns found es rule: compress_loop.induct)
  case (1 flags l found es)
  then show ?case by (auto simp: compressed_def name_group_def)
next
  case (2 flags l n ns found es)
  have sl: "same_entry_key es j l \<longleftrightarrow> g j = g l" if "j \<in> set (n # ns)" for j
    using named_same [OF 2(5)] that by simp
  show ?case
  proof (cases "g n = g l")
    case True
    let ?dups = "n # takeWhile (\<lambda>d. same_entry_key es d l) ns"
    let ?rest = "dropWhile (\<lambda>d. same_entry_key es d l) ns"
    let ?v = "joined flags (map (\<lambda>j. te_val (es ! j)) (l # ?dups))"
    let ?es = "drop_keys ?dups (es[l := (es ! l)\<lparr>te_val := ?v\<rparr>])"
    have le: "\<forall>x \<in> set ns. g l \<le> g x" "sorted (map g ns)" using 2(3) True by simp_all
    have tw: "takeWhile (\<lambda>d. same_entry_key es d l) ns = takeWhile (\<lambda>d. g d = g l) ns"
      "dropWhile (\<lambda>d. same_entry_key es d l) ns = dropWhile (\<lambda>d. g d = g l) ns"
      by (rule takeWhile_cong, simp_all add: sl) (rule dropWhile_cong, simp_all add: sl)
    have dups: "?dups = filter (\<lambda>j. g j = g l) (n # ns)" and rest: "?rest = filter (\<lambda>j. g j \<noteq> g l) (n # ns)"
      unfolding tw sorted_same_prefix [OF le(2,1)] using True by simp_all
    have v: "(if flags = APR_OVERLAP_TABLES_MERGE then join_values (map (\<lambda>i. te_val (es ! i)) (l # ?dups))
        else te_val (es ! last ?dups)) = ?v"
      by (simp add: joined_def last_map)
    have run: "compress_loop flags l ?rest True ?es = (found', es')"
      using 2(6) True sl [of n] unfolding compress_loop.simps Let_def v by simp
    have len: "l < length es" "set (n # ns) \<subseteq> {..<length es}" using 2(5) by (auto simp: named_def)
    have sub: "set (l # ?rest) \<subseteq> set (l # n # ns)" unfolding rest by auto
    have D: "distinct ?dups" unfolding dups using 2(4) by simp
    have S: "set ?dups \<subseteq> {..<length (es[l := (es ! l)\<lparr>te_val := ?v\<rparr>])}"
      unfolding dups using len(2) by auto
    have "te_key (?es ! i) = te_key (es ! i) \<and> te_checksum (?es ! i) = te_checksum (es ! i)"
      if "i \<in> set (l # ?rest)" for i
    proof -
      have "i \<notin> set ?dups" "i < length es" using that 2(4) len unfolding rest dups by (auto split: if_splits)
      then have "?es ! i = es[l := (es ! l)\<lparr>te_val := ?v\<rparr>] ! i"
        using drop_keys_nth(2) [OF D S] by simp
      then show ?thesis using value_update_key [of i es l] \<open>i < length es\<close> by simp
    qed
    then have nm: "named g (l # ?rest) ?es"
      by (intro named_change [OF 2(5) sub]) (simp_all add: drop_keys_nth(1))
    have srt: "sorted (map g (l # ?rest))" "distinct (l # ?rest)"
      using 2(3,4) unfolding rest by (auto intro: sorted_filter)
    have "same_entry_key es n l" using True sl [of n] by simp
    note IH0 = 2(1) [OF this refl refl refl, unfolded v]
    have IH: "length es' = length ?es \<and> (\<forall>i < length ?es. es' ! i = compressed flags g (l # ?rest) ?es i)"
      by (rule IH0 [OF srt nm run])
    have "compressed flags g (l # ?rest) ?es i = compressed flags g (l # n # ns) es i" if "i < length es" for i
      by (rule compressed_step [OF 2(4) len dups _ rest refl that]) simp
    then show ?thesis using IH by (simp add: drop_keys_nth(1))
  next
    case False
    then have run: "compress_loop flags n ns found es = (found', es')"
      using 2(6) sl [of n] by simp
    have nm: "named g (n # ns) es" using 2(5) by (simp add: named_def)
    have IH: "length es' = length es \<and> (\<forall>i < length es. es' ! i = compressed flags g (n # ns) es i)"
      using 2(2) False sl [of n] 2(3,4) nm run by simp
    have lt: "\<forall>j \<in> set (n # ns). g l \<noteq> g j" using 2(3) False by fastforce
    have "compressed flags g (n # ns) es i = compressed flags g (l # n # ns) es i" for i
    proof (cases "i = l")
      case True
      have "name_group g (l # n # ns) l = [l]" using lt by (auto simp: name_group_def filter_empty_conv)
      then show ?thesis using True 2(4) by (simp add: compressed_def)
    next
      case False
      then show ?thesis using lt name_group_Cons [of g l i "n # ns"] by (auto simp: compressed_def)
    qed
    then show ?thesis using IH by simp
  qed
qed

lemma entry_key_pair: "entry_key es i = fst (entry_pair (es ! i))"
  by (simp add: entry_key_def entry_pair_def split: option.splits)

lemma al_compress_short: "length al \<le> 1 \<Longrightarrow> al_compress flags al = al"
  by (cases al) auto

lemma apr_table_compress_ok:
  assumes ok: "table_ok t"
  shows "table_ok (apr_table_compress flags t)" (is ?ok)
    and "table_fields (apr_table_compress flags t) = al_compress flags (table_fields t)" (is ?al)
proof -
  have "?ok \<and> ?al"
  proof (cases "length (t_elts t) \<le> 1")
    case True
    then show ?thesis using ok by (simp add: apr_table_compress_def al_compress_short table_fields_def)
  next
    case False
    let ?es = "t_elts t" and ?n = "length (t_elts t)"
    let ?g = "\<lambda>i. fold_name (entry_key ?es i)"
    let ?C = "compressed flags ?g [0..<?n] ?es"
    let ?P = "\<lambda>e. te_key e \<noteq> None"
    have srt: "table_mergesort (entry_key ?es) [0..<?n] = sort_key ?g [0..<?n]"
      by (rule table_mergesort_sort_key)
    obtain l ns where lns: "sort_key ?g [0..<?n] = l # ns"
      using False by (cases "sort_key ?g [0..<?n]") (auto dest: arg_cong [of _ _ length])
    obtain found es' where run: "compress_loop flags l ns False ?es = (found, es')" by fastforce
    have set: "set (l # ns) = {..<?n}" unfolding lns [symmetric] by auto
    have nm: "named ?g (l # ns) ?es" unfolding named_def set using entries_ok [OF ok] by simp
    have "sorted (map ?g (l # ns))" "distinct (l # ns)" unfolding lns [symmetric] by simp_all
    note spec = compress_loop_spec [OF this nm run]
    have grp: "name_group ?g (l # ns) i = name_group ?g [0..<?n] i" for i
      unfolding lns [symmetric] name_group_def by (rule sort_key_stable)
    have "compressed flags ?g (l # ns) ?es i = ?C i" for i
      unfolding compressed_def grp set by auto
    then have es': "es' = map ?C [0..<?n]" using spec by (intro nth_equalityI) simp_all
    have "(if found then filter ?P es' else es') = filter ?P es'"
    proof (cases found)
      case False
      then have "es' = ?es" using compress_loop_unchanged run by simp
      moreover have "\<forall>e \<in> set ?es. ?P e" using entries_ok [OF ok] by (auto elim: entry_okE)
      ultimately show ?thesis using False by simp
    qed simp
    then have op: "apr_table_compress flags t = table_reindex (t\<lparr>t_elts := filter ?P es'\<rparr>)"
      using False unfolding apr_table_compress_def Let_def srt lns list.sel run by simp
    have first: "?P (?C i) \<longleftrightarrow> i = hd (name_group ?g [0..<?n] i)"
        "entry_pair (?C i) = (fst (entry_pair (?es ! i)), joined flags (map (\<lambda>j. te_val (?es ! j)) (name_group ?g [0..<?n] i)))"
        "entry_ok (?C i)"
      if "i < ?n" "?P (?C i) \<or> i = hd (name_group ?g [0..<?n] i)" for i
      using that entries_ok [OF ok, of "?es ! i"]
      by (auto simp: compressed_def entry_pair_def entry_ok_def split: option.splits if_splits)
    have P: "?P (?C i) \<longleftrightarrow> i = hd (name_group ?g [0..<?n] i)" if "i < ?n" for i
      using first(1) [OF that] by blast
    have flt: "filter ?P es' = map ?C (filter (\<lambda>i. i = hd (name_group ?g [0..<?n] i)) [0..<?n])"
      unfolding es' filter_map o_def by (rule arg_cong [of _ _ "map ?C"], rule filter_cong, rule refl, rule P, simp)
    have "map entry_pair (filter ?P es') = al_compress flags (map (\<lambda>i. entry_pair (?es ! i)) [0..<?n])"
    proof -
      have "al_compress flags (map (\<lambda>i. entry_pair (?es ! i)) [0..<?n])
          = map (\<lambda>i. (fst (entry_pair (?es ! i)), joined flags (map (\<lambda>j. snd (entry_pair (?es ! j))) (name_group ?g [0..<?n] i))))
              (filter (\<lambda>i. i = hd (name_group ?g [0..<?n] i)) [0..<?n])"
        by (rule al_compress_groups) (simp_all only: distinct_upt entry_key_pair)
      then show ?thesis
        unfolding flt map_map o_def snd_entry_pair
        by (elim ssubst) (rule map_cong, rule refl, rule first(2), auto)
    qed
    moreover have "map (\<lambda>i. entry_pair (?es ! i)) [0..<?n] = table_fields t"
      unfolding table_fields_def by (intro nth_equalityI) simp_all
    moreover have "set (filter ?P es') \<subseteq> {e. entry_ok e}" unfolding flt using first(3) by auto
    moreover have "length (filter ?P es') \<le> ?n" using length_filter_le [of ?P es'] es' by simp
    ultimately show ?thesis unfolding op using reindexed_ok [OF ok] by metis
  qed
  then show ?ok ?al by blast+
qed

section \<open>Joining tables\<close>

lemma grown_size_enough: "0 < k \<Longrightarrow> need \<le> grown_size need k \<and> 0 < grown_size need k"
proof (induction need k rule: grown_size.induct)
  case (1 need k)
  then show ?case by (subst (1 2) grown_size.simps) auto
qed

lemma array_cat_nalloc_enough:
  "n + k \<le> array_cat_nalloc nalloc n k"
  using grown_size_enough [of "nalloc * 2" "n + k"] grown_size_enough [of 1 "n + k"] by (auto simp: array_cat_nalloc_def)

lemma INITIALIZED_or:
  "t_initialized u = t_initialized t OR t_initialized s \<Longrightarrow>
     TABLE_INDEX_IS_INITIALIZED u h \<longleftrightarrow> TABLE_INDEX_IS_INITIALIZED t h \<or> TABLE_INDEX_IS_INITIALIZED s h"
  by (simp add: TABLE_INDEX_IS_INITIALIZED_def bit_or_iff)

text \<open>The index of two tables put one behind the other.\<close>

definition delimits :: "nat list \<Rightarrow> nat \<Rightarrow> nat \<Rightarrow> nat \<Rightarrow> bool" where
  "delimits hs h f l \<longleftrightarrow> f < length hs \<and> hs ! f = h \<and> l < length hs \<and> hs ! l = h
     \<and> (\<forall>i < length hs. hs ! i = h \<longrightarrow> f \<le> i \<and> i \<le> l)"

lemma slot_ok_delimits:
  "slot_ok hs t h \<longleftrightarrow>
     (if TABLE_INDEX_IS_INITIALIZED t h then delimits hs h (t_first t ! h) (t_last t ! h) else h \<notin> set hs)"
  by (simp add: slot_ok_def delimits_def)

lemma delimits_both:
  assumes "delimits hs h f l" "delimits ks h f' l'"
  shows "delimits (hs @ ks) h f (l' + length hs)"
  unfolding delimits_def
proof (intro conjI allI impI)
  fix i
  assume i: "i < length (hs @ ks)" "(hs @ ks) ! i = h"
  show "f \<le> i" using assms i by (cases "i < length hs") (auto simp: delimits_def nth_append)
  show "i \<le> l' + length hs"
  proof (cases "i < length hs")
    case False
    then have "i - length hs \<le> l'" using assms(2) i by (simp add: delimits_def nth_append)
    then show ?thesis by simp
  qed simp
qed (use assms in \<open>simp_all add: delimits_def nth_append\<close>)

lemma delimits_left:
  assumes "delimits hs h f l" "h \<notin> set ks"
  shows "delimits (hs @ ks) h f l"
  unfolding delimits_def
proof (intro conjI allI impI)
  fix i
  assume i: "i < length (hs @ ks)" "(hs @ ks) ! i = h"
  have "i < length hs"
  proof (rule ccontr)
    assume "\<not> i < length hs"
    then have "ks ! (i - length hs) = h" "i - length hs < length ks" using i by (simp_all add: nth_append)
    then show False using assms(2) nth_mem by blast
  qed
  then show "f \<le> i" "i \<le> l" using assms(1) i by (auto simp: delimits_def nth_append)
qed (use assms(1) in \<open>simp_all add: delimits_def nth_append\<close>)

lemma delimits_right:
  assumes "h \<notin> set hs" "delimits ks h f l"
  shows "delimits (hs @ ks) h (f + length hs) (l + length hs)"
  unfolding delimits_def
proof (intro conjI allI impI)
  fix i
  assume i: "i < length (hs @ ks)" "(hs @ ks) ! i = h"
  have "\<not> i < length hs" using assms(1) i nth_mem [of i hs] by (auto simp: nth_append)
  then have "f \<le> i - length hs" "i - length hs \<le> l" "length hs \<le> i"
    using assms(2) i by (simp_all add: delimits_def nth_append)
  then show "f + length hs \<le> i" "i \<le> l + length hs" by simp_all
qed (use assms(2) in \<open>simp_all add: delimits_def nth_append\<close>)

lemma slot_ok_cat:
  assumes "slot_ok hs t h" "slot_ok ks s h"
    and "TABLE_INDEX_IS_INITIALIZED u h \<longleftrightarrow> TABLE_INDEX_IS_INITIALIZED t h \<or> TABLE_INDEX_IS_INITIALIZED s h"
    and "t_last u ! h = (if TABLE_INDEX_IS_INITIALIZED s h then t_last s ! h + length hs else t_last t ! h)"
    and "t_first u ! h = (if TABLE_INDEX_IS_INITIALIZED s h \<and> \<not> TABLE_INDEX_IS_INITIALIZED t h
      then t_first s ! h + length hs else t_first t ! h)"
  shows "slot_ok (hs @ ks) u h"
  using assms delimits_both [of hs h "t_first t ! h" "t_last t ! h" ks "t_first s ! h" "t_last s ! h"]
    delimits_left [of hs h "t_first t ! h" "t_last t ! h" ks]
    delimits_right [of h hs ks "t_first s ! h" "t_last s ! h"]
  unfolding slot_ok_delimits by (simp split: if_splits)

lemma apr_table_cat_ok:
  assumes t: "table_ok t" and s: "table_ok s"
  shows "table_ok (apr_table_cat t s)" and "table_fields (apr_table_cat t s) = table_fields t @ table_fields s"
proof -
  let ?u = "apr_table_cat t s"
  have es: "t_elts ?u = t_elts t @ t_elts s" by (simp add: apr_table_cat_def Let_def)
  then show "table_fields ?u = table_fields t @ table_fields s" by (simp add: table_fields_def)
  have na: "length (t_elts ?u) \<le> t_nalloc ?u"
    using array_cat_nalloc_enough [of "length (t_elts t)" "length (t_elts s)" "t_nalloc t"] t
    by (auto simp: apr_table_cat_def Let_def table_ok_def)
  have "index_ok (map entry_hash (t_elts ?u)) ?u"
  proof (cases "t_elts t = []")
    case True
    then have "t_first ?u = t_first s" "t_last ?u = t_last s" "t_initialized ?u = t_initialized s"
      by (simp_all add: apr_table_cat_def Let_def)
    then show ?thesis using s True es index_ok_cong [of ?u s] by (simp add: table_ok_def)
  next
    case False
    have "slot_ok (map entry_hash (t_elts t) @ map entry_hash (t_elts s)) ?u h" if "h < TABLE_HASH_SIZE" for h
      by (rule slot_ok_cat [where t = t and s = s])
        (use s t that False in \<open>simp_all add: table_ok_def index_ok_def apr_table_cat_def Let_def INITIALIZED_or\<close>)
    then show ?thesis using False es by (simp add: index_ok_def apr_table_cat_def Let_def)
  qed
  then show "table_ok ?u" using es na t s by (auto simp: table_ok_def)
qed

lemma apr_table_overlap_ok:
  assumes "table_ok a" "table_ok b"
  shows "table_ok (apr_table_overlap a b flags)"
    and "table_fields (apr_table_overlap a b flags) = al_compress flags (table_fields a @ table_fields b)"
  using apr_table_compress_ok [OF apr_table_cat_ok(1) [OF assms]] apr_table_cat_ok(2) [OF assms] assms
  by (auto simp: apr_table_overlap_def table_fields_def)

lemma apr_table_overlay_ok:
  assumes "table_ok overlay" "table_ok base" "length f = TABLE_HASH_SIZE" "length l = TABLE_HASH_SIZE"
  shows "table_ok (apr_table_overlay f l overlay base)"
    and "table_fields (apr_table_overlay f l overlay base) = table_fields overlay @ table_fields base"
proof -
  let ?u = "\<lparr>t_elts = t_elts overlay @ t_elts base,
    t_nalloc = array_cat_nalloc (length (t_elts overlay)) (length (t_elts overlay)) (length (t_elts base)),
    t_initialized = 0, t_first = f, t_last = l\<rparr>"
  have p: "\<forall>e \<in> set (t_elts ?u). entry_ok e" "length (t_first ?u) = TABLE_HASH_SIZE"
    "length (t_last ?u) = TABLE_HASH_SIZE" "length (t_elts ?u) \<le> t_nalloc ?u"
    using assms array_cat_nalloc_enough [of "length (t_elts overlay)" "length (t_elts base)" "length (t_elts overlay)"]
    by (auto simp: table_ok_def)
  show "table_ok (apr_table_overlay f l overlay base)"
    unfolding apr_table_overlay_def by (rule table_reindex_ok(1) [OF p])
  show "table_fields (apr_table_overlay f l overlay base) = table_fields overlay @ table_fields base"
    unfolding table_fields_def apr_table_overlay_def table_reindex_ok(2) [OF p] by simp
qed

section \<open>Copies and walks\<close>

lemma clone_loop_ok:
  "table_ok u \<Longrightarrow> \<forall>e \<in> set es. entry_ok e \<Longrightarrow>
     table_ok (clone_loop es u) \<and> table_fields (clone_loop es u) = table_fields u @ map entry_pair es"
proof (induction es arbitrary: u)
  case (Cons e es)
  then obtain k where k: "te_key e = Some k" "entry_pair e = (k, te_val e)"
    by (auto elim!: entry_okE simp: entry_pair_def)
  show ?case using Cons.IH [OF apr_table_add_ok(1) [OF Cons.prems(1), of k "te_val e"]] Cons.prems(2)
      apr_table_add_ok(2) [OF Cons.prems(1), of k "te_val e"]
    by (simp add: k)
qed simp

lemma apr_table_clone_ok:
  assumes "table_ok t" "length f = TABLE_HASH_SIZE" "length l = TABLE_HASH_SIZE"
  shows "table_ok (apr_table_clone f l t)" "table_fields (apr_table_clone f l t) = table_fields t"
  using clone_loop_ok [OF apr_table_make_ok(1) [OF assms(2,3), of "length (t_elts t)"], of "t_elts t"]
    assms(1) apr_table_make_ok(2)
  by (simp_all add: apr_table_clone_def table_ok_def table_fields_def)

text \<open>Calling back for one field after the other until the callback returns false.\<close>

fun al_walk :: "('r \<Rightarrow> cstr \<Rightarrow> cstr \<Rightarrow> bool \<times> 'r) \<Rightarrow> fields \<Rightarrow> bool \<times> 'r \<Rightarrow> bool \<times> 'r" where
  "al_walk callback [] st = st"
| "al_walk callback (kv # al) (rv, r) =
     (if rv then al_walk callback al (callback r (fst kv) (snd kv)) else (rv, r))"

fun al_walks :: "('r \<Rightarrow> cstr \<Rightarrow> cstr \<Rightarrow> bool \<times> 'r) \<Rightarrow> fields \<Rightarrow> cstr list \<Rightarrow> bool \<times> 'r \<Rightarrow> bool \<times> 'r" where
  "al_walks callback al [] st = st"
| "al_walks callback al (key # keys) (rv, r) =
     (case al_walk callback (filter (same_name key) al) (True, r) of
        (rv', r') \<Rightarrow> al_walks callback al keys (rv \<and> rv', r'))"

lemma al_walk_stopped [simp]: "al_walk callback al (False, r) = (False, r)"
  by (cases al) simp_all

lemma vdo_all_walk:
  "\<forall>e \<in> set es. entry_ok e \<Longrightarrow> vdo_all_loop callback es st = al_walk callback (map entry_pair es) st"
proof (induction callback es st rule: vdo_all_loop.induct)
  case (2 callback e es rv r)
  then obtain k where "te_key e = Some k" "entry_pair e = (k, te_val e)"
    by (auto elim!: entry_okE simp: entry_pair_def)
  then show ?case using 2 by simp
qed simp

lemma vdo_key_walk:
  assumes "\<forall>e \<in> set es. entry_ok e" "l < length es"
  shows "vdo_key_loop callback es argp i l st
    = al_walk callback (filter (same_name argp) (map entry_pair (take (Suc l - i) (drop i es)))) st"
  using assms
proof (induction callback es argp i l st rule: vdo_key_loop.induct)
  case (1 callback es argp i l st)
  obtain rv r where st: "st = (rv, r)" by fastforce
  show ?case
  proof (cases "rv \<and> i \<le> l")
    case True
    then have i: "i < length es" using "1.prems"(2) by simp
    then have ok: "entry_ok (es ! i)" using "1.prems"(1) by simp
    then obtain k where k: "te_key (es ! i) = Some k" "entry_pair (es ! i) = (k, te_val (es ! i))"
      by (auto elim!: entry_okE simp: entry_pair_def)
    have m: "COMPUTE_KEY_CHECKSUM argp = te_checksum (es ! i) \<and> strcasecmp k argp = 0
        \<longleftrightarrow> same_name argp (entry_pair (es ! i))"
      using entry_matches_iff [OF ok, of argp] k(1) by (simp add: entry_matches_def)
    have slice: "take (Suc l - i) (drop i es) = es ! i # take (Suc l - (i + 1)) (drop (i + 1) es)"
      using True i by (simp add: Cons_nth_drop_Suc [symmetric] Suc_diff_le)
    note IH = "1.IH" [OF st [symmetric] True "1.prems"]
    have "vdo_key_loop callback es argp i l st = vdo_key_loop callback es argp (i + 1) l
        (if same_name argp (entry_pair (es ! i)) then callback r k (te_val (es ! i)) else (rv, r))"
      using True k(1) m unfolding st by (subst vdo_key_loop.simps) simp
    then show ?thesis using IH True k m unfolding slice st by simp
  next
    case False
    then show ?thesis unfolding st by (subst vdo_key_loop.simps) auto
  qed
qed

lemma vdo_key_fields:
  assumes ok: "table_ok t"
  shows "vdo_key callback t argp r = al_walk callback (filter (same_name argp) (table_fields t)) (True, r)"
proof -
  let ?h = "TABLE_HASH argp" and ?es = "t_elts t"
  note slot = table_ok_slot [OF ok, of argp, unfolded slot_ok_def]
  show ?thesis
  proof (cases "TABLE_INDEX_IS_INITIALIZED t ?h")
    case False
    then have "\<forall>e \<in> set ?es. \<not> same_name argp (entry_pair e)" using slot same_name_hash by force
    then have "filter (same_name argp) (table_fields t) = []" by (auto simp: table_fields_def filter_empty_conv)
    then show ?thesis using False by (simp add: vdo_key_def)
  next
    case True
    let ?f = "t_first t ! ?h" and ?l = "t_last t ! ?h"
    have b: "?f < length ?es" "?l < length ?es" "\<And>i. i < length ?es \<Longrightarrow> same_name argp (entry_pair (?es ! i)) \<Longrightarrow> ?f \<le> i \<and> i \<le> ?l"
      using slot True same_name_hash by auto
    have "\<not> same_name argp (entry_pair (?es ! j))" if "j < length ?es" "j < ?f \<or> ?l < j" for j
      using b(3) [OF that(1)] that(2) by auto
    then have out: "filter (\<lambda>e. same_name argp (entry_pair e)) (take ?f ?es) = []"
        "filter (\<lambda>e. same_name argp (entry_pair e)) (drop (Suc ?l) ?es) = []"
      by (auto simp: filter_empty_conv in_set_conv_nth)
    have "?f \<le> Suc ?l"
    proof -
      have "map entry_hash ?es ! ?f = ?h" using slot True by simp
      then show ?thesis using slot True b(1) by auto
    qed
    then have "?es = take ?f ?es @ take (Suc ?l - ?f) (drop ?f ?es) @ drop (Suc ?l) ?es"
      using drop_slice [of ?f "Suc ?l" ?es] by simp
    then have "filter (\<lambda>e. same_name argp (entry_pair e)) ?es
        = filter (\<lambda>e. same_name argp (entry_pair e)) (take (Suc ?l - ?f) (drop ?f ?es))"
      using out by (metis append_Nil append_Nil2 filter_append)
    then show ?thesis
      using True vdo_key_walk [OF _ b(2)] ok
      by (simp add: vdo_key_def Let_def table_ok_def table_fields_def filter_map o_def)
  qed
qed

lemma vdo_keys_fields: "table_ok t \<Longrightarrow> vdo_keys callback t keys st = al_walks callback (table_fields t) keys st"
  by (induction callback t keys st rule: vdo_keys.induct) (auto simp: vdo_key_fields split: prod.splits)

section \<open>Sequences of operations\<close>

datatype table_request =
    Table_set cstr cstr
  | Table_unset cstr
  | Table_merge cstr cstr
  | Table_add cstr cstr
  | Table_clear
  | Table_compress overlap_flag

fun table_serve :: "table_request \<Rightarrow> apr_table \<Rightarrow> apr_table" where
  "table_serve (Table_set k v) t = apr_table_set k v t"
| "table_serve (Table_unset k) t = apr_table_unset k t"
| "table_serve (Table_merge k v) t = apr_table_merge k v t"
| "table_serve (Table_add k v) t = apr_table_add k v t"
| "table_serve Table_clear t = apr_table_clear t"
| "table_serve (Table_compress flags) t = apr_table_compress flags t"

fun al_serve :: "table_request \<Rightarrow> fields \<Rightarrow> fields" where
  "al_serve (Table_set k v) al = al_set k v al"
| "al_serve (Table_unset k) al = al_unset k al"
| "al_serve (Table_merge k v) al = al_merge k v al"
| "al_serve (Table_add k v) al = al @ [(k, v)]"
| "al_serve Table_clear al = []"
| "al_serve (Table_compress flags) al = al_compress flags al"

lemma table_serve_ok:
  assumes "table_ok t"
  shows "table_ok (table_serve r t)" "table_fields (table_serve r t) = al_serve r (table_fields t)"
  by (cases r; simp add: assms apr_table_set_ok apr_table_unset_ok apr_table_merge_ok apr_table_add_ok
      apr_table_clear_ok apr_table_compress_ok)+

lemma table_run_ok:
  "table_ok t \<Longrightarrow> table_ok (fold table_serve rs t) \<and> table_fields (fold table_serve rs t) = fold al_serve rs (table_fields t)"
  by (induction rs arbitrary: t) (simp_all add: table_serve_ok)

subsection \<open>A table as a store keyed by field names\<close>

definition table_look :: "apr_table \<Rightarrow> field_name \<Rightarrow> cstr option" where
  "table_look t k = apr_table_get t (Some (name_text k))"

definition table_put :: "field_name \<Rightarrow> cstr option \<Rightarrow> apr_table \<Rightarrow> apr_table" where
  "table_put k v t =
     (case v of None \<Rightarrow> apr_table_unset (name_text k) t | Some v \<Rightarrow> apr_table_set (name_text k) v t)"

lemma al_get_none: "al_get k al = None \<longleftrightarrow> (\<forall>kv \<in> set al. \<not> same_name k kv)"
  by (auto simp: al_get_def find_None_iff)

lemma al_get_set:
  "al_get k (al_set k' v al) = (if fold_name k = fold_name k' then Some v else al_get k al)"
proof (induction k' v al rule: al_set.induct)
  case (2 key val kv al)
  have "List.find (same_name k) (filter (\<lambda>kv. \<not> same_name key kv) al) = List.find (same_name k) al"
    if "fold_name k \<noteq> fold_name key"
    using that by (induction al) (auto simp: same_name_def)
  then show ?case using 2 by (auto simp: al_get_def same_name_def)
qed (auto simp: al_get_def same_name_def)

lemma al_get_unset:
  "al_get k (al_unset k' al) = (if fold_name k = fold_name k' then None else al_get k al)"
  by (induction al) (auto simp: al_get_def al_unset_def same_name_def)

interpretation at: keyed_store table_ok table_look table_put
proof
  fix t k v
  assume ok: "table_ok t"
  show ok': "table_ok (table_put k v t)"
    by (simp add: table_put_def ok apr_table_set_ok apr_table_unset_ok split: option.splits)
  show "table_look (table_put k v t) = (table_look t)(k := v)"
  proof
    fix k'
    have "k' = k \<longleftrightarrow> fold_name (name_text k') = fold_name (name_text k)" by simp
    then show "table_look (table_put k v t) k' = ((table_look t)(k := v)) k'"
      unfolding table_look_def apr_table_get_fields [OF ok] apr_table_get_fields [OF ok']
      by (simp add: table_put_def apr_table_set_ok(2) [OF ok] apr_table_unset_ok(2) [OF ok]
          al_get_set al_get_unset split: option.splits)
  qed
qed

section \<open>Properties\<close>

text \<open>
  C16. A table is an association list: whatever sequence of sets, unsets,
  merges, adds, clears and compressions is applied to a new table, its entries
  are those of the same operations on the list of fields, in the same order;
  the index, the checksums and the shifting of entries change nothing.
\<close>

theorem apr_table_refines:
  assumes "length f = 32" "length l = 32"
  shows "table_fields (fold table_serve rs (apr_table_make f l n)) = fold al_serve rs []"
  using table_run_ok [OF apr_table_make_ok(1), of f l rs n] assms
  by (simp add: TABLE_HASH_SIZE_def apr_table_make_ok(2))

theorem apr_table_refines_witness:
  "table_fields (fold table_serve
     [Table_add ''Accept'' ''a'', Table_add ''Host'' ''h'', Table_add ''ACCEPT'' ''b'', Table_merge ''host'' ''i'',
      Table_set ''accept'' ''c'', Table_unset ''Via'']
     (apr_table_make (replicate 32 0) (replicate 32 0) 2))
   = [(''Accept'', ''c''), (''Host'', ''h, i'')]"
  by (subst apr_table_refines) (simp_all add: same_name_def fold_name_eq_iff al_unset_def ctype_simps char_of_def bit_0)

text \<open>
  C18. The index of a table is exact: after any sequence of operations the bit
  of a slot is set if and only if some key of the table hashes to it, and then
  the two indices of the slot are the first and the last such entry.
\<close>

theorem table_index_exact:
  assumes "length f = 32" "length l = 32" "h < 32" and "t = fold table_serve rs (apr_table_make f l n)"
  shows "if TABLE_INDEX_IS_INITIALIZED t h then delimits (map entry_hash (t_elts t)) h (t_first t ! h) (t_last t ! h)
    else h \<notin> set (map entry_hash (t_elts t))"
proof -
  have "table_ok t" using table_run_ok [OF apr_table_make_ok(1), of f l rs n] assms by (simp add: TABLE_HASH_SIZE_def)
  then have "slot_ok (map entry_hash (t_elts t)) t h"
    using assms(3) by (simp add: table_ok_def index_ok_def TABLE_HASH_SIZE_def)
  then show ?thesis by (simp only: slot_ok_delimits)
qed

theorem table_index_exact_witness:
  "TABLE_HASH ''Host'' \<in> set (map entry_hash (t_elts (fold table_serve [Table_add ''Host'' ''h''] (apr_table_make (replicate 32 0) (replicate 32 0) 2))))
   \<and> delimits (map entry_hash (t_elts (fold table_serve [Table_add ''Host'' ''h''] (apr_table_make (replicate 32 0) (replicate 32 0) 2))))
       (TABLE_HASH ''Host'') 0 0"
proof -
  let ?t = "fold table_serve [Table_add ''Host'' ''h''] (apr_table_make (replicate 32 0) (replicate 32 0) 2)"
  have h: "TABLE_HASH ''Host'' = 8" by (simp add: TABLE_HASH_def key_byte_def low_five)
  have t: "TABLE_INDEX_IS_INITIALIZED ?t 8" "t_first ?t ! 8 = 0" "t_last ?t ! 8 = 0" "map entry_hash (t_elts ?t) = [8]"
    using h by (simp_all add: apr_table_add_def index_entry_def table_push_def apr_table_make_def Let_def
        TABLE_INDEX_IS_INITIALIZED_def TABLE_SET_INDEX_INITIALIZED_def bit_simps entry_hash_def)
  have "if TABLE_INDEX_IS_INITIALIZED ?t 8 then delimits (map entry_hash (t_elts ?t)) 8 (t_first ?t ! 8) (t_last ?t ! 8)
      else 8 \<notin> set (map entry_hash (t_elts ?t))"
    by (rule table_index_exact [OF _ _ _ refl]) simp_all
  then have "delimits [8] 8 0 0" by (simp only: t if_True)
  then show ?thesis unfolding h t(4) by simp
qed

text \<open>
  Field names do not depend on case, and the last update of a name counts:
  after any updates of a well-formed table, each of which sets a name or unsets
  it, looking up a key in any case gives what the last update of its name left,
  or what the table had before when there was none.
\<close>

theorem apr_table_last_update_counts:
  assumes "table_ok t"
  shows "apr_table_get (fold (\<lambda>(k, v). table_put k v) ops t) (Some key)
    = fold (\<lambda>(k, v) m. m(k := v)) ops (table_look t) (fold_name key)"
proof -
  have ok: "table_ok (fold (\<lambda>(k, v). table_put k v) ops t)" by (rule at.inv_puts) (rule assms)
  have "same_name key = same_name (name_text (fold_name key))"
    by (rule ext) (simp add: same_name_def)
  then have "apr_table_get (fold (\<lambda>(k, v). table_put k v) ops t) (Some key)
      = table_look (fold (\<lambda>(k, v). table_put k v) ops t) (fold_name key)"
    unfolding table_look_def apr_table_get_fields [OF ok] al_get_def by simp
  then show ?thesis unfolding at.look_puts [OF assms] .
qed

theorem apr_table_last_update_counts_witness:
  "apr_table_get (fold (\<lambda>(k, v). table_put k v)
     [(fold_name ''Host'', Some ''a''), (fold_name ''Via'', Some ''v''), (fold_name ''host'', Some ''b''), (fold_name ''VIA'', None)]
     (apr_table_make (replicate 32 0) (replicate 32 0) 5)) (Some ''HOST'') = Some ''b''"
  by (subst apr_table_last_update_counts)
    (simp_all add: apr_table_make_ok TABLE_HASH_SIZE_def fold_name_eq_iff ctype_simps char_of_def bit_0)

text \<open>
  The bottom-up merge sort of a table sorts by the name of the keys and is
  stable: it computes what the sort of the library does.
\<close>

theorem table_mergesort_stable:
  "table_mergesort key vs = sort_key (\<lambda>x. fold_name (key x)) vs"
  by (rule table_mergesort_sort_key)

text \<open>
  C17. Overlapping two tables gives a well-formed table in which each name
  occurs once, at its first place in the two tables one after the other, with
  the values of all its occurrences joined by commas in that order, or with
  the last of them.
\<close>

theorem apr_table_overlap_correct:
  assumes "table_ok a" "table_ok b"
  shows "table_ok (apr_table_overlap a b flags)
    \<and> table_fields (apr_table_overlap a b flags) = al_compress flags (table_fields a @ table_fields b)"
  using apr_table_overlap_ok [OF assms] by blast

theorem apr_table_overlap_correct_witness:
  "table_fields (apr_table_overlap
     (fold table_serve [Table_add ''Via'' ''x'', Table_add ''Host'' ''h''] (apr_table_make (replicate 32 0) (replicate 32 0) 2))
     (fold table_serve [Table_add ''VIA'' ''y'', Table_add ''Age'' ''1'', Table_add ''via'' ''z''] (apr_table_make (replicate 32 0) (replicate 32 0) 2))
     APR_OVERLAP_TABLES_MERGE)
   = [(''Via'', ''x, y, z''), (''Host'', ''h''), (''Age'', ''1'')]"
  (is "table_fields (apr_table_overlap ?A ?B _) = _")
proof -
  let ?new = "apr_table_make (replicate 32 0) (replicate 32 0) 2"
  have ok: "table_ok ?new" by (rule apr_table_make_ok) (simp_all add: TABLE_HASH_SIZE_def)
  have A: "table_ok ?A" "table_fields ?A = [(''Via'', ''x''), (''Host'', ''h'')]"
    and B: "table_ok ?B" "table_fields ?B = [(''VIA'', ''y''), (''Age'', ''1''), (''via'', ''z'')]"
    by (simp_all add: apr_table_add_ok ok apr_table_make_ok(2))
  show ?thesis
    using conjunct2 [OF apr_table_overlap_correct [OF A(1) B(1), of APR_OVERLAP_TABLES_MERGE]]
    unfolding A(2) B(2) by (simp add: same_name_def fold_name_eq_iff joined_def ctype_simps char_of_def bit_0)
qed

text \<open>
  A walk over a table calls back for the entries with the name asked for,
  in order, and no other ones, although it looks only between the two indices
  of a slot; a callback that returns false ends the walk for that name only.
\<close>

theorem apr_table_vdo_correct:
  assumes "table_ok t"
  shows "apr_table_vdo callback r t keys =
    (if keys = [] then al_walk callback (table_fields t) (True, r)
     else al_walks callback (table_fields t) keys (True, r))"
proof -
  have "\<forall>e \<in> set (t_elts t). entry_ok e" using assms by (simp add: table_ok_def)
  note all = vdo_all_walk [OF this]
  show ?thesis
    unfolding apr_table_vdo_def vdo_keys_fields [OF assms] all table_fields_def ..
qed

theorem apr_table_vdo_correct_witness:
  "apr_table_vdo (\<lambda>r k v. (v \<noteq> ''x'', r @ [v])) []
     (fold table_serve [Table_add ''Via'' ''w'', Table_add ''Host'' ''h'', Table_add ''VIA'' ''x'', Table_add ''via'' ''y'']
        (apr_table_make (replicate 32 0) (replicate 32 0) 2)) [''via'', ''host'']
   = (False, [''w'', ''x'', ''h''])"
proof -
  let ?new = "apr_table_make (replicate 32 0) (replicate 32 0) 2"
  have ok: "table_ok ?new" by (rule apr_table_make_ok) (simp_all add: TABLE_HASH_SIZE_def)
  show ?thesis
    by (subst apr_table_vdo_correct [OF conjunct1 [OF table_run_ok [OF ok]]])
      (simp add: apr_table_add_ok ok apr_table_make_ok(2) same_name_def fold_name_eq_iff ctype_simps char_of_def bit_0)
qed

section \<open>The documented loop\<close>

text \<open>What apr_tables.h says apr_table_overlap does.\<close>

definition overlap_loop :: "overlap_flag \<Rightarrow> fields \<Rightarrow> apr_table \<Rightarrow> apr_table" where
  "overlap_loop flags bs a =
     fold (\<lambda>(k, v). if flags = APR_OVERLAP_TABLES_MERGE then apr_table_mergen k v else apr_table_setn k v) bs a"

definition al_put :: "overlap_flag \<Rightarrow> cstr \<times> cstr \<Rightarrow> fields \<Rightarrow> fields" where
  "al_put flags kv al =
     (if flags = APR_OVERLAP_TABLES_MERGE then al_merge (fst kv) (snd kv) al else al_set (fst kv) (snd kv) al)"

lemma join_values_snoc: "vs \<noteq> [] \<Longrightarrow> join_values (vs @ [v]) = join_values vs @ '', '' @ v"
proof (induction vs rule: join_values.induct)
  case (3 v w vs)
  then show ?case by (cases vs) simp_all
qed simp_all

lemma joined_snoc:
  "joined flags (v # vs @ [w]) = (if flags = APR_OVERLAP_TABLES_MERGE then joined flags (v # vs) @ '', '' @ w else w)"
  using join_values_snoc [of "v # vs" w] by (simp add: joined_def)

lemma al_compress_names:
  "kv \<in> set (al_compress flags al) \<Longrightarrow> \<exists>kv' \<in> set al. fst kv' = fst kv"
proof (induction flags al rule: al_compress.induct)
  case (2 flags x al)
  from 2(2) consider "kv = (fst x, joined flags (snd x # map snd (filter (same_name (fst x)) al)))"
    | "kv \<in> set (al_compress flags (filter (\<lambda>kv'. \<not> same_name (fst x) kv') al))" by auto
  then show ?case
  proof cases
    case 2
    with "2.IH" obtain y where "y \<in> set al" "fst y = fst kv" by auto
    then show ?thesis by auto
  qed simp
qed simp

lemma al_compress_snoc: "al_compress flags (al @ [kv]) = al_put flags kv (al_compress flags al)"
proof (induction "length al" arbitrary: al rule: less_induct)
  case less
  show ?case
  proof (cases al)
    case (Cons x r)
    show ?thesis
    proof (cases "same_name (fst x) kv")
      case True
      then have sym: "same_name (fst kv) y \<longleftrightarrow> same_name (fst x) y" for y by (simp add: same_name_def)
      have "filter (\<lambda>y. \<not> same_name (fst x) y) (al_compress flags (filter (\<lambda>y. \<not> same_name (fst x) y) r))
          = al_compress flags (filter (\<lambda>y. \<not> same_name (fst x) y) r)"
        using al_compress_names by (fastforce simp: filter_id_conv same_name_def)
      then show ?thesis using True unfolding Cons
        by (simp add: al_put_def joined_snoc sym) (simp add: same_name_def)
    next
      case False
      then have nsym: "\<not> same_name (fst kv) (fst x, v)" for v by (simp add: same_name_def)
      have "length (filter (\<lambda>y. \<not> same_name (fst x) y) r) < length al" by (simp add: Cons less_Suc_eq_le)
      from less.hyps [OF this] show ?thesis using False nsym unfolding Cons by (simp add: al_put_def)
    qed
  qed (simp add: al_put_def)
qed

lemma al_compress_append: "al_compress flags (al @ bs) = fold (al_put flags) bs (al_compress flags al)"
proof (induction bs rule: rev_induct)
  case (snoc b bs)
  then show ?case using al_compress_snoc [of flags "al @ bs" b] by simp
qed simp

lemma al_compress_unique: "distinct (map (\<lambda>kv. fold_name (fst kv)) al) \<Longrightarrow> al_compress flags al = al"
proof (induction flags al rule: al_compress.induct)
  case (2 flags kv al)
  have "fold_name (fst kv) \<notin> (\<lambda>kv. fold_name (fst kv)) ` set al" using 2(2) by simp
  then have "\<forall>y \<in> set al. \<not> same_name (fst kv) y" unfolding same_name_def by (metis imageI)
  then have none: "filter (same_name (fst kv)) al = []" "filter (\<lambda>y. \<not> same_name (fst kv) y) al = al"
    by (simp_all add: filter_empty_conv)
  then show ?case using 2 by simp
qed simp

lemma overlap_loop_fields:
  "table_ok a \<Longrightarrow> table_fields (overlap_loop flags bs a) = fold (al_put flags) bs (table_fields a)"
proof (induction bs arbitrary: a)
  case (Cons b bs)
  then show ?case
    by (cases b) (simp add: overlap_loop_def al_put_def apr_table_mergen_def apr_table_setn_def
        apr_table_merge_ok apr_table_set_ok)
qed (simp add: overlap_loop_def)

text \<open>
  apr_table_overlap does what its documentation says, setting or merging
  the entries of the second table one by one, provided the first table has no
  name twice.
\<close>

theorem apr_table_overlap_documented:
  assumes "table_ok a" "table_ok b" "distinct (map (\<lambda>kv. fold_name (fst kv)) (table_fields a))"
  shows "table_fields (apr_table_overlap a b flags) = table_fields (overlap_loop flags (table_fields b) a)"
  using apr_table_overlap_ok(2) [OF assms(1,2)] al_compress_unique [OF assms(3)]
  by (simp add: overlap_loop_fields [OF assms(1)] al_compress_append)

theorem apr_table_overlap_documented_witness:
  "table_fields (apr_table_overlap
     (fold table_serve [Table_add ''Via'' ''x'', Table_add ''Host'' ''h''] (apr_table_make (replicate 32 0) (replicate 32 0) 2))
     (fold table_serve [Table_add ''VIA'' ''y'', Table_add ''Age'' ''1''] (apr_table_make (replicate 32 0) (replicate 32 0) 2))
     APR_OVERLAP_TABLES_SET)
   = table_fields (overlap_loop APR_OVERLAP_TABLES_SET [(''VIA'', ''y''), (''Age'', ''1'')]
     (fold table_serve [Table_add ''Via'' ''x'', Table_add ''Host'' ''h''] (apr_table_make (replicate 32 0) (replicate 32 0) 2)))"
  (is "table_fields (apr_table_overlap ?A ?B _) = _")
proof -
  let ?new = "apr_table_make (replicate 32 0) (replicate 32 0) 2"
  have ok: "table_ok ?new" by (rule apr_table_make_ok) (simp_all add: TABLE_HASH_SIZE_def)
  have A: "table_ok ?A" "table_fields ?A = [(''Via'', ''x''), (''Host'', ''h'')]"
    and B: "table_ok ?B" "table_fields ?B = [(''VIA'', ''y''), (''Age'', ''1'')]"
    by (simp_all add: apr_table_add_ok ok apr_table_make_ok(2))
  have d: "distinct (map (\<lambda>kv. fold_name (fst kv)) (table_fields ?A))"
    unfolding A(2) by (simp add: fold_name_eq_iff ctype_simps char_of_def bit_0)
  show ?thesis using apr_table_overlap_documented [OF A(1) B(1) d] unfolding B(2) .
qed

text \<open>
  With a name twice in the first table the two differ: the documented loop
  leaves that name alone when the second table does not have it, the code
  joins its values.
\<close>

lemma apr_table_overlap_joins_first:
  assumes a: "table_ok a" "table_fields a = [(''Set-Cookie'', ''x''), (''Set-Cookie'', ''y'')]"
    and b: "table_ok b" "table_fields b = [(''Age'', ''1'')]"
  shows "table_fields (apr_table_overlap a b APR_OVERLAP_TABLES_MERGE) = [(''Set-Cookie'', ''x, y''), (''Age'', ''1'')]"
    and "table_fields (overlap_loop APR_OVERLAP_TABLES_MERGE (table_fields b) a)
      = [(''Set-Cookie'', ''x''), (''Set-Cookie'', ''y''), (''Age'', ''1'')]"
  using apr_table_overlap_ok(2) [OF a(1) b(1)]
  by (simp_all add: overlap_loop_fields [OF a(1)] a(2) b(2) al_put_def joined_def same_name_def fold_name_eq_iff
      ctype_simps char_of_def bit_0)

end
