(* ===== verification/Py_Runs.thy ===== *)
theory Py_Runs
  imports Prelude "HOL-Library.Multiset"
begin

text \<open>
  Objects/listobject.c of CPython, the parts of list.sort that look at one
  run: the comparison, binary insertion, finding natural runs, reversing a
  slice, and the two galloping searches. Arrays are lists and pointers into
  them are indices. A comparison may raise an exception, which is None; it need
  not be consistent. The assertions of binarysort, count_run, gallop_left and
  gallop_right are not outcomes of the model.
\<close>

section \<open>Comparisons\<close>

type_synonym 'e less_than = "'e \<Rightarrow> 'e \<Rightarrow> bool option"

text \<open>A comparison function given by the user: None when it raises or does not return an integer.\<close>

definition islt :: "('e \<Rightarrow> 'e \<Rightarrow> int option) \<Rightarrow> 'e less_than" where
  "islt compare x y = (case compare x y of None \<Rightarrow> None | Some i \<Rightarrow> Some (i < 0))"

definition ISLT :: "'e less_than \<Rightarrow> ('e \<Rightarrow> 'e \<Rightarrow> int option) option \<Rightarrow> 'e less_than" where
  "ISLT rich compare x y = (case compare of None \<Rightarrow> rich x y | Some cmp \<Rightarrow> islt cmp x y)"

text \<open>The comparison is the strict order of a key.\<close>

definition orders :: "'e less_than \<Rightarrow> ('e \<Rightarrow> 'k :: linorder) \<Rightarrow> bool" where
  "orders lt f \<longleftrightarrow> (\<forall>x y. lt x y = Some (f x < f y))"

lemma orders_eq: "orders lt f \<Longrightarrow> lt x y = Some (f x < f y)"
  by (simp add: orders_def)

section \<open>Searching\<close>

text \<open>
  The binary search all routines end with: test tells whether the place
  searched for is to the right of an index.
\<close>

function bisect :: "(nat \<Rightarrow> bool option) \<Rightarrow> nat \<Rightarrow> nat \<Rightarrow> nat option" where
  "bisect test l r =
     (if l < r
      then let m = l + ((r - l) div 2)
           in (case test m of
                 None \<Rightarrow> None
               | Some True \<Rightarrow> bisect test (m + 1) r
               | Some False \<Rightarrow> bisect test l m)
      else Some l)"
  by pat_completeness auto
termination by (relation "measure (\<lambda>(test, l, r). r - l)") auto

declare bisect.simps [simp del]

text \<open>
  The widening steps of a gallop: the offsets 1, 3, 7, ... as long as the test
  holds. A step that overflows sets the offset to maxofs, which the clamp after
  the loop does for any offset beyond it.
\<close>

function gallop_out :: "(nat \<Rightarrow> bool option) \<Rightarrow> nat \<Rightarrow> nat \<Rightarrow> nat \<Rightarrow> (nat \<times> nat) option" where
  "gallop_out test maxofs lastofs ofs =
     (if ofs < maxofs
      then (case test ofs of
              None \<Rightarrow> None
            | Some True \<Rightarrow> gallop_out test maxofs ofs (2 * ofs + 1)
            | Some False \<Rightarrow> Some (lastofs, ofs))
      else Some (lastofs, ofs))"
  by pat_completeness auto
termination by (relation "measure (\<lambda>(test, maxofs, lastofs, ofs). maxofs - ofs)") auto

declare gallop_out.simps [simp del]

text \<open>
  The common form of gallop_left and gallop_right; the left end of the
  interval is the value of lastofs after it has been incremented.
\<close>

definition gallop :: "(nat \<Rightarrow> bool option) \<Rightarrow> nat \<Rightarrow> nat \<Rightarrow> nat option" where
  "gallop test n hint =
     (case test hint of
        None \<Rightarrow> None
      | Some True \<Rightarrow>
          (let maxofs = n - hint
           in (case gallop_out (\<lambda>ofs. test (hint + ofs)) maxofs 0 1 of
                 None \<Rightarrow> None
               | Some (lastofs, ofs) \<Rightarrow>
                   (let ofs = (if ofs > maxofs then maxofs else ofs)
                    in bisect test (lastofs + hint + 1) (ofs + hint))))
      | Some False \<Rightarrow>
          (let maxofs = hint + 1
           in (case gallop_out (\<lambda>ofs. map_option Not (test (hint - ofs))) maxofs 0 1 of
                 None \<Rightarrow> None
               | Some (lastofs, ofs) \<Rightarrow>
                   (let ofs = (if ofs > maxofs then maxofs else ofs)
                    in bisect test (hint + 1 - ofs) (hint - lastofs)))))"

definition gallop_left :: "'e less_than \<Rightarrow> 'e \<Rightarrow> 'e list \<Rightarrow> nat \<Rightarrow> nat \<Rightarrow> nat \<Rightarrow> nat option" where
  "gallop_left lt key arr a n hint = gallop (\<lambda>i. lt (arr ! (a + i)) key) n hint"

definition gallop_right :: "'e less_than \<Rightarrow> 'e \<Rightarrow> 'e list \<Rightarrow> nat \<Rightarrow> nat \<Rightarrow> nat \<Rightarrow> nat option" where
  "gallop_right lt key arr a n hint = gallop (\<lambda>i. map_option Not (lt key (arr ! (a + i)))) n hint"

lemma bisect_bounds: "bisect test l r = Some k \<Longrightarrow> l \<le> r \<Longrightarrow> l \<le> k \<and> k \<le> r"
proof (induction test l r rule: bisect.induct)
  case (1 test l r)
  then show ?case
    by (subst (asm) (3) bisect.simps) (fastforce simp: Let_def split: if_splits option.splits bool.splits)
qed

lemma bisect_correct:
  assumes "\<And>i. l \<le> i \<Longrightarrow> i < r \<Longrightarrow> test i = Some (P i)"
    and "\<And>i j. l \<le> i \<Longrightarrow> i \<le> j \<Longrightarrow> j < r \<Longrightarrow> P j \<Longrightarrow> P i" and "l \<le> r"
  shows "\<exists>k. bisect test l r = Some k \<and> l \<le> k \<and> k \<le> r
    \<and> (\<forall>i. l \<le> i \<and> i < k \<longrightarrow> P i) \<and> (\<forall>i. k \<le> i \<and> i < r \<longrightarrow> \<not> P i)"
  using assms
proof (induction test l r rule: bisect.induct)
  case (1 test l r)
  show ?case
  proof (cases "l < r")
    case True
    let ?m = "l + ((r - l) div 2)"
    have m: "l \<le> ?m" "?m < r" using True by auto
    have t: "test ?m = Some (P ?m)" using "1.prems"(1) m by blast
    show ?thesis
    proof (cases "P ?m")
      case p: True
      have "bisect test l r = bisect test (?m + 1) r"
        using True t p by (subst bisect.simps) (simp add: Let_def)
      moreover obtain k where "bisect test (?m + 1) r = Some k" "?m + 1 \<le> k" "k \<le> r"
          "\<forall>i. ?m + 1 \<le> i \<and> i < k \<longrightarrow> P i" "\<forall>i. k \<le> i \<and> i < r \<longrightarrow> \<not> P i"
        using "1.IH"(1) [OF True refl, of True] t p "1.prems" m by auto
      moreover have "P i" if "l \<le> i" "i < ?m + 1" for i
        by (rule "1.prems"(2) [OF that(1) _ m(2) p]) (use that(2) in linarith)
      ultimately show ?thesis by (metis le_trans linorder_not_le m(1) le_add1)
    next
      case p: False
      have "bisect test l r = bisect test l ?m"
        using True t p by (subst bisect.simps) (simp add: Let_def)
      moreover obtain k where "bisect test l ?m = Some k" "l \<le> k" "k \<le> ?m"
          "\<forall>i. l \<le> i \<and> i < k \<longrightarrow> P i" "\<forall>i. k \<le> i \<and> i < ?m \<longrightarrow> \<not> P i"
        using "1.IH"(2) [OF True refl, of False] t p "1.prems" m by auto
      moreover have "\<forall>i. ?m \<le> i \<and> i < r \<longrightarrow> \<not> P i" using "1.prems"(2) m p by blast
      ultimately show ?thesis by (metis less_imp_le_nat linorder_not_le m(2) order_trans)
    qed
  next
    case False
    then show ?thesis using "1.prems"(3) by (subst bisect.simps) auto
  qed
qed

lemma gallop_out_bounds:
  "gallop_out test maxofs l ofs = Some (l', ofs') \<Longrightarrow> l < ofs \<Longrightarrow> l < maxofs \<Longrightarrow> l' < ofs' \<and> l' < maxofs"
proof (induction test maxofs l ofs rule: gallop_out.induct)
  case (1 test maxofs l ofs)
  then show ?case
    by (subst (asm) (2) gallop_out.simps) (fastforce split: if_splits option.splits bool.splits)
qed

lemma gallop_bounds:
  assumes "gallop test n hint = Some k" "hint < n"
  shows "k \<le> n"
proof (cases "test hint")
  case (Some b)
  show ?thesis
  proof (cases b)
    case True
    then obtain l ofs where g: "gallop_out (\<lambda>ofs. test (hint + ofs)) (n - hint) 0 1 = Some (l, ofs)"
      using assms(1) Some by (auto simp: gallop_def Let_def split: option.splits)
    have b: "bisect test (l + hint + 1) (min ofs (n - hint) + hint) = Some k"
      using assms(1) Some True g by (auto simp: gallop_def Let_def min_def split: if_splits)
    have "l < ofs \<and> l < n - hint" by (rule gallop_out_bounds [OF g]) (use assms(2) in auto)
    then show ?thesis using bisect_bounds [OF b] assms(2) by auto
  next
    case False
    then obtain l ofs where g: "gallop_out (\<lambda>ofs. map_option Not (test (hint - ofs))) (hint + 1) 0 1 = Some (l, ofs)"
      using assms(1) Some by (auto simp: gallop_def Let_def split: option.splits)
    have b: "bisect test (hint + 1 - min ofs (hint + 1)) (hint - l) = Some k"
      using assms(1) Some False g by (auto simp: gallop_def Let_def min_def split: if_splits)
    have "l < ofs \<and> l < hint + 1" by (rule gallop_out_bounds [OF g]) auto
    then have "hint + 1 - min ofs (hint + 1) \<le> hint - l" by (auto simp: min_def)
    then show ?thesis using bisect_bounds [OF b] assms(2) by auto
  qed
qed (use assms in \<open>simp add: gallop_def\<close>)

lemma gallop_out_correct:
  assumes "\<And>i. i < maxofs \<Longrightarrow> test i = Some (Q i)" and "l < ofs" "l < maxofs" "Q l"
  shows "\<exists>l' ofs'. gallop_out test maxofs l ofs = Some (l', ofs') \<and> l' < ofs' \<and> l' < maxofs \<and> Q l'
    \<and> (ofs' < maxofs \<longrightarrow> \<not> Q ofs')"
  using assms
proof (induction test maxofs l ofs rule: gallop_out.induct)
  case (1 test maxofs l ofs)
  show ?case
  proof (cases "ofs < maxofs \<and> Q ofs")
    case True
    then have "gallop_out test maxofs l ofs = gallop_out test maxofs ofs (2 * ofs + 1)"
      using "1.prems"(1) by (subst gallop_out.simps) simp
    then show ?thesis using "1.IH" [of True] "1.prems" True by simp
  next
    case False
    then have "gallop_out test maxofs l ofs = Some (l, ofs)"
      using "1.prems"(1) [of ofs] by (subst gallop_out.simps) auto
    then show ?thesis using False "1.prems"(2-4) by auto
  qed
qed

text \<open>A gallop finds the boundary of a test that holds up to some index.\<close>

lemma bisect_within:
  assumes "\<forall>i < n. test i = Some (P i)" and "\<forall>i j. i \<le> j \<longrightarrow> j < n \<longrightarrow> P j \<longrightarrow> P i" and "l \<le> r" "r \<le> n"
  shows "\<exists>k. bisect test l r = Some k \<and> l \<le> k \<and> k \<le> r
    \<and> (\<forall>i. l \<le> i \<and> i < k \<longrightarrow> P i) \<and> (\<forall>i. k \<le> i \<and> i < r \<longrightarrow> \<not> P i)"
  by (rule bisect_correct) (use assms in \<open>meson less_le_trans\<close>)+

lemma gallop_correct:
  assumes t: "\<And>i. i < n \<Longrightarrow> test i = Some (P i)" and down: "\<And>i j. i \<le> j \<Longrightarrow> j < n \<Longrightarrow> P j \<Longrightarrow> P i"
    and h: "hint < n"
  shows "\<exists>k \<le> n. gallop test n hint = Some k \<and> (\<forall>i < k. P i) \<and> (\<forall>i. k \<le> i \<and> i < n \<longrightarrow> \<not> P i)"
proof -
  have td: "\<forall>i < n. test i = Some (P i)" "\<forall>i j. i \<le> j \<longrightarrow> j < n \<longrightarrow> P j \<longrightarrow> P i"
    using t down by blast+
  show ?thesis
  proof (cases "P hint")
  case True
  obtain l ofs where g: "gallop_out (\<lambda>ofs. test (hint + ofs)) (n - hint) 0 1 = Some (l, ofs)" "l < ofs" "l < n - hint"
      "P (hint + l)" "ofs < n - hint \<longrightarrow> \<not> P (hint + ofs)"
    using gallop_out_correct [of "n - hint" "\<lambda>ofs. test (hint + ofs)" "\<lambda>ofs. P (hint + ofs)" 0 1] t h True by auto
  let ?l = "l + hint + 1" and ?r = "min ofs (n - hint) + hint"
  have lr: "?l \<le> ?r" "?r \<le> n" using g(2,3) h by (auto simp: min_def)
  obtain k where k: "bisect test ?l ?r = Some k" "?l \<le> k" "k \<le> ?r"
      "\<forall>i. ?l \<le> i \<and> i < k \<longrightarrow> P i" "\<forall>i. k \<le> i \<and> i < ?r \<longrightarrow> \<not> P i"
    using bisect_within [OF td lr] by blast
  have "gallop test n hint = Some k"
    using t [OF h] True g(1) k(1) by (simp add: gallop_def Let_def min_def split: if_splits)
  moreover have "k \<le> n" using k(3) h by auto
  moreover have "P i" if "i < k" for i
  proof (cases "?l \<le> i")
    case False
    then show ?thesis using down [of i "hint + l"] g(3,4) h by auto
  qed (use k(4) that in blast)
  moreover have "\<not> P i" if "k \<le> i" "i < n" for i
  proof (cases "i < ?r")
    case False
    then have "ofs < n - hint" "hint + ofs \<le> i" using that(2) by (auto simp: min_def split: if_splits)
    then show ?thesis using g(5) down [of "hint + ofs" i] that(2) by blast
  qed (use k(5) that in blast)
  ultimately show ?thesis by blast
next
  case False
  obtain l ofs where g: "gallop_out (\<lambda>ofs. map_option Not (test (hint - ofs))) (hint + 1) 0 1 = Some (l, ofs)"
      "l < ofs" "l < hint + 1" "\<not> P (hint - l)" "ofs < hint + 1 \<longrightarrow> P (hint - ofs)"
    using gallop_out_correct [of "hint + 1" "\<lambda>ofs. map_option Not (test (hint - ofs))" "\<lambda>ofs. \<not> P (hint - ofs)" 0 1]
      t h False by auto
  let ?l = "hint + 1 - min ofs (hint + 1)" and ?r = "hint - l"
  have lr: "?l \<le> ?r" "?r \<le> n" using g(2,3) h by (auto simp: min_def)
  obtain k where k: "bisect test ?l ?r = Some k" "?l \<le> k" "k \<le> ?r"
      "\<forall>i. ?l \<le> i \<and> i < k \<longrightarrow> P i" "\<forall>i. k \<le> i \<and> i < ?r \<longrightarrow> \<not> P i"
    using bisect_within [OF td lr] by blast
  have "gallop test n hint = Some k"
    using t [OF h] False g(1) k(1) by (simp add: gallop_def Let_def min_def split: if_splits)
  moreover have "k \<le> n" using k(3) h by auto
  moreover have "P i" if "i < k" for i
  proof (cases "?l \<le> i")
    case False
    then have "ofs < hint + 1" "i \<le> hint - ofs" by (auto simp: min_def split: if_splits)
    then show ?thesis using g(5) down [of i "hint - ofs"] h by auto
  qed (use k(4) that in blast)
  moreover have "\<not> P i" if "k \<le> i" "i < n" for i
  proof (cases "i < ?r")
    case False
    then show ?thesis using g(4) down [of ?r i] that(2) by auto
  qed (use k(5) that in blast)
  ultimately show ?thesis by blast
qed
qed

text \<open>The position of a key in a sorted slice, to the left or to the right of its equals.\<close>

lemma gallop_left_bounds: "gallop_left lt key arr a n hint = Some k \<Longrightarrow> hint < n \<Longrightarrow> k \<le> n"
  unfolding gallop_left_def by (rule gallop_bounds)

lemma gallop_right_bounds: "gallop_right lt key arr a n hint = Some k \<Longrightarrow> hint < n \<Longrightarrow> k \<le> n"
  unfolding gallop_right_def by (rule gallop_bounds)

abbreviation slice :: "nat \<Rightarrow> nat \<Rightarrow> 'e list \<Rightarrow> 'e list" where
  "slice a n arr \<equiv> take n (drop a arr)"

lemma slice_nth: "i < n \<Longrightarrow> a + n \<le> length arr \<Longrightarrow> slice a n arr ! i = arr ! (a + i)"
  by simp

lemma sorted_slice_mono:
  assumes "sorted (map f (slice a n arr))" "a + n \<le> length arr" "i \<le> j" "j < n"
  shows "f (arr ! (a + i)) \<le> f (arr ! (a + j))"
  using sorted_nth_mono [OF assms(1,3)] assms(2-4) by simp

lemma gallop_left_correct:
  assumes "orders lt f" "sorted (map f (slice a n arr))" "a + n \<le> length arr" "hint < n"
  shows "\<exists>k \<le> n. gallop_left lt key arr a n hint = Some k
    \<and> (\<forall>x \<in> set (slice a k arr). f x < f key) \<and> (\<forall>x \<in> set (slice (a + k) (n - k) arr). f key \<le> f x)"
proof -
  obtain k where k: "k \<le> n" "gallop (\<lambda>i. lt (arr ! (a + i)) key) n hint = Some k"
      "\<forall>i < k. f (arr ! (a + i)) < f key" "\<forall>i. k \<le> i \<and> i < n \<longrightarrow> \<not> f (arr ! (a + i)) < f key"
    using gallop_correct [of n "\<lambda>i. lt (arr ! (a + i)) key" "\<lambda>i. f (arr ! (a + i)) < f key" hint]
      sorted_slice_mono [OF assms(2,3)] assms(1,4) by (fastforce simp: orders_eq)
  have "\<forall>x \<in> set (slice a k arr). f x < f key" using k(1,3) assms(3) by (auto simp: in_set_conv_nth)
  moreover have "\<forall>x \<in> set (slice (a + k) (n - k) arr). f key \<le> f x"
    using k(1,4) assms(3) by (auto simp: in_set_conv_nth not_less add.assoc)
  ultimately show ?thesis using k(1,2) unfolding gallop_left_def by blast
qed

lemma gallop_right_correct:
  assumes "orders lt f" "sorted (map f (slice a n arr))" "a + n \<le> length arr" "hint < n"
  shows "\<exists>k \<le> n. gallop_right lt key arr a n hint = Some k
    \<and> (\<forall>x \<in> set (slice a k arr). f x \<le> f key) \<and> (\<forall>x \<in> set (slice (a + k) (n - k) arr). f key < f x)"
proof -
  obtain k where k: "k \<le> n" "gallop (\<lambda>i. map_option Not (lt key (arr ! (a + i)))) n hint = Some k"
      "\<forall>i < k. f (arr ! (a + i)) \<le> f key" "\<forall>i. k \<le> i \<and> i < n \<longrightarrow> \<not> f (arr ! (a + i)) \<le> f key"
    using gallop_correct [of n "\<lambda>i. map_option Not (lt key (arr ! (a + i)))" "\<lambda>i. f (arr ! (a + i)) \<le> f key" hint]
      sorted_slice_mono [OF assms(2,3)] assms(1,4) by (fastforce simp: orders_eq not_less)
  have "\<forall>x \<in> set (slice a k arr). f x \<le> f key" using k(1,3) assms(3) by (auto simp: in_set_conv_nth)
  moreover have "\<forall>x \<in> set (slice (a + k) (n - k) arr). f key < f x"
    using k(1,4) assms(3) by (auto simp: in_set_conv_nth not_le add.assoc)
  ultimately show ?thesis using k(1,2) unfolding gallop_right_def by blast
qed

section \<open>Permutations and stability\<close>

text \<open>
  Lists that agree on the order of the elements of equal key: a stable sort
  keeps its list in this relation, and two sorted lists so related are equal.
\<close>

definition stable_eq :: "('e \<Rightarrow> 'k) \<Rightarrow> 'e list \<Rightarrow> 'e list \<Rightarrow> bool" where
  "stable_eq f xs ys \<longleftrightarrow> (\<forall>k. filter (\<lambda>x. f x = k) xs = filter (\<lambda>x. f x = k) ys)"

lemma stable_eq_refl [simp]: "stable_eq f xs xs"
  by (simp add: stable_eq_def)

lemma stable_eq_sym: "stable_eq f xs ys \<Longrightarrow> stable_eq f ys xs"
  by (simp add: stable_eq_def)

lemma stable_eq_trans: "stable_eq f xs ys \<Longrightarrow> stable_eq f ys zs \<Longrightarrow> stable_eq f xs zs"
  by (simp add: stable_eq_def)

lemma stable_eq_append: "stable_eq f xs ys \<Longrightarrow> stable_eq f xs' ys' \<Longrightarrow> stable_eq f (xs @ xs') (ys @ ys')"
  by (simp add: stable_eq_def)

lemma stable_eq_context: "stable_eq f xs ys \<Longrightarrow> stable_eq f (as @ xs @ bs) (as @ ys @ bs)"
  by (simp add: stable_eq_def)

lemma stable_eq_swap:
  assumes "\<forall>x \<in> set xs. \<forall>y \<in> set ys. f x \<noteq> f y"
  shows "stable_eq f (xs @ ys) (ys @ xs)"
  unfolding stable_eq_def
proof
  fix k
  have "filter (\<lambda>x. f x = k) xs = [] \<or> filter (\<lambda>x. f x = k) ys = []"
    using assms by (auto simp: filter_empty_conv)
  then show "filter (\<lambda>x. f x = k) (xs @ ys) = filter (\<lambda>x. f x = k) (ys @ xs)" by auto
qed

lemma stable_eq_mset:
  assumes "stable_eq f xs ys"
  shows "mset xs = mset ys"
proof (rule multiset_eqI)
  fix x
  have "count (mset zs) x = count (mset (filter (\<lambda>y. f y = f x) zs)) x" for zs
    by (simp add: mset_filter)
  then show "count (mset xs) x = count (mset ys) x" using assms by (metis stable_eq_def)
qed

lemma stable_sorted:
  assumes "stable_eq f ys xs" "sorted (map f ys)"
  shows "ys = sort_key f xs"
proof (rule properties_for_sort_key [symmetric])
  show "mset ys = mset xs" by (rule stable_eq_mset [OF assms(1)])
  show "filter (\<lambda>x. f k = f x) ys = filter (\<lambda>x. f k = f x) xs" if "k \<in> set ys" for k
    using assms(1) unfolding stable_eq_def by (metis (mono_tags, lifting) filter_cong)
qed (rule assms(2))

lemma stable_eq_rev:
  assumes "sorted_wrt (\<lambda>x y. f x \<noteq> f y) xs"
  shows "stable_eq f (rev xs) xs"
  using assms
proof (induction xs)
  case (Cons x xs)
  have "stable_eq f (rev xs @ [x]) (xs @ [x])" using Cons by (intro stable_eq_append) auto
  moreover have "stable_eq f (xs @ [x]) ([x] @ xs)" by (rule stable_eq_swap) (use Cons.prems in auto)
  ultimately show ?case using stable_eq_trans by fastforce
qed simp

text \<open>What a routine working on the slice from lo to hi leaves alone, and that it loses nothing.\<close>

definition in_slice :: "nat \<Rightarrow> nat \<Rightarrow> 'e list \<Rightarrow> 'e list \<Rightarrow> bool" where
  "in_slice lo hi arr arr' \<longleftrightarrow> length arr' = length arr \<and> take lo arr' = take lo arr \<and> drop hi arr' = drop hi arr
     \<and> mset (slice lo (hi - lo) arr') = mset (slice lo (hi - lo) arr)"

lemma in_slice_refl [simp]: "in_slice lo hi arr arr"
  by (simp add: in_slice_def)

lemma in_slice_trans: "in_slice lo hi xs ys \<Longrightarrow> in_slice lo hi ys zs \<Longrightarrow> in_slice lo hi xs zs"
  by (simp add: in_slice_def)

lemma split_slice: "lo \<le> hi \<Longrightarrow> arr = take lo arr @ slice lo (hi - lo) arr @ drop hi arr"
  by (metis append_take_drop_id drop_drop le_add_diff_inverse2)

lemma in_slice_mset: "in_slice lo hi arr arr' \<Longrightarrow> lo \<le> hi \<Longrightarrow> mset arr' = mset arr"
  using split_slice [of lo hi arr] split_slice [of lo hi arr'] unfolding in_slice_def
  by (metis mset_append)

section \<open>Reversing a slice\<close>

text \<open>hi is the slot after the last one to swap.\<close>

function reverse_slice :: "nat \<Rightarrow> nat \<Rightarrow> 'e list \<Rightarrow> 'e list" where
  "reverse_slice lo hi arr =
     (if lo < hi - 1
      then reverse_slice (lo + 1) (hi - 1) (arr[lo := arr ! (hi - 1), hi - 1 := arr ! lo]) else arr)"
  by pat_completeness auto
termination by (relation "measure (\<lambda>(lo, hi, arr). hi)") auto

declare reverse_slice.simps [simp del]

lemma rev_short: "length xs \<le> 1 \<Longrightarrow> rev xs = xs"
  by (cases xs) auto

lemma split_ends:
  assumes "lo + m + 2 \<le> length arr"
  shows "\<exists>P a M b S. arr = P @ a # M @ b # S \<and> length P = lo \<and> length M = m"
proof (intro exI conjI)
  show "arr = take lo arr @ arr ! lo # slice (lo + 1) m arr @ arr ! (lo + 1 + m) # drop (lo + m + 2) arr"
  proof -
    have "drop lo arr = arr ! lo # drop (Suc lo) arr" using assms by (simp add: Cons_nth_drop_Suc)
    moreover have "drop (Suc lo) arr = slice (Suc lo) m arr @ drop (Suc lo + m) arr"
      by (subst append_take_drop_id [of m "drop (Suc lo) arr", symmetric]) (simp add: add.commute)
    moreover have "drop (Suc lo + m) arr = arr ! (Suc lo + m) # drop (Suc (Suc lo + m)) arr"
      using assms by (simp add: Cons_nth_drop_Suc)
    moreover have "arr = take lo arr @ drop lo arr" by simp
    ultimately show ?thesis by simp
  qed
qed (use assms in simp_all)

lemma reverse_slice_rev:
  "lo \<le> hi \<Longrightarrow> hi \<le> length arr \<Longrightarrow>
     reverse_slice lo hi arr = take lo arr @ rev (slice lo (hi - lo) arr) @ drop hi arr"
proof (induction lo hi arr rule: reverse_slice.induct)
  case (1 lo hi arr)
  show ?case
  proof (cases "lo < hi - 1")
    case True
    obtain m where m: "hi = lo + m + 2" proof
      show "hi = lo + (hi - lo - 2) + 2" using True by arith
    qed
    obtain P a M b S where arr: "arr = P @ a # M @ b # S" "length P = lo" "length M = m"
      using split_ends [of lo m arr] "1.prems"(2) m by auto
    have at: "arr ! lo = a" "arr ! (hi - 1) = b" "slice lo (hi - lo) arr = a # M @ [b]" "take lo arr = P" "drop hi arr = S"
      using arr(2,3) unfolding arr(1) m by (simp_all add: nth_append)
    have arr': "arr[lo := arr ! (hi - 1), hi - 1 := arr ! lo] = P @ b # M @ a # S"
      unfolding at unfolding arr(1) m using arr(2,3) by (simp add: list_update_append)
    have "reverse_slice lo hi arr = reverse_slice (lo + 1) (hi - 1) (P @ b # M @ a # S)"
      using True arr' by (subst reverse_slice.simps) simp
    also have "\<dots> = take (lo + 1) (P @ b # M @ a # S) @ rev (slice (lo + 1) (hi - 1 - (lo + 1)) (P @ b # M @ a # S))
        @ drop (hi - 1) (P @ b # M @ a # S)"
      using "1.IH" [OF True] "1.prems"(2) m arr unfolding arr' by simp
    also have "\<dots> = P @ rev (a # M @ [b]) @ S" using arr(2,3) m by simp
    finally show ?thesis unfolding at .
  next
    case False
    then have "reverse_slice lo hi arr = arr" by (subst reverse_slice.simps) simp
    moreover have "rev (slice lo (hi - lo) arr) = slice lo (hi - lo) arr"
      by (rule rev_short) (use False in simp)
    ultimately show ?thesis using split_slice [OF "1.prems"(1)] by metis
  qed
qed

lemma reverse_slice_in:
  assumes "lo \<le> hi" "hi \<le> length arr"
  shows "in_slice lo hi arr (reverse_slice lo hi arr)"
    and "slice lo (hi - lo) (reverse_slice lo hi arr) = rev (slice lo (hi - lo) arr)"
  unfolding reverse_slice_rev [OF assms] in_slice_def using assms by simp_all

section \<open>Binary insertion\<close>

text \<open>Each routine returns whether it succeeded, and the array.\<close>

function slide_up :: "nat \<Rightarrow> nat \<Rightarrow> 'e list \<Rightarrow> 'e list" where
  "slide_up l p arr = (if l < p then slide_up l (p - 1) (arr[p := arr ! (p - 1)]) else arr)"
  by pat_completeness auto
termination by (relation "measure (\<lambda>(l, p, arr). p)") auto

declare slide_up.simps [simp del]

function binarysort_loop :: "'e less_than \<Rightarrow> nat \<Rightarrow> nat \<Rightarrow> nat \<Rightarrow> 'e list \<Rightarrow> bool \<times> 'e list" where
  "binarysort_loop lt lo hi start arr =
     (if start < hi
      then (let pivot = arr ! start
            in (case bisect (\<lambda>p. map_option Not (lt pivot (arr ! p))) lo start of
                  None \<Rightarrow> (False, arr)
                | Some l \<Rightarrow> binarysort_loop lt lo hi (start + 1) ((slide_up l start arr)[l := pivot])))
      else (True, arr))"
  by pat_completeness auto
termination by (relation "measure (\<lambda>(lt, lo, hi, start, arr). hi - start)") auto

declare binarysort_loop.simps [simp del]

definition binarysort :: "'e less_than \<Rightarrow> nat \<Rightarrow> nat \<Rightarrow> nat \<Rightarrow> 'e list \<Rightarrow> bool \<times> 'e list" where
  "binarysort lt lo hi start arr =
     binarysort_loop lt lo hi (if lo = start then start + 1 else start) arr"

lemma slide_up_moves:
  "arr = P @ M @ x # S \<Longrightarrow> length P = l \<Longrightarrow> p = l + length M \<Longrightarrow>
     \<exists>y. slide_up l p arr = P @ y # M @ S"
proof (induction M arbitrary: x S arr p rule: rev_induct)
  case Nil
  then show ?case by (subst slide_up.simps) auto
next
  case (snoc m M)
  have "slide_up l p arr = slide_up l (p - 1) (arr[p := arr ! (p - 1)])"
    using snoc.prems by (subst slide_up.simps) simp
  moreover have "arr[p := arr ! (p - 1)] = P @ M @ m # m # S"
    using snoc.prems by (simp add: nth_append list_update_append)
  ultimately show ?case using snoc.IH [of _ m "m # S" "p - 1"] snoc.prems(2,3) by simp
qed

text \<open>Inserting the element behind M before M.\<close>

lemma insert_at:
  assumes "arr = P @ M @ x # S" "length P = l" "start = l + length M"
  shows "(slide_up l start arr)[l := x] = P @ x # M @ S"
proof -
  obtain y where "slide_up l start arr = P @ y # M @ S" using slide_up_moves [OF assms] by blast
  then show ?thesis using assms(2) by (simp add: list_update_append)
qed

lemma slice_add: "slice a (m + n) arr = slice a m arr @ slice (a + m) n arr"
  by (simp add: take_add add.commute)

lemma slice_Suc: "a < length arr \<Longrightarrow> slice a (Suc n) arr = arr ! a # slice (Suc a) n arr"
  by (simp add: Cons_nth_drop_Suc [symmetric])

lemma drop_slice_rest: "a \<le> b \<Longrightarrow> drop a arr = slice a (b - a) arr @ drop b arr"
  by (metis append_take_drop_id drop_drop le_add_diff_inverse2)

lemma in_sliceI:
  assumes "length arr' = length arr" "take lo arr' = take lo arr" "drop hi arr' = drop hi arr" "mset arr' = mset arr"
    "lo \<le> hi"
  shows "in_slice lo hi arr arr'"
proof -
  have "mset (take lo arr @ slice lo (hi - lo) arr' @ drop hi arr) = mset (take lo arr @ slice lo (hi - lo) arr @ drop hi arr)"
    using split_slice [OF assms(5), of arr] split_slice [OF assms(5), of arr'] assms(2,3,4) by metis
  then show ?thesis using assms(1-3) by (simp add: in_slice_def)
qed

lemma in_slice_wider:
  assumes "in_slice lo hi arr arr'" "lo' \<le> lo" "lo \<le> hi" "hi \<le> hi'"
  shows "in_slice lo' hi' arr arr'"
proof (rule in_sliceI)
  show "length arr' = length arr" "mset arr' = mset arr"
    using assms(1) in_slice_mset [OF assms(1,3)] by (simp_all add: in_slice_def)
  have "take lo' (take lo arr') = take lo' (take lo arr)" "drop (hi' - hi) (drop hi arr') = drop (hi' - hi) (drop hi arr)"
    using assms(1) by (simp_all add: in_slice_def)
  then show "take lo' arr' = take lo' arr" "drop hi' arr' = drop hi' arr"
    using assms(2,4) by (simp_all add: min_def)
qed (use assms in simp)

text \<open>One insertion, at l, of the element at start.\<close>

lemma binary_insert:
  assumes "l \<le> start" "start < length arr"
  shows "(slide_up l start arr)[l := arr ! start] = take l arr @ arr ! start # slice l (start - l) arr @ drop (start + 1) arr"
proof (rule insert_at)
  have "drop start arr = arr ! start # drop (start + 1) arr" using assms by (simp add: Cons_nth_drop_Suc)
  then show "arr = take l arr @ slice l (start - l) arr @ arr ! start # drop (start + 1) arr"
    using drop_slice_rest [OF assms(1), of arr] by (metis append_take_drop_id)
qed (use assms in simp_all)

lemma binary_insert_in:
  assumes "lo \<le> l" "l \<le> start" "start < hi" "hi \<le> length arr"
  shows "in_slice lo hi arr ((slide_up l start arr)[l := arr ! start])" (is "in_slice _ _ _ ?a")
proof (rule in_sliceI)
  have s: "start < length arr" using assms by simp
  note a = binary_insert [OF assms(2) s]
  have arr: "arr = take l arr @ slice l (start - l) arr @ arr ! start # drop (start + 1) arr"
    using drop_slice_rest [OF assms(2), of arr] s by (metis Cons_nth_drop_Suc Suc_eq_plus1 append_take_drop_id)
  show len: "length ?a = length arr" unfolding a using assms by simp
  show "mset ?a = mset arr" unfolding a by (subst (5) arr) simp
  show "take lo ?a = take lo arr" unfolding a using assms(1) s assms(2) by (simp add: min_def)
  show "drop hi ?a = drop hi arr" unfolding a using assms s by (simp add: drop_Cons')
qed (use assms in simp)

lemma binarysort_loop_in:
  "lo \<le> start \<Longrightarrow> lo \<le> hi \<Longrightarrow> hi \<le> length arr \<Longrightarrow> in_slice lo hi arr (snd (binarysort_loop lt lo hi start arr))"
proof (induction lt lo hi start arr rule: binarysort_loop.induct)
  case (1 lt lo hi start arr)
  show ?case
  proof (cases "start < hi")
    case True
    show ?thesis
    proof (cases "bisect (\<lambda>p. map_option Not (lt (arr ! start) (arr ! p))) lo start")
      case None
      then show ?thesis using True by (subst binarysort_loop.simps) (simp add: Let_def)
    next
      case (Some l)
      let ?a = "(slide_up l start arr)[l := arr ! start]"
      have l: "lo \<le> l" "l \<le> start" using bisect_bounds [OF Some] "1.prems" by auto
      have a: "in_slice lo hi arr ?a" by (rule binary_insert_in [OF l True "1.prems"(3)])
      have "in_slice lo hi ?a (snd (binarysort_loop lt lo hi (start + 1) ?a))"
        using "1.IH" [OF True refl Some] "1.prems" a by (simp add: in_slice_def)
      then show ?thesis using True Some a in_slice_trans by (subst binarysort_loop.simps) (fastforce simp: Let_def)
    qed
  next
    case False
    then show ?thesis by (subst binarysort_loop.simps) simp
  qed
qed

lemma binarysort_in:
  "lo \<le> start \<Longrightarrow> lo \<le> hi \<Longrightarrow> hi \<le> length arr \<Longrightarrow> in_slice lo hi arr (snd (binarysort lt lo hi start arr))"
  unfolding binarysort_def by (rule binarysort_loop_in) auto

lemma binarysort_loop_correct:
  "orders lt f \<Longrightarrow> lo \<le> start \<Longrightarrow> start \<le> hi \<Longrightarrow> hi \<le> length arr \<Longrightarrow> sorted (map f (slice lo (start - lo) arr)) \<Longrightarrow>
    \<exists>arr'. binarysort_loop lt lo hi start arr = (True, arr') \<and> stable_eq f arr' arr \<and> sorted (map f (slice lo (hi - lo) arr'))"
proof (induction lt lo hi start arr rule: binarysort_loop.induct)
  case (1 lt lo hi start arr)
  show ?case
  proof (cases "start < hi")
    case True
    let ?x = "arr ! start" and ?test = "\<lambda>p. map_option Not (lt (arr ! start) (arr ! p))"
    have s: "start < length arr" using True "1.prems"(4) by simp
    have t: "?test i = Some (f (arr ! i) \<le> f ?x)" for i
      using "1.prems"(1) by (simp add: orders_eq not_less)
    have mono: "f (arr ! i) \<le> f (arr ! j)" if "lo \<le> i" "i \<le> j" "j < start" for i j
      using sorted_slice_mono [OF "1.prems"(5), of "i - lo" "j - lo"] that s by simp
    have "\<exists>l. bisect ?test lo start = Some l \<and> lo \<le> l \<and> l \<le> start
        \<and> (\<forall>i. lo \<le> i \<and> i < l \<longrightarrow> f (arr ! i) \<le> f ?x) \<and> (\<forall>i. l \<le> i \<and> i < start \<longrightarrow> \<not> f (arr ! i) \<le> f ?x)"
      by (rule bisect_correct) (use t mono "1.prems"(2) in \<open>auto intro: order_trans\<close>)
    then obtain l where l: "bisect ?test lo start = Some l" "lo \<le> l" "l \<le> start"
        "\<forall>i. lo \<le> i \<and> i < l \<longrightarrow> f (arr ! i) \<le> f ?x" "\<forall>i. l \<le> i \<and> i < start \<longrightarrow> f ?x < f (arr ! i)"
      by (auto simp: not_le)
    let ?a = "(slide_up l start arr)[l := ?x]"
    note a = binary_insert [OF l(3) s]
    let ?L = "slice lo (l - lo) arr" and ?M = "slice l (start - l) arr"
    have LM: "slice lo (start - lo) arr = ?L @ ?M"
      using slice_add [where a = lo and m = "l - lo" and n = "start - l" and arr = arr] l(2,3) by simp
    have L: "\<forall>y \<in> set ?L. f y \<le> f ?x" and M: "\<forall>y \<in> set ?M. f ?x < f y"
      using l(2-5) s by (auto simp: in_set_conv_nth)
    have "slice lo (start + 1 - lo) ?a = ?L @ ?x # ?M"
      unfolding a using l(2,3) s by (simp add: drop_take Suc_diff_le)
    moreover have "sorted (map f (?L @ ?x # ?M))"
      using "1.prems"(5) L M unfolding LM by (auto simp: sorted_append intro: less_imp_le order_trans)
    ultimately have sorted: "sorted (map f (slice lo (start + 1 - lo) ?a))" by metis
    have arr: "arr = take l arr @ (?M @ [?x]) @ drop (start + 1) arr"
      using drop_slice_rest [OF l(3), of arr] s by (metis Cons_nth_drop_Suc Suc_eq_plus1 append.assoc append_Cons append_Nil append_take_drop_id)
    have "stable_eq f ([?x] @ ?M) (?M @ [?x])" by (rule stable_eq_swap) (use M in auto)
    then have st: "stable_eq f ?a arr"
      unfolding a by (subst (5) arr) (use stable_eq_context [of f "[?x] @ ?M" "?M @ [?x]" "take l arr" "drop (start + 1) arr"] in simp)
    have len: "length ?a = length arr" using binary_insert_in [OF l(2,3) True "1.prems"(4)] by (simp add: in_slice_def)
    have step: "binarysort_loop lt lo hi start arr = binarysort_loop lt lo hi (start + 1) ?a"
      using True l(1) by (subst binarysort_loop.simps) (simp add: Let_def)
    show ?thesis unfolding step
      using "1.IH" [OF True refl l(1) "1.prems"(1)] "1.prems"(2,4) True sorted st len stable_eq_trans by fastforce
  next
    case False
    then show ?thesis using "1.prems" by (subst binarysort_loop.simps) simp
  qed
qed

lemma binarysort_correct:
  assumes "orders lt f" "lo \<le> start" "lo < hi" "start \<le> hi" "hi \<le> length arr" "sorted (map f (slice lo (start - lo) arr))"
  shows "\<exists>arr'. binarysort lt lo hi start arr = (True, arr') \<and> stable_eq f arr' arr \<and> sorted (map f (slice lo (hi - lo) arr'))"
proof -
  have "sorted (map f (slice lo (Suc lo - lo) arr))"
    by (cases "drop lo arr") auto
  then show ?thesis
    unfolding binarysort_def using assms by (auto intro!: binarysort_loop_correct)
qed

section \<open>Natural runs\<close>

function count_desc :: "'e less_than \<Rightarrow> nat \<Rightarrow> nat \<Rightarrow> nat \<Rightarrow> 'e list \<Rightarrow> nat option" where
  "count_desc lt lo hi n arr =
     (if lo < hi
      then (case lt (arr ! lo) (arr ! (lo - 1)) of
              None \<Rightarrow> None
            | Some True \<Rightarrow> count_desc lt (lo + 1) hi (n + 1) arr
            | Some False \<Rightarrow> Some n)
      else Some n)"
  by pat_completeness auto
termination by (relation "measure (\<lambda>(lt, lo, hi, n, arr). hi - lo)") auto

function count_asc :: "'e less_than \<Rightarrow> nat \<Rightarrow> nat \<Rightarrow> nat \<Rightarrow> 'e list \<Rightarrow> nat option" where
  "count_asc lt lo hi n arr =
     (if lo < hi
      then (case lt (arr ! lo) (arr ! (lo - 1)) of
              None \<Rightarrow> None
            | Some True \<Rightarrow> Some n
            | Some False \<Rightarrow> count_asc lt (lo + 1) hi (n + 1) arr)
      else Some n)"
  by pat_completeness auto
termination by (relation "measure (\<lambda>(lt, lo, hi, n, arr). hi - lo)") auto

declare count_desc.simps [simp del] count_asc.simps [simp del]

text \<open>The length of the run at lo, and whether it is descending.\<close>

definition count_run :: "'e less_than \<Rightarrow> nat \<Rightarrow> nat \<Rightarrow> 'e list \<Rightarrow> (nat \<times> bool) option" where
  "count_run lt lo hi arr =
     (if lo + 1 = hi then Some (1, False)
      else (case lt (arr ! (lo + 1)) (arr ! lo) of
              None \<Rightarrow> None
            | Some True \<Rightarrow> map_option (\<lambda>n. (n, True)) (count_desc lt (lo + 2) hi 2 arr)
            | Some False \<Rightarrow> map_option (\<lambda>n. (n, False)) (count_asc lt (lo + 2) hi 2 arr)))"

lemma count_desc_bounds: "count_desc lt lo hi n arr = Some m \<Longrightarrow> lo \<le> hi \<Longrightarrow> n \<le> m \<and> m + lo \<le> n + hi"
proof (induction lt lo hi n arr rule: count_desc.induct)
  case (1 lt lo hi n arr)
  then show ?case by (subst (asm) (2) count_desc.simps) (fastforce split: if_splits option.splits bool.splits)
qed

lemma count_asc_bounds: "count_asc lt lo hi n arr = Some m \<Longrightarrow> lo \<le> hi \<Longrightarrow> n \<le> m \<and> m + lo \<le> n + hi"
proof (induction lt lo hi n arr rule: count_asc.induct)
  case (1 lt lo hi n arr)
  then show ?case by (subst (asm) (2) count_asc.simps) (fastforce split: if_splits option.splits bool.splits)
qed

lemma count_run_bounds:
  assumes "count_run lt lo hi arr = Some (n, descending)" "lo < hi"
  shows "0 < n \<and> lo + n \<le> hi"
  using assms count_desc_bounds [of lt "lo + 2" hi 2 arr n] count_asc_bounds [of lt "lo + 2" hi 2 arr n]
  by (auto simp: count_run_def split: if_splits option.splits bool.splits)

lemma count_desc_run:
  "orders lt f \<Longrightarrow> lo = b + n \<Longrightarrow> lo \<le> hi \<Longrightarrow> 0 < n \<Longrightarrow>
     \<forall>i. i + 1 < n \<longrightarrow> f (arr ! (b + i + 1)) < f (arr ! (b + i)) \<Longrightarrow>
     \<exists>m. count_desc lt lo hi n arr = Some m \<and> (\<forall>i. i + 1 < m \<longrightarrow> f (arr ! (b + i + 1)) < f (arr ! (b + i)))"
proof (induction lt lo hi n arr rule: count_desc.induct)
  case (1 lt lo hi n arr)
  show ?case
  proof (cases "lo < hi \<and> f (arr ! lo) < f (arr ! (lo - 1))")
    case True
    have "count_desc lt lo hi n arr = count_desc lt (lo + 1) hi (n + 1) arr"
      using True "1.prems"(1) by (subst count_desc.simps) (simp add: orders_eq)
    moreover have "f (arr ! (b + i + 1)) < f (arr ! (b + i))" if "i + 1 < n + 1" for i
    proof (cases "i + 1 < n")
      case False
      then have "b + i + 1 = lo" "b + i = lo - 1" using that "1.prems"(2) by auto
      then show ?thesis using True by simp
    qed (use "1.prems"(5) in blast)
    moreover have "lt (arr ! lo) (arr ! (lo - 1)) = Some True" using True "1.prems"(1) by (simp add: orders_eq)
    ultimately show ?thesis using "1.IH" [of True] True "1.prems" by simp
  next
    case False
    then have "count_desc lt lo hi n arr = Some n"
      using "1.prems"(1) by (subst count_desc.simps) (auto simp: orders_eq)
    then show ?thesis using "1.prems"(5) by blast
  qed
qed

lemma count_asc_run:
  "orders lt f \<Longrightarrow> lo = b + n \<Longrightarrow> lo \<le> hi \<Longrightarrow> 0 < n \<Longrightarrow>
     \<forall>i. i + 1 < n \<longrightarrow> f (arr ! (b + i)) \<le> f (arr ! (b + i + 1)) \<Longrightarrow>
     \<exists>m. count_asc lt lo hi n arr = Some m \<and> (\<forall>i. i + 1 < m \<longrightarrow> f (arr ! (b + i)) \<le> f (arr ! (b + i + 1)))"
proof (induction lt lo hi n arr rule: count_asc.induct)
  case (1 lt lo hi n arr)
  show ?case
  proof (cases "lo < hi \<and> f (arr ! (lo - 1)) \<le> f (arr ! lo)")
    case True
    have ltF: "lt (arr ! lo) (arr ! (lo - 1)) = Some False" using True "1.prems"(1) by (simp add: orders_eq not_less)
    have "count_asc lt lo hi n arr = count_asc lt (lo + 1) hi (n + 1) arr"
      using True ltF by (subst count_asc.simps) simp
    moreover have "f (arr ! (b + i)) \<le> f (arr ! (b + i + 1))" if "i + 1 < n + 1" for i
    proof (cases "i + 1 < n")
      case False
      then have "b + i + 1 = lo" "b + i = lo - 1" using that "1.prems"(2) by auto
      then show ?thesis using True by simp
    qed (use "1.prems"(5) in blast)
    ultimately show ?thesis using ltF "1.IH" [of False] True "1.prems" by simp
  next
    case False
    then have "count_asc lt lo hi n arr = Some n"
      using "1.prems"(1) by (subst count_asc.simps) (auto simp: orders_eq not_le)
    then show ?thesis using "1.prems"(5) by blast
  qed
qed

lemma sorted_sliceI:
  assumes "\<forall>i. i + 1 < n \<longrightarrow> f (arr ! (b + i)) \<le> (f (arr ! (b + i + 1)) :: 'k :: linorder)"
  shows "sorted (map f (slice b n arr))"
  using assms by (auto simp: sorted_iff_nth_Suc)

lemma descending_sliceI:
  assumes "\<forall>i. i + 1 < n \<longrightarrow> (f (arr ! (b + i + 1)) :: 'k :: linorder) < f (arr ! (b + i))"
  shows "sorted_wrt (\<lambda>x y. f y < f x) (slice b n arr)"
proof -
  have "transp (\<lambda>x y. f y < f x)" by (auto simp: transp_def)
  then show ?thesis using assms by (auto simp: sorted_wrt_iff_nth_Suc_transp)
qed

lemma count_run_correct:
  assumes o: "orders lt f" and lt: "lo < hi"
  shows "\<exists>n d. count_run lt lo hi arr = Some (n, d)
    \<and> (if d then sorted_wrt (\<lambda>x y. f y < f x) (slice lo n arr) else sorted (map f (slice lo n arr)))"
proof -
  consider "lo + 1 = hi" | "lo + 1 \<noteq> hi" "f (arr ! (lo + 1)) < f (arr ! lo)" | "lo + 1 \<noteq> hi" "f (arr ! lo) \<le> f (arr ! (lo + 1))"
    by fastforce
  then show ?thesis
  proof cases
    case 1
    have "sorted (map f (slice lo 1 arr))" by (cases "drop lo arr") auto
    then show ?thesis using 1 by (auto simp: count_run_def)
  next
    case 2
    have l: "lt (arr ! (lo + 1)) (arr ! lo) = Some True" using o 2(2) by (simp add: orders_eq)
    have "\<exists>m. count_desc lt (lo + 2) hi 2 arr = Some m \<and> (\<forall>i. i + 1 < m \<longrightarrow> f (arr ! (lo + i + 1)) < f (arr ! (lo + i)))"
      by (rule count_desc_run [OF o]) (use lt 2 in \<open>auto simp: less_Suc_eq\<close>)
    then obtain m where m: "count_desc lt (lo + 2) hi 2 arr = Some m" "\<forall>i. i + 1 < m \<longrightarrow> f (arr ! (lo + i + 1)) < f (arr ! (lo + i))"
      by blast
    have "count_run lt lo hi arr = Some (m, True)" using 2(1) l m(1) by (simp add: count_run_def)
    then show ?thesis using descending_sliceI [OF m(2)] by auto
  next
    case 3
    have l: "lt (arr ! (lo + 1)) (arr ! lo) = Some False" using o 3(2) by (simp add: orders_eq not_less)
    have "\<exists>m. count_asc lt (lo + 2) hi 2 arr = Some m \<and> (\<forall>i. i + 1 < m \<longrightarrow> f (arr ! (lo + i)) \<le> f (arr ! (lo + i + 1)))"
      by (rule count_asc_run [OF o]) (use lt 3 in \<open>auto simp: less_Suc_eq\<close>)
    then obtain m where m: "count_asc lt (lo + 2) hi 2 arr = Some m" "\<forall>i. i + 1 < m \<longrightarrow> f (arr ! (lo + i)) \<le> f (arr ! (lo + i + 1))"
      by blast
    have "count_run lt lo hi arr = Some (m, False)" using 3(1) l m(1) by (simp add: count_run_def)
    then show ?thesis using sorted_sliceI [OF m(2)] by auto
  qed
qed

text \<open>A strictly descending run, reversed, is sorted, and no equal elements have changed places.\<close>

lemma reverse_descending:
  assumes "sorted_wrt (\<lambda>x y. f y < (f x :: 'k :: linorder)) (slice lo n arr)" "lo + n \<le> length arr"
  shows "sorted (map f (slice lo n (reverse_slice lo (lo + n) arr)))" "stable_eq f (reverse_slice lo (lo + n) arr) arr"
proof -
  have r: "reverse_slice lo (lo + n) arr = take lo arr @ rev (slice lo n arr) @ drop (lo + n) arr"
    using reverse_slice_rev [of lo "lo + n" arr] assms(2) by simp
  have "sorted_wrt (\<lambda>x y. f x \<le> f y) (rev (slice lo n arr))"
    unfolding sorted_wrt_rev by (rule sorted_wrt_mono_rel [OF _ assms(1)]) simp
  then have "sorted (map f (rev (slice lo n arr)))" by (simp add: sorted_wrt_map)
  moreover have "slice lo n (reverse_slice lo (lo + n) arr) = rev (slice lo n arr)"
    unfolding r using assms(2) by simp
  ultimately show "sorted (map f (slice lo n (reverse_slice lo (lo + n) arr)))" by metis
  have "sorted_wrt (\<lambda>x y. f x \<noteq> f y) (slice lo n arr)" by (rule sorted_wrt_mono_rel [OF _ assms(1)]) auto
  from stable_eq_context [OF stable_eq_rev [OF this]]
  show "stable_eq f (reverse_slice lo (lo + n) arr) arr"
    unfolding r using split_slice [of lo "lo + n" arr] by (metis add_diff_cancel_left' le_add1)
qed

end
