(* ===== verification/Py_Merge.thy ===== *)
theory Py_Merge
  imports Py_Runs
begin

text \<open>
  Objects/listobject.c of CPython: merging two adjacent runs in place,
  merge_lo and merge_hi, with their galloping mode. The array is written while
  it is read; the variables are the indices of the code. The assertions of the
  code are tests here, and a failed one is an outcome of its own.
\<close>

section \<open>The state of a merge\<close>

definition MIN_GALLOP :: nat where
  "MIN_GALLOP = 7"

definition MERGESTATE_TEMP_SIZE :: nat where
  "MERGESTATE_TEMP_SIZE = 256"

text \<open>The array being sorted, and the fields of MergeState; a pending run is its base and length.\<close>

record 'e merge_state =
  ms_arr :: "'e list"
  ms_min_gallop :: nat
  ms_alloced :: nat
  ms_pending :: "(nat \<times> nat) list"

definition merge_init :: "'e list \<Rightarrow> 'e merge_state" where
  "merge_init arr =
     \<lparr>ms_arr = arr, ms_min_gallop = MIN_GALLOP, ms_alloced = MERGESTATE_TEMP_SIZE, ms_pending = []\<rparr>"

definition merge_freemem :: "'e merge_state \<Rightarrow> 'e merge_state" where
  "merge_freemem ms = ms\<lparr>ms_alloced := MERGESTATE_TEMP_SIZE\<rparr>"

text \<open>malloc tells whether memory for that many slots can be had; a pointer has 8 bytes.\<close>

definition merge_getmem :: "(nat \<Rightarrow> bool) \<Rightarrow> nat \<Rightarrow> 'e merge_state \<Rightarrow> bool \<times> 'e merge_state" where
  "merge_getmem malloc need ms =
     (if need \<le> ms_alloced ms then (True, ms)
      else
        let ms = merge_freemem ms
        in if need > (2 ^ 63 - 1) div 8 then (False, ms)
           else if malloc need then (True, ms\<lparr>ms_alloced := need\<rparr>)
           else (False, merge_freemem ms))"

text \<open>memcpy and memmove of the elements xs to a place of the array.\<close>

definition copy_elts :: "nat \<Rightarrow> 'e list \<Rightarrow> 'e list \<Rightarrow> 'e list" where
  "copy_elts dest xs arr = take dest arr @ xs @ drop (dest + length xs) arr"

datatype merge_exit = Succeed | Fail | CopyLast | Leave | Bad_assert

text \<open>The local variables of merge_lo; pa points into tmp, pb and dest into the array.\<close>

record 'e merge_vars =
  mv_arr :: "'e list"
  mv_tmp :: "'e list"
  mv_dest :: nat
  mv_pa :: nat
  mv_na :: nat
  mv_pb :: nat
  mv_nb :: nat

section \<open>The loops that both merges run\<close>

text \<open>
  The counting loop takes one element at a time, until one run has won
  min_gallop times in a row. Its state is a parameter: less is the comparison of
  the two heads, on_less and on_geq are the two moves, and spent_less and
  spent_geq tell that the run moved from has no more to give.
\<close>

locale merge_counting =
  fixes cnt :: "nat \<Rightarrow> nat \<Rightarrow> nat \<Rightarrow> 'v \<Rightarrow> merge_exit \<times> 'v"
    and ready :: "'v \<Rightarrow> bool" and less :: "'v \<Rightarrow> bool option"
    and on_less on_geq :: "'v \<Rightarrow> 'v" and spent_less spent_geq :: "'v \<Rightarrow> bool"
    and exit_less exit_geq :: merge_exit and left :: "'v \<Rightarrow> nat"
  assumes cnt_none: "ready v \<Longrightarrow> less v = None \<Longrightarrow> cnt mg gc lc v = (Fail, v)"
    and cnt_less: "ready v \<Longrightarrow> less v = Some True \<Longrightarrow> cnt mg gc lc v =
      (if spent_less (on_less v) then (exit_less, on_less v) else if mg \<le> lc + 1 then (Leave, on_less v)
       else cnt mg 0 (lc + 1) (on_less v))"
    and cnt_geq: "ready v \<Longrightarrow> less v = Some False \<Longrightarrow> cnt mg gc lc v =
      (if spent_geq (on_geq v) then (exit_geq, on_geq v) else if mg \<le> gc + 1 then (Leave, on_geq v)
       else cnt mg (gc + 1) 0 (on_geq v))"
    and cnt_bad: "\<not> ready v \<Longrightarrow> cnt mg gc lc v = (Bad_assert, v)"
    and ready_less: "ready v \<Longrightarrow> \<not> spent_less (on_less v) \<Longrightarrow> ready (on_less v)"
    and ready_geq: "ready v \<Longrightarrow> \<not> spent_geq (on_geq v) \<Longrightarrow> ready (on_geq v)"
    and shrink: "ready v \<Longrightarrow> left (on_less v) < left v" "ready v \<Longrightarrow> left (on_geq v) < left v"
    and exits: "exit_less \<noteq> Leave" "exit_geq \<noteq> Leave"
begin

text \<open>I holds before each step, J after it, and Q tells what holds where the loop ends.\<close>

lemma cnt_rule:
  assumes "cnt mg gc lc v = (e, v')" "I v" "ready v"
    and none: "\<And>v. I v \<Longrightarrow> ready v \<Longrightarrow> less v = None \<Longrightarrow> Q Fail v"
    and less: "\<And>v. I v \<Longrightarrow> ready v \<Longrightarrow> less v = Some True \<Longrightarrow> J (on_less v) \<and> (spent_less (on_less v) \<longrightarrow> Q exit_less (on_less v))"
    and geq: "\<And>v. I v \<Longrightarrow> ready v \<Longrightarrow> less v = Some False \<Longrightarrow> J (on_geq v) \<and> (spent_geq (on_geq v) \<longrightarrow> Q exit_geq (on_geq v))"
    and leave: "\<And>v. J v \<Longrightarrow> ready v \<Longrightarrow> Q Leave v"
    and again: "\<And>v. J v \<Longrightarrow> I v"
  shows "Q e v'"
  using assms(1-3)
proof (induction "left v" arbitrary: v gc lc rule: less_induct)
  case shrunk: less
  note st = shrunk(2) and I = shrunk(3) and r = shrunk(4)
  consider "less v = None" | "less v = Some True" | "less v = Some False" by (cases "less v") auto
  then show ?case
  proof cases
    case 1
    then show ?thesis using st cnt_none [OF r 1] none [OF I r 1] by simp
  next
    case 2
    have J: "J (on_less v)" "spent_less (on_less v) \<Longrightarrow> Q exit_less (on_less v)" using less [OF I r 2] by blast+
    note c = cnt_less [OF r 2, of mg gc lc]
    show ?thesis
    proof (cases "spent_less (on_less v)")
      case True
      then show ?thesis using st c J(2) by simp
    next
      case False
      note rdy = ready_less [OF r False]
      show ?thesis
      proof (cases "mg \<le> lc + 1")
        case True
        then have "e = Leave" "v' = on_less v" using st c False by simp_all
        then show ?thesis using leave [OF J(1) rdy] by simp
      next
        case go: False
        then have "cnt mg 0 (lc + 1) (on_less v) = (e, v')" using st c False by simp
        from shrunk(1) [OF shrink(1) [OF r] this again [OF J(1)] rdy] show ?thesis .
      qed
    qed
  next
    case 3
    have J: "J (on_geq v)" "spent_geq (on_geq v) \<Longrightarrow> Q exit_geq (on_geq v)" using geq [OF I r 3] by blast+
    note c = cnt_geq [OF r 3, of mg gc lc]
    show ?thesis
    proof (cases "spent_geq (on_geq v)")
      case True
      then show ?thesis using st c J(2) by simp
    next
      case False
      note rdy = ready_geq [OF r False]
      show ?thesis
      proof (cases "mg \<le> gc + 1")
        case True
        then have "e = Leave" "v' = on_geq v" using st c False by simp_all
        then show ?thesis using leave [OF J(1) rdy] by simp
      next
        case go: False
        then have "cnt mg (gc + 1) 0 (on_geq v) = (e, v')" using st c False by simp
        from shrunk(1) [OF shrink(2) [OF r] this again [OF J(1)] rdy] show ?thesis .
      qed
    qed
  qed
qed

lemma cnt_shrinks:
  assumes "cnt mg gc lc v = (Leave, v')"
  shows "left v' < left v"
proof (cases "ready v")
  case True
  have "Leave = Leave \<longrightarrow> left v' < left v"
    by (rule cnt_rule [OF assms _ True, where I = "\<lambda>x. left x \<le> left v" and J = "\<lambda>x. left x < left v"])
      (use exits in \<open>auto dest: shrink\<close>)
  then show ?thesis by simp
qed (use assms cnt_bad in auto)

end

definition less_min_gallop :: "nat \<Rightarrow> nat" where
  "less_min_gallop min_gallop = (if min_gallop > 1 then min_gallop - 1 else min_gallop)"

text \<open>The galloping loop repeats a round while the round finds long stretches.\<close>

locale merge_galloping =
  fixes round :: "'v \<Rightarrow> merge_exit \<times> bool \<times> 'v" and gal :: "nat \<Rightarrow> 'v \<Rightarrow> merge_exit \<times> nat \<times> 'v"
    and left :: "'v \<Rightarrow> nat"
  assumes gal_eq: "round v = (e, again, v1) \<Longrightarrow> gal mg v =
      (if e = Leave \<and> again then gal (less_min_gallop mg) v1 else (e, less_min_gallop mg, v1))"
    and round_shrinks: "round v = (Leave, again, v1) \<Longrightarrow> left v1 < left v"
begin

lemma gal_shrinks: "gal mg v = (Leave, mg', v') \<Longrightarrow> left v' < left v"
proof (induction "left v" arbitrary: v mg rule: less_induct)
  case less
  obtain e again v1 where r: "round v = (e, again, v1)" by (metis prod_cases3)
  note g = less(2) [unfolded gal_eq [OF r, of mg]]
  then have e: "e = Leave" by (auto split: if_splits)
  note s = round_shrinks [OF r [unfolded e]]
  show ?case
  proof (cases again)
    case True
    then show ?thesis using less(1) [OF s] g e s by fastforce
  qed (use g e s in simp)
qed

end

text \<open>
  What is shown of a merge, step by step: u are the variables at some point and v
  later. moved tells that nothing is lost, whatever the comparison; good that the
  comparison is an order and the runs are sorted; whole lists all elements, and
  only ever changes into a list that is as stable.
\<close>

definition merge_ok :: "('v \<Rightarrow> 'v \<Rightarrow> bool) \<Rightarrow> ('v \<Rightarrow> bool) \<Rightarrow> ('v \<Rightarrow> 'e list) \<Rightarrow> ('e \<Rightarrow> 'k) \<Rightarrow> 'v \<Rightarrow> 'v \<Rightarrow> bool" where
  "merge_ok moved good whole f u v \<longleftrightarrow> moved u v \<and> (good u \<longrightarrow> good v \<and> stable_eq f (whole v) (whole u))"

definition exit_ok :: "('v \<Rightarrow> 'v \<Rightarrow> bool) \<Rightarrow> ('v \<Rightarrow> bool) \<Rightarrow> ('v \<Rightarrow> bool) \<Rightarrow> ('v \<Rightarrow> bool) \<Rightarrow> ('v \<Rightarrow> bool) \<Rightarrow> 'v \<Rightarrow> merge_exit \<Rightarrow> 'v \<Rightarrow> bool" where
  "exit_ok ok good spent single ready u e v \<longleftrightarrow> ok u v
     \<and> (case e of Succeed \<Rightarrow> spent v | Fail \<Rightarrow> \<not> good u | CopyLast \<Rightarrow> single v | Leave \<Rightarrow> ready v | Bad_assert \<Rightarrow> False)"

lemma exit_ok_simps [simp]:
  "exit_ok ok good spent single ready u Succeed v \<longleftrightarrow> ok u v \<and> spent v"
  "exit_ok ok good spent single ready u Fail v \<longleftrightarrow> ok u v \<and> \<not> good u"
  "exit_ok ok good spent single ready u CopyLast v \<longleftrightarrow> ok u v \<and> single v"
  "exit_ok ok good spent single ready u Leave v \<longleftrightarrow> ok u v \<and> ready v"
  "\<not> exit_ok ok good spent single ready u Bad_assert v"
  by (simp_all add: exit_ok_def)

lemma exit_ok_ok: "exit_ok ok good spent single ready u e v \<Longrightarrow> ok u v"
  by (simp add: exit_ok_def)

locale merge_steps =
  fixes moved :: "'v \<Rightarrow> 'v \<Rightarrow> bool" and good :: "'v \<Rightarrow> bool" and whole :: "'v \<Rightarrow> 'e list" and f :: "'e \<Rightarrow> 'k"
    and inv :: "'v \<Rightarrow> bool"
  assumes moved_refl: "inv v \<Longrightarrow> moved v v" and moved_trans: "moved u v \<Longrightarrow> moved v w \<Longrightarrow> moved u w"
    and moved_inv: "moved u v \<Longrightarrow> inv v"
begin

lemma ok_refl: "inv v \<Longrightarrow> merge_ok moved good whole f v v"
  by (simp add: merge_ok_def moved_refl)

lemma ok_inv: "merge_ok moved good whole f u v \<Longrightarrow> inv v"
  using moved_inv by (auto simp: merge_ok_def)

lemma ok_good: "merge_ok moved good whole f u v \<Longrightarrow> good u \<Longrightarrow> good v"
  by (simp add: merge_ok_def)

lemma ok_trans: "merge_ok moved good whole f u v \<Longrightarrow> merge_ok moved good whole f v w \<Longrightarrow> merge_ok moved good whole f u w"
  unfolding merge_ok_def using moved_trans stable_eq_trans by blast

lemma exit_trans: "merge_ok moved good whole f u v \<Longrightarrow> exit_ok (merge_ok moved good whole f) good spent single ready v e w \<Longrightarrow> exit_ok (merge_ok moved good whole f) good spent single ready u e w"
  using ok_trans ok_good by (cases e) auto

lemma ok_step:
  assumes "merge_ok moved good whole f u v" "moved v w" "good u \<Longrightarrow> good v \<Longrightarrow> good w \<and> stable_eq f (whole w) (whole v)"
  shows "merge_ok moved good whole f u w"
  using assms moved_trans stable_eq_trans unfolding merge_ok_def by blast

end

text \<open>Counting and galloping in turn, until a run is used up.\<close>

locale merge_looping = merge_steps moved good whole f inv + merge_galloping round gal left
  for moved :: "'v \<Rightarrow> 'v \<Rightarrow> bool" and good :: "'v \<Rightarrow> bool" and whole :: "'v \<Rightarrow> 'e list" and f :: "'e \<Rightarrow> 'k"
    and inv :: "'v \<Rightarrow> bool" and round :: "'v \<Rightarrow> merge_exit \<times> bool \<times> 'v"
    and gal :: "nat \<Rightarrow> 'v \<Rightarrow> merge_exit \<times> nat \<times> 'v" and left :: "'v \<Rightarrow> nat" +
  fixes cnt :: "nat \<Rightarrow> 'v \<Rightarrow> merge_exit \<times> 'v" and loop :: "nat \<Rightarrow> 'v \<Rightarrow> merge_exit \<times> nat \<times> 'v"
    and spent single ready :: "'v \<Rightarrow> bool"
  assumes loop_end: "cnt mg v = (e, v1) \<Longrightarrow> e \<noteq> Leave \<Longrightarrow> loop mg v = (e, mg, v1)"
    and loop_again: "cnt mg v = (Leave, v1) \<Longrightarrow> gal (mg + 1) v1 = (e, mg', v2) \<Longrightarrow>
      loop mg v = (if e = Leave then loop (mg' + 1) v2 else (e, mg', v2))"
    and cnt_shrinks: "cnt mg v = (Leave, v1) \<Longrightarrow> left v1 < left v"
    and cnt_ok: "inv v \<Longrightarrow> ready v \<Longrightarrow> cnt mg v = (e, v1) \<Longrightarrow> exit_ok (merge_ok moved good whole f) good spent single ready v e v1"
    and round_ok: "inv v \<Longrightarrow> ready v \<Longrightarrow> round v = (e, again, v1) \<Longrightarrow> exit_ok (merge_ok moved good whole f) good spent single ready v e v1"
begin

lemma gal_ok: "inv v \<Longrightarrow> ready v \<Longrightarrow> gal mg v = (e, mg', v') \<Longrightarrow> exit_ok (merge_ok moved good whole f) good spent single ready v e v'"
proof (induction "left v" arbitrary: v mg rule: less_induct)
  case less
  obtain e1 again v1 where r: "round v = (e1, again, v1)" by (metis prod_cases3)
  have R: "exit_ok (merge_ok moved good whole f) good spent single ready v e1 v1" by (rule round_ok [OF less(2,3) r])
  note g = less(4) [unfolded gal_eq [OF r, of mg]]
  show ?case
  proof (cases "e1 = Leave \<and> again")
    case True
    then have l: "left v1 < left v" and ok: "merge_ok moved good whole f v v1" "ready v1" and g': "gal (less_min_gallop mg) v1 = (e, mg', v')"
      using round_shrinks r R g by auto
    from less(1) [OF l ok_inv [OF ok(1)] ok(2) g'] show ?thesis by (rule exit_trans [OF ok(1)])
  next
    case False
    then show ?thesis using g R by (auto split: if_splits)
  qed
qed

lemma loop_ok: "inv v \<Longrightarrow> ready v \<Longrightarrow> loop mg v = (e, mg', v') \<Longrightarrow> exit_ok (merge_ok moved good whole f) good spent single ready v e v' \<and> e \<noteq> Leave"
proof (induction "left v" arbitrary: v mg rule: less_induct)
  case less
  obtain ec vc where c: "cnt mg v = (ec, vc)" by (metis surj_pair)
  have C: "exit_ok (merge_ok moved good whole f) good spent single ready v ec vc" by (rule cnt_ok [OF less(2,3) c])
  show ?case
  proof (cases "ec = Leave")
    case True
    obtain eg mg1 vg where g: "gal (mg + 1) vc = (eg, mg1, vg)" by (metis prod_cases3)
    have ok: "merge_ok moved good whole f v vc" "ready vc" using C True by auto
    have G: "exit_ok (merge_ok moved good whole f) good spent single ready v eg vg" by (rule exit_trans [OF ok(1) gal_ok [OF ok_inv [OF ok(1)] ok(2) g]])
    note st = loop_again [OF c [unfolded True] g]
    show ?thesis
    proof (cases "eg = Leave")
      case l: True
      then have ok: "merge_ok moved good whole f v vg" "ready vg" and "loop (mg1 + 1) vg = (e, mg', v')" using G st less(4) by auto
      moreover have "left vg < left v" using cnt_shrinks c True gal_shrinks g l by (metis less_trans)
      ultimately show ?thesis using less(1) [of vg] ok_inv exit_trans by blast
    qed (use less(4) st G in simp)
  qed (use less(4) loop_end [OF c] C in simp)
qed

end

section \<open>What a merge achieves\<close>

lemma length_copy_elts: "dest + length xs \<le> length arr \<Longrightarrow> length (copy_elts dest xs arr) = length arr"
  by (simp add: copy_elts_def)

lemma take_copy_elts: "b \<le> dest \<Longrightarrow> dest + length xs \<le> length arr \<Longrightarrow> take b (copy_elts dest xs arr) = take b arr"
  by (simp add: copy_elts_def min_def)

lemma drop_copy_elts:
  "dest + length xs \<le> m \<Longrightarrow> dest + length xs \<le> length arr \<Longrightarrow> drop m (copy_elts dest xs arr) = drop m arr"
  by (simp add: copy_elts_def)

lemma slice_copy_elts:
  "b \<le> dest \<Longrightarrow> dest + length xs \<le> length arr \<Longrightarrow>
     slice b (dest + length xs - b) (copy_elts dest xs arr) = slice b (dest - b) arr @ xs"
  by (simp add: copy_elts_def drop_take)

lemma slice_copy_elts_above:
  "dest + length xs \<le> h \<Longrightarrow> h \<le> length arr \<Longrightarrow>
     slice dest (h - dest) (copy_elts dest xs arr) = xs @ slice (dest + length xs) (h - (dest + length xs)) arr"
  by (simp add: copy_elts_def)

lemma copy_one: "dest < length arr \<Longrightarrow> copy_elts dest [x] arr = arr[dest := x]"
  by (simp add: copy_elts_def upd_conv_take_nth_drop)

lemma copy_elts_pieces:
  assumes "b \<le> d" "d + length xs = h" "h \<le> length arr"
  shows "copy_elts d xs arr = take b arr @ slice b (d - b) arr @ xs @ drop h arr"
proof -
  have "take d arr = take b arr @ slice b (d - b) arr"
    using assms(1) by (metis le_add_diff_inverse take_add)
  then show ?thesis using assms(2) by (simp add: copy_elts_def)
qed

lemma copy_elts_twice:
  assumes "d + length xs + length ys \<le> length arr"
  shows "copy_elts (d + length xs) ys (copy_elts d xs arr) = copy_elts d (xs @ ys) arr"
  using assms by (simp add: copy_elts_def ac_simps)

lemma sorted_hd_le: "sorted (map f xs) \<Longrightarrow> x \<in> set xs \<Longrightarrow> f (hd xs) \<le> (f x :: 'k :: linorder)"
  by (cases xs) auto

lemma sorted_last_ge: "sorted (map f xs) \<Longrightarrow> x \<in> set xs \<Longrightarrow> (f x :: 'k :: linorder) \<le> f (last xs)"
  by (induction xs rule: rev_induct) (auto simp: sorted_append)

lemma take_one: "xs \<noteq> [] \<Longrightarrow> take 1 xs = [hd xs]"
  by (cases xs) auto

text \<open>What is shown of a merge of A and B that lie at lo up to hi of an array.\<close>

definition merges :: "('e \<Rightarrow> 'k :: linorder) \<Rightarrow> nat \<Rightarrow> nat \<Rightarrow> 'e list \<Rightarrow> merge_exit \<Rightarrow> 'e list \<Rightarrow> bool \<Rightarrow> bool" where
  "merges f lo hi arr e arr' good \<longleftrightarrow> e \<in> {Succeed, Fail} \<and> in_slice lo hi arr arr'
     \<and> (good \<longrightarrow> e = Succeed \<and> sorted (map f (slice lo (hi - lo) arr'))
          \<and> stable_eq f (slice lo (hi - lo) arr') (slice lo (hi - lo) arr))"

lemma rebuilt_slice:
  assumes "arr' = take lo arr @ R @ drop hi arr" "length R = hi - lo" "lo \<le> hi" "hi \<le> length arr"
    "mset R = mset (slice lo (hi - lo) arr)"
  shows "slice lo (hi - lo) arr' = R" "in_slice lo hi arr arr'"
  using assms by (auto simp: in_slice_def)

lemma mergesI:
  assumes "arr' = take lo arr @ R @ drop hi arr" "lo \<le> hi" "hi \<le> length arr" "mset R = mset (slice lo (hi - lo) arr)"
    "e \<in> {Succeed, Fail}" "good \<Longrightarrow> e = Succeed \<and> sorted (map f R) \<and> stable_eq f R (slice lo (hi - lo) arr)"
  shows "merges f lo hi arr e arr' good"
proof -
  have "length R = hi - lo" using mset_eq_length [OF assms(4)] assms(2,3) by simp
  note r = rebuilt_slice [OF assms(1) this assms(2-4)]
  show ?thesis using assms(5,6) r by (simp add: merges_def)
qed

lemma merge_getmem_keeps:
  "merge_getmem malloc need ms = (ok, ms') \<Longrightarrow>
     ms_arr ms' = ms_arr ms \<and> ms_pending ms' = ms_pending ms \<and> ms_min_gallop ms' = ms_min_gallop ms"
  by (auto simp: merge_getmem_def merge_freemem_def Let_def split: if_splits)

end
