(* ===== verification/Py_Merge_Lo.thy ===== *)
theory Py_Merge_Lo
  imports Py_Merge
begin

text \<open>
  Objects/listobject.c of CPython: merge_lo, which copies the first run to the
  temporary array and merges from the left.
\<close>

section \<open>merge_lo\<close>

definition lo_b :: "'e merge_vars \<Rightarrow> 'e merge_vars" where
  "lo_b v = v\<lparr>mv_arr := (mv_arr v)[mv_dest v := mv_arr v ! mv_pb v], mv_dest := mv_dest v + 1,
              mv_pb := mv_pb v + 1, mv_nb := mv_nb v - 1\<rparr>"

definition lo_a :: "'e merge_vars \<Rightarrow> 'e merge_vars" where
  "lo_a v = v\<lparr>mv_arr := (mv_arr v)[mv_dest v := mv_tmp v ! mv_pa v], mv_dest := mv_dest v + 1,
              mv_pa := mv_pa v + 1, mv_na := mv_na v - 1\<rparr>"

definition lo_copy_a :: "nat \<Rightarrow> 'e merge_vars \<Rightarrow> 'e merge_vars" where
  "lo_copy_a k v = v\<lparr>mv_arr := copy_elts (mv_dest v) (slice (mv_pa v) k (mv_tmp v)) (mv_arr v),
                     mv_dest := mv_dest v + k, mv_pa := mv_pa v + k, mv_na := mv_na v - k\<rparr>"

definition lo_copy_b :: "nat \<Rightarrow> 'e merge_vars \<Rightarrow> 'e merge_vars" where
  "lo_copy_b k v = v\<lparr>mv_arr := copy_elts (mv_dest v) (slice (mv_pb v) k (mv_arr v)) (mv_arr v),
                     mv_dest := mv_dest v + k, mv_pb := mv_pb v + k, mv_nb := mv_nb v - k\<rparr>"

lemma lo_sizes [simp]:
  "mv_na (lo_b v) = mv_na v" "mv_nb (lo_b v) = mv_nb v - 1"
  "mv_na (lo_a v) = mv_na v - 1" "mv_nb (lo_a v) = mv_nb v"
  "mv_na (lo_copy_a k v) = mv_na v - k" "mv_nb (lo_copy_a k v) = mv_nb v"
  "mv_na (lo_copy_b k v) = mv_na v" "mv_nb (lo_copy_b k v) = mv_nb v - k"
  by (simp_all add: lo_a_def lo_b_def lo_copy_a_def lo_copy_b_def)

text \<open>One element at a time, until one run has won min_gallop times in a row.\<close>

function lo_count :: "'e less_than \<Rightarrow> nat \<Rightarrow> nat \<Rightarrow> nat \<Rightarrow> 'e merge_vars \<Rightarrow> merge_exit \<times> 'e merge_vars" where
  "lo_count lt min_gallop acount bcount v =
     (if \<not> (1 < mv_na v \<and> 0 < mv_nb v) then (Bad_assert, v)
      else
        (case lt (mv_arr v ! mv_pb v) (mv_tmp v ! mv_pa v) of
           None \<Rightarrow> (Fail, v)
         | Some True \<Rightarrow>
             (let v = lo_b v
              in if mv_nb v = 0 then (Succeed, v)
                 else if bcount + 1 \<ge> min_gallop then (Leave, v)
                 else lo_count lt min_gallop 0 (bcount + 1) v)
         | Some False \<Rightarrow>
             (let v = lo_a v
              in if mv_na v = 1 then (CopyLast, v)
                 else if acount + 1 \<ge> min_gallop then (Leave, v)
                 else lo_count lt min_gallop (acount + 1) 0 v)))"
  by pat_completeness auto
termination
  by (relation "measure (\<lambda>(lt, min_gallop, acount, bcount, v). mv_na v + mv_nb v)") auto

declare lo_count.simps [simp del]

text \<open>
  A round of galloping: the elements of A that go before the head of B, with
  that head; then the elements of B that go before the head of A, with that
  head. The second component is the number of elements found.
\<close>

definition lo_gallop_a :: "'e less_than \<Rightarrow> 'e merge_vars \<Rightarrow> merge_exit \<times> nat \<times> 'e merge_vars" where
  "lo_gallop_a lt v =
     (case gallop_right lt (mv_arr v ! mv_pb v) (mv_tmp v) (mv_pa v) (mv_na v) 0 of
        None \<Rightarrow> (Fail, 0, v)
      | Some k \<Rightarrow>
          (let v = (if k \<noteq> 0 then lo_copy_a k v else v)
           in if k \<noteq> 0 \<and> mv_na v = 1 then (CopyLast, k, v)
              else if k \<noteq> 0 \<and> mv_na v = 0 then (Succeed, k, v)
              else (let v = lo_b v in if mv_nb v = 0 then (Succeed, k, v) else (Leave, k, v))))"

definition lo_gallop_b :: "'e less_than \<Rightarrow> 'e merge_vars \<Rightarrow> merge_exit \<times> nat \<times> 'e merge_vars" where
  "lo_gallop_b lt v =
     (case gallop_left lt (mv_tmp v ! mv_pa v) (mv_arr v) (mv_pb v) (mv_nb v) 0 of
        None \<Rightarrow> (Fail, 0, v)
      | Some k \<Rightarrow>
          (let v = (if k \<noteq> 0 then lo_copy_b k v else v)
           in if k \<noteq> 0 \<and> mv_nb v = 0 then (Succeed, k, v)
              else (let v = lo_a v in if mv_na v = 1 then (CopyLast, k, v) else (Leave, k, v))))"

text \<open>The flag tells whether the round found enough to go on galloping.\<close>

definition lo_round :: "'e less_than \<Rightarrow> 'e merge_vars \<Rightarrow> merge_exit \<times> bool \<times> 'e merge_vars" where
  "lo_round lt v =
     (if \<not> (1 < mv_na v \<and> 0 < mv_nb v) then (Bad_assert, False, v)
      else (case lo_gallop_a lt v of
              (Leave, acount, v) \<Rightarrow>
                (case lo_gallop_b lt v of
                   (e, bcount, v) \<Rightarrow> (e, acount \<ge> MIN_GALLOP \<or> bcount \<ge> MIN_GALLOP, v))
            | (e, acount, v) \<Rightarrow> (e, False, v)))"

lemma lo_gallop_a_sizes:
  "lo_gallop_a lt v = (e, k, v') \<Longrightarrow> mv_nb v' \<le> mv_nb v \<and> mv_na v' \<le> mv_na v \<and> (e = Leave \<longrightarrow> mv_nb v' < mv_nb v \<and> 0 < mv_nb v')"
  by (auto simp: lo_gallop_a_def Let_def split: option.splits if_splits)

lemma lo_gallop_b_sizes:
  "lo_gallop_b lt v = (e, k, v') \<Longrightarrow> mv_nb v' \<le> mv_nb v \<and> mv_na v' \<le> mv_na v"
  by (auto simp: lo_gallop_b_def Let_def split: option.splits if_splits)

lemma lo_round_sizes:
  assumes "lo_round lt v = (Leave, again, v')"
  shows "mv_nb v' < mv_nb v \<and> mv_na v' \<le> mv_na v"
proof -
  obtain e k v1 where a: "lo_gallop_a lt v = (e, k, v1)" by (metis prod_cases3)
  obtain e' k' v2 where b: "lo_gallop_b lt v1 = (e', k', v2)" by (metis prod_cases3)
  have "e = Leave \<and> v' = v2"
    using assms a b by (cases e) (auto simp: lo_round_def split: if_splits)
  then show ?thesis using lo_gallop_a_sizes [OF a] lo_gallop_b_sizes [OF b] by auto
qed

function lo_gallop :: "'e less_than \<Rightarrow> nat \<Rightarrow> 'e merge_vars \<Rightarrow> merge_exit \<times> nat \<times> 'e merge_vars" where
  "lo_gallop lt min_gallop v =
     (let min_gallop = less_min_gallop min_gallop
      in (case lo_round lt v of
            (e, again, v) \<Rightarrow>
              if e = Leave \<and> again then lo_gallop lt min_gallop v else (e, min_gallop, v)))"
  by pat_completeness auto
termination
  by (relation "measure (\<lambda>(lt, min_gallop, v). mv_nb v)") (auto dest!: lo_round_sizes [OF sym])

declare lo_gallop.simps [simp del]

lemma lo_count_step:
  assumes "1 < mv_na v" "0 < mv_nb v"
  shows "lt (mv_arr v ! mv_pb v) (mv_tmp v ! mv_pa v) = None \<Longrightarrow> lo_count lt mg ac bc v = (Fail, v)"
    and "lt (mv_arr v ! mv_pb v) (mv_tmp v ! mv_pa v) = Some True \<Longrightarrow> lo_count lt mg ac bc v =
      (if mv_nb (lo_b v) = 0 then (Succeed, lo_b v) else if mg \<le> bc + 1 then (Leave, lo_b v)
       else lo_count lt mg 0 (bc + 1) (lo_b v))"
    and "lt (mv_arr v ! mv_pb v) (mv_tmp v ! mv_pa v) = Some False \<Longrightarrow> lo_count lt mg ac bc v =
      (if mv_na (lo_a v) = 1 then (CopyLast, lo_a v) else if mg \<le> ac + 1 then (Leave, lo_a v)
       else lo_count lt mg (ac + 1) 0 (lo_a v))"
  using assms by (subst lo_count.simps, simp add: Let_def)+

lemma lo_count_bad: "\<not> (1 < mv_na v \<and> 0 < mv_nb v) \<Longrightarrow> lo_count lt mg ac bc v = (Bad_assert, v)"
  by (subst lo_count.simps) simp

interpretation lo_counting: merge_counting "lo_count lt" "\<lambda>v. 1 < mv_na v \<and> 0 < mv_nb v"
    "\<lambda>v. lt (mv_arr v ! mv_pb v) (mv_tmp v ! mv_pa v)" lo_b lo_a "\<lambda>v. mv_nb v = 0" "\<lambda>v. mv_na v = 1" Succeed CopyLast
    "\<lambda>v. mv_na v + mv_nb v"
  for lt
  by unfold_locales (auto simp: lo_count_step lo_count_bad)

lemma lo_gallop_step:
  "lo_round lt v = (e, again, v1) \<Longrightarrow> lo_gallop lt mg v =
     (if e = Leave \<and> again then lo_gallop lt (less_min_gallop mg) v1 else (e, less_min_gallop mg, v1))"
  by (subst lo_gallop.simps) (simp add: Let_def)

interpretation lo_galloping: merge_galloping "lo_round lt" "lo_gallop lt" "\<lambda>v. mv_na v + mv_nb v"
  for lt
  by unfold_locales (rule lo_gallop_step, assumption, use lo_round_sizes in fastforce)

text \<open>Counting and galloping in turn, until a run is used up.\<close>

function lo_loop :: "'e less_than \<Rightarrow> nat \<Rightarrow> 'e merge_vars \<Rightarrow> merge_exit \<times> nat \<times> 'e merge_vars" where
  "lo_loop lt min_gallop v =
     (case lo_count lt min_gallop 0 0 v of
        (Leave, v) \<Rightarrow>
          (case lo_gallop lt (min_gallop + 1) v of
             (Leave, min_gallop, v) \<Rightarrow> lo_loop lt (min_gallop + 1) v
           | (e, min_gallop, v) \<Rightarrow> (e, min_gallop, v))
      | (e, v) \<Rightarrow> (e, min_gallop, v))"
  by pat_completeness auto
termination
  by (relation "measure (\<lambda>(lt, min_gallop, v). mv_na v + mv_nb v)")
    (auto dest!: lo_galloping.gal_shrinks [OF sym] lo_counting.cnt_shrinks [OF sym])

declare lo_loop.simps [simp del]

text \<open>The ends of merge_lo: what is left of A goes to dest, or B does, with the last element of A behind it.\<close>

definition lo_flush_a :: "'e merge_vars \<Rightarrow> 'e list" where
  "lo_flush_a v = (if mv_na v \<noteq> 0 then mv_arr (lo_copy_a (mv_na v) v) else mv_arr v)"

definition lo_copy_last :: "'e merge_vars \<Rightarrow> 'e list" where
  "lo_copy_last v =
     (copy_elts (mv_dest v) (slice (mv_pb v) (mv_nb v) (mv_arr v)) (mv_arr v))
       [mv_dest v + mv_nb v := mv_tmp v ! mv_pa v]"

text \<open>The variables of merge_lo after the copy to the temporary array.\<close>

definition lo_start :: "'e list \<Rightarrow> nat \<Rightarrow> nat \<Rightarrow> nat \<Rightarrow> nat \<Rightarrow> 'e merge_vars" where
  "lo_start arr pa na pb nb = \<lparr>mv_arr = arr, mv_tmp = slice pa na arr, mv_dest = pa, mv_pa = 0, mv_na = na, mv_pb = pb, mv_nb = nb\<rparr>"

definition lo_run :: "'e less_than \<Rightarrow> nat \<Rightarrow> 'e merge_vars \<Rightarrow> merge_exit \<times> nat \<times> 'e merge_vars" where
  "lo_run lt min_gallop v =
     (if mv_nb v = 0 then (Succeed, min_gallop, v)
      else if mv_na v = 1 then (CopyLast, min_gallop, v)
      else lo_loop lt min_gallop v)"

definition merge_lo :: "(nat \<Rightarrow> bool) \<Rightarrow> 'e less_than \<Rightarrow> nat \<Rightarrow> nat \<Rightarrow> nat \<Rightarrow> nat \<Rightarrow> 'e merge_state \<Rightarrow> merge_exit \<times> 'e merge_state" where
  "merge_lo malloc lt pa na pb nb ms =
     (if \<not> (0 < na \<and> 0 < nb \<and> pa + na = pb) then (Bad_assert, ms)
      else
        (case merge_getmem malloc na ms of
           (False, ms) \<Rightarrow> (Fail, ms)
         | (True, ms) \<Rightarrow>
             (case lo_run lt (ms_min_gallop ms) (lo_b (lo_start (ms_arr ms) pa na pb nb)) of
                (CopyLast, min_gallop, v) \<Rightarrow>
                  (if mv_na v = 1 \<and> 0 < mv_nb v
                   then (Succeed, ms\<lparr>ms_min_gallop := min_gallop, ms_arr := lo_copy_last v\<rparr>)
                   else (Bad_assert, ms))
              | (e, min_gallop, v) \<Rightarrow> (e, ms\<lparr>ms_min_gallop := min_gallop, ms_arr := lo_flush_a v\<rparr>))))"

section \<open>Merging, on lists\<close>

text \<open>
  D is what has been merged, A and B are what is left of the two runs. The last
  element of A belongs at the end of the merge.
\<close>

definition merging :: "('e \<Rightarrow> 'k :: linorder) \<Rightarrow> 'e list \<Rightarrow> 'e list \<Rightarrow> 'e list \<Rightarrow> bool" where
  "merging f D A B \<longleftrightarrow> sorted (map f D) \<and> sorted (map f A) \<and> sorted (map f B)
     \<and> (\<forall>d \<in> set D. \<forall>x \<in> set A \<union> set B. f d \<le> f x) \<and> A \<noteq> [] \<and> (\<forall>x \<in> set B. f x < f (last A))"

lemma merging_take_b:
  assumes "merging f D A (Y @ B)" "\<forall>y \<in> set Y. f y < f (hd A)"
  shows "merging f (D @ Y) A B" "stable_eq f ((D @ Y) @ A @ B) (D @ A @ Y @ B)"
proof -
  have A: "\<forall>a \<in> set A. f (hd A) \<le> f a"
    using assms(1) by (cases A) (auto simp: merging_def)
  then have less: "\<forall>y \<in> set Y. \<forall>a \<in> set A. f y < f a" using assms(2) less_le_trans by blast
  show "merging f (D @ Y) A B"
    using assms(1) less unfolding merging_def by (auto simp: sorted_append intro: less_imp_le)
  have "stable_eq f (Y @ A) (A @ Y)" by (rule stable_eq_swap) (use less in fastforce)
  from stable_eq_context [OF this, of D B] show "stable_eq f ((D @ Y) @ A @ B) (D @ A @ Y @ B)" by simp
qed

lemma merging_take_a:
  assumes "merging f D (X @ A) B" "A \<noteq> []" "\<forall>x \<in> set X. \<forall>y \<in> set B. f x \<le> f y"
  shows "merging f (D @ X) A B"
  using assms unfolding merging_def by (auto simp: sorted_append)

lemma merging_end_a:
  assumes "merging f D A []"
  shows "sorted (map f (D @ A))"
  using assms by (auto simp: merging_def sorted_append)

lemma merging_end_b:
  assumes "merging f D [a] B"
  shows "sorted (map f (D @ B @ [a]))" "stable_eq f (D @ B @ [a]) (D @ [a] @ B)"
proof -
  show "sorted (map f (D @ B @ [a]))" using assms by (auto simp: merging_def sorted_append intro: less_imp_le)
  have "stable_eq f (B @ [a]) ([a] @ B)" by (rule stable_eq_swap) (use assms in \<open>auto simp: merging_def\<close>)
  from stable_eq_context [OF this, of D "[]"] show "stable_eq f (D @ B @ [a]) (D @ [a] @ B)" by simp
qed

section \<open>merge_lo is correct\<close>

definition lo_A :: "'e merge_vars \<Rightarrow> 'e list" where
  "lo_A v = slice (mv_pa v) (mv_na v) (mv_tmp v)"

definition lo_B :: "'e merge_vars \<Rightarrow> 'e list" where
  "lo_B v = slice (mv_pb v) (mv_nb v) (mv_arr v)"

definition lo_D :: "nat \<Rightarrow> 'e merge_vars \<Rightarrow> 'e list" where
  "lo_D b v = slice b (mv_dest v - b) (mv_arr v)"

text \<open>
  The gap between dest and pb is as long as what is left of A: the code never
  overwrites an element of B that it has not moved.
\<close>

definition lo_inv :: "nat \<Rightarrow> 'e merge_vars \<Rightarrow> bool" where
  "lo_inv b v \<longleftrightarrow> b \<le> mv_dest v \<and> mv_dest v + mv_na v = mv_pb v \<and> mv_pb v + mv_nb v \<le> length (mv_arr v)
     \<and> mv_pa v + mv_na v \<le> length (mv_tmp v)"

text \<open>The elements from b to h have been rearranged, the others are where they were.\<close>

definition lo_moved :: "nat \<Rightarrow> 'e merge_vars \<Rightarrow> 'e merge_vars \<Rightarrow> bool" where
  "lo_moved b v v' \<longleftrightarrow> lo_inv b v' \<and> length (mv_arr v') = length (mv_arr v) \<and> take b (mv_arr v') = take b (mv_arr v)
     \<and> mv_pb v' + mv_nb v' = mv_pb v + mv_nb v
     \<and> drop (mv_pb v + mv_nb v) (mv_arr v') = drop (mv_pb v + mv_nb v) (mv_arr v)
     \<and> mset (lo_D b v' @ lo_A v' @ lo_B v') = mset (lo_D b v @ lo_A v @ lo_B v)"

lemma lo_moved_refl: "lo_inv b v \<Longrightarrow> lo_moved b v v"
  by (simp add: lo_moved_def)

lemma lo_moved_trans: "lo_moved b u v \<Longrightarrow> lo_moved b v w \<Longrightarrow> lo_moved b u w"
  by (simp add: lo_moved_def)

lemma lo_views [simp]:
  "lo_inv b v \<Longrightarrow> length (lo_A v) = mv_na v" "lo_inv b v \<Longrightarrow> length (lo_B v) = mv_nb v"
  by (auto simp: lo_inv_def lo_A_def lo_B_def)

lemma lo_copy_a_views:
  assumes "lo_inv b v" "k \<le> mv_na v"
  shows "lo_D b (lo_copy_a k v) = lo_D b v @ take k (lo_A v)" "lo_A (lo_copy_a k v) = drop k (lo_A v)"
    "lo_B (lo_copy_a k v) = lo_B v" "lo_moved b v (lo_copy_a k v)"
proof -
  let ?xs = "slice (mv_pa v) k (mv_tmp v)" and ?d = "mv_dest v" and ?arr = "mv_arr v"
  have i: "b \<le> ?d" "?d + mv_na v = mv_pb v" "mv_pb v + mv_nb v \<le> length ?arr" "mv_pa v + mv_na v \<le> length (mv_tmp v)"
    using assms(1) by (simp_all add: lo_inv_def)
  have xs: "length ?xs = k" "?xs = take k (lo_A v)" using i assms(2) by (auto simp: lo_A_def min_def)
  have in_arr: "?d + length ?xs \<le> length ?arr" using xs(1) i assms(2) by simp
  show D: "lo_D b (lo_copy_a k v) = lo_D b v @ take k (lo_A v)"
    using slice_copy_elts [OF i(1) in_arr] unfolding xs(1) by (simp add: lo_D_def lo_copy_a_def xs(2))
  show A: "lo_A (lo_copy_a k v) = drop k (lo_A v)"
    by (simp add: lo_A_def lo_copy_a_def drop_take add.commute)
  have past: "drop m (copy_elts ?d ?xs ?arr) = drop m ?arr" if "mv_pb v \<le> m" for m
    by (rule drop_copy_elts) (use that xs(1) i assms(2) in auto)
  show B: "lo_B (lo_copy_a k v) = lo_B v" using past [of "mv_pb v"] by (simp add: lo_B_def lo_copy_a_def)
  show "lo_moved b v (lo_copy_a k v)"
    unfolding lo_moved_def D A B
    using i assms(2) past [of "mv_pb v + mv_nb v"] length_copy_elts [OF in_arr] take_copy_elts [OF i(1) in_arr]
    by (auto simp: lo_inv_def lo_copy_a_def) (metis append_take_drop_id mset_append union_assoc)
qed

lemma lo_copy_b_views:
  assumes "lo_inv b v" "k \<le> mv_nb v"
  shows "lo_D b (lo_copy_b k v) = lo_D b v @ take k (lo_B v)" "lo_A (lo_copy_b k v) = lo_A v"
    "lo_B (lo_copy_b k v) = drop k (lo_B v)" "lo_moved b v (lo_copy_b k v)"
proof -
  let ?xs = "slice (mv_pb v) k (mv_arr v)" and ?d = "mv_dest v" and ?arr = "mv_arr v"
  have i: "b \<le> ?d" "?d + mv_na v = mv_pb v" "mv_pb v + mv_nb v \<le> length ?arr" "mv_pa v + mv_na v \<le> length (mv_tmp v)"
    using assms(1) by (simp_all add: lo_inv_def)
  have xs: "length ?xs = k" "?xs = take k (lo_B v)" using i assms(2) by (auto simp: lo_B_def min_def)
  have in_arr: "?d + length ?xs \<le> length ?arr" using xs(1) i assms(2) by simp
  show D: "lo_D b (lo_copy_b k v) = lo_D b v @ take k (lo_B v)"
    using slice_copy_elts [OF i(1) in_arr] unfolding xs(1) by (simp add: lo_D_def lo_copy_b_def xs(2))
  show A: "lo_A (lo_copy_b k v) = lo_A v" by (simp add: lo_A_def lo_copy_b_def)
  have past: "drop m (copy_elts ?d ?xs ?arr) = drop m ?arr" if "mv_pb v + k \<le> m" for m
    by (rule drop_copy_elts) (use that xs(1) i assms(2) in auto)
  show B: "lo_B (lo_copy_b k v) = drop k (lo_B v)"
    using past [of "mv_pb v + k"] by (simp add: lo_B_def lo_copy_b_def drop_take add.commute)
  show "lo_moved b v (lo_copy_b k v)"
    unfolding lo_moved_def D A B
    using i assms(2) past [of "mv_pb v + mv_nb v"] length_copy_elts [OF in_arr] take_copy_elts [OF i(1) in_arr]
    by (auto simp: lo_inv_def lo_copy_b_def) (metis add.left_commute append_take_drop_id mset_append)
qed

lemma lo_heads:
  assumes "lo_inv b v"
  shows "0 < mv_na v \<Longrightarrow> mv_tmp v ! mv_pa v = hd (lo_A v)" "0 < mv_nb v \<Longrightarrow> mv_arr v ! mv_pb v = hd (lo_B v)"
  using assms by (simp_all add: lo_inv_def lo_A_def lo_B_def hd_drop_conv_nth)

lemma lo_b_copy: "lo_inv b v \<Longrightarrow> 0 < mv_nb v \<Longrightarrow> lo_b v = lo_copy_b 1 v"
  by (simp add: lo_b_def lo_copy_b_def lo_inv_def copy_one [symmetric] take_Suc_conv_app_nth hd_drop_conv_nth take_Suc)

lemma lo_a_copy: "lo_inv b v \<Longrightarrow> 0 < mv_na v \<Longrightarrow> lo_a v = lo_copy_a 1 v"
  by (simp add: lo_a_def lo_copy_a_def lo_inv_def copy_one [symmetric] take_Suc_conv_app_nth hd_drop_conv_nth take_Suc)

text \<open>The comparison is an order and the runs are sorted.\<close>

definition lo_good :: "'e less_than \<Rightarrow> ('e \<Rightarrow> 'k :: linorder) \<Rightarrow> nat \<Rightarrow> 'e merge_vars \<Rightarrow> bool" where
  "lo_good lt f b v \<longleftrightarrow> orders lt f \<and> merging f (lo_D b v) (lo_A v) (lo_B v)"

definition lo_all :: "nat \<Rightarrow> 'e merge_vars \<Rightarrow> 'e list" where
  "lo_all b v = lo_D b v @ lo_A v @ lo_B v"

abbreviation lo_ok :: "'e less_than \<Rightarrow> ('e \<Rightarrow> 'k :: linorder) \<Rightarrow> nat \<Rightarrow> 'e merge_vars \<Rightarrow> 'e merge_vars \<Rightarrow> bool" where
  "lo_ok lt f b \<equiv> merge_ok (lo_moved b) (lo_good lt f b) (lo_all b) f"

abbreviation lo_exit :: "'e less_than \<Rightarrow> ('e \<Rightarrow> 'k :: linorder) \<Rightarrow> nat \<Rightarrow> 'e merge_vars \<Rightarrow> merge_exit \<Rightarrow> 'e merge_vars \<Rightarrow> bool" where
  "lo_exit lt f b \<equiv> exit_ok (lo_ok lt f b) (lo_good lt f b) (\<lambda>v. mv_na v = 0 \<or> mv_nb v = 0)
     (\<lambda>v. mv_na v = 1 \<and> 0 < mv_nb v) (\<lambda>v. 1 < mv_na v \<and> 0 < mv_nb v)"

interpretation lo_steps: merge_steps "lo_moved b" "lo_good lt f b" "lo_all b" f "lo_inv b"
  for b lt f
  by unfold_locales (rule lo_moved_refl, assumption, rule lo_moved_trans, assumption, assumption, simp add: lo_moved_def)

lemma lo_ok_copy_b:
  assumes ok: "lo_ok lt f b u v" and k: "k \<le> mv_nb v"
    and less: "lo_good lt f b u \<Longrightarrow> lo_good lt f b v \<Longrightarrow> \<forall>y \<in> set (take k (lo_B v)). f y < f (hd (lo_A v))"
  shows "lo_ok lt f b u (lo_copy_b k v)"
proof -
  note w = lo_copy_b_views [OF lo_steps.ok_inv [OF ok] k]
  show ?thesis
    by (rule lo_steps.ok_step [OF ok w(4)], unfold lo_good_def lo_all_def w(1-3),
        intro conjI merging_take_b [of f "lo_D b v" "lo_A v" "take k (lo_B v)" "drop k (lo_B v)", unfolded append_take_drop_id])
      (use less in \<open>simp_all add: lo_good_def\<close>)
qed

lemma lo_ok_copy_a:
  assumes ok: "lo_ok lt f b u v" and k: "k \<le> mv_na v"
    and less: "lo_good lt f b u \<Longrightarrow> lo_good lt f b v \<Longrightarrow>
      k < mv_na v \<and> (\<forall>x \<in> set (take k (lo_A v)). \<forall>y \<in> set (lo_B v). f x \<le> f y)"
  shows "lo_ok lt f b u (lo_copy_a k v)"
proof -
  note i = lo_steps.ok_inv [OF ok]
  note w = lo_copy_a_views [OF i k]
  have same: "(lo_D b v @ take k (lo_A v)) @ drop k (lo_A v) @ lo_B v = lo_D b v @ lo_A v @ lo_B v"
    by (metis append_assoc append_take_drop_id)
  have "merging f (lo_D b v @ take k (lo_A v)) (drop k (lo_A v)) (lo_B v)"
    if "lo_good lt f b u" "lo_good lt f b v"
    using merging_take_a [of f "lo_D b v" "take k (lo_A v)" "drop k (lo_A v)" "lo_B v"] that(2) less [OF that] i
    by (simp add: lo_good_def)
  then show ?thesis by (intro lo_steps.ok_step [OF ok w(4)], unfold lo_all_def lo_good_def w(1-3) same) simp_all
qed

lemma lo_nonempty: "lo_inv b v \<Longrightarrow> 0 < mv_na v \<Longrightarrow> lo_A v \<noteq> []" "lo_inv b v \<Longrightarrow> 0 < mv_nb v \<Longrightarrow> lo_B v \<noteq> []"
  by (metis length_greater_0_conv lo_views(1)) (metis length_greater_0_conv lo_views(2))

lemma lo_ok_b:
  assumes "lo_ok lt f b u v" "0 < mv_na v" "0 < mv_nb v"
    "lo_good lt f b u \<Longrightarrow> lo_good lt f b v \<Longrightarrow> f (hd (lo_B v)) < f (hd (lo_A v))"
  shows "lo_ok lt f b u (lo_b v)"
  unfolding lo_b_copy [OF lo_steps.ok_inv [OF assms(1)] assms(3)]
  using assms take_one [OF lo_nonempty(2) [OF lo_steps.ok_inv [OF assms(1)] assms(3)]] by (intro lo_ok_copy_b) auto

lemma lo_ok_a:
  assumes "lo_ok lt f b u v" "1 < mv_na v"
    "lo_good lt f b u \<Longrightarrow> lo_good lt f b v \<Longrightarrow> 0 < mv_nb v \<Longrightarrow> f (hd (lo_A v)) \<le> f (hd (lo_B v))"
  shows "lo_ok lt f b u (lo_a v)"
proof -
  note i = lo_steps.ok_inv [OF assms(1)]
  have na: "0 < mv_na v" using assms(2) by simp
  have "f (hd (lo_A v)) \<le> f y" if g: "lo_good lt f b u" "lo_good lt f b v" and y: "y \<in> set (lo_B v)" for y
  proof -
    have nb: "0 < mv_nb v" using i y by (metis length_pos_if_in_set lo_views(2))
    have "f (hd (lo_B v)) \<le> f y" by (rule sorted_hd_le [OF _ y]) (use g(2) in \<open>simp add: lo_good_def merging_def\<close>)
    then show ?thesis using assms(3) [OF g nb] by simp
  qed
  then show ?thesis
    unfolding lo_a_copy [OF i na] using assms(1,2) take_one [OF lo_nonempty(1) [OF i na]] by (intro lo_ok_copy_a) auto
qed

lemma lo_good_total: "lo_good lt f b v \<Longrightarrow> lt x y \<noteq> None"
  using orders_eq [of lt f x y] by (auto simp: lo_good_def)

lemma lo_count_ok:
  assumes "lo_inv b v" "1 < mv_na v \<and> 0 < mv_nb v" "lo_count lt mg ac bc v = (e, v')"
  shows "lo_exit lt f b v e v'"
proof (rule lo_counting.cnt_rule [OF assms(3) _ assms(2), where I = "lo_ok lt f b v" and J = "lo_ok lt f b v"])
  show "lo_ok lt f b v v" by (rule lo_steps.ok_refl [OF assms(1)])
next
  fix x assume x: "lo_ok lt f b v x" "1 < mv_na x \<and> 0 < mv_nb x" "lt (mv_arr x ! mv_pb x) (mv_tmp x ! mv_pa x) = Some True"
  have "lo_ok lt f b v (lo_b x)"
    by (rule lo_ok_b [OF x(1)]) (use x lo_heads [OF lo_steps.ok_inv [OF x(1)]] in \<open>auto simp: lo_good_def orders_eq\<close>)
  then show "lo_ok lt f b v (lo_b x) \<and> (mv_nb (lo_b x) = 0 \<longrightarrow> lo_exit lt f b v Succeed (lo_b x))" by simp
next
  fix x assume x: "lo_ok lt f b v x" "1 < mv_na x \<and> 0 < mv_nb x" "lt (mv_arr x ! mv_pb x) (mv_tmp x ! mv_pa x) = Some False"
  have "lo_ok lt f b v (lo_a x)"
    by (rule lo_ok_a [OF x(1)]) (use x lo_heads [OF lo_steps.ok_inv [OF x(1)]] in \<open>auto simp: lo_good_def orders_eq\<close>)
  then show "lo_ok lt f b v (lo_a x) \<and> (mv_na (lo_a x) = 1 \<longrightarrow> lo_exit lt f b v CopyLast (lo_a x))" using x(2) by simp
qed (auto dest: lo_good_total)

lemma lo_gallop_a_ok:
  assumes i: "lo_inv b v" and na: "1 < mv_na v" and nb: "0 < mv_nb v" and r: "lo_gallop_a lt v = (e, k, v')"
  shows "lo_exit lt f b v e v'"
proof -
  have right: "\<exists>k < mv_na v. gallop_right lt (mv_arr v ! mv_pb v) (mv_tmp v) (mv_pa v) (mv_na v) 0 = Some k
      \<and> (\<forall>x \<in> set (take k (lo_A v)). \<forall>y \<in> set (lo_B v). f x \<le> f y) \<and> f (hd (lo_B v)) < f (hd (drop k (lo_A v)))"
    if g: "lo_good lt f b v"
  proof -
    have m: "merging f (lo_D b v) (lo_A v) (lo_B v)" and o: "orders lt f" using g by (simp_all add: lo_good_def)
    have s: "sorted (map f (slice (mv_pa v) (mv_na v) (mv_tmp v)))" "mv_pa v + mv_na v \<le> length (mv_tmp v)"
      using m i by (simp_all add: merging_def lo_A_def lo_inv_def)
    note h = lo_heads(2) [OF i nb]
    have hB: "hd (lo_B v) \<in> set (lo_B v)" using lo_nonempty(2) [OF i nb] by simp
    obtain k where k: "k \<le> mv_na v" "gallop_right lt (mv_arr v ! mv_pb v) (mv_tmp v) (mv_pa v) (mv_na v) 0 = Some k"
        "\<forall>x \<in> set (take k (lo_A v)). f x \<le> f (hd (lo_B v))" "\<forall>x \<in> set (drop k (lo_A v)). f (hd (lo_B v)) < f x"
      using gallop_right_correct [OF o s, of 0 "mv_arr v ! mv_pb v"] na
      unfolding h by (auto simp: lo_A_def min_def drop_take add.commute)
    have "k \<noteq> mv_na v"
    proof
      assume "k = mv_na v"
      then have "f (last (lo_A v)) \<le> f (hd (lo_B v))" using k(3) i lo_nonempty(1) [OF i] na by simp
      then show False using m hB by (auto simp: merging_def dest: leD)
    qed
    then have lt: "k < mv_na v" using k(1) by simp
    then have "drop k (lo_A v) \<noteq> []" using i by simp
    then have "f (hd (lo_B v)) < f (hd (drop k (lo_A v)))" using k(4) hd_in_set by blast
    moreover have "f (hd (lo_B v)) \<le> f y" if "y \<in> set (lo_B v)" for y
      by (rule sorted_hd_le [OF _ that]) (use m in \<open>simp add: merging_def\<close>)
    ultimately show ?thesis using k(2,3) lt order_trans by blast
  qed
  show ?thesis
  proof (cases "gallop_right lt (mv_arr v ! mv_pb v) (mv_tmp v) (mv_pa v) (mv_na v) 0")
    case None
    then have "e = Fail" "v' = v" using r by (simp_all add: lo_gallop_a_def)
    then show ?thesis using right None lo_steps.ok_refl [OF i] by (auto)
  next
    case (Some k0)
    define w where "w = (if k0 \<noteq> 0 then lo_copy_a k0 v else v)"
    have le: "k0 \<le> mv_na v" by (rule gallop_right_bounds [OF Some]) (use na in simp)
    have "lo_ok lt f b v (lo_copy_a k0 v)"
      by (rule lo_ok_copy_a [OF lo_steps.ok_refl [OF i] le]) (use right Some in auto)
    then have w: "lo_ok lt f b v w" by (simp add: w_def lo_steps.ok_refl [OF i])
    have sz: "mv_na w = mv_na v - k0" "mv_nb w = mv_nb v" by (simp_all add: w_def)
    have views: "lo_A w = drop k0 (lo_A v)" "lo_B w = lo_B v"
      using lo_copy_a_views [OF i le] by (simp_all add: w_def)
    have b: "lo_ok lt f b v (lo_b w)" if "0 < mv_na w"
      by (rule lo_ok_b [OF w that]) (use right Some nb sz views in auto)
    have "e = (if k0 \<noteq> 0 \<and> mv_na w = 1 then CopyLast else if k0 \<noteq> 0 \<and> mv_na w = 0 then Succeed
        else if mv_nb (lo_b w) = 0 then Succeed else Leave)"
      "v' = (if k0 \<noteq> 0 \<and> mv_na w = 1 then w else if k0 \<noteq> 0 \<and> mv_na w = 0 then w else lo_b w)"
      using r Some by (auto simp: lo_gallop_a_def w_def Let_def split: if_splits)
    then show ?thesis using w b nb na sz by (auto)
  qed
qed

lemma lo_gallop_b_ok:
  assumes i: "lo_inv b v" and na: "1 < mv_na v" and nb: "0 < mv_nb v" and r: "lo_gallop_b lt v = (e, k, v')"
  shows "lo_exit lt f b v e v'"
proof -
  have left: "\<exists>k. gallop_left lt (mv_tmp v ! mv_pa v) (mv_arr v) (mv_pb v) (mv_nb v) 0 = Some k
      \<and> (\<forall>y \<in> set (take k (lo_B v)). f y < f (hd (lo_A v))) \<and> (\<forall>y \<in> set (drop k (lo_B v)). f (hd (lo_A v)) \<le> f y)"
    if g: "lo_good lt f b v"
  proof -
    have m: "merging f (lo_D b v) (lo_A v) (lo_B v)" and o: "orders lt f" using g by (simp_all add: lo_good_def)
    have s: "sorted (map f (slice (mv_pb v) (mv_nb v) (mv_arr v)))" "mv_pb v + mv_nb v \<le> length (mv_arr v)"
      using m i by (simp_all add: merging_def lo_B_def lo_inv_def)
    have h: "mv_tmp v ! mv_pa v = hd (lo_A v)" using lo_heads(1) [OF i] na by simp
    show ?thesis using gallop_left_correct [OF o s nb, of "mv_tmp v ! mv_pa v"]
      unfolding h by (auto simp: lo_B_def min_def drop_take add.commute)
  qed
  show ?thesis
  proof (cases "gallop_left lt (mv_tmp v ! mv_pa v) (mv_arr v) (mv_pb v) (mv_nb v) 0")
    case None
    then have "e = Fail" "v' = v" using r by (simp_all add: lo_gallop_b_def)
    then show ?thesis using left None lo_steps.ok_refl [OF i] by (auto)
  next
    case (Some k0)
    define w where "w = (if k0 \<noteq> 0 then lo_copy_b k0 v else v)"
    have le: "k0 \<le> mv_nb v" by (rule gallop_left_bounds [OF Some nb])
    have "lo_ok lt f b v (lo_copy_b k0 v)"
      by (rule lo_ok_copy_b [OF lo_steps.ok_refl [OF i] le]) (use left Some in auto)
    then have w: "lo_ok lt f b v w" by (simp add: w_def lo_steps.ok_refl [OF i])
    have sz: "mv_na w = mv_na v" "mv_nb w = mv_nb v - k0" by (simp_all add: w_def)
    have views: "lo_A w = lo_A v" "lo_B w = drop k0 (lo_B v)"
      using lo_copy_b_views [OF i le] by (simp_all add: w_def)
    have a: "lo_ok lt f b v (lo_a w)"
    proof (rule lo_ok_a [OF w])
      show "1 < mv_na w" using na sz by simp
      assume g: "lo_good lt f b v" "0 < mv_nb w"
      then have "hd (lo_B w) \<in> set (drop k0 (lo_B v))" using lo_nonempty(2) [OF lo_steps.ok_inv [OF w]] views(2) by (metis hd_in_set)
      then show "f (hd (lo_A w)) \<le> f (hd (lo_B w))" using left [OF g(1)] Some views(1) by auto
    qed
    have "e = (if k0 \<noteq> 0 \<and> mv_nb w = 0 then Succeed else if mv_na (lo_a w) = 1 then CopyLast else Leave)"
      "v' = (if k0 \<noteq> 0 \<and> mv_nb w = 0 then w else lo_a w)"
      using r Some by (auto simp: lo_gallop_b_def w_def Let_def split: if_splits)
    then show ?thesis using w a nb na sz by (auto)
  qed
qed


lemma lo_round_ok:
  assumes i: "lo_inv b v" and n: "1 < mv_na v" "0 < mv_nb v" and r: "lo_round lt v = (e, again, v')"
  shows "lo_exit lt f b v e v'"
proof -
  obtain ea ka va where a: "lo_gallop_a lt v = (ea, ka, va)" by (metis prod_cases3)
  obtain eb kb vb where g: "lo_gallop_b lt va = (eb, kb, vb)" by (metis prod_cases3)
  have A: "lo_exit lt f b v ea va" by (rule lo_gallop_a_ok [OF i n a])
  show ?thesis
  proof (cases "ea = Leave")
    case True
    then have ok: "lo_ok lt f b v va" "1 < mv_na va" "0 < mv_nb va" using A by (simp_all)
    have "e = eb" "v' = vb" using r n a g True by (simp_all add: lo_round_def)
    then show ?thesis using lo_steps.exit_trans [OF ok(1) lo_gallop_b_ok [OF lo_steps.ok_inv [OF ok(1)] ok(2,3) g]] by simp
  next
    case False
    then have "e = ea" "v' = va" using r n a by (cases ea; simp add: lo_round_def)+
    then show ?thesis using A by simp
  qed
qed

lemma lo_loop_step:
  "lo_count lt mg 0 0 v = (e, v1) \<Longrightarrow> e \<noteq> Leave \<Longrightarrow> lo_loop lt mg v = (e, mg, v1)"
  "lo_count lt mg 0 0 v = (Leave, v1) \<Longrightarrow> lo_gallop lt (mg + 1) v1 = (e, mg', v2) \<Longrightarrow>
     lo_loop lt mg v = (if e = Leave then lo_loop lt (mg' + 1) v2 else (e, mg', v2))"
  by (subst lo_loop.simps, cases e; simp)+

interpretation lo_looping: merge_looping "lo_moved b" "lo_good lt f b" "lo_all b" f "lo_inv b" "lo_round lt" "lo_gallop lt"
    "\<lambda>v. mv_na v + mv_nb v" "\<lambda>mg. lo_count lt mg 0 0" "lo_loop lt" "\<lambda>v. mv_na v = 0 \<or> mv_nb v = 0"
    "\<lambda>v. mv_na v = 1 \<and> 0 < mv_nb v" "\<lambda>v. 1 < mv_na v \<and> 0 < mv_nb v"
  for b lt f
  by unfold_locales
    (rule lo_loop_step(1), assumption, assumption, rule lo_loop_step(2), assumption, assumption,
     rule lo_counting.cnt_shrinks, assumption, rule lo_count_ok, assumption, assumption, assumption,
     rule lo_round_ok, assumption, blast, blast, assumption)

section \<open>The merge as a whole\<close>

lemma lo_flush_a_eq:
  assumes "lo_inv b v"
  shows "lo_flush_a v = take b (mv_arr v) @ lo_D b v @ lo_A v @ lo_B v @ drop (mv_pb v + mv_nb v) (mv_arr v)"
proof -
  have i: "b \<le> mv_dest v" "mv_dest v + mv_na v = mv_pb v" "mv_pb v + mv_nb v \<le> length (mv_arr v)"
    using assms by (simp_all add: lo_inv_def)
  have "lo_flush_a v = copy_elts (mv_dest v) (lo_A v) (mv_arr v)"
    by (simp add: lo_flush_a_def lo_copy_a_def lo_A_def copy_elts_def)
  also have "\<dots> = take b (mv_arr v) @ lo_D b v @ lo_A v @ drop (mv_pb v) (mv_arr v)"
    unfolding lo_D_def by (rule copy_elts_pieces) (use i assms in auto)
  also have "drop (mv_pb v) (mv_arr v) = lo_B v @ drop (mv_pb v + mv_nb v) (mv_arr v)"
    using drop_slice_rest [of "mv_pb v" "mv_pb v + mv_nb v" "mv_arr v"] by (simp add: lo_B_def)
  finally show ?thesis .
qed

lemma lo_copy_last_eq:
  assumes "lo_inv b v" "mv_na v = 1"
  shows "lo_copy_last v = take b (mv_arr v) @ lo_D b v @ lo_B v @ lo_A v @ drop (mv_pb v + mv_nb v) (mv_arr v)"
proof -
  have i: "b \<le> mv_dest v" "mv_dest v + 1 = mv_pb v" "mv_pb v + mv_nb v \<le> length (mv_arr v)" "mv_pa v < length (mv_tmp v)"
    using assms by (simp_all add: lo_inv_def)
  let ?u = "copy_elts (mv_dest v) (lo_B v) (mv_arr v)"
  have l: "length ?u = length (mv_arr v)" by (rule length_copy_elts) (use i assms in auto)
  have A: "[mv_tmp v ! mv_pa v] = lo_A v"
    using i(4) assms(2) by (simp add: lo_A_def take_Suc hd_drop_conv_nth)
  have "lo_copy_last v = ?u[mv_dest v + mv_nb v := mv_tmp v ! mv_pa v]" by (simp add: lo_copy_last_def lo_B_def)
  also have "\<dots> = copy_elts (mv_dest v + length (lo_B v)) (lo_A v) ?u"
    using copy_one [of "mv_dest v + mv_nb v" ?u "mv_tmp v ! mv_pa v"] l i assms unfolding A by simp
  also have "\<dots> = copy_elts (mv_dest v) (lo_B v @ lo_A v) (mv_arr v)"
    by (rule copy_elts_twice) (use i assms in auto)
  also have "\<dots> = take b (mv_arr v) @ lo_D b v @ (lo_B v @ lo_A v) @ drop (mv_pb v + mv_nb v) (mv_arr v)"
    unfolding lo_D_def by (rule copy_elts_pieces) (use i assms in auto)
  finally show ?thesis by simp
qed


lemma lo_end_merges:
  assumes i: "lo_inv b v0" and D: "lo_D b v0 = []" and AB: "lo_A v0 @ lo_B v0 = slice b (mv_pb v0 + mv_nb v0 - b) (mv_arr v0)"
    and e: "lo_exit lt f b v0 e v" "e \<noteq> Leave"
    and fin: "arr' = (if e = CopyLast then lo_copy_last v else lo_flush_a v)"
  shows "merges f b (mv_pb v0 + mv_nb v0) (mv_arr v0) (if e = CopyLast then Succeed else e) arr' (lo_good lt f b v0)"
proof -
  let ?h = "mv_pb v0 + mv_nb v0"
  have ok: "lo_ok lt f b v0 v" by (rule exit_ok_ok [OF e(1)])
  note j = lo_steps.ok_inv [OF ok]
  have mv: "take b (mv_arr v) = take b (mv_arr v0)" "mv_pb v + mv_nb v = ?h" "drop ?h (mv_arr v) = drop ?h (mv_arr v0)"
    "mset (lo_D b v @ lo_A v @ lo_B v) = mset (lo_A v0 @ lo_B v0)"
    using ok D by (simp_all add: merge_ok_def lo_moved_def)
  have bounds: "b \<le> ?h" "?h \<le> length (mv_arr v0)" using i by (simp_all add: lo_inv_def)
  have m: "merging f (lo_D b v) (lo_A v) (lo_B v)" and st: "stable_eq f (lo_D b v @ lo_A v @ lo_B v) (lo_A v0 @ lo_B v0)"
    if "lo_good lt f b v0"
    using ok that D by (simp_all add: merge_ok_def lo_good_def lo_all_def)
  show ?thesis
  proof (cases "e = CopyLast")
    case True
    then have n: "mv_na v = 1" using e(1) by (simp)
    then have A1: "lo_A v = [hd (lo_A v)]" using lo_nonempty(1) [OF j] lo_views(1) [OF j] by (cases "lo_A v") auto
    have "sorted (map f (lo_D b v @ lo_B v @ lo_A v))" "stable_eq f (lo_D b v @ lo_B v @ lo_A v) (lo_A v0 @ lo_B v0)"
      if g: "lo_good lt f b v0"
      using merging_end_b [of f "lo_D b v" "hd (lo_A v)" "lo_B v"] m [OF g] st [OF g] stable_eq_trans A1 by metis+
    moreover have "arr' = take b (mv_arr v0) @ (lo_D b v @ lo_B v @ lo_A v) @ drop ?h (mv_arr v0)"
      using lo_copy_last_eq [OF j n] fin True mv(1-3) by simp
    moreover have "mset (lo_D b v @ lo_B v @ lo_A v) = mset (lo_A v0 @ lo_B v0)" using mv(4) by (simp add: ac_simps)
    ultimately show ?thesis using True unfolding AB
      by (intro mergesI [where R = "lo_D b v @ lo_B v @ lo_A v", OF _ bounds]) auto
  next
    case False
    have s: "sorted (map f (lo_D b v @ lo_A v @ lo_B v))" if g: "lo_good lt f b v0" "e = Succeed"
    proof -
      have "lo_A v \<noteq> []" using m [OF g(1)] by (simp add: merging_def)
      then have "mv_nb v = 0" using e(1) g(2) lo_views(1) [OF j] by (auto)
      then show ?thesis using merging_end_a m [OF g(1)] lo_views(2) [OF j] by simp
    qed
    have "e \<in> {Succeed, Fail}" "lo_good lt f b v0 \<Longrightarrow> e = Succeed"
      using e False by (cases e; simp)+
    moreover have "arr' = take b (mv_arr v0) @ (lo_D b v @ lo_A v @ lo_B v) @ drop ?h (mv_arr v0)"
      using lo_flush_a_eq [OF j] fin False mv(1-3) by simp
    ultimately show ?thesis using False s st mv(4) unfolding AB
      by (intro mergesI [where R = "lo_D b v @ lo_A v @ lo_B v", OF _ bounds]) auto
  qed
qed


lemma lo_good_start:
  assumes "lo_D b v = []" "lo_A v = A" "lo_B v = B"
  shows "lo_good lt f b v \<longleftrightarrow> orders lt f \<and> merging f [] A B"
  using assms by (simp add: lo_good_def)

lemma lo_start_views:
  assumes "pa + na = pb" "pb + nb \<le> length arr"
  shows "lo_inv pa (lo_start arr pa na pb nb)" "lo_D pa (lo_start arr pa na pb nb) = []"
    "lo_A (lo_start arr pa na pb nb) = slice pa na arr" "lo_B (lo_start arr pa na pb nb) = slice pb nb arr"
  using assms by (simp_all add: lo_inv_def lo_D_def lo_A_def lo_B_def lo_start_def)

lemma lo_start_fields [simp]:
  "mv_na (lo_start arr pa na pb nb) = na" "mv_nb (lo_start arr pa na pb nb) = nb"
  "mv_pb (lo_start arr pa na pb nb) = pb" "mv_arr (lo_start arr pa na pb nb) = arr"
  by (simp_all add: lo_start_def)

lemma lo_run_ok:
  assumes "lo_ok lt f b v0 v" "0 < mv_na v" "lo_run lt mg v = (e, mg', v')"
  shows "lo_exit lt f b v0 e v' \<and> e \<noteq> Leave"
proof -
  consider "mv_nb v = 0" | "mv_nb v \<noteq> 0" "mv_na v = 1" | "1 < mv_na v \<and> 0 < mv_nb v" using assms(2) by linarith
  then show ?thesis
  proof cases
    case 3
    then have "lo_loop lt mg v = (e, mg', v')" using assms(3) by (simp add: lo_run_def)
    from lo_looping.loop_ok [OF lo_steps.ok_inv [OF assms(1)] 3 this] show ?thesis
      using lo_steps.exit_trans [OF assms(1)] by blast
  qed (use assms in \<open>auto simp: lo_run_def\<close>)
qed

lemma merge_lo_eq:
  assumes "merge_getmem malloc na ms = (got, ms1)" "0 < na" "0 < nb" "pa + na = pb"
    "lo_run lt (ms_min_gallop ms1) (lo_b (lo_start (ms_arr ms1) pa na pb nb)) = (e, mg, v)"
  shows "merge_lo malloc lt pa na pb nb ms =
     (if \<not> got then (Fail, ms1)
      else if e = CopyLast then
        (if mv_na v = 1 \<and> 0 < mv_nb v then (Succeed, ms1\<lparr>ms_min_gallop := mg, ms_arr := lo_copy_last v\<rparr>) else (Bad_assert, ms1))
      else (e, ms1\<lparr>ms_min_gallop := mg, ms_arr := lo_flush_a v\<rparr>))"
  using assms by (cases got; cases e) (simp_all add: merge_lo_def)

text \<open>The hypothesis on the two heads is what merge_at establishes for an order.\<close>

lemma merge_lo_merges:
  fixes ms :: "'e merge_state"
  defines "arr \<equiv> ms_arr ms"
  assumes n: "0 < na" "0 < nb" "pa + na = pb" "pb + nb \<le> length arr"
    and r: "merge_lo malloc lt pa na pb nb ms = (e, ms')"
    and hd: "orders lt f \<Longrightarrow> merging f [] (slice pa na arr) (slice pb nb arr) \<Longrightarrow> f (arr ! pb) < f (arr ! pa)"
  shows "ms_pending ms' = ms_pending ms \<and> merges f pa (pb + nb) arr e (ms_arr ms')
    (orders lt f \<and> merging f [] (slice pa na arr) (slice pb nb arr) \<and> fst (merge_getmem malloc na ms))"
proof -
  obtain got ms1 where g: "merge_getmem malloc na ms = (got, ms1)" by (metis surj_pair)
  note keep = merge_getmem_keeps [OF g, folded arr_def]
  let ?v0 = "lo_start arr pa na pb nb"
  note i = lo_start_views [OF n(3,4)]
  note good = lo_good_start [OF i(2-4)]
  obtain ex mg v where run: "lo_run lt (ms_min_gallop ms1) (lo_b ?v0) = (ex, mg, v)" by (metis prod_cases3)
  have "lo_ok lt f pa ?v0 (lo_b ?v0)"
  proof (rule lo_ok_b [OF lo_steps.ok_refl [OF i(1)]])
    assume "lo_good lt f pa ?v0"
    then have "f (arr ! pb) < f (arr ! pa)" using hd good by blast
    then show "f (hd (lo_B ?v0)) < f (hd (lo_A ?v0))" unfolding i using n by (simp add: hd_drop_conv_nth)
  qed (use n in simp_all)
  from lo_run_ok [OF this _ run] have E: "lo_exit lt f pa ?v0 ex v" "ex \<noteq> Leave" using n by simp_all
  have AB: "lo_A ?v0 @ lo_B ?v0 = slice pa (mv_pb ?v0 + mv_nb ?v0 - pa) (mv_arr ?v0)"
    unfolding i lo_start_fields using slice_add [where a = pa and m = na and n = nb and arr = arr] n(3) by auto
  note res = r [unfolded merge_lo_eq [OF g n(1-3) run [folded keep [THEN conjunct1]]]]
  show ?thesis
  proof (cases got)
    case False
    then show ?thesis using res keep g by (auto simp: merges_def)
  next
    case True
    then have fin: "e = (if ex = CopyLast then Succeed else ex)" "ms_pending ms' = ms_pending ms"
      "ms_arr ms' = (if ex = CopyLast then lo_copy_last v else lo_flush_a v)"
      using res E keep by (auto split: if_splits)
    show ?thesis
      using lo_end_merges [OF i(1,2) AB E fin(3)] fin(1,2) True unfolding good lo_start_fields g by simp
  qed
qed

end
