(* ===== verification/Py_Merge_Hi.thy ===== *)
theory Py_Merge_Hi
  imports Py_Merge
begin

text \<open>
  Objects/listobject.c of CPython: merge_hi, which copies the second run to the
  temporary array and merges from the right. The pointers dest, pa and pb of the
  code run downwards, and one past the front when a run is used up: the variables
  hold the index after the one they point to.
\<close>

section \<open>merge_hi\<close>

definition hi_a :: "'e merge_vars \<Rightarrow> 'e merge_vars" where
  "hi_a v = v\<lparr>mv_arr := (mv_arr v)[mv_dest v - 1 := mv_arr v ! (mv_pa v - 1)], mv_dest := mv_dest v - 1,
              mv_pa := mv_pa v - 1, mv_na := mv_na v - 1\<rparr>"

definition hi_b :: "'e merge_vars \<Rightarrow> 'e merge_vars" where
  "hi_b v = v\<lparr>mv_arr := (mv_arr v)[mv_dest v - 1 := mv_tmp v ! (mv_pb v - 1)], mv_dest := mv_dest v - 1,
              mv_pb := mv_pb v - 1, mv_nb := mv_nb v - 1\<rparr>"

definition hi_copy_a :: "nat \<Rightarrow> 'e merge_vars \<Rightarrow> 'e merge_vars" where
  "hi_copy_a k v = v\<lparr>mv_arr := copy_elts (mv_dest v - k) (slice (mv_pa v - k) k (mv_arr v)) (mv_arr v),
                     mv_dest := mv_dest v - k, mv_pa := mv_pa v - k, mv_na := mv_na v - k\<rparr>"

definition hi_copy_b :: "nat \<Rightarrow> 'e merge_vars \<Rightarrow> 'e merge_vars" where
  "hi_copy_b k v = v\<lparr>mv_arr := copy_elts (mv_dest v - k) (slice (mv_pb v - k) k (mv_tmp v)) (mv_arr v),
                     mv_dest := mv_dest v - k, mv_pb := mv_pb v - k, mv_nb := mv_nb v - k\<rparr>"

lemma hi_sizes [simp]:
  "mv_na (hi_a v) = mv_na v - 1" "mv_nb (hi_a v) = mv_nb v"
  "mv_na (hi_b v) = mv_na v" "mv_nb (hi_b v) = mv_nb v - 1"
  "mv_na (hi_copy_a k v) = mv_na v - k" "mv_nb (hi_copy_a k v) = mv_nb v"
  "mv_na (hi_copy_b k v) = mv_na v" "mv_nb (hi_copy_b k v) = mv_nb v - k"
  by (simp_all add: hi_a_def hi_b_def hi_copy_a_def hi_copy_b_def)

function hi_count :: "'e less_than \<Rightarrow> nat \<Rightarrow> nat \<Rightarrow> nat \<Rightarrow> 'e merge_vars \<Rightarrow> merge_exit \<times> 'e merge_vars" where
  "hi_count lt min_gallop acount bcount v =
     (if \<not> (0 < mv_na v \<and> 1 < mv_nb v) then (Bad_assert, v)
      else
        (case lt (mv_tmp v ! (mv_pb v - 1)) (mv_arr v ! (mv_pa v - 1)) of
           None \<Rightarrow> (Fail, v)
         | Some True \<Rightarrow>
             (let v = hi_a v
              in if mv_na v = 0 then (Succeed, v)
                 else if acount + 1 \<ge> min_gallop then (Leave, v)
                 else hi_count lt min_gallop (acount + 1) 0 v)
         | Some False \<Rightarrow>
             (let v = hi_b v
              in if mv_nb v = 1 then (CopyLast, v)
                 else if bcount + 1 \<ge> min_gallop then (Leave, v)
                 else hi_count lt min_gallop 0 (bcount + 1) v)))"
  by pat_completeness auto
termination
  by (relation "measure (\<lambda>(lt, min_gallop, acount, bcount, v). mv_na v + mv_nb v)") auto

declare hi_count.simps [simp del]

text \<open>
  A round of galloping: the elements of A that go after the last one of B, with
  that last one; then the elements of B that go after the last one of A, with
  that last one.
\<close>

definition hi_gallop_a :: "'e less_than \<Rightarrow> nat \<Rightarrow> 'e merge_vars \<Rightarrow> merge_exit \<times> nat \<times> 'e merge_vars" where
  "hi_gallop_a lt basea v =
     (case gallop_right lt (mv_tmp v ! (mv_pb v - 1)) (mv_arr v) basea (mv_na v) (mv_na v - 1) of
        None \<Rightarrow> (Fail, 0, v)
      | Some k \<Rightarrow>
          (let k = mv_na v - k;
               v = (if k \<noteq> 0 then hi_copy_a k v else v)
           in if k \<noteq> 0 \<and> mv_na v = 0 then (Succeed, k, v)
              else (let v = hi_b v in if mv_nb v = 1 then (CopyLast, k, v) else (Leave, k, v))))"

definition hi_gallop_b :: "'e less_than \<Rightarrow> 'e merge_vars \<Rightarrow> merge_exit \<times> nat \<times> 'e merge_vars" where
  "hi_gallop_b lt v =
     (case gallop_left lt (mv_arr v ! (mv_pa v - 1)) (mv_tmp v) 0 (mv_nb v) (mv_nb v - 1) of
        None \<Rightarrow> (Fail, 0, v)
      | Some k \<Rightarrow>
          (let k = mv_nb v - k;
               v = (if k \<noteq> 0 then hi_copy_b k v else v)
           in if k \<noteq> 0 \<and> mv_nb v = 1 then (CopyLast, k, v)
              else if k \<noteq> 0 \<and> mv_nb v = 0 then (Succeed, k, v)
              else (let v = hi_a v in if mv_na v = 0 then (Succeed, k, v) else (Leave, k, v))))"

definition hi_round :: "'e less_than \<Rightarrow> nat \<Rightarrow> 'e merge_vars \<Rightarrow> merge_exit \<times> bool \<times> 'e merge_vars" where
  "hi_round lt basea v =
     (if \<not> (0 < mv_na v \<and> 1 < mv_nb v) then (Bad_assert, False, v)
      else (case hi_gallop_a lt basea v of
              (Leave, acount, v) \<Rightarrow>
                (case hi_gallop_b lt v of
                   (e, bcount, v) \<Rightarrow> (e, acount \<ge> MIN_GALLOP \<or> bcount \<ge> MIN_GALLOP, v))
            | (e, acount, v) \<Rightarrow> (e, False, v)))"

lemma hi_gallop_a_sizes:
  "hi_gallop_a lt basea v = (e, k, v') \<Longrightarrow> mv_nb v' \<le> mv_nb v \<and> mv_na v' \<le> mv_na v \<and> (e = Leave \<longrightarrow> 0 < mv_na v \<longrightarrow> 0 < mv_na v')"
  by (auto simp: hi_gallop_a_def Let_def split: option.splits if_splits)

lemma hi_gallop_b_sizes:
  "hi_gallop_b lt v = (e, k, v') \<Longrightarrow> mv_nb v' \<le> mv_nb v \<and> mv_na v' \<le> mv_na v \<and> (e = Leave \<longrightarrow> mv_na v' < mv_na v)"
  by (auto simp: hi_gallop_b_def Let_def split: option.splits if_splits)

lemma hi_round_sizes:
  assumes "hi_round lt basea v = (Leave, again, v')"
  shows "mv_na v' < mv_na v \<and> mv_nb v' \<le> mv_nb v"
proof -
  obtain e k v1 where a: "hi_gallop_a lt basea v = (e, k, v1)" by (metis prod_cases3)
  obtain e' k' v2 where b: "hi_gallop_b lt v1 = (e', k', v2)" by (metis prod_cases3)
  have "e = Leave \<and> e' = Leave \<and> v' = v2"
    using assms a b by (cases e) (auto simp: hi_round_def split: if_splits)
  then show ?thesis using hi_gallop_a_sizes [OF a] hi_gallop_b_sizes [OF b] by auto
qed

function hi_gallop :: "'e less_than \<Rightarrow> nat \<Rightarrow> nat \<Rightarrow> 'e merge_vars \<Rightarrow> merge_exit \<times> nat \<times> 'e merge_vars" where
  "hi_gallop lt basea min_gallop v =
     (let min_gallop = less_min_gallop min_gallop
      in (case hi_round lt basea v of
            (e, again, v) \<Rightarrow>
              if e = Leave \<and> again then hi_gallop lt basea min_gallop v else (e, min_gallop, v)))"
  by pat_completeness auto
termination
  by (relation "measure (\<lambda>(lt, basea, min_gallop, v). mv_na v)") (auto dest!: hi_round_sizes [OF sym])

declare hi_gallop.simps [simp del]

lemma hi_count_step:
  assumes "0 < mv_na v" "1 < mv_nb v"
  shows "lt (mv_tmp v ! (mv_pb v - 1)) (mv_arr v ! (mv_pa v - 1)) = None \<Longrightarrow> hi_count lt mg ac bc v = (Fail, v)"
    and "lt (mv_tmp v ! (mv_pb v - 1)) (mv_arr v ! (mv_pa v - 1)) = Some True \<Longrightarrow> hi_count lt mg ac bc v =
      (if mv_na (hi_a v) = 0 then (Succeed, hi_a v) else if mg \<le> ac + 1 then (Leave, hi_a v)
       else hi_count lt mg (ac + 1) 0 (hi_a v))"
    and "lt (mv_tmp v ! (mv_pb v - 1)) (mv_arr v ! (mv_pa v - 1)) = Some False \<Longrightarrow> hi_count lt mg ac bc v =
      (if mv_nb (hi_b v) = 1 then (CopyLast, hi_b v) else if mg \<le> bc + 1 then (Leave, hi_b v)
       else hi_count lt mg 0 (bc + 1) (hi_b v))"
  using assms by (subst hi_count.simps, simp add: Let_def)+

lemma hi_count_bad: "\<not> (0 < mv_na v \<and> 1 < mv_nb v) \<Longrightarrow> hi_count lt mg ac bc v = (Bad_assert, v)"
  by (subst hi_count.simps) simp

interpretation hi_counting: merge_counting "\<lambda>mg bc ac. hi_count lt mg ac bc" "\<lambda>v. 0 < mv_na v \<and> 1 < mv_nb v"
    "\<lambda>v. lt (mv_tmp v ! (mv_pb v - 1)) (mv_arr v ! (mv_pa v - 1))" hi_a hi_b "\<lambda>v. mv_na v = 0" "\<lambda>v. mv_nb v = 1" Succeed CopyLast
    "\<lambda>v. mv_na v + mv_nb v"
  for lt
  by unfold_locales (auto simp: hi_count_step hi_count_bad)

lemma hi_gallop_step:
  "hi_round lt basea v = (e, again, v1) \<Longrightarrow> hi_gallop lt basea mg v =
     (if e = Leave \<and> again then hi_gallop lt basea (less_min_gallop mg) v1 else (e, less_min_gallop mg, v1))"
  by (subst hi_gallop.simps) (simp add: Let_def)

interpretation hi_galloping: merge_galloping "hi_round lt basea" "hi_gallop lt basea" "\<lambda>v. mv_na v + mv_nb v"
  for lt basea
  by unfold_locales (rule hi_gallop_step, assumption, use hi_round_sizes in fastforce)

function hi_loop :: "'e less_than \<Rightarrow> nat \<Rightarrow> nat \<Rightarrow> 'e merge_vars \<Rightarrow> merge_exit \<times> nat \<times> 'e merge_vars" where
  "hi_loop lt basea min_gallop v =
     (case hi_count lt min_gallop 0 0 v of
        (Leave, v) \<Rightarrow>
          (case hi_gallop lt basea (min_gallop + 1) v of
             (Leave, min_gallop, v) \<Rightarrow> hi_loop lt basea (min_gallop + 1) v
           | (e, min_gallop, v) \<Rightarrow> (e, min_gallop, v))
      | (e, v) \<Rightarrow> (e, min_gallop, v))"
  by pat_completeness auto
termination
  by (relation "measure (\<lambda>(lt, basea, min_gallop, v). mv_na v + mv_nb v)")
    (auto dest!: hi_galloping.gal_shrinks [OF sym] hi_counting.cnt_shrinks [OF sym])

declare hi_loop.simps [simp del]

text \<open>The ends of merge_hi: what is left of B goes before dest, or A does, with the first element of B in front.\<close>

definition hi_flush_b :: "'e merge_vars \<Rightarrow> 'e list" where
  "hi_flush_b v =
     (if mv_nb v \<noteq> 0 then copy_elts (mv_dest v - mv_nb v) (slice 0 (mv_nb v) (mv_tmp v)) (mv_arr v) else mv_arr v)"

definition hi_copy_first :: "'e merge_vars \<Rightarrow> 'e list" where
  "hi_copy_first v =
     (copy_elts (mv_dest v - mv_na v) (slice (mv_pa v - mv_na v) (mv_na v) (mv_arr v)) (mv_arr v))
       [mv_dest v - mv_na v - 1 := mv_tmp v ! (mv_pb v - 1)]"

text \<open>The variables of merge_hi after the copy to the temporary array.\<close>

definition hi_start :: "'e list \<Rightarrow> nat \<Rightarrow> nat \<Rightarrow> nat \<Rightarrow> nat \<Rightarrow> 'e merge_vars" where
  "hi_start arr pa na pb nb =
     \<lparr>mv_arr = arr, mv_tmp = slice pb nb arr, mv_dest = pb + nb, mv_pa = pa + na, mv_na = na, mv_pb = nb, mv_nb = nb\<rparr>"

definition hi_run :: "'e less_than \<Rightarrow> nat \<Rightarrow> nat \<Rightarrow> 'e merge_vars \<Rightarrow> merge_exit \<times> nat \<times> 'e merge_vars" where
  "hi_run lt basea min_gallop v =
     (if mv_na v = 0 then (Succeed, min_gallop, v)
      else if mv_nb v = 1 then (CopyLast, min_gallop, v)
      else hi_loop lt basea min_gallop v)"

definition merge_hi :: "(nat \<Rightarrow> bool) \<Rightarrow> 'e less_than \<Rightarrow> nat \<Rightarrow> nat \<Rightarrow> nat \<Rightarrow> nat \<Rightarrow> 'e merge_state \<Rightarrow> merge_exit \<times> 'e merge_state" where
  "merge_hi malloc lt pa na pb nb ms =
     (if \<not> (0 < na \<and> 0 < nb \<and> pa + na = pb) then (Bad_assert, ms)
      else
        (case merge_getmem malloc nb ms of
           (False, ms) \<Rightarrow> (Fail, ms)
         | (True, ms) \<Rightarrow>
             (case hi_run lt pa (ms_min_gallop ms) (hi_a (hi_start (ms_arr ms) pa na pb nb)) of
                (CopyLast, min_gallop, v) \<Rightarrow>
                  (if mv_nb v = 1 \<and> 0 < mv_na v
                   then (Succeed, ms\<lparr>ms_min_gallop := min_gallop, ms_arr := hi_copy_first v\<rparr>)
                   else (Bad_assert, ms))
              | (e, min_gallop, v) \<Rightarrow> (e, ms\<lparr>ms_min_gallop := min_gallop, ms_arr := hi_flush_b v\<rparr>))))"

section \<open>Merging from the right, on lists\<close>

text \<open>The first element of B belongs at the front of the merge.\<close>

definition merging_hi :: "('e \<Rightarrow> 'k :: linorder) \<Rightarrow> 'e list \<Rightarrow> 'e list \<Rightarrow> 'e list \<Rightarrow> bool" where
  "merging_hi f A B D \<longleftrightarrow> sorted (map f D) \<and> sorted (map f A) \<and> sorted (map f B)
     \<and> (\<forall>d \<in> set D. \<forall>x \<in> set A \<union> set B. f x \<le> f d) \<and> B \<noteq> [] \<and> (\<forall>x \<in> set A. f (hd B) < f x)"

lemma merging_hi_take_a:
  assumes "merging_hi f (A @ X) B D" "\<forall>x \<in> set X. f (last B) < f x"
  shows "merging_hi f A B (X @ D)" "stable_eq f (A @ B @ X @ D) ((A @ X) @ B @ D)"
proof -
  have "\<forall>b \<in> set B. f b \<le> f (last B)"
    using assms(1) sorted_last_ge [of f B] by (auto simp: merging_hi_def)
  then have less: "\<forall>b \<in> set B. \<forall>x \<in> set X. f b < f x" using assms(2) le_less_trans by blast
  show "merging_hi f A B (X @ D)"
    using assms(1) less unfolding merging_hi_def by (auto simp: sorted_append intro: less_imp_le)
  have "stable_eq f (B @ X) (X @ B)" by (rule stable_eq_swap) (use less in fastforce)
  from stable_eq_context [OF this, of A D] show "stable_eq f (A @ B @ X @ D) ((A @ X) @ B @ D)" by simp
qed

lemma merging_hi_take_b:
  assumes "merging_hi f A (B @ Y) D" "B \<noteq> []" "\<forall>y \<in> set Y. \<forall>x \<in> set A. f x \<le> f y"
  shows "merging_hi f A B (Y @ D)"
  using assms unfolding merging_hi_def by (auto simp: sorted_append)

lemma merging_hi_end_b:
  assumes "merging_hi f [] B D"
  shows "sorted (map f (B @ D))"
  using assms by (auto simp: merging_hi_def sorted_append)

lemma merging_hi_end_a:
  assumes "merging_hi f A [b] D"
  shows "sorted (map f ([b] @ A @ D))" "stable_eq f ([b] @ A @ D) (A @ [b] @ D)"
proof -
  show "sorted (map f ([b] @ A @ D))" using assms by (auto simp: merging_hi_def sorted_append intro: less_imp_le)
  have "stable_eq f ([b] @ A) (A @ [b])" by (rule stable_eq_swap) (use assms in \<open>auto simp: merging_hi_def\<close>)
  from stable_eq_context [OF this, of "[]" D] show "stable_eq f ([b] @ A @ D) (A @ [b] @ D)" by simp
qed

section \<open>merge_hi is correct\<close>

text \<open>a is where the first run begins, h the end of the second.\<close>

definition hi_A :: "nat \<Rightarrow> 'e merge_vars \<Rightarrow> 'e list" where
  "hi_A a v = slice a (mv_na v) (mv_arr v)"

definition hi_B :: "'e merge_vars \<Rightarrow> 'e list" where
  "hi_B v = slice 0 (mv_nb v) (mv_tmp v)"

definition hi_D :: "nat \<Rightarrow> 'e merge_vars \<Rightarrow> 'e list" where
  "hi_D h v = slice (mv_dest v) (h - mv_dest v) (mv_arr v)"

text \<open>The gap between pa and dest is as long as what is left of B.\<close>

definition hi_inv :: "nat \<Rightarrow> nat \<Rightarrow> 'e merge_vars \<Rightarrow> bool" where
  "hi_inv a h v \<longleftrightarrow> a + mv_na v = mv_pa v \<and> mv_pa v + mv_nb v = mv_dest v \<and> mv_dest v \<le> h \<and> h \<le> length (mv_arr v)
     \<and> mv_pb v = mv_nb v \<and> mv_nb v \<le> length (mv_tmp v)"

lemma hi_invD:
  assumes "hi_inv a h v"
  shows "mv_pa v = a + mv_na v" "mv_dest v = a + mv_na v + mv_nb v" "a + mv_na v + mv_nb v \<le> h" "h \<le> length (mv_arr v)"
    "mv_pb v = mv_nb v" "mv_nb v \<le> length (mv_tmp v)"
  using assms by (simp_all add: hi_inv_def)

definition hi_all :: "nat \<Rightarrow> nat \<Rightarrow> 'e merge_vars \<Rightarrow> 'e list" where
  "hi_all a h v = hi_A a v @ hi_B v @ hi_D h v"

definition hi_moved :: "nat \<Rightarrow> nat \<Rightarrow> 'e merge_vars \<Rightarrow> 'e merge_vars \<Rightarrow> bool" where
  "hi_moved a h v v' \<longleftrightarrow> hi_inv a h v' \<and> length (mv_arr v') = length (mv_arr v) \<and> take a (mv_arr v') = take a (mv_arr v)
     \<and> drop h (mv_arr v') = drop h (mv_arr v) \<and> mset (hi_all a h v') = mset (hi_all a h v)"

lemma hi_moved_refl: "hi_inv a h v \<Longrightarrow> hi_moved a h v v"
  by (simp add: hi_moved_def)

lemma hi_moved_trans: "hi_moved a h u v \<Longrightarrow> hi_moved a h v w \<Longrightarrow> hi_moved a h u w"
  by (simp add: hi_moved_def)

lemma hi_views [simp]:
  "hi_inv a h v \<Longrightarrow> length (hi_A a v) = mv_na v" "hi_inv a h v \<Longrightarrow> length (hi_B v) = mv_nb v"
  by (auto simp: hi_inv_def hi_A_def hi_B_def)

text \<open>The effect of a copy to the slots below dest, from either run.\<close>

lemma hi_copy_effect:
  assumes i: "hi_inv a h v" and k: "length xs = k" "k \<le> mv_na v + mv_nb v" "k \<le> mv_nb v \<or> xs = slice (mv_pa v - k) k (mv_arr v)"
  defines "arr' \<equiv> copy_elts (mv_dest v - k) xs (mv_arr v)"
  shows "length arr' = length (mv_arr v)" "take a arr' = take a (mv_arr v)" "drop h arr' = drop h (mv_arr v)"
    "slice (mv_dest v - k) (h - (mv_dest v - k)) arr' = xs @ hi_D h v"
    "m \<le> mv_dest v - k \<Longrightarrow> take m arr' = take m (mv_arr v)"
proof -
  note d = hi_invD [OF i]
  have fits: "mv_dest v - k + length xs = mv_dest v" "mv_dest v \<le> length (mv_arr v)" using d k by simp_all
  then have in_arr: "mv_dest v - k + length xs \<le> length (mv_arr v)" by simp
  show "length arr' = length (mv_arr v)" unfolding arr'_def by (rule length_copy_elts [OF in_arr])
  show "take a arr' = take a (mv_arr v)" unfolding arr'_def by (rule take_copy_elts [OF _ in_arr]) (use d k in simp)
  show "drop h arr' = drop h (mv_arr v)"
    unfolding arr'_def by (rule drop_copy_elts [OF _ in_arr]) (use d k fits in simp)
  show "slice (mv_dest v - k) (h - (mv_dest v - k)) arr' = xs @ hi_D h v"
    unfolding arr'_def hi_D_def using slice_copy_elts_above [of "mv_dest v - k" xs h "mv_arr v"] d fits by simp
  show "take m arr' = take m (mv_arr v)" if "m \<le> mv_dest v - k"
    unfolding arr'_def by (rule take_copy_elts [OF that in_arr])
qed

lemma slice_top: "k \<le> n \<Longrightarrow> a + n \<le> length xs \<Longrightarrow> slice (a + n - k) k xs = drop (n - k) (slice a n xs)"
  by (simp add: drop_take add.commute)

lemma mset_middle: "mset (take k xs @ ys @ drop k xs @ zs) = mset (xs @ ys @ zs)"
proof -
  have "mset xs = mset (take k xs) + mset (drop k xs)" by (metis append_take_drop_id mset_append)
  then show ?thesis by (simp add: ac_simps)
qed

lemma hi_copy_a_views:
  assumes i: "hi_inv a h v" and k: "k \<le> mv_na v"
  shows "hi_A a (hi_copy_a k v) = take (mv_na v - k) (hi_A a v)" "hi_B (hi_copy_a k v) = hi_B v"
    "hi_D h (hi_copy_a k v) = drop (mv_na v - k) (hi_A a v) @ hi_D h v" "hi_moved a h v (hi_copy_a k v)"
proof -
  let ?xs = "slice (mv_pa v - k) k (mv_arr v)"
  note d = hi_invD [OF i]
  have xs: "length ?xs = k" "?xs = drop (mv_na v - k) (hi_A a v)"
    using d k slice_top [of k "mv_na v" a "mv_arr v"] by (simp_all add: hi_A_def)
  note c = hi_copy_effect [OF i xs(1)]
  have kk: "k \<le> mv_na v + mv_nb v" "k \<le> mv_nb v \<or> ?xs = slice (mv_pa v - k) k (mv_arr v)" using k by simp_all
  have tk: "take (a + (mv_na v - k)) (mv_arr (hi_copy_a k v)) = take (a + (mv_na v - k)) (mv_arr v)"
    unfolding hi_copy_a_def using c(5) [OF kk, of "a + (mv_na v - k)"] d k by simp
  show A: "hi_A a (hi_copy_a k v) = take (mv_na v - k) (hi_A a v)"
    using arg_cong [OF tk, of "drop a"] by (simp add: hi_A_def take_drop add.commute)
  show B: "hi_B (hi_copy_a k v) = hi_B v" by (simp add: hi_B_def hi_copy_a_def)
  show D: "hi_D h (hi_copy_a k v) = drop (mv_na v - k) (hi_A a v) @ hi_D h v"
    using c(4) [OF kk] xs(2) by (simp add: hi_D_def hi_copy_a_def)
  have "mset (hi_all a h (hi_copy_a k v)) = mset (hi_all a h v)"
    unfolding hi_all_def A B D by (rule mset_middle)
  then show "hi_moved a h v (hi_copy_a k v)"
    using c(1-3) [OF kk] d k by (simp add: hi_moved_def hi_inv_def hi_copy_a_def)
qed

lemma hi_copy_b_views:
  assumes i: "hi_inv a h v" and k: "k \<le> mv_nb v"
  shows "hi_A a (hi_copy_b k v) = hi_A a v" "hi_B (hi_copy_b k v) = take (mv_nb v - k) (hi_B v)"
    "hi_D h (hi_copy_b k v) = drop (mv_nb v - k) (hi_B v) @ hi_D h v" "hi_moved a h v (hi_copy_b k v)"
proof -
  let ?xs = "slice (mv_pb v - k) k (mv_tmp v)"
  note d = hi_invD [OF i]
  have xs: "length ?xs = k" "?xs = drop (mv_nb v - k) (hi_B v)"
    using d k slice_top [of k "mv_nb v" 0 "mv_tmp v"] by (simp_all add: hi_B_def)
  note c = hi_copy_effect [OF i xs(1)]
  have kk: "k \<le> mv_na v + mv_nb v" "k \<le> mv_nb v \<or> ?xs = slice (mv_pa v - k) k (mv_arr v)" using k by simp_all
  have tk: "take (a + mv_na v) (mv_arr (hi_copy_b k v)) = take (a + mv_na v) (mv_arr v)"
    unfolding hi_copy_b_def using c(5) [OF kk, of "a + mv_na v"] d k by simp
  show A: "hi_A a (hi_copy_b k v) = hi_A a v"
    using arg_cong [OF tk, of "drop a"] by (simp add: hi_A_def take_drop add.commute)
  show B: "hi_B (hi_copy_b k v) = take (mv_nb v - k) (hi_B v)" by (simp add: hi_B_def hi_copy_b_def min_def)
  show D: "hi_D h (hi_copy_b k v) = drop (mv_nb v - k) (hi_B v) @ hi_D h v"
    using c(4) [OF kk] xs(2) by (simp add: hi_D_def hi_copy_b_def)
  have "mset (hi_all a h (hi_copy_b k v)) = mset (hi_all a h v)"
    unfolding hi_all_def A B D using mset_middle [where xs = "hi_B v" and k = "mv_nb v - k" and ys = "[]"] by simp
  then show "hi_moved a h v (hi_copy_b k v)"
    using c(1-3) [OF kk] d k by (auto simp: hi_moved_def hi_inv_def hi_copy_b_def)
qed

lemma last_slice: "0 < n \<Longrightarrow> a + n \<le> length xs \<Longrightarrow> last (slice a n xs) = xs ! (a + n - 1)"
  by (simp add: last_conv_nth)

lemma hi_lasts:
  assumes "hi_inv a h v"
  shows "0 < mv_na v \<Longrightarrow> mv_arr v ! (mv_pa v - 1) = last (hi_A a v)" "0 < mv_nb v \<Longrightarrow> mv_tmp v ! (mv_pb v - 1) = last (hi_B v)"
  using hi_invD [OF assms] last_slice [of "mv_na v" a "mv_arr v"] last_slice [of "mv_nb v" 0 "mv_tmp v"]
  by (simp_all add: hi_A_def hi_B_def)

lemma slice_one: "i < length xs \<Longrightarrow> slice i 1 xs = [xs ! i]"
  by (simp add: take_Suc hd_drop_conv_nth)

lemma hi_a_copy:
  assumes "hi_inv a h v" "0 < mv_na v"
  shows "hi_a v = hi_copy_a 1 v"
proof -
  note d = hi_invD [OF assms(1)]
  have "mv_pa v - 1 < length (mv_arr v)" "mv_dest v - 1 < length (mv_arr v)" using d assms(2) by linarith+
  then show ?thesis by (simp only: hi_a_def hi_copy_a_def slice_one copy_one)
qed

lemma hi_b_copy:
  assumes "hi_inv a h v" "0 < mv_nb v"
  shows "hi_b v = hi_copy_b 1 v"
proof -
  note d = hi_invD [OF assms(1)]
  have "mv_pb v - 1 < length (mv_tmp v)" "mv_dest v - 1 < length (mv_arr v)" using d assms(2) by linarith+
  then show ?thesis by (simp only: hi_b_def hi_copy_b_def slice_one copy_one)
qed

definition hi_good :: "'e less_than \<Rightarrow> ('e \<Rightarrow> 'k :: linorder) \<Rightarrow> nat \<Rightarrow> nat \<Rightarrow> 'e merge_vars \<Rightarrow> bool" where
  "hi_good lt f a h v \<longleftrightarrow> orders lt f \<and> merging_hi f (hi_A a v) (hi_B v) (hi_D h v)"

abbreviation hi_ok :: "'e less_than \<Rightarrow> ('e \<Rightarrow> 'k :: linorder) \<Rightarrow> nat \<Rightarrow> nat \<Rightarrow> 'e merge_vars \<Rightarrow> 'e merge_vars \<Rightarrow> bool" where
  "hi_ok lt f a h \<equiv> merge_ok (hi_moved a h) (hi_good lt f a h) (hi_all a h) f"

abbreviation hi_exit :: "'e less_than \<Rightarrow> ('e \<Rightarrow> 'k :: linorder) \<Rightarrow> nat \<Rightarrow> nat \<Rightarrow> 'e merge_vars \<Rightarrow> merge_exit \<Rightarrow> 'e merge_vars \<Rightarrow> bool" where
  "hi_exit lt f a h \<equiv> exit_ok (hi_ok lt f a h) (hi_good lt f a h) (\<lambda>v. mv_na v = 0 \<or> mv_nb v = 0)
     (\<lambda>v. mv_nb v = 1 \<and> 0 < mv_na v) (\<lambda>v. 0 < mv_na v \<and> 1 < mv_nb v)"

interpretation hi_steps: merge_steps "hi_moved a h" "hi_good lt f a h" "hi_all a h" f "hi_inv a h"
  for a h lt f
  by unfold_locales (rule hi_moved_refl, assumption, rule hi_moved_trans, assumption, assumption, simp add: hi_moved_def)

lemma hi_good_total: "hi_good lt f a h v \<Longrightarrow> lt x y \<noteq> None"
  using orders_eq [of lt f x y] by (auto simp: hi_good_def)

lemma hi_ok_copy_a:
  assumes ok: "hi_ok lt f a h u v" and k: "k \<le> mv_na v"
    and less: "hi_good lt f a h u \<Longrightarrow> hi_good lt f a h v \<Longrightarrow> \<forall>x \<in> set (drop (mv_na v - k) (hi_A a v)). f (last (hi_B v)) < f x"
  shows "hi_ok lt f a h u (hi_copy_a k v)"
proof -
  note w = hi_copy_a_views [OF hi_steps.ok_inv [OF ok] k]
  show ?thesis
    by (rule hi_steps.ok_step [OF ok w(4)], unfold hi_good_def hi_all_def w(1-3), intro conjI
        merging_hi_take_a [of f "take (mv_na v - k) (hi_A a v)" "drop (mv_na v - k) (hi_A a v)", unfolded append_take_drop_id])
      (use less in \<open>simp_all add: hi_good_def\<close>)
qed

lemma hi_ok_copy_b:
  assumes ok: "hi_ok lt f a h u v" and k: "k \<le> mv_nb v"
    and less: "hi_good lt f a h u \<Longrightarrow> hi_good lt f a h v \<Longrightarrow>
      k < mv_nb v \<and> (\<forall>y \<in> set (drop (mv_nb v - k) (hi_B v)). \<forall>x \<in> set (hi_A a v). f x \<le> f y)"
  shows "hi_ok lt f a h u (hi_copy_b k v)"
proof -
  note i = hi_steps.ok_inv [OF ok]
  note w = hi_copy_b_views [OF i k]
  have same: "hi_A a v @ take (mv_nb v - k) (hi_B v) @ drop (mv_nb v - k) (hi_B v) @ hi_D h v = hi_A a v @ hi_B v @ hi_D h v"
    by (metis append_assoc append_take_drop_id)
  have "merging_hi f (hi_A a v) (take (mv_nb v - k) (hi_B v)) (drop (mv_nb v - k) (hi_B v) @ hi_D h v)"
    if g: "hi_good lt f a h u" "hi_good lt f a h v"
  proof (rule merging_hi_take_b)
    show "merging_hi f (hi_A a v) (take (mv_nb v - k) (hi_B v) @ drop (mv_nb v - k) (hi_B v)) (hi_D h v)"
      using g(2) by (simp add: hi_good_def)
    show "take (mv_nb v - k) (hi_B v) \<noteq> []" using less [OF g] hi_views(2) [OF i] by auto
  qed (use less [OF g] in blast)
  then show ?thesis by (intro hi_steps.ok_step [OF ok w(4)], unfold hi_all_def hi_good_def w(1-3) same) simp_all
qed

lemma hi_nonempty: "hi_inv a h v \<Longrightarrow> 0 < mv_na v \<Longrightarrow> hi_A a v \<noteq> []" "hi_inv a h v \<Longrightarrow> 0 < mv_nb v \<Longrightarrow> hi_B v \<noteq> []"
  by (metis length_greater_0_conv hi_views(1)) (metis length_greater_0_conv hi_views(2))

lemma drop_one: "xs \<noteq> [] \<Longrightarrow> drop (length xs - 1) xs = [last xs]"
  by (induction xs rule: rev_induct) auto

lemma hi_ok_a:
  assumes "hi_ok lt f a h u v" "0 < mv_na v"
    "hi_good lt f a h u \<Longrightarrow> hi_good lt f a h v \<Longrightarrow> f (last (hi_B v)) < f (last (hi_A a v))"
  shows "hi_ok lt f a h u (hi_a v)"
proof -
  note i = hi_steps.ok_inv [OF assms(1)]
  have "drop (mv_na v - 1) (hi_A a v) = [last (hi_A a v)]"
    using drop_one [OF hi_nonempty(1) [OF i assms(2)]] hi_views(1) [OF i] by simp
  then show ?thesis unfolding hi_a_copy [OF i assms(2)] using assms by (intro hi_ok_copy_a) auto
qed

lemma hi_ok_b:
  assumes "hi_ok lt f a h u v" "1 < mv_nb v"
    "hi_good lt f a h u \<Longrightarrow> hi_good lt f a h v \<Longrightarrow> 0 < mv_na v \<Longrightarrow> f (last (hi_A a v)) \<le> f (last (hi_B v))"
  shows "hi_ok lt f a h u (hi_b v)"
proof -
  note i = hi_steps.ok_inv [OF assms(1)]
  have nb: "0 < mv_nb v" using assms(2) by simp
  have one: "drop (mv_nb v - 1) (hi_B v) = [last (hi_B v)]"
    using drop_one [OF hi_nonempty(2) [OF i nb]] hi_views(2) [OF i] by simp
  have "f x \<le> f (last (hi_B v))" if g: "hi_good lt f a h u" "hi_good lt f a h v" and x: "x \<in> set (hi_A a v)" for x
  proof -
    have na: "0 < mv_na v" using i x by (metis length_pos_if_in_set hi_views(1))
    have "f x \<le> f (last (hi_A a v))" by (rule sorted_last_ge [OF _ x]) (use g(2) in \<open>simp add: hi_good_def merging_hi_def\<close>)
    then show ?thesis using assms(3) [OF g na] by simp
  qed
  then show ?thesis unfolding hi_b_copy [OF i nb] using assms(1,2) one by (intro hi_ok_copy_b) auto
qed

lemma hi_count_ok:
  assumes "hi_inv a h v" "0 < mv_na v \<and> 1 < mv_nb v" "hi_count lt mg ac bc v = (e, v')"
  shows "hi_exit lt f a h v e v'"
proof (rule hi_counting.cnt_rule [OF assms(3) _ assms(2), where I = "hi_ok lt f a h v" and J = "hi_ok lt f a h v"])
  show "hi_ok lt f a h v v" by (rule hi_steps.ok_refl [OF assms(1)])
next
  fix x assume x: "hi_ok lt f a h v x" "0 < mv_na x \<and> 1 < mv_nb x" "lt (mv_tmp x ! (mv_pb x - 1)) (mv_arr x ! (mv_pa x - 1)) = Some True"
  have "hi_ok lt f a h v (hi_a x)"
    by (rule hi_ok_a [OF x(1)]) (use x hi_lasts [OF hi_steps.ok_inv [OF x(1)]] in \<open>auto simp: hi_good_def orders_eq\<close>)
  then show "hi_ok lt f a h v (hi_a x) \<and> (mv_na (hi_a x) = 0 \<longrightarrow> hi_exit lt f a h v Succeed (hi_a x))" by simp
next
  fix x assume x: "hi_ok lt f a h v x" "0 < mv_na x \<and> 1 < mv_nb x" "lt (mv_tmp x ! (mv_pb x - 1)) (mv_arr x ! (mv_pa x - 1)) = Some False"
  have "hi_ok lt f a h v (hi_b x)"
    by (rule hi_ok_b [OF x(1)]) (use x hi_lasts [OF hi_steps.ok_inv [OF x(1)]] in \<open>auto simp: hi_good_def orders_eq\<close>)
  then show "hi_ok lt f a h v (hi_b x) \<and> (mv_nb (hi_b x) = 1 \<longrightarrow> hi_exit lt f a h v CopyLast (hi_b x))" using x(2) by simp
qed (auto dest: hi_good_total)

lemma hi_gallop_a_ok:
  assumes i: "hi_inv a h v" and na: "0 < mv_na v" and nb: "1 < mv_nb v" and r: "hi_gallop_a lt a v = (e, k, v')"
  shows "hi_exit lt f a h v e v'"
proof -
  let ?key = "mv_tmp v ! (mv_pb v - 1)"
  have right: "\<exists>k. gallop_right lt ?key (mv_arr v) a (mv_na v) (mv_na v - 1) = Some k
      \<and> (\<forall>x \<in> set (take k (hi_A a v)). f x \<le> f (last (hi_B v))) \<and> (\<forall>x \<in> set (drop k (hi_A a v)). f (last (hi_B v)) < f x)"
    if g: "hi_good lt f a h v"
  proof -
    have m: "merging_hi f (hi_A a v) (hi_B v) (hi_D h v)" and o: "orders lt f" using g by (simp_all add: hi_good_def)
    have s: "sorted (map f (slice a (mv_na v) (mv_arr v)))" "a + mv_na v \<le> length (mv_arr v)"
      using m hi_invD [OF i] by (simp_all add: merging_hi_def hi_A_def)
    have key: "?key = last (hi_B v)" using hi_lasts(2) [OF i] nb by simp
    show ?thesis using gallop_right_correct [OF o s, of "mv_na v - 1" ?key] na
      unfolding key by (auto simp: hi_A_def min_def drop_take add.commute)
  qed
  show ?thesis
  proof (cases "gallop_right lt ?key (mv_arr v) a (mv_na v) (mv_na v - 1)")
    case None
    then have "e = Fail" "v' = v" using r by (simp_all add: hi_gallop_a_def)
    then show ?thesis using right None hi_steps.ok_refl [OF i] by auto
  next
    case (Some k0)
    define k1 where "k1 = mv_na v - k0"
    define w where "w = (if k1 \<noteq> 0 then hi_copy_a k1 v else v)"
    have le: "k0 \<le> mv_na v" by (rule gallop_right_bounds [OF Some]) (use na in simp)
    then have k0: "mv_na v - k1 = k0" "k1 \<le> mv_na v" by (simp_all add: k1_def)
    have "hi_ok lt f a h v (hi_copy_a k1 v)"
      by (rule hi_ok_copy_a [OF hi_steps.ok_refl [OF i] k0(2)]) (use right Some k0 in auto)
    then have w: "hi_ok lt f a h v w" by (simp add: w_def hi_steps.ok_refl [OF i])
    have sz: "mv_na w = k0" "mv_nb w = mv_nb v" using le by (auto simp: w_def k1_def)
    have views: "hi_A a w = take k0 (hi_A a v)" "hi_B w = hi_B v"
      using hi_copy_a_views [OF i k0(2)] k0 hi_views(1) [OF i] by (auto simp: w_def)
    have b: "hi_ok lt f a h v (hi_b w)"
    proof (rule hi_ok_b [OF w])
      show "1 < mv_nb w" using nb sz by simp
      assume g: "hi_good lt f a h v" "0 < mv_na w"
      then have "last (hi_A a w) \<in> set (take k0 (hi_A a v))"
        using hi_nonempty(1) [OF hi_steps.ok_inv [OF w]] views(1) by (metis last_in_set)
      then show "f (last (hi_A a w)) \<le> f (last (hi_B w))" using right [OF g(1)] Some views(2) by auto
    qed
    have "e = (if k1 \<noteq> 0 \<and> mv_na w = 0 then Succeed else if mv_nb (hi_b w) = 1 then CopyLast else Leave)"
      "v' = (if k1 \<noteq> 0 \<and> mv_na w = 0 then w else hi_b w)"
      using r Some by (auto simp: hi_gallop_a_def w_def k1_def Let_def split: if_splits)
    then show ?thesis using w b nb na sz le by (auto simp: k1_def)
  qed
qed

lemma hi_gallop_b_ok:
  assumes i: "hi_inv a h v" and na: "0 < mv_na v" and nb: "1 < mv_nb v" and r: "hi_gallop_b lt v = (e, k, v')"
  shows "hi_exit lt f a h v e v'"
proof -
  let ?key = "mv_arr v ! (mv_pa v - 1)"
  have left: "\<exists>k > 0. gallop_left lt ?key (mv_tmp v) 0 (mv_nb v) (mv_nb v - 1) = Some k
      \<and> (\<forall>y \<in> set (drop k (hi_B v)). \<forall>x \<in> set (hi_A a v). f x \<le> f y) \<and> f (last (take k (hi_B v))) < f (last (hi_A a v))"
    if g: "hi_good lt f a h v"
  proof -
    have m: "merging_hi f (hi_A a v) (hi_B v) (hi_D h v)" and o: "orders lt f" using g by (simp_all add: hi_good_def)
    have s: "sorted (map f (slice 0 (mv_nb v) (mv_tmp v)))" "0 + mv_nb v \<le> length (mv_tmp v)"
      using m hi_invD [OF i] by (simp_all add: merging_hi_def hi_B_def)
    have key: "?key = last (hi_A a v)" using hi_lasts(1) [OF i na] .
    obtain k where k: "k \<le> mv_nb v" "gallop_left lt ?key (mv_tmp v) 0 (mv_nb v) (mv_nb v - 1) = Some k"
        "\<forall>y \<in> set (take k (hi_B v)). f y < f (last (hi_A a v))" "\<forall>y \<in> set (drop k (hi_B v)). f (last (hi_A a v)) \<le> f y"
      using gallop_left_correct [OF o s, of "mv_nb v - 1" ?key] nb
      unfolding key by (auto simp: hi_B_def min_def drop_take add.commute)
    have la: "last (hi_A a v) \<in> set (hi_A a v)" using hi_nonempty(1) [OF i na] by simp
    have "k \<noteq> 0"
    proof
      assume "k = 0"
      then have "f (last (hi_A a v)) \<le> f (hd (hi_B v))" using k(4) hi_nonempty(2) [OF i] nb by simp
      then show False using m la by (auto simp: merging_hi_def dest: leD)
    qed
    then have "take k (hi_B v) \<noteq> []" using hi_nonempty(2) [OF i] nb by simp
    then have "f (last (take k (hi_B v))) < f (last (hi_A a v))" using k(3) last_in_set by blast
    moreover have "f x \<le> f (last (hi_A a v))" if "x \<in> set (hi_A a v)" for x
      by (rule sorted_last_ge [OF _ that]) (use m in \<open>simp add: merging_hi_def\<close>)
    ultimately show ?thesis using k(2,4) \<open>k \<noteq> 0\<close> order_trans by blast
  qed
  show ?thesis
  proof (cases "gallop_left lt ?key (mv_tmp v) 0 (mv_nb v) (mv_nb v - 1)")
    case None
    then have "e = Fail" "v' = v" using r by (simp_all add: hi_gallop_b_def)
    then show ?thesis using left None hi_steps.ok_refl [OF i] by auto
  next
    case (Some k0)
    define k1 where "k1 = mv_nb v - k0"
    define w where "w = (if k1 \<noteq> 0 then hi_copy_b k1 v else v)"
    have le: "k0 \<le> mv_nb v" by (rule gallop_left_bounds [OF Some]) (use nb in simp)
    then have k0: "mv_nb v - k1 = k0" "k1 \<le> mv_nb v" by (simp_all add: k1_def)
    have "hi_ok lt f a h v (hi_copy_b k1 v)"
      by (rule hi_ok_copy_b [OF hi_steps.ok_refl [OF i] k0(2)]) (use left Some k0 nb in \<open>auto simp: k1_def\<close>)
    then have w: "hi_ok lt f a h v w" by (simp add: w_def hi_steps.ok_refl [OF i])
    have sz: "mv_nb w = k0" "mv_na w = mv_na v" using le by (auto simp: w_def k1_def)
    have views: "hi_B w = take k0 (hi_B v)" "hi_A a w = hi_A a v"
      using hi_copy_b_views [OF i k0(2)] k0 hi_views(2) [OF i] by (auto simp: w_def)
    have b: "hi_ok lt f a h v (hi_a w)"
      by (rule hi_ok_a [OF w]) (use left Some na sz views in auto)
    have "e = (if k1 \<noteq> 0 \<and> mv_nb w = 1 then CopyLast else if k1 \<noteq> 0 \<and> mv_nb w = 0 then Succeed
        else if mv_na (hi_a w) = 0 then Succeed else Leave)"
      "v' = (if k1 \<noteq> 0 \<and> mv_nb w = 1 then w else if k1 \<noteq> 0 \<and> mv_nb w = 0 then w else hi_a w)"
      using r Some by (auto simp: hi_gallop_b_def w_def k1_def Let_def split: if_splits)
    then show ?thesis using w b nb na sz le by (auto simp: k1_def)
  qed
qed

lemma hi_round_ok:
  assumes i: "hi_inv a h v" and n: "0 < mv_na v" "1 < mv_nb v" and r: "hi_round lt a v = (e, again, v')"
  shows "hi_exit lt f a h v e v'"
proof -
  obtain ea ka va where a: "hi_gallop_a lt a v = (ea, ka, va)" by (metis prod_cases3)
  obtain eb kb vb where g: "hi_gallop_b lt va = (eb, kb, vb)" by (metis prod_cases3)
  have A: "hi_exit lt f a h v ea va" by (rule hi_gallop_a_ok [OF i n a])
  show ?thesis
  proof (cases "ea = Leave")
    case True
    then have ok: "hi_ok lt f a h v va" "0 < mv_na va" "1 < mv_nb va" using A by simp_all
    have "e = eb" "v' = vb" using r n a g True by (simp_all add: hi_round_def)
    then show ?thesis using hi_steps.exit_trans [OF ok(1) hi_gallop_b_ok [OF hi_steps.ok_inv [OF ok(1)] ok(2,3) g]] by simp
  next
    case False
    then have "e = ea" "v' = va" using r n a by (cases ea; simp add: hi_round_def)+
    then show ?thesis using A by simp
  qed
qed

lemma hi_loop_step:
  "hi_count lt mg 0 0 v = (e, v1) \<Longrightarrow> e \<noteq> Leave \<Longrightarrow> hi_loop lt basea mg v = (e, mg, v1)"
  "hi_count lt mg 0 0 v = (Leave, v1) \<Longrightarrow> hi_gallop lt basea (mg + 1) v1 = (e, mg', v2) \<Longrightarrow>
     hi_loop lt basea mg v = (if e = Leave then hi_loop lt basea (mg' + 1) v2 else (e, mg', v2))"
  by (subst hi_loop.simps, cases e; simp)+

interpretation hi_looping: merge_looping "hi_moved a h" "hi_good lt f a h" "hi_all a h" f "hi_inv a h" "hi_round lt a" "hi_gallop lt a"
    "\<lambda>v. mv_na v + mv_nb v" "\<lambda>mg. hi_count lt mg 0 0" "hi_loop lt a" "\<lambda>v. mv_na v = 0 \<or> mv_nb v = 0"
    "\<lambda>v. mv_nb v = 1 \<and> 0 < mv_na v" "\<lambda>v. 0 < mv_na v \<and> 1 < mv_nb v"
  for a h lt f
  by unfold_locales
    (rule hi_loop_step(1), assumption, assumption, rule hi_loop_step(2), assumption, assumption,
     rule hi_counting.cnt_shrinks, assumption, rule hi_count_ok, assumption, assumption, assumption,
     rule hi_round_ok, assumption, blast, blast, assumption)

section \<open>The merge as a whole\<close>

lemma hi_flush_b_eq:
  assumes "hi_inv a h v"
  shows "hi_flush_b v = take a (mv_arr v) @ hi_A a v @ hi_B v @ hi_D h v @ drop h (mv_arr v)"
proof -
  note d = hi_invD [OF assms]
  have "hi_flush_b v = copy_elts (a + mv_na v) (hi_B v) (mv_arr v)"
    using d by (simp add: hi_flush_b_def hi_B_def copy_elts_def)
  also have "\<dots> = take a (mv_arr v) @ hi_A a v @ hi_B v @ drop (mv_dest v) (mv_arr v)"
    using copy_elts_pieces [of a "a + mv_na v" "hi_B v" "mv_dest v" "mv_arr v"] d hi_views(2) [OF assms]
    by (simp add: hi_A_def)
  also have "drop (mv_dest v) (mv_arr v) = hi_D h v @ drop h (mv_arr v)"
    using drop_slice_rest [of "mv_dest v" h "mv_arr v"] d by (simp add: hi_D_def)
  finally show ?thesis .
qed

lemma hi_copy_first_eq:
  assumes "hi_inv a h v" "mv_nb v = 1"
  shows "hi_copy_first v = take a (mv_arr v) @ hi_B v @ hi_A a v @ hi_D h v @ drop h (mv_arr v)"
proof -
  note d = hi_invD [OF assms(1)]
  let ?u = "copy_elts (a + 1) (hi_A a v) (mv_arr v)"
  have l: "a < length ?u" using d assms length_copy_elts [of "a + 1" "hi_A a v" "mv_arr v"] by simp
  have B: "[mv_tmp v ! (mv_pb v - 1)] = hi_B v"
    using d assms(2) by (cases "mv_tmp v") (simp_all add: hi_B_def)
  have "hi_copy_first v = ?u[a := mv_tmp v ! (mv_pb v - 1)]"
    using d assms(2) by (simp add: hi_copy_first_def hi_A_def)
  also have "\<dots> = copy_elts a (hi_B v) ?u" unfolding B [symmetric] using copy_one [OF l] by simp
  also have "\<dots> = copy_elts a (hi_B v @ hi_A a v) (mv_arr v)"
  proof -
    have "length (hi_B v) = 1" using assms by simp
    then show ?thesis using d assms by (simp add: copy_elts_def min_def)
  qed
  also have "\<dots> = take a (mv_arr v) @ slice a (a - a) (mv_arr v) @ (hi_B v @ hi_A a v) @ drop (mv_dest v) (mv_arr v)"
    by (rule copy_elts_pieces) (use d assms in auto)
  also have "drop (mv_dest v) (mv_arr v) = hi_D h v @ drop h (mv_arr v)"
    using drop_slice_rest [of "mv_dest v" h "mv_arr v"] d by (simp add: hi_D_def)
  finally show ?thesis by simp
qed

lemma hi_end_merges:
  assumes i: "hi_inv a h v0" and D: "hi_D h v0 = []" and AB: "hi_A a v0 @ hi_B v0 = slice a (h - a) (mv_arr v0)"
    and e: "hi_exit lt f a h v0 e v" "e \<noteq> Leave"
    and fin: "arr' = (if e = CopyLast then hi_copy_first v else hi_flush_b v)"
  shows "merges f a h (mv_arr v0) (if e = CopyLast then Succeed else e) arr' (hi_good lt f a h v0)"
proof -
  have ok: "hi_ok lt f a h v0 v" by (rule exit_ok_ok [OF e(1)])
  note j = hi_steps.ok_inv [OF ok]
  have mv: "take a (mv_arr v) = take a (mv_arr v0)" "drop h (mv_arr v) = drop h (mv_arr v0)"
    "mset (hi_A a v @ hi_B v @ hi_D h v) = mset (hi_A a v0 @ hi_B v0)"
    using ok D by (simp_all add: merge_ok_def hi_moved_def hi_all_def)
  have bounds: "a \<le> h" "h \<le> length (mv_arr v0)" using hi_invD [OF i] by simp_all
  have m: "merging_hi f (hi_A a v) (hi_B v) (hi_D h v)" and st: "stable_eq f (hi_A a v @ hi_B v @ hi_D h v) (hi_A a v0 @ hi_B v0)"
    if "hi_good lt f a h v0"
    using ok that D by (simp_all add: merge_ok_def hi_good_def hi_all_def)
  show ?thesis
  proof (cases "e = CopyLast")
    case True
    then have n: "mv_nb v = 1" using e(1) by simp
    then have B1: "hi_B v = [hd (hi_B v)]" using hi_nonempty(2) [OF j] hi_views(2) [OF j] by (cases "hi_B v") auto
    have "sorted (map f (hi_B v @ hi_A a v @ hi_D h v))" "stable_eq f (hi_B v @ hi_A a v @ hi_D h v) (hi_A a v0 @ hi_B v0)"
      if g: "hi_good lt f a h v0"
      using merging_hi_end_a [of f "hi_A a v" "hd (hi_B v)" "hi_D h v"] m [OF g] st [OF g] stable_eq_trans B1 by metis+
    moreover have "arr' = take a (mv_arr v0) @ (hi_B v @ hi_A a v @ hi_D h v) @ drop h (mv_arr v0)"
      using hi_copy_first_eq [OF j n] fin True mv(1,2) by simp
    moreover have "mset (hi_B v @ hi_A a v @ hi_D h v) = mset (hi_A a v0 @ hi_B v0)" using mv(3) by (simp add: ac_simps)
    ultimately show ?thesis using True unfolding AB
      by (intro mergesI [where R = "hi_B v @ hi_A a v @ hi_D h v", OF _ bounds]) auto
  next
    case False
    have s: "sorted (map f (hi_A a v @ hi_B v @ hi_D h v))" if g: "hi_good lt f a h v0" "e = Succeed"
    proof -
      have "hi_B v \<noteq> []" using m [OF g(1)] by (simp add: merging_hi_def)
      then have "mv_na v = 0" using e(1) g(2) hi_views(2) [OF j] by auto
      then show ?thesis using merging_hi_end_b m [OF g(1)] hi_views(1) [OF j] by simp
    qed
    have "e \<in> {Succeed, Fail}" "hi_good lt f a h v0 \<Longrightarrow> e = Succeed"
      using e False by (cases e; simp)+
    moreover have "arr' = take a (mv_arr v0) @ (hi_A a v @ hi_B v @ hi_D h v) @ drop h (mv_arr v0)"
      using hi_flush_b_eq [OF j] fin False mv(1,2) by simp
    ultimately show ?thesis using False s st mv(3) unfolding AB
      by (intro mergesI [where R = "hi_A a v @ hi_B v @ hi_D h v", OF _ bounds]) auto
  qed
qed

lemma hi_start_views:
  assumes "pa + na = pb" "pb + nb \<le> length arr"
  shows "hi_inv pa (pb + nb) (hi_start arr pa na pb nb)" "hi_A pa (hi_start arr pa na pb nb) = slice pa na arr"
    "hi_B (hi_start arr pa na pb nb) = slice pb nb arr" "hi_D (pb + nb) (hi_start arr pa na pb nb) = []"
  using assms by (simp_all add: hi_inv_def hi_D_def hi_A_def hi_B_def hi_start_def)

lemma hi_start_fields [simp]:
  "mv_na (hi_start arr pa na pb nb) = na" "mv_nb (hi_start arr pa na pb nb) = nb" "mv_arr (hi_start arr pa na pb nb) = arr"
  by (simp_all add: hi_start_def)

lemma hi_run_ok:
  assumes "hi_ok lt f a h v0 v" "0 < mv_nb v" "hi_run lt a mg v = (e, mg', v')"
  shows "hi_exit lt f a h v0 e v' \<and> e \<noteq> Leave"
proof -
  consider "mv_na v = 0" | "mv_na v \<noteq> 0" "mv_nb v = 1" | "0 < mv_na v \<and> 1 < mv_nb v" using assms(2) by linarith
  then show ?thesis
  proof cases
    case 3
    then have "hi_loop lt a mg v = (e, mg', v')" using assms(3) by (simp add: hi_run_def)
    from hi_looping.loop_ok [OF hi_steps.ok_inv [OF assms(1)] 3 this] show ?thesis
      using hi_steps.exit_trans [OF assms(1)] by blast
  qed (use assms in \<open>auto simp: hi_run_def\<close>)
qed

lemma merge_hi_eq:
  assumes "merge_getmem malloc nb ms = (got, ms1)" "0 < na" "0 < nb" "pa + na = pb"
    "hi_run lt pa (ms_min_gallop ms1) (hi_a (hi_start (ms_arr ms1) pa na pb nb)) = (e, mg, v)"
  shows "merge_hi malloc lt pa na pb nb ms =
     (if \<not> got then (Fail, ms1)
      else if e = CopyLast then
        (if mv_nb v = 1 \<and> 0 < mv_na v then (Succeed, ms1\<lparr>ms_min_gallop := mg, ms_arr := hi_copy_first v\<rparr>) else (Bad_assert, ms1))
      else (e, ms1\<lparr>ms_min_gallop := mg, ms_arr := hi_flush_b v\<rparr>))"
  using assms by (cases got; cases e) (simp_all add: merge_hi_def)

text \<open>The hypothesis on the two ends is what merge_at establishes for an order.\<close>

lemma merge_hi_merges:
  fixes ms :: "'e merge_state"
  defines "arr \<equiv> ms_arr ms"
  assumes n: "0 < na" "0 < nb" "pa + na = pb" "pb + nb \<le> length arr"
    and r: "merge_hi malloc lt pa na pb nb ms = (e, ms')"
    and ends: "orders lt f \<Longrightarrow> merging_hi f (slice pa na arr) (slice pb nb arr) [] \<Longrightarrow> f (arr ! (pb + nb - 1)) < f (arr ! (pb - 1))"
  shows "ms_pending ms' = ms_pending ms \<and> merges f pa (pb + nb) arr e (ms_arr ms')
    (orders lt f \<and> merging_hi f (slice pa na arr) (slice pb nb arr) [] \<and> fst (merge_getmem malloc nb ms))"
proof -
  obtain got ms1 where g: "merge_getmem malloc nb ms = (got, ms1)" by (metis surj_pair)
  note keep = merge_getmem_keeps [OF g, folded arr_def]
  let ?v0 = "hi_start arr pa na pb nb"
  note i = hi_start_views [OF n(3,4)]
  have good: "hi_good lt f pa (pb + nb) ?v0 \<longleftrightarrow> orders lt f \<and> merging_hi f (slice pa na arr) (slice pb nb arr) []"
    by (simp add: hi_good_def i)
  obtain ex mg v where run: "hi_run lt pa (ms_min_gallop ms1) (hi_a ?v0) = (ex, mg, v)" by (metis prod_cases3)
  have "hi_ok lt f pa (pb + nb) ?v0 (hi_a ?v0)"
  proof (rule hi_ok_a [OF hi_steps.ok_refl [OF i(1)]])
    assume "hi_good lt f pa (pb + nb) ?v0"
    then have "f (arr ! (pb + nb - 1)) < f (arr ! (pb - 1))" using ends good by blast
    then show "f (last (hi_B ?v0)) < f (last (hi_A pa ?v0))"
      unfolding i using n last_slice [of nb pb arr] last_slice [of na pa arr] by simp
  qed (use n in simp_all)
  from hi_run_ok [OF this _ run] have E: "hi_exit lt f pa (pb + nb) ?v0 ex v" "ex \<noteq> Leave" using n by simp_all
  have AB: "hi_A pa ?v0 @ hi_B ?v0 = slice pa (pb + nb - pa) (mv_arr ?v0)"
    unfolding i hi_start_fields using slice_add [where a = pa and m = na and n = nb and arr = arr] n(3) by auto
  note res = r [unfolded merge_hi_eq [OF g n(1-3) run [folded keep [THEN conjunct1]]]]
  show ?thesis
  proof (cases got)
    case False
    then show ?thesis using res keep g by (auto simp: merges_def)
  next
    case True
    then have fin: "e = (if ex = CopyLast then Succeed else ex)" "ms_pending ms' = ms_pending ms"
      "ms_arr ms' = (if ex = CopyLast then hi_copy_first v else hi_flush_b v)"
      using res E keep by (auto split: if_splits)
    show ?thesis
      using hi_end_merges [OF i(1,4) AB E fin(3)] fin(1,2) True unfolding good hi_start_fields g by simp
  qed
qed

end
