(* ===== verification/Py_Listsort.thy ===== *)
theory Py_Listsort
  imports Py_Merge_Lo Py_Merge_Hi
begin

text \<open>
  Objects/listobject.c of CPython: the stack of pending runs, and list.sort with
  its cmp, key and reverse arguments. The list is emptied while it is sorted,
  so the comparison cannot reach the array; whether it has put something into the
  list meanwhile is a parameter.
\<close>

section \<open>The stack of pending runs\<close>

definition MAX_MERGE_PENDING :: nat where
  "MAX_MERGE_PENDING = 85"

text \<open>The stack after runs i and i + 1 have become one; a run on top of them slides down.\<close>

definition merge_runs :: "nat \<Rightarrow> (nat \<times> nat) list \<Rightarrow> (nat \<times> nat) list" where
  "merge_runs i p =
     (let n = length p;
          p1 = p[i := (fst (p ! i), snd (p ! i) + snd (p ! (i + 1)))];
          p2 = (if i + 3 = n then p1[i + 1 := p1 ! (i + 2)] else p1)
      in take (n - 1) p2)"

definition merge_at :: "(nat \<Rightarrow> bool) \<Rightarrow> 'e less_than \<Rightarrow> nat \<Rightarrow> 'e merge_state \<Rightarrow> merge_exit \<times> 'e merge_state" where
  "merge_at malloc lt i ms =
     (let n = length (ms_pending ms)
      in if \<not> (2 \<le> n \<and> (i + 2 = n \<or> i + 3 = n)) then (Bad_assert, ms)
         else
           (let (pa, na) = ms_pending ms ! i; (pb, nb) = ms_pending ms ! (i + 1)
            in if \<not> (0 < na \<and> 0 < nb \<and> pa + na = pb) then (Bad_assert, ms)
               else
                 (let ms = ms\<lparr>ms_pending := merge_runs i (ms_pending ms)\<rparr>; arr = ms_arr ms
                  in (case gallop_right lt (arr ! pb) arr pa na 0 of
                        None \<Rightarrow> (Fail, ms)
                      | Some k \<Rightarrow>
                          (let pa = pa + k; na = na - k
                           in if na = 0 then (Succeed, ms)
                              else (case gallop_left lt (arr ! (pa + na - 1)) arr pb nb (nb - 1) of
                                      None \<Rightarrow> (Fail, ms)
                                    | Some nb \<Rightarrow>
                                        if nb = 0 then (Succeed, ms)
                                        else if na \<le> nb then merge_lo malloc lt pa na pb nb ms
                                        else merge_hi malloc lt pa na pb nb ms))))))"

definition run_len :: "'e merge_state \<Rightarrow> nat \<Rightarrow> nat" where
  "run_len ms i = snd (ms_pending ms ! i)"

text \<open>Which runs merge_collapse merges next, or None when it stops.\<close>

definition collapse_at :: "'e merge_state \<Rightarrow> nat option" where
  "collapse_at ms =
     (if length (ms_pending ms) \<le> 1 then None
      else
        (let n = length (ms_pending ms) - 2
         in if n > 0 \<and> run_len ms (n - 1) \<le> run_len ms n + run_len ms (n + 1)
            then (if run_len ms (n - 1) < run_len ms (n + 1) then Some (n - 1) else Some n)
            else if run_len ms n \<le> run_len ms (n + 1) then Some n
            else None))"

definition force_at :: "'e merge_state \<Rightarrow> nat option" where
  "force_at ms =
     (if length (ms_pending ms) \<le> 1 then None
      else
        (let n = length (ms_pending ms) - 2
         in if n > 0 \<and> run_len ms (n - 1) < run_len ms (n + 1) then Some (n - 1) else Some n))"

lemma length_merge_runs: "length (merge_runs i p) = length p - 1"
  by (simp add: merge_runs_def Let_def)

lemma merge_lo_pending: "ms_pending (snd (merge_lo malloc lt pa na pb nb ms)) = ms_pending ms"
proof (cases "0 < na \<and> 0 < nb \<and> pa + na = pb")
  case True
  obtain got ms1 where g: "merge_getmem malloc na ms = (got, ms1)" by (metis surj_pair)
  obtain e mg v where run: "lo_run lt (ms_min_gallop ms1) (lo_b (lo_start (ms_arr ms1) pa na pb nb)) = (e, mg, v)"
    by (metis prod_cases3)
  show ?thesis using merge_lo_eq [OF g _ _ _ run] True merge_getmem_keeps [OF g] by simp
qed (simp add: merge_lo_def)

lemma merge_hi_pending: "ms_pending (snd (merge_hi malloc lt pa na pb nb ms)) = ms_pending ms"
proof (cases "0 < na \<and> 0 < nb \<and> pa + na = pb")
  case True
  obtain got ms1 where g: "merge_getmem malloc nb ms = (got, ms1)" by (metis surj_pair)
  obtain e mg v where run: "hi_run lt pa (ms_min_gallop ms1) (hi_a (hi_start (ms_arr ms1) pa na pb nb)) = (e, mg, v)"
    by (metis prod_cases3)
  show ?thesis using merge_hi_eq [OF g _ _ _ run] True merge_getmem_keeps [OF g] by simp
qed (simp add: merge_hi_def)

lemma merge_at_pending:
  assumes "merge_at malloc lt i ms = (e, ms')" "e \<noteq> Bad_assert"
  shows "ms_pending ms' = merge_runs i (ms_pending ms)" "length (ms_pending ms') < length (ms_pending ms)"
proof -
  let ?ms = "ms\<lparr>ms_pending := merge_runs i (ms_pending ms)\<rparr>"
  have lo: "ms_pending s = merge_runs i (ms_pending ms)" if "merge_lo malloc lt pa na pb nb ?ms = (x, s)" for pa na pb nb x s
    using merge_lo_pending [of malloc lt pa na pb nb ?ms] that by simp
  have hi: "ms_pending s = merge_runs i (ms_pending ms)" if "merge_hi malloc lt pa na pb nb ?ms = (x, s)" for pa na pb nb x s
    using merge_hi_pending [of malloc lt pa na pb nb ?ms] that by simp
  have "2 \<le> length (ms_pending ms)" using assms by (auto simp: merge_at_def Let_def split: if_splits)
  moreover show "ms_pending ms' = merge_runs i (ms_pending ms)"
    using assms by (auto simp: merge_at_def Let_def split: if_splits prod.splits option.splits dest: lo hi)
  ultimately show "length (ms_pending ms') < length (ms_pending ms)" by (simp add: length_merge_runs)
qed

function merge_collapse :: "(nat \<Rightarrow> bool) \<Rightarrow> 'e less_than \<Rightarrow> 'e merge_state \<Rightarrow> merge_exit \<times> 'e merge_state" where
  "merge_collapse malloc lt ms =
     (case collapse_at ms of
        None \<Rightarrow> (Succeed, ms)
      | Some n \<Rightarrow>
          (case merge_at malloc lt n ms of
             (Succeed, ms) \<Rightarrow> merge_collapse malloc lt ms
           | (e, ms) \<Rightarrow> (e, ms)))"
  by pat_completeness auto
termination
  by (relation "measure (\<lambda>(malloc, lt, ms). length (ms_pending ms))") (auto dest!: merge_at_pending(2) [OF sym])

function merge_force_collapse :: "(nat \<Rightarrow> bool) \<Rightarrow> 'e less_than \<Rightarrow> 'e merge_state \<Rightarrow> merge_exit \<times> 'e merge_state" where
  "merge_force_collapse malloc lt ms =
     (case force_at ms of
        None \<Rightarrow> (Succeed, ms)
      | Some n \<Rightarrow>
          (case merge_at malloc lt n ms of
             (Succeed, ms) \<Rightarrow> merge_force_collapse malloc lt ms
           | (e, ms) \<Rightarrow> (e, ms)))"
  by pat_completeness auto
termination
  by (relation "measure (\<lambda>(malloc, lt, ms). length (ms_pending ms))") (auto dest!: merge_at_pending(2) [OF sym])

declare merge_collapse.simps [simp del] merge_force_collapse.simps [simp del]

section \<open>Merging two runs of the stack\<close>

text \<open>The runs on the stack follow one another, from a up to e.\<close>

fun stack_ok :: "nat \<Rightarrow> (nat \<times> nat) list \<Rightarrow> nat \<Rightarrow> bool" where
  "stack_ok a [] e \<longleftrightarrow> a = e"
| "stack_ok a ((b, n) # p) e \<longleftrightarrow> b = a \<and> 0 < n \<and> stack_ok (a + n) p e"

lemma stack_ok_append: "stack_ok a (p @ q) e \<longleftrightarrow> (\<exists>m. stack_ok a p m \<and> stack_ok m q e)"
  by (induction a p e rule: stack_ok.induct) auto

lemma stack_ok_le: "stack_ok a p e \<Longrightarrow> a \<le> e"
  by (induction a p e rule: stack_ok.induct) auto

lemma stack_ok_in: "stack_ok a p e \<Longrightarrow> (b, n) \<in> set p \<Longrightarrow> a \<le> b \<and> 0 < n \<and> b + n \<le> e"
proof (induction a p e rule: stack_ok.induct)
  case (2 a b' n' p e)
  then show ?case using stack_ok_le by fastforce
qed simp

lemma merge_runs_split:
  assumes "length r \<le> 1"
  shows "merge_runs (length q) (q @ (pa, na) # (pb, nb) # r) = q @ (pa, na + nb) # r"
  using assms by (cases r) (auto simp: merge_runs_def Let_def nth_append list_update_append)

text \<open>Where merge_at may work, and how the stack looks there.\<close>

lemma stack_split:
  assumes "i + 2 = length p \<or> i + 3 = length p"
  obtains q pa na pb nb r where "p = q @ (pa, na) # (pb, nb) # r" "i = length q" "length r \<le> 1"
proof -
  have "drop i p = p ! i # drop (i + 1) p" "drop (i + 1) p = p ! (i + 1) # drop (i + 2) p"
    using assms Cons_nth_drop_Suc [of i p] Cons_nth_drop_Suc [of "i + 1" p] by auto
  then have "p = take i p @ p ! i # p ! (i + 1) # drop (i + 2) p"
    by (metis append_take_drop_id)
  then show ?thesis
    using that [of "take i p" "fst (p ! i)" "snd (p ! i)" "fst (p ! (i + 1))" "snd (p ! (i + 1))" "drop (i + 2) p"] assms by auto
qed

lemma slice_three:
  assumes "lo' \<le> lo" "lo \<le> hi" "hi \<le> hi'"
  shows "slice lo' (hi' - lo') xs = slice lo' (lo - lo') xs @ slice lo (hi - lo) xs @ slice hi (hi' - hi) xs"
  using slice_add [where a = lo' and m = "lo - lo'" and n = "hi' - lo" and arr = xs]
    slice_add [where a = lo and m = "hi - lo" and n = "hi' - hi" and arr = xs] assms by simp

lemma in_slice_outside:
  assumes "in_slice lo hi arr arr'" "b + n \<le> lo \<or> hi \<le> b"
  shows "slice b n arr' = slice b n arr"
  using assms(2)
proof
  assume le: "b + n \<le> lo"
  have "take (b + n) (take lo arr') = take (b + n) (take lo arr)" using assms(1) by (simp add: in_slice_def)
  then have "take (b + n) arr' = take (b + n) arr" using le by (simp add: min_def)
  then show ?thesis by (metis drop_take add_diff_cancel_left')
next
  assume le: "hi \<le> b"
  have "drop (b - hi) (drop hi arr') = drop (b - hi) (drop hi arr)" using assms(1) by (simp add: in_slice_def)
  then show ?thesis using le by simp
qed

lemma merges_wider:
  assumes m: "merges f lo hi arr e arr' good'" and le: "lo' \<le> lo" "lo \<le> hi" "hi \<le> hi'"
    and good: "good \<Longrightarrow> good'"
    and sorted: "\<And>M. good \<Longrightarrow> mset M = mset (slice lo (hi - lo) arr) \<Longrightarrow> sorted (map f M) \<Longrightarrow>
      sorted (map f (slice lo' (lo - lo') arr @ M @ slice hi (hi' - hi) arr))"
  shows "merges f lo' hi' arr e arr' good"
proof -
  have s: "in_slice lo hi arr arr'" "e \<in> {Succeed, Fail}" using m by (simp_all add: merges_def)
  have parts: "slice lo' (hi' - lo') arr' = slice lo' (lo - lo') arr @ slice lo (hi - lo) arr' @ slice hi (hi' - hi) arr"
    unfolding slice_three [OF le] using in_slice_outside [OF s(1)] le by simp
  have "e = Succeed \<and> sorted (map f (slice lo' (hi' - lo') arr'))
      \<and> stable_eq f (slice lo' (hi' - lo') arr') (slice lo' (hi' - lo') arr)" if g: "good"
  proof -
    have r: "e = Succeed" "sorted (map f (slice lo (hi - lo) arr'))" "stable_eq f (slice lo (hi - lo) arr') (slice lo (hi - lo) arr)"
      using m good [OF g] by (simp_all add: merges_def)
    show ?thesis
      using sorted [OF g stable_eq_mset [OF r(3)] r(2)] stable_eq_context [OF r(3)] r(1)
      unfolding parts slice_three [OF le, of arr] by blast
  qed
  then show ?thesis using s in_slice_wider [OF s(1) le] by (simp add: merges_def)
qed

text \<open>
  merge_at leaves alone the front of A that goes before B, and the end of B that
  goes after A.
\<close>

lemma trimmed_merge:
  assumes "sorted (map f (A1 @ A2))" "sorted (map f (B1 @ B2))" "A2 \<noteq> []" "B1 \<noteq> []"
    and "\<forall>x \<in> set A1. f x \<le> f (hd B1)" "\<forall>x \<in> set A2. f (hd B1) < f x"
    and "\<forall>y \<in> set B1. f y < f (last A2)" "\<forall>y \<in> set B2. f (last A2) \<le> f y"
  shows "merging f [] A2 B1" "merging_hi f A2 B1 []"
    "mset M = mset (A2 @ B1) \<Longrightarrow> sorted (map f M) \<Longrightarrow> sorted (map f (A1 @ M @ B2))"
proof -
  show "merging f [] A2 B1" "merging_hi f A2 B1 []"
    using assms by (auto simp: merging_def merging_hi_def sorted_append)
  assume M: "mset M = mset (A2 @ B1)" "sorted (map f M)"
  have set: "set M = set A2 \<union> set B1" using mset_eq_setD [OF M(1)] by simp
  have lo: "f (hd B1) \<le> f x" if "x \<in> set M" for x
    using that assms(2,6) sorted_hd_le [of f B1 x] unfolding set by (auto simp: sorted_append intro: less_imp_le)
  have hi: "f x \<le> f (last A2)" if "x \<in> set M" for x
    using that assms(1,7) sorted_last_ge [of f A2 x] unfolding set by (auto simp: sorted_append intro: less_imp_le)
  have AM: "f x \<le> f y" if "x \<in> set A1" "y \<in> set M" for x y using that assms(5) lo order_trans by blast
  have MB: "f x \<le> f y" if "x \<in> set M" "y \<in> set B2" for x y using that assms(8) hi order_trans by blast
  have "f x \<le> f y" if "x \<in> set A1" "y \<in> set B2" for x y
    using AM [OF that(1)] MB [OF _ that(2)] assms(4) set by (metis UnI2 hd_in_set order_trans)
  then show "sorted (map f (A1 @ M @ B2))" using AM MB M(2) assms(1,2) by (auto simp: sorted_append)
qed

text \<open>There is memory for temporary arrays of up to n slots.\<close>

definition memory_for :: "(nat \<Rightarrow> bool) \<Rightarrow> nat \<Rightarrow> bool" where
  "memory_for malloc n \<longleftrightarrow> (\<forall>k \<le> n. malloc k) \<and> n \<le> (2 ^ 63 - 1) div 8"

lemma memory_getmem: "memory_for malloc n \<Longrightarrow> k \<le> n \<Longrightarrow> fst (merge_getmem malloc k ms)"
  by (auto simp: memory_for_def merge_getmem_def merge_freemem_def Let_def)

text \<open>What the two gallops of merge_at find, for an order.\<close>

lemma merge_at_gallops:
  assumes o: "orders lt f" and A: "sorted (map f (slice pa na arr))" and B: "sorted (map f (slice pb nb arr))"
    and n: "0 < na" "0 < nb" "pa + na = pb" "pb + nb \<le> length arr"
  shows "\<exists>k \<le> na. gallop_right lt (arr ! pb) arr pa na 0 = Some k \<and> (k < na \<longrightarrow>
    (\<exists>m. 0 < m \<and> m \<le> nb \<and> gallop_left lt (arr ! (pb - 1)) arr pb nb (nb - 1) = Some m
      \<and> (\<forall>x \<in> set (slice pa k arr). f x \<le> f (arr ! pb)) \<and> (\<forall>x \<in> set (slice (pa + k) (na - k) arr). f (arr ! pb) < f x)
      \<and> (\<forall>y \<in> set (slice pb m arr). f y < f (arr ! (pb - 1))) \<and> (\<forall>y \<in> set (slice (pb + m) (nb - m) arr). f (arr ! (pb - 1)) \<le> f y)))
    \<and> (k = na \<longrightarrow> (\<forall>x \<in> set (slice pa na arr). f x \<le> f (arr ! pb)))"
proof -
  obtain k where k: "k \<le> na" "gallop_right lt (arr ! pb) arr pa na 0 = Some k"
      "\<forall>x \<in> set (slice pa k arr). f x \<le> f (arr ! pb)" "\<forall>x \<in> set (slice (pa + k) (na - k) arr). f (arr ! pb) < f x"
    using gallop_right_correct [OF o A, of 0 "arr ! pb"] n by auto
  obtain m where m: "m \<le> nb" "gallop_left lt (arr ! (pb - 1)) arr pb nb (nb - 1) = Some m"
      "\<forall>y \<in> set (slice pb m arr). f y < f (arr ! (pb - 1))" "\<forall>y \<in> set (slice (pb + m) (nb - m) arr). f (arr ! (pb - 1)) \<le> f y"
    using gallop_left_correct [OF o B, of "nb - 1" "arr ! (pb - 1)"] n by auto
  have "0 < m" if "k < na"
  proof (rule ccontr)
    assume "\<not> 0 < m"
    then have "m = 0" by simp
    have "arr ! pb \<in> set (slice pb nb arr)"
      using n by (auto simp: in_set_conv_nth intro: exI [of _ 0])
    then have "f (arr ! (pb - 1)) \<le> f (arr ! pb)" using m(4) \<open>m = 0\<close> by simp
    moreover have "arr ! (pb - 1) \<in> set (slice (pa + k) (na - k) arr)"
    proof -
      have "slice (pa + k) (na - k) arr ! (na - k - 1) = arr ! (pb - 1)" "na - k - 1 < length (slice (pa + k) (na - k) arr)"
        using that n by simp_all
      then show ?thesis by (metis nth_mem)
    qed
    ultimately show False using k(4) by (auto dest: leD)
  qed
  then show ?thesis using k m by blast
qed

text \<open>So what is left to merge meets what merge_lo and merge_hi require.\<close>

lemma merge_at_trim:
  assumes o: "orders lt f" and A: "sorted (map f (slice pa na arr))" and B: "sorted (map f (slice pb nb arr))"
    and n: "0 < na" "0 < nb" "pa + na = pb" "pb + nb \<le> length arr"
    and k: "gallop_right lt (arr ! pb) arr pa na 0 = Some k" "k < na"
    and m: "gallop_left lt (arr ! (pb - 1)) arr pb nb (nb - 1) = Some m" "0 < m" "m \<le> nb"
  defines "A2 \<equiv> slice (pa + k) (na - k) arr" and "B1 \<equiv> slice pb m arr"
  shows "merging f [] A2 B1" "merging_hi f A2 B1 []" "f (arr ! pb) < f (arr ! (pa + k))" "f (arr ! (pb + m - 1)) < f (arr ! (pb - 1))"
    "mset M = mset (A2 @ B1) \<Longrightarrow> sorted (map f M) \<Longrightarrow>
      sorted (map f (slice pa k arr @ M @ slice (pb + m) (nb - m) arr))"
proof -
  let ?A1 = "slice pa k arr" and ?B2 = "slice (pb + m) (nb - m) arr"
  have g: "\<forall>x \<in> set ?A1. f x \<le> f (arr ! pb)" "\<forall>x \<in> set A2. f (arr ! pb) < f x"
      "\<forall>y \<in> set B1. f y < f (arr ! (pb - 1))" "\<forall>y \<in> set ?B2. f (arr ! (pb - 1)) \<le> f y"
    using merge_at_gallops [OF o A B n] k m(1) by (auto simp: A2_def B1_def)
  have split: "slice pa na arr = ?A1 @ A2" "slice pb nb arr = B1 @ ?B2"
    using slice_add [where a = pa and m = k and n = "na - k" and arr = arr] k(2)
      slice_add [where a = pb and m = m and n = "nb - m" and arr = arr] m(3) by (simp_all add: A2_def B1_def)
  have ne: "A2 \<noteq> []" "B1 \<noteq> []" using k(2) m(2) n by (simp_all add: A2_def B1_def)
  have ends: "hd B1 = arr ! pb" "last A2 = arr ! (pb - 1)" "hd A2 = arr ! (pa + k)" "last B1 = arr ! (pb + m - 1)"
    using k(2) m(2,3) n last_slice [of "na - k" "pa + k" arr] last_slice [of m pb arr]
    by (simp_all add: A2_def B1_def hd_drop_conv_nth)
  note t = trimmed_merge [OF A [unfolded split] B [unfolded split] ne, unfolded ends, OF g]
  show "merging f [] A2 B1" "merging_hi f A2 B1 []" by (fact t(1), fact t(2))
  show "f (arr ! pb) < f (arr ! (pa + k))" using g(2) ne(1) ends(3) by (metis hd_in_set)
  show "f (arr ! (pb + m - 1)) < f (arr ! (pb - 1))" using g(3) ne(2) ends(4) by (metis last_in_set)
  show "mset M = mset (A2 @ B1) \<Longrightarrow> sorted (map f M) \<Longrightarrow> sorted (map f (?A1 @ M @ ?B2))" by (fact t(3))
qed

lemma merges_not_good: "merges f0 lo hi arr e arr' g \<Longrightarrow> \<not> good \<Longrightarrow> merges f lo hi arr e arr' good"
  by (simp add: merges_def)

lemma no_merging_const: "B \<noteq> [] \<Longrightarrow> \<not> merging (\<lambda>_. 0 :: nat) D A B" "A \<noteq> [] \<Longrightarrow> \<not> merging_hi (\<lambda>_. 0 :: nat) A B D"
  by (auto simp: merging_def merging_hi_def)

text \<open>The two merges, with what merge_at knows of the rest of the runs for an order.\<close>

lemma merge_rest:
  fixes ms :: "'e merge_state"
  defines "arr \<equiv> ms_arr ms"
  assumes n: "0 < na" "0 < nb" "pa + na = pb" "pb + nb \<le> length arr"
    and r: "(if na \<le> nb then merge_lo malloc lt pa na pb nb ms else merge_hi malloc lt pa na pb nb ms) = (e, ms')"
    and good: "good \<Longrightarrow> orders lt f \<and> memory_for malloc (length arr)"
      "good \<Longrightarrow> merging f [] (slice pa na arr) (slice pb nb arr) \<and> merging_hi f (slice pa na arr) (slice pb nb arr) []"
      "good \<Longrightarrow> f (arr ! pb) < f (arr ! pa)" "good \<Longrightarrow> f (arr ! (pb + nb - 1)) < f (arr ! (pb - 1))"
  shows "ms_pending ms' = ms_pending ms \<and> merges f pa (pb + nb) arr e (ms_arr ms') good"
proof (cases "na \<le> nb")
  case True
  then have r: "merge_lo malloc lt pa na pb nb ms = (e, ms')" using r by simp
  show ?thesis
  proof (cases good)
    case True
    then show ?thesis
      using merge_lo_merges [OF n [unfolded arr_def] r, of f] good memory_getmem [of malloc "length arr" na ms] n
      unfolding arr_def by (auto simp: merges_def)
  next
    case False
    have "slice pb nb arr \<noteq> []" using n by auto
    then show ?thesis
      using merge_lo_merges [OF n [unfolded arr_def] r, of "\<lambda>_. 0 :: nat"] no_merging_const(1) merges_not_good [OF _ False]
      unfolding arr_def by blast
  qed
next
  case False
  then have r: "merge_hi malloc lt pa na pb nb ms = (e, ms')" using r by simp
  show ?thesis
  proof (cases good)
    case True
    then show ?thesis
      using merge_hi_merges [OF n [unfolded arr_def] r, of f] good memory_getmem [of malloc "length arr" nb ms] n
      unfolding arr_def by (auto simp: merges_def)
  next
    case False
    have "slice pa na arr \<noteq> []" using n by auto
    then show ?thesis
      using merge_hi_merges [OF n [unfolded arr_def] r, of "\<lambda>_. 0 :: nat"] no_merging_const(2) merges_not_good [OF _ False]
      unfolding arr_def by blast
  qed
qed

text \<open>What merge_at does when its assertions hold.\<close>

lemma merge_at_eq:
  fixes ms :: "'e merge_state"
  defines "arr \<equiv> ms_arr ms"
  assumes p: "ms_pending ms = q @ (pa, na) # (pb, nb) # r" "length r \<le> 1"
    and n: "0 < na" "0 < nb" "pa + na = pb"
  defines "ms1 \<equiv> ms\<lparr>ms_pending := q @ (pa, na + nb) # r\<rparr>"
  shows "merge_at malloc lt (length q) ms =
     (case gallop_right lt (arr ! pb) arr pa na 0 of
        None \<Rightarrow> (Fail, ms1)
      | Some k \<Rightarrow>
          if na - k = 0 then (Succeed, ms1)
          else (case gallop_left lt (arr ! (pa + k + (na - k) - 1)) arr pb nb (nb - 1) of
                  None \<Rightarrow> (Fail, ms1)
                | Some m \<Rightarrow>
                    if m = 0 then (Succeed, ms1)
                    else if na - k \<le> m then merge_lo malloc lt (pa + k) (na - k) pb m ms1
                    else merge_hi malloc lt (pa + k) (na - k) pb m ms1))"
proof -
  have at: "ms_pending ms ! length q = (pa, na)" "ms_pending ms ! (length q + 1) = (pb, nb)"
    "length (ms_pending ms) = length q + 2 + length r"
    using p(1) by (simp_all add: nth_append)
  have ua: "ms_arr (ms\<lparr>ms_pending := x\<rparr>) = ms_arr ms" for x by simp
  have mr: "merge_runs (length q) (ms_pending ms) = q @ (pa, na + nb) # r"
    unfolding p(1) by (rule merge_runs_split [OF p(2)])
  have guard: "2 \<le> length (ms_pending ms) \<and> (length q + 2 = length (ms_pending ms) \<or> length q + 3 = length (ms_pending ms))"
    using at(3) p(2) by linarith
  show ?thesis
    unfolding merge_at_def Let_def
    by (simp only: guard at(1,2) n mr ua prod.case simp_thms not_True_eq_False if_False if_True ms1_def arr_def cong: option.case_cong)
qed

lemma merge_at_merges:
  fixes ms :: "'e merge_state"
  defines "arr \<equiv> ms_arr ms"
  assumes p: "ms_pending ms = q @ (pa, na) # (pb, nb) # r" "length r \<le> 1"
    and n: "0 < na" "0 < nb" "pa + na = pb" "pb + nb \<le> length arr"
    and r: "merge_at malloc lt (length q) ms = (e, ms')"
  shows "ms_pending ms' = q @ (pa, na + nb) # r
    \<and> merges f pa (pb + nb) arr e (ms_arr ms')
        (orders lt f \<and> sorted (map f (slice pa na arr)) \<and> sorted (map f (slice pb nb arr)) \<and> memory_for malloc (length arr))"
proof -
  define good where "good \<longleftrightarrow> orders lt f \<and> sorted (map f (slice pa na arr)) \<and> sorted (map f (slice pb nb arr)) \<and> memory_for malloc (length arr)"
  define ms1 where "ms1 = ms\<lparr>ms_pending := q @ (pa, na + nb) # r\<rparr>"
  have ms1: "ms_arr ms1 = arr" "ms_pending ms1 = q @ (pa, na + nb) # r" by (simp_all add: ms1_def arr_def)
  note st = merge_at_eq [OF p n(1-3), where malloc = malloc and lt = lt, folded arr_def ms1_def]
  note gal = merge_at_gallops [where lt = lt and f = f and pa = pa and na = na and arr = arr and pb = pb and nb = nb]
  have same: "merges f pa (pb + nb) arr x arr good"
    if "x \<in> {Succeed, Fail}" "good \<Longrightarrow> x = Succeed \<and> sorted (map f (slice pa (pb + nb - pa) arr))" for x
    using that by (simp add: merges_def)
  have "ms_pending ms' = q @ (pa, na + nb) # r \<and> merges f pa (pb + nb) arr e (ms_arr ms') good"
  proof (cases "gallop_right lt (arr ! pb) arr pa na 0")
    case None
    then have "\<not> good" using gal n by (auto simp: good_def)
    then show ?thesis using r [unfolded st] None same ms1 by auto
  next
    case (Some k)
    note k = gallop_right_bounds [OF Some n(1)]
    show ?thesis
    proof (cases "na - k = 0")
      case True
      have "sorted (map f (slice pa (pb + nb - pa) arr))" if g: good
      proof -
        have B: "sorted (map f (slice pb nb arr))" "arr ! pb = hd (slice pb nb arr)"
          using g n by (simp_all add: good_def hd_drop_conv_nth)
        have "\<forall>x \<in> set (slice pa na arr). f x \<le> f (arr ! pb)" using gal g n Some True k by (auto simp: good_def)
        then have "f x \<le> f y" if "x \<in> set (slice pa na arr)" "y \<in> set (slice pb nb arr)" for x y
          using sorted_hd_le [OF B(1) that(2)] that(1) B(2) order_trans by metis
        then have "sorted (map f (slice pa na arr @ slice pb nb arr))" using g by (auto simp: good_def sorted_append)
        then show ?thesis using slice_add [where a = pa and m = na and n = nb and arr = arr] n(3) by auto
      qed
      then show ?thesis using r [unfolded st] Some True same ms1 by auto
    next
      case False
      have last: "arr ! (pa + k + (na - k) - 1) = arr ! (pb - 1)" using k n by simp
      note st1 = r [unfolded st last Some option.case if_not_P [OF False]]
      show ?thesis
      proof (cases "gallop_left lt (arr ! (pb - 1)) arr pb nb (nb - 1)")
        case None
        then have "\<not> good" using gal n Some False by (auto simp: good_def)
        then show ?thesis using st1 None same ms1 by auto
      next
        case m: (Some m)
        have m_le: "m \<le> nb" by (rule gallop_left_bounds [OF m]) (use n in simp)
        let ?A = "slice (pa + k) (na - k) arr" and ?B = "slice pb m arr"
        show ?thesis
        proof (cases "m = 0")
          case True
          then have "\<not> good" using gal n Some False m by (auto simp: good_def)
          then show ?thesis using st1 m True same ms1 by auto
        next
          case m0: False
          have s: "0 < na - k" "0 < m" "pa + k + (na - k) = pb" "pb + m \<le> length (ms_arr ms1)"
            using False m0 n k m_le ms1(1) by simp_all
          have "(if na - k \<le> m then merge_lo malloc lt (pa + k) (na - k) pb m ms1
              else merge_hi malloc lt (pa + k) (na - k) pb m ms1) = (e, ms')"
            using st1 m m0 by simp
          note rest = merge_rest [OF s this, where f = f, unfolded ms1(1)]
          note trim = merge_at_trim [OF _ _ _ n Some _ m s(2) m_le, of f]
          have M: "ms_pending ms' = ms_pending ms1" "merges f (pa + k) (pb + m) arr e (ms_arr ms') good"
            using rest [of good] trim(1-4) s(1) by (auto simp: good_def)
          have "merges f pa (pb + nb) arr e (ms_arr ms') good"
          proof (rule merges_wider [OF M(2)])
            fix M assume g: good and M: "mset M = mset (slice (pa + k) (pb + m - (pa + k)) arr)" "sorted (map f M)"
            have "slice (pa + k) (pb + m - (pa + k)) arr = ?A @ ?B"
              using slice_add [where a = "pa + k" and m = "na - k" and n = m and arr = arr] s(3) k n(3) by auto
            then have "sorted (map f (slice pa k arr @ M @ slice (pb + m) (nb - m) arr))"
              using trim(5) [of M] g M s(1) by (simp add: good_def)
            then show "sorted (map f (slice pa (pa + k - pa) arr @ M @ slice (pb + m) (pb + nb - (pb + m)) arr))" by simp
          qed (use s k n m_le in auto)
          then show ?thesis using M(1) ms1(2) by simp
        qed
      qed
    qed
  qed
  then show ?thesis by (simp only: good_def)
qed

section \<open>The sort keeps a stack of sorted runs\<close>

text \<open>
  arr0 is the array at the start and e the end of what is on the stack; good tells
  that the comparison is an order and that there is memory.
\<close>

definition sorting :: "('e \<Rightarrow> 'k :: linorder) \<Rightarrow> bool \<Rightarrow> 'e list \<Rightarrow> nat \<Rightarrow> 'e merge_state \<Rightarrow> bool" where
  "sorting f good arr0 e ms \<longleftrightarrow> length (ms_arr ms) = length arr0 \<and> mset (ms_arr ms) = mset arr0
     \<and> stack_ok 0 (ms_pending ms) e \<and> e \<le> length arr0
     \<and> (good \<longrightarrow> stable_eq f (ms_arr ms) arr0 \<and> (\<forall>(b, n) \<in> set (ms_pending ms). sorted (map f (slice b n (ms_arr ms)))))"

lemma stable_slice:
  assumes "in_slice lo hi arr arr'" "lo \<le> hi" "stable_eq f (slice lo (hi - lo) arr') (slice lo (hi - lo) arr)"
  shows "stable_eq f arr' arr"
proof -
  have "arr' = take lo arr @ slice lo (hi - lo) arr' @ drop hi arr"
    using split_slice [OF assms(2), of arr'] assms(1) by (simp add: in_slice_def)
  then show ?thesis using stable_eq_context [OF assms(3), of "take lo arr" "drop hi arr"] split_slice [OF assms(2), of arr] by metis
qed

lemma merge_at_step:
  assumes s: "sorting f good arr0 e ms" and i: "i + 2 = length (ms_pending ms) \<or> i + 3 = length (ms_pending ms)"
    and good: "good \<Longrightarrow> orders lt f \<and> memory_for malloc (length arr0)"
    and r: "merge_at malloc lt i ms = (x, ms')"
  shows "x \<in> {Succeed, Fail} \<and> (good \<longrightarrow> x = Succeed) \<and> sorting f good arr0 e ms'"
proof -
  obtain q pa na pb nb r where p: "ms_pending ms = q @ (pa, na) # (pb, nb) # r" and iq: "i = length q" and lr: "length r \<le> 1"
    using stack_split [OF i] .
  let ?arr = "ms_arr ms" and ?arr' = "ms_arr ms'"
  have len: "length ?arr = length arr0" "e \<le> length arr0" and ok: "stack_ok 0 (q @ (pa, na) # (pb, nb) # r) e"
    using s p by (simp_all add: sorting_def)
  then have n: "0 < na" "0 < nb" "pa + na = pb" "stack_ok 0 q pa" "stack_ok (pb + nb) r e" by (auto simp: stack_ok_append)
  have le: "pb + nb \<le> length ?arr" using stack_ok_le [OF n(5)] len by simp
  define good' where "good' \<longleftrightarrow> orders lt f \<and> sorted (map f (slice pa na ?arr)) \<and> sorted (map f (slice pb nb ?arr)) \<and> memory_for malloc (length ?arr)"
  have m: "ms_pending ms' = q @ (pa, na + nb) # r" "merges f pa (pb + nb) ?arr x ?arr' good'"
    using merge_at_merges [OF p lr n(1-3) le r [unfolded iq], of f] by (simp_all add: good'_def)
  have ins: "in_slice pa (pb + nb) ?arr ?arr'" "x \<in> {Succeed, Fail}" using m(2) by (simp_all add: merges_def)
  have fine: "x = Succeed \<and> stable_eq f ?arr' arr0 \<and> (\<forall>(b, n) \<in> set (ms_pending ms'). sorted (map f (slice b n ?arr')))" if g: good
  proof -
    have old: "\<forall>(b, n) \<in> set (ms_pending ms). sorted (map f (slice b n ?arr))" "stable_eq f ?arr arr0"
      using s g by (simp_all add: sorting_def)
    then have good' using good [OF g] p len by (simp add: good'_def)
    then have new: "x = Succeed" "sorted (map f (slice pa (na + nb) ?arr'))" "stable_eq f ?arr' ?arr"
      using m(2) stable_slice [OF ins(1)] n(3) by (auto simp: merges_def)
    have "sorted (map f (slice b n ?arr'))" if bn: "(b, n) \<in> set q \<union> set r" for b n
    proof -
      have "b + n \<le> pa \<or> pb + nb \<le> b" using bn stack_ok_in [OF \<open>stack_ok 0 q pa\<close>] stack_ok_in [OF \<open>stack_ok (pb + nb) r e\<close>] by blast
      then have "slice b n ?arr' = slice b n ?arr" by (rule in_slice_outside [OF ins(1)])
      moreover have "(b, n) \<in> set (ms_pending ms)" using bn p by auto
      ultimately show ?thesis using old(1) by auto
    qed
    then show ?thesis using new stable_eq_trans [OF new(3) old(2)] m(1) by auto
  qed
  have "stack_ok 0 (ms_pending ms') e"
    using n unfolding m(1) stack_ok_append by (auto simp: add.assoc)
  moreover have "mset ?arr' = mset arr0" "length ?arr' = length arr0"
    using in_slice_mset [OF ins(1)] s n(3) ins(1) by (simp_all add: sorting_def in_slice_def)
  ultimately show ?thesis using fine ins(2) len(2) by (simp add: sorting_def)
qed

lemma collapse_at_range: "collapse_at ms = Some i \<Longrightarrow> i + 2 = length (ms_pending ms) \<or> i + 3 = length (ms_pending ms)"
  by (auto simp: collapse_at_def Let_def split: if_splits)

lemma force_at_range: "force_at ms = Some i \<Longrightarrow> i + 2 = length (ms_pending ms) \<or> i + 3 = length (ms_pending ms)"
  by (auto simp: force_at_def Let_def split: if_splits)

lemma merge_collapse_step:
  "collapse_at ms = None \<Longrightarrow> merge_collapse malloc lt ms = (Succeed, ms)"
  "collapse_at ms = Some i \<Longrightarrow> merge_at malloc lt i ms = (x, ms1) \<Longrightarrow>
     merge_collapse malloc lt ms = (if x = Succeed then merge_collapse malloc lt ms1 else (x, ms1))"
  by (subst merge_collapse.simps, simp split: merge_exit.split)+

lemma merge_force_collapse_step:
  "force_at ms = None \<Longrightarrow> merge_force_collapse malloc lt ms = (Succeed, ms)"
  "force_at ms = Some i \<Longrightarrow> merge_at malloc lt i ms = (x, ms1) \<Longrightarrow>
     merge_force_collapse malloc lt ms = (if x = Succeed then merge_force_collapse malloc lt ms1 else (x, ms1))"
  by (subst merge_force_collapse.simps, simp split: merge_exit.split)+

lemma merge_collapse_sorting:
  assumes "sorting f good arr0 e ms" "good \<Longrightarrow> orders lt f \<and> memory_for malloc (length arr0)" "merge_collapse malloc lt ms = (x, ms')"
  shows "x \<in> {Succeed, Fail} \<and> (good \<longrightarrow> x = Succeed) \<and> sorting f good arr0 e ms'"
  using assms
proof (induction "length (ms_pending ms)" arbitrary: ms rule: less_induct)
  case less
  show ?case
  proof (cases "collapse_at ms")
    case None
    then show ?thesis using less(2,4) merge_collapse_step(1) [OF None] by simp
  next
    case (Some i)
    obtain y ms1 where m: "merge_at malloc lt i ms = (y, ms1)" by (metis surj_pair)
    note st = merge_at_step [OF less(2) collapse_at_range [OF Some] less(3) m]
    show ?thesis
    proof (cases "y = Succeed")
      case True
      then have "length (ms_pending ms1) < length (ms_pending ms)" using merge_at_pending(2) [OF m] by simp
      then show ?thesis using less(1) [of ms1] less(3,4) st merge_collapse_step(2) [OF Some m] True by simp
    qed (use st merge_collapse_step(2) [OF Some m] less(4) in auto)
  qed
qed

lemma merge_force_collapse_sorting:
  assumes "sorting f good arr0 e ms" "good \<Longrightarrow> orders lt f \<and> memory_for malloc (length arr0)" "merge_force_collapse malloc lt ms = (x, ms')"
  shows "x \<in> {Succeed, Fail} \<and> (good \<longrightarrow> x = Succeed) \<and> sorting f good arr0 e ms' \<and> (x = Succeed \<longrightarrow> length (ms_pending ms') \<le> 1)"
  using assms
proof (induction "length (ms_pending ms)" arbitrary: ms rule: less_induct)
  case less
  show ?case
  proof (cases "force_at ms")
    case None
    then have "length (ms_pending ms) \<le> 1" by (auto simp: force_at_def Let_def split: if_splits)
    then show ?thesis using less(2,4) merge_force_collapse_step(1) [OF None] by simp
  next
    case (Some i)
    obtain y ms1 where m: "merge_at malloc lt i ms = (y, ms1)" by (metis surj_pair)
    note st = merge_at_step [OF less(2) force_at_range [OF Some] less(3) m]
    show ?thesis
    proof (cases "y = Succeed")
      case True
      then have "length (ms_pending ms1) < length (ms_pending ms)" using merge_at_pending(2) [OF m] by simp
      then show ?thesis using less(1) [of ms1] less(3,4) st merge_force_collapse_step(2) [OF Some m] True by simp
    qed (use st merge_force_collapse_step(2) [OF Some m] less(4) in auto)
  qed
qed

section \<open>The smallest length of a run\<close>

text \<open>r becomes 1 if any 1 bits are shifted off.\<close>

function minrun_loop :: "nat \<Rightarrow> nat \<Rightarrow> nat" where
  "minrun_loop r n = (if n \<ge> 64 then minrun_loop (or r (and n 1)) (drop_bit 1 n) else n + r)"
  by pat_completeness auto
termination by (relation "measure snd") (auto simp: drop_bit_Suc)

declare minrun_loop.simps [simp del]

definition merge_compute_minrun :: "nat \<Rightarrow> nat" where
  "merge_compute_minrun n = minrun_loop 0 n"

lemma minrun_bit: "r \<le> 1 \<Longrightarrow> or r (and n 1) = (if r = 1 \<or> odd n then 1 else (0 :: nat))"
  by (cases "r = 0") (auto simp: and_one_eq mod2_eq_if le_Suc_eq or_nat_rec [of 1])

text \<open>m is the number of elements at the start; r tells whether any bits of m have been lost.\<close>

lemma minrun_loop_correct:
  "32 \<le> n \<Longrightarrow> r \<le> 1 \<Longrightarrow> m = n * 2 ^ j + s \<Longrightarrow> s < 2 ^ j \<Longrightarrow> (r = 0 \<longleftrightarrow> s = 0) \<Longrightarrow>
     \<exists>j'. 32 \<le> minrun_loop r n \<and> minrun_loop r n \<le> 64 \<and> m \<le> minrun_loop r n * 2 ^ j' \<and> (minrun_loop r n - 1) * 2 ^ j' < m"
proof (induction r n arbitrary: j s rule: minrun_loop.induct)
  case (1 r n)
  show ?case
  proof (cases "n \<ge> 64")
    case True
    let ?r = "or r (and n 1)" and ?s = "s + n mod 2 * 2 ^ j"
    have step: "minrun_loop r n = minrun_loop ?r (drop_bit 1 n)" using True by (subst minrun_loop.simps) simp
    have big: "32 \<le> drop_bit 1 n" using True by (simp add: drop_bit_Suc)
    have m: "m = drop_bit 1 n * 2 ^ Suc j + ?s"
    proof -
      have "(2 * q + p) * 2 ^ j = q * 2 ^ Suc j + p * 2 ^ j" for q p :: nat by (simp add: algebra_simps)
      from this [of "n div 2" "n mod 2"] show ?thesis using "1.prems"(3) by (simp add: drop_bit_Suc)
    qed
    have s: "?s < 2 ^ Suc j" using "1.prems"(4) by (cases "even n") (auto simp: mod2_eq_if)
    have r: "?r \<le> 1" "?r = 0 \<longleftrightarrow> ?s = 0"
      unfolding minrun_bit [OF "1.prems"(2)] using "1.prems"(2,5) by (auto simp: mod2_eq_if)
    show ?thesis unfolding step using "1.IH" [OF True big r(1) m s r(2)] by blast
  next
    case False
    have "(n + r - 1) * 2 ^ j < m"
    proof (cases "r = 0")
      case True
      have "(n - 1) * 2 ^ j < n * 2 ^ j" using "1.prems"(1) by simp
      then have "(n - 1) * 2 ^ j < n * 2 ^ j + s" by (rule trans_less_add1)
      then show ?thesis using True "1.prems"(3) by simp
    next
      case r: False
      then have "r = 1" "0 < s" using "1.prems"(2,5) by auto
      then show ?thesis using "1.prems"(3) by simp
    qed
    moreover have "m \<le> (n + r) * 2 ^ j" using "1.prems"(2-5) by (cases "r = 0") (auto simp: le_Suc_eq algebra_simps)
    ultimately show ?thesis using False "1.prems"(1,2) by (subst (1 2 3 4) minrun_loop.simps) auto
  qed
qed

lemma merge_compute_minrun_bounds: "64 \<le> n \<Longrightarrow> 32 \<le> merge_compute_minrun n"
  using minrun_loop_correct [of n 0 n 0 0] by (auto simp: merge_compute_minrun_def)

text \<open>For 64 or more elements the smallest run is from 32 to 64 long, and it is the number
  of elements divided by a power of 2, rounded up.\<close>

theorem merge_compute_minrun_correct:
  assumes "64 \<le> n"
  shows "32 \<le> merge_compute_minrun n \<and> merge_compute_minrun n \<le> 64
    \<and> (\<exists>j. n \<le> merge_compute_minrun n * 2 ^ j \<and> (merge_compute_minrun n - 1) * 2 ^ j < n)"
  using minrun_loop_correct [of n 0 n 0 0] assms by (auto simp: merge_compute_minrun_def)

theorem merge_compute_minrun_correct_witness:
  "\<exists>j. 1000 \<le> merge_compute_minrun 1000 * 2 ^ j \<and> (merge_compute_minrun 1000 - 1) * 2 ^ j < 1000"
  using merge_compute_minrun_correct [of 1000] by simp

lemma minrun_short: "n < 64 \<Longrightarrow> merge_compute_minrun n = n"
  by (simp add: merge_compute_minrun_def minrun_loop.simps)

lemma minrun_pos: "0 < n \<Longrightarrow> 0 < merge_compute_minrun n"
  using minrun_loop_correct [of n 0 n 0 0] minrun_short [of n] unfolding merge_compute_minrun_def by (cases "n < 64") auto

text \<open>
  The comment of merge_compute_minrun has n / k strictly less than a power of 2
  unless n is one: 80 elements are two runs of 40.
\<close>

lemma minrun_80: "merge_compute_minrun 80 = 40"
proof -
  have "drop_bit 1 (80 :: nat) = 40" "and (80 :: nat) 1 = 0" by (simp_all add: drop_bit_Suc and_one_eq)
  then show ?thesis by (simp add: merge_compute_minrun_def minrun_loop.simps)
qed

section \<open>The main loop\<close>

text \<open>The next run, extended to minrun if it is shorter: its length, or None if a comparison failed.\<close>

definition next_run :: "'e less_than \<Rightarrow> nat \<Rightarrow> nat \<Rightarrow> nat \<Rightarrow> nat \<Rightarrow> 'e list \<Rightarrow> nat option \<times> 'e list" where
  "next_run lt minrun lo hi nremaining arr =
     (case count_run lt lo hi arr of
        None \<Rightarrow> (None, arr)
      | Some (n, descending) \<Rightarrow>
          (let arr = (if descending then reverse_slice lo (lo + n) arr else arr)
           in if n < minrun then
                (let force = (if nremaining \<le> minrun then nremaining else minrun)
                 in (case binarysort lt lo (lo + force) (lo + n) arr of
                       (True, arr) \<Rightarrow> (Some force, arr)
                     | (False, arr) \<Rightarrow> (None, arr)))
              else (Some n, arr)))"

definition push_run :: "nat \<Rightarrow> nat \<Rightarrow> 'e merge_state \<Rightarrow> 'e merge_state" where
  "push_run lo n ms = ms\<lparr>ms_pending := ms_pending ms @ [(lo, n)]\<rparr>"

datatype sort_exit = Sorted | Failed | Stack_full | Asserted

definition sort_exit_of :: "merge_exit \<Rightarrow> sort_exit" where
  "sort_exit_of e = (case e of Succeed \<Rightarrow> Sorted | Fail \<Rightarrow> Failed | _ \<Rightarrow> Asserted)"

lemma count_run_pos: "count_run lt lo hi arr = Some (n, d) \<Longrightarrow> 0 < n"
proof -
  have desc: "n \<le> m" if "count_desc lt lo hi n arr = Some m" for lo n m
    using that
  proof (induction lt lo hi n arr rule: count_desc.induct)
    case (1 lt lo hi n arr)
    then show ?case by (subst (asm) (2) count_desc.simps) (fastforce split: if_splits option.splits bool.splits)
  qed
  have asc: "n \<le> m" if "count_asc lt lo hi n arr = Some m" for lo n m
    using that
  proof (induction lt lo hi n arr rule: count_asc.induct)
    case (1 lt lo hi n arr)
    then show ?case by (subst (asm) (2) count_asc.simps) (fastforce split: if_splits option.splits bool.splits)
  qed
  show ?thesis if "count_run lt lo hi arr = Some (n, d)"
    using that desc [of "lo + 2" 2] asc [of "lo + 2" 2]
    by (fastforce simp: count_run_def split: if_splits option.splits bool.splits)
qed

lemma next_run_pos: "next_run lt minrun lo hi nremaining arr = (Some n, arr') \<Longrightarrow> nremaining - n \<noteq> 0 \<Longrightarrow> 0 < n"
  by (auto simp: next_run_def Let_def dest: count_run_pos split: option.splits prod.splits if_splits bool.splits)

function sort_runs :: "(nat \<Rightarrow> bool) \<Rightarrow> 'e less_than \<Rightarrow> nat \<Rightarrow> nat \<Rightarrow> nat \<Rightarrow> nat \<Rightarrow> 'e merge_state \<Rightarrow> sort_exit \<times> 'e merge_state" where
  "sort_runs malloc lt minrun hi lo nremaining ms =
     (case next_run lt minrun lo hi nremaining (ms_arr ms) of
        (None, arr) \<Rightarrow> (Failed, ms\<lparr>ms_arr := arr\<rparr>)
      | (Some n, arr) \<Rightarrow>
          (let ms = ms\<lparr>ms_arr := arr\<rparr>
           in if length (ms_pending ms) \<ge> MAX_MERGE_PENDING then (Stack_full, ms)
              else (case merge_collapse malloc lt (push_run lo n ms) of
                      (Succeed, ms) \<Rightarrow>
                        if nremaining - n \<noteq> 0 then sort_runs malloc lt minrun hi (lo + n) (nremaining - n) ms
                        else if lo + n = hi then (Sorted, ms) else (Asserted, ms)
                    | (e, ms) \<Rightarrow> (sort_exit_of e, ms))))"
  by pat_completeness auto
termination
  by (relation "measure (\<lambda>(malloc, lt, minrun, hi, lo, nremaining, ms). nremaining)") (auto dest!: next_run_pos [OF sym])

declare sort_runs.simps [simp del]

definition sort_array :: "(nat \<Rightarrow> bool) \<Rightarrow> 'e less_than \<Rightarrow> 'e list \<Rightarrow> sort_exit \<times> 'e list" where
  "sort_array malloc lt arr =
     (let n = length arr; ms = merge_init arr
      in if n < 2 then (Sorted, arr)
         else (case sort_runs malloc lt (merge_compute_minrun n) n 0 n ms of
                 (Sorted, ms) \<Rightarrow>
                   (case merge_force_collapse malloc lt ms of
                      (Succeed, ms) \<Rightarrow>
                        (if ms_pending ms = [(0, n)] then Sorted else Asserted, ms_arr ms)
                    | (e, ms) \<Rightarrow> (sort_exit_of e, ms_arr ms))
               | (e, ms) \<Rightarrow> (e, ms_arr ms)))"

section \<open>list.sort\<close>

lemma next_run_ok:
  assumes r: "next_run lt minrun lo hi nremaining arr = (res, arr')"
    and n: "lo < hi" "lo + nremaining = hi" "hi \<le> length arr"
  shows "in_slice lo hi arr arr'
    \<and> (\<forall>n. res = Some n \<longrightarrow> 0 < n \<and> lo + n \<le> hi \<and> (minrun \<le> n \<or> lo + n = hi))
    \<and> (orders lt f \<longrightarrow> (\<exists>n. res = Some n \<and> sorted (map f (slice lo n arr'))) \<and> stable_eq f arr' arr)"
proof (cases "count_run lt lo hi arr")
  case None
  then show ?thesis using r count_run_correct [of lt f lo hi arr] n(1) by (auto simp: next_run_def)
next
  case (Some nd)
  obtain m d where nd: "nd = (m, d)" by (metis surj_pair)
  note m = count_run_bounds [OF Some [unfolded nd] n(1)]
  define arr1 where "arr1 = (if d then reverse_slice lo (lo + m) arr else arr)"
  have rev: "in_slice lo hi arr arr1"
    using reverse_slice_in [of lo "lo + m" arr] in_slice_wider [of lo "lo + m" arr _ lo hi] m n(3) by (simp add: arr1_def)
  have sorted: "sorted (map f (slice lo m arr1)) \<and> stable_eq f arr1 arr" if o: "orders lt f"
    using count_run_correct [OF o n(1), of arr] reverse_descending [where f = f and lo = lo and n = m and arr = arr] Some nd m n(3)
    by (auto simp: arr1_def split: if_splits)
  have len: "length arr1 = length arr" using rev by (simp add: in_slice_def)
  show ?thesis
  proof (cases "m < minrun")
    case False
    then have "res = Some m" "arr' = arr1" using r Some nd by (auto simp: next_run_def arr1_def Let_def)
    then show ?thesis using rev sorted m False by auto
  next
    case True
    define force where "force = (if nremaining \<le> minrun then nremaining else minrun)"
    obtain ok arr2 where b: "binarysort lt lo (lo + force) (lo + m) arr1 = (ok, arr2)" by (metis surj_pair)
    have res: "res = (if ok then Some force else None)" "arr' = arr2"
      using r Some nd True b by (auto simp: next_run_def arr1_def force_def Let_def split: bool.splits)
    have force: "m \<le> force" "lo + force \<le> hi" "minrun \<le> force \<or> lo + force = hi"
      using True m n(2) by (auto simp: force_def)
    have "in_slice lo (lo + force) arr1 arr2"
      using binarysort_in [of lo "lo + m" "lo + force" arr1 lt] b force n(3) len by simp
    then have "in_slice lo hi arr1 arr2" by (rule in_slice_wider) (use force in auto)
    then have ins: "in_slice lo hi arr arr2" by (rule in_slice_trans [OF rev])
    have "ok \<and> sorted (map f (slice lo force arr2)) \<and> stable_eq f arr2 arr" if o: "orders lt f"
    proof -
      have s1: "sorted (map f (slice lo (lo + m - lo) arr1))" "stable_eq f arr1 arr" using sorted [OF o] by simp_all
      obtain arr3 where "binarysort lt lo (lo + force) (lo + m) arr1 = (True, arr3)" "stable_eq f arr3 arr1"
          "sorted (map f (slice lo (lo + force - lo) arr3))"
        using binarysort_correct [OF o _ _ _ _ s1(1), of "lo + force"] force m n(3) len by auto
      then show ?thesis using b stable_eq_trans [OF _ s1(2)] by simp
    qed
    then show ?thesis using ins force m unfolding res by auto
  qed
qed

lemma sorting_push:
  assumes s: "sorting f good arr0 lo ms" and i: "in_slice lo (length arr0) (ms_arr ms) arr'" and n: "0 < n" "lo + n \<le> length arr0"
    and good: "good \<Longrightarrow> sorted (map f (slice lo n arr')) \<and> stable_eq f arr' (ms_arr ms)"
  shows "sorting f good arr0 (lo + n) (push_run lo n (ms\<lparr>ms_arr := arr'\<rparr>))"
proof -
  have st: "stack_ok 0 (ms_pending ms) lo" "mset (ms_arr ms) = mset arr0" "length (ms_arr ms) = length arr0"
    using s by (simp_all add: sorting_def)
  have "sorted (map f (slice b k arr'))" if g: good and b: "(b, k) \<in> set (ms_pending ms)" for b k
  proof -
    have "slice b k arr' = slice b k (ms_arr ms)" by (rule in_slice_outside [OF i]) (use stack_ok_in [OF st(1) b] in auto)
    then show ?thesis using s g b by (auto simp: sorting_def)
  qed
  moreover have "stack_ok 0 (ms_pending ms @ [(lo, n)]) (lo + n)" using st(1) n by (auto simp: stack_ok_append)
  moreover have "stable_eq f arr' arr0" if g: good
    using good [OF g] s g stable_eq_trans by (auto simp: sorting_def)
  moreover have "mset arr' = mset arr0" "length arr' = length arr0"
    using in_slice_mset [OF i] i n st(2,3) by (simp_all add: in_slice_def)
  ultimately show ?thesis using n good by (auto simp: sorting_def push_run_def)
qed

lemma sort_runs_eq:
  assumes "next_run lt minrun lo hi nremaining (ms_arr ms) = (res, arr)"
  shows "res = None \<Longrightarrow> sort_runs malloc lt minrun hi lo nremaining ms = (Failed, ms\<lparr>ms_arr := arr\<rparr>)"
    and "res = Some n \<Longrightarrow> merge_collapse malloc lt (push_run lo n (ms\<lparr>ms_arr := arr\<rparr>)) = (e, ms1) \<Longrightarrow>
      sort_runs malloc lt minrun hi lo nremaining ms =
        (if length (ms_pending ms) \<ge> MAX_MERGE_PENDING then (Stack_full, ms\<lparr>ms_arr := arr\<rparr>)
         else if e = Succeed then
           (if nremaining - n \<noteq> 0 then sort_runs malloc lt minrun hi (lo + n) (nremaining - n) ms1
            else if lo + n = hi then (Sorted, ms1) else (Asserted, ms1))
         else (sort_exit_of e, ms1))"
  using assms by (subst sort_runs.simps, simp add: Let_def split: merge_exit.split)+

lemma sort_runs_sorting:
  assumes "sorting f good arr0 lo ms" "lo + nremaining = length arr0" "0 < nremaining"
    and "good \<Longrightarrow> orders lt f \<and> memory_for malloc (length arr0)"
    and "sort_runs malloc lt minrun (length arr0) lo nremaining ms = (x, ms')"
  shows "x \<in> {Sorted, Failed, Stack_full} \<and> (good \<longrightarrow> x \<noteq> Failed) \<and> (\<exists>e. sorting f good arr0 e ms')
    \<and> (x = Sorted \<longrightarrow> sorting f good arr0 (length arr0) ms')"
  using assms
proof (induction nremaining arbitrary: lo ms rule: less_induct)
  case (less nremaining)
  let ?hi = "length arr0"
  obtain res arr where r: "next_run lt minrun lo ?hi nremaining (ms_arr ms) = (res, arr)" by (metis surj_pair)
  have len: "lo < ?hi" "?hi \<le> length (ms_arr ms)" using less(2-4) by (simp_all add: sorting_def)
  note run = next_run_ok [OF r len(1) less(3) len(2), of f]
  have keep: "sorting f good arr0 lo (ms\<lparr>ms_arr := arr\<rparr>)"
  proof -
    have "slice b n arr = slice b n (ms_arr ms)" if "(b, n) \<in> set (ms_pending ms)" for b n
      by (rule in_slice_outside [of lo ?hi]) (use run less(2) stack_ok_in that in \<open>auto simp: sorting_def\<close>)
    then show ?thesis
      using less(2,5) run in_slice_mset [of lo ?hi "ms_arr ms" arr] len stable_eq_trans
      by (fastforce simp: sorting_def in_slice_def)
  qed
  show ?case
  proof (cases res)
    case None
    then show ?thesis using less(5,6) sort_runs_eq(1) [OF r] run keep by auto
  next
    case (Some n)
    have n: "0 < n" "lo + n \<le> ?hi" using run Some by auto
    have push: "sorting f good arr0 (lo + n) (push_run lo n (ms\<lparr>ms_arr := arr\<rparr>))"
      by (rule sorting_push [OF less(2) _ n]) (use run Some less(5) in auto)
    obtain e ms1 where c: "merge_collapse malloc lt (push_run lo n (ms\<lparr>ms_arr := arr\<rparr>)) = (e, ms1)" by (metis surj_pair)
    note col = merge_collapse_sorting [OF push less(5) c]
    note st = less(6) [unfolded sort_runs_eq(2) [OF r Some c]]
    consider "length (ms_pending ms) \<ge> MAX_MERGE_PENDING" | "\<not> length (ms_pending ms) \<ge> MAX_MERGE_PENDING" "e \<noteq> Succeed"
      | "\<not> length (ms_pending ms) \<ge> MAX_MERGE_PENDING" "e = Succeed" "nremaining - n = 0"
      | "\<not> length (ms_pending ms) \<ge> MAX_MERGE_PENDING" "e = Succeed" "nremaining - n \<noteq> 0" by blast
    then show ?thesis
    proof cases
      case 1
      then show ?thesis using st keep by auto
    next
      case 2
      then show ?thesis using st col by (auto simp: sort_exit_of_def)
    next
      case 3
      then have "lo + n = ?hi" using n less(3) by linarith
      then show ?thesis using st 3 col by auto
    next
      case 4
      then have "nremaining - n < nremaining" "lo + n + (nremaining - n) = ?hi" "0 < nremaining - n" using n less(3) by linarith+
      then show ?thesis using less(1) [of "nremaining - n" "lo + n" ms1] col less(5) st 4 by simp
    qed
  qed
qed

lemma sorted_one_run: "stack_ok 0 p n \<Longrightarrow> 0 < n \<Longrightarrow> length p \<le> 1 \<Longrightarrow> p = [(0, n)]"
  by (cases p) auto

lemma sorting_mset: "sorting f good arr0 e ms \<Longrightarrow> mset (ms_arr ms) = mset arr0"
  by (simp add: sorting_def)

lemma sort_array_ok:
  assumes good: "good \<Longrightarrow> orders lt f \<and> memory_for malloc (length arr)" and r: "sort_array malloc lt arr = (x, arr')"
  shows "x \<in> {Sorted, Failed, Stack_full} \<and> mset arr' = mset arr
    \<and> (good \<longrightarrow> x \<noteq> Failed \<and> (x = Sorted \<longrightarrow> arr' = sort_key f arr))"
proof (cases "length arr < 2")
  case True
  then have "sort_key f arr = arr" by (cases arr) (auto simp: less_Suc_eq)
  then show ?thesis using r True by (auto simp: sort_array_def)
next
  case False
  let ?n = "length arr"
  have nz: "0 < ?n" using False by linarith
  have init: "sorting f good arr 0 (merge_init arr)" by (simp add: sorting_def merge_init_def)
  obtain y ms1 where runs: "sort_runs malloc lt (merge_compute_minrun ?n) ?n 0 ?n (merge_init arr) = (y, ms1)" by (metis surj_pair)
  have R: "y \<in> {Sorted, Failed, Stack_full} \<and> (good \<longrightarrow> y \<noteq> Failed) \<and> mset (ms_arr ms1) = mset arr
      \<and> (y = Sorted \<longrightarrow> sorting f good arr ?n ms1)"
    using sort_runs_sorting [OF init add_0 nz good runs] sorting_mset by blast
  show ?thesis
  proof (cases "y = Sorted")
    case True
    then have s: "sorting f good arr ?n ms1" using R by simp
    obtain e ms2 where f: "merge_force_collapse malloc lt ms1 = (e, ms2)" by (metis surj_pair)
    note F = merge_force_collapse_sorting [OF s good f]
    show ?thesis
    proof (cases "e = Succeed")
      case e: True
      have s2: "sorting f good arr ?n ms2" and one: "length (ms_pending ms2) \<le> 1" using F e by simp_all
      then have p: "ms_pending ms2 = [(0, ?n)]" using False by (intro sorted_one_run) (auto simp: sorting_def)
      then have res: "x = Sorted" "arr' = ms_arr ms2" using r False runs True f e by (simp_all add: sort_array_def Let_def)
      have "arr' = sort_key f arr" if g: good
        by (rule stable_sorted) (use s2 p g res in \<open>auto simp: sorting_def\<close>)
      then show ?thesis using s2 res by (simp add: sorting_def)
    next
      case e: False
      then have "x = Failed" "arr' = ms_arr ms2" using r False runs True f F by (auto simp: sort_array_def Let_def sort_exit_of_def)
      then show ?thesis using F e by (auto simp: sorting_def)
    qed
  next
    case no: False
    then have "x = y" "arr' = ms_arr ms1" using r False runs R by (auto simp: sort_array_def Let_def)
    then show ?thesis using R no by auto
  qed
qed

section \<open>How many runs can be pending\<close>

text \<open>
  The lengths of the pending runs, the last one first. Each exceeds the one above
  it by more than m, except for the topmost two.
\<close>

definition lens :: "'e merge_state \<Rightarrow> nat list" where
  "lens ms = rev (map snd (ms_pending ms))"

fun gaps :: "nat \<Rightarrow> nat list \<Rightarrow> bool" where
  "gaps m (y # x # r) \<longleftrightarrow> y + m < x \<and> gaps m (x # r)"
| "gaps m r \<longleftrightarrow> True"

definition collapsing :: "nat \<Rightarrow> nat list \<Rightarrow> bool" where
  "collapsing m L \<longleftrightarrow> (\<forall>n \<in> set L. m \<le> n) \<and> gaps m (tl (tl L))"

definition spaced :: "nat \<Rightarrow> nat list \<Rightarrow> bool" where
  "spaced m L \<longleftrightarrow> (\<forall>n \<in> set L. m \<le> n) \<and> gaps m (tl L) \<and> (1 < length L \<longrightarrow> L ! 0 < L ! 1)"

lemma gaps_tl: "gaps m L \<Longrightarrow> gaps m (tl L)"
  by (induction m L rule: gaps.induct) auto

lemma gaps_sum: "gaps m (y # r) \<Longrightarrow> 2 * (length r + 1) * y + (m + 1) * (length r * (length r + 1)) \<le> 2 * sum_list (y # r)"
proof (induction r arbitrary: y)
  case (Cons x r)
  let ?k = "length r"
  have x: "y + m + 1 \<le> x" and IH: "2 * (?k + 1) * x + (m + 1) * (?k * (?k + 1)) \<le> 2 * sum_list (x # r)"
    using Cons.prems Cons.IH [of x] by simp_all
  have "2 * (?k + 1) * (y + m + 1) \<le> 2 * (?k + 1) * x" using x by (rule mult_le_mono2)
  then show ?case using IH by (simp add: algebra_simps)
qed simp

lemma spaced_sum:
  assumes "spaced m L" "MAX_MERGE_PENDING \<le> length L"
  shows "m + 3570 * (m + 1) \<le> sum_list L"
proof -
  obtain z y r where L: "L = z # y # r" "83 \<le> length r"
    using assms(2) by (cases L; cases "tl L") (auto simp: MAX_MERGE_PENDING_def)
  have y: "m \<le> z" "m + 1 \<le> y" and g: "gaps m (y # r)" using assms(1) L by (auto simp: spaced_def)
  have "84 * (m + 1) \<le> (length r + 1) * y" using L(2) y(2) by (intro mult_le_mono) auto
  moreover have "(m + 1) * (83 * 84) \<le> (m + 1) * (length r * (length r + 1))" using L(2) by (intro mult_le_mono) auto
  ultimately show ?thesis using gaps_sum [OF g] y(1) L(1) by (simp add: algebra_simps)
qed

lemma stack_sum: "stack_ok a p e \<Longrightarrow> e = a + sum_list (map snd p)"
  by (induction a p e rule: stack_ok.induct) auto

lemma merge_at_lens:
  assumes "merge_at malloc lt i ms = (Succeed, ms')" "collapsing m (lens ms)"
  shows "collapsing m (lens ms')"
proof -
  have i: "i + 2 = length (ms_pending ms) \<or> i + 3 = length (ms_pending ms)"
    using assms(1) by (auto simp: merge_at_def Let_def split: if_splits)
  obtain q pa na pb nb r where p: "ms_pending ms = q @ (pa, na) # (pb, nb) # r" "i = length q" "length r \<le> 1"
    using stack_split [OF i] .
  have p': "ms_pending ms' = q @ (pa, na + nb) # r"
    using merge_at_pending(1) [OF assms(1)] merge_runs_split [OF p(3)] p(1,2) by simp
  have "gaps m (rev (map snd q))"
    using assms(2) p gaps_tl [of m "na # rev (map snd q)"] by (cases r) (auto simp: collapsing_def lens_def)
  then show ?thesis
    using assms(2) p p' gaps_tl by (cases r) (fastforce simp: collapsing_def lens_def)+
qed

lemma collapse_at_None:
  assumes "collapse_at ms = None" "collapsing m (lens ms)"
  shows "spaced m (lens ms)"
proof -
  let ?p = "ms_pending ms" and ?L = "lens ms"
  have nth: "?L ! j = run_len ms (length ?p - 1 - j)" if "j < length ?p" for j
    using that by (simp add: lens_def run_len_def rev_nth)
  have len: "length ?L = length ?p" by (simp add: lens_def)
  consider "length ?p \<le> 1" | "length ?p = 2" | "3 \<le> length ?p" by linarith
  then show ?thesis
  proof cases
    case 1
    then show ?thesis using assms(2) len by (cases ?L; cases "tl ?L") (auto simp: spaced_def collapsing_def)
  next
    case 2
    then have "?L ! 0 < ?L ! 1" using assms(1) nth [of 0] nth [of 1] by (auto simp: collapse_at_def split: if_splits)
    then show ?thesis using assms(2) len 2 by (cases ?L; cases "tl ?L") (auto simp: spaced_def collapsing_def)
  next
    case 3
    then obtain z y x r where L: "?L = z # y # x # r" using len by (metis Suc_le_length_iff numeral_3_eq_3)
    obtain k where k: "length ?p = k + 3" using 3 by (metis add.commute le_Suc_ex)
    have zyx: "z = run_len ms (k + 2)" "y = run_len ms (k + 1)" "x = run_len ms k"
      using nth [of 0] nth [of 1] nth [of 2] L k by (simp_all add: numeral_3_eq_3)
    have "y + z < x" "z < y"
      using assms(1) unfolding zyx by (auto simp: collapse_at_def Let_def k split: if_splits)
    moreover have "m \<le> z" using assms(2) L by (simp add: collapsing_def)
    ultimately show ?thesis using assms(2) L by (simp add: spaced_def collapsing_def)
  qed
qed

lemma merge_collapse_spaced:
  assumes "merge_collapse malloc lt ms = (Succeed, ms')" "collapsing m (lens ms)"
  shows "spaced m (lens ms')"
  using assms
proof (induction "length (ms_pending ms)" arbitrary: ms rule: less_induct)
  case less
  show ?case
  proof (cases "collapse_at ms")
    case None
    then show ?thesis using less(2,3) merge_collapse_step(1) [OF None] collapse_at_None by force
  next
    case (Some i)
    obtain y ms1 where m: "merge_at malloc lt i ms = (y, ms1)" by (metis surj_pair)
    have y: "y = Succeed" using less(2) merge_collapse_step(2) [OF Some m] by (auto split: if_splits)
    then have "merge_collapse malloc lt ms1 = (Succeed, ms')" "length (ms_pending ms1) < length (ms_pending ms)"
      using less(2) merge_collapse_step(2) [OF Some m] y merge_at_pending(2) [OF m] by simp_all
    then show ?thesis using less(1) merge_at_lens [OF m [unfolded y] less(3)] by blast
  qed
qed

lemma push_collapsing:
  assumes "spaced m (lens ms)" "m \<le> n"
  shows "collapsing m (lens (push_run lo n (ms\<lparr>ms_arr := arr\<rparr>)))"
  using assms by (simp add: collapsing_def spaced_def lens_def push_run_def)

lemma sort_runs_stack:
  assumes "sorting f False arr0 lo ms" "spaced minrun (lens ms)" "lo + nremaining = length arr0" "0 < nremaining"
    and "sort_runs malloc lt minrun (length arr0) lo nremaining ms = (Stack_full, ms')"
  shows "minrun + 3570 * (minrun + 1) < length arr0"
  using assms
proof (induction nremaining arbitrary: lo ms rule: less_induct)
  case (less nremaining)
  let ?hi = "length arr0"
  obtain res arr where r: "next_run lt minrun lo ?hi nremaining (ms_arr ms) = (res, arr)" by (metis surj_pair)
  have len: "lo < ?hi" "?hi \<le> length (ms_arr ms)" using less(2,4,5) by (simp_all add: sorting_def)
  note run = next_run_ok [OF r len(1) less(4) len(2), of f]
  have "res \<noteq> None"
  proof
    assume "res = None"
    then show False using less(6) sort_runs_eq(1) [OF r, of malloc] by simp
  qed
  then obtain n where Some: "res = Some n" by blast
  have n: "0 < n" "lo + n \<le> ?hi" "minrun \<le> n \<or> lo + n = ?hi" using run Some by auto
  show ?case
  proof (cases "length (ms_pending ms) \<ge> MAX_MERGE_PENDING")
    case True
    have "minrun + 3570 * (minrun + 1) \<le> sum_list (lens ms)"
      by (rule spaced_sum [OF less(3)]) (use True in \<open>simp add: lens_def\<close>)
    also have "sum_list (lens ms) = lo" using less(2) stack_sum by (fastforce simp: sorting_def lens_def sum_list_rev)
    finally show ?thesis using len(1) by simp
  next
    case False
    have push: "sorting f False arr0 (lo + n) (push_run lo n (ms\<lparr>ms_arr := arr\<rparr>))"
      by (rule sorting_push [OF less(2) _ n(1,2)]) (use run in auto)
    obtain e ms1 where c: "merge_collapse malloc lt (push_run lo n (ms\<lparr>ms_arr := arr\<rparr>)) = (e, ms1)" by (metis surj_pair)
    note st = less(6) [unfolded sort_runs_eq(2) [OF r Some c]]
    have e: "e = Succeed" "nremaining - n \<noteq> 0"
      using st False by (auto simp: sort_exit_of_def split: if_splits merge_exit.splits)
    then have m: "minrun \<le> n" using n(3) less(4) by linarith
    have "spaced minrun (lens ms1)" by (rule merge_collapse_spaced [OF c [unfolded e(1)] push_collapsing [OF less(3) m]])
    moreover have "sorting f False arr0 (lo + n) ms1" using merge_collapse_sorting [OF push _ c] by simp
    moreover have "nremaining - n < nremaining" "lo + n + (nremaining - n) = ?hi" "0 < nremaining - n" using n e(2) less(4) by linarith+
    ultimately show ?thesis using less(1) [of "nremaining - n" "lo + n" ms1] st False e by simp
  qed
qed

section \<open>What the parts achieve\<close>

lemma filter_split:
  assumes "\<forall>x \<in> set xs. P x" "\<forall>x \<in> set ys. \<not> P x"
  shows "length (filter P (xs @ ys)) = length xs"
  using assms by (simp add: filter_False filter_True)

text \<open>Both gallops find the same place from every hint: gallop_right the number of elements
  of a sorted slice that are not greater than the key.\<close>

theorem gallop_right_counts:
  assumes "orders lt f" "sorted (map f (slice a n arr))" "a + n \<le> length arr" "hint < n"
  shows "gallop_right lt key arr a n hint = Some (length (filter (\<lambda>x. f x \<le> f key) (slice a n arr)))"
proof -
  obtain k where k: "k \<le> n" "gallop_right lt key arr a n hint = Some k"
      "\<forall>x \<in> set (slice a k arr). f x \<le> f key" "\<forall>x \<in> set (slice (a + k) (n - k) arr). f key < f x"
    using gallop_right_correct [OF assms] by blast
  have "slice a n arr = slice a k arr @ slice (a + k) (n - k) arr"
    using slice_add [where a = a and m = k and n = "n - k" and arr = arr] k(1) by simp
  moreover have "length (slice a k arr) = k" using k(1) assms(3) by simp
  ultimately show ?thesis using k(2) filter_split [OF k(3), of "slice (a + k) (n - k) arr"] k(4) by (simp add: not_le)
qed

theorem gallop_right_counts_witness:
  "gallop_right (\<lambda>x y. Some (x < y)) 4 [9, 1, 3, 4, 4, 7 :: int] 1 5 3 = Some 4"
  using gallop_right_counts [of "\<lambda>x y. Some (x < y)" "\<lambda>x. x", where a = 1 and n = 5 and arr = "[9, 1, 3, 4, 4, 7 :: int]" and hint = 3 and key = 4]
  by (simp add: orders_def)

text \<open>merge_at puts the stable merge of the two runs in their place, and their union on the stack.\<close>

theorem merge_at_correct:
  assumes "ms_pending ms = q @ (pa, na) # (pb, nb) # r" "length r \<le> 1" "0 < na" "0 < nb" "pa + na = pb" "pb + nb \<le> length (ms_arr ms)"
    and "orders lt f" "sorted (map f (slice pa na (ms_arr ms)))" "sorted (map f (slice pb nb (ms_arr ms)))" "memory_for malloc (length (ms_arr ms))"
  shows "\<exists>ms'. merge_at malloc lt (length q) ms = (Succeed, ms') \<and> ms_pending ms' = q @ (pa, na + nb) # r
    \<and> ms_arr ms' = take pa (ms_arr ms) @ sort_key f (slice pa na (ms_arr ms) @ slice pb nb (ms_arr ms)) @ drop (pb + nb) (ms_arr ms)"
proof -
  obtain e ms' where r: "merge_at malloc lt (length q) ms = (e, ms')" by (metis surj_pair)
  note m = merge_at_merges [OF assms(1-6) r, of f, THEN conjunct2, unfolded merges_def]
  have e: "e = Succeed" and ins: "in_slice pa (pb + nb) (ms_arr ms) (ms_arr ms')"
    and s: "sorted (map f (slice pa (pb + nb - pa) (ms_arr ms')))" "stable_eq f (slice pa (pb + nb - pa) (ms_arr ms')) (slice pa (pb + nb - pa) (ms_arr ms))"
    using m assms(7-10) by blast+
  have "slice pa (pb + nb - pa) (ms_arr ms) = slice pa na (ms_arr ms) @ slice pb nb (ms_arr ms)"
    using slice_add [where a = pa and m = na and n = nb and arr = "ms_arr ms"] assms(5) by auto
  then have "slice pa (pb + nb - pa) (ms_arr ms') = sort_key f (slice pa na (ms_arr ms) @ slice pb nb (ms_arr ms))"
    using stable_sorted [OF s(2,1)] by simp
  then show ?thesis
    using split_slice [of pa "pb + nb" "ms_arr ms'"] ins merge_at_merges [OF assms(1-6) r, of f] e r assms(5)
    by (auto simp: in_slice_def)
qed

theorem merge_at_correct_witness:
  "\<exists>ms'. merge_at (\<lambda>_. True) (\<lambda>x y. Some (x < y))
       0 \<lparr>ms_arr = [2, 5, 1, 3 :: int], ms_min_gallop = 7, ms_alloced = 256, ms_pending = [(0, 2), (2, 2)]\<rparr> = (Succeed, ms')
     \<and> ms_arr ms' = [1, 2, 3, 5]"
  using merge_at_correct [of "\<lparr>ms_arr = [2, 5, 1, 3 :: int], ms_min_gallop = 7, ms_alloced = 256, ms_pending = [(0, 2), (2, 2)]\<rparr>" "[]" 0 2 2 2 "[]"
      "\<lambda>x y. Some (x < y)" "\<lambda>x. x" "\<lambda>_. True"]
  by (auto simp: orders_def memory_for_def)

text \<open>
  The comment of merge_collapse does not hold: from run lengths 15, 11, 3, 2 and
  4, merge_collapse stops at 15, 11, 5 and 4, where 15 is not greater than 11 and 5
  together. Only the topmost three runs are as the comment says.
\<close>

theorem merge_collapse_stops_early:
  assumes "sorting f True arr0 e ms" "orders lt f \<and> memory_for malloc (length arr0)" "0 < k"
    and "ms_pending ms = [(0, 15 * k), (15 * k, 11 * k), (26 * k, 3 * k), (29 * k, 2 * k), (31 * k, 4 * k)]"
  shows "\<exists>ms'. merge_collapse malloc lt ms = (Succeed, ms')
    \<and> ms_pending ms' = [(0, 15 * k), (15 * k, 11 * k), (26 * k, 5 * k), (31 * k, 4 * k)] \<and> \<not> 15 * k > 11 * k + 5 * k"
proof -
  have at: "collapse_at ms = Some 2" using assms(3,4) by (simp add: collapse_at_def run_len_def)
  obtain x ms1 where m: "merge_at malloc lt 2 ms = (x, ms1)" by (metis surj_pair)
  have "2 + 2 = length (ms_pending ms) \<or> 2 + 3 = length (ms_pending ms)" by (simp add: assms(4))
  then have x: "x = Succeed" using merge_at_step [OF assms(1) _ assms(2) m] by simp
  have p: "ms_pending ms1 = [(0, 15 * k), (15 * k, 11 * k), (26 * k, 5 * k), (31 * k, 4 * k)]"
    using merge_at_pending(1) [OF m] x by (simp add: assms(4) merge_runs_def Let_def)
  then have "collapse_at ms1 = None" using assms(3) by (simp add: collapse_at_def run_len_def)
  then have "merge_collapse malloc lt ms = (Succeed, ms1)"
    using merge_collapse_step(2) [OF at m] x merge_collapse_step(1) [of ms1 malloc lt] by simp
  then show ?thesis using p assms(3) by simp
qed

theorem merge_collapse_stops_early_witness:
  "\<exists>ms'. merge_collapse (\<lambda>_. True) (\<lambda>x y. Some (x < y))
       \<lparr>ms_arr = [0..<35], ms_min_gallop = 7, ms_alloced = 256, ms_pending = [(0, 15), (15, 11), (26, 3), (29, 2), (31, 4)]\<rparr> = (Succeed, ms')
     \<and> ms_pending ms' = [(0, 15), (15, 11), (26, 5), (31, 4)]"
  using merge_collapse_stops_early [of "\<lambda>x. x" "[0..<35]" 35
      "\<lparr>ms_arr = [0..<35], ms_min_gallop = 7, ms_alloced = 256, ms_pending = [(0, 15), (15, 11), (26, 3), (29, 2), (31, 4)]\<rparr>"
      "\<lambda>x y. Some (x < y)" "\<lambda>_. True" 1]
  by (auto simp: orders_def memory_for_def sorting_def simp del: upt_Suc upt_rec_numeral)

end
