(* ===== verification/Py_List.thy ===== *)
theory Py_List
  imports Py_Listsort
begin

text \<open>
  Objects/listobject.c of CPython: the list.sort and list.reverse methods. A
  slot of the list holds an object, or while the list is sorted by a key
  function a wrapper of the key and the object. What the code calls and cannot
  control is in a record: the comparison of objects, the allocators, whether
  the warning for the cmp argument is an error, and whether somebody has changed
  the list while it was being sorted.
\<close>

section \<open>Keys and comparison functions\<close>

datatype 'o wrapper = Wrapper (wrapper_key: 'o) (wrapper_value: 'o)

datatype 'o slot = Object 'o | Wrapped "'o wrapper"

record 'o sort_env =
  env_rich :: "'o less_than"
  env_malloc :: "nat \<Rightarrow> bool"
  env_new_wrapper :: "nat \<Rightarrow> bool"
  env_new_cmpwrapper :: bool
  env_warn_ok :: bool
  env_modified :: bool

text \<open>Both raise TypeError when they meet an object that is not a wrapper.\<close>

definition sortwrapper_richcompare :: "'o less_than \<Rightarrow> 'o wrapper \<Rightarrow> 'o slot \<Rightarrow> bool option" where
  "sortwrapper_richcompare rich a b =
     (case b of Object y \<Rightarrow> None | Wrapped w \<Rightarrow> rich (wrapper_key a) (wrapper_key w))"

definition cmpwrapper_call :: "('o \<Rightarrow> 'o \<Rightarrow> int option) \<Rightarrow> 'o slot \<Rightarrow> 'o slot \<Rightarrow> int option" where
  "cmpwrapper_call func x y =
     (case (x, y) of (Wrapped v, Wrapped w) \<Rightarrow> func (wrapper_key v) (wrapper_key w) | _ \<Rightarrow> None)"

text \<open>The comparison of two wrappers in the list.\<close>

definition wrapper_less :: "'o less_than \<Rightarrow> ('o \<Rightarrow> 'o \<Rightarrow> int option) option \<Rightarrow> 'o wrapper less_than" where
  "wrapper_less rich cmp =
     ISLT (\<lambda>a b. sortwrapper_richcompare rich a (Wrapped b))
       (map_option (\<lambda>func a b. cmpwrapper_call func (Wrapped a) (Wrapped b)) cmp)"

definition build_sortwrapper :: "bool \<Rightarrow> 'o \<Rightarrow> 'o \<Rightarrow> 'o wrapper option" where
  "build_sortwrapper ok key v = (if ok then Some (Wrapper key v) else None)"

definition sortwrapper_getvalue :: "'o slot \<Rightarrow> 'o option" where
  "sortwrapper_getvalue so = (case so of Object y \<Rightarrow> None | Wrapped w \<Rightarrow> Some (wrapper_value w))"

definition unwrap :: "'o wrapper \<Rightarrow> 'o slot" where
  "unwrap w = (case sortwrapper_getvalue (Wrapped w) of Some v \<Rightarrow> Object v | None \<Rightarrow> Wrapped w)"

text \<open>
  Calling the key function on every element. When it fails, the wrappers made so
  far are taken off again; when a wrapper cannot be made, they are not.
\<close>

fun decorate :: "('o \<Rightarrow> 'o option) \<Rightarrow> (nat \<Rightarrow> bool) \<Rightarrow> 'o wrapper list \<Rightarrow> 'o list \<Rightarrow> 'o slot list + 'o wrapper list" where
  "decorate keyfunc new_wrapper ws [] = Inr ws"
| "decorate keyfunc new_wrapper ws (x # rest) =
     (case keyfunc x of
        None \<Rightarrow> Inl (map unwrap ws @ map Object (x # rest))
      | Some key \<Rightarrow>
          (case build_sortwrapper (new_wrapper (length ws)) key x of
             None \<Rightarrow> Inl (map Wrapped ws @ map Object (x # rest))
           | Some kvpair \<Rightarrow> decorate keyfunc new_wrapper (ws @ [kvpair]) rest))"

section \<open>The methods\<close>

definition reverse_all :: "'e list \<Rightarrow> 'e list" where
  "reverse_all arr = (if length arr > 1 then reverse_slice 0 (length arr) arr else arr)"

text \<open>What the call comes to: it returns, raises the exception of a callee or of a failed allocation, or
  raises ValueError since the list was modified; or it leaves the bounds of the code.\<close>

datatype sort_result = Returned | Raised | List_modified | Overflowed | Aborted

definition sort_phase :: "(nat \<Rightarrow> bool) \<Rightarrow> 'e less_than \<Rightarrow> bool \<Rightarrow> 'e list \<Rightarrow> sort_exit \<times> 'e list" where
  "sort_phase malloc lt reverse arr = sort_array malloc lt (if reverse then reverse_all arr else arr)"

text \<open>From the label fail on: the keys are taken off, the flag is checked, the list is reversed back.\<close>

definition sort_finish :: "bool \<Rightarrow> bool \<Rightarrow> ('e \<Rightarrow> 'o slot) \<Rightarrow> ('e \<Rightarrow> 'o slot) \<Rightarrow> sort_exit \<times> 'e list \<Rightarrow> sort_result \<times> 'o slot list" where
  "sort_finish modified reverse undo keep r =
     (case r of
        (Stack_full, arr) \<Rightarrow> (Overflowed, map keep arr)
      | (Asserted, arr) \<Rightarrow> (Aborted, map keep arr)
      | (e, arr) \<Rightarrow>
          (let arr = map undo arr;
               result = (if e = Failed then Raised else if modified then List_modified else Returned)
           in (result, if reverse then reverse_all arr else arr)))"

definition listsort :: "'o sort_env \<Rightarrow> ('o \<Rightarrow> 'o \<Rightarrow> int option) option \<Rightarrow> ('o \<Rightarrow> 'o option) option \<Rightarrow> bool \<Rightarrow> 'o list \<Rightarrow> sort_result \<times> 'o slot list" where
  "listsort env cmp keyfunc reverse xs =
     (if cmp \<noteq> None \<and> \<not> env_warn_ok env then (Raised, map Object xs)
      else if cmp \<noteq> None \<and> keyfunc \<noteq> None \<and> \<not> env_new_cmpwrapper env then (Raised, map Object xs)
      else
        (case keyfunc of
           None \<Rightarrow>
             sort_finish (env_modified env) reverse Object Object
               (sort_phase (env_malloc env) (ISLT (env_rich env) cmp) reverse xs)
         | Some kf \<Rightarrow>
             (case decorate kf (env_new_wrapper env) [] xs of
                Inl arr \<Rightarrow> (Raised, arr)
              | Inr ws \<Rightarrow>
                  sort_finish (env_modified env) reverse unwrap Wrapped
                    (sort_phase (env_malloc env) (wrapper_less (env_rich env) cmp) reverse ws))))"

text \<open>PyList_Sort, whose result is 0 or -1, and list.reverse with PyList_Reverse.\<close>

definition PyList_Sort :: "'o sort_env \<Rightarrow> 'o list \<Rightarrow> int \<times> 'o slot list" where
  "PyList_Sort env xs = (case listsort env None None False xs of (r, arr) \<Rightarrow> (if r = Returned then 0 else -1, arr))"

definition listreverse :: "'o list \<Rightarrow> 'o list" where
  "listreverse xs = reverse_all xs"

section \<open>What they do\<close>

lemma reverse_all_rev: "reverse_all xs = rev xs"
  using reverse_slice_rev [of 0 "length xs" xs] rev_short [of xs] by (auto simp: reverse_all_def)

definition wrappers :: "('o \<Rightarrow> 'o option) \<Rightarrow> 'o list \<Rightarrow> 'o wrapper list" where
  "wrappers kf xs = map (\<lambda>x. Wrapper (the (kf x)) x) xs"

lemma unwrap_eq [simp]: "unwrap w = Object (wrapper_value w)"
  by (simp add: unwrap_def sortwrapper_getvalue_def)

text \<open>decorate works up to the first element it cannot wrap.\<close>

lemma decorate_steps:
  assumes "\<forall>x \<in> set ys. kf x \<noteq> None" "\<forall>i < length ys. new (length w + i)"
  shows "decorate kf new w (ys @ rest) = decorate kf new (w @ wrappers kf ys) rest"
  using assms
proof (induction ys arbitrary: w)
  case (Cons y ys)
  have "\<forall>i < length ys. new (Suc (length w + i))" using Cons.prems(2) by auto
  moreover have "new (length w)" using Cons.prems(2) by (auto dest: spec [of _ 0])
  ultimately show ?case
    using Cons.IH [of "w @ [Wrapper (the (kf y)) y]"] Cons.prems(1)
    by (auto simp: wrappers_def build_sortwrapper_def split: option.splits)
qed (simp add: wrappers_def)

lemma decorate_all:
  assumes "\<forall>x \<in> set xs. kf x \<noteq> None" "\<forall>i < length xs. new i"
  shows "decorate kf new [] xs = Inr (wrappers kf xs)"
  using decorate_steps [of xs kf new "[]" "[]"] assms by simp

lemma decorate_length: "decorate kf new w xs = Inr ws \<Longrightarrow> length ws = length w + length xs"
  by (induction xs arbitrary: w) (auto split: option.splits)

lemma unwrap_wrappers [simp]: "map unwrap (wrappers kf xs) = map Object xs"
  by (simp add: wrappers_def)

lemma decorate_key_fails:
  assumes "\<forall>x \<in> set ys. kf x \<noteq> None" "\<forall>i < length ys. new i" "kf x = None"
  shows "decorate kf new [] (ys @ x # rest) = Inl (map Object (ys @ x # rest))"
  using decorate_steps [of ys kf new "[]" "x # rest"] assms by simp

lemma decorate_cases:
  assumes "\<forall>i. new i"
  shows "decorate kf new [] xs =
    (if \<forall>x \<in> set xs. kf x \<noteq> None then Inr (wrappers kf xs) else Inl (map Object xs))"
proof (cases "\<forall>x \<in> set xs. kf x \<noteq> None")
  case True
  then show ?thesis using decorate_all [of xs kf new] assms by simp
next
  case False
  then obtain ys x rest where "xs = ys @ x # rest" "kf x = None" "\<forall>y \<in> set ys. kf y \<noteq> None"
    using split_list_first_prop [of xs "\<lambda>x. kf x = None"] by auto
  then show ?thesis using decorate_key_fails [of ys kf new x rest] assms False by simp
qed

lemma sort_phase_mset:
  assumes "sort_phase malloc lt reverse arr = (x, arr')"
  shows "x \<noteq> Asserted \<and> mset arr' = mset arr"
  using sort_array_ok [of False lt "\<lambda>_. 0 :: nat" malloc "if reverse then reverse_all arr else arr" x arr'] assms
  by (auto simp: sort_phase_def reverse_all_rev)

text \<open>What the code needs of its environment to sort n elements.\<close>

definition sort_env_ok :: "'o sort_env \<Rightarrow> nat \<Rightarrow> bool" where
  "sort_env_ok env n \<longleftrightarrow> memory_for (env_malloc env) n \<and> (\<forall>i. env_new_wrapper env i) \<and> env_new_cmpwrapper env
     \<and> env_warn_ok env \<and> \<not> env_modified env"

definition by_key :: "('o \<Rightarrow> 'k) \<Rightarrow> ('o \<Rightarrow> 'o option) option \<Rightarrow> 'o \<Rightarrow> 'k" where
  "by_key f keyfunc x = (case keyfunc of None \<Rightarrow> f x | Some kf \<Rightarrow> f (the (kf x)))"

definition keys_ok :: "('o \<Rightarrow> 'o option) option \<Rightarrow> 'o list \<Rightarrow> bool" where
  "keys_ok keyfunc xs \<longleftrightarrow> (case keyfunc of None \<Rightarrow> True | Some kf \<Rightarrow> list_all (\<lambda>x. kf x \<noteq> None) xs)"

lemma insort_key_map: "insort_key k (w x) (map w ys) = map w (insort_key (\<lambda>a. k (w a)) x ys)"
  by (induction ys) auto

lemma sort_key_map: "sort_key k (map w xs) = map w (sort_key (\<lambda>a. k (w a)) xs)"
  by (induction xs) (simp_all add: insort_key_map)

lemma sort_array_stack:
  assumes "sort_array malloc lt arr = (Stack_full, arr')"
  shows "117842 < length arr"
proof -
  let ?n = "length arr" and ?m = "merge_compute_minrun (length arr)"
  have n: "2 \<le> ?n" using assms by (auto simp: sort_array_def Let_def split: if_splits)
  obtain y ms1 where runs: "sort_runs malloc lt ?m ?n 0 ?n (merge_init arr) = (y, ms1)" by (metis surj_pair)
  have "y = Stack_full"
  proof (rule ccontr)
    assume no: "y \<noteq> Stack_full"
    obtain e ms2 where f: "merge_force_collapse malloc lt ms1 = (e, ms2)" by (metis surj_pair)
    show False using assms n runs f no
      by (cases y; cases e) (auto simp: sort_array_def Let_def sort_exit_of_def split: if_splits)
  qed
  then have "?m + 3570 * (?m + 1) < ?n"
    using runs n
    by (intro sort_runs_stack [where f = "\<lambda>_. 0 :: nat" and lo = 0 and nremaining = ?n and ms = "merge_init arr"])
      (auto simp: sorting_def merge_init_def spaced_def lens_def)
  moreover have "?n < 64 \<Longrightarrow> ?m = ?n" "64 \<le> ?n \<Longrightarrow> 32 \<le> ?m"
    using minrun_short merge_compute_minrun_bounds by auto
  ultimately show ?thesis by (cases "?n < 64") auto
qed

lemma sort_phase_sorts:
  assumes "orders lt f" "memory_for malloc (length xs)" "length xs \<le> 117842"
  shows "sort_phase malloc lt reverse xs = (Sorted, sort_key f (if reverse then rev xs else xs))"
proof -
  let ?xs = "if reverse then rev xs else xs"
  obtain x arr where r: "sort_array malloc lt ?xs = (x, arr)" by (metis surj_pair)
  have "x \<noteq> Stack_full" using sort_array_stack [of malloc lt ?xs arr] r assms(3) by (auto split: if_splits)
  moreover have "x \<in> {Sorted, Failed, Stack_full} \<and> x \<noteq> Failed \<and> (x = Sorted \<longrightarrow> arr = sort_key f ?xs)"
    using sort_array_ok [of True lt f malloc ?xs x arr] r assms(1,2) by (auto split: if_splits)
  ultimately show ?thesis using r by (auto simp: sort_phase_def reverse_all_rev split: if_splits)
qed

lemma wrapper_less_orders: "orders (ISLT rich cmp) f \<Longrightarrow> orders (wrapper_less rich cmp) (f \<circ> wrapper_key)"
  by (cases cmp) (simp_all add: orders_def wrapper_less_def ISLT_def islt_def sortwrapper_richcompare_def cmpwrapper_call_def)

lemma sort_key_wrappers: "map unwrap (sort_key (f \<circ> wrapper_key) (wrappers kf xs)) = map Object (sort_key (by_key f (Some kf)) xs)"
proof -
  have "(\<lambda>x. (f \<circ> wrapper_key) (Wrapper (the (kf x)) x)) = by_key f (Some kf)" by (auto simp: by_key_def)
  then show ?thesis by (simp add: wrappers_def sort_key_map)
qed

lemma listsort_result:
  assumes "orders (ISLT (env_rich env) cmp) f" "sort_env_ok env (length xs)" "keys_ok keyfunc xs" "length xs \<le> 117842"
  defines "g \<equiv> by_key f keyfunc"
  shows "listsort env cmp keyfunc reverse xs =
    (Returned, map Object (if reverse then rev (sort_key g (rev xs)) else sort_key g xs))"
proof -
  note env = assms(2) [unfolded sort_env_ok_def]
  show ?thesis
  proof (cases keyfunc)
    case None
    then have "g = f" by (auto simp: g_def by_key_def)
    then show ?thesis
      using None env sort_phase_sorts [OF assms(1) _ assms(4), of "env_malloc env" reverse]
      by (simp add: listsort_def sort_finish_def Let_def reverse_all_rev rev_map)
  next
    case (Some kf)
    then have "decorate kf (env_new_wrapper env) [] xs = Inr (wrappers kf xs)"
      using assms(3) env by (intro decorate_all) (auto simp: keys_ok_def list_all_iff)
    moreover have "length (wrappers kf xs) = length xs" "rev (wrappers kf xs) = wrappers kf (rev xs)"
      by (simp_all add: wrappers_def rev_map)
    ultimately show ?thesis
      using Some env assms(4) sort_phase_sorts [OF wrapper_less_orders [OF assms(1)], of "env_malloc env" "wrappers kf xs" reverse]
        sort_key_wrappers [of f kf]
      by (simp add: listsort_def sort_finish_def Let_def reverse_all_rev rev_map g_def)
  qed
qed

text \<open>C4. When the comparison is the order of a key, list.sort returns and leaves the list stably
  sorted, by the key function if there is one.\<close>

theorem listsort_sorts:
  assumes "orders (ISLT (env_rich env) cmp) f" "sort_env_ok env (length xs)" "keys_ok keyfunc xs" "length xs \<le> 117842"
  shows "listsort env cmp keyfunc False xs = (Returned, map Object (sort_key (by_key f keyfunc) xs))"
  using listsort_result [OF assms, of False] by simp

theorem listsort_sorts_witness:
  "listsort \<lparr>env_rich = \<lambda>x y. Some (x < y), env_malloc = \<lambda>_. True, env_new_wrapper = \<lambda>_. True,
             env_new_cmpwrapper = True, env_warn_ok = True, env_modified = False\<rparr>
     None (Some (\<lambda>x. Some (- x))) False [1, 3, 2 :: int]
   = (Returned, map Object [3, 2, 1])"
proof -
  let ?env = "\<lparr>env_rich = \<lambda>x y. Some (x < y), env_malloc = \<lambda>_. True, env_new_wrapper = \<lambda>_. True,
              env_new_cmpwrapper = True, env_warn_ok = True, env_modified = False\<rparr>"
  have "listsort ?env None (Some (\<lambda>x. Some (- x))) False [1, 3, 2 :: int] =
      (Returned, map Object (sort_key (by_key (\<lambda>x. x) (Some (\<lambda>x. Some (- x)))) [1, 3, 2]))"
    by (rule listsort_sorts) (simp_all add: orders_def ISLT_def sort_env_ok_def memory_for_def keys_ok_def)
  then show ?thesis by (simp add: by_key_def)
qed

text \<open>With reverse, the list is sorted the other way round, and elements of equal key
  still keep their order.\<close>

theorem listsort_reverse_stable:
  assumes "orders (ISLT (env_rich env) cmp) f" "sort_env_ok env (length xs)" "keys_ok keyfunc xs" "length xs \<le> 117842"
  defines "g \<equiv> by_key f keyfunc"
  shows "\<exists>ys. listsort env cmp keyfunc True xs = (Returned, map Object ys)
    \<and> sorted_wrt (\<lambda>x y. g y \<le> g x) ys \<and> (\<forall>k. filter (\<lambda>x. g x = k) ys = filter (\<lambda>x. g x = k) xs)"
proof (intro exI conjI allI)
  let ?ys = "rev (sort_key g (rev xs))"
  show "listsort env cmp keyfunc True xs = (Returned, map Object ?ys)"
    using listsort_result [OF assms(1-4), of True] by (simp add: g_def)
  have "sorted (map g (sort_key g (rev xs)))" by simp
  then show "sorted_wrt (\<lambda>x y. g y \<le> g x) ?ys" by (simp add: sorted_wrt_rev sorted_map)
  show "filter (\<lambda>x. g x = k) ?ys = filter (\<lambda>x. g x = k) xs" for k
    using sort_key_stable [of g k "rev xs"] by (simp add: rev_filter [symmetric])
qed

theorem listsort_reverse_stable_witness:
  "\<exists>ys. listsort \<lparr>env_rich = \<lambda>x y. Some (snd x < snd y), env_malloc = \<lambda>_. True, env_new_wrapper = \<lambda>_. True,
             env_new_cmpwrapper = True, env_warn_ok = True, env_modified = False\<rparr>
       None None True [(''a'', 1 :: int), (''b'', 2), (''c'', 1)] = (Returned, map Object ys)
     \<and> filter (\<lambda>x. snd x = 1) ys = [(''a'', 1), (''c'', 1)]"
proof -
  let ?env = "\<lparr>env_rich = \<lambda>x y. Some (snd x < snd y), env_malloc = \<lambda>_. True, env_new_wrapper = \<lambda>_. True,
              env_new_cmpwrapper = True, env_warn_ok = True, env_modified = False\<rparr>"
  have "\<exists>ys. listsort ?env None None True [(''a'', 1 :: int), (''b'', 2), (''c'', 1)] = (Returned, map Object ys)
      \<and> sorted_wrt (\<lambda>x y. by_key snd None y \<le> by_key snd None x) ys
      \<and> (\<forall>k. filter (\<lambda>x. by_key snd None x = k) ys = filter (\<lambda>x. by_key snd None x = k) [(''a'', 1), (''b'', 2), (''c'', 1)])"
    by (rule listsort_reverse_stable) (simp_all add: orders_def ISLT_def sort_env_ok_def memory_for_def keys_ok_def)
  then obtain ys where "listsort ?env None None True [(''a'', 1 :: int), (''b'', 2), (''c'', 1)] = (Returned, map Object ys)"
      "\<forall>k. filter (\<lambda>x. snd x = k) ys = filter (\<lambda>x. snd x = k) [(''a'', 1), (''b'', 2), (''c'', 1)]"
    unfolding by_key_def option.case by blast
  then show ?thesis by (intro exI [of _ ys]) simp
qed

lemma sort_phase_stack:
  assumes "length arr \<le> 117842"
  shows "fst (sort_phase malloc lt reverse arr) \<noteq> Stack_full"
  using sort_array_stack [of malloc lt "if reverse then rev arr else arr"] assms
  by (cases "sort_array malloc lt (if reverse then rev arr else arr)") (auto simp: sort_phase_def reverse_all_rev split: if_splits)

lemma sort_finish_stack: "fst r \<noteq> Stack_full \<Longrightarrow> fst (sort_finish m reverse undo keep r) \<noteq> Overflowed"
  by (cases r; cases "fst r") (auto simp: sort_finish_def Let_def)

text \<open>The object in a slot of the list, as it is or in a wrapper.\<close>

definition slot_object :: "'o slot \<Rightarrow> 'o" where
  "slot_object so = (case so of Object x \<Rightarrow> x | Wrapped w \<Rightarrow> wrapper_value w)"

lemma slot_object_simps [simp]:
  "slot_object (Object x) = x" "slot_object (Wrapped w) = wrapper_value w"
  by (simp_all add: slot_object_def)

lemma decorate_objects:
  "decorate kf new ws xs = Inl arr \<Longrightarrow> map slot_object arr = map wrapper_value ws @ xs"
  "decorate kf new ws xs = Inr us \<Longrightarrow> map wrapper_value us = map wrapper_value ws @ xs"
  by (induction xs arbitrary: ws) (auto simp: build_sortwrapper_def comp_def split: option.splits if_splits)

lemma sort_finish_objects:
  assumes "sort_finish modified reverse undo keep (x, arr) = (r, ys)" "x \<noteq> Asserted"
    and "\<And>e. slot_object (undo e) = obj e" "\<And>e. slot_object (keep e) = obj e"
  shows "r \<noteq> Aborted \<and> (r = Overflowed \<longrightarrow> x = Stack_full) \<and> mset (map slot_object ys) = mset (map obj arr)
    \<and> (r \<noteq> Overflowed \<longrightarrow> mset ys = mset (map undo arr))"
  using assms(1,2)
  by (cases x) (auto simp: sort_finish_def reverse_all_rev Let_def multiset.map_comp comp_def assms(3,4) split: if_splits)

lemma sort_objects:
  assumes "sort_finish modified reverse undo keep (sort_phase malloc lt reverse es) = (r, ys)"
    and "\<And>e. slot_object (undo e) = obj e" "\<And>e. slot_object (keep e) = obj e"
  shows "r \<noteq> Aborted \<and> (r = Overflowed \<longrightarrow> 117842 < length es) \<and> mset (map slot_object ys) = mset (map obj es)
    \<and> (r \<noteq> Overflowed \<longrightarrow> mset ys = mset (map undo es))"
proof -
  obtain x arr where p: "sort_phase malloc lt reverse es = (x, arr)" by (metis surj_pair)
  note f = sort_finish_objects [where obj = obj, OF assms(1) [unfolded p] conjunct1 [OF sort_phase_mset [OF p]] assms(2,3)]
  have "x = Stack_full \<Longrightarrow> 117842 < length es" using sort_phase_stack [of es malloc lt reverse] p by fastforce
  moreover have "mset (map obj arr) = mset (map obj es)" "mset (map undo arr) = mset (map undo es)"
    using sort_phase_mset [OF p] by simp_all
  ultimately show ?thesis using f by auto
qed

text \<open>
  C5. Whatever the comparison and the key function answer or raise, and whatever memory there is, list.sort
  leaves the objects it was given, in some order: in the slots of the list themselves whenever a wrapper
  could be made for every element, and up to wrappers that a failed allocation left behind (C26) otherwise.
  The assertions of merge_at, merge_lo, merge_hi and of the main loop hold, except the one that bounds the
  stack of pending runs (Overflowed), which can fail for lists of more than 117842 elements only.
\<close>

theorem listsort_permutes:
  assumes "listsort env cmp keyfunc reverse xs = (r, ys)"
  shows "r \<noteq> Aborted \<and> (r = Overflowed \<longrightarrow> 117842 < length xs) \<and> mset (map slot_object ys) = mset xs
    \<and> (r \<noteq> Overflowed \<and> (\<forall>i. env_new_wrapper env i) \<longrightarrow> mset ys = mset (map Object xs))"
proof (cases keyfunc)
  case None
  have plain: ?thesis
    if st: "sort_finish (env_modified env) reverse Object Object (sort_phase (env_malloc env) lt reverse xs) = (r, ys)" for lt
    using sort_objects [where obj = "\<lambda>x. x", OF st] by simp
  show ?thesis using assms None plain by (auto simp: listsort_def multiset.map_comp comp_def split: if_splits)
next
  case (Some kf)
  have keyed: ?thesis
    if st: "sort_finish (env_modified env) reverse unwrap Wrapped (sort_phase (env_malloc env) lt reverse ws) = (r, ys)"
      and ws: "decorate kf (env_new_wrapper env) [] xs = Inr ws" for lt ws
  proof -
    have v: "map wrapper_value ws = xs" using decorate_objects(2) [OF ws] by simp
    then have "length ws = length xs" "map unwrap ws = map Object xs" by (auto simp: comp_def)
    then show ?thesis using sort_objects [where obj = wrapper_value, OF st] v by simp
  qed
  have stopped: ?thesis if "decorate kf (env_new_wrapper env) [] xs = Inl ys" "r = Raised"
  proof -
    have "ys = map Object xs" if "\<forall>i. env_new_wrapper env i"
      using decorate_cases [OF that, of kf xs] \<open>decorate kf (env_new_wrapper env) [] xs = Inl ys\<close> by (simp split: if_splits)
    moreover have "map slot_object ys = xs" using decorate_objects(1) [OF that(1)] by simp
    ultimately show ?thesis using that(2) by (metis sort_result.distinct(3,5,9,11,13) mset_map)
  qed
  show ?thesis using assms Some keyed stopped
    by (auto simp: listsort_def multiset.map_comp comp_def split: if_splits sum.splits)
qed

theorem listsort_permutes_witness:
  "let env = \<lparr>env_rich = \<lambda>x y. Some (x < y), env_malloc = \<lambda>_. False, env_new_wrapper = \<lambda>i. i \<noteq> 1,
              env_new_cmpwrapper = True, env_warn_ok = True, env_modified = False\<rparr>;
       r = listsort env None (Some Some) False [5, 4 :: int]
   in fst r \<noteq> Aborted \<and> fst r \<noteq> Overflowed \<and> mset (map slot_object (snd r)) = {#5, 4#}"
proof -
  let ?env = "\<lparr>env_rich = \<lambda>x y. Some (x < y), env_malloc = \<lambda>_. False, env_new_wrapper = \<lambda>i. i \<noteq> 1,
              env_new_cmpwrapper = True, env_warn_ok = True, env_modified = False\<rparr>"
  have run: "listsort ?env None (Some Some) False [5, 4 :: int] =
      (fst (listsort ?env None (Some Some) False [5, 4 :: int]), snd (listsort ?env None (Some Some) False [5, 4 :: int]))" by simp
  show ?thesis using listsort_permutes [OF run] unfolding Let_def by auto
qed

text \<open>C25. Lists of up to 117842 elements never have too many runs pending, even though the lengths
  of the pending runs do not grow as the comments have it.\<close>

theorem listsort_stack_suffices:
  assumes "length xs \<le> 117842"
  shows "fst (listsort env cmp keyfunc reverse xs) \<noteq> Overflowed"
proof -
  show ?thesis
  proof (cases keyfunc)
    case None
    then show ?thesis using assms by (auto simp: listsort_def intro!: sort_finish_stack sort_phase_stack)
  next
    case (Some kf)
    have "length ws = length xs" if "decorate kf (env_new_wrapper env) [] xs = Inr ws" for ws
      using decorate_length [of kf "env_new_wrapper env" "[]" xs] that by simp
    then show ?thesis using Some assms by (auto simp: listsort_def intro!: sort_finish_stack sort_phase_stack split: sum.splits)
  qed
qed

theorem listsort_stack_suffices_witness:
  "fst (listsort \<lparr>env_rich = \<lambda>x y. None, env_malloc = \<lambda>_. False, env_new_wrapper = \<lambda>_. False,
             env_new_cmpwrapper = True, env_warn_ok = True, env_modified = True\<rparr> None None False (replicate 117842 (0 :: int))) \<noteq> Overflowed"
  by (rule listsort_stack_suffices) simp

text \<open>If the key function raises, the list is as it was.\<close>

theorem listsort_key_error:
  assumes "\<forall>y \<in> set ys. kf y \<noteq> None" "kf x = None" "\<forall>i < length ys. env_new_wrapper env i"
  shows "listsort env cmp (Some kf) reverse (ys @ x # rest) = (Raised, map Object (ys @ x # rest))"
  using decorate_key_fails [OF assms(1,3,2)] by (simp add: listsort_def)

theorem listsort_key_error_witness:
  "listsort \<lparr>env_rich = \<lambda>x y. Some (x < y), env_malloc = \<lambda>_. True, env_new_wrapper = \<lambda>_. True,
             env_new_cmpwrapper = True, env_warn_ok = True, env_modified = False\<rparr>
     None (Some (\<lambda>x. if x = 0 then None else Some x)) True [5, 0, 7 :: int]
   = (Raised, [Object 5, Object 0, Object 7])"
  using listsort_key_error [of "[5 :: int]" "\<lambda>x. if x = 0 then None else Some x" 0] by simp

text \<open>C26. If there is no memory for the wrapper of an element, list.sort raises, and the elements
  before it are left in the list as wrappers: the list is no rearrangement of what it was.\<close>

theorem listsort_leaves_wrappers:
  assumes "\<forall>y \<in> set ys. kf y \<noteq> None" "kf x \<noteq> None" "\<forall>i < length ys. env_new_wrapper env i" "\<not> env_new_wrapper env (length ys)" "cmp = None"
  shows "listsort env cmp (Some kf) reverse (ys @ x # rest)
    = (Raised, map (\<lambda>y. Wrapped (Wrapper (the (kf y)) y)) ys @ map Object (x # rest))"
proof -
  have "length (wrappers kf ys) = length ys" "map Wrapped (wrappers kf ys) = map (\<lambda>y. Wrapped (Wrapper (the (kf y)) y)) ys"
    by (simp_all add: wrappers_def)
  then show ?thesis
    using decorate_steps [of ys kf "env_new_wrapper env" "[]" "x # rest"] assms
    by (auto simp: listsort_def build_sortwrapper_def)
qed

theorem listsort_leaves_wrappers_witness:
  "listsort \<lparr>env_rich = \<lambda>x y. Some (x < y), env_malloc = \<lambda>_. True, env_new_wrapper = \<lambda>i. i \<noteq> 1,
             env_new_cmpwrapper = True, env_warn_ok = True, env_modified = False\<rparr>
     None (Some Some) False [5, 4 :: int]
   = (Raised, [Wrapped (Wrapper 5 5), Object 4])"
  using listsort_leaves_wrappers [of "[5 :: int]" Some 4] by simp

text \<open>A list changed while it was sorted gets its sorted elements back, and ValueError is raised.\<close>

theorem listsort_modified:
  assumes "orders (ISLT (env_rich env) cmp) f" "sort_env_ok env (length xs)" "length xs \<le> 117842"
  shows "listsort (env\<lparr>env_modified := True\<rparr>) cmp None False xs = (List_modified, map Object (sort_key f xs))"
  using sort_phase_sorts [OF assms(1) _ assms(3), of "env_malloc env" False] assms(2)
  by (simp add: listsort_def sort_finish_def sort_env_ok_def)

theorem listsort_modified_witness:
  "listsort \<lparr>env_rich = \<lambda>x y. Some (x < y), env_malloc = \<lambda>_. True, env_new_wrapper = \<lambda>_. True,
             env_new_cmpwrapper = True, env_warn_ok = True, env_modified = True\<rparr> None None False [2, 1 :: int]
   = (List_modified, [Object 1, Object 2])"
  using listsort_modified [of "\<lparr>env_rich = \<lambda>x y. Some (x < y), env_malloc = \<lambda>_. True, env_new_wrapper = \<lambda>_. True,
             env_new_cmpwrapper = True, env_warn_ok = True, env_modified = False\<rparr>" None "\<lambda>x. x" "[2, 1 :: int]"]
  by (simp add: orders_def ISLT_def sort_env_ok_def memory_for_def)

text \<open>list.reverse reverses.\<close>

lemma listreverse_rev: "listreverse xs = rev xs"
  by (simp add: listreverse_def reverse_all_rev)

end
