(* ===== verification/Py_Probe.thy ===== *)
theory Py_Probe
  imports Prelude "HOL-Library.Word"
begin

text \<open>
  Objects/dictobject.c of CPython: the probe sequence of a dictionary. Each index
  comes from the one before by i = 5 * i + 1 + perturb in 64 bits, where perturb
  is shifted down until it is 0. From then on the low bits of the indices go
  through all values, which is why a lookup ends.
\<close>

section \<open>The recurrence\<close>

definition PERTURB_SHIFT :: nat where
  "PERTURB_SHIFT = 5"

definition next_probe :: "64 word \<Rightarrow> 64 word \<Rightarrow> 64 word" where
  "next_probe i perturb = push_bit 2 i + i + perturb + 1"

text \<open>The index and perturb after n steps, and the slot of step n for a hash value.\<close>

fun probe :: "64 word \<Rightarrow> 64 word \<Rightarrow> nat \<Rightarrow> 64 word \<times> 64 word" where
  "probe i perturb 0 = (i, perturb)"
| "probe i perturb (Suc n) = probe (next_probe i perturb) (drop_bit PERTURB_SHIFT perturb) n"

definition probe_slot :: "64 word \<Rightarrow> 64 word \<Rightarrow> nat \<Rightarrow> nat" where
  "probe_slot msk hash n = unat (fst (probe (hash AND msk) hash n) AND msk)"

lemma probe_add: "probe i p (m + n) = (case probe i p m of (i', p') \<Rightarrow> probe i' p' n)"
  by (induction m arbitrary: i p) auto

lemma probe_Suc: "probe i p (Suc n) = (case probe i p n of (i', p') \<Rightarrow> (next_probe i' p', drop_bit PERTURB_SHIFT p'))"
  using probe_add [of i p n 1] by simp

lemma probe_perturb: "snd (probe i p n) = drop_bit (5 * n) p"
  by (induction n arbitrary: i p) (simp_all add: PERTURB_SHIFT_def drop_bit_drop_bit add.commute)

lemma probe_unperturbed: "snd (probe i p 13) = 0"
  unfolding probe_perturb by (rule bit_word_eqI) (simp add: bit_drop_bit_eq)

section \<open>Going through all residues\<close>

definition step5 :: "nat \<Rightarrow> nat" where
  "step5 x = 5 * x + 1"

fun jump :: "nat \<Rightarrow> nat" where
  "jump 0 = 1"
| "jump (Suc k) = 2 * jump k * (1 + 2 * jump k)"

lemma step5_power: "(step5 ^^ (2 ^ k)) x = x + jump k * (4 * x + 1)"
proof (induction k arbitrary: x)
  case 0
  then show ?case by (simp add: step5_def)
next
  case (Suc k)
  have "(step5 ^^ (2 ^ Suc k)) x = (step5 ^^ (2 ^ k)) ((step5 ^^ (2 ^ k)) x)"
    by (simp add: mult_2 funpow_add)
  then show ?case by (simp add: Suc.IH algebra_simps)
qed

lemma jump_odd: "\<exists>m. jump k = 2 ^ k * (2 * m + 1)"
proof (induction k)
  case (Suc k)
  then obtain m where m: "jump k = 2 ^ k * (2 * m + 1)" by blast
  have "jump (Suc k) = 2 ^ Suc k * ((2 * m + 1) * (1 + 2 * jump k))" unfolding jump.simps(2) by (subst (1) m) (simp only: power_Suc mult_ac)
  also have "(2 * m + 1) * (1 + 2 * jump k) = 2 * (m + jump k + 2 * m * jump k) + 1"
    by (simp add: algebra_simps)
  finally show ?case by blast
qed simp

lemma step5_half: "(step5 ^^ (2 ^ k)) x mod 2 ^ Suc k = (x + 2 ^ k) mod 2 ^ Suc k"
proof -
  obtain m where m: "jump k = 2 ^ k * (2 * m + 1)" using jump_odd by blast
  have "(step5 ^^ (2 ^ k)) x = x + 2 ^ k + 2 ^ Suc k * (m * (4 * x + 1) + 2 * x)"
    by (simp add: step5_power m algebra_simps)
  then show ?thesis by (metis mod_mult_self2)
qed

lemma step5_mod: "x mod m = y mod m \<Longrightarrow> (step5 ^^ n) x mod m = (step5 ^^ n) y mod m"
proof (induction n)
  case (Suc n)
  then show ?case by (simp add: step5_def) (metis Suc_eq_plus1 mod_add_left_eq mod_mult_right_eq)
qed simp

lemma parity_cases: "(a::nat) mod 2 = b mod 2 \<or> (a + 1) mod 2 = b mod 2"
  by presburger

lemma mod_double_cases:
  fixes x t :: nat
  assumes "x mod 2 ^ k = t mod 2 ^ k"
  shows "x mod 2 ^ Suc k = t mod 2 ^ Suc k \<or> (x + 2 ^ k) mod 2 ^ Suc k = t mod 2 ^ Suc k"
proof -
  have split: "y mod 2 ^ Suc k = y mod 2 ^ k + 2 ^ k * (y div 2 ^ k mod 2)" for y :: nat
    using mod_mult2_eq [of y "2 ^ k" 2] by (simp add: mult.commute)
  have "(x + 2 ^ k) mod 2 ^ Suc k = x mod 2 ^ k + 2 ^ k * ((x div 2 ^ k + 1) mod 2)"
    unfolding split [of "x + 2 ^ k"] by (simp add: div_add_self2 del: add_2_eq_Suc')
  then show ?thesis using parity_cases [of "x div 2 ^ k" "t div 2 ^ k"] split [of x] split [of t] assms by metis
qed

lemma step5_covers: "\<exists>n < 2 ^ k. (step5 ^^ n) x mod 2 ^ k = t mod 2 ^ k"
proof (induction k arbitrary: x t)
  case (Suc k)
  then obtain n where n: "n < 2 ^ k" "(step5 ^^ n) x mod 2 ^ k = t mod 2 ^ k" by blast
  have "(step5 ^^ (2 ^ k + n)) x mod 2 ^ Suc k = ((step5 ^^ n) x + 2 ^ k) mod 2 ^ Suc k"
    using step5_half [of k "(step5 ^^ n) x"] by (simp add: funpow_add)
  note add = this
  from mod_double_cases [OF n(2)] show ?case
  proof
    assume "(step5 ^^ n) x mod 2 ^ Suc k = t mod 2 ^ Suc k"
    then show ?thesis using n(1) by (intro exI [of _ n]) simp
  next
    assume "((step5 ^^ n) x + 2 ^ k) mod 2 ^ Suc k = t mod 2 ^ Suc k"
    then show ?thesis using add n(1) by (intro exI [of _ "2 ^ k + n"]) simp
  qed
qed simp

section \<open>The slots that a lookup probes\<close>

lemma probe_zero: "unat (fst (probe i 0 n)) mod 2 ^ 64 = (step5 ^^ n) (unat i) mod 2 ^ 64"
proof (induction n arbitrary: i)
  case (Suc n)
  have "unat (next_probe i 0) mod 2 ^ 64 = step5 (unat i) mod 2 ^ 64"
    by (simp add: next_probe_def step5_def unat_word_ariths push_bit_eq_mult mod_simps)
  then show ?case using Suc.IH [of "next_probe i 0"] step5_mod [of "unat (next_probe i 0)" "2 ^ 64" "step5 (unat i)" n]
    by (simp add: funpow_swap1)
qed simp

lemma unat_and_mask: "k \<le> 64 \<Longrightarrow> unat (i AND mask k :: 64 word) = unat i mod 2 ^ k"
  by (simp add: take_bit_eq_mask [symmetric] unsigned_take_bit_eq)
    (simp add: take_bit_eq_mod)

theorem probe_covers:
  assumes k: "k \<le> 64" and s: "s < 2 ^ k"
  shows "\<exists>n. 13 \<le> n \<and> n < 13 + 2 ^ k \<and> probe_slot (mask k) h n = s"
proof -
  obtain i where i: "probe (h AND mask k) h 13 = (i, 0)"
    using probe_unperturbed [of "h AND mask k" h] by (metis prod.collapse)
  obtain n where n: "n < 2 ^ k" "(step5 ^^ n) (unat i) mod 2 ^ k = s mod 2 ^ k" using step5_covers by blast
  have dvd: "(2 ^ k :: nat) dvd 2 ^ 64" using k by (rule le_imp_power_dvd)
  have "unat (fst (probe i 0 n)) mod 2 ^ k = (step5 ^^ n) (unat i) mod 2 ^ k"
    using arg_cong [OF probe_zero [of i n], of "\<lambda>x. x mod 2 ^ k"] unfolding mod_mod_cancel [OF dvd] .
  then have m: "unat (fst (probe i 0 n)) mod 2 ^ k = s" using n(2) s by simp
  have "probe_slot (mask k) h (13 + n) = unat (fst (probe i 0 n) AND mask k)"
    unfolding probe_slot_def probe_add [of _ _ 13 n] i by (simp only: prod.case)
  then have "probe_slot (mask k) h (13 + n) = s" unfolding unat_and_mask [OF k] m .
  then show ?thesis using n(1) by (intro exI [of _ "13 + n"]) simp
qed

end
