(* ===== verification/Py_Lookdict.thy ===== *)
theory Py_Lookdict
  imports Py_Probe
begin

text \<open>
  Objects/dictobject.c of CPython: the two lookup functions, lookdict and
  lookdict_string, over a table of slots. Comparing keys runs the code of the
  objects, which is a parameter (key_ops): it may raise an exception and need
  not be lawful, but it does not change the dictionary, so the restart of a
  lookup after such a change (both "start over" branches of lookdict, which need
  not terminate against an adversary) is not modelled. Identity of objects is
  equality of the model.

  A lookup that does not return is None. The contract probe_search says exactly
  when a search along the probe sequence returns and with which slot; both
  lookup functions are interpretations of it.
\<close>

section \<open>Keys and slots\<close>

text \<open>
  What the interpreter asks of an object: whether it is exactly a str, its hash
  (ob_shash for a str, PyObject_Hash otherwise, None for an exception), and
  comparison for equality (of two strs, and tp_richcompare with None for an
  exception).
\<close>

record 'o key_ops =
  isstr :: "'o \<Rightarrow> bool"
  shash :: "'o \<Rightarrow> 64 word"
  objhash :: "'o \<Rightarrow> 64 word option"
  string_eq :: "'o \<Rightarrow> 'o \<Rightarrow> bool"
  richcmp :: "'o \<Rightarrow> 'o \<Rightarrow> bool option"

definition PyObject_RichCompareBool :: "'o key_ops \<Rightarrow> 'o \<Rightarrow> 'o \<Rightarrow> bool option" where
  "PyObject_RichCompareBool E v w = (if v = w then Some True else richcmp E v w)"

datatype 'o keyptr = Null | Dummy | Key (the_key: 'o)

record ('o, 'v) dict_entry =
  me_hash :: "64 word"
  me_key :: "'o keyptr"
  me_value :: "'v option"

datatype lookup = Slot nat | Raised

section \<open>The lookup functions\<close>

partial_function (option) lookdict_loop ::
  "'o key_ops \<Rightarrow> ('o, 'v) dict_entry list \<Rightarrow> 64 word \<Rightarrow> 'o \<Rightarrow> 64 word
     \<Rightarrow> 64 word \<Rightarrow> 64 word \<Rightarrow> nat option \<Rightarrow> lookup option" where
  "lookdict_loop E ep0 msk key hash i perturb freeslot =
     (let i = next_probe i perturb; s = unat (i AND msk); ep = ep0 ! s in
      case me_key ep of
        Null \<Rightarrow> Some (Slot (case freeslot of None \<Rightarrow> s | Some f \<Rightarrow> f))
      | Dummy \<Rightarrow> lookdict_loop E ep0 msk key hash i (drop_bit PERTURB_SHIFT perturb)
          (if freeslot = None then Some s else freeslot)
      | Key startkey \<Rightarrow>
          if startkey = key then Some (Slot s)
          else if me_hash ep = hash then
            (case PyObject_RichCompareBool E startkey key of
               None \<Rightarrow> Some Raised
             | Some c \<Rightarrow> if c then Some (Slot s)
                 else lookdict_loop E ep0 msk key hash i (drop_bit PERTURB_SHIFT perturb) freeslot)
          else lookdict_loop E ep0 msk key hash i (drop_bit PERTURB_SHIFT perturb) freeslot)"

definition lookdict ::
  "'o key_ops \<Rightarrow> ('o, 'v) dict_entry list \<Rightarrow> 64 word \<Rightarrow> 'o \<Rightarrow> 64 word \<Rightarrow> lookup option" where
  "lookdict E ep0 msk key hash =
     (let i = hash AND msk; s = unat i; ep = ep0 ! s in
      case me_key ep of
        Null \<Rightarrow> Some (Slot s)
      | Dummy \<Rightarrow> lookdict_loop E ep0 msk key hash i hash (Some s)
      | Key startkey \<Rightarrow>
          if startkey = key then Some (Slot s)
          else if me_hash ep = hash then
            (case PyObject_RichCompareBool E startkey key of
               None \<Rightarrow> Some Raised
             | Some c \<Rightarrow> if c then Some (Slot s) else lookdict_loop E ep0 msk key hash i hash None)
          else lookdict_loop E ep0 msk key hash i hash None)"

partial_function (option) lookdict_string_loop ::
  "'o key_ops \<Rightarrow> ('o, 'v) dict_entry list \<Rightarrow> 64 word \<Rightarrow> 'o \<Rightarrow> 64 word
     \<Rightarrow> 64 word \<Rightarrow> 64 word \<Rightarrow> nat option \<Rightarrow> lookup option" where
  "lookdict_string_loop E ep0 msk key hash i perturb freeslot =
     (let i = next_probe i perturb; s = unat (i AND msk); ep = ep0 ! s in
      case me_key ep of
        Null \<Rightarrow> Some (Slot (case freeslot of None \<Rightarrow> s | Some f \<Rightarrow> f))
      | Dummy \<Rightarrow> lookdict_string_loop E ep0 msk key hash i (drop_bit PERTURB_SHIFT perturb)
          (if freeslot = None then Some s else freeslot)
      | Key k \<Rightarrow>
          if k = key \<or> (me_hash ep = hash \<and> string_eq E k key) then Some (Slot s)
          else lookdict_string_loop E ep0 msk key hash i (drop_bit PERTURB_SHIFT perturb) freeslot)"

text \<open>The part of lookdict_string after the test that the key is a str.\<close>

definition lookdict_string ::
  "'o key_ops \<Rightarrow> ('o, 'v) dict_entry list \<Rightarrow> 64 word \<Rightarrow> 'o \<Rightarrow> 64 word \<Rightarrow> lookup option" where
  "lookdict_string E ep0 msk key hash =
     (let i = hash AND msk; s = unat i; ep = ep0 ! s in
      case me_key ep of
        Null \<Rightarrow> Some (Slot s)
      | Dummy \<Rightarrow> lookdict_string_loop E ep0 msk key hash i hash (Some s)
      | Key k \<Rightarrow>
          if k = key \<or> (me_hash ep = hash \<and> string_eq E k key) then Some (Slot s)
          else lookdict_string_loop E ep0 msk key hash i hash None)"

declare lookdict_loop.simps [code] lookdict_string_loop.simps [code]

section \<open>Searching along the probe sequence\<close>

text \<open>What a lookup decides at a slot.\<close>

datatype verdict = V_Null | V_Dummy | V_Hit | V_Miss | V_Raise

definition verdict_of ::
  "('o \<Rightarrow> 'o \<Rightarrow> bool option) \<Rightarrow> 'o \<Rightarrow> 64 word \<Rightarrow> ('o, 'v) dict_entry \<Rightarrow> verdict" where
  "verdict_of eq key hash ep = (case me_key ep of
     Null \<Rightarrow> V_Null
   | Dummy \<Rightarrow> V_Dummy
   | Key k \<Rightarrow>
       if k = key then V_Hit
       else if me_hash ep = hash then
         (case eq k key of None \<Rightarrow> V_Raise | Some c \<Rightarrow> if c then V_Hit else V_Miss)
       else V_Miss)"

definition decisive :: "verdict \<Rightarrow> bool" where
  "decisive v \<longleftrightarrow> v = V_Null \<or> v = V_Hit \<or> v = V_Raise"

text \<open>One round at slot s, with the rest of the search as a function of the free slot.\<close>

definition search_round ::
  "(nat \<Rightarrow> verdict) \<Rightarrow> nat \<Rightarrow> nat option \<Rightarrow> (nat option \<Rightarrow> lookup option) \<Rightarrow> lookup option" where
  "search_round verdict s freeslot rest = (case verdict s of
     V_Null \<Rightarrow> Some (Slot (case freeslot of None \<Rightarrow> s | Some f \<Rightarrow> f))
   | V_Dummy \<Rightarrow> rest (if freeslot = None then Some s else freeslot)
   | V_Hit \<Rightarrow> Some (Slot s)
   | V_Miss \<Rightarrow> rest freeslot
   | V_Raise \<Rightarrow> Some Raised)"

text \<open>
  The result of a search that is decided at step n of the probe sequence ps: a slot
  that holds the key, an exception, or the slot to insert the key into, which is
  the first deleted one.
\<close>

definition search_result :: "(nat \<Rightarrow> verdict) \<Rightarrow> (nat \<Rightarrow> nat) \<Rightarrow> nat option \<Rightarrow> nat list \<Rightarrow> nat \<Rightarrow> lookup" where
  "search_result verdict ps freeslot before n = (case verdict (ps n) of
     V_Hit \<Rightarrow> Slot (ps n)
   | V_Raise \<Rightarrow> Raised
   | _ \<Rightarrow> Slot (case freeslot of Some f \<Rightarrow> f | None \<Rightarrow>
        (case find (\<lambda>m. verdict (ps m) = V_Dummy) before of None \<Rightarrow> ps n | Some m \<Rightarrow> ps m)))"

lemma decisive_simps [simp]:
  "decisive V_Null" "\<not> decisive V_Dummy" "decisive V_Hit" "\<not> decisive V_Miss" "decisive V_Raise"
  by (simp_all add: decisive_def)

lemma search_result_simps:
  "verdict (ps m) = V_Dummy \<Longrightarrow> search_result verdict ps free (m # ms) n
     = search_result verdict ps (if free = None then Some (ps m) else free) ms n"
  "verdict (ps m) = V_Miss \<Longrightarrow> search_result verdict ps free (m # ms) n = search_result verdict ps free ms n"
  by (simp_all add: search_result_def split: option.split)

locale probe_search =
  fixes msk hash :: "64 word"
    and verdict :: "nat \<Rightarrow> verdict"
    and loop :: "64 word \<Rightarrow> 64 word \<Rightarrow> nat option \<Rightarrow> lookup option"
    and start :: "lookup option"
  assumes loop_round: "loop i p free =
      search_round verdict (unat (next_probe i p AND msk)) free
        (loop (next_probe i p) (drop_bit PERTURB_SHIFT p))"
    and loop_least: "loop i p free = Some r \<Longrightarrow>
      \<exists>n. decisive (verdict (unat (fst (probe i p (Suc n)) AND msk)))"
    and start_round: "start =
      search_round verdict (unat (hash AND msk)) None (loop (hash AND msk) hash)"
begin

abbreviation ps :: "nat \<Rightarrow> nat" where
  "ps \<equiv> probe_slot msk hash"

lemma loop_decided:
  assumes "probe (hash AND msk) hash n = (i, p)" and "decisive (verdict (ps (Suc n + d)))"
    and "\<forall>m < d. \<not> decisive (verdict (ps (Suc n + m)))"
  shows "loop i p free = Some (search_result verdict ps free [Suc n..<Suc n + d] (Suc n + d))"
  using assms
proof (induction d arbitrary: n i p free)
  case 0
  have slot: "unat (next_probe i p AND msk) = ps (Suc n)"
    using 0(1) unfolding probe_slot_def probe_Suc by simp
  show ?case using 0(2) unfolding loop_round [of i p] slot
    by (auto simp: search_round_def search_result_def decisive_def split: verdict.splits option.splits)
next
  case (Suc d)
  have next_state: "probe (hash AND msk) hash (Suc n) = (next_probe i p, drop_bit PERTURB_SHIFT p)"
    using Suc.prems(1) unfolding probe_Suc by simp
  have slot: "unat (next_probe i p AND msk) = ps (Suc n)"
    unfolding probe_slot_def next_state by simp
  have later: "\<forall>m < d. \<not> decisive (verdict (ps (Suc (Suc n) + m)))"
    using Suc.prems(3) by (auto dest: spec [of _ "Suc _"])
  have dec: "decisive (verdict (ps (Suc (Suc n) + d)))" using Suc.prems(2) by simp
  note IH = Suc.IH [OF next_state dec later]
  have undecided: "\<not> decisive (verdict (ps (Suc n)))" using Suc.prems(3) by (metis add_0_right zero_less_Suc)
  have range: "[Suc n..<Suc (Suc n) + d] = Suc n # [Suc (Suc n)..<Suc (Suc n) + d]"
    by (simp add: upt_conv_Cons)
  have last: "Suc n + Suc d = Suc (Suc n) + d" by simp
  show ?case unfolding loop_round [of i p] slot search_round_def last IH range
    using undecided by (cases "verdict (ps (Suc n))")
      (simp_all only: verdict.case decisive_simps search_result_simps not_True_eq_False)
qed

theorem start_decided:
  assumes "decisive (verdict (ps n))" and "\<forall>m < n. \<not> decisive (verdict (ps m))"
  shows "start = Some (search_result verdict ps None [0..<n] n)"
proof (cases n)
  case 0
  have slot: "unat (hash AND msk) = ps 0" by (simp add: probe_slot_def and.assoc)
  show ?thesis using assms(1) 0 unfolding start_round slot
    by (auto simp: search_round_def search_result_def decisive_def split: verdict.splits)
next
  case (Suc d)
  have slot: "unat (hash AND msk) = ps 0" by (simp add: probe_slot_def and.assoc)
  have undecided: "\<not> decisive (verdict (ps 0))" using assms(2) Suc by simp
  have dec: "decisive (verdict (ps (Suc 0 + d)))" using assms(1) Suc by simp
  have before: "\<forall>m < d. \<not> decisive (verdict (ps (Suc 0 + m)))" using assms(2) Suc by simp
  have init: "probe (hash AND msk) hash 0 = (hash AND msk, hash)" by simp
  have range: "[0..<n] = 0 # [Suc 0..<Suc 0 + d]" unfolding Suc by (simp add: upt_conv_Cons)
  have n: "n = Suc 0 + d" using Suc by simp
  show ?thesis unfolding start_round slot search_round_def range loop_decided [OF init dec before]
    using undecided unfolding n by (cases "verdict (ps 0)")
      (simp_all only: verdict.case decisive_simps search_result_simps not_True_eq_False if_True)
qed

theorem start_undecided:
  assumes "\<forall>n. \<not> decisive (verdict (ps n))"
  shows "start = None"
proof (rule ccontr)
  assume "start \<noteq> None"
  then obtain r where r: "start = Some r" by blast
  have slot: "unat (hash AND msk) = ps 0" by (simp add: probe_slot_def and.assoc)
  have "\<not> decisive (verdict (ps 0))" using assms by blast
  then obtain free where "loop (hash AND msk) hash free = Some r"
    using r unfolding start_round slot
    by (auto simp: search_round_def decisive_def split: verdict.splits)
  from loop_least [OF this] assms show False unfolding probe_slot_def by blast
qed

lemma decided_at_least:
  assumes "decisive (verdict (ps n))"
  obtains N where "N \<le> n" "decisive (verdict (ps N))" "\<forall>m < N. \<not> decisive (verdict (ps m))"
proof (rule that [of "LEAST n. decisive (verdict (ps n))"])
  show "(LEAST n. decisive (verdict (ps n))) \<le> n" by (rule Least_le) fact
  show "decisive (verdict (ps (LEAST n. decisive (verdict (ps n)))))" by (rule LeastI) fact
  show "\<forall>m < (LEAST n. decisive (verdict (ps n))). \<not> decisive (verdict (ps m))"
    by (blast dest: not_less_Least)
qed

corollary start_returns: "start \<noteq> None \<longleftrightarrow> (\<exists>n. decisive (verdict (ps n)))"
proof
  assume "\<exists>n. decisive (verdict (ps n))"
  then obtain N where "decisive (verdict (ps N))" "\<forall>m < N. \<not> decisive (verdict (ps m))"
    using decided_at_least by blast
  from start_decided [OF this] show "start \<noteq> None" by simp
qed (use start_undecided in blast)

end

section \<open>The lookup functions are such searches\<close>

lemma lookdict_loop_round:
  "lookdict_loop E t msk key hash i p free =
     search_round (\<lambda>s. verdict_of (PyObject_RichCompareBool E) key hash (t ! s))
       (unat (next_probe i p AND msk)) free
       (lookdict_loop E t msk key hash (next_probe i p) (drop_bit PERTURB_SHIFT p))"
  by (subst lookdict_loop.simps)
    (simp add: Let_def search_round_def verdict_of_def split: keyptr.splits option.splits)

lemma lookdict_start_round:
  "lookdict E t msk key hash =
     search_round (\<lambda>s. verdict_of (PyObject_RichCompareBool E) key hash (t ! s))
       (unat (hash AND msk)) None (lookdict_loop E t msk key hash (hash AND msk) hash)"
  by (simp add: lookdict_def Let_def search_round_def verdict_of_def split: keyptr.splits option.splits)

lemma lookdict_string_loop_round:
  "lookdict_string_loop E t msk key hash i p free =
     search_round (\<lambda>s. verdict_of (\<lambda>a b. Some (string_eq E a b)) key hash (t ! s))
       (unat (next_probe i p AND msk)) free
       (lookdict_string_loop E t msk key hash (next_probe i p) (drop_bit PERTURB_SHIFT p))"
  by (subst lookdict_string_loop.simps)
    (simp add: Let_def search_round_def verdict_of_def split: keyptr.splits option.splits)

lemma lookdict_string_start_round:
  "lookdict_string E t msk key hash =
     search_round (\<lambda>s. verdict_of (\<lambda>a b. Some (string_eq E a b)) key hash (t ! s))
       (unat (hash AND msk)) None (lookdict_string_loop E t msk key hash (hash AND msk) hash)"
  by (simp add: lookdict_string_def Let_def search_round_def verdict_of_def split: keyptr.splits option.splits)

text \<open>A loop that has returned has come to a slot that decides.\<close>

lemma search_round_returned:
  assumes "search_round verdict (unat (next_probe i p AND msk)) free rest = Some r"
    and "\<And>free'. rest free' = Some r \<Longrightarrow>
      \<exists>n. decisive (verdict (unat (fst (probe (next_probe i p) (drop_bit PERTURB_SHIFT p) (Suc n)) AND msk)))"
  shows "\<exists>n. decisive (verdict (unat (fst (probe i p (Suc n)) AND msk)))"
proof (cases "decisive (verdict (unat (next_probe i p AND msk)))")
  case True
  then show ?thesis by (intro exI [of _ 0]) simp
next
  case False
  then obtain free' where "rest free' = Some r"
    using assms(1) by (auto simp: search_round_def decisive_def split: verdict.splits)
  from assms(2) [OF this] obtain n where
    "decisive (verdict (unat (fst (probe (next_probe i p) (drop_bit PERTURB_SHIFT p) (Suc n)) AND msk)))" ..
  then show ?thesis by (intro exI [of _ "Suc n"]) simp
qed

lemma lookdict_loop_returned:
  assumes "lookdict_loop E t msk key hash i p free = Some r"
  shows "\<exists>n. decisive (verdict_of (PyObject_RichCompareBool E) key hash
    (t ! unat (fst (probe i p (Suc n)) AND msk)))"
proof (rule lookdict_loop.raw_induct [where P = "\<lambda>E t msk key hash i p free r.
    \<exists>n. decisive (verdict_of (PyObject_RichCompareBool E) key hash (t ! unat (fst (probe i p (Suc n)) AND msk)))",
    OF _ assms])
  fix loop :: "'a key_ops \<Rightarrow> ('a, 'b) dict_entry list \<Rightarrow> 64 word \<Rightarrow> 'a \<Rightarrow> 64 word
     \<Rightarrow> 64 word \<Rightarrow> 64 word \<Rightarrow> nat option \<Rightarrow> lookup option"
    and E :: "'a key_ops" and t :: "('a, 'b) dict_entry list" and msk key hash i p free r
  assume IH: "\<And>E t msk key hash i p free r. loop E t msk key hash i p free = Some r \<Longrightarrow>
      \<exists>n. decisive (verdict_of (PyObject_RichCompareBool E) key hash (t ! unat (fst (probe i p (Suc n)) AND msk)))"
  let ?v = "\<lambda>s. verdict_of (PyObject_RichCompareBool E) key hash (t ! s)"
  let ?rest = "loop E t msk key hash (next_probe i p) (drop_bit PERTURB_SHIFT p)"
  assume "(let i = next_probe i p; s = unat (i AND msk); ep = t ! s in
      case me_key ep of
        Null \<Rightarrow> Some (Slot (case free of None \<Rightarrow> s | Some f \<Rightarrow> f))
      | Dummy \<Rightarrow> loop E t msk key hash i (drop_bit PERTURB_SHIFT p) (if free = None then Some s else free)
      | Key startkey \<Rightarrow>
          if startkey = key then Some (Slot s)
          else if me_hash ep = hash then
            (case PyObject_RichCompareBool E startkey key of
               None \<Rightarrow> Some Raised
             | Some c \<Rightarrow> if c then Some (Slot s)
                 else loop E t msk key hash i (drop_bit PERTURB_SHIFT p) free)
          else loop E t msk key hash i (drop_bit PERTURB_SHIFT p) free) = Some r"
  then have "search_round ?v (unat (next_probe i p AND msk)) free ?rest = Some r"
    by (cases "me_key (t ! unat (next_probe i p AND msk))")
      (auto simp: Let_def search_round_def verdict_of_def split: option.splits if_splits)
  then show "\<exists>n. decisive (?v (unat (fst (probe i p (Suc n)) AND msk)))"
    by (rule search_round_returned) (rule IH)
qed

lemma lookdict_string_loop_returned:
  assumes "lookdict_string_loop E t msk key hash i p free = Some r"
  shows "\<exists>n. decisive (verdict_of (\<lambda>a b. Some (string_eq E a b)) key hash
    (t ! unat (fst (probe i p (Suc n)) AND msk)))"
proof (rule lookdict_string_loop.raw_induct [where P = "\<lambda>E t msk key hash i p free r.
    \<exists>n. decisive (verdict_of (\<lambda>a b. Some (string_eq E a b)) key hash (t ! unat (fst (probe i p (Suc n)) AND msk)))",
    OF _ assms])
  fix loop :: "'a key_ops \<Rightarrow> ('a, 'b) dict_entry list \<Rightarrow> 64 word \<Rightarrow> 'a \<Rightarrow> 64 word
     \<Rightarrow> 64 word \<Rightarrow> 64 word \<Rightarrow> nat option \<Rightarrow> lookup option"
    and E :: "'a key_ops" and t :: "('a, 'b) dict_entry list" and msk key hash i p free r
  assume IH: "\<And>E t msk key hash i p free r. loop E t msk key hash i p free = Some r \<Longrightarrow>
      \<exists>n. decisive (verdict_of (\<lambda>a b. Some (string_eq E a b)) key hash (t ! unat (fst (probe i p (Suc n)) AND msk)))"
  let ?v = "\<lambda>s. verdict_of (\<lambda>a b. Some (string_eq E a b)) key hash (t ! s)"
  let ?rest = "loop E t msk key hash (next_probe i p) (drop_bit PERTURB_SHIFT p)"
  assume "(let i = next_probe i p; s = unat (i AND msk); ep = t ! s in
      case me_key ep of
        Null \<Rightarrow> Some (Slot (case free of None \<Rightarrow> s | Some f \<Rightarrow> f))
      | Dummy \<Rightarrow> loop E t msk key hash i (drop_bit PERTURB_SHIFT p) (if free = None then Some s else free)
      | Key k \<Rightarrow>
          if k = key \<or> (me_hash ep = hash \<and> string_eq E k key) then Some (Slot s)
          else loop E t msk key hash i (drop_bit PERTURB_SHIFT p) free) = Some r"
  then have "search_round ?v (unat (next_probe i p AND msk)) free ?rest = Some r"
    by (cases "me_key (t ! unat (next_probe i p AND msk))")
      (auto simp: Let_def search_round_def verdict_of_def split: option.splits if_splits)
  then show "\<exists>n. decisive (?v (unat (fst (probe i p (Suc n)) AND msk)))"
    by (rule search_round_returned) (rule IH)
qed

interpretation general: probe_search msk hash
    "\<lambda>s. verdict_of (PyObject_RichCompareBool E) key hash (t ! s)"
    "lookdict_loop E t msk key hash" "lookdict E t msk key hash" for E t msk key hash
  by unfold_locales (rule lookdict_loop_round, erule lookdict_loop_returned, rule lookdict_start_round)

interpretation strings: probe_search msk hash
    "\<lambda>s. verdict_of (\<lambda>a b. Some (string_eq E a b)) key hash (t ! s)"
    "lookdict_string_loop E t msk key hash" "lookdict_string E t msk key hash" for E t msk key hash
  by unfold_locales (rule lookdict_string_loop_round, erule lookdict_string_loop_returned,
      rule lookdict_string_start_round)

section \<open>Lookups in a table\<close>

text \<open>A table of a power of two slots, as ma_mask describes it.\<close>

definition table_shape :: "'a list \<Rightarrow> 64 word \<Rightarrow> bool" where
  "table_shape t msk \<longleftrightarrow> (\<exists>k \<le> 58. length t = 2 ^ k \<and> msk = mask k)"

lemma table_shape_update [simp]: "table_shape (t[s := e]) msk = table_shape t msk"
  by (simp add: table_shape_def)

lemma probe_in_table: "table_shape t msk \<Longrightarrow> probe_slot msk h n < length t"
  unfolding table_shape_def probe_slot_def by (auto simp: unat_and_mask)

lemma probe_reaches:
  assumes "table_shape t msk" "s < length t"
  shows "\<exists>n. n < 13 + length t \<and> probe_slot msk h n = s"
proof -
  obtain k where "k \<le> 58" "length t = 2 ^ k" "msk = mask k" using assms(1) by (auto simp: table_shape_def)
  then show ?thesis using probe_covers [of k s h] assms(2) by auto
qed

text \<open>A slot that a search for hash comes to, unless it ends before.\<close>

definition reach :: "('o, 'v) dict_entry list \<Rightarrow> 64 word \<Rightarrow> 64 word \<Rightarrow> nat \<Rightarrow> bool" where
  "reach t msk h s \<longleftrightarrow> (\<exists>n. probe_slot msk h n = s \<and> (\<forall>m < n. me_key (t ! probe_slot msk h m) \<noteq> Null))"

lemma verdict_Null: "verdict_of eq key h e = V_Null \<longleftrightarrow> me_key e = Null"
  by (auto simp: verdict_of_def split: keyptr.splits option.splits if_splits)

lemma verdict_Dummy: "verdict_of eq key h e = V_Dummy \<longleftrightarrow> me_key e = Dummy"
  by (auto simp: verdict_of_def split: keyptr.splits option.splits if_splits)

lemma verdict_Hit: "verdict_of eq key h e = V_Hit \<longleftrightarrow>
    (\<exists>k. me_key e = Key k \<and> (k = key \<or> me_hash e = h \<and> eq k key = Some True))"
  by (auto simp: verdict_of_def split: keyptr.splits option.splits if_splits)

lemma verdict_Raise: "verdict_of eq key h e = V_Raise \<longleftrightarrow>
    (\<exists>k. me_key e = Key k \<and> k \<noteq> key \<and> me_hash e = h \<and> eq k key = None)"
  by (auto simp: verdict_of_def split: keyptr.splits option.splits if_splits)

context probe_search
begin

text \<open>What a client learns from the slot that a search returns.\<close>

lemma start_slot:
  assumes "start = Some r" and null: "\<And>s. verdict s = V_Null \<longleftrightarrow> me_key (t ! s) = Null"
  shows "case r of
      Raised \<Rightarrow> \<exists>n. verdict (ps n) = V_Raise
    | Slot s \<Rightarrow> verdict s = V_Hit \<and> reach t msk hash s
        \<or> (verdict s = V_Null \<or> verdict s = V_Dummy) \<and> reach t msk hash s
          \<and> (\<forall>s'. reach t msk hash s' \<longrightarrow> verdict s' \<noteq> V_Hit \<and> verdict s' \<noteq> V_Raise)"
proof -
  have "\<exists>n. decisive (verdict (ps n))" using start_undecided assms(1) by auto
  then obtain N where N: "decisive (verdict (ps N))" "\<forall>m < N. \<not> decisive (verdict (ps m))"
    using decided_at_least by blast
  have r: "r = search_result verdict ps None [0..<N] N" using start_decided [OF N] assms(1) by simp
  have path: "reach t msk hash (ps n)" if "n \<le> N" for n
    unfolding reach_def using that N(2) null by (intro exI [of _ n]) (force simp: decisive_def)
  have all: "verdict s' \<noteq> V_Hit \<and> verdict s' \<noteq> V_Raise" if "verdict (ps N) = V_Null" and "reach t msk hash s'" for s'
  proof -
    note null_end = that(1) and reached = that(2)
    obtain n where n: "ps n = s'" "\<forall>m < n. me_key (t ! ps m) \<noteq> Null" using reached by (auto simp: reach_def)
    have "n \<le> N" using n(2) null_end null by (metis not_le)
    then have "n < N \<or> n = N" by auto
    then have "\<not> decisive (verdict (ps n)) \<or> verdict (ps n) = V_Null" using N(2) null_end by blast
    then show ?thesis using n(1) by (auto simp: decisive_def)
  qed
  consider "verdict (ps N) = V_Hit" | "verdict (ps N) = V_Raise" | "verdict (ps N) = V_Null"
    using N(1) by (auto simp: decisive_def)
  then show ?thesis
  proof cases
    case 3
    show ?thesis
    proof (cases "find (\<lambda>m. verdict (ps m) = V_Dummy) [0..<N]")
      case None
      then show ?thesis using 3 r path [of N] all [OF 3] by (auto simp: search_result_def)
    next
      case (Some m)
      then have "verdict (ps m) = V_Dummy" "m < N" by (auto simp: find_Some_iff)
      then show ?thesis using 3 Some r path [of m] all [OF 3] by (auto simp: search_result_def)
    qed
  qed (use r path [of N] in \<open>auto simp: search_result_def\<close>)
qed

end

theorem lookdict_returns:
  assumes "table_shape t msk" and "\<exists>e \<in> set t. me_key e = Null"
  shows "lookdict E t msk key hash \<noteq> None"
proof -
  obtain s where s: "s < length t" "me_key (t ! s) = Null" using assms(2) by (metis in_set_conv_nth)
  obtain n where "probe_slot msk hash n = s" using probe_reaches [OF assms(1) s(1)] by blast
  then show ?thesis unfolding general.start_returns using s(2) by (auto intro!: exI [of _ n] simp: decisive_def verdict_Null)
qed

lemma lookdict_string_returns:
  assumes "table_shape t msk" and "\<exists>e \<in> set t. me_key e = Null"
  shows "lookdict_string E t msk key hash \<noteq> None"
proof -
  obtain s where s: "s < length t" "me_key (t ! s) = Null" using assms(2) by (metis in_set_conv_nth)
  obtain n where "probe_slot msk hash n = s" using probe_reaches [OF assms(1) s(1)] by blast
  then show ?thesis unfolding strings.start_returns using s(2) by (auto intro!: exI [of _ n] simp: decisive_def verdict_Null)
qed

text \<open>A key that no comparison finds: the search ends exactly if there is an unused slot.\<close>

theorem lookdict_absent_returns_iff:
  assumes "table_shape t msk"
    and "\<forall>e \<in> set t. \<forall>k. me_key e = Key k \<longrightarrow> k \<noteq> key \<and> PyObject_RichCompareBool E k key = Some False"
  shows "lookdict E t msk key hash \<noteq> None \<longleftrightarrow> (\<exists>e \<in> set t. me_key e = Null)"
proof
  assume "lookdict E t msk key hash \<noteq> None"
  then obtain n where n: "decisive (verdict_of (PyObject_RichCompareBool E) key hash (t ! probe_slot msk hash n))"
    unfolding general.start_returns by blast
  have "t ! probe_slot msk hash n \<in> set t" using probe_in_table [OF assms(1)] by simp
  then show "\<exists>e \<in> set t. me_key e = Null"
    using n assms(2) unfolding decisive_def verdict_Null verdict_Hit verdict_Raise by fastforce
qed (rule lookdict_returns [OF assms(1)])

text \<open>The lookup for strs does what the general one does.\<close>

definition str_laws :: "'o key_ops \<Rightarrow> bool" where
  "str_laws E \<longleftrightarrow> (\<forall>a b. isstr E a \<longrightarrow> isstr E b \<longrightarrow> PyObject_RichCompareBool E a b = Some (string_eq E a b))"

theorem lookdict_string_eq_lookdict:
  assumes "table_shape t msk" and "isstr E key" and "\<forall>e \<in> set t. \<forall>k. me_key e = Key k \<longrightarrow> isstr E k"
    and "str_laws E"
  shows "lookdict_string E t msk key hash = lookdict E t msk key hash"
proof -
  let ?ps = "probe_slot msk hash"
  let ?v = "\<lambda>s. verdict_of (PyObject_RichCompareBool E) key hash (t ! s)"
  let ?w = "\<lambda>s. verdict_of (\<lambda>a b. Some (string_eq E a b)) key hash (t ! s)"
  have same: "?w (?ps n) = ?v (?ps n)" for n
  proof (cases "me_key (t ! ?ps n)")
    case (Key k)
    then have "isstr E k" using assms(3) nth_mem [OF probe_in_table [OF assms(1)]] by blast
    then have "PyObject_RichCompareBool E k key = Some (string_eq E k key)"
      using assms(2,4) unfolding str_laws_def by blast
    then show ?thesis using Key by (simp add: verdict_of_def)
  qed (simp_all add: verdict_of_def)
  show ?thesis
  proof (cases "\<exists>n. decisive (?v (?ps n))")
    case True
    then obtain n where n: "decisive (?v (?ps n))" ..
    obtain N where "N \<le> n" and N: "decisive (?v (?ps N))" "\<forall>m < N. \<not> decisive (?v (?ps m))"
      using n by (rule general.decided_at_least)
    have eq: "search_result ?w ?ps None [0..<N] N = search_result ?v ?ps None [0..<N] N"
      unfolding search_result_def same ..
    have w: "decisive (?w (?ps N))" "\<forall>m < N. \<not> decisive (?w (?ps m))" using N unfolding same by simp_all
    show ?thesis by (simp only: general.start_decided [OF N] strings.start_decided [OF w] eq)
  next
    case False
    then have "\<forall>n. \<not> decisive (?v (?ps n))" "\<forall>n. \<not> decisive (?w (?ps n))" unfolding same by simp_all
    from general.start_undecided [OF this(1)] strings.start_undecided [OF this(2)] show ?thesis by (simp only:)
  qed
qed

end
