(* ===== verification/Py_Dict.thy ===== *)
theory Py_Dict
  imports Py_Lookdict
begin

text \<open>
  Objects/dictobject.c of CPython: the dictionary object, its internal insertion
  and resize routines, and the operations that look up, set, delete and clear.

  ma_table of the code points either to the small table inside the object or to a
  malloced one: ma_malloced is None in the first case. Reference counts, the
  garbage collector's tracking and the order of deallocation are not modelled.
  Assertions are not outcomes of the model; in particular that of PyDict_SetItem, that
  ma_fill is at most ma_mask, is dropped, as in a build with NDEBUG.
  An operation returns None when it does not return (or reads outside the table),
  and otherwise the dictionary with an error or a result. Which allocations succeed
  is the parameter mem.
\<close>

section \<open>The dictionary object\<close>

definition PyDict_MINSIZE :: nat where
  "PyDict_MINSIZE = 8"

definition PyDict_MAXFREELIST :: nat where
  "PyDict_MAXFREELIST = 80"

datatype lookupfunc = Lookdict | Lookdict_string

record ('o, 'v) dict =
  ma_fill :: nat
  ma_used :: nat
  ma_mask :: nat
  ma_smalltable :: "('o, 'v) dict_entry list"
  ma_malloced :: "('o, 'v) dict_entry list option"
  ma_lookup :: lookupfunc

definition ma_table :: "('o, 'v) dict \<Rightarrow> ('o, 'v) dict_entry list" where
  "ma_table mp = (case ma_malloced mp of None \<Rightarrow> ma_smalltable mp | Some t \<Rightarrow> t)"

text \<open>Writing through ma_table.\<close>

definition set_table :: "('o, 'v) dict_entry list \<Rightarrow> ('o, 'v) dict \<Rightarrow> ('o, 'v) dict" where
  "set_table t mp = (case ma_malloced mp of
     None \<Rightarrow> mp\<lparr>ma_smalltable := t\<rparr>
   | Some _ \<Rightarrow> mp\<lparr>ma_malloced := Some t\<rparr>)"

definition set_slot :: "nat \<Rightarrow> ('o, 'v) dict_entry \<Rightarrow> ('o, 'v) dict \<Rightarrow> ('o, 'v) dict" where
  "set_slot s e mp = set_table ((ma_table mp)[s := e]) mp"

definition mask_word :: "('o, 'v) dict \<Rightarrow> 64 word" where
  "mask_word mp = of_nat (ma_mask mp)"

datatype 'o dict_error =
    KeyError 'o
  | KeyErrorEmpty
  | MemoryError
  | HashError
  | CompareError
  | RuntimeError

type_synonym ('o, 'v, 'a) outcome = "(('o, 'v) dict \<times> ('o dict_error + 'a)) option"

definition zero_entry :: "('o, 'v) dict_entry" where
  "zero_entry = \<lparr>me_hash = 0, me_key = Null, me_value = None\<rparr>"

definition INIT_NONZERO_DICT_SLOTS :: "('o, 'v) dict \<Rightarrow> ('o, 'v) dict" where
  "INIT_NONZERO_DICT_SLOTS mp = mp\<lparr>ma_malloced := None, ma_mask := PyDict_MINSIZE - 1\<rparr>"

definition EMPTY_TO_MINSIZE :: "('o, 'v) dict \<Rightarrow> ('o, 'v) dict" where
  "EMPTY_TO_MINSIZE mp = INIT_NONZERO_DICT_SLOTS
     (mp\<lparr>ma_smalltable := replicate PyDict_MINSIZE zero_entry, ma_used := 0, ma_fill := 0\<rparr>)"

text \<open>
  The free list of deallocated dictionaries, the last one first. An object that comes
  from the allocator holds arbitrary bytes: raw, None when there is no memory.
\<close>

type_synonym ('o, 'v) free_list = "('o, 'v) dict list"

definition PyDict_New ::
  "('o, 'v) dict option \<Rightarrow> ('o, 'v) free_list \<Rightarrow> ('o, 'v) dict option \<times> ('o, 'v) free_list" where
  "PyDict_New raw free_list = (case free_list of
     mp # rest \<Rightarrow>
       (Some ((if ma_fill mp \<noteq> 0 then EMPTY_TO_MINSIZE mp else INIT_NONZERO_DICT_SLOTS mp)
          \<lparr>ma_lookup := Lookdict_string\<rparr>), rest)
   | [] \<Rightarrow> (case raw of
         None \<Rightarrow> (None, [])
       | Some mp \<Rightarrow> (Some ((EMPTY_TO_MINSIZE mp)\<lparr>ma_lookup := Lookdict_string\<rparr>), [])))"

definition dict_dealloc :: "('o, 'v) dict \<Rightarrow> ('o, 'v) free_list \<Rightarrow> ('o, 'v) free_list" where
  "dict_dealloc mp free_list =
     (if length free_list < PyDict_MAXFREELIST then mp # free_list else free_list)"

definition PyDict_Fini :: "('o, 'v) free_list \<Rightarrow> ('o, 'v) free_list" where
  "PyDict_Fini free_list = []"

section \<open>Lookup and insertion\<close>

text \<open>The hash of a key: ob_shash of a str, else PyObject_Hash, which may raise an exception.\<close>

definition hash_key :: "'o key_ops \<Rightarrow> 'o \<Rightarrow> 64 word option" where
  "hash_key E key = (if isstr E key then Some (shash E key) else objhash E key)"

text \<open>A call through ma_lookup, with the test at the start of lookdict_string.\<close>

definition call_lookup ::
  "'o key_ops \<Rightarrow> ('o, 'v) dict \<Rightarrow> 'o \<Rightarrow> 64 word \<Rightarrow> (('o, 'v) dict \<times> lookup) option" where
  "call_lookup E mp key hash = (case ma_lookup mp of
     Lookdict \<Rightarrow> map_option (Pair mp) (lookdict E (ma_table mp) (mask_word mp) key hash)
   | Lookdict_string \<Rightarrow>
       if isstr E key then map_option (Pair mp) (lookdict_string E (ma_table mp) (mask_word mp) key hash)
       else map_option (Pair (mp\<lparr>ma_lookup := Lookdict\<rparr>))
         (lookdict E (ma_table mp) (mask_word mp) key hash))"

definition insertdict ::
  "'o key_ops \<Rightarrow> ('o, 'v) dict \<Rightarrow> 'o \<Rightarrow> 64 word \<Rightarrow> 'v \<Rightarrow> ('o, 'v, unit) outcome" where
  "insertdict E mp key hash value = (case call_lookup E mp key hash of
     None \<Rightarrow> None
   | Some (mp, Raised) \<Rightarrow> Some (mp, Inl CompareError)
   | Some (mp, Slot s) \<Rightarrow>
       (let ep = ma_table mp ! s in
        if me_value ep \<noteq> None then Some (set_slot s (ep\<lparr>me_value := Some value\<rparr>) mp, Inr ())
        else Some
          ((set_slot s \<lparr>me_hash = hash, me_key = Key key, me_value = Some value\<rparr> mp)
             \<lparr>ma_fill := (if me_key ep = Null then ma_fill mp + 1 else ma_fill mp),
              ma_used := ma_used mp + 1\<rparr>, Inr ())))"

partial_function (option) clean_slot ::
  "('o, 'v) dict_entry list \<Rightarrow> 64 word \<Rightarrow> 64 word \<Rightarrow> 64 word \<Rightarrow> nat \<Rightarrow> nat option" where
  "clean_slot ep0 msk i perturb s =
     (if me_key (ep0 ! s) = Null then Some s
      else (let i = next_probe i perturb in
        clean_slot ep0 msk i (drop_bit PERTURB_SHIFT perturb) (unat (i AND msk))))"

declare clean_slot.simps [code]

definition insertdict_clean ::
  "('o, 'v) dict \<Rightarrow> 'o keyptr \<Rightarrow> 64 word \<Rightarrow> 'v \<Rightarrow> ('o, 'v) dict option" where
  "insertdict_clean mp key hash value =
     (let i = hash AND mask_word mp in
      case clean_slot (ma_table mp) (mask_word mp) i hash (unat i) of
        None \<Rightarrow> None
      | Some s \<Rightarrow> Some ((set_slot s \<lparr>me_hash = hash, me_key = key, me_value = Some value\<rparr> mp)
          \<lparr>ma_fill := ma_fill mp + 1, ma_used := ma_used mp + 1\<rparr>))"

section \<open>Resizing\<close>

text \<open>Find the smallest table size above minused; the shift wraps around in Py_ssize_t.\<close>

lemma sint_pos:
  fixes n :: "64 word"
  assumes "0 < sint n"
  shows "sint n = int (unat n) \<and> 0 < unat n \<and> unat n < 2 ^ 63"
proof -
  have lt: "sint n < 2 ^ 63" using sint_lt [of n] by simp
  have "int (unat n) = sint n mod 2 ^ 64" by (simp add: uint_sint take_bit_eq_mod)
  then have eq: "int (unat n) = sint n" using assms lt by simp
  have "0 < int (unat n)" "int (unat n) < int (2 ^ 63)" unfolding eq using assms lt by simp_all
  then show ?thesis unfolding of_nat_less_iff of_nat_0_less_iff using eq by simp
qed

lemma push_bit_unat:
  fixes n :: "64 word"
  assumes "unat n < 2 ^ 63"
  shows "unat (push_bit 1 n) = 2 * unat n"
  using assms by (simp add: push_bit_eq_mult unat_word_ariths)

function newsize_loop :: "int \<Rightarrow> 64 word \<Rightarrow> 64 word" where
  "newsize_loop minused newsize =
     (if sint newsize \<le> minused \<and> 0 < sint newsize then newsize_loop minused (push_bit 1 newsize)
      else newsize)"
  by pat_completeness auto

termination
proof (relation "measure (\<lambda>(minused, n). if 0 < sint n then 2 ^ 64 - unat n else 0)")
  fix minused and n :: "64 word"
  assume "sint n \<le> minused \<and> 0 < sint n"
  then have n: "0 < sint n" by simp
  have "unat (push_bit 1 n) = 2 * unat n" using push_bit_unat sint_pos [OF n] by blast
  then show "((minused, push_bit 1 n), minused, n)
      \<in> measure (\<lambda>(minused, n). if 0 < sint n then 2 ^ 64 - unat n else 0)"
    using n sint_pos [OF n] by auto
qed simp

declare newsize_loop.simps [simp del]

text \<open>PyMem_NEW of n table entries, 24 bytes each, refuses what does not fit into Py_ssize_t.\<close>

definition PyMem_NEW :: "(nat \<Rightarrow> bool) \<Rightarrow> nat \<Rightarrow> bool" where
  "PyMem_NEW mem n \<longleftrightarrow> n \<le> (2 ^ 63 - 1) div 24 \<and> mem n"

text \<open>Copy i used slots of the old table, from its first one on.\<close>

fun copy_entries ::
  "nat \<Rightarrow> ('o, 'v) dict_entry list \<Rightarrow> ('o, 'v) dict \<Rightarrow> ('o, 'v) dict option" where
  "copy_entries 0 es mp = Some mp"
| "copy_entries (Suc i) [] mp = None"
| "copy_entries (Suc i) (ep # es) mp =
     (case me_value ep of
        Some v \<Rightarrow> (case insertdict_clean mp (me_key ep) (me_hash ep) v of
            None \<Rightarrow> None
          | Some mp' \<Rightarrow> copy_entries i es mp')
      | None \<Rightarrow> if me_key ep \<noteq> Null then copy_entries i es mp else copy_entries (Suc i) es mp)"

text \<open>The tail of dictresize: the dictionary with a zeroed table, and the items of the old one.\<close>

definition rebuild ::
  "('o, 'v) dict_entry list \<Rightarrow> nat \<Rightarrow> ('o, 'v) dict \<Rightarrow> ('o, 'v, unit) outcome" where
  "rebuild oldtable newsize mp =
     map_option (\<lambda>mp. (mp, Inr ()))
       (copy_entries (ma_fill mp) oldtable
         ((if newsize = PyDict_MINSIZE
           then mp\<lparr>ma_malloced := None, ma_smalltable := replicate newsize zero_entry\<rparr>
           else mp\<lparr>ma_malloced := Some (replicate newsize zero_entry)\<rparr>)
          \<lparr>ma_mask := newsize - 1, ma_used := 0, ma_fill := 0\<rparr>))"

definition dictresize ::
  "(nat \<Rightarrow> bool) \<Rightarrow> ('o, 'v) dict \<Rightarrow> nat \<Rightarrow> ('o, 'v, unit) outcome" where
  "dictresize mem mp minused =
     (let newsize = newsize_loop (int minused) (of_nat PyDict_MINSIZE) in
      if sint newsize \<le> 0 then Some (mp, Inl MemoryError)
      else if unat newsize = PyDict_MINSIZE then
        (if ma_malloced mp = None \<and> ma_fill mp = ma_used mp then Some (mp, Inr ())
         else rebuild (ma_table mp) (unat newsize) mp)
      else if \<not> PyMem_NEW mem (unat newsize) then Some (mp, Inl MemoryError)
      else rebuild (ma_table mp) (unat newsize) mp)"

section \<open>The operations\<close>

text \<open>A new dictionary for minused items, made from an empty one.\<close>

definition PyDict_NewPresized :: "(nat \<Rightarrow> bool) \<Rightarrow> nat \<Rightarrow> ('o, 'v) dict \<Rightarrow> ('o, 'v, unit) outcome" where
  "PyDict_NewPresized mem minused op =
     (if minused > 5 then dictresize mem op minused else Some (op, Inr ()))"

text \<open>PyDict_GetItem hides the exceptions of hashing and comparing.\<close>

definition PyDict_GetItem ::
  "'o key_ops \<Rightarrow> ('o, 'v) dict \<Rightarrow> 'o \<Rightarrow> (('o, 'v) dict \<times> 'v option) option" where
  "PyDict_GetItem E mp key = (case hash_key E key of
     None \<Rightarrow> Some (mp, None)
   | Some hash \<Rightarrow> (case call_lookup E mp key hash of
       None \<Rightarrow> None
     | Some (mp, Raised) \<Rightarrow> Some (mp, None)
     | Some (mp, Slot s) \<Rightarrow> Some (mp, me_value (ma_table mp ! s))))"

definition PyDict_SetItem ::
  "(nat \<Rightarrow> bool) \<Rightarrow> 'o key_ops \<Rightarrow> ('o, 'v) dict \<Rightarrow> 'o \<Rightarrow> 'v \<Rightarrow> ('o, 'v, unit) outcome" where
  "PyDict_SetItem mem E mp key value = (case hash_key E key of
     None \<Rightarrow> Some (mp, Inl HashError)
   | Some hash \<Rightarrow> (case insertdict E mp key hash value of
       None \<Rightarrow> None
     | Some (mp', Inl e) \<Rightarrow> Some (mp', Inl e)
     | Some (mp', Inr _) \<Rightarrow>
         if \<not> (ma_used mp < ma_used mp' \<and> (ma_mask mp' + 1) * 2 \<le> ma_fill mp' * 3) then Some (mp', Inr ())
         else dictresize mem mp' ((if 50000 < ma_used mp' then 2 else 4) * ma_used mp')))"

text \<open>The end of deletion, which leaves the dummy key in slot s.\<close>

definition remove_slot :: "nat \<Rightarrow> ('o, 'v) dict \<Rightarrow> ('o, 'v) dict" where
  "remove_slot s mp =
     (set_slot s ((ma_table mp ! s)\<lparr>me_key := Dummy, me_value := None\<rparr>) mp)\<lparr>ma_used := ma_used mp - 1\<rparr>"

definition PyDict_DelItem :: "'o key_ops \<Rightarrow> ('o, 'v) dict \<Rightarrow> 'o \<Rightarrow> ('o, 'v, unit) outcome" where
  "PyDict_DelItem E mp key = (case hash_key E key of
     None \<Rightarrow> Some (mp, Inl HashError)
   | Some hash \<Rightarrow> (case call_lookup E mp key hash of
       None \<Rightarrow> None
     | Some (mp, Raised) \<Rightarrow> Some (mp, Inl CompareError)
     | Some (mp, Slot s) \<Rightarrow>
         if me_value (ma_table mp ! s) = None then Some (mp, Inl (KeyError key))
         else Some (remove_slot s mp, Inr ())))"

definition PyDict_Clear :: "('o, 'v) dict \<Rightarrow> ('o, 'v) dict" where
  "PyDict_Clear mp =
     (if ma_malloced mp \<noteq> None then EMPTY_TO_MINSIZE mp
      else if 0 < ma_fill mp then EMPTY_TO_MINSIZE mp
      else mp)"

definition dict_subscript :: "'o key_ops \<Rightarrow> ('o, 'v) dict \<Rightarrow> 'o \<Rightarrow> ('o, 'v, 'v) outcome" where
  "dict_subscript E mp key = (case hash_key E key of
     None \<Rightarrow> Some (mp, Inl HashError)
   | Some hash \<Rightarrow> (case call_lookup E mp key hash of
       None \<Rightarrow> None
     | Some (mp, Raised) \<Rightarrow> Some (mp, Inl CompareError)
     | Some (mp, Slot s) \<Rightarrow>
         (case me_value (ma_table mp ! s) of
            None \<Rightarrow> Some (mp, Inl (KeyError key))
          | Some v \<Rightarrow> Some (mp, Inr v))))"

definition dict_ass_sub ::
  "(nat \<Rightarrow> bool) \<Rightarrow> 'o key_ops \<Rightarrow> ('o, 'v) dict \<Rightarrow> 'o \<Rightarrow> 'v option \<Rightarrow> ('o, 'v, unit) outcome" where
  "dict_ass_sub mem E mp v w = (case w of
     None \<Rightarrow> PyDict_DelItem E mp v
   | Some x \<Rightarrow> PyDict_SetItem mem E mp v x)"

definition PyDict_Contains :: "'o key_ops \<Rightarrow> ('o, 'v) dict \<Rightarrow> 'o \<Rightarrow> ('o, 'v, bool) outcome" where
  "PyDict_Contains E mp key = (case hash_key E key of
     None \<Rightarrow> Some (mp, Inl HashError)
   | Some hash \<Rightarrow> (case call_lookup E mp key hash of
       None \<Rightarrow> None
     | Some (mp, Raised) \<Rightarrow> Some (mp, Inl CompareError)
     | Some (mp, Slot s) \<Rightarrow> Some (mp, Inr (me_value (ma_table mp ! s) \<noteq> None))))"

definition dict_get :: "'o key_ops \<Rightarrow> ('o, 'v) dict \<Rightarrow> 'o \<Rightarrow> 'v \<Rightarrow> ('o, 'v, 'v) outcome" where
  "dict_get E mp key failobj = (case hash_key E key of
     None \<Rightarrow> Some (mp, Inl HashError)
   | Some hash \<Rightarrow> (case call_lookup E mp key hash of
       None \<Rightarrow> None
     | Some (mp, Raised) \<Rightarrow> Some (mp, Inl CompareError)
     | Some (mp, Slot s) \<Rightarrow>
         Some (mp, Inr (case me_value (ma_table mp ! s) of None \<Rightarrow> failobj | Some v \<Rightarrow> v))))"

definition dict_setdefault ::
  "(nat \<Rightarrow> bool) \<Rightarrow> 'o key_ops \<Rightarrow> ('o, 'v) dict \<Rightarrow> 'o \<Rightarrow> 'v \<Rightarrow> ('o, 'v, 'v) outcome" where
  "dict_setdefault mem E mp key failobj = (case hash_key E key of
     None \<Rightarrow> Some (mp, Inl HashError)
   | Some hash \<Rightarrow> (case call_lookup E mp key hash of
       None \<Rightarrow> None
     | Some (mp, Raised) \<Rightarrow> Some (mp, Inl CompareError)
     | Some (mp, Slot s) \<Rightarrow>
         (case me_value (ma_table mp ! s) of
            Some v \<Rightarrow> Some (mp, Inr v)
          | None \<Rightarrow> (case PyDict_SetItem mem E mp key failobj of
              None \<Rightarrow> None
            | Some (mp, Inl e) \<Rightarrow> Some (mp, Inl e)
            | Some (mp, Inr _) \<Rightarrow> Some (mp, Inr failobj)))))"

definition dict_pop :: "'o key_ops \<Rightarrow> ('o, 'v) dict \<Rightarrow> 'o \<Rightarrow> 'v option \<Rightarrow> ('o, 'v, 'v) outcome" where
  "dict_pop E mp key deflt =
     (let missing = (\<lambda>mp. Some (mp, case deflt of None \<Rightarrow> Inl (KeyError key) | Some d \<Rightarrow> Inr d)) in
      if ma_used mp = 0 then missing mp
      else (case hash_key E key of
        None \<Rightarrow> Some (mp, Inl HashError)
      | Some hash \<Rightarrow> (case call_lookup E mp key hash of
          None \<Rightarrow> None
        | Some (mp, Raised) \<Rightarrow> Some (mp, Inl CompareError)
        | Some (mp, Slot s) \<Rightarrow>
            (case me_value (ma_table mp ! s) of
               None \<Rightarrow> missing mp
             | Some v \<Rightarrow> Some (remove_slot s mp, Inr v)))))"

partial_function (option) popitem_slot ::
  "('o, 'v) dict_entry list \<Rightarrow> nat \<Rightarrow> nat \<Rightarrow> nat option" where
  "popitem_slot ep0 msk i =
     (if me_value (ep0 ! i) = None then popitem_slot ep0 msk (if msk < i + 1 then 1 else i + 1)
      else Some i)"

declare popitem_slot.simps [code]

text \<open>
  The hash field of slot 0 is the search finger when the slot holds no value. The
  tuple for the result is allocated first.
\<close>

definition dict_popitem :: "bool \<Rightarrow> ('o, 'v) dict \<Rightarrow> ('o, 'v, 'o keyptr \<times> 'v option) outcome" where
  "dict_popitem tuple_ok mp =
     (if \<not> tuple_ok then Some (mp, Inl MemoryError)
      else if ma_used mp = 0 then Some (mp, Inl KeyErrorEmpty)
      else
        (let ep = ma_table mp ! 0;
             finger = sint (me_hash ep);
             start = (if finger > int (ma_mask mp) \<or> finger < 1 then 1 else nat finger) in
         case (if me_value ep = None then popitem_slot (ma_table mp) (ma_mask mp) start else Some 0) of
           None \<Rightarrow> None
         | Some i \<Rightarrow>
             (let ep = ma_table mp ! i;
                  mp' = remove_slot i mp;
                  e0 = ma_table mp' ! 0 in
              Some (set_slot 0 (e0\<lparr>me_hash := of_nat (i + 1)\<rparr>) mp', Inr (me_key ep, me_value ep)))))"

end
