(* ===== verification/Py_Dict_Wf.thy ===== *)
theory Py_Dict_Wf
  imports Py_Dict "HOL-Library.Multiset"
begin

text \<open>
  The invariant of a dictionary (Objects/dictobject.c of CPython), and what every
  internal routine keeps of it: the kinds of slots, the counts ma_fill and ma_used,
  the cached hashes, and that each key can be reached along its probe sequence. The
  items of a table are a multiset of pairs; insertion, deletion and resizing are
  described by what they do to it.
\<close>

section \<open>Tables\<close>

abbreviation same_key :: "'o key_ops \<Rightarrow> 'o \<Rightarrow> 'o \<Rightarrow> bool" where
  "same_key E a b \<equiv> PyObject_RichCompareBool E a b = Some True"

lemma same_key_refl [simp]: "PyObject_RichCompareBool E a a = Some True"
  by (simp add: PyObject_RichCompareBool_def)

text \<open>The items in the order of the slots.\<close>

definition entry_item :: "('o, 'v) dict_entry \<Rightarrow> ('o \<times> 'v) list" where
  "entry_item e = (case me_key e of
     Key k \<Rightarrow> (case me_value e of Some v \<Rightarrow> [(k, v)] | None \<Rightarrow> [])
   | _ \<Rightarrow> [])"

definition entries_of :: "('o, 'v) dict_entry list \<Rightarrow> ('o \<times> 'v) list" where
  "entries_of t = concat (map entry_item t)"

definition filled :: "('o, 'v) dict_entry list \<Rightarrow> nat" where
  "filled t = length (filter (\<lambda>e. me_key e \<noteq> Null) t)"

definition slot_ok :: "'o key_ops \<Rightarrow> ('o, 'v) dict_entry \<Rightarrow> bool" where
  "slot_ok E e = (case me_key e of
     Key k \<Rightarrow> me_value e \<noteq> None \<and> hash_key E k = Some (me_hash e)
   | _ \<Rightarrow> me_value e = None)"

definition probe_table_ok :: "'o key_ops \<Rightarrow> ('o, 'v) dict_entry list \<Rightarrow> 64 word \<Rightarrow> bool" where
  "probe_table_ok E t msk \<longleftrightarrow> table_shape t msk \<and> (\<forall>e \<in> set t. slot_ok E e)
     \<and> (\<forall>s < length t. \<forall>k. me_key (t ! s) = Key k \<longrightarrow> reach t msk (me_hash (t ! s)) s)"

lemma probe_table_okD:
  assumes "probe_table_ok E t msk"
  shows "table_shape t msk" "e \<in> set t \<Longrightarrow> slot_ok E e" "s < length t \<Longrightarrow> slot_ok E (t ! s)"
    "s < length t \<Longrightarrow> me_key (t ! s) = Key k \<Longrightarrow> reach t msk (me_hash (t ! s)) s"
  using assms by (auto simp: probe_table_ok_def)

lemma entry_item_simps [simp]:
  "entry_item \<lparr>me_hash = h, me_key = Key k, me_value = Some v\<rparr> = [(k, v)]"
  "me_value e = None \<Longrightarrow> entry_item e = []"
  "me_key e = Null \<Longrightarrow> entry_item e = []"
  "me_key e = Dummy \<Longrightarrow> entry_item e = []"
  "me_key e = Key k \<Longrightarrow> me_value e = Some v \<Longrightarrow> entry_item e = [(k, v)]"
  by (auto simp: entry_item_def split: keyptr.split)

lemma items_update:
  assumes "s < length t"
  shows "mset (entries_of (t[s := e])) + mset (entry_item (t ! s)) = mset (entries_of t) + mset (entry_item e)"
proof -
  have "entries_of t = entries_of (take s t) @ entry_item (t ! s) @ entries_of (drop (Suc s) t)"
    using arg_cong [OF id_take_nth_drop [OF assms], of entries_of] by (simp add: entries_of_def)
  moreover have "entries_of (t[s := e]) = entries_of (take s t) @ entry_item e @ entries_of (drop (Suc s) t)"
    unfolding upd_conv_take_nth_drop [OF assms] by (simp add: entries_of_def)
  ultimately show ?thesis by simp
qed

lemma filled_update:
  assumes "s < length t"
  shows "filled (t[s := e]) + (if me_key (t ! s) = Null then 0 else 1)
    = filled t + (if me_key e = Null then 0 else 1)"
proof -
  have "filled t = filled (take s t) + (if me_key (t ! s) = Null then 0 else 1) + filled (drop (Suc s) t)"
    unfolding filled_def using arg_cong [OF id_take_nth_drop [OF assms], of "filter (\<lambda>e. me_key e \<noteq> Null)"]
    by (auto dest: arg_cong [of _ _ length] split: if_splits)
  moreover have "filled (t[s := e]) = filled (take s t) + (if me_key e = Null then 0 else 1) + filled (drop (Suc s) t)"
    unfolding upd_conv_take_nth_drop [OF assms] by (simp add: filled_def)
  ultimately show ?thesis by simp
qed

lemma filled_less: "filled t < length t \<longleftrightarrow> (\<exists>e \<in> set t. me_key e = Null)"
proof (cases "\<exists>e \<in> set t. me_key e = Null")
  case True
  then obtain e where e: "e \<in> set t" "me_key e = Null" by blast
  have "filled t < length t" unfolding filled_def by (rule length_filter_less [OF e(1)]) (simp add: e(2))
  then show ?thesis using True by simp
next
  case False
  then have "filter (\<lambda>e. me_key e \<noteq> Null) t = t" by (intro filter_True) blast
  then show ?thesis using False by (simp add: filled_def)
qed

lemma filled_le: "filled t \<le> length t"
  by (simp add: filled_def)

lemma items_le_filled: "(\<forall>e \<in> set t. slot_ok E e) \<Longrightarrow> length (entries_of t) \<le> filled t"
proof (induction t)
  case (Cons e t)
  then have "length (entry_item e) \<le> (if me_key e = Null then 0 else 1)"
    by (auto simp: entry_item_def slot_ok_def split: keyptr.splits option.splits)
  then show ?case using Cons by (auto simp: entries_of_def filled_def split: if_splits)
qed (simp add: entries_of_def filled_def)

lemma in_items_iff:
  assumes "\<forall>e \<in> set t. slot_ok E e"
  shows "(k, v) \<in> set (entries_of t) \<longleftrightarrow> (\<exists>e \<in> set t. me_key e = Key k \<and> me_value e = Some v)"
  unfolding entries_of_def by (force simp: entry_item_def split: keyptr.splits option.splits)

section \<open>Changing one slot\<close>

lemma reach_update:
  assumes "reach t msk h i" and "me_key e = Null \<longrightarrow> me_key (t ! s) = Null"
  shows "reach (t[s := e]) msk h i"
proof -
  obtain n where n: "probe_slot msk h n = i" "\<forall>m < n. me_key (t ! probe_slot msk h m) \<noteq> Null"
    using assms(1) by (auto simp: reach_def)
  have "me_key (t[s := e] ! probe_slot msk h m) \<noteq> Null" if "m < n" for m
    using n(2) that assms(2)
    by (cases "s < length t \<and> s = probe_slot msk h m") (auto simp: nth_list_update list_update_beyond)
  then show ?thesis using n(1) by (auto simp: reach_def)
qed

text \<open>
  A slot may be given any well formed entry, as long as it does not become unused
  again and its key, if it has one, can be reached.
\<close>

lemma probe_table_ok_update:
  assumes ok: "probe_table_ok E t msk" and s: "s < length t" and e: "slot_ok E e"
    and unused: "me_key e = Null \<longrightarrow> me_key (t ! s) = Null"
    and reached: "\<And>k. me_key e = Key k \<Longrightarrow> reach t msk (me_hash e) s"
  shows "probe_table_ok E (t[s := e]) msk"
proof -
  have "\<forall>e' \<in> set (t[s := e]). slot_ok E e'"
    using probe_table_okD(2) [OF ok] e set_update_subset_insert [of t s e] by blast
  moreover have "reach (t[s := e]) msk (me_hash (t[s := e] ! i)) i"
    if "i < length t" "me_key (t[s := e] ! i) = Key k" for i k
  proof (cases "i = s")
    case True
    then show ?thesis using that reached [of k] s reach_update [OF _ unused] by simp
  next
    case False
    then show ?thesis using that probe_table_okD(4) [OF ok] reach_update [OF _ unused] by simp
  qed
  ultimately show ?thesis using probe_table_okD(1) [OF ok] by (auto simp: probe_table_ok_def)
qed

section \<open>Dictionaries\<close>

definition dict_ok :: "'o key_ops \<Rightarrow> ('o, 'v) dict \<Rightarrow> bool" where
  "dict_ok E mp \<longleftrightarrow> probe_table_ok E (ma_table mp) (mask_word mp)
     \<and> ma_mask mp + 1 = length (ma_table mp) \<and> PyDict_MINSIZE \<le> length (ma_table mp)
     \<and> length (ma_smalltable mp) = PyDict_MINSIZE
     \<and> ma_fill mp = filled (ma_table mp) \<and> ma_used mp = length (entries_of (ma_table mp))
     \<and> (ma_lookup mp = Lookdict_string \<longrightarrow>
          (\<forall>e \<in> set (ma_table mp). \<forall>k. me_key e = Key k \<longrightarrow> isstr E k))"

text \<open>At least one slot is unused.\<close>

definition has_room :: "('o, 'v) dict \<Rightarrow> bool" where
  "has_room mp \<longleftrightarrow> ma_fill mp \<le> ma_mask mp"

definition items :: "('o, 'v) dict \<Rightarrow> ('o \<times> 'v) multiset" where
  "items mp = mset (entries_of (ma_table mp))"

named_theorems dict_fields \<open>fields of a dictionary after an update\<close>

lemma set_table_fields [dict_fields, simp]:
  "ma_table (set_table t mp) = t" "ma_fill (set_table t mp) = ma_fill mp"
  "ma_used (set_table t mp) = ma_used mp" "ma_mask (set_table t mp) = ma_mask mp"
  "ma_lookup (set_table t mp) = ma_lookup mp" "mask_word (set_table t mp) = mask_word mp"
  "ma_malloced (set_table t mp) = None \<longleftrightarrow> ma_malloced mp = None"
  by (auto simp: set_table_def ma_table_def mask_word_def split: option.splits)

lemma set_table_small:
  "length t = length (ma_table mp) \<Longrightarrow> length (ma_smalltable (set_table t mp)) = length (ma_smalltable mp)"
  by (auto simp: set_table_def ma_table_def split: option.splits)

lemma set_slot_fields [dict_fields, simp]:
  "ma_table (set_slot s e mp) = (ma_table mp)[s := e]" "ma_fill (set_slot s e mp) = ma_fill mp"
  "ma_used (set_slot s e mp) = ma_used mp" "ma_mask (set_slot s e mp) = ma_mask mp"
  "ma_lookup (set_slot s e mp) = ma_lookup mp" "mask_word (set_slot s e mp) = mask_word mp"
  "length (ma_smalltable (set_slot s e mp)) = length (ma_smalltable mp)"
  by (simp_all add: set_slot_def set_table_small)

lemma count_fields [dict_fields, simp]:
  "ma_table (mp\<lparr>ma_used := u\<rparr>) = ma_table mp" "ma_table (mp\<lparr>ma_fill := f\<rparr>) = ma_table mp"
  "ma_table (mp\<lparr>ma_lookup := l\<rparr>) = ma_table mp" "ma_table (mp\<lparr>ma_mask := m\<rparr>) = ma_table mp"
  "mask_word (mp\<lparr>ma_used := u\<rparr>) = mask_word mp" "mask_word (mp\<lparr>ma_fill := f\<rparr>) = mask_word mp"
  "mask_word (mp\<lparr>ma_lookup := l\<rparr>) = mask_word mp"
  by (simp_all add: ma_table_def mask_word_def split: option.split)

lemma items_fields [simp]:
  "items (mp\<lparr>ma_used := u\<rparr>) = items mp" "items (mp\<lparr>ma_fill := f\<rparr>) = items mp"
  "items (mp\<lparr>ma_lookup := l\<rparr>) = items mp"
  by (simp_all add: items_def)

lemma dict_okD:
  assumes "dict_ok E mp"
  shows "probe_table_ok E (ma_table mp) (mask_word mp)" "table_shape (ma_table mp) (mask_word mp)"
    "ma_mask mp + 1 = length (ma_table mp)" "length (ma_table mp) = Suc (ma_mask mp)"
    "length (ma_smalltable mp) = PyDict_MINSIZE"
    "ma_fill mp = filled (ma_table mp)" "ma_used mp = length (entries_of (ma_table mp))"
    "ma_used mp = size (items mp)"
    "ma_lookup mp = Lookdict_string \<Longrightarrow> e \<in> set (ma_table mp) \<Longrightarrow> me_key e = Key k \<Longrightarrow> isstr E k"
  using assms by (auto simp: dict_ok_def probe_table_ok_def items_def)

lemma has_room_iff: "dict_ok E mp \<Longrightarrow> has_room mp \<longleftrightarrow> (\<exists>e \<in> set (ma_table mp). me_key e = Null)"
  using filled_less [of "ma_table mp"] by (auto simp: has_room_def dict_okD)

lemma used_le_fill: "dict_ok E mp \<Longrightarrow> ma_used mp \<le> ma_fill mp"
  using items_le_filled [of "ma_table mp" E] by (auto simp: dict_ok_def probe_table_ok_def)

lemma fill_le_size: "dict_ok E mp \<Longrightarrow> ma_fill mp \<le> ma_mask mp + 1"
  using filled_le [of "ma_table mp"] by (auto simp: dict_okD)

lemma in_items: "dict_ok E mp \<Longrightarrow>
    (k, v) \<in># items mp \<longleftrightarrow> (\<exists>e \<in> set (ma_table mp). me_key e = Key k \<and> me_value e = Some v)"
  unfolding items_def set_mset_mset by (rule in_items_iff [of _ E]) (auto simp: dict_ok_def probe_table_ok_def)

section \<open>Looking up a key\<close>

text \<open>The dictionary after a lookup: only the choice of the lookup function may change.\<close>

definition after_lookup :: "'o key_ops \<Rightarrow> ('o, 'v) dict \<Rightarrow> 'o \<Rightarrow> ('o, 'v) dict" where
  "after_lookup E mp key =
     (if ma_lookup mp = Lookdict_string \<and> \<not> isstr E key then mp\<lparr>ma_lookup := Lookdict\<rparr> else mp)"

lemma after_lookup_fields [simp]:
  "ma_table (after_lookup E mp key) = ma_table mp" "mask_word (after_lookup E mp key) = mask_word mp"
  "ma_fill (after_lookup E mp key) = ma_fill mp" "ma_used (after_lookup E mp key) = ma_used mp"
  "ma_mask (after_lookup E mp key) = ma_mask mp" "items (after_lookup E mp key) = items mp"
  "ma_smalltable (after_lookup E mp key) = ma_smalltable mp"
  "ma_malloced (after_lookup E mp key) = ma_malloced mp"
  by (simp_all add: after_lookup_def)

lemma after_lookup_string:
  "ma_lookup (after_lookup E mp key) = Lookdict_string \<longleftrightarrow> ma_lookup mp = Lookdict_string \<and> isstr E key"
  by (cases "ma_lookup mp") (auto simp: after_lookup_def)

lemma dict_ok_after_lookup: "dict_ok E mp \<Longrightarrow> dict_ok E (after_lookup E mp key)"
  by (auto simp: dict_ok_def after_lookup_string)

lemma has_room_after_lookup [simp]: "has_room (after_lookup E mp key) \<longleftrightarrow> has_room mp"
  by (simp add: has_room_def)

lemma call_lookup_eq:
  assumes "dict_ok E mp" and "str_laws E"
  shows "call_lookup E mp key hash =
    map_option (Pair (after_lookup E mp key)) (lookdict E (ma_table mp) (mask_word mp) key hash)"
proof (cases "ma_lookup mp = Lookdict_string \<and> isstr E key")
  case True
  have "lookdict_string E (ma_table mp) (mask_word mp) key hash = lookdict E (ma_table mp) (mask_word mp) key hash"
    by (rule lookdict_string_eq_lookdict) (use assms True dict_okD in \<open>auto simp: dict_ok_def probe_table_ok_def\<close>)
  then show ?thesis using True by (simp add: call_lookup_def after_lookup_def)
qed (cases "ma_lookup mp"; auto simp: call_lookup_def after_lookup_def)

text \<open>A lookup returns whatever the comparisons do, as long as one slot is unused.\<close>

theorem call_lookup_returns:
  assumes "dict_ok E mp" and "has_room mp"
  shows "call_lookup E mp key hash \<noteq> None"
proof -
  have "\<exists>e \<in> set (ma_table mp). me_key e = Null" using has_room_iff assms by blast
  note lookdict_returns [OF dict_okD(2) [OF assms(1)] this] lookdict_string_returns [OF dict_okD(2) [OF assms(1)] this]
  then show ?thesis by (auto simp: call_lookup_def split: lookupfunc.split)
qed

text \<open>The three outcomes of a lookup.\<close>

lemma lookup_cases [consumes 4]:
  assumes ok: "dict_ok E mp" and laws: "str_laws E" and room: "has_room mp" and hash: "hash_key E key = Some h"
  obtains (raised) "call_lookup E mp key h = Some (after_lookup E mp key, Raised)"
      "\<exists>k v. (k, v) \<in># items mp \<and> PyObject_RichCompareBool E k key = None"
  | (found) s k v where "call_lookup E mp key h = Some (after_lookup E mp key, Slot s)" "s < length (ma_table mp)"
      "me_key (ma_table mp ! s) = Key k" "me_value (ma_table mp ! s) = Some v" "same_key E k key"
  | (absent) s where "call_lookup E mp key h = Some (after_lookup E mp key, Slot s)" "s < length (ma_table mp)"
      "me_key (ma_table mp ! s) = Null \<or> me_key (ma_table mp ! s) = Dummy" "me_value (ma_table mp ! s) = None"
      "reach (ma_table mp) (mask_word mp) h s"
      "\<And>k v. (k, v) \<in># items mp \<Longrightarrow> hash_key E k = Some h \<Longrightarrow> PyObject_RichCompareBool E k key = Some False"
proof -
  let ?t = "ma_table mp" and ?m = "mask_word mp"
  let ?v = "\<lambda>s. verdict_of (PyObject_RichCompareBool E) key h (?t ! s)"
  note tab = dict_okD(1) [OF ok] and shape = dict_okD(2) [OF ok]
  obtain r where call: "call_lookup E mp key h = Some (after_lookup E mp key, r)"
    and r: "lookdict E ?t ?m key h = Some r"
    using call_lookup_returns [OF ok room] unfolding call_lookup_eq [OF ok laws] by auto
  note post = general.start_slot [where t = ?t, OF r verdict_Null]
  have val: "\<exists>v. me_value (?t ! s) = Some v \<and> (k, v) \<in># items mp \<and> hash_key E k = Some (me_hash (?t ! s))"
    if "s < length ?t" "me_key (?t ! s) = Key k" for s k
    using that(2) probe_table_okD(3) [OF tab that(1)] nth_mem [OF that(1)] unfolding in_items [OF ok]
    by (force simp: slot_ok_def)
  show thesis
  proof (cases r)
    case Raised
    then obtain n where "?v (probe_slot ?m h n) = V_Raise" using post by auto
    then obtain k where "me_key (?t ! probe_slot ?m h n) = Key k" "PyObject_RichCompareBool E k key = None"
      by (auto simp: verdict_Raise)
    then show thesis using that(1) call Raised val [OF probe_in_table [OF shape]] by metis
  next
    case (Slot s)
    from post Slot have "reach ?t ?m h s" by auto
    then have s: "s < length ?t" using probe_in_table [OF shape] by (auto simp: reach_def)
    show thesis
    proof (cases "?v s = V_Hit")
      case True
      then obtain k where k: "me_key (?t ! s) = Key k" "same_key E k key" by (auto simp: verdict_Hit)
      then show thesis using that(2) [of s k] call Slot s val [OF s k(1)] by blast
    next
      case False
      then have free: "?v s = V_Null \<or> ?v s = V_Dummy"
        and all: "\<And>s'. reach ?t ?m h s' \<Longrightarrow> ?v s' \<noteq> V_Hit \<and> ?v s' \<noteq> V_Raise" using post Slot by auto
      have key: "me_key (?t ! s) = Null \<or> me_key (?t ! s) = Dummy" using free by (simp add: verdict_Null verdict_Dummy)
      have none: "me_value (?t ! s) = None" using key probe_table_okD(3) [OF tab s] by (auto simp: slot_ok_def)
      have "PyObject_RichCompareBool E k key = Some False" if "(k, v) \<in># items mp" "hash_key E k = Some h" for k v
      proof -
        note item = that(1)
        from item obtain e where "e \<in> set ?t" "me_key e = Key k" unfolding in_items [OF ok] by blast
        then obtain i where i: "i < length ?t" "me_key (?t ! i) = Key k" by (auto simp: in_set_conv_nth)
        have "me_hash (?t ! i) = h" using val [OF i] that(2) by auto
        then have "?v i \<noteq> V_Hit \<and> ?v i \<noteq> V_Raise" using all [of i] probe_table_okD(4) [OF tab i] by simp
        then show ?thesis using i(2) \<open>me_hash (?t ! i) = h\<close>
          by (cases "PyObject_RichCompareBool E k key") (auto simp: verdict_Hit verdict_Raise)
      qed
      then show thesis using that(3) [of s] call Slot s key none \<open>reach ?t ?m h s\<close> by blast
    qed
  qed
qed

section \<open>Inserting into a slot and removing from it\<close>

lemma items_set_slot:
  assumes "s < length (ma_table mp)"
  shows "items (set_slot s e mp) + mset (entry_item (ma_table mp ! s)) = items mp + mset (entry_item e)"
  using items_update [OF assms] by (simp add: items_def)

text \<open>A new value for the key of slot s.\<close>

lemma replace_value:
  assumes ok: "dict_ok E mp" and s: "s < length (ma_table mp)"
    and key: "me_key (ma_table mp ! s) = Key k" "me_value (ma_table mp ! s) = Some v"
    and mp': "mp' = set_slot s ((ma_table mp ! s)\<lparr>me_value := Some v'\<rparr>) mp"
  shows "dict_ok E mp'" and "add_mset (k, v) (items mp') = add_mset (k, v') (items mp)"
proof -
  let ?e = "(ma_table mp ! s)\<lparr>me_value := Some v'\<rparr>"
  show "add_mset (k, v) (items mp') = add_mset (k, v') (items mp)"
    using items_set_slot [OF s, of ?e] key mp' by simp
  then have size: "size (items mp') = size (items mp)" by (metis add_left_cancel size_add_mset plus_1_eq_Suc)
  have fill: "filled ((ma_table mp)[s := ?e]) = filled (ma_table mp)"
    using filled_update [OF s, of ?e] key by simp
  have "probe_table_ok E ((ma_table mp)[s := ?e]) (mask_word mp)"
    by (rule probe_table_ok_update [OF dict_okD(1) [OF ok] s])
      (use probe_table_okD(3,4) [OF dict_okD(1) [OF ok] s] key in \<open>auto simp: slot_ok_def\<close>)
  then show "dict_ok E mp'" using ok s fill size key
    set_update_subset_insert [of "ma_table mp" s ?e] nth_mem [OF s]
    by (fastforce simp: dict_ok_def items_def mp')
qed

text \<open>A new item in a slot without one.\<close>

lemma insert_item:
  assumes ok: "dict_ok E mp" and s: "s < length (ma_table mp)"
    and free: "me_key (ma_table mp ! s) = Null \<or> me_key (ma_table mp ! s) = Dummy"
    and reached: "reach (ma_table mp) (mask_word mp) h s" and hash: "hash_key E key = Some h"
    and str: "ma_lookup mp = Lookdict_string \<Longrightarrow> isstr E key"
    and mp': "mp' = (set_slot s \<lparr>me_hash = h, me_key = Key key, me_value = Some v\<rparr> mp)
      \<lparr>ma_fill := (if me_key (ma_table mp ! s) = Null then ma_fill mp + 1 else ma_fill mp),
       ma_used := ma_used mp + 1\<rparr>"
  shows "dict_ok E mp'" and "items mp' = add_mset (key, v) (items mp)"
proof -
  let ?e = "\<lparr>me_hash = h, me_key = Key key, me_value = Some v\<rparr>"
  have none: "entry_item (ma_table mp ! s) = []" using free by auto
  show it: "items mp' = add_mset (key, v) (items mp)"
    using items_set_slot [OF s, of ?e] none mp' by simp
  then have size: "length (entries_of ((ma_table mp)[s := ?e])) = Suc (length (entries_of (ma_table mp)))"
    using mp' by (simp add: items_def) (metis size_add_mset size_mset)
  have fill: "filled ((ma_table mp)[s := ?e])
      = (if me_key (ma_table mp ! s) = Null then filled (ma_table mp) + 1 else filled (ma_table mp))"
    using filled_update [OF s, of ?e] by auto
  have "probe_table_ok E ((ma_table mp)[s := ?e]) (mask_word mp)"
    by (rule probe_table_ok_update [OF dict_okD(1) [OF ok] s]) (use reached hash in \<open>auto simp: slot_ok_def\<close>)
  moreover have "\<forall>e \<in> set ((ma_table mp)[s := ?e]). \<forall>k. me_key e = Key k \<longrightarrow> isstr E k"
    if "ma_lookup mp = Lookdict_string"
    using str [OF that] dict_okD(9) [OF ok that] set_update_subset_insert [of "ma_table mp" s ?e] by fastforce
  ultimately show "dict_ok E mp'" using ok fill size by (auto simp: dict_ok_def mp')
qed

lemma remove_item:
  assumes ok: "dict_ok E mp" and s: "s < length (ma_table mp)"
    and key: "me_key (ma_table mp ! s) = Key k" "me_value (ma_table mp ! s) = Some v"
  shows "dict_ok E (remove_slot s mp)" and "items mp = add_mset (k, v) (items (remove_slot s mp))"
proof -
  let ?e = "(ma_table mp ! s)\<lparr>me_key := Dummy, me_value := None\<rparr>"
  show it: "items mp = add_mset (k, v) (items (remove_slot s mp))"
    using items_set_slot [OF s, of ?e] key by (simp add: remove_slot_def)
  then have size: "length (entries_of (ma_table mp)) = Suc (length (entries_of ((ma_table mp)[s := ?e])))"
    by (simp add: items_def remove_slot_def) (metis size_add_mset size_mset)
  have fill: "filled ((ma_table mp)[s := ?e]) = filled (ma_table mp)"
    using filled_update [OF s, of ?e] key by simp
  have "probe_table_ok E ((ma_table mp)[s := ?e]) (mask_word mp)"
    by (rule probe_table_ok_update [OF dict_okD(1) [OF ok] s]) (auto simp: slot_ok_def)
  moreover have "\<forall>e \<in> set ((ma_table mp)[s := ?e]). \<forall>k. me_key e = Key k \<longrightarrow> isstr E k"
    if "ma_lookup mp = Lookdict_string"
    using dict_okD(9) [OF ok that] set_update_subset_insert [of "ma_table mp" s ?e] by fastforce
  ultimately show "dict_ok E (remove_slot s mp)" using ok fill size by (auto simp: dict_ok_def remove_slot_def)
qed

lemma has_room_remove_slot [simp]: "has_room (remove_slot s mp) \<longleftrightarrow> has_room mp"
  by (simp add: has_room_def remove_slot_def)

end
