(* ===== verification/Py_Dict_Resize.thy ===== *)
theory Py_Dict_Resize
  imports Py_Dict_Wf
begin

text \<open>
  insertdict, insertdict_clean and dictresize of Objects/dictobject.c: the outcomes
  of an insertion, and that a resize gives a table of the size asked for with the same
  items and without deleted slots, or leaves the dictionary alone when there is no
  memory.
\<close>

section \<open>Insertion\<close>

lemma insertdict_cases [consumes 4]:
  assumes ok: "dict_ok E mp" and laws: "str_laws E" and room: "has_room mp" and hash: "hash_key E key = Some h"
  obtains (raised) "insertdict E mp key h val = Some (after_lookup E mp key, Inl CompareError)"
      "\<exists>k v. (k, v) \<in># items mp \<and> PyObject_RichCompareBool E k key = None"
  | (replaced) mp' s k v where "insertdict E mp key h val = Some (mp', Inr ())" "dict_ok E mp'" "ma_mask mp' = ma_mask mp"
      "ma_used mp' = ma_used mp" "ma_fill mp' = ma_fill mp" "same_key E k key"
      "add_mset (k, v) (items mp') = add_mset (k, val) (items mp)"
      "s < length (ma_table mp)" "me_key (ma_table mp ! s) = Key k" "me_value (ma_table mp ! s) = Some v"
      "ma_table mp' = (ma_table mp)[s := (ma_table mp ! s)\<lparr>me_value := Some val\<rparr>]"
  | (inserted) mp' where "insertdict E mp key h val = Some (mp', Inr ())" "dict_ok E mp'" "ma_mask mp' = ma_mask mp"
      "ma_used mp' = ma_used mp + 1" "ma_fill mp' \<le> ma_fill mp + 1"
      "items mp' = add_mset (key, val) (items mp)"
      "\<And>k v. (k, v) \<in># items mp \<Longrightarrow> hash_key E k = Some h \<Longrightarrow> PyObject_RichCompareBool E k key = Some False"
  using ok laws room hash
proof (cases rule: lookup_cases)
  case raised
  then show thesis using that(1) by (simp add: insertdict_def)
next
  case (found s k v)
  let ?mp = "after_lookup E mp key"
  let ?mp' = "set_slot s ((ma_table mp ! s)\<lparr>me_value := Some val\<rparr>) ?mp"
  have step: "insertdict E mp key h val = Some (?mp', Inr ())"
    using found(1,4) by (simp add: insertdict_def)
  note rep = replace_value [OF dict_ok_after_lookup [OF ok, of key], of s k v ?mp' val]
  show thesis using that(2) [of ?mp' k v s] step rep found by simp
next
  case (absent s)
  let ?mp = "after_lookup E mp key"
  let ?mp' = "(set_slot s \<lparr>me_hash = h, me_key = Key key, me_value = Some val\<rparr> ?mp)
      \<lparr>ma_fill := (if me_key (ma_table ?mp ! s) = Null then ma_fill ?mp + 1 else ma_fill ?mp),
       ma_used := ma_used ?mp + 1\<rparr>"
  have step: "insertdict E mp key h val = Some (?mp', Inr ())"
    using absent(1,4) by (simp add: insertdict_def)
  have "s < length (ma_table ?mp)" "me_key (ma_table ?mp ! s) = Null \<or> me_key (ma_table ?mp ! s) = Dummy"
    "reach (ma_table ?mp) (mask_word ?mp) h s" using absent by simp_all
  note ins = insert_item [OF dict_ok_after_lookup [OF ok, of key] this hash, where v = val and mp' = ?mp']
  have str: "ma_lookup ?mp = Lookdict_string \<Longrightarrow> isstr E key" by (simp add: after_lookup_string)
  show thesis using that(3) [of ?mp'] step ins [OF str] absent(6) by simp
qed

text \<open>The search for an unused slot is a search along the probe sequence as well.\<close>

definition unused_verdict :: "('o, 'v) dict_entry list \<Rightarrow> nat \<Rightarrow> verdict" where
  "unused_verdict t s = (if me_key (t ! s) = Null then V_Null else V_Miss)"

definition clean_search :: "('o, 'v) dict_entry list \<Rightarrow> 64 word \<Rightarrow> 64 word \<Rightarrow> 64 word \<Rightarrow> nat option \<Rightarrow> lookup option" where
  "clean_search t msk i p free = map_option (\<lambda>s. Slot (case free of None \<Rightarrow> s | Some f \<Rightarrow> f))
     (clean_slot t msk (next_probe i p) (drop_bit PERTURB_SHIFT p) (unat (next_probe i p AND msk)))"

lemma clean_search_round:
  "clean_search t msk i p free = search_round (unused_verdict t) (unat (next_probe i p AND msk)) free
     (clean_search t msk (next_probe i p) (drop_bit PERTURB_SHIFT p))"
  unfolding clean_search_def
  by (subst clean_slot.simps) (simp add: search_round_def unused_verdict_def Let_def)

lemma clean_slot_returned:
  assumes "clean_slot t msk i p s = Some r"
  shows "me_key (t ! s) = Null \<or> (\<exists>n. me_key (t ! unat (fst (probe i p (Suc n)) AND msk)) = Null)"
proof (rule clean_slot.raw_induct [where P = "\<lambda>t msk i p s r. me_key (t ! s) = Null \<or>
    (\<exists>n. me_key (t ! unat (fst (probe i p (Suc n)) AND msk)) = Null)", OF _ assms])
  fix f :: "('a, 'b) dict_entry list \<Rightarrow> 64 word \<Rightarrow> 64 word \<Rightarrow> 64 word \<Rightarrow> nat \<Rightarrow> nat option"
    and t msk i p s r
  assume IH: "\<And>t msk i p s r. f t msk i p s = Some r \<Longrightarrow> me_key (t ! s) = Null \<or>
      (\<exists>n. me_key (t ! unat (fst (probe i p (Suc n)) AND msk)) = Null)"
    and eq: "(if me_key (t ! s) = Null then Some s
      else let i = next_probe i p in f t msk i (drop_bit PERTURB_SHIFT p) (unat (i AND msk))) = Some r"
  show "me_key (t ! s) = Null \<or> (\<exists>n. me_key (t ! unat (fst (probe i p (Suc n)) AND msk)) = Null)"
  proof (cases "me_key (t ! s) = Null")
    case False
    then have "f t msk (next_probe i p) (drop_bit PERTURB_SHIFT p) (unat (next_probe i p AND msk)) = Some r"
      using eq by (simp add: Let_def)
    from IH [OF this] show ?thesis
    proof
      assume "me_key (t ! unat (next_probe i p AND msk)) = Null"
      then show ?thesis by (auto intro!: exI [of _ 0])
    next
      assume "\<exists>n. me_key (t ! unat (fst (probe (next_probe i p) (drop_bit PERTURB_SHIFT p) (Suc n)) AND msk)) = Null"
      then obtain n where "me_key (t ! unat (fst (probe (next_probe i p) (drop_bit PERTURB_SHIFT p) (Suc n)) AND msk)) = Null" ..
      then show ?thesis by (intro disjI2 exI [of _ "Suc n"]) simp
    qed
  qed simp
qed

lemma clean_search_returned:
  assumes "clean_search t msk i p free = Some r"
  shows "\<exists>n. decisive (unused_verdict t (unat (fst (probe i p (Suc n)) AND msk)))"
proof -
  obtain s where "clean_slot t msk (next_probe i p) (drop_bit PERTURB_SHIFT p) (unat (next_probe i p AND msk)) = Some s"
    using assms by (auto simp: clean_search_def)
  from clean_slot_returned [OF this] show ?thesis
  proof
    assume "me_key (t ! unat (next_probe i p AND msk)) = Null"
    then show ?thesis by (intro exI [of _ 0]) (simp add: unused_verdict_def)
  next
    assume "\<exists>n. me_key (t ! unat (fst (probe (next_probe i p) (drop_bit PERTURB_SHIFT p) (Suc n)) AND msk)) = Null"
    then obtain n where "me_key (t ! unat (fst (probe (next_probe i p) (drop_bit PERTURB_SHIFT p) (Suc n)) AND msk)) = Null" ..
    then show ?thesis by (intro exI [of _ "Suc n"]) (simp add: unused_verdict_def)
  qed
qed

lemma clean_start_round:
  "map_option Slot (clean_slot t msk (hash AND msk) hash (unat (hash AND msk))) =
     search_round (unused_verdict t) (unat (hash AND msk)) None (clean_search t msk (hash AND msk) hash)"
  by (subst clean_slot.simps) (simp add: search_round_def unused_verdict_def clean_search_def Let_def)

interpretation unused: probe_search msk hash "unused_verdict t" "clean_search t msk"
    "map_option Slot (clean_slot t msk (hash AND msk) hash (unat (hash AND msk)))" for t msk hash
  by unfold_locales (rule clean_search_round, erule clean_search_returned, rule clean_start_round)

lemma clean_slot_spec:
  assumes "table_shape t msk" and "\<exists>e \<in> set t. me_key e = Null"
  obtains s where "clean_slot t msk (hash AND msk) hash (unat (hash AND msk)) = Some s"
    "s < length t" "me_key (t ! s) = Null" "reach t msk hash s"
proof -
  obtain i where i: "i < length t" "me_key (t ! i) = Null" using assms(2) by (auto simp: in_set_conv_nth)
  obtain n where "probe_slot msk hash n = i" using probe_reaches [OF assms(1) i(1)] by blast
  then have "decisive (unused_verdict t (probe_slot msk hash n))" using i(2) by (simp add: unused_verdict_def)
  then have "map_option Slot (clean_slot t msk (hash AND msk) hash (unat (hash AND msk))) \<noteq> None"
    unfolding unused.start_returns by blast
  then obtain s where s: "map_option Slot (clean_slot t msk (hash AND msk) hash (unat (hash AND msk))) = Some (Slot s)"
    by auto
  have null: "unused_verdict t s = V_Null \<longleftrightarrow> me_key (t ! s) = Null" for s by (simp add: unused_verdict_def)
  have "reach t msk hash s \<and> me_key (t ! s) = Null"
    using unused.start_slot [OF s null] by (auto simp: unused_verdict_def split: if_splits)
  then show thesis using s that [of s] probe_in_table [OF assms(1)] by (auto simp: reach_def)
qed

lemma insertdict_clean_spec:
  assumes ok: "dict_ok E mp" and room: "has_room mp" and hash: "hash_key E key = Some h"
    and str: "ma_lookup mp = Lookdict_string \<Longrightarrow> isstr E key"
  obtains mp' where "insertdict_clean mp (Key key) h v = Some mp'" "dict_ok E mp'"
    "items mp' = add_mset (key, v) (items mp)" "ma_fill mp' = ma_fill mp + 1" "ma_mask mp' = ma_mask mp"
    "ma_lookup mp' = ma_lookup mp"
proof -
  have "\<exists>e \<in> set (ma_table mp). me_key e = Null" using has_room_iff ok room by blast
  then obtain s where s: "clean_slot (ma_table mp) (mask_word mp) (h AND mask_word mp) h (unat (h AND mask_word mp)) = Some s"
    "s < length (ma_table mp)" "me_key (ma_table mp ! s) = Null" "reach (ma_table mp) (mask_word mp) h s"
    by (rule clean_slot_spec [OF dict_okD(2) [OF ok], where hash = h]) blast
  let ?mp' = "(set_slot s \<lparr>me_hash = h, me_key = Key key, me_value = Some v\<rparr> mp)
    \<lparr>ma_fill := (if me_key (ma_table mp ! s) = Null then ma_fill mp + 1 else ma_fill mp), ma_used := ma_used mp + 1\<rparr>"
  have "insertdict_clean mp (Key key) h v = Some ?mp'" using s(1,3) by (simp add: insertdict_clean_def Let_def)
  moreover have "dict_ok E ?mp'" "items ?mp' = add_mset (key, v) (items mp)"
    using insert_item [OF ok s(2) _ s(4) hash str refl] s(3) by blast+
  ultimately show thesis using that [of ?mp'] s(3) by simp
qed

section \<open>Resizing\<close>

lemma unat_power: "k \<le> 62 \<Longrightarrow> unat (2 ^ k :: 64 word) = 2 ^ k"
proof -
  assume "k \<le> 62"
  then have "unat (of_nat (2 ^ k) :: 64 word) = 2 ^ k"
    by (simp only: unsigned_of_nat) (simp add: take_bit_nat_eq_self)
  then show ?thesis by simp
qed

lemma sint_small:
  fixes n :: "64 word"
  assumes "unat n < 2 ^ 63"
  shows "sint n = int (unat n)"
proof -
  have "int (unat n) < int (2 ^ 63)" using assms by (simp only: of_nat_less_iff)
  then have "uint n < 2 ^ 63" by simp
  moreover have "- (2 ^ 63) \<le> uint n" by (rule order_trans [OF _ uint_ge_0]) simp
  ultimately have "signed_take_bit 63 (uint n) = uint n" by (intro signed_take_bit_int_eq_self)
  then show ?thesis by (simp add: sint_uint)
qed

lemma sint_power: "k \<le> 62 \<Longrightarrow> sint (2 ^ k :: 64 word) = 2 ^ k"
proof -
  assume k: "k \<le> 62"
  then have "(2::nat) ^ k < 2 ^ 63" by (intro power_strict_increasing) auto
  then show ?thesis using sint_small [of "2 ^ k"] unat_power [OF k] by simp
qed

text \<open>The loop for the new size gives the smallest power of two above minused, or overflows.\<close>

lemma newsize_loop_from:
  assumes "j \<le> 62"
  shows "(\<exists>k \<ge> j. k \<le> 62 \<and> newsize_loop m (2 ^ j) = 2 ^ k \<and> m < 2 ^ k \<and> (\<forall>i \<ge> j. i < k \<longrightarrow> 2 ^ i \<le> m))
    \<or> sint (newsize_loop m (2 ^ j)) \<le> 0 \<and> 2 ^ 62 \<le> m"
  using assms
proof (induction "62 - j" arbitrary: j)
  case 0
  then have j: "j = 62" by simp
  have over: "push_bit 1 (2 ^ 62 :: 64 word) = 2 ^ 63" by (simp add: push_bit_eq_mult)
  have neg: "sint (2 ^ 63 :: 64 word) \<le> 0" by simp
  show ?case
  proof (cases "m < 2 ^ 62")
    case True
    then show ?thesis unfolding j by (subst newsize_loop.simps) (auto simp: sint_power intro!: exI [of _ 62])
  next
    case False
    have "newsize_loop m (2 ^ 62) = newsize_loop m (2 ^ 63)"
      by (subst newsize_loop.simps) (use False over in \<open>simp add: sint_power del: push_bit_Suc\<close>)
    moreover have "newsize_loop m (2 ^ 63) = 2 ^ 63" using neg by (subst newsize_loop.simps) simp
    ultimately show ?thesis unfolding j using neg False by simp
  qed
next
  case (Suc d)
  then have j: "j < 62" "d = 62 - Suc j" "Suc j \<le> 62" by auto
  have shift: "push_bit 1 (2 ^ j :: 64 word) = 2 ^ Suc j" by (simp add: push_bit_eq_mult)
  show ?case
  proof (cases "m < 2 ^ j")
    case True
    then have "newsize_loop m (2 ^ j) = 2 ^ j" using j(1) by (subst newsize_loop.simps) (simp add: sint_power)
    then show ?thesis using True Suc.prems by (intro disjI1 exI [of _ j]) auto
  next
    case False
    then have step: "newsize_loop m (2 ^ j) = newsize_loop m (2 ^ Suc j)"
      using j(1) shift by (subst newsize_loop.simps) (simp add: sint_power mult.commute)
    from Suc.hyps(1) [OF j(2,3)] show ?thesis
    proof
      assume "\<exists>k \<ge> Suc j. k \<le> 62 \<and> newsize_loop m (2 ^ Suc j) = 2 ^ k \<and> m < 2 ^ k
        \<and> (\<forall>i \<ge> Suc j. i < k \<longrightarrow> 2 ^ i \<le> m)"
      then obtain k where k: "Suc j \<le> k" "k \<le> 62" "newsize_loop m (2 ^ Suc j) = 2 ^ k" "m < 2 ^ k"
        "\<forall>i \<ge> Suc j. i < k \<longrightarrow> 2 ^ i \<le> m" by blast
      have "\<forall>i \<ge> j. i < k \<longrightarrow> 2 ^ i \<le> m" using k(5) False by (metis le_neq_implies_less not_less not_less_eq_eq Suc_leI)
      then show ?thesis using k step by (intro disjI1 exI [of _ k]) auto
    next
      assume "sint (newsize_loop m (2 ^ Suc j)) \<le> 0 \<and> 2 ^ 62 \<le> m"
      then show ?thesis using step by simp
    qed
  qed
qed

lemma newsize_cases:
  obtains (size) k where "3 \<le> k" "k \<le> 62" "newsize_loop (int m) 8 = 2 ^ k" "m < 2 ^ k" "k = 3 \<or> 2 ^ k \<le> 2 * m"
  | (overflow) "sint (newsize_loop (int m) 8) \<le> 0" "2 ^ 62 \<le> m"
proof -
  have eight: "(2 ^ 3 :: 64 word) = 8" by simp
  have "(3::nat) \<le> 62" by simp
  from newsize_loop_from [OF this, of "int m", unfolded eight] show thesis
  proof
    assume "\<exists>k \<ge> 3. k \<le> 62 \<and> newsize_loop (int m) 8 = 2 ^ k \<and> int m < 2 ^ k \<and> (\<forall>i \<ge> 3. i < k \<longrightarrow> 2 ^ i \<le> int m)"
    then obtain k where k: "3 \<le> k" "k \<le> 62" "newsize_loop (int m) 8 = 2 ^ k" "int m < 2 ^ k"
      "\<forall>i \<ge> 3. i < k \<longrightarrow> 2 ^ i \<le> int m" by blast
    have "m < 2 ^ k" using k(4) by (metis of_nat_less_iff of_nat_numeral of_nat_power)
    moreover have "2 ^ k \<le> 2 * m" if "k \<noteq> 3"
    proof -
      have "3 < k" using that k(1) by simp
      then obtain i where i: "k = Suc i" "3 \<le> i" by (cases k) auto
      then have "2 ^ i \<le> int m" using k(5) by simp
      then have "2 ^ i \<le> m" by (metis of_nat_le_iff of_nat_numeral of_nat_power)
      then show ?thesis using i by simp
    qed
    ultimately show thesis using size k by blast
  next
    assume "sint (newsize_loop (int m) 8) \<le> 0 \<and> 2 ^ 62 \<le> int m"
    moreover then have "int (2 ^ 62) \<le> int m" by simp
    then have "2 ^ 62 \<le> m" by (simp only: of_nat_le_iff)
    ultimately show thesis using overflow by blast
  qed
qed

text \<open>Copying the items of an old table into a new one.\<close>

lemma copy_entries_spec:
  assumes "dict_ok E mp" and "\<forall>e \<in> set es. slot_ok E e"
    and "ma_fill mp + length (entries_of es) \<le> ma_mask mp"
    and "ma_lookup mp = Lookdict_string \<longrightarrow> (\<forall>e \<in> set es. \<forall>k. me_key e = Key k \<longrightarrow> isstr E k)"
  shows "\<exists>mp'. copy_entries (filled es) es mp = Some mp' \<and> dict_ok E mp'
    \<and> items mp' = items mp + mset (entries_of es) \<and> ma_fill mp' = ma_fill mp + length (entries_of es)
    \<and> ma_mask mp' = ma_mask mp \<and> ma_lookup mp' = ma_lookup mp"
  using assms
proof (induction es arbitrary: mp)
  case Nil
  then show ?case by (simp add: filled_def entries_of_def)
next
  case (Cons e es)
  show ?case
  proof (cases "me_key e")
    case Null
    then have "me_value e = None" using Cons.prems(2) by (auto simp: slot_ok_def)
    then show ?thesis using Cons Null by (cases "filled es") (auto simp: filled_def entries_of_def)
  next
    case Dummy
    then have "me_value e = None" using Cons.prems(2) by (auto simp: slot_ok_def)
    then show ?thesis using Cons Dummy by (auto simp: filled_def entries_of_def)
  next
    case (Key k)
    then obtain v where v: "me_value e = Some v" and hash: "hash_key E k = Some (me_hash e)"
      using Cons.prems(2) by (auto simp: slot_ok_def)
    have room: "has_room mp" using Cons.prems(3) by (simp add: has_room_def)
    have str: "ma_lookup mp = Lookdict_string \<Longrightarrow> isstr E k" using Cons.prems(4) Key by auto
    obtain mp1 where mp1: "insertdict_clean mp (Key k) (me_hash e) v = Some mp1" "dict_ok E mp1"
      "items mp1 = add_mset (k, v) (items mp)" "ma_fill mp1 = ma_fill mp + 1" "ma_mask mp1 = ma_mask mp"
      "ma_lookup mp1 = ma_lookup mp"
      using insertdict_clean_spec [OF Cons.prems(1) room hash str] by blast
    have len: "entries_of (e # es) = (k, v) # entries_of es" using Key v by (simp add: entries_of_def)
    have fill: "filled (e # es) = Suc (filled es)" using Key by (simp add: filled_def)
    obtain mp2 where "copy_entries (filled es) es mp1 = Some mp2" "dict_ok E mp2"
      "items mp2 = items mp1 + mset (entries_of es)" "ma_fill mp2 = ma_fill mp1 + length (entries_of es)"
      "ma_mask mp2 = ma_mask mp1" "ma_lookup mp2 = ma_lookup mp1"
      using Cons.IH [OF mp1(2)] Cons.prems(2-4) mp1(4-6) len by auto
    then show ?thesis using mp1 v Key by (simp add: fill len)
  qed
qed

text \<open>A zeroed table.\<close>

lemma zeroed_ok:
  assumes "3 \<le> k" "k \<le> 58" "ma_table mp = replicate (2 ^ k) zero_entry" "ma_mask mp = 2 ^ k - 1"
    and "length (ma_smalltable mp) = PyDict_MINSIZE" "ma_used mp = 0" "ma_fill mp = 0"
  shows "dict_ok E mp" and "items mp = {#}"
proof -
  have none: "entries_of (replicate n zero_entry) = []" for n
    by (induction n) (auto simp: entries_of_def zero_entry_def)
  then show "items mp = {#}" using assms(3) by (simp add: items_def)
  have mask: "mask_word mp = mask k" using assms(2,4) by (simp add: mask_word_def mask_eq_exp_minus_1 of_nat_diff)
  have "probe_table_ok E (ma_table mp) (mask_word mp)"
    unfolding probe_table_ok_def table_shape_def mask assms(3) using assms(2)
    by (auto simp: slot_ok_def zero_entry_def)
  moreover have "PyDict_MINSIZE \<le> 2 ^ k" using power_increasing [OF assms(1), of "2::nat"] by (simp add: PyDict_MINSIZE_def)
  moreover have "\<forall>e \<in> set (ma_table mp). me_key e = Null" unfolding assms(3) by (auto simp: zero_entry_def)
  ultimately show "dict_ok E mp" using assms none by (auto simp: dict_ok_def filled_def)
qed

lemma rebuild_spec:
  assumes ok: "dict_ok E mp" and k: "3 \<le> k" "k \<le> 58" and used: "ma_used mp < 2 ^ k"
  obtains mp' where "rebuild (ma_table mp) (2 ^ k) mp = Some (mp', Inr ())" "dict_ok E mp'" "items mp' = items mp"
    "ma_fill mp' = ma_used mp'" "ma_used mp' = ma_used mp" "ma_mask mp' = 2 ^ k - 1"
    "ma_lookup mp' = ma_lookup mp"
proof -
  let ?fresh = "(if (2::nat) ^ k = PyDict_MINSIZE
           then mp\<lparr>ma_malloced := None, ma_smalltable := replicate (2 ^ k) zero_entry\<rparr>
           else mp\<lparr>ma_malloced := Some (replicate (2 ^ k) zero_entry)\<rparr>)
          \<lparr>ma_mask := 2 ^ k - 1, ma_used := 0, ma_fill := 0\<rparr>"
  have fields: "ma_table ?fresh = replicate (2 ^ k) zero_entry" "ma_mask ?fresh = 2 ^ k - 1"
    "length (ma_smalltable ?fresh) = PyDict_MINSIZE" "ma_used ?fresh = 0" "ma_fill ?fresh = 0"
    "ma_lookup ?fresh = ma_lookup mp"
    using dict_okD(5) [OF ok] by (auto simp: ma_table_def)
  note fresh = zeroed_ok(1) [OF k fields(1-5), of E] zeroed_ok(2) [OF k fields(1-5)]
  have "\<forall>e \<in> set (ma_table mp). slot_ok E e" using probe_table_okD(2) [OF dict_okD(1) [OF ok]] by blast
  moreover have "ma_fill ?fresh + length (entries_of (ma_table mp)) \<le> ma_mask ?fresh"
    using used unfolding fields dict_okD(7) [OF ok] by simp
  moreover have "ma_lookup ?fresh = Lookdict_string \<longrightarrow>
      (\<forall>e \<in> set (ma_table mp). \<forall>k. me_key e = Key k \<longrightarrow> isstr E k)"
    unfolding fields using ok by (simp add: dict_ok_def)
  ultimately obtain mp' where mp': "copy_entries (filled (ma_table mp)) (ma_table mp) ?fresh = Some mp'"
    "dict_ok E mp'" "items mp' = items ?fresh + mset (entries_of (ma_table mp))"
    "ma_fill mp' = ma_fill ?fresh + length (entries_of (ma_table mp))"
    "ma_mask mp' = ma_mask ?fresh" "ma_lookup mp' = ma_lookup ?fresh"
    using copy_entries_spec [OF fresh(1)] by blast
  have items: "items mp' = items mp" unfolding mp'(3) fresh(2) by (simp add: items_def)
  have fill: "ma_fill mp' = ma_used mp" unfolding mp'(4) fields by (simp add: dict_okD(7) [OF ok])
  have "ma_used mp' = ma_used mp" using dict_okD(8) [OF mp'(2)] dict_okD(8) [OF ok] items by simp
  moreover have "rebuild (ma_table mp) (2 ^ k) mp = Some (mp', Inr ())"
    using mp'(1) unfolding rebuild_def dict_okD(6) [OF ok] by simp
  ultimately show thesis using that mp' items fill fields by metis
qed

lemma alloc_bound: "2 ^ k \<le> ((2 ^ 63 - 1) div 24 :: nat) \<longleftrightarrow> k \<le> 58"
proof -
  have bounds: "(2::nat) ^ 58 \<le> (2 ^ 63 - 1) div 24" "((2 ^ 63 - 1) div 24 :: nat) < 2 ^ 59" by simp_all
  show ?thesis
  proof (cases "k \<le> 58")
    case True
    then have "(2::nat) ^ k \<le> 2 ^ 58" by (intro power_increasing) simp_all
    then show ?thesis using True bounds(1) by linarith
  next
    case False
    then have "(2::nat) ^ 59 \<le> 2 ^ k" by (intro power_increasing) simp_all
    then show ?thesis using False bounds(2) by linarith
  qed
qed

lemma dictresize_cases [consumes 2]:
  assumes ok: "dict_ok E mp" and used: "ma_used mp \<le> minused"
  obtains (no_memory) "dictresize mem mp minused = Some (mp, Inl MemoryError)"
      "\<exists>n \<le> 2 * minused. \<not> PyMem_NEW mem n"
  | (resized) mp' where "dictresize mem mp minused = Some (mp', Inr ())" "dict_ok E mp'" "items mp' = items mp"
      "ma_fill mp' = ma_used mp'" "ma_used mp' = ma_used mp" "minused \<le> ma_mask mp'"
      "ma_mask mp' + 1 = 8 \<or> ma_mask mp' + 1 \<le> 2 * minused" "ma_lookup mp' = ma_lookup mp"
proof (cases rule: newsize_cases [of minused])
  case overflow
  then have "dictresize mem mp minused = Some (mp, Inl MemoryError)"
    by (simp add: dictresize_def PyDict_MINSIZE_def)
  moreover have "\<not> PyMem_NEW mem minused" using overflow(2) by (simp add: PyMem_NEW_def)
  then have "\<exists>n \<le> 2 * minused. \<not> PyMem_NEW mem n" by (intro exI [of _ minused]) simp
  ultimately show thesis by (rule no_memory)
next
  case (size k)
  note size_word = unat_power [OF size(2)] sint_power [OF size(2)]
  have unfold: "dictresize mem mp minused =
    (if 2 ^ k = PyDict_MINSIZE then
        (if ma_malloced mp = None \<and> ma_fill mp = ma_used mp then Some (mp, Inr ())
         else rebuild (ma_table mp) (2 ^ k) mp)
      else if \<not> PyMem_NEW mem (2 ^ k) then Some (mp, Inl MemoryError)
      else rebuild (ma_table mp) (2 ^ k) mp)"
    using size(3) size_word by (simp add: dictresize_def PyDict_MINSIZE_def)
  show thesis
  proof (cases "2 ^ k \<noteq> PyDict_MINSIZE \<and> \<not> PyMem_NEW mem (2 ^ k)")
    case True
    moreover have "2 ^ k \<le> 2 * minused" using True size(5) by (auto simp: PyDict_MINSIZE_def)
    ultimately show thesis using no_memory unfold by auto
  next
    case False
    have k: "k \<le> 58"
    proof (cases "2 ^ k = PyDict_MINSIZE")
      case True
      show ?thesis
      proof (rule ccontr)
        assume "\<not> k \<le> 58"
        then have "(2::nat) ^ 58 \<le> 2 ^ k" by (intro power_increasing) simp_all
        then show False using True by (simp add: PyDict_MINSIZE_def)
      qed
    qed (use False alloc_bound in \<open>auto simp: PyMem_NEW_def\<close>)
    have fits: "ma_used mp < 2 ^ k" using used size(4) by simp
    obtain mp' where mp': "rebuild (ma_table mp) (2 ^ k) mp = Some (mp', Inr ())" "dict_ok E mp'" "items mp' = items mp"
      "ma_fill mp' = ma_used mp'" "ma_used mp' = ma_used mp" "ma_mask mp' = 2 ^ k - 1" "ma_lookup mp' = ma_lookup mp"
      by (rule rebuild_spec [OF ok size(1) k fits]) blast
    show thesis
    proof (cases "2 ^ k = PyDict_MINSIZE \<and> ma_malloced mp = None \<and> ma_fill mp = ma_used mp")
      case True
      then have "length (ma_table mp) = 8" using dict_okD(5) [OF ok] by (simp add: ma_table_def PyDict_MINSIZE_def)
      then have "ma_mask mp = 7" using dict_okD(4) [OF ok] by simp
      moreover have "minused < 8" using True size(4) by (simp add: PyDict_MINSIZE_def)
      ultimately show thesis using True resized [of mp] unfold ok by simp
    next
      case F: False
      have "dictresize mem mp minused = rebuild (ma_table mp) (2 ^ k) mp" unfolding unfold using False F by argo
      then have r: "dictresize mem mp minused = Some (mp', Inr ())" unfolding mp'(1) .
      have eq: "ma_mask mp' + 1 = 2 ^ k" using mp'(6) by simp
      have "minused \<le> ma_mask mp'" using eq size(4) by linarith
      moreover have "ma_mask mp' + 1 = 8 \<or> ma_mask mp' + 1 \<le> 2 * minused" using size(5) unfolding eq by auto
      ultimately show thesis by (rule resized [OF r mp'(2-5) _ _ mp'(7)])
    qed
  qed
qed

section \<open>Setting an item\<close>

text \<open>The load that SetItem keeps when it succeeds in adding a key.\<close>

definition load_ok :: "('o, 'v) dict \<Rightarrow> bool" where
  "load_ok mp \<longleftrightarrow> ma_fill mp * 3 < (ma_mask mp + 1) * 2"

lemma load_ok_room: "load_ok mp \<Longrightarrow> has_room mp"
  by (simp add: load_ok_def has_room_def)

lemma item_of_slot:
  assumes "dict_ok E mp" "s < length (ma_table mp)" "me_key (ma_table mp ! s) = Key k" "me_value (ma_table mp ! s) = Some v"
  shows "(k, v) \<in># items mp"
  unfolding in_items [OF assms(1)] using assms(2-4) nth_mem by blast

lemma SetItem_cases [consumes 3]:
  assumes ok: "dict_ok E mp" and laws: "str_laws E" and room: "has_room mp"
  obtains (unhashable) "hash_key E key = None" "PyDict_SetItem mem E mp key val = Some (mp, Inl HashError)"
  | (raised) "PyDict_SetItem mem E mp key val = Some (after_lookup E mp key, Inl CompareError)"
      "\<exists>k v. (k, v) \<in># items mp \<and> PyObject_RichCompareBool E k key = None"
  | (replaced) mp' s k v M where "PyDict_SetItem mem E mp key val = Some (mp', Inr ())" "dict_ok E mp'"
      "ma_mask mp' = ma_mask mp" "ma_fill mp' = ma_fill mp" "same_key E k key"
      "items mp = add_mset (k, v) M" "items mp' = add_mset (k, val) M"
      "s < length (ma_table mp)" "me_key (ma_table mp ! s) = Key k"
      "ma_table mp' = (ma_table mp)[s := (ma_table mp ! s)\<lparr>me_value := Some val\<rparr>]"
  | (inserted) mp' h where "PyDict_SetItem mem E mp key val = Some (mp', Inr ())" "dict_ok E mp'" "load_ok mp'"
      "items mp' = add_mset (key, val) (items mp)" "hash_key E key = Some h"
      "\<And>k v. (k, v) \<in># items mp \<Longrightarrow> hash_key E k = Some h \<Longrightarrow> PyObject_RichCompareBool E k key = Some False"
  | (no_memory) mp' h where "PyDict_SetItem mem E mp key val = Some (mp', Inl MemoryError)" "dict_ok E mp'"
      "items mp' = add_mset (key, val) (items mp)" "ma_mask mp' = ma_mask mp" "ma_fill mp' \<le> ma_fill mp + 1"
      "\<exists>n \<le> 8 * (ma_used mp + 1). \<not> PyMem_NEW mem n" "hash_key E key = Some h"
      "\<And>k v. (k, v) \<in># items mp \<Longrightarrow> hash_key E k = Some h \<Longrightarrow> PyObject_RichCompareBool E k key = Some False"
proof (cases "hash_key E key")
  case None
  then show thesis using unhashable by (simp add: PyDict_SetItem_def)
next
  case (Some h)
  from ok laws room Some show thesis
  proof (cases rule: insertdict_cases [where val = val])
    case r: raised
    then show thesis using raised Some by (simp add: PyDict_SetItem_def)
  next
    case r: (replaced mp' s k v)
    have "(k, v) \<in># items mp" using item_of_slot [OF ok] r by blast
    then obtain M where M: "items mp = add_mset (k, v) M" by (blast dest: multi_member_split)
    then have "items mp' = add_mset (k, val) M" using r(7) by (simp add: add_mset_commute)
    moreover have "PyDict_SetItem mem E mp key val = Some (mp', Inr ())"
      using r(1,4) Some by (simp add: PyDict_SetItem_def)
    ultimately show thesis using replaced r M by blast
  next
    case r: (inserted mp')
    let ?n = "(if 50000 < ma_used mp' then 2 else 4) * ma_used mp'"
    show thesis
    proof (cases "load_ok mp'")
      case True
      then have "PyDict_SetItem mem E mp key val = Some (mp', Inr ())"
        using r(1) Some by (auto simp: PyDict_SetItem_def load_ok_def)
      then show thesis using inserted r True Some by blast
    next
      case False
      then have step: "PyDict_SetItem mem E mp key val = dictresize mem mp' ?n"
        using r(1,4) Some by (auto simp: PyDict_SetItem_def load_ok_def)
      have used: "ma_used mp' \<le> ?n" by simp
      show thesis using r(2) used
      proof (cases rule: dictresize_cases [where mem = mem])
        case m: no_memory
        have "2 * ?n \<le> 8 * (ma_used mp + 1)" using r(4) by simp
        then have "\<exists>n \<le> 8 * (ma_used mp + 1). \<not> PyMem_NEW mem n" using m(2) order_trans by blast
        then show thesis using no_memory [of mp' h] m(1) step r Some by auto
      next
        case (resized mp2)
        have "2 * ma_used mp2 \<le> ?n" using resized(5) by auto
        then have "load_ok mp2" using resized(4,6) by (simp add: load_ok_def)
        then show thesis using inserted [of mp2 h] resized step r Some by simp
      qed
    qed
  qed
qed

end
