(* ===== verification/Py_Dict_Map.thy ===== *)
theory Py_Dict_Map
  imports Py_Dict_Resize Interfaces
begin

text \<open>
  A dictionary of Objects/dictobject.c as a map from keys to values, up to equality of
  keys: what each operation does to the map, that it keeps the invariant, and when it
  fails. Keys are lawful when equality, where it is decided, is symmetric and
  transitive and equal keys have equal hashes; comparisons may still raise exceptions.
\<close>

section \<open>Lawful keys and unique items\<close>

definition key_laws :: "'o key_ops \<Rightarrow> bool" where
  "key_laws E \<longleftrightarrow> str_laws E
     \<and> (\<forall>a b. same_key E a b \<longrightarrow> same_key E b a)
     \<and> (\<forall>a b c. same_key E a b \<longrightarrow> same_key E b c \<longrightarrow> same_key E a c)
     \<and> (\<forall>a b. same_key E a b \<longrightarrow> hash_key E a = hash_key E b)"

lemma key_lawsD:
  assumes "key_laws E"
  shows "str_laws E" "same_key E a b \<Longrightarrow> same_key E b a"
    "same_key E a b \<Longrightarrow> same_key E b c \<Longrightarrow> same_key E a c"
    "same_key E a b \<Longrightarrow> hash_key E a = hash_key E b"
  using assms unfolding key_laws_def by blast+

text \<open>Comparisons that raise no exception.\<close>

definition total_keys :: "'o key_ops \<Rightarrow> bool" where
  "total_keys E \<longleftrightarrow> (\<forall>a b. PyObject_RichCompareBool E a b \<noteq> None)"

text \<open>The items whose key is equal to the given one; there is at most one.\<close>

definition matching :: "'o key_ops \<Rightarrow> ('o \<times> 'v) multiset \<Rightarrow> 'o \<Rightarrow> ('o \<times> 'v) multiset" where
  "matching E M key = filter_mset (\<lambda>x. same_key E (fst x) key) M"

definition uniq :: "'o key_ops \<Rightarrow> ('o \<times> 'v) multiset \<Rightarrow> bool" where
  "uniq E M \<longleftrightarrow> (\<forall>key. size (matching E M key) \<le> 1)"

definition dict_map :: "'o key_ops \<Rightarrow> ('o, 'v) dict \<Rightarrow> 'o \<Rightarrow> 'v option" where
  "dict_map E mp key = map_option snd (find (\<lambda>x. same_key E (fst x) key) (entries_of (ma_table mp)))"

definition map_put :: "'o key_ops \<Rightarrow> 'o \<Rightarrow> 'v option \<Rightarrow> ('o \<Rightarrow> 'v option) \<Rightarrow> 'o \<Rightarrow> 'v option" where
  "map_put E key v m = (\<lambda>k. if same_key E key k then v else m k)"

lemma matching_simps [simp]:
  "matching E {#} key = {#}"
  "matching E (add_mset x M) key = (if same_key E (fst x) key then add_mset x (matching E M key) else matching E M key)"
  by (simp_all add: matching_def)

lemma dict_map_matching:
  assumes "uniq E (items mp)"
  shows "dict_map E mp key = Some v \<longleftrightarrow> (\<exists>k. matching E (items mp) key = {#(k, v)#})"
    and "dict_map E mp key = None \<longleftrightarrow> matching E (items mp) key = {#}"
proof -
  let ?P = "\<lambda>x. same_key E (fst x) key"
  let ?xs = "filter ?P (entries_of (ma_table mp))"
  have m: "matching E (items mp) key = mset ?xs" by (simp add: matching_def items_def)
  have find: "find P xs = (case filter P xs of [] \<Rightarrow> None | x # _ \<Rightarrow> Some x)" for P :: "'a \<times> 'b \<Rightarrow> bool" and xs
    by (induction xs) auto
  have "size (mset ?xs) \<le> 1" using assms unfolding uniq_def m [symmetric] by blast
  then have len: "length ?xs \<le> 1" by (simp only: size_mset)
  show "dict_map E mp key = None \<longleftrightarrow> matching E (items mp) key = {#}"
    unfolding dict_map_def find m by (cases ?xs) auto
  show "dict_map E mp key = Some v \<longleftrightarrow> (\<exists>k. matching E (items mp) key = {#(k, v)#})"
    unfolding dict_map_def find m using len by (cases ?xs) (auto intro: prod_eqI)
qed

lemma dict_map_cong:
  assumes "uniq E (items mp)" "items mp' = items mp"
  shows "dict_map E mp' = dict_map E mp"
proof
  fix key
  have u: "uniq E (items mp')" using assms by simp
  show "dict_map E mp' key = dict_map E mp key"
    using dict_map_matching [OF assms(1)] dict_map_matching [OF u] assms(2)
    by (cases "dict_map E mp key") metis+
qed

lemma option_ext: "(\<And>v. a = Some v \<longleftrightarrow> b = Some v) \<Longrightarrow> a = b"
  by (metis not_None_eq)

lemma dict_map_eqI:
  assumes "uniq E (items mp)" and "\<And>key v. m key = Some v \<longleftrightarrow> (\<exists>k. matching E (items mp) key = {#(k, v)#})"
  shows "dict_map E mp = m"
proof
  fix key
  show "dict_map E mp key = m key"
    by (rule option_ext) (unfold dict_map_matching(1) [OF assms(1)] assms(2), rule refl)
qed

text \<open>What adding, replacing and removing an item mean for uniqueness and the map.\<close>

lemma matching_empty: "matching E M key = {#} \<longleftrightarrow> (\<forall>x \<in># M. \<not> same_key E (fst x) key)"
proof -
  have "matching E M key = {#} \<longleftrightarrow> set_mset (matching E M key) = {}" by simp
  then show ?thesis unfolding matching_def set_mset_filter by blast
qed

lemma single_of_size: "size M \<le> 1 \<Longrightarrow> x \<in># M \<Longrightarrow> M = {#x#}"
  by (auto dest!: multi_member_split)

lemma matching_same:
  assumes "key_laws E" "same_key E a b"
  shows "matching E M a = matching E M b"
  unfolding matching_def using key_lawsD [OF assms(1)] assms(2) by (intro filter_mset_cong refl) blast

lemma put_new:
  assumes laws: "key_laws E" and u: "uniq E (items mp)" and new: "matching E (items mp) key = {#}"
    and it: "items mp' = add_mset (key, v) (items mp)"
  shows "uniq E (items mp')" and "dict_map E mp' = map_put E key (Some v) (dict_map E mp)"
proof -
  have other: "matching E (items mp) k = {#}" if "same_key E key k" for k
    using matching_same [OF laws that, of "items mp"] new by simp
  show u': "uniq E (items mp')" using u unfolding uniq_def it by (simp add: other)
  show "dict_map E mp' = map_put E key (Some v) (dict_map E mp)"
    by (rule dict_map_eqI [OF u']) (use other dict_map_matching(1) [OF u] in \<open>auto simp: it map_put_def\<close>)
qed

lemma put_replaced:
  assumes laws: "key_laws E" and u: "uniq E (items mp)" and same: "same_key E k key"
    and it: "items mp = add_mset (k, old) M" "items mp' = add_mset (k, v) M"
  shows "uniq E (items mp')" and "dict_map E mp' = map_put E key (Some v) (dict_map E mp)"
proof -
  have same_iff: "same_key E key q \<longleftrightarrow> same_key E k q" for q using key_lawsD [OF laws] same by blast
  have "size (matching E (items mp') q) = size (matching E (items mp) q)" for q by (simp add: it)
  then show u': "uniq E (items mp')" using u unfolding uniq_def by simp
  have rest: "matching E M q = {#}" if "same_key E k q" for q
    using u that unfolding uniq_def it by (auto dest: spec [of _ q])
  show "dict_map E mp' = map_put E key (Some v) (dict_map E mp)"
    by (rule dict_map_eqI [OF u'])
      (use rest dict_map_matching(1) [OF u] same_iff in \<open>auto simp: map_put_def it\<close>)
qed

lemma put_removed:
  assumes laws: "key_laws E" and u: "uniq E (items mp)" and same: "same_key E k key"
    and it: "items mp = add_mset (k, old) (items mp')"
  shows "uniq E (items mp')" and "dict_map E mp' = map_put E key None (dict_map E mp)"
proof -
  have same_iff: "same_key E key q \<longleftrightarrow> same_key E k q" for q using key_lawsD [OF laws] same by blast
  have "size (matching E (items mp') q) \<le> size (matching E (items mp) q)" for q by (simp add: it)
  then show u': "uniq E (items mp')" using u unfolding uniq_def by (meson order_trans)
  have rest: "matching E (items mp') q = {#}" if "same_key E k q" for q
    using u that unfolding uniq_def it by (auto dest: spec [of _ q])
  show "dict_map E mp' = map_put E key None (dict_map E mp)"
    by (rule dict_map_eqI [OF u'])
      (use rest dict_map_matching(1) [OF u] same_iff in \<open>auto simp: map_put_def it\<close>)
qed

section \<open>Single operations\<close>

definition dict_inv :: "'o key_ops \<Rightarrow> ('o, 'v) dict \<Rightarrow> bool" where
  "dict_inv E mp \<longleftrightarrow> dict_ok E mp \<and> has_room mp \<and> uniq E (items mp)"

lemma dict_invD:
  assumes "dict_inv E mp"
  shows "dict_ok E mp" "has_room mp" "uniq E (items mp)"
  using assms by (auto simp: dict_inv_def)

lemma dict_inv_after_lookup [simp]: "dict_inv E mp \<Longrightarrow> dict_inv E (after_lookup E mp key)"
  by (simp add: dict_inv_def dict_ok_after_lookup)

lemma dict_map_after_lookup [simp]: "dict_map E (after_lookup E mp key) = dict_map E mp"
  by (simp add: dict_map_def fun_eq_iff)

text \<open>The outcomes of a lookup, as the map sees them.\<close>

lemma map_lookup_cases [consumes 3]:
  assumes inv: "dict_inv E mp" and laws: "key_laws E" and hash: "hash_key E key = Some h"
  obtains (raised) "call_lookup E mp key h = Some (after_lookup E mp key, Raised)"
      "\<exists>k v. (k, v) \<in># items mp \<and> PyObject_RichCompareBool E k key = None"
  | (found) s k v where "call_lookup E mp key h = Some (after_lookup E mp key, Slot s)" "s < length (ma_table mp)"
      "me_key (ma_table mp ! s) = Key k" "me_value (ma_table mp ! s) = Some v" "same_key E k key"
      "dict_map E mp key = Some v"
  | (absent) s where "call_lookup E mp key h = Some (after_lookup E mp key, Slot s)" "s < length (ma_table mp)"
      "me_value (ma_table mp ! s) = None" "dict_map E mp key = None"
  using dict_invD(1) [OF inv] key_lawsD(1) [OF laws] dict_invD(2) [OF inv] hash
proof (cases rule: lookup_cases)
  case raised
  then show thesis using that(1) by blast
next
  case (found s k v)
  have "(k, v) \<in># items mp" using found(2-4) nth_mem in_items [OF dict_invD(1) [OF inv]] by blast
  then have "(k, v) \<in># matching E (items mp) key" using found(5) by (simp add: matching_def)
  moreover have "size (matching E (items mp) key) \<le> 1" using dict_invD(3) [OF inv] by (simp add: uniq_def)
  ultimately have "matching E (items mp) key = {#(k, v)#}" by (intro single_of_size)
  then have "dict_map E mp key = Some v" using dict_map_matching(1) [OF dict_invD(3) [OF inv]] by blast
  then show thesis using that(2) found by blast
next
  case (absent s)
  have "\<not> same_key E k key" if "(k, v) \<in># items mp" for k v
    using absent(6) [OF that] key_lawsD(4) [OF laws, of k key] hash by fastforce
  then have "matching E (items mp) key = {#}" unfolding matching_empty by auto
  then have "dict_map E mp key = None" using dict_map_matching(2) [OF dict_invD(3) [OF inv]] by blast
  then show thesis using that(3) absent by blast
qed

lemma PyDict_SetItem_map:
  assumes inv: "dict_inv E mp" and laws: "key_laws E"
  shows "\<exists>mp' r. PyDict_SetItem mem E mp key v = Some (mp', r) \<and>
    (case r of
       Inr _ \<Rightarrow> dict_inv E mp' \<and> dict_map E mp' = map_put E key (Some v) (dict_map E mp)
     | Inl e \<Rightarrow>
         e = MemoryError \<and> dict_ok E mp' \<and> uniq E (items mp') \<and> dict_map E mp' = map_put E key (Some v) (dict_map E mp)
         \<or> (e = HashError \<or> e = CompareError) \<and> dict_inv E mp' \<and> dict_map E mp' = dict_map E mp)"
proof -
  note ok = dict_invD(1) [OF inv] and room = dict_invD(2) [OF inv] and u = dict_invD(3) [OF inv]
  have new: "matching E (items mp) key = {#}"
    if "hash_key E key = Some h"
      "\<And>k v. (k, v) \<in># items mp \<Longrightarrow> hash_key E k = Some h \<Longrightarrow> PyObject_RichCompareBool E k key = Some False" for h
  proof -
    have "\<not> same_key E k key" if "(k, v) \<in># items mp" for k v
      using that(1) \<open>hash_key E key = Some h\<close> key_lawsD(4) [OF laws, of k key]
        \<open>\<And>k v. (k, v) \<in># items mp \<Longrightarrow> hash_key E k = Some h \<Longrightarrow> PyObject_RichCompareBool E k key = Some False\<close> [of k v]
      by fastforce
    then show ?thesis unfolding matching_empty by auto
  qed
  from ok key_lawsD(1) [OF laws] room show ?thesis
  proof (cases rule: SetItem_cases [where mem = mem and key = key and val = v])
    case unhashable
    then show ?thesis using inv by simp
  next
    case raised
    then show ?thesis using inv by simp
  next
    case (replaced mp' s k old M)
    have "has_room mp'" using room replaced(3,4) by (simp add: has_room_def)
    then show ?thesis using replaced put_replaced [OF laws u replaced(5,6,7)] by (simp add: dict_inv_def)
  next
    case (inserted mp' h)
    note put_new [OF laws u new [OF inserted(5,6)] inserted(4)]
    then show ?thesis using inserted(1-3) load_ok_room by (simp add: dict_inv_def)
  next
    case (no_memory mp' h)
    note put_new [OF laws u new [OF no_memory(7,8)] no_memory(3)]
    then show ?thesis using no_memory(1,2) by simp
  qed
qed

lemma remove_slot_map:
  assumes inv: "dict_inv E mp" and laws: "key_laws E" and s: "s < length (ma_table mp)"
    and key: "me_key (ma_table mp ! s) = Key k" "me_value (ma_table mp ! s) = Some v" "same_key E k key"
  shows "dict_inv E (remove_slot s mp)" and "dict_map E (remove_slot s mp) = map_put E key None (dict_map E mp)"
proof -
  note rem = remove_item [OF dict_invD(1) [OF inv] s key(1,2)]
  note put_removed [OF laws dict_invD(3) [OF inv] key(3) rem(2)]
  then show "dict_inv E (remove_slot s mp)" "dict_map E (remove_slot s mp) = map_put E key None (dict_map E mp)"
    using rem(1) dict_invD(2) [OF inv] by (simp_all add: dict_inv_def)
qed

lemma PyDict_Clear_map:
  assumes "dict_inv E mp"
  shows "dict_inv E (PyDict_Clear mp)" and "dict_map E (PyDict_Clear mp) = (\<lambda>_. None)"
proof -
  have empty: "dict_ok E (EMPTY_TO_MINSIZE mp)" "items (EMPTY_TO_MINSIZE mp) = {#}"
    by (rule zeroed_ok [of 3]; simp add: EMPTY_TO_MINSIZE_def INIT_NONZERO_DICT_SLOTS_def ma_table_def PyDict_MINSIZE_def)+
  have room: "has_room (EMPTY_TO_MINSIZE mp)"
    by (simp add: has_room_def EMPTY_TO_MINSIZE_def INIT_NONZERO_DICT_SLOTS_def)
  have "dict_inv E (PyDict_Clear mp) \<and> items (PyDict_Clear mp) = {#}"
  proof (cases "ma_malloced mp \<noteq> None \<or> 0 < ma_fill mp")
    case True
    then show ?thesis using empty room by (auto simp: PyDict_Clear_def dict_inv_def uniq_def)
  next
    case False
    then have "ma_used mp = 0" using used_le_fill [OF dict_invD(1) [OF assms]] by simp
    then have "items mp = {#}" using dict_okD(8) [OF dict_invD(1) [OF assms]] by simp
    then show ?thesis using False assms by (simp add: PyDict_Clear_def)
  qed
  then show "dict_inv E (PyDict_Clear mp)" "dict_map E (PyDict_Clear mp) = (\<lambda>_. None)"
    using dict_map_matching(2) [of E "PyDict_Clear mp"] by (auto simp: dict_inv_def fun_eq_iff)
qed

section \<open>Sequences of operations\<close>

datatype ('o, 'v) dict_op =
    OpSet 'o 'v
  | OpDel 'o
  | OpSubscript 'o
  | OpContains 'o
  | OpGet 'o 'v
  | OpSetdefault 'o 'v
  | OpPop 'o "'v option"
  | OpClear

datatype 'v answer = Done | Val 'v | Bool bool

text \<open>An exception of hashing, comparing or allocating ends a run; a KeyError is an answer.\<close>

definition settle :: "('r \<Rightarrow> 'v answer) \<Rightarrow> ('o, 'v, 'r) outcome \<Rightarrow>
    (('o, 'v) dict \<times> ('o dict_error + ('o dict_error + 'v answer))) option" where
  "settle f r = (case r of
     None \<Rightarrow> None
   | Some (mp, Inr x) \<Rightarrow> Some (mp, Inr (Inr (f x)))
   | Some (mp, Inl e) \<Rightarrow> Some (mp, case e of KeyError k \<Rightarrow> Inr (Inl e) | _ \<Rightarrow> Inl e))"

fun dict_exec :: "(nat \<Rightarrow> bool) \<Rightarrow> 'o key_ops \<Rightarrow> ('o, 'v) dict_op \<Rightarrow> ('o, 'v) dict \<Rightarrow>
    (('o, 'v) dict \<times> ('o dict_error + ('o dict_error + 'v answer))) option" where
  "dict_exec mem E (OpSet k v) mp = settle (\<lambda>_. Done) (dict_ass_sub mem E mp k (Some v))"
| "dict_exec mem E (OpDel k) mp = settle (\<lambda>_. Done) (dict_ass_sub mem E mp k None)"
| "dict_exec mem E (OpSubscript k) mp = settle Val (dict_subscript E mp k)"
| "dict_exec mem E (OpContains k) mp = settle Bool (PyDict_Contains E mp k)"
| "dict_exec mem E (OpGet k d) mp = settle Val (dict_get E mp k d)"
| "dict_exec mem E (OpSetdefault k d) mp = settle Val (dict_setdefault mem E mp k d)"
| "dict_exec mem E (OpPop k d) mp = settle Val (dict_pop E mp k d)"
| "dict_exec mem E OpClear mp = Some (PyDict_Clear mp, Inr (Inr Done))"

text \<open>The same operations on a map.\<close>

fun map_exec :: "'o key_ops \<Rightarrow> ('o, 'v) dict_op \<Rightarrow> ('o \<Rightarrow> 'v option) \<Rightarrow>
    ('o \<Rightarrow> 'v option) \<times> ('o dict_error + 'v answer)" where
  "map_exec E (OpSet k v) m = (map_put E k (Some v) m, Inr Done)"
| "map_exec E (OpDel k) m = (case m k of
     None \<Rightarrow> (m, Inl (KeyError k)) | Some _ \<Rightarrow> (map_put E k None m, Inr Done))"
| "map_exec E (OpSubscript k) m = (m, case m k of None \<Rightarrow> Inl (KeyError k) | Some v \<Rightarrow> Inr (Val v))"
| "map_exec E (OpContains k) m = (m, Inr (Bool (m k \<noteq> None)))"
| "map_exec E (OpGet k d) m = (m, Inr (Val (case m k of None \<Rightarrow> d | Some v \<Rightarrow> v)))"
| "map_exec E (OpSetdefault k d) m = (case m k of
     None \<Rightarrow> (map_put E k (Some d) m, Inr (Val d)) | Some v \<Rightarrow> (m, Inr (Val v)))"
| "map_exec E (OpPop k d) m = (case m k of
     None \<Rightarrow> (m, case d of None \<Rightarrow> Inl (KeyError k) | Some x \<Rightarrow> Inr (Val x))
   | Some v \<Rightarrow> (map_put E k None m, Inr (Val v)))"
| "map_exec E OpClear m = (\<lambda>_. None, Inr Done)"

text \<open>
  What a step promises: it returns, and unless it stops with an outside error it
  answers as the map does.
\<close>

definition step_ok :: "(nat \<Rightarrow> bool) \<Rightarrow> 'o key_ops \<Rightarrow> ('o, 'v) dict_op \<Rightarrow> ('o, 'v) dict \<Rightarrow> bool" where
  "step_ok mem E x mp \<longleftrightarrow> (\<exists>mp' r. dict_exec mem E x mp = Some (mp', r)
     \<and> (\<forall>a. r = Inr a \<longrightarrow> dict_inv E mp' \<and> map_exec E x (dict_map E mp) = (dict_map E mp', a)))"

lemma settle_simps [simp]:
  "settle f (Some (mp, Inr x)) = Some (mp, Inr (Inr (f x)))"
  "settle f (Some (mp, Inl (KeyError k))) = Some (mp, Inr (Inl (KeyError k)))"
  "settle f (Some (mp, Inl HashError)) = Some (mp, Inl HashError)"
  "settle f (Some (mp, Inl CompareError)) = Some (mp, Inl CompareError)"
  "settle f (Some (mp, Inl MemoryError)) = Some (mp, Inl MemoryError)"
  by (simp_all add: settle_def)

lemmas lookup_ops =
  PyDict_DelItem_def dict_subscript_def PyDict_Contains_def dict_get_def dict_setdefault_def dict_pop_def
  dict_ass_sub_def

lemma step_ok_set:
  assumes "dict_inv E mp" "key_laws E"
  shows "step_ok mem E (OpSet k v) mp"
proof -
  obtain mp' r where r: "PyDict_SetItem mem E mp k v = Some (mp', r)" and
    post: "case r of
       Inr _ \<Rightarrow> dict_inv E mp' \<and> dict_map E mp' = map_put E k (Some v) (dict_map E mp)
     | Inl e \<Rightarrow>
         e = MemoryError \<and> dict_ok E mp' \<and> uniq E (items mp') \<and> dict_map E mp' = map_put E k (Some v) (dict_map E mp)
         \<or> (e = HashError \<or> e = CompareError) \<and> dict_inv E mp' \<and> dict_map E mp' = dict_map E mp"
    using PyDict_SetItem_map [OF assms] by blast
  then show ?thesis by (cases r) (auto simp: step_ok_def dict_ass_sub_def)
qed

text \<open>A step that starts with a lookup: the three outcomes.\<close>

lemma step_ok_unhashable:
  assumes "dict_exec mem E x mp = Some (mp, Inl HashError)"
  shows "step_ok mem E x mp"
  using assms by (simp add: step_ok_def)

lemma step_ok_lookup [consumes 2]:
  assumes inv: "dict_inv E mp" and laws: "key_laws E"
  obtains (stopped) "hash_key E key = None"
  | (raised) h where "hash_key E key = Some h" "call_lookup E mp key h = Some (after_lookup E mp key, Raised)"
  | (found) h s v where "hash_key E key = Some h" "call_lookup E mp key h = Some (after_lookup E mp key, Slot s)"
      "me_value (ma_table mp ! s) = Some v" "dict_map E mp key = Some v"
      "dict_inv E (remove_slot s (after_lookup E mp key))"
      "dict_map E (remove_slot s (after_lookup E mp key)) = map_put E key None (dict_map E mp)"
  | (absent) h s where "hash_key E key = Some h" "call_lookup E mp key h = Some (after_lookup E mp key, Slot s)"
      "me_value (ma_table mp ! s) = None" "dict_map E mp key = None"
proof (cases "hash_key E key")
  case None
  then show thesis by (rule stopped)
next
  case (Some h)
  from inv laws Some show thesis
  proof (cases rule: map_lookup_cases)
    case raised
    then show thesis using \<open>hash_key E key = Some h\<close> that(2) by blast
  next
    case (found s k v)
    have "dict_inv E (remove_slot s (after_lookup E mp key))"
      by (rule remove_slot_map(1) [OF dict_inv_after_lookup [OF inv] laws]) (use found in simp_all)
    moreover have "dict_map E (remove_slot s (after_lookup E mp key)) = map_put E key None (dict_map E mp)"
      using remove_slot_map(2) [OF dict_inv_after_lookup [OF inv] laws, of s key k v key] found by simp
    ultimately show thesis using found Some that(3) by blast
  next
    case (absent s)
    then show thesis using Some that(4) by blast
  qed
qed

lemma step_ok_del:
  assumes inv: "dict_inv E mp" and laws: "key_laws E"
  shows "step_ok mem E (OpDel k) mp"
  using assms by (cases rule: step_ok_lookup [where key = k]) (auto simp: step_ok_def lookup_ops inv)

lemma step_ok_subscript:
  assumes inv: "dict_inv E mp" and laws: "key_laws E"
  shows "step_ok mem E (OpSubscript k) mp"
  using assms by (cases rule: step_ok_lookup [where key = k]) (auto simp: step_ok_def lookup_ops inv)

lemma step_ok_contains:
  assumes inv: "dict_inv E mp" and laws: "key_laws E"
  shows "step_ok mem E (OpContains k) mp"
  using assms by (cases rule: step_ok_lookup [where key = k]) (auto simp: step_ok_def lookup_ops inv)

lemma step_ok_get:
  assumes inv: "dict_inv E mp" and laws: "key_laws E"
  shows "step_ok mem E (OpGet k d) mp"
  using assms by (cases rule: step_ok_lookup [where key = k]) (auto simp: step_ok_def lookup_ops inv)

lemma step_ok_setdefault:
  assumes inv: "dict_inv E mp" and laws: "key_laws E"
  shows "step_ok mem E (OpSetdefault k d) mp"
  using assms
proof (cases rule: step_ok_lookup [where key = k])
  case (absent h s)
  obtain mp' r where r: "PyDict_SetItem mem E (after_lookup E mp k) k d = Some (mp', r)" and
    post: "case r of
       Inr _ \<Rightarrow> dict_inv E mp' \<and> dict_map E mp' = map_put E k (Some d) (dict_map E mp)
     | Inl e \<Rightarrow>
         e = MemoryError \<and> dict_ok E mp' \<and> uniq E (items mp') \<and> dict_map E mp' = map_put E k (Some d) (dict_map E mp)
         \<or> (e = HashError \<or> e = CompareError) \<and> dict_inv E mp' \<and> dict_map E mp' = dict_map E mp"
    using PyDict_SetItem_map [OF dict_inv_after_lookup [OF inv, of k] laws, of mem k d, unfolded dict_map_after_lookup] by blast
  show ?thesis using absent r post by (cases r) (auto simp: step_ok_def lookup_ops)
qed (auto simp: step_ok_def lookup_ops inv)

lemma step_ok_pop:
  assumes inv: "dict_inv E mp" and laws: "key_laws E"
  shows "step_ok mem E (OpPop k d) mp"
proof (cases "ma_used mp = 0")
  case True
  then have "items mp = {#}" using dict_okD(8) [OF dict_invD(1) [OF inv]] by simp
  then have "dict_map E mp k = None" using dict_map_matching(2) [OF dict_invD(3) [OF inv]] by simp
  then show ?thesis using True inv by (auto simp: step_ok_def lookup_ops split: option.split)
next
  case False
  from assms show ?thesis
    by (cases rule: step_ok_lookup [where key = k])
      (use False in \<open>auto simp: step_ok_def lookup_ops inv split: option.split\<close>)
qed

lemma step_ok_clear:
  assumes inv: "dict_inv E mp"
  shows "step_ok mem E OpClear mp"
  using PyDict_Clear_map [OF inv] by (simp add: step_ok_def)

lemma step_ok_any:
  assumes "dict_inv E mp \<and> key_laws E"
  shows "step_ok mem E x mp"
  using assms by (cases x) (simp_all add: step_ok_set step_ok_del step_ok_subscript step_ok_contains step_ok_get
      step_ok_setdefault step_ok_pop step_ok_clear)

interpretation dict: data_refinement "\<lambda>mp. dict_inv E mp \<and> key_laws E" "dict_map E" "dict_exec mem E" "map_exec E"
  for E :: "'o key_ops" and mem :: "nat \<Rightarrow> bool"
proof
  fix mp :: "('o, 'v) dict" and x :: "('o, 'v) dict_op"
  assume "dict_inv E mp \<and> key_laws E"
  from step_ok_any [OF this, of mem x] show "dict_exec mem E x mp \<noteq> None" by (auto simp: step_ok_def)
next
  fix mp mp' :: "('o, 'v) dict" and x :: "('o, 'v) dict_op" and r
  assume "dict_inv E mp \<and> key_laws E" "dict_exec mem E x mp = Some (mp', Inr r)"
  with step_ok_any [of E mp mem x]
  show "(dict_inv E mp' \<and> key_laws E) \<and> map_exec E x (dict_map E mp) = (dict_map E mp', r)"
    by (auto simp: step_ok_def)
qed

end
