(* ===== verification/Py_Dict_Iter.thy ===== *)
theory Py_Dict_Iter
  imports Py_Dict_Map
begin

text \<open>
  Going through a dictionary of Objects/dictobject.c: PyDict_Next and the key iterator,
  the lists of keys, values and items, and popitem with its search finger in the hash
  field of slot 0.
\<close>

section \<open>PyDict_Next\<close>

text \<open>while (i <= mask \<and> ep[i].me_value == NULL) i++.\<close>

function skip_empty :: "('o, 'v) dict_entry list \<Rightarrow> nat \<Rightarrow> nat \<Rightarrow> nat" where
  "skip_empty ep msk i = (if i \<le> msk \<and> me_value (ep ! i) = None then skip_empty ep msk (i + 1) else i)"
  by pat_completeness auto

termination
  by (relation "measure (\<lambda>(ep, msk, i). msk + 1 - i)") auto

declare skip_empty.simps [simp del]

text \<open>The new position, and key and value of the item found.\<close>

definition PyDict_Next :: "('o, 'v) dict \<Rightarrow> int \<Rightarrow> int \<times> ('o keyptr \<times> 'v option) option" where
  "PyDict_Next mp ppos =
     (if ppos < 0 then (ppos, None)
      else (let i = skip_empty (ma_table mp) (ma_mask mp) (nat ppos) in
        (int i + 1, if ma_mask mp < i then None
          else Some (me_key (ma_table mp ! i), me_value (ma_table mp ! i)))))"

text \<open>With the hash of the key, for fromkeys.\<close>

definition PyDict_Next_hash :: "('o, 'v) dict \<Rightarrow> int \<Rightarrow> int \<times> ('o keyptr \<times> 'v option \<times> 64 word) option" where
  "PyDict_Next_hash mp ppos =
     (if ppos < 0 then (ppos, None)
      else (let i = skip_empty (ma_table mp) (ma_mask mp) (nat ppos) in
        (int i + 1, if ma_mask mp < i then None
          else Some (me_key (ma_table mp ! i), me_value (ma_table mp ! i), me_hash (ma_table mp ! i)))))"

lemma skip_empty_cases:
  assumes "length t = Suc msk"
  shows "(skip_empty t msk i \<le> msk \<and> i \<le> skip_empty t msk i \<and> me_value (t ! skip_empty t msk i) \<noteq> None
      \<and> (\<forall>j. i \<le> j \<and> j < skip_empty t msk i \<longrightarrow> me_value (t ! j) = None))
    \<or> (msk < skip_empty t msk i \<and> (\<forall>j. i \<le> j \<and> j \<le> msk \<longrightarrow> me_value (t ! j) = None))"
proof (induction "Suc msk - i" arbitrary: i)
  case 0
  then have "skip_empty t msk i = i" by (subst skip_empty.simps) simp
  then show ?case using 0 by auto
next
  case (Suc d)
  show ?case
  proof (cases "me_value (t ! i) = None")
    case True
    have i: "i \<le> msk" using Suc.hyps(2) by simp
    then have eq: "skip_empty t msk i = skip_empty t msk (Suc i)" using True by (subst skip_empty.simps) simp
    have "d = Suc msk - Suc i" using Suc.hyps(2) by simp
    note IH = Suc.hyps(1) [OF this]
    have from_i: "i \<le> j \<longleftrightarrow> j = i \<or> Suc i \<le> j" for j by auto
    show ?thesis unfolding eq from_i using IH True by auto
  next
    case False
    then have "skip_empty t msk i = i" by (subst skip_empty.simps) auto
    then show ?thesis using False Suc.hyps(2) by auto
  qed
qed

text \<open>The items from slot i on.\<close>

abbreviation items_from :: "('o, 'v) dict \<Rightarrow> nat \<Rightarrow> ('o \<times> 'v) list" where
  "items_from mp i \<equiv> entries_of (drop i (ma_table mp))"

lemma entries_of_skip:
  assumes "\<forall>j. i \<le> j \<and> j < k \<longrightarrow> me_value (t ! j) = None" "i \<le> k" "k \<le> length t"
  shows "entries_of (drop i t) = entries_of (drop k t)"
  using assms
proof (induction "k - i" arbitrary: i)
  case (Suc d)
  then have "i < length t" "me_value (t ! i) = None" by auto
  then have "entries_of (drop i t) = entries_of (drop (Suc i) t)"
    by (simp add: Cons_nth_drop_Suc [symmetric] entries_of_def)
  also have "\<dots> = entries_of (drop k t)" using Suc by (intro Suc.hyps(1)) auto
  finally show ?case .
qed simp

lemma PyDict_Next_cases:
  assumes ok: "dict_ok E mp"
  obtains (item) i k v where "PyDict_Next mp (int p) = (int i + 1, Some (Key k, Some v))" "p \<le> i" "i \<le> ma_mask mp"
      "items_from mp p = (k, v) # items_from mp (i + 1)" "me_key (ma_table mp ! i) = Key k"
  | (exhausted) q where "PyDict_Next mp (int p) = (q, None)" "items_from mp p = []"
proof -
  let ?t = "ma_table mp" and ?i = "skip_empty (ma_table mp) (ma_mask mp) p"
  note len = dict_okD(4) [OF ok]
  from skip_empty_cases [OF len, of p] show thesis
  proof (elim disjE conjE)
    assume a: "?i \<le> ma_mask mp" "p \<le> ?i" "me_value (?t ! ?i) \<noteq> None"
      "\<forall>j. p \<le> j \<and> j < ?i \<longrightarrow> me_value (?t ! j) = None"
    have i: "?i < length ?t" using a(1) len by simp
    obtain k v where k: "me_key (?t ! ?i) = Key k" "me_value (?t ! ?i) = Some v"
      using a(3) probe_table_okD(3) [OF dict_okD(1) [OF ok] i] by (auto simp: slot_ok_def split: keyptr.splits)
    have "items_from mp p = items_from mp ?i" by (rule entries_of_skip [OF a(4,2)]) (use i in simp)
    also have "\<dots> = (k, v) # items_from mp (?i + 1)"
      using k by (simp add: Cons_nth_drop_Suc [OF i, symmetric] entries_of_def)
    finally show thesis using item [of ?i k v] a(1,2) k by (simp add: PyDict_Next_def)
  next
    assume a: "ma_mask mp < ?i" "\<forall>j. p \<le> j \<and> j \<le> ma_mask mp \<longrightarrow> me_value (?t ! j) = None"
    have "items_from mp p = []"
    proof (cases "p \<le> length ?t")
      case True
      have "items_from mp p = items_from mp (length ?t)"
        by (rule entries_of_skip) (use a(2) len True in auto)
      then show ?thesis by (simp add: entries_of_def)
    qed (simp add: entries_of_def)
    then show thesis using exhausted a(1) by (simp add: PyDict_Next_def)
  qed
qed

section \<open>Lists of keys, values and items\<close>

text \<open>
  The loop that writes what f gives for the active slots into a list of n places made
  before; None is a write past its end.
\<close>

fun fill_list :: "(('o, 'v) dict_entry \<Rightarrow> 'a) \<Rightarrow> ('o, 'v) dict_entry list \<Rightarrow> nat \<Rightarrow> 'a option list
    \<Rightarrow> ('a option list \<times> nat) option" where
  "fill_list f [] j v = Some (v, j)"
| "fill_list f (ep # es) j v =
     (if me_value ep \<noteq> None
      then if j < length v then fill_list f es (j + 1) (v[j := Some (f ep)]) else None
      else fill_list f es j v)"

definition dict_keys :: "bool \<Rightarrow> ('o, 'v) dict \<Rightarrow> ('o, 'v, 'o keyptr option list) outcome" where
  "dict_keys list_ok mp =
     (if \<not> list_ok then Some (mp, Inl MemoryError)
      else map_option (\<lambda>(v, j). (mp, Inr v)) (fill_list me_key (ma_table mp) 0 (replicate (ma_used mp) None)))"

definition dict_values :: "bool \<Rightarrow> ('o, 'v) dict \<Rightarrow> ('o, 'v, 'v option option list) outcome" where
  "dict_values list_ok mp =
     (if \<not> list_ok then Some (mp, Inl MemoryError)
      else map_option (\<lambda>(v, j). (mp, Inr v)) (fill_list me_value (ma_table mp) 0 (replicate (ma_used mp) None)))"

definition dict_items :: "bool \<Rightarrow> bool \<Rightarrow> ('o, 'v) dict \<Rightarrow>
    ('o, 'v, ('o keyptr \<times> 'v option) option list) outcome" where
  "dict_items list_ok tuples_ok mp =
     (if \<not> list_ok \<or> (0 < ma_used mp \<and> \<not> tuples_ok) then Some (mp, Inl MemoryError)
      else map_option (\<lambda>(v, j). (mp, Inr v))
        (fill_list (\<lambda>ep. (me_key ep, me_value ep)) (ma_table mp) 0 (replicate (ma_used mp) None)))"

lemma fill_list_spec:
  assumes "\<forall>e \<in> set es. slot_ok E e" "length v = j + length (entries_of es) + r"
    and "\<And>h k x. f \<lparr>me_hash = h, me_key = Key k, me_value = Some x\<rparr> = g (k, x)"
  shows "fill_list f es j v =
    Some (take j v @ map (\<lambda>x. Some (g x)) (entries_of es) @ drop (j + length (entries_of es)) v, j + length (entries_of es))"
  using assms(1,2)
proof (induction es arbitrary: j v)
  case Nil
  then show ?case by (simp add: entries_of_def)
next
  case (Cons e es)
  show ?case
  proof (cases "me_value e")
    case None
    then show ?thesis using Cons by (simp add: entries_of_def)
  next
    case (Some x)
    then obtain k where k: "me_key e = Key k" using Cons.prems(1) by (auto simp: slot_ok_def split: keyptr.splits)
    have fe: "f e = g (k, x)" using assms(3) [of "me_hash e" k x] k Some by (cases e) simp
    have items: "entries_of (e # es) = (k, x) # entries_of es" using k Some by (simp add: entries_of_def)
    have j: "j < length v" using Cons.prems(2) items by simp
    have "fill_list f es (j + 1) (v[j := Some (f e)]) = Some (take (j + 1) (v[j := Some (f e)])
        @ map (\<lambda>x. Some (g x)) (entries_of es) @ drop (j + 1 + length (entries_of es)) (v[j := Some (f e)]),
        j + 1 + length (entries_of es))"
      by (rule Cons.IH) (use Cons.prems items in simp_all)
    then show ?thesis using j Some fe
      by (simp add: items take_Suc_conv_app_nth drop_update_cancel)
  qed
qed

lemma fill_list_full:
  assumes ok: "dict_ok E mp" and f: "\<And>h k x. f \<lparr>me_hash = h, me_key = Key k, me_value = Some x\<rparr> = g (k, x)"
  shows "fill_list f (ma_table mp) 0 (replicate (ma_used mp) None) =
    Some (map (\<lambda>x. Some (g x)) (entries_of (ma_table mp)), ma_used mp)"
proof -
  have "\<forall>e \<in> set (ma_table mp). slot_ok E e" using probe_table_okD(2) [OF dict_okD(1) [OF ok]] by blast
  from fill_list_spec [where f = f and g = g, OF this _ f, of "replicate (ma_used mp) None" 0 0] show ?thesis
    by (simp add: dict_okD(7) [OF ok])
qed

section \<open>Iterators\<close>

record dictiter =
  di_dict :: bool
  di_used :: int
  di_pos :: int
  di_len :: int

datatype 'a iternext = Item 'a | StopIteration | SizeChanged | NoMemory

definition dictiter_new :: "('o, 'v) dict \<Rightarrow> dictiter" where
  "dictiter_new d = \<lparr>di_dict = True, di_used = int (ma_used d), di_pos = 0, di_len = int (ma_used d)\<rparr>"

definition dictiter_len :: "('o, 'v) dict \<Rightarrow> dictiter \<Rightarrow> int" where
  "dictiter_len d di = (if di_dict di \<and> di_used di = int (ma_used d) then di_len di else 0)"

definition dictiter_iternextkey :: "('o, 'v) dict \<Rightarrow> dictiter \<Rightarrow> dictiter \<times> 'o keyptr iternext" where
  "dictiter_iternextkey d di =
     (if \<not> di_dict di then (di, StopIteration)
      else if di_used di \<noteq> int (ma_used d) then (di\<lparr>di_used := -1\<rparr>, SizeChanged)
      else if di_pos di < 0 then (di\<lparr>di_dict := False\<rparr>, StopIteration)
      else (let i = skip_empty (ma_table d) (ma_mask d) (nat (di_pos di));
                di = di\<lparr>di_pos := int i + 1\<rparr> in
        if ma_mask d < i then (di\<lparr>di_dict := False\<rparr>, StopIteration)
        else (di\<lparr>di_len := di_len di - 1\<rparr>, Item (me_key (ma_table d ! i)))))"

definition dictiter_iternextvalue :: "('o, 'v) dict \<Rightarrow> dictiter \<Rightarrow> dictiter \<times> 'v option iternext" where
  "dictiter_iternextvalue d di =
     (if \<not> di_dict di then (di, StopIteration)
      else if di_used di \<noteq> int (ma_used d) then (di\<lparr>di_used := -1\<rparr>, SizeChanged)
      else if di_pos di < 0 \<or> int (ma_mask d) < di_pos di then (di\<lparr>di_dict := False\<rparr>, StopIteration)
      else (let i = skip_empty (ma_table d) (ma_mask d) (nat (di_pos di)) in
        if ma_mask d < i then (di\<lparr>di_dict := False\<rparr>, StopIteration)
        else (di\<lparr>di_pos := int i + 1, di_len := di_len di - 1\<rparr>, Item (me_value (ma_table d ! i)))))"

text \<open>The tuple of the last result is used again when nobody else holds it; tuple_ok is the other case.\<close>

definition dictiter_iternextitem ::
  "bool \<Rightarrow> ('o, 'v) dict \<Rightarrow> dictiter \<Rightarrow> dictiter \<times> ('o keyptr \<times> 'v option) iternext" where
  "dictiter_iternextitem tuple_ok d di =
     (if \<not> di_dict di then (di, StopIteration)
      else if di_used di \<noteq> int (ma_used d) then (di\<lparr>di_used := -1\<rparr>, SizeChanged)
      else if di_pos di < 0 then (di\<lparr>di_dict := False\<rparr>, StopIteration)
      else (let i = skip_empty (ma_table d) (ma_mask d) (nat (di_pos di));
                di = di\<lparr>di_pos := int i + 1\<rparr> in
        if ma_mask d < i then (di\<lparr>di_dict := False\<rparr>, StopIteration)
        else if \<not> tuple_ok then (di, NoMemory)
        else (di\<lparr>di_len := di_len di - 1\<rparr>, Item (me_key (ma_table d ! i), me_value (ma_table d ! i)))))"

text \<open>An iterator of d that has position p.\<close>

definition iter_at :: "('o, 'v) dict \<Rightarrow> nat \<Rightarrow> dictiter \<Rightarrow> bool" where
  "iter_at d p di \<longleftrightarrow> di_dict di \<and> di_used di = int (ma_used d) \<and> di_pos di = int p
     \<and> di_len di = int (length (items_from d p))"

lemma iter_at_new: "dict_ok E d \<Longrightarrow> iter_at d 0 (dictiter_new d)"
  by (simp add: iter_at_def dictiter_new_def dict_okD(7))

lemma iter_at_len: "iter_at d p di \<Longrightarrow> dictiter_len d di = int (length (items_from d p))"
  by (simp add: iter_at_def dictiter_len_def)

lemma iternextkey_cases:
  assumes ok: "dict_ok E d" and at: "iter_at d p di"
  shows "case items_from d p of
      [] \<Rightarrow> snd (dictiter_iternextkey d di) = StopIteration \<and> \<not> di_dict (fst (dictiter_iternextkey d di))
    | (k, v) # rest \<Rightarrow> snd (dictiter_iternextkey d di) = Item (Key k)
        \<and> (\<exists>q. iter_at d q (fst (dictiter_iternextkey d di)) \<and> items_from d q = rest)"
proof (cases rule: PyDict_Next_cases [OF ok, of p])
  case (1 i k v)
  then have "skip_empty (ma_table d) (ma_mask d) p = i" by (simp add: PyDict_Next_def Let_def)
  then have "dictiter_iternextkey d di =
      (di\<lparr>di_pos := int (i + 1), di_len := di_len di - 1\<rparr>, Item (Key k))"
    using at 1 by (simp add: dictiter_iternextkey_def iter_at_def Let_def)
  then show ?thesis using at 1 by (auto simp: iter_at_def intro!: exI [of _ "i + 1"])
next
  case (2 q)
  then have "ma_mask d < skip_empty (ma_table d) (ma_mask d) p"
    by (simp add: PyDict_Next_def Let_def split: if_splits)
  then show ?thesis using at 2 by (simp add: dictiter_iternextkey_def iter_at_def Let_def)
qed

text \<open>Calling the iterator until it stops, the loop of a for statement, at most n rounds.\<close>

fun run_iter :: "nat \<Rightarrow> (dictiter \<Rightarrow> dictiter \<times> 'a iternext) \<Rightarrow> dictiter \<Rightarrow> 'a list \<times> 'a iternext option" where
  "run_iter 0 next di = ([], None)"
| "run_iter (Suc n) next di = (case next di of
     (di', Item x) \<Rightarrow> (case run_iter n next di' of (xs, r) \<Rightarrow> (x # xs, r))
   | (di', r) \<Rightarrow> ([], Some r))"

lemma run_iter_keys:
  assumes ok: "dict_ok E d" and "iter_at d p di" and "length (items_from d p) < n"
  shows "run_iter n (dictiter_iternextkey d) di = (map (\<lambda>x. Key (fst x)) (items_from d p), Some StopIteration)"
  using assms(2,3)
proof (induction n arbitrary: p di)
  case (Suc n)
  note next_step = iternextkey_cases [OF ok Suc.prems(1)]
  obtain di' r where step: "dictiter_iternextkey d di = (di', r)" by fastforce
  show ?case
  proof (cases "items_from d p")
    case Nil
    then show ?thesis using next_step step by simp
  next
    case (Cons x rest)
    obtain k v where x: "x = (k, v)" by fastforce
    then obtain q where q: "r = Item (Key k)" "iter_at d q di'" "items_from d q = rest"
      using next_step Cons step by auto
    have "length (items_from d q) < n" using Suc.prems(2) Cons q(3) by simp
    from Suc.IH [OF q(2) this] show ?thesis using step q(1,3) Cons x by simp
  qed
qed simp

section \<open>popitem\<close>

lemma popitem_slot_up:
  assumes "i \<le> s" "s \<le> msk" "me_value (t ! s) \<noteq> None"
  shows "\<exists>r. popitem_slot t msk i = Some r \<and> i \<le> r \<and> r \<le> s \<and> me_value (t ! r) \<noteq> None"
  using assms(1)
proof (induction "s - i" arbitrary: i)
  case 0
  then have "i = s" by simp
  then show ?case using assms(3) by (subst popitem_slot.simps) auto
next
  case (Suc d)
  show ?case
  proof (cases "me_value (t ! i) = None")
    case True
    have i: "Suc i \<le> s" "d = s - Suc i" using Suc.hyps(2) by auto
    then have eq: "popitem_slot t msk i = popitem_slot t msk (Suc i)"
      using True assms(2) by (subst popitem_slot.simps) simp
    show ?thesis unfolding eq using Suc.hyps(1) [OF i(2,1)] Suc_leD by blast
  next
    case False
    then show ?thesis using Suc.prems by (subst popitem_slot.simps) auto
  qed
qed

lemma popitem_slot_wrap:
  assumes "i \<le> msk" "\<forall>j. i \<le> j \<and> j \<le> msk \<longrightarrow> me_value (t ! j) = None"
  shows "popitem_slot t msk i = popitem_slot t msk 1"
  using assms
proof (induction "msk - i" arbitrary: i)
  case 0
  then have "i = msk" by simp
  then show ?case using 0 by (subst popitem_slot.simps) simp
next
  case (Suc d)
  have i: "d = msk - Suc i" "Suc i \<le> msk" using Suc.hyps(2) by auto
  have none: "me_value (t ! i) = None" using Suc.prems by blast
  have "popitem_slot t msk i = popitem_slot t msk (Suc i)"
    using i(2) none by (subst popitem_slot.simps) simp
  also have "\<dots> = popitem_slot t msk 1" by (rule Suc.hyps(1) [OF i]) (use Suc.prems in auto)
  finally show ?case .
qed

text \<open>From any start the search finds an active slot, if there is one after slot 0.\<close>

lemma popitem_slot_finds:
  assumes "1 \<le> i" "i \<le> msk" "1 \<le> s" "s \<le> msk" "me_value (t ! s) \<noteq> None"
  shows "\<exists>r. popitem_slot t msk i = Some r \<and> r \<le> msk \<and> me_value (t ! r) \<noteq> None"
proof (cases "\<exists>j. i \<le> j \<and> j \<le> msk \<and> me_value (t ! j) \<noteq> None")
  case True
  then obtain j where j: "i \<le> j" "j \<le> msk" "me_value (t ! j) \<noteq> None" by blast
  from popitem_slot_up [OF j] show ?thesis using j(2) by (meson order_trans)
next
  case False
  then have eq: "popitem_slot t msk i = popitem_slot t msk 1" using popitem_slot_wrap assms(2) by blast
  obtain r where "popitem_slot t msk 1 = Some r" "r \<le> s" "me_value (t ! r) \<noteq> None"
    using popitem_slot_up [OF assms(3-5)] by blast
  then show ?thesis unfolding eq using assms(4) order_trans by blast
qed

lemma set_finger:
  assumes ok: "dict_ok E mp" and none: "me_value (ma_table mp ! 0) = None"
  shows "dict_ok E (set_slot 0 ((ma_table mp ! 0)\<lparr>me_hash := x\<rparr>) mp)"
    and "items (set_slot 0 ((ma_table mp ! 0)\<lparr>me_hash := x\<rparr>) mp) = items mp"
proof -
  let ?e = "(ma_table mp ! 0)\<lparr>me_hash := x\<rparr>"
  have s: "0 < length (ma_table mp)" using dict_okD(4) [OF ok] by simp
  have e: "slot_ok E (ma_table mp ! 0)" using probe_table_okD(3) [OF dict_okD(1) [OF ok] s] .
  then have key: "me_key (ma_table mp ! 0) = Null \<or> me_key (ma_table mp ! 0) = Dummy"
    using none by (auto simp: slot_ok_def split: keyptr.splits)
  show it: "items (set_slot 0 ?e mp) = items mp" using items_set_slot [OF s, of ?e] none by simp
  have fill: "filled ((ma_table mp)[0 := ?e]) = filled (ma_table mp)" using filled_update [OF s, of ?e] by simp
  have tab: "probe_table_ok E ((ma_table mp)[0 := ?e]) (mask_word mp)"
    by (rule probe_table_ok_update [OF dict_okD(1) [OF ok] s]) (use key none in \<open>auto simp: slot_ok_def\<close>)
  have "\<forall>e \<in> set ((ma_table mp)[0 := ?e]). \<forall>k. me_key e = Key k \<longrightarrow> isstr E k" if "ma_lookup mp = Lookdict_string"
    using key dict_okD(9) [OF ok that] set_update_subset_insert [of "ma_table mp" 0 ?e] by fastforce
  moreover have "length (entries_of ((ma_table mp)[0 := ?e])) = length (entries_of (ma_table mp))"
    using it by (simp add: items_def) (metis size_mset)
  ultimately show "dict_ok E (set_slot 0 ?e mp)" using ok tab fill by (auto simp: dict_ok_def)
qed

theorem dict_popitem_spec:
  assumes ok: "dict_ok E mp" and used: "ma_used mp \<noteq> 0"
  shows "\<exists>mp' k v. dict_popitem True mp = Some (mp', Inr (Key k, Some v)) \<and> dict_ok E mp'
    \<and> items mp = add_mset (k, v) (items mp') \<and> (has_room mp' \<longleftrightarrow> has_room mp)"
proof -
  let ?t = "ma_table mp"
  note len = dict_okD(4) [OF ok]
  let ?finger = "sint (me_hash (?t ! 0))"
  let ?start = "(if ?finger > int (ma_mask mp) \<or> ?finger < 1 then 1 else nat ?finger)"
  let ?slot = "(if me_value (?t ! 0) = None then popitem_slot ?t (ma_mask mp) ?start else Some 0)"
  have "7 \<le> ma_mask mp" using ok by (auto simp: dict_ok_def PyDict_MINSIZE_def)
  then have start: "1 \<le> ?start" "?start \<le> ma_mask mp" by auto
  obtain x where "x \<in># items mp" using used dict_okD(8) [OF ok] by (metis size_empty multiset_nonemptyE)
  then obtain k v where kv: "(k, v) \<in># items mp" by (cases x) auto
  then obtain s where s: "s < length ?t" "me_value (?t ! s) \<noteq> None"
    unfolding in_items [OF ok] by (auto simp: in_set_conv_nth)
  have "\<exists>i. ?slot = Some i \<and> i \<le> ma_mask mp \<and> me_value (?t ! i) \<noteq> None"
  proof (cases "me_value (?t ! 0) = None")
    case True
    then have "1 \<le> s" using s(2) by (cases s) auto
    then show ?thesis using popitem_slot_finds [OF start _ _ s(2)] s(1) len True by simp
  qed auto
  then obtain i where i: "?slot = Some i" "i < length ?t" "me_value (?t ! i) \<noteq> None" using len by auto
  obtain k v where kv: "me_key (?t ! i) = Key k" "me_value (?t ! i) = Some v"
    using i(3) probe_table_okD(3) [OF dict_okD(1) [OF ok] i(2)] by (auto simp: slot_ok_def split: keyptr.splits)
  let ?mp = "remove_slot i mp"
  note rem = remove_item [OF ok i(2) kv]
  have zero: "me_value (ma_table ?mp ! 0) = None"
    using i(1,2) kv by (cases "i = 0") (auto simp: remove_slot_def split: if_splits)
  let ?e = "(ma_table ?mp ! 0)\<lparr>me_hash := of_nat (i + 1)\<rparr>"
  note fin = set_finger [OF rem(1) zero, of "of_nat (i + 1)"]
  have "dict_popitem True mp = Some (set_slot 0 ?e ?mp, Inr (Key k, Some v))"
    unfolding dict_popitem_def Let_def i(1) using used kv by simp
  moreover have "has_room (set_slot 0 ?e ?mp) \<longleftrightarrow> has_room mp" by (simp add: has_room_def remove_slot_def)
  ultimately show ?thesis using fin rem(2) by auto
qed

text \<open>Calling popitem, as the usual loop "while d: k, v = d.popitem()" does.\<close>

definition pop_some :: "('o, 'v) dict \<Rightarrow> ('o \<times> 'v) option \<times> ('o, 'v) dict" where
  "pop_some mp = (case dict_popitem True mp of
     Some (mp', Inr (Key k, Some v)) \<Rightarrow> (Some (k, v), mp')
   | _ \<Rightarrow> (None, mp))"

lemma uniq_distinct:
  assumes "uniq E (add_mset (k, v) M)"
  shows "(k, v) \<notin># M"
proof
  assume "(k, v) \<in># M"
  then obtain N where "M = add_mset (k, v) N" by (blast dest: multi_member_split)
  then show False using assms by (auto simp: uniq_def dest: spec [of _ k])
qed

lemma uniq_removed: "uniq E (add_mset x M) \<Longrightarrow> uniq E M"
  unfolding uniq_def matching_simps by (metis (full_types) Suc_leD size_add_mset)

interpretation popped: prio_queue "dict_inv E" "\<lambda>mp. set_mset (items mp)" "\<lambda>_. 0" pop_some for E
proof
  fix mp :: "('a, 'b) dict"
  assume inv: "dict_inv E mp"
  note ok = dict_invD(1) [OF inv]
  show "finite (set_mset (items mp))" by simp
  show "pop_some mp = (None, mp)" if "set_mset (items mp) = {}"
    using that dict_okD(8) [OF ok] by (simp add: pop_some_def dict_popitem_def)
  assume "set_mset (items mp) \<noteq> {}"
  then have "ma_used mp \<noteq> 0" using dict_okD(8) [OF ok] by auto
  then obtain mp' k v where pop: "dict_popitem True mp = Some (mp', Inr (Key k, Some v))" "dict_ok E mp'"
    "items mp = add_mset (k, v) (items mp')" "has_room mp'"
    using dict_popitem_spec [OF ok] dict_invD(2) [OF inv] by blast
  have u: "uniq E (add_mset (k, v) (items mp'))" using dict_invD(3) [OF inv] pop(3) by simp
  have "dict_inv E mp'" using pop(2,4) uniq_removed [OF u] by (simp add: dict_inv_def)
  moreover have "set_mset (items mp') = set_mset (items mp) - {(k, v)}"
    using uniq_distinct [OF u] pop(3) by auto
  ultimately show "\<exists>x q'. pop_some mp = (Some x, q') \<and> x \<in> set_mset (items mp)
      \<and> (\<forall>y \<in> set_mset (items mp). (0::int) \<le> 0) \<and> dict_inv E q' \<and> set_mset (items q') = set_mset (items mp) - {x}"
    using pop(1,3) by (intro exI [of _ "(k, v)"] exI [of _ mp']) (simp add: pop_some_def)
qed

lemma uniq_card: "uniq E M \<Longrightarrow> card (set_mset M) = size M"
proof (induction M)
  case (add x M)
  have "uniq E M" "x \<notin># M" using uniq_removed [OF add.prems] uniq_distinct [of E "fst x" "snd x" M] add.prems by simp_all
  then show ?case using add.IH by simp
qed simp

end
