(* ===== verification/Py_Dict_Merge.thy ===== *)
theory Py_Dict_Merge
  imports Py_Dict_Iter
begin

text \<open>
  Operations of Objects/dictobject.c on two dictionaries: PyDict_Merge and its users,
  fromkeys, comparison for equality; and the making of dictionaries, with the list of
  free objects that PyDict_New takes them from.
\<close>

section \<open>Merging\<close>

text \<open>
  The loop of PyDict_Merge over the slots of the other dictionary, and of
  PyDict_MergeFromSeq2 over pairs. That the two dictionaries are one object is the flag
  same_object. b is a dictionary: the loop over another mapping's keys is not modelled.
\<close>

fun merge_entries ::
  "'o key_ops \<Rightarrow> bool \<Rightarrow> ('o, 'v) dict_entry list \<Rightarrow> ('o, 'v) dict \<Rightarrow> ('o, 'v, unit) outcome" where
  "merge_entries E override [] mp = Some (mp, Inr ())"
| "merge_entries E override (entry # es) mp = (case me_value entry of
     None \<Rightarrow> merge_entries E override es mp
   | Some v \<Rightarrow>
       (case (if override then Some (mp, None) else PyDict_GetItem E mp (the_key (me_key entry))) of
          None \<Rightarrow> None
        | Some (mp, Some _) \<Rightarrow> merge_entries E override es mp
        | Some (mp, None) \<Rightarrow>
            (case insertdict E mp (the_key (me_key entry)) (me_hash entry) v of
               None \<Rightarrow> None
             | Some (mp, Inl e) \<Rightarrow> Some (mp, Inl e)
             | Some (mp, Inr _) \<Rightarrow> merge_entries E override es mp)))"

definition PyDict_Merge ::
  "(nat \<Rightarrow> bool) \<Rightarrow> 'o key_ops \<Rightarrow> bool \<Rightarrow> ('o, 'v) dict \<Rightarrow> ('o, 'v) dict \<Rightarrow> bool \<Rightarrow> ('o, 'v, unit) outcome" where
  "PyDict_Merge mem E same_object mp other override =
     (if same_object \<or> ma_used other = 0 then Some (mp, Inr ())
      else
        (let override = (override \<or> ma_used mp = 0);
             resized = (if (ma_mask mp + 1) * 2 \<le> (ma_fill mp + ma_used other) * 3
               then dictresize mem mp ((ma_used mp + ma_used other) * 2) else Some (mp, Inr ())) in
         case resized of
           None \<Rightarrow> None
         | Some (mp, Inl e) \<Rightarrow> Some (mp, Inl e)
         | Some (mp, Inr _) \<Rightarrow> merge_entries E override (ma_table other) mp))"

definition PyDict_Update ::
  "(nat \<Rightarrow> bool) \<Rightarrow> 'o key_ops \<Rightarrow> bool \<Rightarrow> ('o, 'v) dict \<Rightarrow> ('o, 'v) dict \<Rightarrow> ('o, 'v, unit) outcome" where
  "PyDict_Update mem E same_object a b = PyDict_Merge mem E same_object a b True"

text \<open>The copy is made in a new dictionary; on failure it is thrown away.\<close>

definition PyDict_Copy ::
  "(nat \<Rightarrow> bool) \<Rightarrow> 'o key_ops \<Rightarrow> ('o, 'v) dict option \<Rightarrow> ('o, 'v) free_list \<Rightarrow> ('o, 'v) dict
     \<Rightarrow> ('o dict_error + ('o, 'v) dict) option" where
  "PyDict_Copy mem E raw fl o' = (case PyDict_New raw fl of
     (None, _) \<Rightarrow> Some (Inl MemoryError)
   | (Some copy, _) \<Rightarrow> (case PyDict_Merge mem E False copy o' True of
       None \<Rightarrow> None
     | Some (_, Inl e) \<Rightarrow> Some (Inl e)
     | Some (copy, Inr _) \<Rightarrow> Some (Inr copy)))"

text \<open>The pairs of the sequence have been checked to have two elements.\<close>

fun PyDict_MergeFromSeq2 ::
  "(nat \<Rightarrow> bool) \<Rightarrow> 'o key_ops \<Rightarrow> ('o, 'v) dict \<Rightarrow> ('o \<times> 'v) list \<Rightarrow> bool \<Rightarrow> ('o, 'v, unit) outcome" where
  "PyDict_MergeFromSeq2 mem E d [] override = Some (d, Inr ())"
| "PyDict_MergeFromSeq2 mem E d ((key, v) # seq) override =
     (case (if override then Some (d, None) else PyDict_GetItem E d key) of
        None \<Rightarrow> None
      | Some (d, Some _) \<Rightarrow> PyDict_MergeFromSeq2 mem E d seq override
      | Some (d, None) \<Rightarrow> (case PyDict_SetItem mem E d key v of
            None \<Rightarrow> None
          | Some (d, Inl e) \<Rightarrow> Some (d, Inl e)
          | Some (d, Inr _) \<Rightarrow> PyDict_MergeFromSeq2 mem E d seq override))"

text \<open>
  dict.fromkeys for a dict, the branch for exact dictionaries: d is the new dictionary
  that calling cls has made. Py_SIZE of the argument reads the field after the object
  head, which is ma_fill.
\<close>

fun fromkeys_entries ::
  "'o key_ops \<Rightarrow> ('o, 'w) dict_entry list \<Rightarrow> 'v \<Rightarrow> ('o, 'v) dict \<Rightarrow> ('o, 'v, unit) outcome" where
  "fromkeys_entries E [] v mp = Some (mp, Inr ())"
| "fromkeys_entries E (entry # es) v mp =
     (if me_value entry = None then fromkeys_entries E es v mp
      else (case insertdict E mp (the_key (me_key entry)) (me_hash entry) v of
         None \<Rightarrow> None
       | Some (mp, Inl e) \<Rightarrow> Some (mp, Inl e)
       | Some (mp, Inr _) \<Rightarrow> fromkeys_entries E es v mp))"

definition dict_fromkeys ::
  "(nat \<Rightarrow> bool) \<Rightarrow> 'o key_ops \<Rightarrow> ('o, 'v) dict \<Rightarrow> ('o, 'w) dict \<Rightarrow> 'v \<Rightarrow> ('o, 'v, unit) outcome" where
  "dict_fromkeys mem E d seq v = (case dictresize mem d (ma_fill seq) of
     None \<Rightarrow> None
   | Some (d, Inl e) \<Rightarrow> Some (d, Inl e)
   | Some (d, Inr _) \<Rightarrow> fromkeys_entries E (ma_table seq) v d)"

section \<open>Equality\<close>

text \<open>veq compares two values (PyObject_RichCompareBool with Py_EQ); None is an exception.\<close>

fun equal_entries ::
  "'o key_ops \<Rightarrow> ('v \<Rightarrow> 'w \<Rightarrow> bool option) \<Rightarrow> ('o, 'v) dict_entry list \<Rightarrow> ('o, 'w) dict
     \<Rightarrow> ('o, 'w, bool) outcome" where
  "equal_entries E veq [] b = Some (b, Inr True)"
| "equal_entries E veq (ep # es) b = (case me_value ep of
     None \<Rightarrow> equal_entries E veq es b
   | Some aval \<Rightarrow> (case PyDict_GetItem E b (the_key (me_key ep)) of
       None \<Rightarrow> None
     | Some (b, None) \<Rightarrow> Some (b, Inr False)
     | Some (b, Some bval) \<Rightarrow> (case veq aval bval of
         None \<Rightarrow> Some (b, Inl CompareError)
       | Some c \<Rightarrow> if c then equal_entries E veq es b else Some (b, Inr False))))"

definition dict_equal ::
  "'o key_ops \<Rightarrow> ('v \<Rightarrow> 'w \<Rightarrow> bool option) \<Rightarrow> ('o, 'v) dict \<Rightarrow> ('o, 'w) dict \<Rightarrow> ('o, 'w, bool) outcome" where
  "dict_equal E veq a b =
     (if ma_used a \<noteq> ma_used b then Some (b, Inr False) else equal_entries E veq (ma_table a) b)"

datatype richop = Py_LT | Py_LE | Py_EQ | Py_NE | Py_GT | Py_GE

text \<open>For two dictionaries, with Python 3 warnings off; the answer None is Py_NotImplemented.\<close>

definition dict_richcompare ::
  "'o key_ops \<Rightarrow> ('v \<Rightarrow> 'w \<Rightarrow> bool option) \<Rightarrow> ('o, 'v) dict \<Rightarrow> ('o, 'w) dict \<Rightarrow> richop
     \<Rightarrow> ('o, 'w, bool option) outcome" where
  "dict_richcompare E veq v w op =
     (if op = Py_EQ \<or> op = Py_NE then
        (case dict_equal E veq v w of
           None \<Rightarrow> None
         | Some (w, Inl e) \<Rightarrow> Some (w, Inl e)
         | Some (w, Inr cmp) \<Rightarrow> Some (w, Inr (Some (cmp = (op = Py_EQ)))))
      else Some (w, Inr None))"

section \<open>Making dictionaries\<close>

text \<open>
  A dictionary that has been given back: its small table is clean if it never held
  anything, which is what PyDict_New relies on when it does not clear it.
\<close>

definition reusable :: "('o, 'v) dict \<Rightarrow> bool" where
  "reusable mp \<longleftrightarrow> (ma_fill mp = 0 \<longrightarrow> ma_used mp = 0 \<and>
     ma_smalltable mp = replicate PyDict_MINSIZE zero_entry)"

lemma fresh_inv:
  assumes "ma_malloced mp = None" "ma_mask mp = PyDict_MINSIZE - 1"
    "ma_smalltable mp = replicate PyDict_MINSIZE zero_entry" "ma_used mp = 0" "ma_fill mp = 0"
  shows "dict_inv E mp \<and> items mp = {#}"
proof -
  have t: "ma_table mp = replicate (2 ^ 3) zero_entry" using assms(1,3) by (simp add: ma_table_def PyDict_MINSIZE_def)
  have "dict_ok E mp" "items mp = {#}"
    using zeroed_ok(1) [of 3 mp E] zeroed_ok(2) [of 3 mp] t assms by (simp_all add: PyDict_MINSIZE_def)
  then show ?thesis using assms by (simp add: dict_inv_def uniq_def has_room_def)
qed

theorem PyDict_New_empty:
  assumes "\<forall>mp \<in> set fl. reusable mp" and "PyDict_New raw fl = (Some mp, fl')"
  shows "dict_inv E mp \<and> items mp = {#} \<and> ma_lookup mp = Lookdict_string \<and> (\<forall>mp \<in> set fl'. reusable mp)"
proof (cases fl)
  case Nil
  then obtain r where "mp = (EMPTY_TO_MINSIZE r)\<lparr>ma_lookup := Lookdict_string\<rparr>" "fl' = []"
    using assms(2) by (auto simp: PyDict_New_def split: option.splits)
  then show ?thesis using fresh_inv [of mp E] by (simp add: EMPTY_TO_MINSIZE_def INIT_NONZERO_DICT_SLOTS_def)
next
  case (Cons r rest)
  then have mp: "mp = (if ma_fill r \<noteq> 0 then EMPTY_TO_MINSIZE r else INIT_NONZERO_DICT_SLOTS r)
      \<lparr>ma_lookup := Lookdict_string\<rparr>" "fl' = rest"
    using assms(2) by (auto simp: PyDict_New_def)
  have r: "reusable r" using assms(1) Cons by simp
  show ?thesis
  proof (cases "ma_fill r = 0")
    case True
    then show ?thesis using fresh_inv [of mp E] mp r assms(1) Cons
      by (simp add: INIT_NONZERO_DICT_SLOTS_def reusable_def)
  next
    case False
    then show ?thesis using fresh_inv [of mp E] mp assms(1) Cons
      by (simp add: EMPTY_TO_MINSIZE_def INIT_NONZERO_DICT_SLOTS_def)
  qed
qed

lemma PyDict_New_fields:
  assumes "\<forall>mp \<in> set fl. reusable mp" and "PyDict_New raw fl = (Some mp, fl')"
  shows "ma_malloced mp = None" and "ma_fill mp = 0" and "reusable mp"
  using assms by (auto simp: PyDict_New_def reusable_def EMPTY_TO_MINSIZE_def INIT_NONZERO_DICT_SLOTS_def
      split: list.splits option.splits)

lemma dict_dealloc_reusable:
  "\<forall>mp \<in> set fl. reusable mp \<Longrightarrow> reusable mp \<Longrightarrow> \<forall>mp \<in> set (dict_dealloc mp fl). reusable mp"
  by (simp add: dict_dealloc_def)

section \<open>What merging does\<close>

lemma insertdict_map:
  assumes inv: "dict_inv E mp" and laws: "key_laws E" and hash: "hash_key E key = Some h"
  shows "\<exists>mp' r. insertdict E mp key h v = Some (mp', r) \<and> dict_ok E mp' \<and> uniq E (items mp')
    \<and> ma_mask mp' = ma_mask mp \<and> ma_fill mp' \<le> ma_fill mp + 1
    \<and> (r = Inr () \<longrightarrow> dict_map E mp' = map_put E key (Some v) (dict_map E mp)
        \<and> (matching E (items mp) key = {#} \<longrightarrow> items mp' = add_mset (key, v) (items mp)))
    \<and> (\<forall>e. r = Inl e \<longrightarrow> e = CompareError \<and> has_room mp' \<and> \<not> total_keys E)"
proof -
  note ok = dict_invD(1) [OF inv] and room = dict_invD(2) [OF inv] and u = dict_invD(3) [OF inv]
  from ok key_lawsD(1) [OF laws] room hash show ?thesis
  proof (cases rule: insertdict_cases [where val = v])
    case raised
    then show ?thesis using dict_inv_after_lookup [OF inv, of key] by (auto simp: dict_inv_def total_keys_def)
  next
    case (replaced mp' s k old)
    have item: "(k, old) \<in># items mp" using item_of_slot [OF ok] replaced by blast
    then obtain M where M: "items mp = add_mset (k, old) M" by (blast dest: multi_member_split)
    then have M': "items mp' = add_mset (k, v) M" using replaced(7) by (simp add: add_mset_commute)
    have "matching E (items mp) key \<noteq> {#}" using M replaced(6) by simp
    then show ?thesis using put_replaced [OF laws u replaced(6) M M'] replaced by simp
  next
    case (inserted mp')
    have "\<not> same_key E k key" if "(k, w) \<in># items mp" for k w
      using inserted(7) [OF that] key_lawsD(4) [OF laws, of k key] hash by fastforce
    then have "matching E (items mp) key = {#}" unfolding matching_empty by auto
    then show ?thesis using put_new [OF laws u _ inserted(6)] inserted by simp
  qed
qed

lemma slot_ok_cases:
  assumes "slot_ok E e" "me_value e = Some v"
  obtains k where "me_key e = Key k" "hash_key E k = Some (me_hash e)" "entry_item e = [(k, v)]"
  using assms by (cases "me_key e") (auto simp: slot_ok_def)

lemma entries_of_Cons: "entries_of (e # es) = entry_item e @ entries_of es"
  by (simp add: entries_of_def)

text \<open>Keys that are all new: the items are added.\<close>

lemma uniq_head: "uniq E (add_mset (k, v) M) \<Longrightarrow> matching E M k = {#}"
  by (auto simp: uniq_def dest: spec [of _ k])

lemma merge_disjoint:
  assumes "dict_inv E mp" and laws: "key_laws E" and "\<forall>e \<in> set es. slot_ok E e"
    and "uniq E (items mp + mset (entries_of es))" and "ma_fill mp + length (entries_of es) \<le> ma_mask mp"
  shows "\<exists>mp' r. merge_entries E True es mp = Some (mp', r) \<and> dict_inv E mp' \<and> ma_mask mp' = ma_mask mp
    \<and> (r = Inr () \<longrightarrow> items mp' = items mp + mset (entries_of es)) \<and> (\<forall>e. r = Inl e \<longrightarrow> e = CompareError \<and> \<not> total_keys E)"
  using assms(1,3,4,5)
proof (induction es arbitrary: mp)
  case Nil
  then show ?case by (simp add: entries_of_def)
next
  case (Cons e es)
  show ?case
  proof (cases "me_value e")
    case None
    then show ?thesis using Cons by (simp add: entries_of_Cons)
  next
    case (Some v)
    then obtain k where k: "me_key e = Key k" "hash_key E k = Some (me_hash e)" "entry_item e = [(k, v)]"
      using slot_ok_cases [of E e v] Cons.prems(2) by auto
    obtain mp1 r where mp1: "insertdict E mp k (me_hash e) v = Some (mp1, r)" "dict_ok E mp1" "uniq E (items mp1)"
      "ma_mask mp1 = ma_mask mp" "ma_fill mp1 \<le> ma_fill mp + 1"
      "r = Inr () \<Longrightarrow> matching E (items mp) k = {#} \<Longrightarrow> items mp1 = add_mset (k, v) (items mp)"
      "\<And>e. r = Inl e \<Longrightarrow> e = CompareError \<and> has_room mp1 \<and> \<not> total_keys E"
      using insertdict_map [OF Cons.prems(1) laws k(2), of v] by blast
    show ?thesis
    proof (cases r)
      case (Inl x)
      then show ?thesis using mp1 Some k by (auto simp: dict_inv_def)
    next
      case (Inr u)
      have all: "uniq E (add_mset (k, v) (items mp + mset (entries_of es)))"
        using Cons.prems(3) k(3) by (simp add: entries_of_Cons)
      have "matching E (items mp) k = {#}" using uniq_head [OF all] by (simp add: matching_def)
      then have items: "items mp1 = add_mset (k, v) (items mp)" using mp1(6) Inr by simp
      have fill: "ma_fill mp1 + length (entries_of es) \<le> ma_mask mp1"
        using mp1(4,5) Cons.prems(4) k(3) by (simp add: entries_of_Cons)
      have inv: "dict_inv E mp1" using mp1(2,3) fill by (simp add: dict_inv_def has_room_def)
      have "uniq E (items mp1 + mset (entries_of es))" using all items by simp
      from Cons.IH [OF inv _ this fill] obtain mp2 r2 where
        "merge_entries E True es mp1 = Some (mp2, r2)" "dict_inv E mp2" "ma_mask mp2 = ma_mask mp1"
        "r2 = Inr () \<longrightarrow> items mp2 = items mp1 + mset (entries_of es)" "\<forall>e. r2 = Inl e \<longrightarrow> e = CompareError \<and> \<not> total_keys E"
        using Cons.prems(2) by auto
      then show ?thesis using Some k(1,3) mp1(1,4) Inr items by (simp add: entries_of_Cons)
    qed
  qed
qed

text \<open>Merging as the maps see it.\<close>

definition item_find :: "'o key_ops \<Rightarrow> ('o \<times> 'v) list \<Rightarrow> 'o \<Rightarrow> 'v option" where
  "item_find E xs key = map_option snd (find (\<lambda>x. same_key E (fst x) key) xs)"

definition map_merge :: "bool \<Rightarrow> ('o \<Rightarrow> 'v option) \<Rightarrow> ('o \<Rightarrow> 'v option) \<Rightarrow> 'o \<Rightarrow> 'v option" where
  "map_merge override new m k = (case new k of
     None \<Rightarrow> m k
   | Some v \<Rightarrow> if override \<or> m k = None then Some v else m k)"

lemma dict_map_item_find: "dict_map E mp = item_find E (entries_of (ma_table mp))"
  by (simp add: dict_map_def item_find_def fun_eq_iff)

lemma item_find_simps [simp]:
  "item_find E [] key = None"
  "item_find E ((k, v) # xs) key = (if same_key E k key then Some v else item_find E xs key)"
  by (simp_all add: item_find_def)

lemma item_find_None: "item_find E xs key = None \<longleftrightarrow> matching E (mset xs) key = {#}"
  by (induction xs) auto

lemma dict_map_same:
  assumes "key_laws E" "uniq E (items mp)" "same_key E a b"
  shows "dict_map E mp a = dict_map E mp b"
  by (rule option_ext) (simp add: dict_map_matching(1) [OF assms(2)] matching_same [OF assms(1,3)])

lemma map_merge_Cons:
  assumes laws: "key_laws E" and u: "uniq E (mset ((k0, v0) # xs))" and m: "\<And>k. same_key E k0 k \<Longrightarrow> m k0 = m k"
  shows "map_merge ov (item_find E xs) (if ov \<or> m k0 = None then map_put E k0 (Some v0) m else m)
    = map_merge ov (item_find E ((k0, v0) # xs)) m"
proof
  fix k
  show "map_merge ov (item_find E xs) (if ov \<or> m k0 = None then map_put E k0 (Some v0) m else m) k
    = map_merge ov (item_find E ((k0, v0) # xs)) m k"
  proof (cases "same_key E k0 k")
    case True
    have "matching E (mset xs) k0 = {#}" using uniq_head u by simp
    then have "item_find E xs k = None"
      unfolding item_find_None using matching_same [OF laws True, of "mset xs"] by simp
    then show ?thesis using True m [OF True] by (auto simp: map_merge_def map_put_def)
  next
    case False
    then have "map_put E k0 (Some v0) m k = m k" by (simp add: map_put_def)
    then show ?thesis using False by (cases "item_find E xs k") (simp_all add: map_merge_def)
  qed
qed

lemma GetItem_cases [consumes 3]:
  assumes inv: "dict_inv E mp" and laws: "key_laws E" and hash: "hash_key E key = Some h"
  obtains (hidden) "PyDict_GetItem E mp key = Some (after_lookup E mp key, None)"
      "\<And>v. insertdict E (after_lookup E mp key) key h v = Some (after_lookup E mp key, Inl CompareError)"
      "\<exists>k v. (k, v) \<in># items mp \<and> PyObject_RichCompareBool E k key = None"
  | (shown) "PyDict_GetItem E mp key = Some (after_lookup E mp key, dict_map E mp key)"
  using inv laws hash
proof (cases rule: map_lookup_cases)
  case raised
  have same: "after_lookup E (after_lookup E mp key) key = after_lookup E mp key" by (simp add: after_lookup_def)
  have "call_lookup E (after_lookup E mp key) key h = Some (after_lookup E mp key, Raised)"
    using raised(1)
    unfolding call_lookup_eq [OF dict_invD(1) [OF inv] key_lawsD(1) [OF laws]]
      call_lookup_eq [OF dict_ok_after_lookup [OF dict_invD(1) [OF inv]] key_lawsD(1) [OF laws]] same by auto
  then show thesis using hidden raised hash by (simp add: PyDict_GetItem_def insertdict_def)
next
  case (found s k v)
  then show thesis using shown hash by (simp add: PyDict_GetItem_def)
next
  case (absent s)
  then show thesis using shown hash by (simp add: PyDict_GetItem_def)
qed

text \<open>One active slot of the other dictionary.\<close>

lemma merge_step:
  assumes inv: "dict_inv E mp" and laws: "key_laws E" and e: "slot_ok E e" "me_value e = Some v" "me_key e = Key k"
  shows "\<exists>mp' r. merge_entries E ov (e # es) mp = (case r of
        Inl x \<Rightarrow> Some (mp', Inl x) | Inr _ \<Rightarrow> merge_entries E ov es mp')
    \<and> dict_ok E mp' \<and> uniq E (items mp') \<and> ma_mask mp' = ma_mask mp \<and> ma_fill mp' \<le> ma_fill mp + 1
    \<and> (r = Inr () \<longrightarrow> dict_map E mp' = (if ov \<or> dict_map E mp k = None
         then map_put E k (Some v) (dict_map E mp) else dict_map E mp))
    \<and> (\<forall>x. r = Inl x \<longrightarrow> x = CompareError \<and> has_room mp' \<and> \<not> total_keys E)"
proof -
  have hash: "hash_key E k = Some (me_hash e)" using e by (simp add: slot_ok_def)
  obtain mp1 x where get: "(if ov then Some (mp, None) else PyDict_GetItem E mp k) = Some (mp1, x)"
    and mp1: "dict_inv E mp1" "dict_map E mp1 = dict_map E mp" "ma_fill mp1 = ma_fill mp" "ma_mask mp1 = ma_mask mp"
    and x: "x = (if ov then None else dict_map E mp k)
      \<or> x = None \<and> insertdict E mp1 k (me_hash e) v = Some (mp1, Inl CompareError)"
  proof (cases ov)
    case True
    then show thesis using that [of mp None] inv by simp
  next
    case False
    from inv laws hash show thesis
    proof (cases rule: GetItem_cases)
      case hidden
      then show thesis using that [of "after_lookup E mp k" None] False inv by simp
    next
      case shown
      then show thesis using that [of "after_lookup E mp k" "dict_map E mp k"] False inv by simp
    qed
  qed
  show ?thesis
  proof (cases x)
    case (Some w)
    then have "\<not> (ov \<or> dict_map E mp k = None)" using x by (cases "dict_map E mp k") (auto split: if_splits)
    then show ?thesis using get Some mp1 e(2,3) by (intro exI [of _ mp1] exI [of _ "Inr ()"]) (auto simp: dict_inv_def)
  next
    case None
    obtain mp2 r where mp2: "insertdict E mp1 k (me_hash e) v = Some (mp2, r)" "dict_ok E mp2" "uniq E (items mp2)"
      "ma_mask mp2 = ma_mask mp1" "ma_fill mp2 \<le> ma_fill mp1 + 1"
      "r = Inr () \<Longrightarrow> dict_map E mp2 = map_put E k (Some v) (dict_map E mp1)"
      "\<And>e. r = Inl e \<Longrightarrow> e = CompareError \<and> has_room mp2 \<and> \<not> total_keys E"
      using insertdict_map [OF mp1(1) laws hash, of v] by blast
    have "r = Inr () \<Longrightarrow> ov \<or> dict_map E mp k = None" using x None mp2(1) by (auto split: if_splits)
    moreover have "merge_entries E ov (e # es) mp = (case r of
        Inl x \<Rightarrow> Some (mp2, Inl x) | Inr _ \<Rightarrow> merge_entries E ov es mp2)"
      unfolding merge_entries.simps e(2,3) option.case keyptr.sel get None prod.case mp2(1) ..
    ultimately show ?thesis using mp1 mp2 by (intro exI [of _ mp2] exI [of _ r]) auto
  qed
qed

lemma merge_entries_map:
  assumes "dict_inv E mp" and laws: "key_laws E" and "\<forall>e \<in> set es. slot_ok E e"
    and "uniq E (mset (entries_of es))" and "ma_fill mp + length (entries_of es) \<le> ma_mask mp"
  shows "\<exists>mp' r. merge_entries E ov es mp = Some (mp', r) \<and> dict_inv E mp'
    \<and> (r = Inr () \<longrightarrow> dict_map E mp' = map_merge ov (item_find E (entries_of es)) (dict_map E mp))
    \<and> (\<forall>e. r = Inl e \<longrightarrow> e = CompareError \<and> \<not> total_keys E)"
  using assms(1,3,4,5)
proof (induction es arbitrary: mp)
  case Nil
  then show ?case by (simp add: entries_of_def map_merge_def fun_eq_iff)
next
  case (Cons e es)
  show ?case
  proof (cases "me_value e")
    case None
    then show ?thesis using Cons by (simp add: entries_of_Cons)
  next
    case (Some v)
    then obtain k where k: "me_key e = Key k" "entry_item e = [(k, v)]"
      using slot_ok_cases [of E e v] Cons.prems(2) by auto
    have entries: "entries_of (e # es) = (k, v) # entries_of es" using k by (simp add: entries_of_Cons)
    note step = merge_step [OF Cons.prems(1) laws _ Some k(1), of ov es]
    obtain mp1 r where mp1: "merge_entries E ov (e # es) mp = (case r of
          Inl x \<Rightarrow> Some (mp1, Inl x) | Inr _ \<Rightarrow> merge_entries E ov es mp1)"
      "dict_ok E mp1" "uniq E (items mp1)" "ma_mask mp1 = ma_mask mp" "ma_fill mp1 \<le> ma_fill mp + 1"
      "r = Inr () \<Longrightarrow> dict_map E mp1 = (if ov \<or> dict_map E mp k = None
         then map_put E k (Some v) (dict_map E mp) else dict_map E mp)"
      "\<And>x. r = Inl x \<Longrightarrow> x = CompareError \<and> has_room mp1 \<and> \<not> total_keys E"
      using step Cons.prems(2) by auto
    show ?thesis
    proof (cases r)
      case (Inl x)
      then show ?thesis using mp1 by (auto simp: dict_inv_def)
    next
      case (Inr x)
      then have r: "r = Inr ()" by simp
      have u: "uniq E (mset ((k, v) # entries_of es))" using Cons.prems(3) entries by simp
      have fill: "ma_fill mp1 + length (entries_of es) \<le> ma_mask mp1"
        using mp1(4,5) Cons.prems(4) entries by simp
      then have inv: "dict_inv E mp1" using mp1(2,3) by (simp add: dict_inv_def has_room_def)
      have "\<forall>e \<in> set es. slot_ok E e" "uniq E (mset (entries_of es))" using Cons.prems(2) uniq_removed u by auto
      from Cons.IH [OF inv this fill] obtain mp2 r2 where "merge_entries E ov es mp1 = Some (mp2, r2)" "dict_inv E mp2"
        and map: "r2 = Inr () \<longrightarrow> dict_map E mp2 = map_merge ov (item_find E (entries_of es)) (dict_map E mp1)"
        and "\<forall>e. r2 = Inl e \<longrightarrow> e = CompareError \<and> \<not> total_keys E" by blast
      moreover have "merge_entries E ov (e # es) mp = merge_entries E ov es mp1" unfolding mp1(1) Inr by simp
      moreover have "map_merge ov (item_find E (entries_of es)) (dict_map E mp1)
        = map_merge ov (item_find E ((k, v) # entries_of es)) (dict_map E mp)"
        unfolding mp1(6) [OF r]
        by (rule map_merge_Cons [OF laws u dict_map_same [OF laws dict_invD(3) [OF Cons.prems(1)]]])
      ultimately show ?thesis unfolding entries by (intro exI [of _ mp2] exI [of _ r2]) (simp del: merge_entries.simps item_find_simps)
    qed
  qed
qed

lemma entries_facts:
  assumes "dict_inv E mp"
  shows "\<forall>e \<in> set (ma_table mp). slot_ok E e" "uniq E (mset (entries_of (ma_table mp)))"
    "length (entries_of (ma_table mp)) = ma_used mp"
  using probe_table_okD(2) [OF dict_okD(1) [OF dict_invD(1) [OF assms]]] dict_invD [OF assms]
  by (auto simp: items_def dict_okD(7))

text \<open>The table has room for all items of the other dictionary before the first is inserted.\<close>

lemma merge_resize:
  assumes inv: "dict_inv E mp"
  obtains (no_memory) "(if (ma_mask mp + 1) * 2 \<le> (ma_fill mp + n) * 3
        then dictresize mem mp ((ma_used mp + n) * 2) else Some (mp, Inr ())) = Some (mp, Inl MemoryError)"
      "\<exists>m \<le> 4 * (ma_used mp + n). \<not> PyMem_NEW mem m"
  | (ready) mp' where "(if (ma_mask mp + 1) * 2 \<le> (ma_fill mp + n) * 3
        then dictresize mem mp ((ma_used mp + n) * 2) else Some (mp, Inr ())) = Some (mp', Inr ())"
      "dict_inv E mp'" "items mp' = items mp" "dict_map E mp' = dict_map E mp" "ma_fill mp' + n \<le> ma_mask mp'"
proof (cases "(ma_mask mp + 1) * 2 \<le> (ma_fill mp + n) * 3")
  case True
  have used: "ma_used mp \<le> (ma_used mp + n) * 2" by simp
  from dict_invD(1) [OF inv] used show thesis
  proof (cases rule: dictresize_cases [where mem = mem])
    case m: no_memory
    have "2 * ((ma_used mp + n) * 2) = 4 * (ma_used mp + n)" by simp
    then have "\<exists>m \<le> 4 * (ma_used mp + n). \<not> PyMem_NEW mem m" using m(2) by metis
    then show thesis using True no_memory m(1) by simp
  next
    case (resized mp')
    have fits: "ma_fill mp' + n \<le> ma_mask mp'" using resized(4-6) by simp
    then have "dict_inv E mp'" using resized(2,3) dict_invD(3) [OF inv] by (simp add: dict_inv_def has_room_def)
    then show thesis using ready [of mp'] True resized fits dict_map_cong [OF dict_invD(3) [OF inv] resized(3)] by simp
  qed
next
  case False
  then have "ma_fill mp + n \<le> ma_mask mp" by simp
  then show thesis using ready [of mp] False inv by simp
qed

theorem PyDict_Merge_map:
  assumes inv: "dict_inv E mp" "dict_inv E other" and laws: "key_laws E" and same: "same_object \<Longrightarrow> other = mp"
  shows "\<exists>mp' r. PyDict_Merge mem E same_object mp other ov = Some (mp', r) \<and> dict_inv E mp'
    \<and> (r = Inr () \<longrightarrow> dict_map E mp' = map_merge ov (dict_map E other) (dict_map E mp))
    \<and> (\<forall>e. r = Inl e \<longrightarrow> e = MemoryError \<and> (\<exists>m \<le> 4 * (ma_used mp + ma_used other). \<not> PyMem_NEW mem m)
        \<or> e = CompareError \<and> \<not> total_keys E)"
proof (cases "same_object \<or> ma_used other = 0")
  case True
  have "map_merge ov (dict_map E other) (dict_map E mp) = dict_map E mp"
  proof (cases "ma_used other = 0")
    case True
    then have "items other = {#}" using dict_okD(8) [OF dict_invD(1) [OF inv(2)]] by simp
    then have "dict_map E other k = None" for k using dict_map_matching(2) [OF dict_invD(3) [OF inv(2)]] by simp
    then show ?thesis by (simp add: map_merge_def fun_eq_iff)
  next
    case False
    then show ?thesis using True same by (auto simp: map_merge_def fun_eq_iff split: option.split)
  qed
  then show ?thesis using True inv by (auto simp: PyDict_Merge_def)
next
  case False
  note ent = entries_facts [OF inv(2)]
  have merge: "PyDict_Merge mem E same_object mp other ov =
    (case (if (ma_mask mp + 1) * 2 \<le> (ma_fill mp + ma_used other) * 3
        then dictresize mem mp ((ma_used mp + ma_used other) * 2) else Some (mp, Inr ())) of
       None \<Rightarrow> None | Some (mp', Inl e) \<Rightarrow> Some (mp', Inl e)
     | Some (mp', Inr _) \<Rightarrow> merge_entries E (ov \<or> ma_used mp = 0) (ma_table other) mp')"
    using False by (simp add: PyDict_Merge_def Let_def)
  show ?thesis
  proof (rule merge_resize [OF inv(1), of "ma_used other" mem])
    assume "(if (ma_mask mp + 1) * 2 \<le> (ma_fill mp + ma_used other) * 3
        then dictresize mem mp ((ma_used mp + ma_used other) * 2) else Some (mp, Inr ())) = Some (mp, Inl MemoryError)"
      "\<exists>m \<le> 4 * (ma_used mp + ma_used other). \<not> PyMem_NEW mem m"
    then show ?thesis unfolding merge using inv by simp
  next
    fix mp' assume ready: "(if (ma_mask mp + 1) * 2 \<le> (ma_fill mp + ma_used other) * 3
        then dictresize mem mp ((ma_used mp + ma_used other) * 2) else Some (mp, Inr ())) = Some (mp', Inr ())"
      "dict_inv E mp'" "items mp' = items mp" "dict_map E mp' = dict_map E mp" "ma_fill mp' + ma_used other \<le> ma_mask mp'"
    have empty: "dict_map E mp = (\<lambda>_. None)" if "ma_used mp = 0"
      using that dict_okD(8) [OF dict_invD(1) [OF inv(1)]] dict_map_matching(2) [OF dict_invD(3) [OF inv(1)]]
      by (simp add: fun_eq_iff)
    have ov: "map_merge (ov \<or> ma_used mp = 0) (dict_map E other) (dict_map E mp)
      = map_merge ov (dict_map E other) (dict_map E mp)"
      using empty by (auto simp: map_merge_def fun_eq_iff split: option.split)
    obtain mp2 r where "merge_entries E (ov \<or> ma_used mp = 0) (ma_table other) mp' = Some (mp2, r)" "dict_inv E mp2"
      "r = Inr () \<longrightarrow> dict_map E mp2 = map_merge (ov \<or> ma_used mp = 0) (dict_map E other) (dict_map E mp)"
      "\<forall>e. r = Inl e \<longrightarrow> e = CompareError \<and> \<not> total_keys E"
      using merge_entries_map [OF ready(2) laws ent(1,2), of "ov \<or> ma_used mp = 0"] ent(3) ready(4,5)
      unfolding dict_map_item_find [symmetric] by auto
    then show ?thesis unfolding merge ready(1) ov by auto
  qed
qed

section \<open>Copies and fromkeys\<close>

text \<open>Into an empty dictionary the items are copied as they are.\<close>

theorem PyDict_Copy_items:
  assumes inv: "dict_inv E d" and laws: "key_laws E" and fl: "\<forall>mp \<in> set fl. reusable mp"
    and copy: "PyDict_Copy mem E raw fl d = Some (Inr d')"
  shows "dict_inv E d' \<and> items d' = items d"
proof -
  obtain c fl' where new: "PyDict_New raw fl = (Some c, fl')"
    and merge: "PyDict_Merge mem E False c d True = Some (d', Inr ())"
    using copy by (auto simp: PyDict_Copy_def split: prod.splits option.splits sum.splits)
  have c: "dict_inv E c" "items c = {#}" using PyDict_New_empty [OF fl new] by auto
  show ?thesis
  proof (cases "ma_used d = 0")
    case True
    then have "items d = {#}" using dict_okD(8) [OF dict_invD(1) [OF inv]] by simp
    then show ?thesis using merge True c by (simp add: PyDict_Merge_def)
  next
    case False
    note ent = entries_facts [OF inv]
    show ?thesis
    proof (rule merge_resize [OF c(1), of "ma_used d" mem])
      assume "(if (ma_mask c + 1) * 2 \<le> (ma_fill c + ma_used d) * 3
          then dictresize mem c ((ma_used c + ma_used d) * 2) else Some (c, Inr ())) = Some (c, Inl MemoryError)"
      then show ?thesis using merge False by (simp add: PyDict_Merge_def)
    next
      fix c' assume ready: "(if (ma_mask c + 1) * 2 \<le> (ma_fill c + ma_used d) * 3
          then dictresize mem c ((ma_used c + ma_used d) * 2) else Some (c, Inr ())) = Some (c', Inr ())"
        "dict_inv E c'" "items c' = items c" "dict_map E c' = dict_map E c" "ma_fill c' + ma_used d \<le> ma_mask c'"
      then have "merge_entries E True (ma_table d) c' = Some (d', Inr ())"
        using merge False by (simp add: PyDict_Merge_def)
      then show ?thesis using merge_disjoint [OF ready(2) laws ent(1)] ent(2,3) ready(3,5) c(2)
        by (auto simp: items_def)
    qed
  qed
qed

text \<open>fromkeys inserts the keys of the other dictionary with one value.\<close>

definition retag :: "'v \<Rightarrow> ('o, 'w) dict_entry \<Rightarrow> ('o, 'v) dict_entry" where
  "retag v e = \<lparr>me_hash = me_hash e, me_key = me_key e, me_value = map_option (\<lambda>_. v) (me_value e)\<rparr>"

lemma retag_simps [simp]:
  "me_hash (retag v e) = me_hash e" "me_key (retag v e) = me_key e"
  "me_value (retag v e) = map_option (\<lambda>_. v) (me_value e)"
  by (simp_all add: retag_def)

lemma fromkeys_as_merge: "fromkeys_entries E es v mp = merge_entries E True (map (retag v) es) mp"
proof (induction es arbitrary: mp)
  case (Cons e es)
  show ?case
  proof (cases "me_value e")
    case (Some w)
    then show ?thesis by (auto simp: Cons.IH split: option.splits sum.splits)
  qed (simp add: Cons.IH)
qed simp

lemma entry_item_retag: "entry_item (retag v e) = map (\<lambda>x. (fst x, v)) (entry_item e)"
  by (simp add: entry_item_def split: keyptr.split option.split)

lemma entries_of_retag: "entries_of (map (retag v) es) = map (\<lambda>x. (fst x, v)) (entries_of es)"
  by (induction es) (simp_all add: entries_of_def entry_item_retag)

lemma slot_ok_retag: "slot_ok E e \<Longrightarrow> slot_ok E (retag v e)"
  by (simp add: slot_ok_def split: keyptr.splits)

lemma uniq_retag:
  assumes "uniq E M"
  shows "uniq E (image_mset (\<lambda>x. (fst x, v)) M)"
proof -
  have "matching E (image_mset (\<lambda>x. (fst x, v)) M) key = image_mset (\<lambda>x. (fst x, v)) (matching E M key)" for key
    by (induction M) auto
  then show ?thesis using assms by (simp add: uniq_def)
qed

theorem dict_fromkeys_items:
  assumes seq: "dict_inv E seq" and d: "dict_inv E d" "items d = {#}" and laws: "key_laws E"
    and res: "dict_fromkeys mem E d seq v = Some (d', Inr ())"
  shows "dict_inv E d' \<and> items d' = image_mset (\<lambda>x. (fst x, v)) (items seq)
    \<and> (ma_mask d' + 1 = 8 \<or> ma_mask d' + 1 \<le> 2 * ma_fill seq)"
proof -
  note ent = entries_facts [OF seq]
  have used: "ma_used d \<le> ma_fill seq" using d(2) dict_okD(8) [OF dict_invD(1) [OF d(1)]] by simp
  from dict_invD(1) [OF d(1)] used show ?thesis
  proof (cases rule: dictresize_cases [where mem = mem])
    case no_memory
    then show ?thesis using res by (simp add: dict_fromkeys_def)
  next
    case (resized d1)
    have entries: "\<forall>e \<in> set (map (retag v) (ma_table seq)). slot_ok E e" using ent(1) by (auto intro!: slot_ok_retag)
    have empty: "items d1 = {#}" "ma_fill d1 = 0"
      using resized(3-5) d(2) dict_okD(8) [OF dict_invD(1) [OF d(1)]] by simp_all
    have inv: "dict_inv E d1" using resized(2) empty by (simp add: dict_inv_def has_room_def uniq_def)
    have u: "uniq E (items d1 + mset (entries_of (map (retag v) (ma_table seq))))"
      using uniq_retag [OF ent(2), of v] by (simp add: empty entries_of_retag)
    have fill: "ma_fill d1 + length (entries_of (map (retag v) (ma_table seq))) \<le> ma_mask d1"
      using resized(6) empty(2) used_le_fill [OF dict_invD(1) [OF seq]] ent(3) by (simp add: entries_of_retag)
    have "merge_entries E True (map (retag v) (ma_table seq)) d1 = Some (d', Inr ())"
      using res resized(1) by (simp add: dict_fromkeys_def fromkeys_as_merge)
    with merge_disjoint [OF inv laws entries u fill]
    have "dict_inv E d'" "ma_mask d' = ma_mask d1"
      "items d' = items d1 + mset (entries_of (map (retag v) (ma_table seq)))" by auto
    moreover have "mset (entries_of (ma_table seq)) = items seq" by (simp add: items_def)
    ultimately show ?thesis using resized(7) by (simp add: empty entries_of_retag)
  qed
qed

lemma dictresize_seven:
  assumes "ma_malloced d = None" "ma_fill d = ma_used d"
  shows "dictresize mem d 7 = Some (d, Inr ())"
proof -
  have "newsize_loop 7 8 = 8" by (subst newsize_loop.simps) simp
  then show ?thesis using assms by (simp add: dictresize_def PyDict_MINSIZE_def)
qed

text \<open>
  A dictionary of seven keys: the new table has eight slots, of which seven are used,
  above the two thirds that SetItem keeps.
\<close>

lemma dict_fromkeys_overfull:
  assumes seq: "dict_inv E seq" "ma_fill seq = 7" "ma_used seq = 7"
    and d: "dict_inv E d" "items d = {#}" "ma_malloced d = None" "ma_fill d = 0"
    and laws: "key_laws E" "total_keys E"
  shows "\<exists>d'. dict_fromkeys mem E d seq v = Some (d', Inr ()) \<and> ma_mask d' = 7 \<and> ma_fill d' = 7 \<and> \<not> load_ok d'"
proof -
  note ent = entries_facts [OF seq(1)] and ok = dict_invD(1) [OF d(1)]
  have used: "ma_used d = 0" using d(2) dict_okD(8) [OF ok] by simp
  have size: "length (ma_smalltable d) = 8" using dict_okD(5) [OF ok] by (simp add: PyDict_MINSIZE_def)
  then have msk: "ma_mask d = 7" using dict_okD(4) [OF ok] d(3) by (simp add: ma_table_def)
  have entries: "\<forall>e \<in> set (map (retag v) (ma_table seq)). slot_ok E e" using ent(1) by (auto intro!: slot_ok_retag)
  have u: "uniq E (items d + mset (entries_of (map (retag v) (ma_table seq))))"
    using uniq_retag [OF ent(2), of v] by (simp add: d(2) entries_of_retag)
  have fill: "ma_fill d + length (entries_of (map (retag v) (ma_table seq))) \<le> ma_mask d"
    using d(4) msk ent(3) seq(3) by (simp add: entries_of_retag)
  obtain d' where d': "merge_entries E True (map (retag v) (ma_table seq)) d = Some (d', Inr ())" "dict_inv E d'"
    "ma_mask d' = ma_mask d" "items d' = items d + mset (entries_of (map (retag v) (ma_table seq)))"
  proof -
    from merge_disjoint [OF d(1) laws(1) entries u fill] obtain d' r where
      "merge_entries E True (map (retag v) (ma_table seq)) d = Some (d', r)" "dict_inv E d'" "ma_mask d' = ma_mask d"
      "r = Inr () \<longrightarrow> items d' = items d + mset (entries_of (map (retag v) (ma_table seq)))"
      "\<forall>e. r = Inl e \<longrightarrow> e = CompareError \<and> \<not> total_keys E" by blast
    then show thesis using that laws(2) by (cases r) auto
  qed
  have "dict_fromkeys mem E d seq v = Some (d', Inr ())"
    using d'(1) used d(3,4) seq(2) dictresize_seven [of d mem] by (simp add: dict_fromkeys_def fromkeys_as_merge)
  moreover have "ma_used d' = 7"
    using dict_okD(8) [OF dict_invD(1) [OF d'(2)]] d'(4) ent(3) seq(3) d(2) by (simp add: entries_of_retag)
  then have "ma_fill d' = 7"
    using used_le_fill [OF dict_invD(1) [OF d'(2)]] dict_invD(2) [OF d'(2)] d'(3) msk by (simp add: has_room_def)
  ultimately show ?thesis using d'(3) msk by (simp add: load_ok_def)
qed

section \<open>Sequences of pairs\<close>

definition put_pair :: "'o key_ops \<Rightarrow> bool \<Rightarrow> 'o \<times> 'v \<Rightarrow> ('o \<Rightarrow> 'v option) \<Rightarrow> 'o \<Rightarrow> 'v option" where
  "put_pair E ov x m = (if ov \<or> m (fst x) = None then map_put E (fst x) (Some (snd x)) m else m)"

lemma SetItem_hidden:
  assumes "hash_key E key = Some h" "insertdict E mp key h v = Some (mp', Inl e)"
  shows "PyDict_SetItem mem E mp key v = Some (mp', Inl e)"
  using assms by (simp add: PyDict_SetItem_def)

theorem PyDict_MergeFromSeq2_map:
  assumes "dict_inv E d" and laws: "key_laws E"
    and "PyDict_MergeFromSeq2 mem E d seq ov = Some (d', Inr ())"
  shows "dict_inv E d' \<and> dict_map E d' = fold (put_pair E ov) seq (dict_map E d)"
  using assms(1,3)
proof (induction seq arbitrary: d)
  case (Cons x seq)
  obtain k v where x: "x = (k, v)" by fastforce
  note inv = Cons.prems(1)
  obtain d1 y where get: "(if ov then Some (d, None) else PyDict_GetItem E d k) = Some (d1, y)"
    using Cons.prems(2) x by (cases "if ov then Some (d, None) else PyDict_GetItem E d k") auto
  have d1: "dict_inv E d1 \<and> dict_map E d1 = dict_map E d \<and> (y = (if ov then None else dict_map E d k)
      \<or> y = None \<and> PyDict_SetItem mem E d1 k v = Some (d1, Inl CompareError))
      \<or> PyDict_SetItem mem E d1 k v = Some (d1, Inl HashError) \<and> y = None"
  proof (cases ov)
    case True
    then show ?thesis using get inv by simp
  next
    case False
    show ?thesis
    proof (cases "hash_key E k")
      case None
      then show ?thesis using False get by (simp add: PyDict_GetItem_def PyDict_SetItem_def)
    next
      case (Some h)
      from inv laws Some show ?thesis
      proof (cases rule: GetItem_cases)
        case hidden
        note SetItem_hidden [OF Some hidden(2) [of v], of mem]
        moreover have "d1 = after_lookup E d k" "y = None" using False get hidden(1) by simp_all
        ultimately show ?thesis using inv by simp
      next
        case shown
        then have "d1 = after_lookup E d k" "y = dict_map E d k" using False get by simp_all
        then show ?thesis using False inv by simp
      qed
    qed
  qed
  show ?case
  proof (cases y)
    case (Some w)
    then have "\<not> ov" "dict_map E d k = Some w" using d1 by (auto split: if_splits)
    then show ?thesis using Cons.IH [of d1] d1 get Cons.prems(2) x Some by (simp add: put_pair_def)
  next
    case None
    obtain d2 where set: "PyDict_SetItem mem E d1 k v = Some (d2, Inr ())"
      and rest: "PyDict_MergeFromSeq2 mem E d2 seq ov = Some (d', Inr ())"
      using Cons.prems(2) None unfolding x PyDict_MergeFromSeq2.simps get by (auto split: option.splits sum.splits)
    then have m: "ov \<or> dict_map E d k = None" and inv1: "dict_inv E d1" "dict_map E d1 = dict_map E d"
      using d1 None by (auto split: if_splits)
    have "dict_inv E d2 \<and> dict_map E d2 = map_put E k (Some v) (dict_map E d1)"
      using PyDict_SetItem_map [OF inv1(1) laws, of mem k v] set by auto
    then show ?thesis using Cons.IH [of d2] rest m inv1(2) x by (simp add: put_pair_def)
  qed
qed simp

end
