(* ===== verification/Py_Dict_Thms.thy ===== *)
theory Py_Dict_Thms
  imports Py_Dict_Merge
begin

text \<open>
  What the operations of Objects/dictobject.c promise together: equality of
  dictionaries is equality of their maps, dictionaries on the free list are clean, and
  what happens to a table that cannot grow.
\<close>

section \<open>Equality of maps\<close>

lemma inj_size:
  assumes ua: "uniq E A" and ub: "uniq E B" and laws: "key_laws E"
    and sub: "\<And>x. x \<in># A \<Longrightarrow> matching E B (fst x) \<noteq> {#}"
  shows "size A \<le> size B"
    and "size A = size B \<Longrightarrow> y \<in># B \<Longrightarrow> matching E A (fst y) \<noteq> {#}"
proof -
  have "\<forall>x \<in> set_mset A. \<exists>y. y \<in># B \<and> same_key E (fst y) (fst x)"
    using sub unfolding matching_empty by blast
  then obtain f where f: "\<And>x. x \<in># A \<Longrightarrow> f x \<in># B \<and> same_key E (fst (f x)) (fst x)" by metis
  have inj: "inj_on f (set_mset A)"
  proof (rule inj_onI)
    fix x y assume xy: "x \<in># A" "y \<in># A" "f x = f y"
    show "x = y"
    proof (rule ccontr)
      assume "x \<noteq> y"
      obtain N where N: "A = add_mset x N" using xy(1) by (blast dest: multi_member_split)
      then have "y \<in># N" using xy(2) \<open>x \<noteq> y\<close> by simp
      moreover have "same_key E (fst y) (fst x)"
        using f [OF xy(1)] f [OF xy(2)] xy(3) key_lawsD(2,3) [OF laws] by metis
      moreover have "matching E N (fst x) = {#}" using uniq_head [of E "fst x" "snd x" N] ua N by simp
      ultimately show False unfolding matching_empty by blast
    qed
  qed
  have img: "f ` set_mset A \<subseteq> set_mset B" using f by blast
  show le: "size A \<le> size B"
    using card_inj_on_le [OF inj img] uniq_card [OF ua] uniq_card [OF ub] by simp
  assume eq: "size A = size B" and y: "y \<in># B"
  have "card (f ` set_mset A) = card (set_mset B)"
    using card_image [OF inj] eq uniq_card [OF ua] uniq_card [OF ub] by simp
  then have "f ` set_mset A = set_mset B" using img by (simp add: card_subset_eq)
  then obtain x where "x \<in># A" "y = f x" using y by blast
  then show "matching E A (fst y) \<noteq> {#}"
    unfolding matching_empty using f [of x] key_lawsD(2) [OF laws, of "fst y" "fst x"] by blast
qed

lemma dict_map_of_item:
  assumes "uniq E (items mp)" "(k, v) \<in># items mp"
  shows "dict_map E mp k = Some v"
proof -
  obtain N where N: "items mp = add_mset (k, v) N" using assms(2) by (blast dest: multi_member_split)
  then have "matching E (items mp) k = {#(k, v)#}" using uniq_head [of E k v N] assms(1) by simp
  then show ?thesis using dict_map_matching(1) [OF assms(1)] by blast
qed

lemma dict_map_item:
  assumes "uniq E (items mp)" "dict_map E mp key = Some v"
  obtains k where "(k, v) \<in># items mp" "same_key E k key"
proof -
  obtain k where "matching E (items mp) key = {#(k, v)#}"
    using assms(2) unfolding dict_map_matching(1) [OF assms(1)] by blast
  then have "(k, v) \<in># matching E (items mp) key" by simp
  then show thesis using that by (auto simp: matching_def)
qed

text \<open>Two maps agree up to equality of values.\<close>

definition maps_agree :: "('v \<Rightarrow> 'w \<Rightarrow> bool) \<Rightarrow> ('o \<Rightarrow> 'v option) \<Rightarrow> ('o \<Rightarrow> 'w option) \<Rightarrow> bool" where
  "maps_agree R m n \<longleftrightarrow> (\<forall>k. rel_option R (m k) (n k))"

lemma agree_iff_items:
  assumes a: "dict_inv E a" and b: "dict_inv E b" and laws: "key_laws E"
  shows "maps_agree R (dict_map E a) (dict_map E b) \<longleftrightarrow> ma_used a = ma_used b
    \<and> (\<forall>(k, v) \<in># items a. \<exists>w. dict_map E b k = Some w \<and> R v w)"
proof -
  note ua = dict_invD(3) [OF a] and ub = dict_invD(3) [OF b]
  note sizes = dict_okD(8) [OF dict_invD(1) [OF a]] dict_okD(8) [OF dict_invD(1) [OF b]]
  show ?thesis
  proof (intro iffI conjI)
    assume agree: "maps_agree R (dict_map E a) (dict_map E b)"
    have def_iff: "dict_map E a k = None \<longleftrightarrow> dict_map E b k = None" for k
      using agree unfolding maps_agree_def by (metis option.rel_distinct(1,2) option.exhaust)
    have "dict_map E b (fst x) \<noteq> None" if "x \<in># items a" for x
      using dict_map_of_item [OF ua, of "fst x" "snd x"] that unfolding def_iff [symmetric] by simp
    then have le: "size (items a) \<le> size (items b)"
      by (intro inj_size(1) [OF ua ub laws]) (simp add: dict_map_matching(2) [OF ub, symmetric])
    have "dict_map E a (fst x) \<noteq> None" if "x \<in># items b" for x
      using dict_map_of_item [OF ub, of "fst x" "snd x"] that unfolding def_iff by simp
    then have "size (items b) \<le> size (items a)"
      by (intro inj_size(1) [OF ub ua laws]) (simp add: dict_map_matching(2) [OF ua, symmetric])
    then show "ma_used a = ma_used b" using le sizes by simp
    show "\<forall>(k, v) \<in># items a. \<exists>w. dict_map E b k = Some w \<and> R v w"
    proof clarify
      fix k v assume "(k, v) \<in># items a"
      then have "dict_map E a k = Some v" by (rule dict_map_of_item [OF ua])
      then show "\<exists>w. dict_map E b k = Some w \<and> R v w"
        using agree unfolding maps_agree_def by (auto simp: option_rel_Some1 dest: spec [of _ k])
    qed
  next
    assume eq: "ma_used a = ma_used b \<and> (\<forall>(k, v) \<in># items a. \<exists>w. dict_map E b k = Some w \<and> R v w)"
    have sub: "matching E (items b) (fst x) \<noteq> {#}" if "x \<in># items a" for x
      using eq that unfolding dict_map_matching(2) [OF ub, symmetric] by auto
    show "maps_agree R (dict_map E a) (dict_map E b)" unfolding maps_agree_def
    proof
      fix k
      show "rel_option R (dict_map E a k) (dict_map E b k)"
      proof (cases "dict_map E a k")
        case (Some v)
        then obtain k' where k': "(k', v) \<in># items a" "same_key E k' k" by (rule dict_map_item [OF ua])
        then obtain w where "dict_map E b k' = Some w" "R v w" using eq by auto
        then show ?thesis using Some dict_map_same [OF laws ub k'(2)] by simp
      next
        case None
        have "dict_map E b k = None"
        proof (rule ccontr)
          assume "dict_map E b k \<noteq> None"
          then obtain w where "dict_map E b k = Some w" by blast
          then obtain k' where k': "(k', w) \<in># items b" "same_key E k' k" by (rule dict_map_item [OF ub])
          have "size (items a) = size (items b)" using eq sizes by simp
          from inj_size(2) [OF ua ub laws sub this k'(1)] have "dict_map E a k' \<noteq> None"
            by (simp add: dict_map_matching(2) [OF ua])
          then show False using None dict_map_same [OF laws ua k'(2)] by simp
        qed
        then show ?thesis using None by simp
      qed
    qed
  qed
qed

lemma GetItem_total:
  assumes inv: "dict_inv E mp" and laws: "key_laws E" and "total_keys E" and hash: "hash_key E key = Some h"
  shows "PyDict_GetItem E mp key = Some (after_lookup E mp key, dict_map E mp key)"
  using inv laws hash
proof (cases rule: GetItem_cases)
  case hidden
  then show ?thesis using assms(3) unfolding total_keys_def by blast
qed

lemma equal_entries_spec:
  assumes "dict_inv E b" and laws: "key_laws E" "total_keys E" and "\<forall>e \<in> set es. slot_ok E e"
    and veq: "\<forall>x y. veq x y \<noteq> None"
  shows "\<exists>b'. equal_entries E veq es b = Some (b', Inr
    (\<forall>(k, v) \<in> set (entries_of es). \<exists>w. dict_map E b k = Some w \<and> veq v w = Some True))"
  using assms(1,4)
proof (induction es arbitrary: b)
  case Nil
  then show ?case by (simp add: entries_of_def)
next
  case (Cons e es)
  show ?case
  proof (cases "me_value e")
    case None
    then show ?thesis using Cons by (simp add: entries_of_Cons)
  next
    case (Some v)
    then obtain k where k: "me_key e = Key k" "hash_key E k = Some (me_hash e)" "entry_item e = [(k, v)]"
      using slot_ok_cases [of E e v] Cons.prems(2) by auto
    note get = GetItem_total [OF Cons.prems(1) laws k(2)]
    show ?thesis
    proof (cases "dict_map E b k")
      case None
      then show ?thesis using Some k get by (simp add: entries_of_Cons)
    next
      case w: (Some w)
      obtain c where c: "veq v w = Some c" using veq by blast
      show ?thesis
        using Cons.IH [OF dict_inv_after_lookup [OF Cons.prems(1), of k]] Cons.prems(2) Some k get w c
        by (cases c) (auto simp: entries_of_Cons)
    qed
  qed
qed

theorem dict_equal_iff_maps_agree:
  assumes a: "dict_inv E a" and b: "dict_inv E b" and laws: "key_laws E" "total_keys E"
    and veq: "\<forall>x y. veq x y \<noteq> None"
  shows "\<exists>b'. dict_equal E veq a b = Some (b', Inr
    (maps_agree (\<lambda>x y. veq x y = Some True) (dict_map E a) (dict_map E b)))"
proof (cases "ma_used a = ma_used b")
  case True
  have "set (entries_of (ma_table a)) = set_mset (items a)" by (simp add: items_def)
  then show ?thesis using True equal_entries_spec [OF b laws entries_facts(1) [OF a] veq]
    unfolding agree_iff_items [OF a b laws(1)] dict_equal_def by auto
next
  case False
  then show ?thesis unfolding agree_iff_items [OF a b laws(1)] dict_equal_def by simp
qed

lemma copy_equal:
  assumes "dict_inv E d" and "key_laws E" and "total_keys E" and "\<forall>mp \<in> set fl. reusable mp"
    and "\<forall>x y. veq x y \<noteq> None" and "\<forall>x. veq x x = Some True"
    and "PyDict_Copy mem E raw fl d = Some (Inr d')"
  shows "\<exists>b. dict_equal E veq d d' = Some (b, Inr True)"
proof -
  note same = PyDict_Copy_items [OF assms(1,2,4,7)]
  have "dict_map E d' = dict_map E d" using dict_map_cong [OF dict_invD(3) [OF assms(1)]] same by blast
  then have "maps_agree (\<lambda>x y. veq x y = Some True) (dict_map E d) (dict_map E d')"
    using assms(6) by (simp add: maps_agree_def option.rel_refl)
  then show ?thesis using dict_equal_iff_maps_agree [OF assms(1) conjunct1 [OF same] assms(2,3,5)] by simp
qed

section \<open>Clean objects for the free list\<close>

lemma reusable_filled: "0 < ma_fill mp \<Longrightarrow> reusable mp"
  by (simp add: reusable_def)

lemma reusable_items: "dict_ok E mp \<Longrightarrow> items mp \<noteq> {#} \<Longrightarrow> reusable mp"
  by (rule reusable_filled) (metis dict_okD(8) le_zero_eq not_gr_zero size_eq_0_iff_empty used_le_fill)

lemma reusable_after_lookup [simp]: "reusable (after_lookup E mp key) \<longleftrightarrow> reusable mp"
  by (simp add: reusable_def)

lemma SetItem_reusable:
  assumes inv: "dict_inv E mp" and laws: "key_laws E" and r: "reusable mp"
    and set: "PyDict_SetItem mem E mp key v = Some (mp', res)"
  shows "reusable mp'"
  using dict_invD(1) [OF inv] key_lawsD(1) [OF laws] dict_invD(2) [OF inv]
proof (cases rule: SetItem_cases [where mem = mem and key = key and val = v])
  case unhashable
  then show ?thesis using set r by simp
next
  case raised
  then show ?thesis using set r by simp
next
  case (replaced mp1 s k w M)
  then show ?thesis using set reusable_items [of E mp1] by simp
next
  case (inserted mp1 h)
  then show ?thesis using set reusable_items [of E mp1] by simp
next
  case (no_memory mp1 h)
  then show ?thesis using set reusable_items [of E mp1] by simp
qed

lemma reusable_remove_slot:
  assumes "dict_ok E mp" "s < length (ma_table mp)" "me_value (ma_table mp ! s) = Some v"
  shows "reusable (remove_slot s mp)"
proof -
  obtain k where "me_key (ma_table mp ! s) = Key k"
    using assms probe_table_okD(3) [OF dict_okD(1) [OF assms(1)] assms(2)] by (auto simp: slot_ok_def split: keyptr.splits)
  then have "items mp \<noteq> {#}" using item_of_slot [OF assms(1,2) _ assms(3)] by auto
  then have "0 < ma_fill mp" using used_le_fill [OF assms(1)] dict_okD(8) [OF assms(1)]
    by (metis gr_zeroI le_zero_eq size_eq_0_iff_empty)
  then show ?thesis by (intro reusable_filled) (simp add: remove_slot_def)
qed

lemma reusable_Clear: "reusable mp \<Longrightarrow> reusable (PyDict_Clear mp)"
  by (simp add: PyDict_Clear_def reusable_def EMPTY_TO_MINSIZE_def INIT_NONZERO_DICT_SLOTS_def)

lemma settle_state:
  assumes "settle f outc = Some (mp', res)"
  obtains q where "outc = Some (mp', q)"
  using assms by (auto simp: settle_def split: option.splits sum.splits)

text \<open>The operations that start with a lookup, by its outcome.\<close>

lemma lookup_ops_reusable:
  assumes inv: "dict_inv E mp" and laws: "key_laws E" and r: "reusable mp"
  shows "PyDict_DelItem E mp key = Some (mp', d) \<Longrightarrow> reusable mp'"
    and "dict_subscript E mp key = Some (mp', v) \<Longrightarrow> reusable mp'"
    and "PyDict_Contains E mp key = Some (mp', b) \<Longrightarrow> reusable mp'"
    and "dict_get E mp key dflt = Some (mp', v) \<Longrightarrow> reusable mp'"
    and "dict_setdefault mem E mp key dflt = Some (mp', v) \<Longrightarrow> reusable mp'"
    and "dict_pop E mp key pd = Some (mp', v) \<Longrightarrow> reusable mp'"
proof -
  note set_after = SetItem_reusable [OF dict_inv_after_lookup [OF inv] laws, unfolded reusable_after_lookup, OF r]
  consider (stop) "hash_key E key = None"
    | (raised) h where "hash_key E key = Some h" "call_lookup E mp key h = Some (after_lookup E mp key, Raised)"
    | (found) h s w where "hash_key E key = Some h" "call_lookup E mp key h = Some (after_lookup E mp key, Slot s)"
        "me_value (ma_table mp ! s) = Some w" "reusable (remove_slot s (after_lookup E mp key))"
    | (absent) h s where "hash_key E key = Some h" "call_lookup E mp key h = Some (after_lookup E mp key, Slot s)"
        "me_value (ma_table mp ! s) = None"
  proof (cases "hash_key E key")
    case (Some h)
    from inv laws Some show thesis
    proof (cases rule: map_lookup_cases)
      case (found s k w)
      then have "reusable (remove_slot s (after_lookup E mp key))"
        using reusable_remove_slot [OF dict_ok_after_lookup [OF dict_invD(1) [OF inv], of key], of s w] by simp
      then show thesis using found Some that(3) by blast
    qed (use Some that in blast)+
  qed (use that in blast)
  then have "(PyDict_DelItem E mp key = Some (mp', d) \<longrightarrow> reusable mp')
    \<and> (dict_subscript E mp key = Some (mp', v) \<longrightarrow> reusable mp')
    \<and> (PyDict_Contains E mp key = Some (mp', b) \<longrightarrow> reusable mp')
    \<and> (dict_get E mp key dflt = Some (mp', v) \<longrightarrow> reusable mp')
    \<and> (dict_setdefault mem E mp key dflt = Some (mp', v) \<longrightarrow> reusable mp')
    \<and> (dict_pop E mp key pd = Some (mp', v) \<longrightarrow> reusable mp')"
    by cases (use r in \<open>auto simp: lookup_ops dest: set_after split: option.splits sum.splits if_splits\<close>)
  then show "PyDict_DelItem E mp key = Some (mp', d) \<Longrightarrow> reusable mp'"
    and "dict_subscript E mp key = Some (mp', v) \<Longrightarrow> reusable mp'"
    and "PyDict_Contains E mp key = Some (mp', b) \<Longrightarrow> reusable mp'"
    and "dict_get E mp key dflt = Some (mp', v) \<Longrightarrow> reusable mp'"
    and "dict_setdefault mem E mp key dflt = Some (mp', v) \<Longrightarrow> reusable mp'"
    and "dict_pop E mp key pd = Some (mp', v) \<Longrightarrow> reusable mp'" by blast+
qed

text \<open>An operation leaves a dictionary that may go to the free list.\<close>

lemma dict_exec_reusable:
  assumes inv: "dict_inv E mp" and laws: "key_laws E" and r: "reusable mp"
    and step: "dict_exec mem E x mp = Some (mp', res)"
  shows "reusable mp'"
proof -
  note by_lookup = lookup_ops_reusable [OF inv laws r]
  show ?thesis
  proof (cases x)
    case OpClear
    then show ?thesis using step r reusable_Clear by auto
  next
    case (OpSet k v)
    then show ?thesis using step SetItem_reusable [OF inv laws r]
      by (auto simp: dict_ass_sub_def elim!: settle_state)
  qed (use step by_lookup in \<open>auto simp: dict_ass_sub_def elim!: settle_state\<close>)
qed

section \<open>Errors from outside\<close>

text \<open>
  The errors that may stop a run, for a dictionary of fewer than n items: no memory for a
  table of at most 8 * n slots, or a comparison or a hash function that raises.
\<close>

definition outside_error :: "(nat \<Rightarrow> bool) \<Rightarrow> 'o key_ops \<Rightarrow> nat \<Rightarrow> 'o dict_error \<Rightarrow> bool" where
  "outside_error mem E n e = (case e of
     MemoryError \<Rightarrow> (\<exists>m \<le> 8 * n. \<not> PyMem_NEW mem m)
   | CompareError \<Rightarrow> \<not> total_keys E
   | HashError \<Rightarrow> (\<exists>k. hash_key E k = None)
   | _ \<Rightarrow> False)"

lemma outside_error_simps:
  "outside_error mem E n CompareError \<longleftrightarrow> \<not> total_keys E"
  "outside_error mem E n HashError \<longleftrightarrow> (\<exists>k. hash_key E k = None)"
  by (simp_all add: outside_error_def)

lemma outside_error_mono: "outside_error mem E n e \<Longrightarrow> n \<le> n' \<Longrightarrow> outside_error mem E n' e"
  unfolding outside_error_def by (cases e) (auto dest: mult_le_mono2 [of n n' 8] intro: order_trans)

lemma SetItem_outside:
  assumes inv: "dict_inv E mp" and laws: "key_laws E" and set: "PyDict_SetItem mem E mp key v = Some (mp', res)"
  shows "(\<forall>e. res = Inl e \<longrightarrow> outside_error mem E (ma_used mp + 1) e) \<and> ma_used mp' \<le> ma_used mp + 1"
  using dict_invD(1) [OF inv] key_lawsD(1) [OF laws] dict_invD(2) [OF inv]
proof (cases rule: SetItem_cases [where mem = mem and key = key and val = v])
  case unhashable
  then show ?thesis using set by (auto simp: outside_error_def)
next
  case raised
  then show ?thesis using set by (auto simp: outside_error_def total_keys_def)
next
  case (replaced mp1 s k w M)
  then show ?thesis using set dict_okD(8) [OF replaced(2)] dict_okD(8) [OF dict_invD(1) [OF inv]] by auto
next
  case (inserted mp1 h)
  then show ?thesis using set dict_okD(8) [OF inserted(2)] dict_okD(8) [OF dict_invD(1) [OF inv]] by auto
next
  case (no_memory mp1 h)
  then show ?thesis using set dict_okD(8) [OF no_memory(2)] dict_okD(8) [OF dict_invD(1) [OF inv]]
    by (auto simp: outside_error_def)
qed

lemma dict_exec_outside:
  assumes inv: "dict_inv E mp" and laws: "key_laws E" and step: "dict_exec mem E x mp = Some (mp', res)"
  shows "(\<forall>e. res = Inl e \<longrightarrow> outside_error mem E (ma_used mp + 1) e) \<and> ma_used mp' \<le> ma_used mp + 1"
proof -
  have set_error: "outside_error mem E (Suc (ma_used mp)) e"
    if set: "PyDict_SetItem mem E (after_lookup E mp k) k v = Some (mp', Inl e)" for k v e
    using SetItem_outside [OF dict_inv_after_lookup [OF inv, of k] laws set] by simp
  have set_used: "ma_used mp' \<le> Suc (ma_used mp)"
    if set: "PyDict_SetItem mem E (after_lookup E mp k) k v = Some (mp', r)" for k v r
    using SetItem_outside [OF dict_inv_after_lookup [OF inv, of k] laws set] by simp
  have by_lookup: ?thesis if key: "x \<noteq> OpClear" "\<forall>k v. x \<noteq> OpSet k v"
  proof -
    obtain key where x: "x = OpDel key \<or> x = OpSubscript key \<or> x = OpContains key \<or> (\<exists>d. x = OpGet key d)
        \<or> (\<exists>d. x = OpSetdefault key d) \<or> (\<exists>d. x = OpPop key d)"
      using key by (cases x) blast+
    consider (stop) "hash_key E key = None"
      | (raised) h where "hash_key E key = Some h" "call_lookup E mp key h = Some (after_lookup E mp key, Raised)"
          "\<not> total_keys E"
      | (slot) h s where "hash_key E key = Some h" "call_lookup E mp key h = Some (after_lookup E mp key, Slot s)"
    proof (cases "hash_key E key")
      case (Some h)
      from inv laws Some show thesis
        by (cases rule: map_lookup_cases) (use Some that in \<open>auto simp: total_keys_def\<close>)
    qed (use that in blast)
    then show ?thesis
    proof cases
      case stop
      then have "outside_error mem E n HashError" for n by (auto simp: outside_error_simps)
      then show ?thesis using stop x step by (auto simp: lookup_ops settle_def split: option.splits if_splits)
    next
      case raised
      then show ?thesis using x step
        by (auto simp: lookup_ops settle_def outside_error_simps split: option.splits if_splits)
    next
      case slot
      show ?thesis
      proof (cases "me_value (ma_table mp ! s) = None \<and> (\<exists>d. x = OpSetdefault key d)")
        case True
        then obtain d q where q: "PyDict_SetItem mem E (after_lookup E mp key) key d = Some (mp', q)"
          "\<And>e. res = Inl e \<Longrightarrow> q = Inl e"
          using slot step by (auto simp: dict_setdefault_def settle_def split: option.splits sum.splits dict_error.splits)
        show ?thesis using set_used [OF q(1)] set_error q by auto
      next
        case False
        have "n - Suc 0 \<le> Suc n" for n :: nat by simp
        with False show ?thesis using x slot step
          by (auto simp: lookup_ops settle_def remove_slot_def split: option.splits if_splits)
      qed
    qed
  qed
  show ?thesis
  proof (cases x)
    case OpClear
    then show ?thesis using step by (auto simp: PyDict_Clear_def EMPTY_TO_MINSIZE_def INIT_NONZERO_DICT_SLOTS_def)
  next
    case (OpSet k v)
    obtain q where q: "PyDict_SetItem mem E mp k v = Some (mp', q)" "settle (\<lambda>_. Done) (Some (mp', q)) = Some (mp', res)"
      using step OpSet by (auto simp: dict_ass_sub_def settle_def split: option.splits sum.splits)
    show ?thesis using SetItem_outside [OF inv laws q(1)] q(2)
      by (cases q) (auto simp: settle_def split: dict_error.splits)
  qed (use by_lookup in simp_all)
qed

lemma run_outside:
  assumes "dict_inv E mp" and laws: "key_laws E"
    and "data_refinement.step_list (dict_exec mem E) xs mp = Some (mp', Inl e)"
  shows "outside_error mem E (ma_used mp + length xs) e"
  using assms(1,3)
proof (induction xs arbitrary: mp)
  case (Cons x xs)
  obtain mp1 q where step: "dict_exec mem E x mp = Some (mp1, q)"
    using Cons.prems(2) unfolding dict.step_list.simps by (cases "dict_exec mem E x mp") auto
  note one = dict_exec_outside [OF Cons.prems(1) laws step]
  show ?case
  proof (cases q)
    case (Inl e')
    then have "outside_error mem E (ma_used mp + 1) e"
      using Cons.prems(2) step one unfolding dict.step_list.simps by simp
    then show ?thesis by (rule outside_error_mono) simp
  next
    case (Inr a)
    then have "dict_inv E mp1" using dict.simulates [of E mp mem x mp1 a] Cons.prems(1) laws step by blast
    moreover have "data_refinement.step_list (dict_exec mem E) xs mp1 = Some (mp', Inl e)"
      using Cons.prems(2) step Inr unfolding dict.step_list.simps by (auto split: option.splits sum.splits)
    ultimately have "outside_error mem E (ma_used mp1 + length xs) e" by (rule Cons.IH)
    then show ?thesis by (rule outside_error_mono) (use one in simp)
  qed
qed (simp add: dict.step_list.simps)

section \<open>No resize for a key that is there\<close>

text \<open>What a position of PyDict_Next or an iterator refers to: hashes and keys, slot by slot.\<close>

definition layout :: "('o, 'v) dict \<Rightarrow> (64 word \<times> 'o keyptr) list" where
  "layout mp = map (\<lambda>e. (me_hash e, me_key e)) (ma_table mp)"

theorem SetItem_keeps_layout:
  assumes inv: "dict_inv E mp" and laws: "key_laws E" and there: "dict_map E mp key \<noteq> None"
    and set: "PyDict_SetItem mem E mp key v = Some (mp', r)"
  shows "layout mp' = layout mp \<and> ma_used mp' = ma_used mp \<and> ma_mask mp' = ma_mask mp"
  using dict_invD(1) [OF inv] key_lawsD(1) [OF laws] dict_invD(2) [OF inv]
proof (cases rule: SetItem_cases [where mem = mem and key = key and val = v])
  case (replaced mp1 s k w M)
  have "ma_used mp1 = ma_used mp"
    using replaced(6,7) dict_okD(8) [OF replaced(2)] dict_okD(8) [OF dict_invD(1) [OF inv]] by simp
  moreover have "layout mp1 = layout mp"
    unfolding layout_def replaced(10)
    using list_update_id [of "map (\<lambda>e. (me_hash e, me_key e)) (ma_table mp)" s] replaced(8)
    by (simp add: map_update)
  ultimately show ?thesis using set replaced(1,3) by simp
next
  case (inserted mp1 h)
  obtain w where "dict_map E mp key = Some w" using there by blast
  then obtain k where k: "(k, w) \<in># items mp" "same_key E k key" by (rule dict_map_item [OF dict_invD(3) [OF inv]])
  then show ?thesis using inserted(5) inserted(6) [of k w] key_lawsD(4) [OF laws k(2)] by simp
next
  case (no_memory mp1 h)
  obtain w where "dict_map E mp key = Some w" using there by blast
  then obtain k where k: "(k, w) \<in># items mp" "same_key E k key" by (rule dict_map_item [OF dict_invD(3) [OF inv]])
  then show ?thesis using no_memory(7) no_memory(8) [of k w] key_lawsD(4) [OF laws k(2)] by simp
qed (use set in \<open>simp_all add: layout_def\<close>)

section \<open>A table that cannot grow\<close>

text \<open>
  SetItem adds the item before it makes the table larger. Without memory it reports an
  error with the item in the table, and when that was the last unused slot, a lookup of
  a key that is not there does not return any more.
\<close>

theorem full_table_lookup:
  assumes ok: "dict_ok E mp" and laws: "str_laws E"
    and absent: "\<And>k v. (k, v) \<in># items mp \<Longrightarrow> k \<noteq> key \<and> PyObject_RichCompareBool E k key = Some False"
  shows "call_lookup E mp key h \<noteq> None \<longleftrightarrow> has_room mp"
proof -
  have "\<forall>e \<in> set (ma_table mp). \<forall>k. me_key e = Key k \<longrightarrow> k \<noteq> key \<and> PyObject_RichCompareBool E k key = Some False"
  proof (intro ballI allI impI)
    fix e k assume e: "e \<in> set (ma_table mp)" "me_key e = Key k"
    then obtain v where "me_value e = Some v"
      using probe_table_okD(2) [OF dict_okD(1) [OF ok] e(1)] by (auto simp: slot_ok_def)
    then show "k \<noteq> key \<and> PyObject_RichCompareBool E k key = Some False"
      using absent [of k v] e unfolding in_items [OF ok] by blast
  qed
  from lookdict_absent_returns_iff [OF dict_okD(2) [OF ok] this] show ?thesis
    unfolding call_lookup_eq [OF ok laws] has_room_iff [OF ok] by simp
qed

theorem SetItem_fills_table:
  assumes inv: "dict_inv E mp" and laws: "key_laws E" and full: "ma_used mp = ma_mask mp"
    and set: "PyDict_SetItem mem E mp key v = Some (mp', Inl MemoryError)"
    and absent: "\<And>k w. (k, w) \<in># items mp \<or> k = key \<Longrightarrow> k \<noteq> q \<and> PyObject_RichCompareBool E k q = Some False"
  shows "items mp' = add_mset (key, v) (items mp) \<and> call_lookup E mp' q h = None"
  using dict_invD(1) [OF inv] key_lawsD(1) [OF laws] dict_invD(2) [OF inv]
proof (cases rule: SetItem_cases [where mem = mem and key = key and val = v])
  case (no_memory mp1 h1)
  then have mp1: "mp1 = mp'" using set by simp
  have "ma_used mp' = ma_mask mp' + 1"
    using no_memory(2-4) full dict_okD(8) [OF no_memory(2)] dict_okD(8) [OF dict_invD(1) [OF inv]] mp1 by simp
  then have "\<not> has_room mp'" using used_le_fill [OF no_memory(2)] mp1 by (simp add: has_room_def)
  moreover have "k \<noteq> q \<and> PyObject_RichCompareBool E k q = Some False" if "(k, w) \<in># items mp'" for k w
    using that no_memory(3) absent [of k w] mp1 by auto
  ultimately have "call_lookup E mp' q h = None"
    using full_table_lookup [of E mp' q h] no_memory(2) key_lawsD(1) [OF laws] mp1 by blast
  then show ?thesis using no_memory(3) mp1 by simp
qed (use set in simp_all)

end
