(* ===== verification/Py_Dict_Life.thy ===== *)
theory Py_Dict_Life
  imports Py_Dict_Thms
begin

text \<open>
  The life of a dictionary object of Objects/dictobject.c, from PyDict_New to
  dict_dealloc: how it is made, any sequence of the operations that change it, and
  what it looks like when it goes to the free list. The object lives on after an
  exception, so a run goes on after each error, except for MemoryError: a SetItem that
  finds no memory for a larger table leaves one that may be full, and the next
  operation on it need not return.
\<close>

section \<open>Making and using a dictionary\<close>

text \<open>PyDict_New alone, PyDict_NewPresized, and fromkeys of another dictionary.\<close>

datatype ('o, 'v) dict_start = Plain | Presized nat | From_Keys "('o, 'v) dict" 'v

fun dict_make :: "(nat \<Rightarrow> bool) \<Rightarrow> 'o key_ops \<Rightarrow> ('o, 'v) dict_start \<Rightarrow> ('o, 'v) dict \<Rightarrow> ('o, 'v, unit) outcome" where
  "dict_make mem E Plain mp = Some (mp, Inr ())"
| "dict_make mem E (Presized n) mp = PyDict_NewPresized mem n mp"
| "dict_make mem E (From_Keys seq v) mp = dict_fromkeys mem E mp seq v"

text \<open>
  The operations: those that read and write one key, PyDict_GetItem (which may switch
  the lookup function), popitem, and merging in a dictionary or a sequence of pairs.
\<close>

datatype ('o, 'v) dict_use =
    Use "('o, 'v) dict_op"
  | Get_Item 'o
  | Pop_Item bool
  | Merge bool "('o, 'v) dict" bool
  | Merge_Seq "('o \<times> 'v) list" bool

definition ended :: "(('o, 'v) dict \<times> ('o dict_error + 'a)) option \<Rightarrow> (('o, 'v) dict \<times> 'o dict_error option) option" where
  "ended outc = map_option (\<lambda>(mp, r). (mp, case r of Inl e \<Rightarrow> Some e | Inr _ \<Rightarrow> None)) outc"

fun run_use :: "(nat \<Rightarrow> bool) \<Rightarrow> 'o key_ops \<Rightarrow> ('o, 'v) dict_use \<Rightarrow> ('o, 'v) dict
    \<Rightarrow> (('o, 'v) dict \<times> 'o dict_error option) option" where
  "run_use mem E (Use x) mp = ended (dict_exec mem E x mp)"
| "run_use mem E (Get_Item key) mp = map_option (\<lambda>(mp, _). (mp, None)) (PyDict_GetItem E mp key)"
| "run_use mem E (Pop_Item tuple_ok) mp = ended (dict_popitem tuple_ok mp)"
| "run_use mem E (Merge same_object other override) mp = ended (PyDict_Merge mem E same_object mp other override)"
| "run_use mem E (Merge_Seq seq override) mp = ended (PyDict_MergeFromSeq2 mem E mp seq override)"

fun run_uses :: "(nat \<Rightarrow> bool) \<Rightarrow> 'o key_ops \<Rightarrow> ('o, 'v) dict_use list \<Rightarrow> ('o, 'v) dict \<Rightarrow> ('o, 'v) dict option" where
  "run_uses mem E [] mp = Some mp"
| "run_uses mem E (u # us) mp = (case run_use mem E u mp of
     None \<Rightarrow> None
   | Some (mp, e) \<Rightarrow> if e = Some MemoryError then Some mp else run_uses mem E us mp)"

text \<open>The object as it is deallocated: a failed start ends its life.\<close>

definition dict_life :: "(nat \<Rightarrow> bool) \<Rightarrow> 'o key_ops \<Rightarrow> ('o, 'v) dict_start \<Rightarrow> ('o, 'v) dict_use list
    \<Rightarrow> ('o, 'v) dict \<Rightarrow> ('o, 'v) dict option" where
  "dict_life mem E start us mp = (case dict_make mem E start mp of
     None \<Rightarrow> None
   | Some (mp, Inl e) \<Rightarrow> Some mp
   | Some (mp, Inr _) \<Rightarrow> run_uses mem E us mp)"

text \<open>The other dictionaries are valid as well.\<close>

fun start_ok :: "'o key_ops \<Rightarrow> ('o, 'v) dict_start \<Rightarrow> bool" where
  "start_ok E (From_Keys seq v) \<longleftrightarrow> dict_inv E seq"
| "start_ok E start \<longleftrightarrow> True"

fun use_ok :: "'o key_ops \<Rightarrow> ('o, 'v) dict_use \<Rightarrow> bool" where
  "use_ok E (Merge same_object other override) \<longleftrightarrow> same_object \<or> dict_inv E other"
| "use_ok E u \<longleftrightarrow> True"

text \<open>What is left after a step: an object that may be recycled, and a valid dictionary.\<close>

definition kept :: "'o key_ops \<Rightarrow> ('o, 'v) dict \<Rightarrow> 'o dict_error option \<Rightarrow> bool" where
  "kept E mp e \<longleftrightarrow> reusable mp \<and> (e \<noteq> Some MemoryError \<longrightarrow> dict_inv E mp)"

lemma keptI: "reusable mp \<Longrightarrow> dict_inv E mp \<Longrightarrow> kept E mp e"
  by (simp add: kept_def)

section \<open>Operations on one key\<close>

lemma SetItem_kept:
  assumes "dict_inv E mp" and "key_laws E" and "PyDict_SetItem mem E mp k v = Some (mp', Inl e)" and "e \<noteq> MemoryError"
  shows "dict_inv E mp'"
  using PyDict_SetItem_map [OF assms(1,2), of mem k v] assms(3,4) by auto

lemma dict_exec_kept:
  assumes inv: "dict_inv E mp" and laws: "key_laws E"
    and "dict_exec mem E x mp = Some (mp', Inl e)" and "e \<noteq> MemoryError"
  shows "dict_inv E mp'"
proof -
  have by_key: ?thesis if "x \<in> {OpDel k, OpSubscript k, OpContains k, OpGet k d, OpSetdefault k d, OpPop k pd}" for k d pd
  proof -
    note set = SetItem_kept [OF dict_inv_after_lookup [OF inv, of k] laws _ assms(4), of mem k d mp']
    from inv laws show ?thesis
    proof (cases rule: step_ok_lookup [where key = k])
      case (absent h s)
      then show ?thesis using that assms(3,4) inv set
        by (auto simp: lookup_ops settle_def split: option.splits sum.splits dict_error.splits if_splits)
    qed (use that assms(3) inv in \<open>auto simp: lookup_ops settle_def split: option.splits if_splits\<close>)
  qed
  show ?thesis
  proof (cases x)
    case (OpSet k v)
    then show ?thesis using assms(3,4) SetItem_kept [OF inv laws, of mem k v mp']
      by (auto simp: dict_ass_sub_def settle_def split: option.splits sum.splits dict_error.splits)
  next
    case OpClear
    then show ?thesis using assms(3) by simp
  qed (use by_key in blast)+
qed

lemma use_op_kept:
  assumes inv: "dict_inv E mp" and laws: "key_laws E" and r: "reusable mp"
  shows "\<exists>mp' e. run_use mem E (Use x) mp = Some (mp', e) \<and> kept E mp' e"
proof -
  have pre: "dict_inv E mp \<and> key_laws E" using inv laws by simp
  obtain mp' res where step: "dict_exec mem E x mp = Some (mp', res)"
    using step_ok_any [OF pre, of mem x] by (auto simp: step_ok_def)
  have "reusable mp'" by (rule dict_exec_reusable [OF inv laws r step])
  moreover have "dict_inv E mp'" if "res \<noteq> Inl MemoryError"
  proof (cases res)
    case (Inl e)
    then show ?thesis using dict_exec_kept [OF inv laws, of mem x mp' e] step that by simp
  next
    case (Inr a)
    then show ?thesis using dict.simulates [OF pre, of mem x mp' a] step by simp
  qed
  ultimately show ?thesis using step by (cases res) (auto simp: ended_def kept_def)
qed

lemma GetItem_kept:
  assumes inv: "dict_inv E mp" and laws: "key_laws E" and r: "reusable mp"
  shows "\<exists>mp' x. PyDict_GetItem E mp key = Some (mp', x) \<and> dict_inv E mp' \<and> reusable mp'"
proof (cases "hash_key E key")
  case None
  then show ?thesis using inv r by (simp add: PyDict_GetItem_def)
next
  case (Some h)
  from inv laws Some show ?thesis by (cases rule: GetItem_cases) (use inv r in auto)
qed

lemma popitem_kept:
  assumes inv: "dict_inv E mp" and r: "reusable mp"
  shows "\<exists>mp' e. run_use mem E (Pop_Item ok) mp = Some (mp', e) \<and> kept E mp' e"
proof (cases "ok \<and> ma_used mp \<noteq> 0")
  case False
  then show ?thesis using inv r by (auto simp: dict_popitem_def ended_def kept_def)
next
  case True
  then obtain mp' k v where pop: "dict_popitem True mp = Some (mp', Inr (Key k, Some v))" "dict_ok E mp'"
      "items mp = add_mset (k, v) (items mp')" "has_room mp' \<longleftrightarrow> has_room mp"
    using dict_popitem_spec [OF dict_invD(1) [OF inv]] by blast
  have "dict_inv E mp'" using pop(2-4) dict_invD [OF inv] uniq_removed [of E "(k, v)"] by (simp add: dict_inv_def)
  moreover have "ma_fill mp' = ma_fill mp"
    using pop(1) True by (auto simp: dict_popitem_def remove_slot_def Let_def split: option.splits if_splits)
  then have "reusable mp'" using True used_le_fill [OF dict_invD(1) [OF inv]] by (intro reusable_filled) simp
  ultimately show ?thesis using pop(1) True by (auto simp: ended_def intro: keptI)
qed

section \<open>Merging\<close>

lemma insertdict_fill: "insertdict E mp k h v = Some (mp', r) \<Longrightarrow> ma_fill mp \<le> ma_fill mp'"
  by (auto simp: insertdict_def call_lookup_def Let_def split: option.splits lookup.splits lookupfunc.splits if_splits)

lemma GetItem_fill: "PyDict_GetItem E mp k = Some (mp', x) \<Longrightarrow> ma_fill mp' = ma_fill mp"
  by (auto simp: PyDict_GetItem_def call_lookup_def split: option.splits lookup.splits lookupfunc.splits if_splits)

lemma merge_entries_fill: "merge_entries E ov es mp = Some (mp', r) \<Longrightarrow> ma_fill mp \<le> ma_fill mp'"
proof (induction es arbitrary: mp)
  case (Cons e es)
  show ?case
  proof (cases "me_value e")
    case None
    then show ?thesis using Cons by simp
  next
    case (Some v)
    obtain mp1 x where get: "(if ov then Some (mp, None) else PyDict_GetItem E mp (the_key (me_key e))) = Some (mp1, x)"
      using Cons.prems Some by (cases "if ov then Some (mp, None) else PyDict_GetItem E mp (the_key (me_key e))") auto
    then have fill: "ma_fill mp1 = ma_fill mp" using GetItem_fill by (auto split: if_splits)
    show ?thesis
    proof (cases x)
      case None
      then obtain mp2 q where ins: "insertdict E mp1 (the_key (me_key e)) (me_hash e) v = Some (mp2, q)"
        "(case q of Inl e' \<Rightarrow> Some (mp2, Inl e') | Inr _ \<Rightarrow> merge_entries E ov es mp2) = Some (mp', r)"
        using Cons.prems Some get by (auto split: option.splits sum.splits)
      have "ma_fill mp2 \<le> ma_fill mp'" using ins(2) Cons.IH by (cases q) auto
      then show ?thesis using insertdict_fill [OF ins(1)] fill by simp
    next
      case w: (Some w)
      then show ?thesis using Cons.prems Some get Cons.IH [of mp1] fill by auto
    qed
  qed
qed simp

text \<open>The first item that goes into an empty dictionary uses a slot.\<close>

lemma merge_into_empty:
  assumes inv: "dict_inv E mp" and laws: "key_laws E" and empty: "items mp = {#}"
  shows "\<forall>e \<in> set es. slot_ok E e \<Longrightarrow> merge_entries E True es mp = Some (mp', r) \<Longrightarrow>
    mp' = mp \<and> entries_of es = [] \<or> 0 < ma_fill mp'"
proof (induction es)
  case (Cons e es)
  show ?case
  proof (cases "me_value e")
    case None
    then show ?thesis using Cons by (auto simp: entries_of_Cons entry_item_def split: keyptr.split)
  next
    case (Some v)
    then obtain k where k: "me_key e = Key k" "hash_key E k = Some (me_hash e)"
      using slot_ok_cases [of E e v] Cons.prems(1) by auto
    from dict_invD(1) [OF inv] key_lawsD(1) [OF laws] dict_invD(2) [OF inv] k(2) have "0 < ma_fill mp'"
    proof (cases rule: insertdict_cases [where val = v])
      case (inserted mp1)
      have "0 < ma_fill mp1" using used_le_fill [OF inserted(2)] inserted(4) by simp
      moreover have "ma_fill mp1 \<le> ma_fill mp'"
        using Cons.prems(2) Some k(1) inserted(1) merge_entries_fill [of E True es mp1 mp' r] by simp
      ultimately show ?thesis by simp
    next
      case (replaced mp1 s k' old)
      then show ?thesis using item_of_slot [OF dict_invD(1) [OF inv] replaced(8-10)] empty by simp
    qed (use empty in simp)
    then show ?thesis ..
  qed
qed (simp add: entries_of_def)

lemma Merge_reusable:
  assumes inv: "dict_inv E mp" "dict_inv E other" and laws: "key_laws E" and r: "reusable mp"
    and merge: "PyDict_Merge mem E False mp other ov = Some (mp', res)"
  shows "reusable mp'"
proof (cases "ma_used other = 0")
  case True
  then show ?thesis using merge r by (simp add: PyDict_Merge_def)
next
  case False
  note ent = entries_facts [OF inv(2)]
  have unfold: "(case (if (ma_mask mp + 1) * 2 \<le> (ma_fill mp + ma_used other) * 3
        then dictresize mem mp ((ma_used mp + ma_used other) * 2) else Some (mp, Inr ())) of
       None \<Rightarrow> None | Some (mp', Inl e) \<Rightarrow> Some (mp', Inl e)
     | Some (mp', Inr _) \<Rightarrow> merge_entries E (ov \<or> ma_used mp = 0) (ma_table other) mp') = Some (mp', res)"
    using merge False by (simp add: PyDict_Merge_def Let_def)
  show ?thesis
  proof (rule merge_resize [OF inv(1), of "ma_used other" mem])
    assume "(if (ma_mask mp + 1) * 2 \<le> (ma_fill mp + ma_used other) * 3
        then dictresize mem mp ((ma_used mp + ma_used other) * 2) else Some (mp, Inr ())) = Some (mp, Inl MemoryError)"
    then show ?thesis using unfold r by simp
  next
    fix mp1 assume ready: "(if (ma_mask mp + 1) * 2 \<le> (ma_fill mp + ma_used other) * 3
        then dictresize mem mp ((ma_used mp + ma_used other) * 2) else Some (mp, Inr ())) = Some (mp1, Inr ())"
      "dict_inv E mp1" "items mp1 = items mp"
    then have m: "merge_entries E (ov \<or> ma_used mp = 0) (ma_table other) mp1 = Some (mp', res)" using unfold by simp
    have used: "ma_used mp1 = ma_used mp"
      using ready(3) dict_okD(8) [OF dict_invD(1) [OF ready(2)]] dict_okD(8) [OF dict_invD(1) [OF inv(1)]] by simp
    show ?thesis
    proof (cases "ma_used mp = 0")
      case True
      then have empty: "items mp1 = {#}" using ready(3) dict_okD(8) [OF dict_invD(1) [OF inv(1)]] by simp
      have "entries_of (ma_table other) \<noteq> []" using ent(3) False by auto
      then show ?thesis
        using merge_into_empty [OF ready(2) laws empty ent(1), of mp' res] m True by (auto intro: reusable_filled)
    next
      case filled: False
      then have "0 < ma_fill mp1" using used used_le_fill [OF dict_invD(1) [OF ready(2)]] by simp
      then show ?thesis using merge_entries_fill [OF m] by (intro reusable_filled) simp
    qed
  qed
qed

lemma Merge_kept:
  assumes inv: "dict_inv E mp" and laws: "key_laws E" and r: "reusable mp" and ok: "use_ok E (Merge same other ov)"
  shows "\<exists>mp' e. run_use mem E (Merge same other ov) mp = Some (mp', e) \<and> kept E mp' e"
proof (cases same)
  case True
  then show ?thesis using inv r by (simp add: PyDict_Merge_def ended_def kept_def)
next
  case False
  then have other: "dict_inv E other" using ok by simp
  obtain mp' q where m: "PyDict_Merge mem E False mp other ov = Some (mp', q)" "dict_inv E mp'"
    using PyDict_Merge_map [OF inv other laws, where same_object = False and mem = mem and ov = ov] by auto
  then show ?thesis using False Merge_reusable [OF inv other laws r m(1)] by (cases q) (auto simp: ended_def intro: keptI)
qed

lemma MergeFromSeq2_kept:
  assumes "dict_inv E mp" and laws: "key_laws E" and "reusable mp"
  shows "\<exists>mp' e. ended (PyDict_MergeFromSeq2 mem E mp seq ov) = Some (mp', e) \<and> kept E mp' e"
  using assms(1,3)
proof (induction seq arbitrary: mp)
  case Nil
  then show ?case by (simp add: ended_def kept_def)
next
  case (Cons x seq)
  obtain k v where x: "x = (k, v)" by fastforce
  obtain mp1 y where get: "(if ov then Some (mp, None) else PyDict_GetItem E mp k) = Some (mp1, y)"
    and mp1: "dict_inv E mp1" "reusable mp1"
    using GetItem_kept [OF Cons.prems(1) laws Cons.prems(2), of k] Cons.prems by (cases ov) auto
  show ?case
  proof (cases y)
    case (Some w)
    then show ?thesis using Cons.IH [OF mp1] get x by simp
  next
    case None
    obtain mp2 q where set: "PyDict_SetItem mem E mp1 k v = Some (mp2, q)"
      using PyDict_SetItem_map [OF mp1(1) laws, of mem k v] by blast
    then have inv: "dict_inv E mp2" if "q = Inr u" for u
      using PyDict_SetItem_map [OF mp1(1) laws, of mem k v] that by auto
    have r: "reusable mp2" by (rule SetItem_reusable [OF mp1(1) laws mp1(2) set])
    show ?thesis
    proof (cases q)
      case (Inl e)
      then have "kept E mp2 (Some e)" using r SetItem_kept [OF mp1(1) laws, of mem k v mp2 e] set by (auto simp: kept_def)
      then show ?thesis using get None set Inl x by (simp add: ended_def)
    next
      case (Inr u)
      then show ?thesis using get None set x Cons.IH [of mp2] r inv by simp
    qed
  qed
qed

section \<open>A whole life\<close>

lemma dict_use_kept:
  assumes "dict_inv E mp" and "key_laws E" and "reusable mp" and "use_ok E u"
  shows "\<exists>mp' e. run_use mem E u mp = Some (mp', e) \<and> kept E mp' e"
proof (cases u)
  case (Get_Item k)
  then show ?thesis using GetItem_kept [OF assms(1-3), of k] by (auto intro: keptI)
next
  case (Use x)
  show ?thesis unfolding Use by (rule use_op_kept [OF assms(1-3)])
next
  case (Pop_Item ok)
  show ?thesis unfolding Pop_Item by (rule popitem_kept [OF assms(1,3)])
next
  case (Merge same other ov)
  show ?thesis unfolding Merge by (rule Merge_kept [OF assms(1-3) assms(4) [unfolded Merge]])
next
  case (Merge_Seq seq ov)
  show ?thesis unfolding Merge_Seq run_use.simps by (rule MergeFromSeq2_kept [OF assms(1-3)])
qed

lemma run_uses_reusable:
  assumes "dict_inv E mp" and laws: "key_laws E" and "reusable mp" and "\<forall>u \<in> set us. use_ok E u"
  shows "\<exists>mp'. run_uses mem E us mp = Some mp' \<and> reusable mp'"
  using assms(1,3,4)
proof (induction us arbitrary: mp)
  case (Cons u us)
  obtain mp1 e where "run_use mem E u mp = Some (mp1, e)" "kept E mp1 e"
    using dict_use_kept [OF Cons.prems(1) laws Cons.prems(2), of u mem] Cons.prems(3) by auto
  then show ?case using Cons.IH [of mp1] Cons.prems(3) by (auto simp: kept_def)
qed simp

text \<open>A table made for a dictionary that has never been used leaves the small table clean.\<close>

lemma dictresize_unused:
  assumes "reusable mp" and "ma_fill mp = 0" and "dictresize mem mp n = Some (mp', r)"
  shows "reusable mp'"
proof -
  have "reusable q" if "rebuild t m mp = Some (q, r)" for q t m
    using that assms(1,2) by (auto simp: rebuild_def reusable_def split: if_splits)
  then show ?thesis using assms by (auto simp: dictresize_def Let_def split: if_splits)
qed

lemma dict_make_kept:
  assumes inv: "dict_inv E mp" "items mp = {#}" and laws: "key_laws E" and r: "reusable mp" "ma_fill mp = 0"
    and ok: "start_ok E start"
  shows "\<exists>mp' q. dict_make mem E start mp = Some (mp', q) \<and> reusable mp' \<and> (\<forall>u. q = Inr u \<longrightarrow> dict_inv E mp')"
proof -
  have used: "ma_used mp = 0" using inv dict_okD(8) [OF dict_invD(1) [OF inv(1)]] by simp
  have resize: "\<exists>mp' q. dictresize mem mp n = Some (mp', q) \<and> reusable mp'
      \<and> (\<forall>u. q = Inr u \<longrightarrow> dict_inv E mp' \<and> items mp' = {#} \<and> n \<le> ma_mask mp' \<and> ma_fill mp' = 0)" for n
  proof -
    have "ma_used mp \<le> n" using used by simp
    with dict_invD(1) [OF inv(1)] show ?thesis
    proof (cases rule: dictresize_cases [where mem = mem])
      case no_memory
      then show ?thesis using r by auto
    next
      case (resized mp1)
      have "has_room mp1" using resized(2,4,5) used dict_okD(4) [OF resized(2)] by (auto simp: has_room_def dict_ok_def PyDict_MINSIZE_def)
      then show ?thesis using resized inv(2) used dictresize_unused [OF r resized(1)]
        by (auto simp: dict_inv_def uniq_def)
    qed
  qed
  show ?thesis
  proof (cases start)
    case Plain
    then show ?thesis using inv r by simp
  next
    case (Presized n)
    then show ?thesis using resize [of n] inv r by (auto simp: PyDict_NewPresized_def)
  next
    case (From_Keys seq v)
    then have seq: "dict_inv E seq" using ok by simp
    obtain mp1 q where mp1: "dictresize mem mp (ma_fill seq) = Some (mp1, q)" "reusable mp1"
      "\<And>u. q = Inr u \<Longrightarrow> dict_inv E mp1 \<and> items mp1 = {#} \<and> ma_fill seq \<le> ma_mask mp1 \<and> ma_fill mp1 = 0"
      using resize [of "ma_fill seq"] by blast
    show ?thesis
    proof (cases q)
      case (Inl e)
      then show ?thesis using From_Keys mp1 by (simp add: dict_fromkeys_def)
    next
      case (Inr u)
      let ?es = "map (retag v) (ma_table seq)"
      note ent = entries_facts [OF seq]
      have es: "\<forall>e \<in> set ?es. slot_ok E e" using ent(1) by (auto intro!: slot_ok_retag)
      have fill: "ma_fill mp1 + length (entries_of ?es) \<le> ma_mask mp1"
        using mp1(3) [OF Inr] ent(3) used_le_fill [OF dict_invD(1) [OF seq]] by (simp add: entries_of_retag)
      have u: "uniq E (mset (entries_of ?es))" using uniq_retag [OF ent(2), of v] by (simp add: entries_of_retag)
      obtain mp2 q2 where m: "merge_entries E True ?es mp1 = Some (mp2, q2)" "dict_inv E mp2"
        using merge_entries_map [OF conjunct1 [OF mp1(3) [OF Inr]] laws es u fill, of True] by blast
      have "reusable mp2"
        using merge_into_empty [OF _ laws _ es m(1)] mp1(2) mp1(3) [OF Inr] by (auto intro: reusable_filled)
      then show ?thesis using From_Keys mp1(1) Inr m by (simp add: dict_fromkeys_def fromkeys_as_merge)
    qed
  qed
qed

theorem dict_life_reusable:
  assumes "\<forall>mp \<in> set fl. reusable mp" and "PyDict_New raw fl = (Some mp, fl')" and laws: "key_laws E"
    and "start_ok E start" and "\<forall>u \<in> set us. use_ok E u"
  shows "\<exists>mp'. dict_life mem E start us mp = Some mp' \<and> reusable mp'"
proof -
  have new: "dict_inv E mp" "items mp = {#}" using PyDict_New_empty [OF assms(1,2)] by blast+
  obtain mp1 q where "dict_make mem E start mp = Some (mp1, q)" "reusable mp1" "\<forall>u. q = Inr u \<longrightarrow> dict_inv E mp1"
    using dict_make_kept [OF new laws PyDict_New_fields(3,2) [OF assms(1,2)] assms(4)] by blast
  then show ?thesis using run_uses_reusable [OF _ laws _ assms(5), of mp1 mem]
    by (cases q) (auto simp: dict_life_def)
qed

end
