(* ===== verification/Py_Dict_Props.thy ===== *)
theory Py_Dict_Props
  imports Py_Dict_Life
begin

text \<open>
  The properties of CPython's dictionaries (Objects/dictobject.c), from the probe
  sequence to copies and equality, each with an instance: a dictionary from strs of
  different lengths, whose hash is the length, to numbers.
\<close>

section \<open>An instance\<close>

definition str_ops :: "string key_ops" where
  "str_ops = \<lparr>isstr = (\<lambda>_. True), shash = (\<lambda>s. of_nat (length s)), objhash = (\<lambda>s. Some (of_nat (length s))),
     string_eq = (=), richcmp = (\<lambda>a b. Some (a = b))\<rparr>"

definition empty_dict :: "(string, nat) dict" where
  "empty_dict = \<lparr>ma_fill = 0, ma_used = 0, ma_mask = 7, ma_smalltable = replicate 8 zero_entry,
     ma_malloced = None, ma_lookup = Lookdict_string\<rparr>"

text \<open>Seven keys in the small table: one more slot is unused.\<close>

definition seven :: "(string, nat) dict" where
  "seven = \<lparr>ma_fill = 7, ma_used = 7, ma_mask = 7,
     ma_smalltable = map (\<lambda>i. \<lparr>me_hash = of_nat i, me_key = Key (replicate i CHR ''x''), me_value = Some i\<rparr>) [0..<7]
       @ [zero_entry],
     ma_malloced = None, ma_lookup = Lookdict_string\<rparr>"

lemma str_ops_compare: "PyObject_RichCompareBool str_ops a b = Some (a = b)"
  by (simp add: PyObject_RichCompareBool_def str_ops_def)

lemma str_ops_fields: "isstr str_ops a" "string_eq str_ops a b \<longleftrightarrow> a = b" "hash_key str_ops a = Some (of_nat (length a))"
  by (simp_all add: str_ops_def hash_key_def)

lemma str_ops_laws: "key_laws str_ops" "total_keys str_ops"
  by (auto simp: key_laws_def str_laws_def total_keys_def str_ops_compare str_ops_fields)

lemma empty_dict_inv: "dict_inv str_ops empty_dict" "items empty_dict = {#}"
  using fresh_inv [of empty_dict str_ops] by (simp_all add: empty_dict_def PyDict_MINSIZE_def)

lemma uniq_distinct_keys: "distinct (map fst xs) \<Longrightarrow> uniq str_ops (mset xs)"
proof (induction xs)
  case (Cons x xs)
  have "matching str_ops (mset xs) key = {#}" if "fst x = key" for key
    unfolding matching_empty str_ops_compare using Cons.prems that [symmetric] by (force simp: image_iff)
  then show ?case using Cons by (auto simp: uniq_def str_ops_compare)
qed (simp add: uniq_def)

lemma seven_table: "ma_table seven =
    map (\<lambda>i. \<lparr>me_hash = of_nat i, me_key = Key (replicate i CHR ''x''), me_value = Some i\<rparr>) [0..<7] @ [zero_entry]"
  by (simp add: seven_def ma_table_def)

lemma seven_entries: "entries_of (ma_table seven) = map (\<lambda>i. (replicate i CHR ''x'', i)) [0..<7]"
  unfolding seven_table by (simp add: entries_of_def zero_entry_def upt_rec)

lemma seven_reach:
  assumes "i < 7"
  shows "reach (ma_table seven) (mask_word seven) (of_nat i) i"
proof -
  have "i \<in> {0, 1, 2, 3, 4, 5, 6}" using assms by auto
  then have "probe_slot (mask_word seven) (of_nat i) 0 = i"
    by (elim insertE emptyE) (simp_all add: probe_slot_def mask_word_def seven_def)
  then show ?thesis unfolding reach_def by (intro exI [of _ 0]) simp
qed

lemma seven_inv: "dict_inv str_ops seven"
proof -
  have nth: "ma_table seven ! i = \<lparr>me_hash = of_nat i, me_key = Key (replicate i CHR ''x''), me_value = Some i\<rparr>"
    if "i < 7" for i
    unfolding seven_table using that by (simp add: nth_append)
  have len: "length (ma_table seven) = 8" by (simp add: seven_table)
  have last: "ma_table seven ! 7 = zero_entry" by (simp add: seven_table nth_append)
  have shape: "table_shape (ma_table seven) (mask_word seven)"
    unfolding table_shape_def len by (intro exI [of _ 3]) (simp add: mask_word_def seven_def mask_eq_exp_minus_1)
  have reached: "reach (ma_table seven) (mask_word seven) (me_hash (ma_table seven ! s)) s"
    if "s < length (ma_table seven)" "me_key (ma_table seven ! s) = Key k" for s k
  proof (cases "s < 7")
    case True
    then show ?thesis using seven_reach [of s] nth by simp
  next
    case False
    then have "s = 7" using that(1) len by simp
    then show ?thesis using that(2) last by (simp add: zero_entry_def)
  qed
  have entries: "\<forall>e \<in> set (ma_table seven). slot_ok str_ops e"
    unfolding seven_table by (auto simp: slot_ok_def zero_entry_def str_ops_fields)
  have "probe_table_ok str_ops (ma_table seven) (mask_word seven)"
    using shape entries reached by (simp add: probe_table_ok_def)
  moreover have "filled (ma_table seven) = 7" unfolding seven_table by (simp add: filled_def zero_entry_def)
  ultimately have "dict_ok str_ops seven"
    using len seven_entries by (simp add: dict_ok_def str_ops_fields) (simp add: seven_def PyDict_MINSIZE_def)
  moreover have "uniq str_ops (items seven)" unfolding items_def seven_entries
    by (rule uniq_distinct_keys) (simp add: upt_rec)
  ultimately show ?thesis by (simp add: dict_inv_def has_room_def seven_def)
qed

section \<open>Lookups\<close>

text \<open>
  C3. Lookups end, as long as no comparison changes the dictionary: whatever
  exceptions comparisons raise and whatever they answer, a lookup in a dictionary with
  an unused slot returns, because after 13 probes the sequence goes through all slots
  of the table. A comparison that changes the dictionary is outside the model: the
  source then starts the lookup over, and its comment says that a clever adversary
  could keep that from terminating.
\<close>

theorem dict_lookup_returns:
  assumes "dict_ok E mp" and "has_room mp"
  shows "call_lookup E mp key hash \<noteq> None
    \<and> probe_slot (mask_word mp) hash ` {..<13 + length (ma_table mp)} = {..<length (ma_table mp)}"
proof
  note shape = dict_okD(2) [OF assms(1)]
  show "call_lookup E mp key hash \<noteq> None" using call_lookup_returns [OF assms] by blast
  show "probe_slot (mask_word mp) hash ` {..<13 + length (ma_table mp)} = {..<length (ma_table mp)}"
  proof (intro equalityI subsetI)
    fix s assume "s \<in> {..<length (ma_table mp)}"
    then obtain n where "n < 13 + length (ma_table mp)" "probe_slot (mask_word mp) hash n = s"
      using probe_reaches [OF shape, of s hash] by auto
    then show "s \<in> probe_slot (mask_word mp) hash ` {..<13 + length (ma_table mp)}" by blast
  qed (use probe_in_table [OF shape] in auto)
qed

lemma dict_lookup_returns_witness:
  "call_lookup str_ops seven ''key'' 3 \<noteq> None
    \<and> probe_slot (mask_word seven) 3 ` {..<13 + length (ma_table seven)} = {..<length (ma_table seven)}"
  by (rule dict_lookup_returns) (use seven_inv in \<open>simp_all add: dict_inv_def\<close>)

text \<open>
  C14. The lookup function for dictionaries with only strs as keys, which compares
  strings directly and handles no exceptions, does exactly what the general one does.
\<close>

theorem lookdict_string_is_lookdict:
  assumes "table_shape t msk" and "isstr E key" and "\<forall>e \<in> set t. \<forall>k. me_key e = Key k \<longrightarrow> isstr E k"
    and "\<forall>a b. isstr E a \<longrightarrow> isstr E b \<longrightarrow> PyObject_RichCompareBool E a b = Some (string_eq E a b)"
  shows "lookdict_string E t msk key hash = lookdict E t msk key hash"
  using lookdict_string_eq_lookdict [OF assms(1-3)] assms(4) unfolding str_laws_def by blast

lemma lookdict_string_is_lookdict_witness:
  "lookdict_string str_ops (ma_table seven) (mask_word seven) ''key'' 3
    = lookdict str_ops (ma_table seven) (mask_word seven) ''key'' 3"
proof (rule lookdict_string_is_lookdict)
  show "table_shape (ma_table seven) (mask_word seven)" using seven_inv dict_okD(2) dict_invD(1) by blast
qed (auto simp: str_ops_compare str_ops_fields)

section \<open>Dictionaries are maps\<close>

definition dict_run :: "(nat \<Rightarrow> bool) \<Rightarrow> 'o key_ops \<Rightarrow> ('o, 'v) dict_op list \<Rightarrow> ('o, 'v) dict \<Rightarrow>
    (('o, 'v) dict \<times> ('o dict_error + ('o dict_error + 'v answer) list)) option" where
  "dict_run mem E = data_refinement.step_list (dict_exec mem E)"

definition map_run :: "'o key_ops \<Rightarrow> ('o, 'v) dict_op list \<Rightarrow> ('o \<Rightarrow> 'v option) \<Rightarrow>
    ('o \<Rightarrow> 'v option) \<times> ('o dict_error + 'v answer) list" where
  "map_run E = data_refinement.spec_list (map_exec E)"

text \<open>
  C2. Any sequence of the operations set, delete, subscript, contains, get, setdefault,
  pop and clear returns, and if no outside error (an unhashable key, an exception in a
  comparison, no memory for a table of at most eight slots per item) stops it, its answers, KeyErrors among them, are those of the
  same operations on a map up to equality of keys, and the dictionary stands for the
  resulting map.
\<close>

theorem dict_refines_map:
  assumes "dict_inv E mp" and "key_laws E"
  shows "\<exists>mp' res. dict_run mem E ops mp = Some (mp', res)
    \<and> (case res of
          Inr rs \<Rightarrow> dict_inv E mp' \<and> map_run E ops (dict_map E mp) = (dict_map E mp', rs)
        | Inl e \<Rightarrow> e = MemoryError \<and> (\<exists>n \<le> 8 * (ma_used mp + length ops). \<not> PyMem_NEW mem n)
            \<or> e = CompareError \<and> \<not> total_keys E \<or> e = HashError \<and> (\<exists>k. hash_key E k = None))"
proof -
  have pre: "dict_inv E mp \<and> key_laws E" using assms by simp
  obtain mp' res where run: "data_refinement.step_list (dict_exec mem E) ops mp = Some (mp', res)"
    using dict.step_list_returns [OF pre, of mem ops] by auto
  show ?thesis
  proof (cases res)
    case (Inl e)
    then have "outside_error mem E (ma_used mp + length ops) e" using run_outside [OF assms] run by blast
    then show ?thesis using run Inl unfolding dict_run_def outside_error_def by (cases e) simp_all
  next
    case (Inr rs)
    then show ?thesis using run dict.step_list_simulates [OF pre, of mem ops mp' rs]
      unfolding dict_run_def map_run_def by simp
  qed
qed

lemma dict_refines_map_witness:
  "\<exists>mp' res. dict_run (\<lambda>_. True) str_ops [OpSet ''ab'' 1, OpSetdefault ''cd'' 2, OpPop ''ab'' None, OpDel ''ef''] seven
      = Some (mp', res)
    \<and> (case res of
          Inr rs \<Rightarrow> dict_inv str_ops mp'
            \<and> map_run str_ops [OpSet ''ab'' 1, OpSetdefault ''cd'' 2, OpPop ''ab'' None, OpDel ''ef''] (dict_map str_ops seven)
              = (dict_map str_ops mp', rs)
        | Inl e \<Rightarrow> False)"
proof -
  have mem: "PyMem_NEW (\<lambda>_. True) n" if "n \<le> 88" for n using that by (simp add: PyMem_NEW_def)
  have used: "ma_used seven = 7" by (simp add: seven_def)
  have hash: "hash_key str_ops k \<noteq> None" for k by (simp add: str_ops_fields)
  show ?thesis
    using dict_refines_map [OF seven_inv str_ops_laws(1),
        of "\<lambda>_. True" "[OpSet ''ab'' 1, OpSetdefault ''cd'' 2, OpPop ''ab'' None, OpDel ''ef'']"]
      mem hash str_ops_laws(2) by (auto simp: used split: sum.splits)
qed

text \<open>
  C11. A resize keeps the items and drops the deleted slots; the new table has more than
  minused slots and at most the larger of eight and twice minused. Only without memory for
  such a table does it fail, and then the dictionary is not changed.
\<close>

theorem dictresize_correct:
  assumes "dict_inv E mp" and "ma_used mp \<le> minused"
  shows "dictresize mem mp minused = Some (mp, Inl MemoryError) \<and> (\<exists>n \<le> 2 * minused. \<not> PyMem_NEW mem n)
    \<or> (\<exists>mp'. dictresize mem mp minused = Some (mp', Inr ()) \<and> dict_inv E mp' \<and> dict_map E mp' = dict_map E mp
        \<and> ma_fill mp' = ma_used mp \<and> minused \<le> ma_mask mp' \<and> ma_mask mp' + 1 \<le> max 8 (2 * minused))"
  using dict_invD(1) [OF assms(1)] assms(2)
proof (cases rule: dictresize_cases [where mem = mem])
  case (resized mp')
  have "has_room mp'" using resized(4-6) assms(2) by (simp add: has_room_def)
  then have "dict_inv E mp'" using resized(2,3) dict_invD(3) [OF assms(1)] by (simp add: dict_inv_def)
  then show ?thesis using resized dict_map_cong [OF dict_invD(3) [OF assms(1)] resized(3)] by auto
qed simp

lemma dictresize_correct_witness:
  "\<exists>mp'. dictresize (\<lambda>_. True) seven 28 = Some (mp', Inr ()) \<and> dict_inv str_ops mp'
        \<and> dict_map str_ops mp' = dict_map str_ops seven
        \<and> ma_fill mp' = ma_used seven \<and> 28 \<le> ma_mask mp' \<and> ma_mask mp' + 1 \<le> max 8 (2 * 28)"
proof -
  have mem: "PyMem_NEW (\<lambda>_. True) n" if "n \<le> 2 * 28" for n using that by (simp add: PyMem_NEW_def)
  have "ma_used seven \<le> 28" by (simp add: seven_def)
  from dictresize_correct [OF seven_inv this, of "\<lambda>_. True"] mem show ?thesis by blast
qed

text \<open>
  C12. A table that cannot grow: when only one slot is unused and there is no memory for
  a larger table, SetItem of a new key fails with MemoryError but leaves the item in
  the dictionary, in the last unused slot. From then on a lookup of any key that is
  absent never returns.
\<close>

theorem PyDict_SetItem_fills_table:
  assumes "dict_inv E mp" and "key_laws E" and "ma_used mp = ma_mask mp"
    and "PyDict_SetItem mem E mp key v = Some (mp', Inl MemoryError)"
    and "\<And>k w. (k, w) \<in># items mp \<or> k = key \<Longrightarrow> k \<noteq> q \<and> PyObject_RichCompareBool E k q = Some False"
  shows "items mp' = add_mset (key, v) (items mp) \<and> call_lookup E mp' q h = None"
  by (rule SetItem_fills_table [OF assms])

lemma seven_items: "(k, w) \<in># items seven \<Longrightarrow> \<exists>n < 7. k = replicate n CHR ''x''"
  unfolding items_def seven_entries by auto

lemma no_memory_for_64: "dictresize (\<lambda>_. False) mp 32 = Some (mp, Inl MemoryError)"
proof -
  have "newsize_loop 32 8 = 64"
    by (subst newsize_loop.simps, simp, subst newsize_loop.simps, simp, subst newsize_loop.simps, simp,
      subst newsize_loop.simps, simp)
  then show ?thesis by (simp add: dictresize_def PyDict_MINSIZE_def PyMem_NEW_def)
qed

lemma seven_no_memory:
  obtains mp' where "PyDict_SetItem (\<lambda>_. False) str_ops seven (replicate 7 CHR ''x'') 7 = Some (mp', Inl MemoryError)"
proof -
  have ok: "dict_ok str_ops seven" "str_laws str_ops" "has_room seven"
    using seven_inv str_ops_laws(1) dict_invD key_lawsD(1) by blast+
  have new: "k \<noteq> replicate 7 CHR ''x''" if kw: "(k, w) \<in># items seven" for k w
  proof -
    obtain n where "n < 7" "k = replicate n CHR ''x''" using seven_items [OF kw] by blast
    then show ?thesis by (metis length_replicate less_irrefl)
  qed
  have hash: "hash_key str_ops (replicate 7 CHR ''x'') = Some 7" by (simp add: str_ops_fields)
  from ok hash show thesis
  proof (cases rule: insertdict_cases [where val = 7])
    case raised
    then show ?thesis by (simp add: str_ops_compare)
  next
    case (replaced mp' s k v)
    then show ?thesis using new [of k v] item_of_slot [OF ok(1)] by (simp add: str_ops_compare)
  next
    case (inserted mp')
    have used: "ma_used mp' = 8" "ma_mask mp' = 7" using inserted(3,4) by (simp_all add: seven_def)
    then have "8 \<le> ma_fill mp'" using used_le_fill [OF inserted(2)] by simp
    then have "PyDict_SetItem (\<lambda>_. False) str_ops seven (replicate 7 CHR ''x'') 7 = dictresize (\<lambda>_. False) mp' 32"
      using inserted(1) used hash by (simp add: PyDict_SetItem_def) (simp add: seven_def)
    then show thesis using that no_memory_for_64 by metis
  qed
qed

lemma PyDict_SetItem_fills_table_witness:
  "\<exists>mp'. PyDict_SetItem (\<lambda>_. False) str_ops seven (replicate 7 CHR ''x'') 7 = Some (mp', Inl MemoryError)
    \<and> items mp' = add_mset (replicate 7 CHR ''x'', 7) (items seven) \<and> call_lookup str_ops mp' ''absent'' 6 = None"
proof -
  obtain mp' where set: "PyDict_SetItem (\<lambda>_. False) str_ops seven (replicate 7 CHR ''x'') 7 = Some (mp', Inl MemoryError)"
    by (rule seven_no_memory)
  have neq: "replicate n CHR ''x'' \<noteq> ''absent''" for n by (cases n) simp_all
  have absent: "k \<noteq> ''absent'' \<and> PyObject_RichCompareBool str_ops k ''absent'' = Some False"
    if kw: "(k, w) \<in># items seven \<or> k = replicate 7 CHR ''x''" for k w
  proof -
    obtain n where "k = replicate n CHR ''x''" using kw seven_items by blast
    then show ?thesis by (simp add: neq str_ops_compare)
  qed
  have full: "ma_used seven = ma_mask seven" by (simp add: seven_def)
  have "items mp' = add_mset (replicate 7 CHR ''x'', 7) (items seven) \<and> call_lookup str_ops mp' ''absent'' 6 = None"
    by (rule PyDict_SetItem_fills_table [OF seven_inv str_ops_laws(1) full set]) (rule absent)
  then show ?thesis using set by blast
qed

section \<open>Going through a dictionary\<close>

text \<open>
  C13. The loop "while d: d.popitem()" ends after as many calls as there are items,
  whatever search finger slot 0 holds at the start, gives every item once and leaves a
  valid empty dictionary.
\<close>

theorem dict_popitem_drains:
  assumes "dict_inv E mp"
  shows "\<exists>xs mp'. pop_times pop_some (ma_used mp) mp = (xs, mp') \<and> mset xs = items mp \<and> dict_inv E mp' \<and> ma_used mp' = 0"
proof -
  have used: "card (set_mset (items mp)) = ma_used mp"
    using uniq_card [OF dict_invD(3) [OF assms]] dict_okD(8) [OF dict_invD(1) [OF assms]] by simp
  obtain xs mp' where run: "pop_times pop_some (ma_used mp) mp = (xs, mp')" "dict_inv E mp'" "set_mset (items mp') = {}"
    "distinct xs" "set xs = set_mset (items mp)"
    using popped.pop_all [OF assms] unfolding used by blast
  have "mset xs = mset_set (set_mset (items mp))" using mset_set_set [OF run(4)] run(5) by simp
  moreover have "mset_set (set_mset (items mp)) = items mp"
    using mset_set_set_mset_msubset [of "items mp"] mset_subset_size [of "mset_set (set_mset (items mp))" "items mp"]
      used dict_okD(8) [OF dict_invD(1) [OF assms]] by (auto simp: subset_mset_def size_mset_set)
  moreover have "ma_used mp' = 0" using dict_okD(8) [OF dict_invD(1) [OF run(2)]] run(3) by simp
  ultimately show ?thesis using run(1,2) by metis
qed

lemma dict_popitem_drains_witness:
  "\<exists>xs mp'. pop_times pop_some (ma_used seven) seven = (xs, mp') \<and> mset xs = items seven
    \<and> dict_inv str_ops mp' \<and> ma_used mp' = 0"
  by (rule dict_popitem_drains [OF seven_inv])

text \<open>
  C22. A for statement over a dictionary that does not change gives the keys that keys()
  lists, in the same order, each of them once, and then stops; and keys() fills exactly
  the places of the list it has made.
\<close>

theorem dict_iteration_is_keys:
  assumes "dict_ok E d"
  shows "\<exists>ks. run_iter (ma_used d + 1) (dictiter_iternextkey d) (dictiter_new d) = (ks, Some StopIteration)
    \<and> dict_keys True d = Some (d, Inr (map Some ks)) \<and> mset ks = image_mset (\<lambda>x. Key (fst x)) (items d)"
proof -
  let ?ks = "map (\<lambda>x. Key (fst x)) (entries_of (ma_table d))"
  have "run_iter (ma_used d + 1) (dictiter_iternextkey d) (dictiter_new d) = (?ks, Some StopIteration)"
    using run_iter_keys [OF assms iter_at_new [OF assms], of "ma_used d + 1"] by (simp add: dict_okD(7) [OF assms])
  moreover have "dict_keys True d = Some (d, Inr (map Some ?ks))"
    unfolding dict_keys_def using fill_list_full [OF assms, of me_key "\<lambda>x. Key (fst x)"] by (simp add: comp_def)
  ultimately show ?thesis by (intro exI [of _ ?ks]) (simp add: items_def)
qed

lemma dict_iteration_is_keys_witness:
  "\<exists>ks. run_iter (ma_used seven + 1) (dictiter_iternextkey seven) (dictiter_new seven) = (ks, Some StopIteration)
    \<and> dict_keys True seven = Some (seven, Inr (map Some ks)) \<and> mset ks = image_mset (\<lambda>x. Key (fst x)) (items seven)"
  by (rule dict_iteration_is_keys [OF dict_invD(1) [OF seven_inv]])

section \<open>Two dictionaries\<close>

text \<open>
  C19. Merging returns and keeps the invariant; when it succeeds the result is the union
  of the maps, the other dictionary's items winning if override is set, and it fails
  only for want of memory or through an exception in a comparison.
\<close>

theorem PyDict_Merge_is_union:
  assumes "dict_inv E mp" and "dict_inv E other" and "key_laws E" and "same_object \<longrightarrow> other = mp"
  shows "\<exists>mp' r. PyDict_Merge mem E same_object mp other ov = Some (mp', r) \<and> dict_inv E mp'
    \<and> (r = Inr () \<longrightarrow> (\<forall>k. dict_map E mp' k = (case dict_map E other k of
          None \<Rightarrow> dict_map E mp k
        | Some v \<Rightarrow> if ov \<or> dict_map E mp k = None then Some v else dict_map E mp k)))
    \<and> (\<forall>e. r = Inl e \<longrightarrow> e = MemoryError \<and> (\<exists>n \<le> 4 * (ma_used mp + ma_used other). \<not> PyMem_NEW mem n)
        \<or> e = CompareError \<and> \<not> total_keys E)"
  using PyDict_Merge_map [OF assms(1-3) mp [OF assms(4)], where mem = mem and ov = ov] unfolding map_merge_def fun_eq_iff .

lemma PyDict_Merge_is_union_witness:
  "\<exists>mp'. PyDict_Merge (\<lambda>_. True) str_ops False empty_dict seven False = Some (mp', Inr ()) \<and> dict_inv str_ops mp'
    \<and> (\<forall>k. dict_map str_ops mp' k = (case dict_map str_ops seven k of
          None \<Rightarrow> dict_map str_ops empty_dict k
        | Some v \<Rightarrow> if False \<or> dict_map str_ops empty_dict k = None then Some v else dict_map str_ops empty_dict k))"
proof -
  have mem: "PyMem_NEW (\<lambda>_. True) n" if "n \<le> 4 * (ma_used empty_dict + ma_used seven)" for n
    using that by (simp add: PyMem_NEW_def empty_dict_def seven_def)
  have diff: "False \<longrightarrow> seven = empty_dict" by simp
  obtain mp' r where merge: "PyDict_Merge (\<lambda>_. True) str_ops False empty_dict seven False = Some (mp', r)"
    "dict_inv str_ops mp'"
    "r = Inr () \<longrightarrow> (\<forall>k. dict_map str_ops mp' k = (case dict_map str_ops seven k of
          None \<Rightarrow> dict_map str_ops empty_dict k
        | Some v \<Rightarrow> if False \<or> dict_map str_ops empty_dict k = None then Some v else dict_map str_ops empty_dict k))"
    "\<forall>e. r = Inl e \<longrightarrow> e = MemoryError \<and> (\<exists>n \<le> 4 * (ma_used empty_dict + ma_used seven). \<not> PyMem_NEW (\<lambda>_. True) n)
        \<or> e = CompareError \<and> \<not> total_keys str_ops"
    using PyDict_Merge_is_union [OF empty_dict_inv(1) seven_inv str_ops_laws(1) diff, where mem = "\<lambda>_. True" and ov = False]
    by (elim exE conjE) (erule (3) that)
  have "r = Inr ()" using merge(4) mem str_ops_laws(2) by (cases r) auto
  with merge(3) have "\<forall>k. dict_map str_ops mp' k = (case dict_map str_ops seven k of
          None \<Rightarrow> dict_map str_ops empty_dict k
        | Some v \<Rightarrow> if False \<or> dict_map str_ops empty_dict k = None then Some v else dict_map str_ops empty_dict k)"
    by (rule mp)
  with merge(1,2) \<open>r = Inr ()\<close> show ?thesis by (intro exI [of _ mp'] conjI) simp_all
qed

text \<open>
  C20. Equality of dictionaries decides whether they are the same map, up to equality of
  keys and of values, although only the items of one of them are looked at.
\<close>

theorem dict_equal_decides:
  assumes "dict_inv E a" and "dict_inv E b" and "key_laws E" and "total_keys E" and "\<forall>x y. veq x y \<noteq> None"
  shows "\<exists>b'. dict_equal E veq a b = Some (b', Inr
    (\<forall>k. rel_option (\<lambda>x y. veq x y = Some True) (dict_map E a k) (dict_map E b k)))"
  using dict_equal_iff_maps_agree [OF assms] unfolding maps_agree_def .

lemma dict_equal_decides_witness:
  "\<exists>b'. dict_equal str_ops (\<lambda>x y. Some (x = y)) seven seven = Some (b', Inr
    (\<forall>k. rel_option (\<lambda>x y. Some (x = y) = Some True) (dict_map str_ops seven k) (dict_map str_ops seven k)))"
  by (rule dict_equal_decides [OF seven_inv seven_inv str_ops_laws]) simp

text \<open>
  C21. A copy equals the dictionary it was made from, also when the new object comes from
  the free list; copying fails only for want of memory for the object or its table.
\<close>

theorem PyDict_Copy_equal:
  assumes "dict_inv E d" and "key_laws E" and "total_keys E" and "\<forall>mp \<in> set fl. reusable mp"
    and "\<forall>x y. veq x y \<noteq> None" and "\<forall>x. veq x x = Some True"
  shows "PyDict_Copy mem E raw fl d = Some (Inl MemoryError)
        \<and> (raw = None \<and> fl = [] \<or> (\<exists>n \<le> 4 * ma_used d. \<not> PyMem_NEW mem n))
    \<or> (\<exists>d' b. PyDict_Copy mem E raw fl d = Some (Inr d') \<and> dict_equal E veq d d' = Some (b, Inr True))"
proof (cases "PyDict_New raw fl")
  case (Pair new fl')
  show ?thesis
  proof (cases new)
    case None
    then show ?thesis using Pair by (auto simp: PyDict_Copy_def PyDict_New_def split: list.splits option.splits)
  next
    case (Some c)
    then have new: "PyDict_New raw fl = (Some c, fl')" using Pair by simp
    have c: "dict_inv E c" "items c = {#}" using PyDict_New_empty [OF assms(4) new] by blast+
    then have "ma_used c = 0" using dict_okD(8) [OF dict_invD(1) [OF c(1)]] by simp
    then obtain d' r where merge: "PyDict_Merge mem E False c d True = Some (d', r)"
      "\<forall>e. r = Inl e \<longrightarrow> e = MemoryError \<and> (\<exists>n \<le> 4 * ma_used d. \<not> PyMem_NEW mem n) \<or> e = CompareError \<and> \<not> total_keys E"
      using PyDict_Merge_map [OF c(1) assms(1,2), where same_object = False and mem = mem and ov = True] by auto
    show ?thesis
    proof (cases r)
      case (Inl e)
      then show ?thesis using merge new assms(3) by (auto simp: PyDict_Copy_def)
    next
      case (Inr u)
      then have copy: "PyDict_Copy mem E raw fl d = Some (Inr d')" using merge(1) new by (simp add: PyDict_Copy_def)
      from copy_equal [OF assms(1-6) copy] copy show ?thesis by blast
    qed
  qed
qed

lemma PyDict_Copy_equal_witness:
  "\<exists>d' b. PyDict_Copy (\<lambda>_. True) str_ops None [empty_dict] seven = Some (Inr d')
    \<and> dict_equal str_ops (\<lambda>x y. Some (x = y)) seven d' = Some (b, Inr True)"
proof -
  have mem: "PyMem_NEW (\<lambda>_. True) n" if "n \<le> 4 * ma_used seven" for n
    using that by (simp add: PyMem_NEW_def seven_def)
  have fl: "\<forall>mp \<in> set [empty_dict]. reusable mp" by (simp add: reusable_def empty_dict_def PyDict_MINSIZE_def)
  have veq: "\<forall>x y. Some (x = y) \<noteq> (None :: bool option)" "\<forall>x. Some (x = x) = Some True" for x y :: nat by simp_all
  from PyDict_Copy_equal [OF seven_inv str_ops_laws fl, of "\<lambda>x y. Some (x = y)" "\<lambda>_. True" None] mem
  show ?thesis by auto
qed

text \<open>
  C24. fromkeys with a dictionary of seven keys leaves seven used slots in a table of
  eight: the load is above the two thirds that the comment on ma_table promises and that
  SetItem keeps.
\<close>

theorem dict_fromkeys_overfills:
  assumes "dict_inv E seq" and "ma_fill seq = 7" and "ma_used seq = 7" and "key_laws E" and "total_keys E"
    and "\<forall>mp \<in> set fl. reusable mp" and "PyDict_New raw fl = (Some d, fl')"
  shows "\<exists>d'. dict_fromkeys mem E d seq v = Some (d', Inr ()) \<and> ma_fill d' = 7 \<and> ma_mask d' + 1 = 8
    \<and> (ma_mask d' + 1) * 2 \<le> ma_fill d' * 3"
proof -
  have d: "dict_inv E d" "items d = {#}" using PyDict_New_empty [OF assms(6,7)] by blast+
  have new: "ma_malloced d = None" "ma_fill d = 0" using PyDict_New_fields [OF assms(6,7)] by blast+
  obtain d' where "dict_fromkeys mem E d seq v = Some (d', Inr ())" "ma_mask d' = 7" "ma_fill d' = 7"
    using dict_fromkeys_overfull [OF assms(1-3) d new assms(4,5)] by blast
  then show ?thesis by simp
qed

lemma dict_fromkeys_overfills_witness:
  "\<exists>d'. dict_fromkeys (\<lambda>_. True) str_ops empty_dict seven 1 = Some (d', Inr ()) \<and> ma_fill d' = 7 \<and> ma_mask d' + 1 = 8
    \<and> (ma_mask d' + 1) * 2 \<le> ma_fill d' * 3"
proof (rule dict_fromkeys_overfills [OF seven_inv _ _ str_ops_laws])
  show "PyDict_New None [empty_dict] = (Some empty_dict, [])"
    by (simp add: PyDict_New_def empty_dict_def INIT_NONZERO_DICT_SLOTS_def PyDict_MINSIZE_def)
qed (simp_all add: seven_def reusable_def empty_dict_def PyDict_MINSIZE_def)

text \<open>
  C23. Dictionaries from the free list are empty: a dictionary that is made by
  PyDict_New, presized or filled by fromkeys, used by any sequence of the operations of
  the model (those on one key, GetItem, popitem, merging in a dictionary or a sequence
  of pairs) with whatever errors, up to the first MemoryError, and deallocated, and then
  made again, holds nothing, although an object that looks unused is not cleared. Every
  such life ends.
\<close>

theorem recycled_dict_is_empty:
  assumes "key_laws E" and "\<forall>mp \<in> set fl. reusable mp" and "PyDict_New raw fl = (Some mp, fl')"
    and "start_ok E start" and "\<forall>u \<in> set us. use_ok E u"
  shows "\<exists>mp'. dict_life mem E start us mp = Some mp' \<and>
    (\<forall>raw' mp'' fl''. PyDict_New raw' (dict_dealloc mp' fl') = (Some mp'', fl'') \<longrightarrow>
      dict_inv E mp'' \<and> (\<forall>k. dict_map E mp'' k = None) \<and> (\<forall>mp \<in> set fl''. reusable mp))"
proof -
  obtain mp' where life: "dict_life mem E start us mp = Some mp'" "reusable mp'"
    using dict_life_reusable [OF assms(2,3,1,4,5), of mem] by blast
  have fl': "\<forall>mp \<in> set fl'. reusable mp" using PyDict_New_empty [OF assms(2,3)] by blast
  have "dict_inv E mp'' \<and> (\<forall>k. dict_map E mp'' k = None) \<and> (\<forall>mp \<in> set fl''. reusable mp)"
    if again: "PyDict_New raw' (dict_dealloc mp' fl') = (Some mp'', fl'')" for raw' mp'' fl''
  proof -
    have "dict_inv E mp''" "items mp'' = {#}" "\<forall>mp \<in> set fl''. reusable mp"
      using PyDict_New_empty [OF dict_dealloc_reusable [OF fl' life(2)] again] by blast+
    then show ?thesis using dict_map_matching(2) [OF dict_invD(3)] by fastforce
  qed
  then show ?thesis using life(1) by blast
qed

lemma recycled_dict_is_empty_witness:
  "\<exists>mp' mp''. dict_life (\<lambda>_. True) str_ops (From_Keys seven 0)
      [Use (OpSet ''a'' 1), Pop_Item True, Merge False seven True, Merge_Seq [(''b'', 2)] False, Use (OpDel ''a'')]
      empty_dict = Some mp'
    \<and> PyDict_New None (dict_dealloc mp' []) = (Some mp'', []) \<and> dict_inv str_ops mp''
    \<and> (\<forall>k. dict_map str_ops mp'' k = None)"
proof -
  let ?us = "[Use (OpSet ''a'' 1), Pop_Item True, Merge False seven True, Merge_Seq [(''b'', 2)] False, Use (OpDel ''a'')]"
  have new: "PyDict_New None [empty_dict] = (Some empty_dict, [])"
    by (simp add: PyDict_New_def empty_dict_def INIT_NONZERO_DICT_SLOTS_def PyDict_MINSIZE_def)
  have r: "\<forall>mp \<in> set [empty_dict]. reusable mp" by (simp add: reusable_def empty_dict_def PyDict_MINSIZE_def)
  have ok: "start_ok str_ops (From_Keys seven 0)" "\<forall>u \<in> set ?us. use_ok str_ops u" using seven_inv by simp_all
  obtain mp' where life: "dict_life (\<lambda>_. True) str_ops (From_Keys seven 0) ?us empty_dict = Some mp'"
    and again: "\<And>mp'' fl''. PyDict_New None (dict_dealloc mp' []) = (Some mp'', fl'') \<Longrightarrow>
      dict_inv str_ops mp'' \<and> (\<forall>k. dict_map str_ops mp'' k = None)"
    using recycled_dict_is_empty [OF str_ops_laws(1) r new ok, of "\<lambda>_. True"] by blast
  obtain mp'' where "PyDict_New None (dict_dealloc mp' []) = (Some mp'', [])"
    by (simp add: PyDict_New_def dict_dealloc_def PyDict_MAXFREELIST_def)
  with life again show ?thesis by blast
qed

end
