(* ===== verification/Spec2Isabelle.thy ===== *)
theory Spec2Isabelle
  imports Object_Cache Util_Escape Util_List Util_Cfg Apr_Queue Worker_Mpm Apr_Rmm Apr_Table Py_List Py_Dict_Props
begin

text \<open>
  A verification development for the C code of the repository. The repository is
  a harness for measuring browsers over simulated networks: its own programs
  (sr*.py, pageloader, wpr) are Python and JavaScript and run on two
  large C programs that it carries as source, the Apache HTTP server 2.2 with APR
  (apache/src) and CPython 2.7 (python/src). The C code is what is modelled
  here: components of the server and of the interpreter whose logic can be stated
  without the operating system.

  How the theories follow the code. Paths are relative to src/.

  Prelude has the conventions: C strings are the lists of their characters
  before the NUL, a pointer into one is a suffix; ctype.h in the C locale.
  Interfaces has the contracts between components as locales (a priority
  queue, a keyed store, an allocator, and others); each is interpreted on the
  model of the component that provides it.

  The object cache of mod_mem_cache (apache/src/modules/cache). Cache_Pqueue is
  cache_pqueue.c, an array heap: heap order and the positions recorded in the
  objects are kept by every operation, draining it is sorting. Cache_Hash is
  cache_hash.c, a chained hash table, which refines a map whatever collides.
  Object_Cache is cache_cache.c over both, with the callbacks of
  mod_mem_cache.c: eviction until a new object fits, the agreement of queue and
  table, and the fault that an object larger than the cache leads to.

  The string functions of the server (apache/src/server). Util_Path: path
  clean-up (ap_getparents, ap_no2slash). Util_Word: words and quoted words of
  configuration lines, environment variables in them. Test_Char: the table of
  gen_test_char.c. Util_Escape: URL, HTML, shell and log escapes, and the start of
  ap_process_request_internal, whose accepted paths are shown to be safe.
  Util_List: the lists in header fields. Util_Cfg: lines of configuration
  files, with apr_file_gets.

  Threads (apache/src/srclib/apr-util/misc/apr_queue.c and
  apache/src/server/mpm/worker). Apr_Queue is the blocking queue: steps of its
  callers as a relation, so every schedule is covered; no wake-up is lost, the
  queue is first in first out, termination reaches every caller. Fd_Queue is
  fdqueue.c and Worker_Mpm is worker.c: one child process with its listener
  and its workers; no deadlock but one after an ungraceful shutdown, which is
  exhibited, the queue never overflows, a graceful shutdown drains it, and
  recycled pools have one owner.

  APR (apache/src/srclib). Apr_Rmm is the allocator in shared memory: its two
  block lists over a memory of headers, malloc, calloc, realloc and free; the
  blocks of a client never overlap, and freeing all of them gives one
  block again. Apr_Table is apr_tables.c: the index and the checksums
  are exact after any operations, tables refine association lists, overlap
  and compress, and the merge sort inside.

  list.sort of CPython (python/src/Objects/listobject.c). Py_Runs: comparisons
  that may raise, binary insertion, natural runs, the two gallops. Py_Merge:
  the state of a merge, and as locales the loops that merge_lo and merge_hi
  share; Py_Merge_Lo and Py_Merge_Hi are the two. Py_Listsort: the stack of
  pending runs, minrun and the main loop. Py_List: list.sort with its
  arguments, and list.reverse. Two things are shown of every part: for any
  comparison at all it rearranges its slice and touches nothing else; and for an
  order it does so stably and sorts. The first makes list.sort leave the
  objects it was given in every case, in the slots themselves but for one
  failure that leaves some of them in wrappers, which is also shown.

  Dictionaries of CPython (python/src/Objects/dictobject.c). Py_Probe: the sequence
  of slots for a hash value and that it goes through the whole table. Py_Lookdict:
  lookdict and lookdict_string, both as interpretations of one contract for
  searches along that sequence. Py_Dict: the object and its operations, with the
  free list. Py_Dict_Wf has the invariant (the counts are those of the table,
  every key is found from its hash), Py_Dict_Resize insertion and dictresize,
  Py_Dict_Map the map that a dictionary stands for, up to the equality of keys that
  the objects define, and the refinement of every operation; Py_Dict_Iter
  PyDict_Next, iterators, keys(), values(), items() and popitem; Py_Dict_Merge
  updates, copies, fromkeys and equality; Py_Dict_Thms what follows from these
  together (equality decides the map, objects of the free list are clean, which
  errors can occur, a table that cannot grow); Py_Dict_Life runs an object from
  PyDict_New through any of these operations to the free list. Py_Dict_Props states
  the properties, each with an instance.

  Termination and bounds. Recursions are total functions with a measure,
  except where the code follows links in memory or evicts until there is room:
  those loops are partial functions, None when they do not end (Apr_Rmm,
  Object_Cache, the self check of Cache_Pqueue, the searches of dictionaries),
  and the theorems show that they return, or exactly when they do not. A null
  pointer that cache_insert dereferences is not such a None but a result of its own,
  which keeps the cache it happens in. The one loop with fuel, the clean-up of recycled pools in Fd_Queue, is
  shown to end for any fuel above the number of pools. Sizes are natural
  numbers (so the number of buckets of a hash table is below 2^31 and sums of sizes
  in the object cache do not wrap) unless the code depends on their width, and then
  machine words are
  used (the checksum and index of Apr_Table, the hash of Cache_Hash, the probe
  sequence and the size computed by dictresize) or the bound is written out
  (Apr_Rmm, merge_getmem, PyMem_NEW, which limits tables of dictionaries to 2^58
  slots). The pending stack of list.sort
  has its 85 slots, and running out of them is an outcome, shown not to occur up
  to 117842 elements.

  What the code calls and cannot be read here is a parameter: memory
  allocation succeeds or fails by an argument, comparison, hash and key
  functions are arbitrary and may raise exceptions, the contents of fresh memory
  are arbitrary. Mutexes, conditions and
  atomic operations are taken to do what their documentation says.

  Not modelled. Of the modelled files: reference counts and pools as owners of
  memory, logging and debugging output, alternatives for other systems, and
  assertions, except those of merge_at, merge_lo, merge_hi and the main loop of
  list.sort, which are outcomes and shown to hold; in
  dictobject.c also comparisons that change the dictionary they are made for,
  printing, and the garbage collector's tracking. Of the
  two programs: everything that is mainly input and output or glue
  (processes, sockets, files, the module interface), the vendored libraries
  in them (PCRE, expat, zlib, sqlite, libffi), the bytecode interpreter and
  the other modules, listed in the manifest with the reason. The harness itself is
  not C.
\<close>

end
